(* ===== verification/Prelude.thy ===== *)
theory Prelude
  imports Main "HOL-Library.Word"
begin

text \<open>
  Shared ground of the development: the memory model behind \<open>clog_malloc\<close> and
  \<open>clog_free\<close>, the collections the component theories add their rules to, and the
  generic facts about lists, options and words that more than one component uses.

  Memory. The library allocates with \<open>clog_malloc\<close> and releases with \<open>clog_free\<close>
  (src/source/hooks/clog_hooks.h); without the debug hooks they are the C library's
  \<open>malloc\<close> (NULL for size 0) and \<open>free\<close> (nothing for NULL). Whether the n-th request
  is granted is not determined by the program: it is the field \<open>grants\<close> of the record \<open>mem\<close>, any
  function of the number of requests made so far. \<open>live\<close> counts the blocks handed out
  and not yet released, so that a leak or a second release shows in it.

  Components whose pointers are shared (queues, pools) use \<open>heap\<close>, which adds an explicit
  store from addresses to cells. Address 0 is NULL. An access to an address that holds no cell
  (never allocated, or freed) is undefined behaviour in C; operations on a heap return an
  option and that access is \<open>None\<close>. A block gets an address no block had before; where
  address reuse matters to a component it reuses addresses itself.
\<close>

named_theorems mem_simps "effect of allocation and release on the memory state"
named_theorems step_simps "one operation of a component, evaluated"
named_theorems inv_intros "preservation of a component's invariant"

subsection \<open>Allocation\<close>

record mem =
  grants :: "nat \<Rightarrow> bool"
  tick :: nat
  live :: int

definition clog_malloc :: "nat \<Rightarrow> 'a mem_scheme \<Rightarrow> bool \<times> 'a mem_scheme" where
  "clog_malloc n m =
     (if n = 0 then (False, m)
      else if grants m (tick m)
        then (True, m\<lparr>tick := Suc (tick m), live := live m + 1\<rparr>)
        else (False, m\<lparr>tick := Suc (tick m)\<rparr>))"

definition clog_free :: "'a mem_scheme \<Rightarrow> 'a mem_scheme" where
  "clog_free m = m\<lparr>live := live m - 1\<rparr>"

definition clog_free_opt :: "'p option \<Rightarrow> 'a mem_scheme \<Rightarrow> 'a mem_scheme" where
  "clog_free_opt p m = (case p of None \<Rightarrow> m | Some _ \<Rightarrow> clog_free m)"

definition mem_ok :: mem where
  "mem_ok = \<lparr>grants = (\<lambda>_. True), tick = 0, live = 0\<rparr>"

definition mem_fail_at :: "nat set \<Rightarrow> mem" where
  "mem_fail_at F = \<lparr>grants = (\<lambda>n. n \<notin> F), tick = 0, live = 0\<rparr>"

lemma clog_malloc_zero [simp]: "clog_malloc 0 m = (False, m)"
  by (simp add: clog_malloc_def)

lemma live_clog_malloc [mem_simps]:
  "live (snd (clog_malloc n m)) = live m + (if fst (clog_malloc n m) then 1 else 0)"
  by (simp add: clog_malloc_def)

lemma live_clog_mallocD:
  "clog_malloc n m = (b, m') \<Longrightarrow> live m' = live m + (if b then 1 else 0)"
  by (auto simp: clog_malloc_def split: if_splits)

lemma grants_clog_malloc [mem_simps]: "grants (snd (clog_malloc n m)) = grants m"
  by (simp add: clog_malloc_def)

lemma grants_clog_mallocD: "clog_malloc n m = (b, m') \<Longrightarrow> grants m' = grants m"
  by (auto simp: clog_malloc_def split: if_splits)

lemma clog_malloc_total:
  "(\<And>i. grants m i) \<Longrightarrow> 0 < n \<Longrightarrow>
   clog_malloc n m = (True, m\<lparr>tick := Suc (tick m), live := live m + 1\<rparr>)"
  by (simp add: clog_malloc_def)

lemma live_clog_free [mem_simps]: "live (clog_free m) = live m - 1"
  by (simp add: clog_free_def)

lemma grants_clog_free [mem_simps]: "grants (clog_free m) = grants m"
  by (simp add: clog_free_def)

lemma live_clog_free_opt [mem_simps]:
  "live (clog_free_opt p m) = live m - (if p = None then 0 else 1)"
  by (simp add: clog_free_opt_def mem_simps split: option.splits)

lemma grants_clog_free_opt [mem_simps]: "grants (clog_free_opt p m) = grants m"
  by (simp add: clog_free_opt_def mem_simps split: option.splits)

subsection \<open>Heaps: addresses and cells\<close>

type_synonym addr = nat

abbreviation (input) NULL :: addr where "NULL \<equiv> 0"

record 'c heap = mem +
  cells :: "addr \<rightharpoonup> 'c"
  brk :: addr

definition heap_ok :: "'c heap \<Rightarrow> bool" where
  "heap_ok h \<longleftrightarrow> 0 < brk h \<and> finite (dom (cells h)) \<and>
     (\<forall>a \<in> dom (cells h). 0 < a \<and> a < brk h)"

text \<open>Allocate one cell: its address, or NULL when the request is refused.\<close>

definition halloc :: "'c \<Rightarrow> 'c heap \<Rightarrow> addr \<times> 'c heap" where
  "halloc c h =
     (case clog_malloc 1 h of
        (False, h') \<Rightarrow> (NULL, h')
      | (True, h') \<Rightarrow> (brk h', h'\<lparr>cells := (cells h')(brk h' \<mapsto> c), brk := Suc (brk h')\<rparr>))"

text \<open>Free one cell; freeing an address that holds no cell is undefined behaviour.\<close>

definition hfree :: "addr \<Rightarrow> 'c heap \<Rightarrow> 'c heap option" where
  "hfree a h = (case cells h a of
      None \<Rightarrow> None
    | Some _ \<Rightarrow> Some ((clog_free h)\<lparr>cells := (cells h)(a := None)\<rparr>))"

definition hupd :: "addr \<Rightarrow> ('c \<Rightarrow> 'c) \<Rightarrow> 'c heap \<Rightarrow> 'c heap option" where
  "hupd a f h = (case cells h a of
      None \<Rightarrow> None
    | Some c \<Rightarrow> Some (h\<lparr>cells := (cells h)(a \<mapsto> f c)\<rparr>))"

definition heap_empty :: "(nat \<Rightarrow> bool) \<Rightarrow> 'c heap" where
  "heap_empty orc = \<lparr>grants = orc, tick = 0, live = 0, cells = Map.empty, brk = 1\<rparr>"

lemma heap_ok_empty [simp]: "heap_ok (heap_empty orc)"
  by (simp add: heap_ok_def heap_empty_def)

lemma clog_malloc_heap:
  "clog_malloc n h = (b, h') \<Longrightarrow> cells h' = cells h \<and> brk h' = brk h"
  by (auto simp: clog_malloc_def split: if_splits)

lemma halloc_cases:
  assumes "halloc c h = (a, h')"
  obtains (fail) "a = NULL" "cells h' = cells h" "brk h' = brk h" "live h' = live h"
    | (ok) "a = brk h" "cells h' = (cells h)(brk h \<mapsto> c)" "brk h' = Suc (brk h)"
      "live h' = live h + 1"
  using assms
  by (auto simp: halloc_def clog_malloc_def split: if_splits prod.splits bool.splits)

lemma halloc_granted:
  "grants h (tick h) \<Longrightarrow> halloc c h =
     (brk h, h\<lparr>tick := Suc (tick h), live := live h + 1,
               cells := (cells h)(brk h \<mapsto> c), brk := Suc (brk h)\<rparr>)"
  by (simp add: halloc_def clog_malloc_def)

lemma halloc_refused: "\<not> grants h (tick h) \<Longrightarrow> halloc c h = (NULL, h\<lparr>tick := Suc (tick h)\<rparr>)"
  by (simp add: halloc_def clog_malloc_def)

lemma heap_ok_halloc: "heap_ok h \<Longrightarrow> halloc c h = (a, h') \<Longrightarrow> heap_ok h'"
  by (erule halloc_cases) (auto simp: heap_ok_def less_Suc_eq)

lemma heap_ok_brk: "heap_ok h \<Longrightarrow> cells h (brk h) = None"
  by (auto simp: heap_ok_def)

lemma heap_ok_null: "heap_ok h \<Longrightarrow> cells h NULL = None"
  by (auto simp: heap_ok_def)

lemma heap_ok_hfree: "heap_ok h \<Longrightarrow> hfree a h = Some h' \<Longrightarrow> heap_ok h'"
  by (auto simp: heap_ok_def hfree_def clog_free_def split: option.splits if_splits
      intro: finite_subset [of _ "dom (cells h)"])

lemma hfree_Some:
  "cells h a = Some c \<Longrightarrow> hfree a h = Some ((clog_free h)\<lparr>cells := (cells h)(a := None)\<rparr>)"
  by (simp add: hfree_def)

lemma hupd_Some:
  "cells h a = Some c \<Longrightarrow> hupd a f h = Some (h\<lparr>cells := (cells h)(a \<mapsto> f c)\<rparr>)"
  by (simp add: hupd_def)

subsection \<open>Lists and options\<close>

text \<open>Replace one element of a list at an index, when the index is in range.\<close>

lemma concat_list_update:
  "i < length xss \<Longrightarrow>
   concat (xss[i := ys]) = concat (take i xss) @ ys @ concat (drop (Suc i) xss)"
  by (simp add: upd_conv_take_nth_drop)

lemma concat_split_nth:
  "i < length xss \<Longrightarrow> concat xss = concat (take i xss) @ xss ! i @ concat (drop (Suc i) xss)"
  by (metis append.assoc concat.simps(2) concat_append id_take_nth_drop)

lemma takeWhile_prefix_append:
  "\<forall>x \<in> set xs. P x \<Longrightarrow> takeWhile P (xs @ ys) = xs @ takeWhile P ys"
  by (simp add: takeWhile_append2)

subsection \<open>The text of numbers\<close>

text \<open>What \<open>printf\<close> writes for \<open>%u\<close> and \<open>%d\<close>.\<close>


definition digit_char :: "nat \<Rightarrow> char" where
  "digit_char n = ''0123456789'' ! n"

fun show_nat :: "nat \<Rightarrow> string" where
  "show_nat n = (if n < 10 then [digit_char n] else show_nat (n div 10) @ [digit_char (n mod 10)])"

declare show_nat.simps [simp del]

definition show_int :: "int \<Rightarrow> string" where
  "show_int i = (if i < 0 then ''-'' @ show_nat (nat (- i)) else show_nat (nat i))"

lemma show_nat_length: "n < 10 ^ k \<Longrightarrow> 0 < k \<Longrightarrow> length (show_nat n) \<le> k"
proof (induction k arbitrary: n)
  case (Suc k)
  show ?case
  proof (cases "n < 10")
    case True
    then show ?thesis by (subst show_nat.simps) simp
  next
    case False
    with Suc.prems(1) have "n div 10 < 10 ^ k" "0 < k" by (auto simp: less_mult_imp_div_less intro: gr0I)
    with Suc.IH [of "n div 10"] False show ?thesis by (subst show_nat.simps) simp
  qed
qed simp

end
