(* ===== verification/Base.thy ===== *)
theory Base
  imports Prelude
begin

unbundle bit_operations_syntax

text \<open>
  The public types of the library (src/include/casca_log_base.h, casca_log_config.h): result
  codes, levels, context states, the log item and the module description, with the build-time
  constants at the defaults of src/source/CMakeLists.txt. Also the conversion from \<open>errno\<close>
  to a result code (clog_error.c), the version macros and the helper that finds a file name in
  a path.
\<close>

subsection \<open>Result codes, levels, states\<close>

datatype clog_res =
    CLOG_SUCCESS | CLOG_FAIL | CLOG_NOT_SUPPORTED | CLOG_INVALID_PARAM | CLOG_ERROR_FORMAT
  | CLOG_NO_MEMORY | CLOG_TARGET_NOT_FOUND | CLOG_OVERSIZE | CLOG_NOT_PERMITTED
  | CLOG_REQUEST_FLUSH | CLOG_ALREADY_EXISTED | CLOG_NOT_COMPLETED | CLOG_ABNORMAL_STATE
  | CLOG_BUSY | CLOG_TIMEOUT

fun res_code :: "clog_res \<Rightarrow> nat" where
  "res_code CLOG_SUCCESS = 0" | "res_code CLOG_FAIL = 1" | "res_code CLOG_NOT_SUPPORTED = 2"
| "res_code CLOG_INVALID_PARAM = 3" | "res_code CLOG_ERROR_FORMAT = 4"
| "res_code CLOG_NO_MEMORY = 5" | "res_code CLOG_TARGET_NOT_FOUND = 6"
| "res_code CLOG_OVERSIZE = 7" | "res_code CLOG_NOT_PERMITTED = 8"
| "res_code CLOG_REQUEST_FLUSH = 9" | "res_code CLOG_ALREADY_EXISTED = 10"
| "res_code CLOG_NOT_COMPLETED = 11" | "res_code CLOG_ABNORMAL_STATE = 12"
| "res_code CLOG_BUSY = 13" | "res_code CLOG_TIMEOUT = 14"

lemma inj_res_code: "res_code r = res_code r' \<longleftrightarrow> r = r'"
  by (cases r; cases r') simp_all

lemma res_code_0 [simp]: "res_code r = 0 \<longleftrightarrow> r = CLOG_SUCCESS"
  using inj_res_code [of r CLOG_SUCCESS] by simp

text \<open>Result codes are ordered by their numbers, as the C enumeration is.\<close>

instantiation clog_res :: linorder
begin

definition less_eq_clog_res :: "clog_res \<Rightarrow> clog_res \<Rightarrow> bool" where
  "less_eq_clog_res a b \<longleftrightarrow> res_code a \<le> res_code b"

definition less_clog_res :: "clog_res \<Rightarrow> clog_res \<Rightarrow> bool" where
  "less_clog_res a b \<longleftrightarrow> res_code a < res_code b"

instance
  by standard (auto simp: less_eq_clog_res_def less_clog_res_def inj_res_code)

end

datatype clog_level =
    CLOG_LEVEL_OFF | CLOG_LEVEL_TRACE | CLOG_LEVEL_DEBUG | CLOG_LEVEL_INFO
  | CLOG_LEVEL_WARN | CLOG_LEVEL_ERROR | CLOG_LEVEL_FETAL

fun level_code :: "clog_level \<Rightarrow> nat" where
  "level_code CLOG_LEVEL_OFF = 0" | "level_code CLOG_LEVEL_TRACE = 1"
| "level_code CLOG_LEVEL_DEBUG = 2" | "level_code CLOG_LEVEL_INFO = 3"
| "level_code CLOG_LEVEL_WARN = 4" | "level_code CLOG_LEVEL_ERROR = 5"
| "level_code CLOG_LEVEL_FETAL = 6"

lemma inj_level_code: "level_code a = level_code b \<longleftrightarrow> a = b"
  by (cases a; cases b) simp_all

lemma level_code_le: "level_code l \<le> 6"
  by (cases l) simp_all

instantiation clog_level :: linorder
begin

definition less_eq_clog_level :: "clog_level \<Rightarrow> clog_level \<Rightarrow> bool" where
  "less_eq_clog_level a b \<longleftrightarrow> level_code a \<le> level_code b"

definition less_clog_level :: "clog_level \<Rightarrow> clog_level \<Rightarrow> bool" where
  "less_clog_level a b \<longleftrightarrow> level_code a < level_code b"

instance
  by standard (auto simp: less_eq_clog_level_def less_clog_level_def inj_level_code)

end

datatype clog_state =
  CLOG_STATE_CREATED | CLOG_STATE_RUNNING | CLOG_STATE_STOPPING | CLOG_STATE_DESTROYED

definition CLOG_LEVEL_NUM :: nat where "CLOG_LEVEL_NUM = 6"
definition CLOG_LEVEL_ALL :: "32 word" where "CLOG_LEVEL_ALL = 63"
definition CLOG_LEVEL_UNSPECIFIED :: "32 word" where "CLOG_LEVEL_UNSPECIFIED = 0xFFFFFFFF"

subsection \<open>Build-time constants\<close>

definition CASCA_LOG_SINGLE_LOG_MAX_SIZE :: nat where "CASCA_LOG_SINGLE_LOG_MAX_SIZE = 256"
definition CASCA_LOG_TARGET_RECORDER_MAX_NUM :: nat where "CASCA_LOG_TARGET_RECORDER_MAX_NUM = 4"
definition CASCA_LOG_PROCESS_NAME_MAX_SIZE :: nat where "CASCA_LOG_PROCESS_NAME_MAX_SIZE = 64"
definition CASCA_LOG_MODULE_NAME_MAX_SIZE :: nat where "CASCA_LOG_MODULE_NAME_MAX_SIZE = 64"
definition CASCA_LOG_FILENAME_MAX_SIZE :: nat where "CASCA_LOG_FILENAME_MAX_SIZE = 64"
definition CASCA_LOG_FILEPATH_MAX_SIZE :: nat where "CASCA_LOG_FILEPATH_MAX_SIZE = 256"

lemmas size_consts = CASCA_LOG_SINGLE_LOG_MAX_SIZE_def CASCA_LOG_TARGET_RECORDER_MAX_NUM_def
  CASCA_LOG_PROCESS_NAME_MAX_SIZE_def CASCA_LOG_MODULE_NAME_MAX_SIZE_def
  CASCA_LOG_FILENAME_MAX_SIZE_def CASCA_LOG_FILEPATH_MAX_SIZE_def

subsection \<open>Version\<close>

definition CASCA_LOG_VERSION_OF ::
    "32 word \<Rightarrow> 32 word \<Rightarrow> 32 word \<Rightarrow> 32 word \<Rightarrow> 32 word" where
  "CASCA_LOG_VERSION_OF major minor revision cmpt =
     push_bit 24 major OR push_bit 16 minor OR push_bit 8 revision OR cmpt"

definition CASCA_LOG_VERSION :: "32 word" where
  "CASCA_LOG_VERSION = CASCA_LOG_VERSION_OF 0 0 1 1"

definition CASCA_LOG_CHECK_COMPATIBILITY :: "32 word \<Rightarrow> 32 word \<Rightarrow> bool" where
  "CASCA_LOG_CHECK_COMPATIBILITY v1 v2 \<longleftrightarrow> v1 AND 0xFF = v2 AND 0xFF"

definition CASCA_LOG_MAGIC :: "32 word" where "CASCA_LOG_MAGIC = 0xABABABAB"

subsection \<open>Log items and modules\<close>

text \<open>
  A C array of characters that holds a C string is the string up to its terminator. The
  recorder array has \<open>CASCA_LOG_TARGET_RECORDER_MAX_NUM\<close> entries.
\<close>

record clog_item =
  it_magic :: "32 word"
  it_version :: "32 word"
  it_recorder :: "32 word list"
  it_process :: string
  it_module :: string
  it_filename :: string
  it_tid :: "64 word"
  it_line :: "32 word"
  it_level :: "32 word"
  it_year :: "16 word"
  it_month :: "8 word"
  it_day :: "8 word"
  it_hour :: "8 word"
  it_minute :: "8 word"
  it_second :: "8 word"
  it_millisecond :: "16 word"
  it_timestamp :: "64 word"
  it_length :: "16 word"
  it_content :: string

record clog_module =
  md_name :: string
  md_level :: "32 word"
  md_num :: nat
  md_recorders :: "32 word list"

subsection \<open>Errno\<close>

datatype errno = E_ZERO | ENOMEM | ENOENT | EACCES | EAGAIN | EPERM | EINVAL | ENOTRECOVERABLE
  | EOWNERDEAD | EDEADLK | EBUSY | EEXIST | ESRCH | ETIMEDOUT | E_OTHER

fun clog_err_to_res :: "errno \<Rightarrow> clog_res" where
  "clog_err_to_res ENOMEM = CLOG_NO_MEMORY"
| "clog_err_to_res ENOENT = CLOG_TARGET_NOT_FOUND"
| "clog_err_to_res EACCES = CLOG_NOT_PERMITTED"
| "clog_err_to_res E_ZERO = CLOG_SUCCESS"
| "clog_err_to_res _ = CLOG_FAIL"

lemma clog_err_to_res_success: "clog_err_to_res e = CLOG_SUCCESS \<longleftrightarrow> e = E_ZERO"
  by (cases e) simp_all

subsection \<open>The file name in a path\<close>

text \<open>
  \<open>clog_get_filename\<close> walks back from index \<open>len - 2\<close> (\<open>len\<close> counts the
  terminator) to the last separator; the loop index counts down, so it is the \<open>nat\<close>
  \<open>Suc i\<close>, 0 standing for -1.
\<close>

fun filename_loop :: "string \<Rightarrow> nat \<Rightarrow> string" where
  "filename_loop fullname 0 = fullname"
| "filename_loop fullname (Suc i) =
     (if fullname ! i = CHR ''/'' \<or> fullname ! i = CHR 0x5C then drop (Suc i) fullname
      else filename_loop fullname i)"

definition clog_get_filename :: "string \<Rightarrow> nat \<Rightarrow> string" where
  "clog_get_filename fullname len = (if len \<le> 1 then fullname else filename_loop fullname (len - 1))"

definition is_sep :: "char \<Rightarrow> bool" where
  "is_sep c \<longleftrightarrow> c = CHR ''/'' \<or> c = CHR 0x5C"

lemma filename_loop_no_sep:
  "n \<le> length p \<Longrightarrow> \<forall>i < n. \<not> is_sep (p ! i) \<Longrightarrow> filename_loop p n = p"
  by (induction n) (auto simp: is_sep_def)

lemma filename_loop_sep:
  "\<lbrakk>i < n; n \<le> length p; is_sep (p ! i); \<forall>j. i < j \<and> j < n \<longrightarrow> \<not> is_sep (p ! j)\<rbrakk>
   \<Longrightarrow> filename_loop p n = drop (Suc i) p"
proof (induction n)
  case 0
  then show ?case by simp
next
  case (Suc n)
  then show ?case
    by (cases "i = n") (auto simp: is_sep_def less_Suc_eq)
qed

lemma get_filename_last_component:
  assumes "\<forall>c \<in> set name. \<not> is_sep c" and "is_sep s"
  shows "clog_get_filename (dir @ s # name) (Suc (length (dir @ s # name))) = name"
proof -
  have "filename_loop (dir @ s # name) (length (dir @ s # name)) =
      drop (Suc (length dir)) (dir @ s # name)"
    by (rule filename_loop_sep) (use assms in \<open>auto simp: nth_append nth_Cons'\<close>)
  then show ?thesis by (simp add: clog_get_filename_def)
qed

end
