(* ===== verification/Secure_Func.thy ===== *)
theory Secure_Func
  imports Base
begin

text \<open>
  The checked memory and string helpers of clog_secure_func.c and clog_secure_func.h, on the
  platforms other than MSVC. A pointer argument that may be NULL is an option; a destination
  buffer is the list of its bytes. Functions that write to a buffer return the result code and
  the buffer's new contents.
\<close>

subsection \<open>memset and memcpy\<close>

definition clog_memset ::
    "'b list option \<Rightarrow> nat \<Rightarrow> 'b \<Rightarrow> nat \<Rightarrow> clog_res \<times> 'b list option" where
  "clog_memset dest n padding count = (case dest of
      None \<Rightarrow> (CLOG_INVALID_PARAM, None)
    | Some d \<Rightarrow>
        if count = 0 \<or> count > n then (CLOG_INVALID_PARAM, Some d)
        else (CLOG_SUCCESS, Some (replicate count padding @ drop count d)))"

definition clog_memcpy ::
    "'b list option \<Rightarrow> nat \<Rightarrow> 'b list option \<Rightarrow> nat \<Rightarrow> clog_res \<times> 'b list option" where
  "clog_memcpy dest n src count = (case (dest, src) of
      (Some d, Some s) \<Rightarrow>
        if count = 0 \<or> count > n then (CLOG_INVALID_PARAM, Some d)
        else (CLOG_SUCCESS, Some (take count s @ drop count d))
    | _ \<Rightarrow> (CLOG_INVALID_PARAM, dest))"

text \<open>Neither helper writes outside the first \<open>n\<close> bytes of the destination.\<close>

lemma clog_memset_bounds:
  "n \<le> length d \<Longrightarrow> clog_memset (Some d) n p c = (r, Some d') \<Longrightarrow>
   length d' = length d \<and> drop n d' = drop n d"
  by (auto simp: clog_memset_def split: if_splits)

lemma clog_memcpy_bounds:
  "n \<le> length d \<Longrightarrow> c \<le> length s \<Longrightarrow> clog_memcpy (Some d) n (Some s) c = (r, Some d') \<Longrightarrow>
   length d' = length d \<and> drop n d' = drop n d"
  by (auto simp: clog_memcpy_def split: if_splits)

subsection \<open>Duplicating strings\<close>

definition clog_strdup :: "string option \<Rightarrow> 'a mem_scheme \<Rightarrow> string option \<times> 'a mem_scheme" where
  "clog_strdup str m = (case str of
      None \<Rightarrow> (None, m)
    | Some s \<Rightarrow>
        (case clog_malloc (length s + 1) m of
           (False, m') \<Rightarrow> (None, m')
         | (True, m') \<Rightarrow> (Some s, m')))"

definition clog_strndup :: "string \<Rightarrow> nat \<Rightarrow> 'a mem_scheme \<Rightarrow> string option \<times> 'a mem_scheme" where
  "clog_strndup start num m =
     (if num = 0 then (None, m)
      else case clog_malloc (num + 1) m of
             (False, m') \<Rightarrow> (None, m')
           | (True, m') \<Rightarrow> (Some (take num start), m'))"

lemma live_clog_strdup:
  "clog_strdup s m = (r, m') \<Longrightarrow> live m' = live m + (if r = None then 0 else 1)"
  by (auto simp: clog_strdup_def split: option.splits prod.splits bool.splits
      dest: live_clog_mallocD)

lemma live_clog_strndup:
  "clog_strndup s n m = (r, m') \<Longrightarrow> live m' = live m + (if r = None then 0 else 1)"
  by (auto simp: clog_strndup_def split: option.splits prod.splits bool.splits if_splits
      dest: live_clog_mallocD)

lemma clog_strdup_Some: "clog_strdup (Some s) m = (Some r, m') \<Longrightarrow> r = s"
  by (auto simp: clog_strdup_def split: prod.splits bool.splits)

lemma clog_strndup_Some: "clog_strndup s n m = (Some r, m') \<Longrightarrow> 0 < n \<and> r = take n s"
  by (auto simp: clog_strndup_def split: prod.splits bool.splits if_splits)

subsection \<open>Comparing strings\<close>

text \<open>
  \<open>strncmp\<close> of the C library: bytes compared as unsigned characters up to \<open>n\<close> or the
  terminator. Callers use the sign only.
\<close>

fun strncmp :: "string \<Rightarrow> string \<Rightarrow> nat \<Rightarrow> int" where
  "strncmp _ _ 0 = 0"
| "strncmp [] [] (Suc n) = 0"
| "strncmp [] (y # ys) (Suc n) = -1"
| "strncmp (x # xs) [] (Suc n) = 1"
| "strncmp (x # xs) (y # ys) (Suc n) =
     (if x = y then strncmp xs ys n
      else if (of_char x :: nat) < of_char y then -1 else 1)"

definition clog_strncmp :: "string option \<Rightarrow> string option \<Rightarrow> nat \<Rightarrow> int" where
  "clog_strncmp str1 str2 num = (case (str1, str2) of
      (None, None) \<Rightarrow> 0
    | (None, Some _) \<Rightarrow> -1
    | (Some _, None) \<Rightarrow> 1
    | (Some s, Some t) \<Rightarrow> strncmp s t num)"

lemma strncmp_0: "strncmp s t n = 0 \<longleftrightarrow> take n s = take n t"
  by (induction s t n rule: strncmp.induct) auto

lemma strncmp_antisym: "strncmp t s n = - strncmp s t n"
  by (induction s t n rule: strncmp.induct) auto

lemma clog_strncmp_0: "clog_strncmp (Some s) (Some t) n = 0 \<longleftrightarrow> take n s = take n t"
  by (simp add: clog_strncmp_def strncmp_0)

subsection \<open>Copying a string\<close>

text \<open>
  \<open>snprintf(buf, size, "%s", src)\<close> returns the length of \<open>src\<close>, and writes at most
  \<open>size - 1\<close> of its characters and the terminator when \<open>size\<close> is not 0. The second
  component is the C string now in the buffer, \<open>None\<close> when nothing was written.
\<close>

definition snprintf_out :: "nat \<Rightarrow> string \<Rightarrow> string option" where
  "snprintf_out n src = (if n = 0 then None else Some (take (n - 1) src))"

definition clog_strcpy :: "bool \<Rightarrow> nat \<Rightarrow> string option \<Rightarrow> clog_res \<times> string option" where
  "clog_strcpy has_buf n src =
     (if \<not> has_buf then (CLOG_INVALID_PARAM, None)
      else case src of
        None \<Rightarrow> (CLOG_INVALID_PARAM, None)
      | Some s \<Rightarrow>
          if n = 0 \<and> s = [] then (CLOG_SUCCESS, None)
          else ((if 0 < length s \<and> length s < n then CLOG_SUCCESS else CLOG_FAIL),
                snprintf_out n s))"

lemma clog_strcpy_success:
  "clog_strcpy True n (Some s) = (CLOG_SUCCESS, out) \<longleftrightarrow>
   (n = 0 \<and> s = [] \<and> out = None) \<or> (s \<noteq> [] \<and> length s < n \<and> out = Some s)"
  by (auto simp: clog_strcpy_def snprintf_out_def split: if_splits)

lemma clog_strcpy_fst:
  "0 < n \<Longrightarrow> fst (clog_strcpy True n (Some s)) =
     (if s \<noteq> [] \<and> length s < n then CLOG_SUCCESS else CLOG_FAIL)"
  by (auto simp: clog_strcpy_def)

lemma clog_strcpy_length:
  "clog_strcpy b n s = (r, Some out) \<Longrightarrow> length out < n"
  by (auto simp: clog_strcpy_def snprintf_out_def split: if_splits option.splits)

end
