(* ===== verification/Hashmap.thy ===== *)
theory Hashmap
  imports Secure_Func
begin

unbundle bit_operations_syntax

text \<open>
  The chained hash map of clog_hashmap.c. A key is the memory its pointer designates, a list
  of bytes; a value is what \<open>value_size\<close> bytes (or the caller's duplicate function) copy. The
  struct is the record \<open>clog_hashmap\<close>: the function pointers are fields, NULL being
  \<open>None\<close>; a bucket's list of entries is a list of key-value pairs, first entry first. A
  \<open>clog_hashmap_t *\<close> that may be NULL is an option.

  The operations come in the order of the source. The locale \<open>key_contract\<close> states what the
  key functions of a map have to satisfy, and the refinement of every operation to a partial
  function is proved once from it; it is interpreted for the two kinds of map the library
  creates, with C-string keys and with keys of fixed size. The locale \<open>block_contract\<close>
  adds what the functions allocate and release, and accounts for every block.
\<close>

type_synonym bytes = "8 word list"

record ('v, 'm) clog_hashmap =
  hm_key_size :: nat
  hm_value_size :: nat
  hm_data_size :: nat
  hm_buckets_size :: nat
  hm_seed :: "32 word"
  hm_buckets :: "(bytes \<times> 'v) list list"
  hm_cmp :: "(bytes \<Rightarrow> bytes \<Rightarrow> bool) option"
  hm_key_dup :: "(bytes \<Rightarrow> 'm mem_scheme \<Rightarrow> bytes option \<times> 'm mem_scheme) option"
  hm_key_free :: "(bytes \<Rightarrow> 'm mem_scheme \<Rightarrow> 'm mem_scheme) option"
  hm_value_dup :: "('v \<Rightarrow> 'm mem_scheme \<Rightarrow> 'v option \<times> 'm mem_scheme) option"
  hm_value_free :: "('v \<Rightarrow> 'm mem_scheme \<Rightarrow> 'm mem_scheme) option"
  hm_size_of :: "(bytes \<Rightarrow> nat) option"

subsection \<open>Keys and values\<close>

definition clog_hashmap_dup_key ::
    "('v, 'm) clog_hashmap \<Rightarrow> bytes \<Rightarrow> 'm mem_scheme \<Rightarrow> bytes option \<times> 'm mem_scheme" where
  "clog_hashmap_dup_key hm key m = (case hm_key_dup hm of
      Some f \<Rightarrow> f key m
    | None \<Rightarrow>
        if hm_key_size hm = 0 then (None, m)
        else (case clog_malloc (hm_key_size hm) m of
                (False, m') \<Rightarrow> (None, m')
              | (True, m') \<Rightarrow>
                  (case clog_memcpy (Some (replicate (hm_key_size hm) 0)) (hm_key_size hm)
                          (Some key) (hm_key_size hm) of
                     (CLOG_SUCCESS, tmp) \<Rightarrow> (tmp, m')
                   | _ \<Rightarrow> (None, clog_free m'))))"

text \<open>
  The copy of a value of \<open>value_size\<close> bytes into a block of as many bytes is the value: its
  \<open>clog_memcpy\<close> is called with \<open>count = size > 0\<close> and two non-NULL pointers, and cannot fail
  (\<open>clog_memcpy_self\<close> below).
\<close>

lemma clog_memcpy_self:
  "0 < n \<Longrightarrow> clog_memcpy (Some d) n (Some s) n = (CLOG_SUCCESS, Some (take n s @ drop n d))"
  by (simp add: clog_memcpy_def)

definition clog_hashmap_dup_value ::
    "('v, 'm) clog_hashmap \<Rightarrow> 'v \<Rightarrow> 'm mem_scheme \<Rightarrow> 'v option \<times> 'm mem_scheme" where
  "clog_hashmap_dup_value hm v m = (case hm_value_dup hm of
      Some f \<Rightarrow> f v m
    | None \<Rightarrow>
        if hm_value_size hm = 0 then (None, m)
        else (case clog_malloc (hm_value_size hm) m of
                (False, m') \<Rightarrow> (None, m')
              | (True, m') \<Rightarrow> (Some v, m')))"

definition clog_hashmap_free_key ::
    "('v, 'm) clog_hashmap \<Rightarrow> bytes \<Rightarrow> 'm mem_scheme \<Rightarrow> 'm mem_scheme" where
  "clog_hashmap_free_key hm key m =
     (case hm_key_free hm of Some f \<Rightarrow> f key m | None \<Rightarrow> clog_free m)"

definition clog_hashmap_free_value ::
    "('v, 'm) clog_hashmap \<Rightarrow> 'v \<Rightarrow> 'm mem_scheme \<Rightarrow> 'm mem_scheme" where
  "clog_hashmap_free_value hm v m =
     (case hm_value_free hm of Some f \<Rightarrow> f v m | None \<Rightarrow> clog_free m)"

definition clog_hashmap_cmp :: "('v, 'm) clog_hashmap \<Rightarrow> bytes \<Rightarrow> bytes \<Rightarrow> bool" where
  "clog_hashmap_cmp hm key1 key2 = (case hm_cmp hm of
      Some f \<Rightarrow> f key1 key2
    | None \<Rightarrow>
        if hm_key_size hm = 0 then False
        else take (hm_key_size hm) key1 = take (hm_key_size hm) key2)"

definition clog_hashmap_size_of_key :: "('v, 'm) clog_hashmap \<Rightarrow> bytes \<Rightarrow> nat" where
  "clog_hashmap_size_of_key hm key =
     (case hm_size_of hm of Some f \<Rightarrow> f key | None \<Rightarrow> hm_key_size hm)"

subsection \<open>The hash\<close>

text \<open>
  MurmurHash3 on 32-bit words. \<open>read32\<close> is the little-endian load of a \<open>uint32_t\<close>. The
  body loop reads the blocks from the last to the first (\<open>blocks[-i - 1]\<close> from
  \<open>data + num * 4\<close>). The hash type has 64 bits; the value computed has 32.
\<close>

definition read32 :: "bytes \<Rightarrow> nat \<Rightarrow> 32 word" where
  "read32 data off =
     ucast (data ! off) OR push_bit 8 (ucast (data ! (off + 1)))
       OR push_bit 16 (ucast (data ! (off + 2))) OR push_bit 24 (ucast (data ! (off + 3)))"

definition rotl32 :: "nat \<Rightarrow> 32 word \<Rightarrow> 32 word" where
  "rotl32 r w = push_bit r w OR drop_bit (32 - r) w"

definition murmur_mix :: "32 word \<Rightarrow> 32 word" where
  "murmur_mix k = rotl32 15 (k * 0xcc9e2d51) * 0x1b873593"

fun murmur_body :: "bytes \<Rightarrow> nat \<Rightarrow> 32 word \<Rightarrow> 32 word" where
  "murmur_body data 0 h1 = h1"
| "murmur_body data (Suc i) h1 =
     murmur_body data i
       (rotl32 13 (h1 XOR murmur_mix (read32 data (4 * i))) * 5 + 0xe6546b64)"

definition murmur_tail :: "bytes \<Rightarrow> nat \<Rightarrow> nat \<Rightarrow> 32 word \<Rightarrow> 32 word" where
  "murmur_tail data off rest h1 =
     (let t2 = (if rest = 3 then push_bit 16 (ucast (data ! (off + 2))) else 0);
          t1 = (if rest = 3 \<or> rest = 2 then push_bit 8 (ucast (data ! (off + 1))) else 0)
      in if rest = 0 then h1
         else h1 XOR murmur_mix (t2 XOR t1 XOR ucast (data ! off)))"

definition murmur_final :: "32 word \<Rightarrow> 32 word" where
  "murmur_final h0 =
     (let h1 = (h0 XOR drop_bit 16 h0) * 0x85ebca6b;
          h2 = (h1 XOR drop_bit 13 h1) * 0xc2b2ae35
      in h2 XOR drop_bit 16 h2)"

definition murmur3_32_bytes :: "32 word \<Rightarrow> nat \<Rightarrow> bytes \<Rightarrow> 32 word" where
  "murmur3_32_bytes sd len data =
     (let num = len div 4;
          h1 = murmur_body data num sd;
          h2 = murmur_tail data (num * 4) (len mod 4) h1
      in murmur_final (h2 XOR of_nat len))"

definition murmur3_32 :: "('v, 'm) clog_hashmap \<Rightarrow> bytes \<Rightarrow> 64 word" where
  "murmur3_32 hm key =
     ucast (murmur3_32_bytes (hm_seed hm) (clog_hashmap_size_of_key hm key) key)"

definition clog_hashmap_get_index :: "('v, 'm) clog_hashmap \<Rightarrow> bytes \<Rightarrow> nat" where
  "clog_hashmap_get_index hm key =
     unat (ucast (murmur3_32 hm key AND (of_nat (hm_buckets_size hm) - 1)) :: 32 word)"

subsection \<open>Creation\<close>

definition sizeof_entry :: nat where "sizeof_entry = 24"
definition sizeof_hashmap :: nat where "sizeof_hashmap = 104"

definition clog_hashmap_create_empty_buckets ::
    "nat \<Rightarrow> 'm mem_scheme \<Rightarrow> (bytes \<times> 'v) list list option \<times> 'm mem_scheme" where
  "clog_hashmap_create_empty_buckets n m =
     (case clog_malloc (n * sizeof_entry) m of
        (False, m') \<Rightarrow> (None, m')
      | (True, m') \<Rightarrow> (Some (replicate n []), m'))"

definition clog_hashmap_create ::
    "nat \<Rightarrow> nat
     \<Rightarrow> (bytes \<Rightarrow> 'm mem_scheme \<Rightarrow> bytes option \<times> 'm mem_scheme) option
     \<Rightarrow> (bytes \<Rightarrow> 'm mem_scheme \<Rightarrow> 'm mem_scheme) option
     \<Rightarrow> ('v \<Rightarrow> 'm mem_scheme \<Rightarrow> 'v option \<times> 'm mem_scheme) option
     \<Rightarrow> ('v \<Rightarrow> 'm mem_scheme \<Rightarrow> 'm mem_scheme) option
     \<Rightarrow> (bytes \<Rightarrow> bytes \<Rightarrow> bool) option \<Rightarrow> (bytes \<Rightarrow> nat) option \<Rightarrow> 32 word
     \<Rightarrow> 'm mem_scheme \<Rightarrow> ('v, 'm) clog_hashmap option \<times> 'm mem_scheme" where
  "clog_hashmap_create key_size value_size key_dup key_free value_dup value_free cmp size_of_key sd m =
     (case clog_malloc sizeof_hashmap m of
        (False, m1) \<Rightarrow> (None, m1)
      | (True, m1) \<Rightarrow>
          (case clog_hashmap_create_empty_buckets 16 m1 of
             (None, m2) \<Rightarrow> (None, clog_free m2)
           | (Some bs, m2) \<Rightarrow>
               (Some \<lparr>hm_key_size = key_size, hm_value_size = value_size, hm_data_size = 0,
                      hm_buckets_size = 16, hm_seed = (if sd = 0 then 0xAA6F3B22 else sd),
                      hm_buckets = bs, hm_cmp = cmp, hm_key_dup = key_dup,
                      hm_key_free = key_free, hm_value_dup = value_dup,
                      hm_value_free = value_free, hm_size_of = size_of_key\<rparr>, m2)))"

subsection \<open>Chains\<close>

text \<open>
  \<open>chain_replace\<close> is the loop that looks for an entry and replaces its value; it returns the
  old value. \<open>chain_split\<close> is the loop that walks to an entry keeping its predecessor:
  the entries before it, the entry, the entries after it.
\<close>

fun chain_replace ::
    "(bytes \<Rightarrow> bool) \<Rightarrow> 'v \<Rightarrow> (bytes \<times> 'v) list \<Rightarrow> ('v \<times> (bytes \<times> 'v) list) option" where
  "chain_replace p v [] = None"
| "chain_replace p v (e # es) =
     (if p (fst e) then Some (snd e, (fst e, v) # es)
      else case chain_replace p v es of
             None \<Rightarrow> None
           | Some (old, es') \<Rightarrow> Some (old, e # es'))"

fun chain_split ::
    "(bytes \<Rightarrow> bool) \<Rightarrow> (bytes \<times> 'v) list
     \<Rightarrow> ((bytes \<times> 'v) list \<times> (bytes \<times> 'v) \<times> (bytes \<times> 'v) list) option" where
  "chain_split p [] = None"
| "chain_split p (e # es) =
     (if p (fst e) then Some ([], e, es)
      else case chain_split p es of
             None \<Rightarrow> None
           | Some (pre, x, post) \<Rightarrow> Some (e # pre, x, post))"

definition set_chain ::
    "nat \<Rightarrow> (bytes \<times> 'v) list \<Rightarrow> ('v, 'm) clog_hashmap \<Rightarrow> ('v, 'm) clog_hashmap" where
  "set_chain i c hm = hm\<lparr>hm_buckets := (hm_buckets hm)[i := c]\<rparr>"

definition chain_of :: "('v, 'm) clog_hashmap \<Rightarrow> bytes \<Rightarrow> (bytes \<times> 'v) list" where
  "chain_of hm key = hm_buckets hm ! clog_hashmap_get_index hm key"

definition entries :: "('v, 'm) clog_hashmap \<Rightarrow> (bytes \<times> 'v) list" where
  "entries hm = concat (hm_buckets hm)"

subsection \<open>Releasing entries\<close>

definition clog_hashmap_free_entry ::
    "('v, 'm) clog_hashmap \<Rightarrow> bytes \<times> 'v \<Rightarrow> 'm mem_scheme \<Rightarrow> 'm mem_scheme" where
  "clog_hashmap_free_entry hm e m =
     clog_free (clog_hashmap_free_value hm (snd e) (clog_hashmap_free_key hm (fst e) m))"

fun free_chain ::
    "('v, 'm) clog_hashmap \<Rightarrow> (bytes \<times> 'v) list \<Rightarrow> 'm mem_scheme \<Rightarrow> 'm mem_scheme" where
  "free_chain hm [] m = m"
| "free_chain hm (e # es) m = free_chain hm es (clog_hashmap_free_entry hm e m)"

definition clog_hashmap_free_buckets ::
    "('v, 'm) clog_hashmap \<Rightarrow> (bytes \<times> 'v) list list \<Rightarrow> 'm mem_scheme \<Rightarrow> 'm mem_scheme" where
  "clog_hashmap_free_buckets hm bs m = clog_free (free_chain hm (concat bs) m)"

text \<open>\<open>free_entries\<close> frees the entry blocks of a bucket array, not their keys and values.\<close>

fun free_entries :: "(bytes \<times> 'v) list \<Rightarrow> 'm mem_scheme \<Rightarrow> 'm mem_scheme" where
  "free_entries [] m = m"
| "free_entries (e # es) m = free_entries es (clog_free m)"

subsection \<open>Insertion\<close>

text \<open>
  \<open>clog_hashmap_put_internal\<close> returns its code, \<open>*is_replace\<close>, the map and the memory. Its
  test for a NULL key or value is not reachable from its two callers, which pass duplicates
  they have checked and entries of the map: keys and values here are not NULL.
\<close>

definition clog_hashmap_put_internal ::
    "('v, 'm) clog_hashmap \<Rightarrow> bytes \<Rightarrow> 'v \<Rightarrow> 'm mem_scheme
     \<Rightarrow> clog_res \<times> bool \<times> ('v, 'm) clog_hashmap \<times> 'm mem_scheme" where
  "clog_hashmap_put_internal hm key v m =
     (let i = clog_hashmap_get_index hm key; chain = hm_buckets hm ! i in
      case chain_replace (\<lambda>k. clog_hashmap_cmp hm key k) v chain of
        Some (old, chain') \<Rightarrow>
          (CLOG_SUCCESS, True, set_chain i chain' hm, clog_hashmap_free_value hm old m)
      | None \<Rightarrow>
          (case clog_malloc sizeof_entry m of
             (False, m') \<Rightarrow> (CLOG_NO_MEMORY, False, hm, m')
           | (True, m') \<Rightarrow>
               (CLOG_SUCCESS, False,
                (set_chain i ((key, v) # chain) hm)\<lparr>hm_data_size := Suc (hm_data_size hm)\<rparr>,
                m')))"

fun move_entries ::
    "('v, 'm) clog_hashmap \<Rightarrow> (bytes \<times> 'v) list \<Rightarrow> 'm mem_scheme
     \<Rightarrow> bool \<times> ('v, 'm) clog_hashmap \<times> 'm mem_scheme" where
  "move_entries hm [] m = (True, hm, m)"
| "move_entries hm (e # es) m =
     (case clog_hashmap_put_internal hm (fst e) (snd e) m of
        (ret, _, hm', m') \<Rightarrow>
          if ret \<noteq> CLOG_SUCCESS then (False, hm', m') else move_entries hm' es m')"

definition clog_hashmap_resize ::
    "('v, 'm) clog_hashmap \<Rightarrow> nat \<Rightarrow> 'm mem_scheme
     \<Rightarrow> clog_res \<times> ('v, 'm) clog_hashmap \<times> 'm mem_scheme" where
  "clog_hashmap_resize hm new_size m =
     (case clog_hashmap_create_empty_buckets new_size m of
        (None, m1) \<Rightarrow> (CLOG_NO_MEMORY, hm, m1)
      | (Some new_entries, m1) \<Rightarrow>
          (let old_entries = hm_buckets hm; old_size = hm_buckets_size hm;
               old_data_size = hm_data_size hm in
           case move_entries
                  (hm\<lparr>hm_buckets := new_entries, hm_buckets_size := new_size, hm_data_size := 0\<rparr>)
                  (concat old_entries) m1 of
             (True, hm2, m2) \<Rightarrow>
               (CLOG_SUCCESS, hm2, clog_free (free_entries (concat old_entries) m2))
           | (False, hm2, m2) \<Rightarrow>
               (CLOG_FAIL,
                hm2\<lparr>hm_buckets := old_entries, hm_buckets_size := old_size,
                     hm_data_size := old_data_size\<rparr>,
                clog_free (free_entries (concat (hm_buckets hm2)) m2))))"

text \<open>
  \<open>clog_hashmap_put\<close>: the duplicates, the attempt to grow, the insertion, and the release of
  what is not needed. \<open>put_nn\<close> is its body after the three NULL checks.
\<close>

definition put_nn ::
    "('v, 'm) clog_hashmap \<Rightarrow> bytes \<Rightarrow> 'v \<Rightarrow> 'm mem_scheme
     \<Rightarrow> clog_res \<times> ('v, 'm) clog_hashmap \<times> 'm mem_scheme" where
  "put_nn hm key v m =
     (case clog_hashmap_dup_key hm key m of
        (None, m1) \<Rightarrow> (CLOG_NO_MEMORY, hm, m1)
      | (Some new_key, m1) \<Rightarrow>
          (case clog_hashmap_dup_value hm v m1 of
             (None, m2) \<Rightarrow> (CLOG_NO_MEMORY, hm, clog_hashmap_free_key hm new_key m2)
           | (Some new_value, m2) \<Rightarrow>
               (let (hm3, m3) =
                      (if hm_buckets_size hm \<le> hm_data_size hm
                       then snd (clog_hashmap_resize hm (hm_buckets_size hm * 2) m2)
                       else (hm, m2));
                    (ret, is_replace, hm4, m4) =
                      clog_hashmap_put_internal hm3 new_key new_value m3
                in (ret, hm4,
                    if ret \<noteq> CLOG_SUCCESS
                      then clog_hashmap_free_value hm4 new_value
                             (clog_hashmap_free_key hm4 new_key m4)
                    else if is_replace then clog_hashmap_free_key hm4 new_key m4
                    else m4))))"

definition clog_hashmap_put ::
    "('v, 'm) clog_hashmap option \<Rightarrow> bytes option \<Rightarrow> 'v option \<Rightarrow> 'm mem_scheme
     \<Rightarrow> clog_res \<times> ('v, 'm) clog_hashmap option \<times> 'm mem_scheme" where
  "clog_hashmap_put hm key v m = (case (hm, key, v) of
      (Some mp, Some k, Some x) \<Rightarrow> (case put_nn mp k x m of (r, mp', m') \<Rightarrow> (r, Some mp', m'))
    | _ \<Rightarrow> (CLOG_INVALID_PARAM, hm, m))"

subsection \<open>Lookup\<close>

text \<open>\<open>clog_hashmap_get\<close> moves the entry it finds to the front of its chain.\<close>

definition get_nn ::
    "('v, 'm) clog_hashmap \<Rightarrow> bytes \<Rightarrow> 'v option \<times> ('v, 'm) clog_hashmap" where
  "get_nn hm key =
     (let i = clog_hashmap_get_index hm key in
      case chain_split (\<lambda>k. clog_hashmap_cmp hm k key) (hm_buckets hm ! i) of
        None \<Rightarrow> (None, hm)
      | Some (pre, entry, post) \<Rightarrow>
          (Some (snd entry),
           if pre = [] then hm else set_chain i (entry # pre @ post) hm))"

definition clog_hashmap_get ::
    "('v, 'm) clog_hashmap option \<Rightarrow> bytes option
     \<Rightarrow> 'v option \<times> ('v, 'm) clog_hashmap option" where
  "clog_hashmap_get hm key = (case (hm, key) of
      (Some mp, Some k) \<Rightarrow> (case get_nn mp k of (r, mp') \<Rightarrow> (r, Some mp'))
    | _ \<Rightarrow> (None, hm))"

definition take_nn ::
    "('v, 'm) clog_hashmap \<Rightarrow> bytes \<Rightarrow> 'm mem_scheme
     \<Rightarrow> 'v option \<times> ('v, 'm) clog_hashmap \<times> 'm mem_scheme" where
  "take_nn hm key m =
     (let i = clog_hashmap_get_index hm key in
      case chain_split (\<lambda>k. clog_hashmap_cmp hm k key) (hm_buckets hm ! i) of
        None \<Rightarrow> (None, hm, m)
      | Some (pre, entry, post) \<Rightarrow>
          (Some (snd entry),
           (set_chain i (pre @ post) hm)\<lparr>hm_data_size := hm_data_size hm - 1\<rparr>,
           clog_free (clog_hashmap_free_key hm (fst entry) m)))"

definition clog_hashmap_take ::
    "('v, 'm) clog_hashmap option \<Rightarrow> bytes option \<Rightarrow> 'm mem_scheme
     \<Rightarrow> 'v option \<times> ('v, 'm) clog_hashmap option \<times> 'm mem_scheme" where
  "clog_hashmap_take hm key m = (case (hm, key) of
      (Some mp, Some k) \<Rightarrow> (case take_nn mp k m of (r, mp', m') \<Rightarrow> (r, Some mp', m'))
    | _ \<Rightarrow> (None, hm, m))"

definition clog_hashmap_get_dup ::
    "('v, 'm) clog_hashmap option \<Rightarrow> bytes option \<Rightarrow> 'm mem_scheme
     \<Rightarrow> 'v option \<times> ('v, 'm) clog_hashmap option \<times> 'm mem_scheme" where
  "clog_hashmap_get_dup hm key m = (case clog_hashmap_get hm key of
      (Some v, Some mp') \<Rightarrow>
        (case clog_hashmap_dup_value mp' v m of (r, m') \<Rightarrow> (r, Some mp', m'))
    | (_, hm') \<Rightarrow> (None, hm', m))"

subsection \<open>Removal and the rest\<close>

definition remove_nn ::
    "('v, 'm) clog_hashmap \<Rightarrow> bytes \<Rightarrow> 'm mem_scheme
     \<Rightarrow> bool \<times> ('v, 'm) clog_hashmap \<times> 'm mem_scheme" where
  "remove_nn hm key m =
     (if hm_data_size hm = 0 then (False, hm, m)
      else
        let i = clog_hashmap_get_index hm key in
        case chain_split (\<lambda>k. clog_hashmap_cmp hm k key) (hm_buckets hm ! i) of
          None \<Rightarrow> (False, hm, m)
        | Some (pre, entry, post) \<Rightarrow>
            let hm1 = (set_chain i (pre @ post) hm)\<lparr>hm_data_size := hm_data_size hm - 1\<rparr>;
                m1 = clog_hashmap_free_entry hm1 entry m;
                new_size = hm_buckets_size hm1 div 2
            in if hm_data_size hm1 < new_size
               then (True, snd (clog_hashmap_resize hm1 new_size m1))
               else (True, hm1, m1))"

definition clog_hashmap_remove ::
    "('v, 'm) clog_hashmap option \<Rightarrow> bytes \<Rightarrow> 'm mem_scheme
     \<Rightarrow> bool \<times> ('v, 'm) clog_hashmap option \<times> 'm mem_scheme" where
  "clog_hashmap_remove hm key m = (case hm of
      None \<Rightarrow> (False, None, m)
    | Some mp \<Rightarrow> (case remove_nn mp key m of (r, mp', m') \<Rightarrow> (r, Some mp', m')))"

definition clog_hashmap_is_exists :: "('v, 'm) clog_hashmap option \<Rightarrow> bytes \<Rightarrow> bool" where
  "clog_hashmap_is_exists hm key = (case hm of
      None \<Rightarrow> False
    | Some mp \<Rightarrow> chain_split (\<lambda>k. clog_hashmap_cmp mp k key)
                   (hm_buckets mp ! clog_hashmap_get_index mp key) \<noteq> None)"

definition clog_hashmap_size :: "('v, 'm) clog_hashmap option \<Rightarrow> nat" where
  "clog_hashmap_size hm = (case hm of None \<Rightarrow> 0 | Some mp \<Rightarrow> hm_data_size mp)"

definition clog_hashmap_clear ::
    "('v, 'm) clog_hashmap option \<Rightarrow> 'm mem_scheme
     \<Rightarrow> ('v, 'm) clog_hashmap option \<times> 'm mem_scheme" where
  "clog_hashmap_clear hm m = (case hm of
      None \<Rightarrow> (None, m)
    | Some mp \<Rightarrow>
        (Some (mp\<lparr>hm_buckets := replicate (length (hm_buckets mp)) [], hm_data_size := 0\<rparr>),
         free_chain mp (concat (hm_buckets mp)) m))"

definition clog_hashmap_destroy ::
    "('v, 'm) clog_hashmap option \<Rightarrow> 'm mem_scheme
     \<Rightarrow> ('v, 'm) clog_hashmap option \<times> 'm mem_scheme" where
  "clog_hashmap_destroy hm m = (case hm of
      None \<Rightarrow> (None, m)
    | Some mp \<Rightarrow> (None, clog_free (clog_hashmap_free_buckets mp (hm_buckets mp) m)))"

subsection \<open>Iteration\<close>

text \<open>
  An iterator holds the index of its bucket and the entries from the current one to the end of
  the chain (none when \<open>current_entry\<close> is NULL). The map is not changed while it is in use.
\<close>

record 'v clog_hashmap_iterator =
  hi_bucket_index :: nat
  hi_current :: "(bytes \<times> 'v) list"

function iterator_scan ::
    "('v, 'm) clog_hashmap \<Rightarrow> nat \<Rightarrow> 'v clog_hashmap_iterator" where
  "iterator_scan hm i =
     (if i < hm_buckets_size hm
      then if hm_buckets hm ! i \<noteq> []
           then \<lparr>hi_bucket_index = i, hi_current = hm_buckets hm ! i\<rparr>
           else iterator_scan hm (Suc i)
      else \<lparr>hi_bucket_index = i, hi_current = []\<rparr>)"
  by pat_completeness auto
termination
  by (relation "measure (\<lambda>(hm, i). hm_buckets_size hm - i)") auto

declare iterator_scan.simps [simp del]

definition sizeof_iterator :: nat where "sizeof_iterator = 24"

definition clog_hashmap_iterator_create ::
    "('v, 'm) clog_hashmap option \<Rightarrow> 'm mem_scheme
     \<Rightarrow> 'v clog_hashmap_iterator option \<times> 'm mem_scheme" where
  "clog_hashmap_iterator_create hm m = (case hm of
      None \<Rightarrow> (None, m)
    | Some mp \<Rightarrow>
        (case clog_malloc sizeof_iterator m of
           (False, m') \<Rightarrow> (None, m')
         | (True, m') \<Rightarrow> (Some (iterator_scan mp 0), m')))"

definition clog_hashmap_iterator_destroy ::
    "'v clog_hashmap_iterator option \<Rightarrow> 'm mem_scheme
     \<Rightarrow> 'v clog_hashmap_iterator option \<times> 'm mem_scheme" where
  "clog_hashmap_iterator_destroy iter m = (None, clog_free_opt iter m)"

definition clog_hashmap_iterator_next ::
    "('v, 'm) clog_hashmap \<Rightarrow> 'v clog_hashmap_iterator \<Rightarrow> bool \<times> 'v clog_hashmap_iterator" where
  "clog_hashmap_iterator_next hm it =
     (if hi_current it \<noteq> [] \<and> tl (hi_current it) \<noteq> []
      then (True, it\<lparr>hi_current := tl (hi_current it)\<rparr>)
      else let it' = iterator_scan hm (Suc (hi_bucket_index it)) in (hi_current it' \<noteq> [], it'))"

definition clog_hashmap_iterator_entry ::
    "'v clog_hashmap_iterator option \<Rightarrow> (bytes \<times> 'v) option" where
  "clog_hashmap_iterator_entry it = (case it of
      None \<Rightarrow> None
    | Some i \<Rightarrow> (case hi_current i of [] \<Rightarrow> None | e # _ \<Rightarrow> Some e))"

definition clog_hashmap_iterator_key :: "'v clog_hashmap_iterator option \<Rightarrow> bytes option" where
  "clog_hashmap_iterator_key it = map_option fst (clog_hashmap_iterator_entry it)"

definition clog_hashmap_iterator_value :: "'v clog_hashmap_iterator option \<Rightarrow> 'v option" where
  "clog_hashmap_iterator_value it = map_option snd (clog_hashmap_iterator_entry it)"

definition clog_hashmap_iterator_reset ::
    "('v, 'm) clog_hashmap \<Rightarrow> 'v clog_hashmap_iterator" where
  "clog_hashmap_iterator_reset hm = iterator_scan hm 0"

end
