(* ===== verification/Hashmap_Correct.thy ===== *)
theory Hashmap_Correct
  imports Hashmap "HOL-Library.Multiset"
begin

unbundle bit_operations_syntax

text \<open>
  Correctness of the hash map of Hashmap.thy. \<open>hm_abs\<close> reads a map as a partial function
  over canonical keys; the invariant \<open>hm_inv\<close> says that the bucket array has a power of two of
  buckets, that every entry is in the bucket of its key, that no key occurs twice and that
  \<open>data_size\<close> counts the entries. Every operation keeps the invariant and acts on the partial
  function as its name says, resizing included, whatever allocations are refused.
\<close>

subsection \<open>Chains\<close>

lemma chain_replace_None: "chain_replace p v es = None \<longleftrightarrow> (\<forall>e \<in> set es. \<not> p (fst e))"
  by (induction es) (auto split: option.splits)

lemma chain_replace_Some:
  "chain_replace p v es = Some (old, es') \<Longrightarrow>
   \<exists>pre k post. es = pre @ (k, old) # post \<and> es' = pre @ (k, v) # post \<and> p k"
proof (induction es arbitrary: es')
  case Nil
  then show ?case by simp
next
  case (Cons e es)
  show ?case
  proof (cases "p (fst e)")
    case True
    with Cons.prems show ?thesis
      by (intro exI [of _ "[]"] exI [of _ "fst e"] exI [of _ es]) (auto simp: prod_eq_iff)
  next
    case False
    with Cons.prems obtain es1 where r: "chain_replace p v es = Some (old, es1)"
      and es': "es' = e # es1"
      by (auto split: option.splits)
    from Cons.IH [OF r] obtain pre k post where
      "es = pre @ (k, old) # post" "es1 = pre @ (k, v) # post" "p k" by blast
    with es' show ?thesis
      by (intro exI [of _ "e # pre"] exI [of _ k] exI [of _ post]) auto
  qed
qed

lemma chain_split_None: "chain_split p es = None \<longleftrightarrow> (\<forall>e \<in> set es. \<not> p (fst e))"
  by (induction es) (auto split: option.splits)

lemma chain_split_Some:
  "chain_split p es = Some (pre, e, post) \<Longrightarrow>
   es = pre @ e # post \<and> p (fst e) \<and> (\<forall>e' \<in> set pre. \<not> p (fst e'))"
  by (induction es arbitrary: pre) (fastforce split: option.splits if_splits)+

subsection \<open>Bucket indices\<close>

definition same_ops :: "('v, 'm) clog_hashmap \<Rightarrow> ('v, 'm) clog_hashmap \<Rightarrow> bool" where
  "same_ops a b \<longleftrightarrow>
     hm_key_size a = hm_key_size b \<and> hm_value_size a = hm_value_size b \<and> hm_seed a = hm_seed b \<and>
     hm_cmp a = hm_cmp b \<and> hm_key_dup a = hm_key_dup b \<and> hm_key_free a = hm_key_free b \<and>
     hm_value_dup a = hm_value_dup b \<and> hm_value_free a = hm_value_free b \<and>
     hm_size_of a = hm_size_of b"

lemma same_ops_refl [simp]: "same_ops a a"
  by (simp add: same_ops_def)

lemma same_ops_trans [trans]: "same_ops a b \<Longrightarrow> same_ops b c \<Longrightarrow> same_ops a c"
  by (simp add: same_ops_def)

lemma same_ops_update [simp]:
  "same_ops hm (hm\<lparr>hm_buckets := b\<rparr>)" "same_ops hm (hm\<lparr>hm_data_size := n\<rparr>)"
  "same_ops hm (hm\<lparr>hm_buckets_size := n\<rparr>)" "same_ops hm (set_chain i c hm)"
  "same_ops hm ((set_chain i c hm)\<lparr>hm_data_size := n\<rparr>)"
  by (simp_all add: same_ops_def set_chain_def)

lemma same_ops_funs:
  assumes "same_ops a b"
  shows "clog_hashmap_cmp a = clog_hashmap_cmp b" "murmur3_32 a = murmur3_32 b"
    "clog_hashmap_dup_key a = clog_hashmap_dup_key b"
    "clog_hashmap_free_key a = clog_hashmap_free_key b"
    "clog_hashmap_dup_value a = clog_hashmap_dup_value b"
    "clog_hashmap_free_value a = clog_hashmap_free_value b"
    "clog_hashmap_free_entry a = clog_hashmap_free_entry b"
proof -
  from assms have eqs:
    "hm_key_size a = hm_key_size b" "hm_value_size a = hm_value_size b" "hm_seed a = hm_seed b"
    "hm_cmp a = hm_cmp b" "hm_key_dup a = hm_key_dup b" "hm_key_free a = hm_key_free b"
    "hm_value_dup a = hm_value_dup b" "hm_value_free a = hm_value_free b"
    "hm_size_of a = hm_size_of b"
    by (simp_all add: same_ops_def)
  note defs = clog_hashmap_cmp_def murmur3_32_def clog_hashmap_size_of_key_def
    clog_hashmap_dup_key_def clog_hashmap_free_key_def clog_hashmap_dup_value_def
    clog_hashmap_free_value_def clog_hashmap_free_entry_def
  show "clog_hashmap_cmp a = clog_hashmap_cmp b" "murmur3_32 a = murmur3_32 b"
    "clog_hashmap_dup_key a = clog_hashmap_dup_key b"
    "clog_hashmap_free_key a = clog_hashmap_free_key b"
    "clog_hashmap_dup_value a = clog_hashmap_dup_value b"
    "clog_hashmap_free_value a = clog_hashmap_free_value b"
    "clog_hashmap_free_entry a = clog_hashmap_free_entry b"
    unfolding fun_eq_iff defs eqs by (rule allI refl)+
qed

lemma same_ops_eqI:
  "same_ops a b \<Longrightarrow> hm_buckets a = hm_buckets b \<Longrightarrow> hm_data_size a = hm_data_size b \<Longrightarrow>
   hm_buckets_size a = hm_buckets_size b \<Longrightarrow> a = b"
  by (cases a; cases b) (simp add: same_ops_def)

text \<open>The index is in range for every power of two, also beyond the width of the hash.\<close>

lemma unat_and_mask_less: "unat (w AND (of_nat (2 ^ p) - 1) :: 64 word) < 2 ^ p \<or> 64 \<le> p"
proof (cases "p < 64")
  case True
  have "(of_nat (2 ^ p) :: 64 word) - 1 = mask p"
    by (simp add: mask_eq_exp_minus_1)
  then have "w AND (of_nat (2 ^ p) - 1) = take_bit p w"
    by (simp add: take_bit_eq_mask)
  moreover have "unat (take_bit p w) < 2 ^ p"
    by (simp add: unsigned_take_bit_eq)
  ultimately show ?thesis by simp
qed simp

lemma get_index_less:
  assumes "hm_buckets_size hm = 2 ^ p"
  shows "clog_hashmap_get_index hm key < hm_buckets_size hm"
proof -
  let ?w = "murmur3_32 hm key AND (of_nat (2 ^ p) - 1)"
  have idx: "clog_hashmap_get_index hm key = take_bit 32 (unat ?w)"
    by (simp add: clog_hashmap_get_index_def assms unsigned_ucast_eq)
  show ?thesis
  proof (cases "p < 64")
    case True
    then have "unat ?w < 2 ^ p" using unat_and_mask_less [of _ p] by (meson not_le)
    then show ?thesis
      unfolding idx assms by (meson le_less_trans take_bit_nat_less_eq_self)
  next
    case False
    have "take_bit 32 (unat ?w) < 2 ^ 32" by (rule take_bit_nat_less_exp)
    also have "(2::nat) ^ 32 \<le> 2 ^ p" using False by (intro power_increasing) auto
    finally show ?thesis by (simp add: idx assms)
  qed
qed

lemma get_index_same_ops:
  "same_ops a b \<Longrightarrow> hm_buckets_size a = hm_buckets_size b \<Longrightarrow>
   clog_hashmap_get_index a = clog_hashmap_get_index b"
  by (simp add: fun_eq_iff clog_hashmap_get_index_def same_ops_funs)

lemma get_index_update [simp]:
  "clog_hashmap_get_index (hm\<lparr>hm_buckets := b\<rparr>) = clog_hashmap_get_index hm"
  "clog_hashmap_get_index (hm\<lparr>hm_data_size := n\<rparr>) = clog_hashmap_get_index hm"
  "clog_hashmap_get_index (set_chain i c hm) = clog_hashmap_get_index hm"
  by (rule get_index_same_ops; simp add: same_ops_def set_chain_def)+

lemma entries_set_chain:
  "i < length (hm_buckets hm) \<Longrightarrow>
   entries (set_chain i c hm) =
     concat (take i (hm_buckets hm)) @ c @ concat (drop (Suc i) (hm_buckets hm))"
  by (simp add: entries_def set_chain_def concat_list_update)

lemma entries_split:
  "i < length (hm_buckets hm) \<Longrightarrow>
   entries hm =
     concat (take i (hm_buckets hm)) @ hm_buckets hm ! i @ concat (drop (Suc i) (hm_buckets hm))"
  by (simp add: entries_def concat_split_nth)

lemma entries_data_size [simp]: "entries (hm\<lparr>hm_data_size := n\<rparr>) = entries hm"
  by (simp add: entries_def)

lemma set_chain_simps [simp]:
  "hm_buckets_size (set_chain i c hm) = hm_buckets_size hm"
  "hm_data_size (set_chain i c hm) = hm_data_size hm"
  "length (hm_buckets (set_chain i c hm)) = length (hm_buckets hm)"
  "hm_buckets (set_chain i c hm) = (hm_buckets hm)[i := c]"
  by (simp_all add: set_chain_def)

subsection \<open>The contract of the key and value functions\<close>

text \<open>
  \<open>ok\<close> says which functions a map has; \<open>wf_key\<close> which byte lists designate a key (a
  terminated string, a block long enough); \<open>canon\<close> gives the part of a key that its compare
  function looks at. The laws: comparing is equality of canonical keys, the hash depends on the
  canonical key only, and duplicates are equal to what they duplicate.
\<close>

locale key_contract =
  fixes ok :: "('v, 'm) clog_hashmap \<Rightarrow> bool"
    and wf_key :: "bytes \<Rightarrow> bool"
    and canon :: "bytes \<Rightarrow> 'c"
  assumes ok_frame: "same_ops hm hm' \<Longrightarrow> ok hm \<Longrightarrow> ok hm'"
    and cmp_canon: "ok hm \<Longrightarrow> clog_hashmap_cmp hm a b \<longleftrightarrow> canon a = canon b"
    and hash_canon: "ok hm \<Longrightarrow> canon a = canon b \<Longrightarrow> murmur3_32 hm a = murmur3_32 hm b"
    and dup_key_canon:
      "\<lbrakk>ok hm; wf_key k; clog_hashmap_dup_key hm k m = (Some k', m')\<rbrakk> \<Longrightarrow> canon k' = canon k"
    and dup_value_eq: "ok hm \<Longrightarrow> clog_hashmap_dup_value hm v m = (Some v', m') \<Longrightarrow> v' = v"

definition cmap :: "(bytes \<Rightarrow> 'c) \<Rightarrow> (bytes \<times> 'v) list \<Rightarrow> ('c \<times> 'v) list" where
  "cmap canon es = map (\<lambda>e. (canon (fst e), snd e)) es"

definition placed :: "('v, 'm) clog_hashmap \<Rightarrow> bool" where
  "placed hm \<longleftrightarrow> (\<forall>i < length (hm_buckets hm). \<forall>e \<in> set (hm_buckets hm ! i).
     clog_hashmap_get_index hm (fst e) = i)"

definition hm_shape :: "('v, 'm) clog_hashmap \<Rightarrow> bool" where
  "hm_shape hm \<longleftrightarrow> (\<exists>p. hm_buckets_size hm = 2 ^ p) \<and>
     length (hm_buckets hm) = hm_buckets_size hm \<and> hm_data_size hm = length (entries hm)"

definition hm_abs :: "(bytes \<Rightarrow> 'c) \<Rightarrow> ('v, 'm) clog_hashmap \<Rightarrow> 'c \<Rightarrow> 'v option" where
  "hm_abs canon hm = map_of (cmap canon (entries hm))"

definition hm_inv ::
    "(('v, 'm) clog_hashmap \<Rightarrow> bool) \<Rightarrow> (bytes \<Rightarrow> 'c) \<Rightarrow> ('v, 'm) clog_hashmap \<Rightarrow> bool" where
  "hm_inv ok canon hm \<longleftrightarrow> ok hm \<and> hm_shape hm \<and> placed hm \<and>
     distinct (map fst (cmap canon (entries hm)))"

lemma cmap_simps [simp]:
  "cmap canon [] = []" "cmap canon (e # es) = (canon (fst e), snd e) # cmap canon es"
  "cmap canon (es @ fs) = cmap canon es @ cmap canon fs"
  by (simp_all add: cmap_def)

lemma map_fst_cmap: "map fst (cmap canon es) = map (\<lambda>e. canon (fst e)) es"
  by (simp add: cmap_def comp_def)

lemma set_cmap: "set (cmap canon es) = (\<lambda>e. (canon (fst e), snd e)) ` set es"
  by (simp add: cmap_def)

lemma length_cmap [simp]: "length (cmap canon es) = length es"
  by (simp add: cmap_def)

lemma mset_cmap: "mset es = mset fs \<Longrightarrow> mset (cmap canon es) = mset (cmap canon fs)"
  by (simp add: cmap_def)

text \<open>Lists of pairs with the same elements and distinct keys are the same partial function.\<close>

lemma map_of_perm:
  assumes "mset xs = mset ys" and "distinct (map fst xs)"
  shows "map_of xs = map_of ys" and "distinct (map fst ys)"
proof -
  from assms(1) have "mset (map fst xs) = mset (map fst ys)" by simp
  with assms(2) show d: "distinct (map fst ys)" by (metis mset_eq_imp_distinct_iff)
  from assms(1) have "set xs = set ys" by (metis set_mset_mset)
  with assms(2) d show "map_of xs = map_of ys" by (simp add: map_of_inject_set)
qed

lemma map_of_insert_middle:
  "distinct (map fst (xs @ (c, v) # ys)) \<Longrightarrow>
   map_of (xs @ (c, w) # ys) = (map_of (xs @ (c, v) # ys))(c \<mapsto> w)"
proof -
  assume d: "distinct (map fst (xs @ (c, v) # ys))"
  then have "map_of xs c = None" "map_of ys c = None"
    by (auto simp: map_of_eq_None_iff)
  then show ?thesis by (auto simp: fun_eq_iff map_add_def split: option.splits)
qed

lemma map_of_delete_middle:
  "distinct (map fst (xs @ (c, v) # ys)) \<Longrightarrow>
   map_of (xs @ ys) = (map_of (xs @ (c, v) # ys))(c := None)"
proof -
  assume d: "distinct (map fst (xs @ (c, v) # ys))"
  then have "map_of xs c = None" "map_of ys c = None"
    by (auto simp: map_of_eq_None_iff)
  then show ?thesis by (auto simp: fun_eq_iff map_add_def split: option.splits)
qed

lemma map_of_middle:
  "distinct (map fst (xs @ (c, v) # ys)) \<Longrightarrow> map_of (xs @ (c, v) # ys) c = Some v"
  by (simp add: map_of_eq_Some_iff del: map_of_append)

lemma hm_shape_index:
  "hm_shape hm \<Longrightarrow> clog_hashmap_get_index hm k < length (hm_buckets hm)"
  using get_index_less by (auto simp: hm_shape_def)

lemma placed_set_chain:
  assumes "placed hm" and "\<forall>e \<in> set c. clog_hashmap_get_index hm (fst e) = i"
  shows "placed (set_chain i c hm)"
  unfolding placed_def
proof (intro allI impI ballI)
  fix j e
  assume j: "j < length (hm_buckets (set_chain i c hm))"
    and e: "e \<in> set (hm_buckets (set_chain i c hm) ! j)"
  then show "clog_hashmap_get_index (set_chain i c hm) (fst e) = j"
    using assms by (cases "i = j") (auto simp: placed_def)
qed

lemma placed_data_size [simp]: "placed (hm\<lparr>hm_data_size := n\<rparr>) = placed hm"
  by (simp add: placed_def)

lemma hm_abs_data_size [simp]: "hm_abs canon (hm\<lparr>hm_data_size := n\<rparr>) = hm_abs canon hm"
  by (simp add: hm_abs_def)

lemma hm_shape_set_chain:
  "hm_shape hm \<Longrightarrow> n = length (entries (set_chain i c hm)) \<Longrightarrow>
   hm_shape ((set_chain i c hm)\<lparr>hm_data_size := n\<rparr>)"
  by (simp add: hm_shape_def)

text \<open>Insertion: what happens on each path of \<open>clog_hashmap_put\<close>.\<close>

lemma put_nn_cases:
  assumes put: "put_nn hm k v m = (ret, hm', m')"
  obtains (nokey) m1 where "clog_hashmap_dup_key hm k m = (None, m1)" "ret = CLOG_NO_MEMORY"
      "hm' = hm" "m' = m1"
    | (novalue) k1 m1 m2 where "clog_hashmap_dup_key hm k m = (Some k1, m1)"
      "clog_hashmap_dup_value hm v m1 = (None, m2)" "ret = CLOG_NO_MEMORY" "hm' = hm"
      "m' = clog_hashmap_free_key hm k1 m2"
    | (insert) k1 m1 v1 m2 hm3 m3 rep m4 where
      "clog_hashmap_dup_key hm k m = (Some k1, m1)"
      "clog_hashmap_dup_value hm v m1 = (Some v1, m2)"
      "(hm3, m3) = (hm, m2) \<or> (hm3, m3) = snd (clog_hashmap_resize hm (hm_buckets_size hm * 2) m2)"
      "clog_hashmap_put_internal hm3 k1 v1 m3 = (ret, rep, hm', m4)"
      "m' = (if ret \<noteq> CLOG_SUCCESS
               then clog_hashmap_free_value hm' v1 (clog_hashmap_free_key hm' k1 m4)
             else if rep then clog_hashmap_free_key hm' k1 m4 else m4)"
proof (cases "clog_hashmap_dup_key hm k m")
  case k: (Pair k1 m1)
  show ?thesis
  proof (cases k1)
    case None
    with k put show ?thesis by (intro nokey) (auto simp: put_nn_def)
  next
    case k1: (Some k2)
    show ?thesis
    proof (cases "clog_hashmap_dup_value hm v m1")
      case v: (Pair v1 m2)
      show ?thesis
      proof (cases v1)
        case None
        with k k1 v put show ?thesis by (intro novalue) (auto simp: put_nn_def)
      next
        case v1: (Some v2)
        let ?grow = "if hm_buckets_size hm \<le> hm_data_size hm
            then snd (clog_hashmap_resize hm (hm_buckets_size hm * 2) m2) else (hm, m2)"
        obtain hm3 m3 where g: "(hm3, m3) = ?grow" by (metis surj_pair)
        obtain ret1 rep hm4 m4 where
          p: "clog_hashmap_put_internal hm3 k2 v2 m3 = (ret1, rep, hm4, m4)"
          by (metis surj_pair)
        from put k k1 v v1 p have
          "ret1 = ret" "hm4 = hm'"
          "m' = (if ret \<noteq> CLOG_SUCCESS
               then clog_hashmap_free_value hm' v2 (clog_hashmap_free_key hm' k2 m4)
             else if rep then clog_hashmap_free_key hm' k2 m4 else m4)"
          by (auto simp add: put_nn_def g [symmetric])
        with k k1 v v1 p g show ?thesis
          by (intro insert [of k2 m1 v2 m2 hm3 m3 rep m4]) (auto split: if_splits)
      qed
    qed
  qed
qed

subsection \<open>Refinement to a partial function\<close>

context key_contract
begin

lemma index_canon:
  "ok hm \<Longrightarrow> canon a = canon b \<Longrightarrow>
   clog_hashmap_get_index hm a = clog_hashmap_get_index hm b"
  using hash_canon [of hm a b] by (simp add: clog_hashmap_get_index_def)

text \<open>A key that its chain does not hold is nowhere in the map.\<close>

lemma abs_chain:
  assumes inv: "hm_inv ok canon hm"
    and absent: "\<forall>e \<in> set (chain_of hm k). canon (fst e) \<noteq> canon k"
  shows "hm_abs canon hm (canon k) = None"
proof -
  have "canon (fst e) \<noteq> canon k" if e: "e \<in> set (entries hm)" for e
  proof
    assume c: "canon (fst e) = canon k"
    from e obtain c' where "c' \<in> set (hm_buckets hm)" and ec: "e \<in> set c'"
      by (auto simp: entries_def)
    then obtain j where j: "j < length (hm_buckets hm)" and c': "c' = hm_buckets hm ! j"
      by (auto simp: in_set_conv_nth)
    from inv j ec c' have "clog_hashmap_get_index hm (fst e) = j"
      by (auto simp: hm_inv_def placed_def)
    with inv c have "clog_hashmap_get_index hm k = j"
      using index_canon [of hm "fst e" k] by (simp add: hm_inv_def)
    with ec c' have "e \<in> set (chain_of hm k)" by (simp add: chain_of_def)
    with absent c show False by blast
  qed
  then show ?thesis
    by (fastforce simp: hm_abs_def map_of_eq_None_iff set_cmap)
qed

text \<open>
  Three ways an operation rewrites the chain of a key \<open>k\<close> that is split as
  \<open>pre @ e # post\<close>: replacing the value of \<open>e\<close>, dropping \<open>e\<close>, moving \<open>e\<close> to the front.
\<close>

lemma entries_at_chain:
  assumes inv: "hm_inv ok canon hm" and i: "i = clog_hashmap_get_index hm k"
  obtains A B where "entries hm = A @ hm_buckets hm ! i @ B"
    and "\<And>c. entries (set_chain i c hm) = A @ c @ B"
proof -
  from inv have "i < length (hm_buckets hm)"
    unfolding i by (intro hm_shape_index) (simp add: hm_inv_def)
  with that show thesis using entries_split entries_set_chain by metis
qed

lemma chain_index:
  assumes "hm_inv ok canon hm" and "i = clog_hashmap_get_index hm k"
    and "e \<in> set (hm_buckets hm ! i)"
  shows "clog_hashmap_get_index hm (fst e) = i"
  using assms hm_shape_index by (fastforce simp: hm_inv_def placed_def)

lemma inv_set_chain:
  assumes inv: "hm_inv ok canon hm" and i: "i = clog_hashmap_get_index hm k"
    and c: "\<forall>e \<in> set c. clog_hashmap_get_index hm (fst e) = i"
    and d: "distinct (map fst (cmap canon (entries (set_chain i c hm))))"
    and n: "n = length (entries (set_chain i c hm))"
  shows "hm_inv ok canon ((set_chain i c hm)\<lparr>hm_data_size := n\<rparr>)"
proof -
  have "same_ops hm ((set_chain i c hm)\<lparr>hm_data_size := n\<rparr>)"
    by (simp add: same_ops_def set_chain_def)
  with inv have "ok ((set_chain i c hm)\<lparr>hm_data_size := n\<rparr>)"
    using ok_frame [of hm] by (simp only: hm_inv_def)
  moreover have "hm_shape ((set_chain i c hm)\<lparr>hm_data_size := n\<rparr>)"
    using inv n by (intro hm_shape_set_chain) (simp_all add: hm_inv_def)
  moreover have "placed (set_chain i c hm)"
    using inv c by (intro placed_set_chain) (simp_all add: hm_inv_def)
  ultimately show ?thesis using d by (simp add: hm_inv_def)
qed

lemma inv_data_size: "hm_inv ok canon hm \<Longrightarrow> hm_data_size hm = length (entries hm)"
  by (simp add: hm_inv_def hm_shape_def)

lemma replace_chain:
  assumes inv: "hm_inv ok canon hm" and i: "i = clog_hashmap_get_index hm k"
    and ch: "hm_buckets hm ! i = pre @ (k0, old) # post" and k0: "canon k0 = canon k"
  shows "hm_inv ok canon (set_chain i (pre @ (k0, v) # post) hm)"
    and "hm_abs canon (set_chain i (pre @ (k0, v) # post) hm) = (hm_abs canon hm)(canon k \<mapsto> v)"
    and "hm_abs canon hm (canon k) = Some old"
proof -
  let ?c = "pre @ (k0, v) # post"
  obtain A B where e0: "entries hm = A @ hm_buckets hm ! i @ B"
    and e1: "entries (set_chain i ?c hm) = A @ ?c @ B"
    by (rule entries_at_chain [OF inv i]) blast
  have d0: "distinct (map fst (cmap canon (A @ pre) @ (canon k, old) # cmap canon (post @ B)))"
    using inv e0 ch k0 by (simp add: hm_inv_def)
  have d1: "distinct (map fst (cmap canon (entries (set_chain i ?c hm))))"
    using d0 e1 k0 by simp
  have n: "length (entries (set_chain i ?c hm)) = hm_data_size hm"
    using e0 e1 ch inv_data_size [OF inv] by simp
  have idx: "\<forall>e \<in> set ?c. clog_hashmap_get_index hm (fst e) = i"
    using chain_index [OF inv i] chain_index [OF inv i, of "(k0, old)"] ch by auto
  have "hm_inv ok canon ((set_chain i ?c hm)\<lparr>hm_data_size := hm_data_size hm\<rparr>)"
    using inv_set_chain [OF inv i idx d1] n by simp
  then show "hm_inv ok canon (set_chain i ?c hm)"
    by (simp add: set_chain_def)
  show "hm_abs canon (set_chain i ?c hm) = (hm_abs canon hm)(canon k \<mapsto> v)"
    using map_of_insert_middle [OF d0, of v] e0 e1 ch k0 by (simp add: hm_abs_def)
  show "hm_abs canon hm (canon k) = Some old"
    using map_of_middle [OF d0] e0 ch k0 by (simp add: hm_abs_def)
qed

lemma drop_chain:
  assumes inv: "hm_inv ok canon hm" and i: "i = clog_hashmap_get_index hm k"
    and ch: "hm_buckets hm ! i = pre @ e # post" and ek: "canon (fst e) = canon k"
  shows "hm_inv ok canon ((set_chain i (pre @ post) hm)\<lparr>hm_data_size := hm_data_size hm - 1\<rparr>)"
    and "hm_abs canon (set_chain i (pre @ post) hm) = (hm_abs canon hm)(canon k := None)"
    and "hm_abs canon hm (canon k) = Some (snd e)"
    and "0 < hm_data_size hm"
proof -
  let ?c = "pre @ post"
  obtain A B where e0: "entries hm = A @ hm_buckets hm ! i @ B"
    and e1: "entries (set_chain i ?c hm) = A @ ?c @ B"
    by (rule entries_at_chain [OF inv i]) blast
  have d0: "distinct (map fst (cmap canon (A @ pre) @ (canon k, snd e) # cmap canon (post @ B)))"
    using inv e0 ch ek by (simp add: hm_inv_def)
  have d1: "distinct (map fst (cmap canon (entries (set_chain i ?c hm))))"
    using d0 e1 by simp
  have n: "hm_data_size hm - 1 = length (entries (set_chain i ?c hm))"
    using e0 e1 ch inv_data_size [OF inv] by simp
  have idx: "\<forall>e \<in> set ?c. clog_hashmap_get_index hm (fst e) = i"
    using chain_index [OF inv i] ch by auto
  show "hm_inv ok canon ((set_chain i ?c hm)\<lparr>hm_data_size := hm_data_size hm - 1\<rparr>)"
    by (rule inv_set_chain [OF inv i idx d1 n])
  show "hm_abs canon (set_chain i ?c hm) = (hm_abs canon hm)(canon k := None)"
    using map_of_delete_middle [OF d0] e0 e1 ch ek by (simp add: hm_abs_def)
  show "hm_abs canon hm (canon k) = Some (snd e)"
    using map_of_middle [OF d0] e0 ch ek by (simp add: hm_abs_def)
  show "0 < hm_data_size hm"
    using e0 ch inv_data_size [OF inv] by simp
qed

lemma front_chain:
  assumes inv: "hm_inv ok canon hm" and i: "i = clog_hashmap_get_index hm k"
    and ch: "hm_buckets hm ! i = pre @ e # post"
  shows "hm_inv ok canon (set_chain i (e # pre @ post) hm)"
    and "hm_abs canon (set_chain i (e # pre @ post) hm) = hm_abs canon hm"
proof -
  let ?c = "e # pre @ post"
  obtain A B where e0: "entries hm = A @ hm_buckets hm ! i @ B"
    and e1: "entries (set_chain i ?c hm) = A @ ?c @ B"
    by (rule entries_at_chain [OF inv i]) blast
  have m: "mset (cmap canon (entries hm)) = mset (cmap canon (entries (set_chain i ?c hm)))"
    using e0 e1 ch by simp
  have d0: "distinct (map fst (cmap canon (entries hm)))" using inv by (simp add: hm_inv_def)
  note perm = map_of_perm [OF m d0]
  have n: "length (entries (set_chain i ?c hm)) = hm_data_size hm"
    using e0 e1 ch inv_data_size [OF inv] by simp
  have idx: "\<forall>e \<in> set ?c. clog_hashmap_get_index hm (fst e) = i"
    using chain_index [OF inv i] ch by auto
  have "hm_inv ok canon ((set_chain i ?c hm)\<lparr>hm_data_size := hm_data_size hm\<rparr>)"
    using inv_set_chain [OF inv i idx perm(2)] n by simp
  then show "hm_inv ok canon (set_chain i ?c hm)" by (simp add: set_chain_def)
  show "hm_abs canon (set_chain i ?c hm) = hm_abs canon hm"
    using perm(1) by (simp add: hm_abs_def)
qed

lemma push_chain:
  assumes inv: "hm_inv ok canon hm" and i: "i = clog_hashmap_get_index hm k"
    and new: "hm_abs canon hm (canon k) = None"
  shows "hm_inv ok canon
      ((set_chain i ((k, v) # hm_buckets hm ! i) hm)\<lparr>hm_data_size := Suc (hm_data_size hm)\<rparr>)"
    and "hm_abs canon (set_chain i ((k, v) # hm_buckets hm ! i) hm)
      = (hm_abs canon hm)(canon k \<mapsto> v)"
proof -
  let ?c = "(k, v) # hm_buckets hm ! i"
  obtain A B where e0: "entries hm = A @ hm_buckets hm ! i @ B"
    and e1: "entries (set_chain i ?c hm) = A @ ?c @ B"
    by (rule entries_at_chain [OF inv i]) blast
  have m: "mset ((canon k, v) # cmap canon (entries hm))
      = mset (cmap canon (entries (set_chain i ?c hm)))"
    using e0 e1 by simp
  have d0: "distinct (map fst ((canon k, v) # cmap canon (entries hm)))"
    using inv new by (simp add: hm_inv_def hm_abs_def map_of_eq_None_iff)
  note perm = map_of_perm [OF m d0]
  have n: "Suc (hm_data_size hm) = length (entries (set_chain i ?c hm))"
    using e0 e1 inv_data_size [OF inv] by simp
  have idx: "\<forall>e \<in> set ?c. clog_hashmap_get_index hm (fst e) = i"
    using chain_index [OF inv i] i by auto
  show "hm_inv ok canon ((set_chain i ?c hm)\<lparr>hm_data_size := Suc (hm_data_size hm)\<rparr>)"
    by (rule inv_set_chain [OF inv i idx perm(2) n])
  show "hm_abs canon (set_chain i ?c hm) = (hm_abs canon hm)(canon k \<mapsto> v)"
    using perm(1) by (simp add: hm_abs_def)
qed

text \<open>One insertion, on each of its three paths.\<close>

lemma put_internal_spec:
  assumes inv: "hm_inv ok canon hm"
    and put: "clog_hashmap_put_internal hm k v m = (ret, rep, hm', m')"
  shows "hm_inv ok canon hm' \<and> same_ops hm hm' \<and> hm_buckets_size hm' = hm_buckets_size hm \<and>
    (ret = CLOG_SUCCESS \<and> hm_abs canon hm' = (hm_abs canon hm)(canon k \<mapsto> v) \<and>
       (if rep then \<exists>old. hm_abs canon hm (canon k) = Some old \<and>
                    m' = clog_hashmap_free_value hm old m
        else hm_abs canon hm (canon k) = None \<and> clog_malloc sizeof_entry m = (True, m'))
     \<or> ret = CLOG_NO_MEMORY \<and> \<not> rep \<and> hm' = hm \<and> hm_abs canon hm (canon k) = None \<and>
       clog_malloc sizeof_entry m = (False, m'))"
proof -
  define i where i: "i = clog_hashmap_get_index hm k"
  have ok: "ok hm" using inv by (simp add: hm_inv_def)
  let ?p = "\<lambda>k'. clog_hashmap_cmp hm k k'"
  show ?thesis
  proof (cases "chain_replace ?p v (hm_buckets hm ! i)")
    case None
    then have "\<forall>e \<in> set (chain_of hm k). canon (fst e) \<noteq> canon k"
      using cmp_canon [OF ok] by (fastforce simp: chain_replace_None chain_of_def i)
    then have new: "hm_abs canon hm (canon k) = None" by (rule abs_chain [OF inv])
    show ?thesis
    proof (cases "clog_malloc sizeof_entry m")
      case (Pair b m1)
      with put None new push_chain [OF inv i new, of v] inv show ?thesis
        by (cases b) (auto simp: clog_hashmap_put_internal_def Let_def i)
    qed
  next
    case (Some r)
    obtain old c' where r: "r = (old, c')" by (cases r)
    from chain_replace_Some [OF Some [unfolded r]] obtain pre k0 post where
      ch: "hm_buckets hm ! i = pre @ (k0, old) # post" and c': "c' = pre @ (k0, v) # post"
      and pk: "clog_hashmap_cmp hm k k0" by blast
    from pk have k0: "canon k0 = canon k" using cmp_canon [OF ok, of k k0] by simp
    show ?thesis
      using put Some r replace_chain(1,2) [OF inv i ch k0, of v] replace_chain(3) [OF inv i ch k0] c'
      by (auto simp: clog_hashmap_put_internal_def Let_def i)
  qed
qed

lemma move_entries_spec:
  assumes "hm_inv ok canon hm"
    and "distinct (map fst (cmap canon es))"
    and "\<forall>e \<in> set es. hm_abs canon hm (canon (fst e)) = None"
    and "move_entries hm es m = (b, hm', m')"
  shows "hm_inv ok canon hm' \<and> same_ops hm hm' \<and> hm_buckets_size hm' = hm_buckets_size hm \<and>
    (b \<longrightarrow> hm_abs canon hm' = hm_abs canon hm ++ map_of (cmap canon es)) \<and>
    live m' - int (hm_data_size hm') = live m - int (hm_data_size hm)"
  using assms
proof (induction es arbitrary: hm m)
  case Nil
  then show ?case by simp
next
  case (Cons e es)
  obtain ret rep hm1 m1 where
    put: "clog_hashmap_put_internal hm (fst e) (snd e) m = (ret, rep, hm1, m1)"
    by (cases "clog_hashmap_put_internal hm (fst e) (snd e) m")
  note spec = put_internal_spec [OF Cons.prems(1) put]
  have new: "hm_abs canon hm (canon (fst e)) = None" using Cons.prems(3) by simp
  with spec have rep: "\<not> rep" by (auto split: if_splits)
  have size1: "live m1 - int (hm_data_size hm1) = live m - int (hm_data_size hm)"
  proof (cases "ret = CLOG_SUCCESS")
    case True
    with spec rep have "clog_malloc sizeof_entry m = (True, m1)" by auto
    moreover from put True rep have "hm_data_size hm1 = Suc (hm_data_size hm)"
      by (auto simp: clog_hashmap_put_internal_def Let_def split: option.splits prod.splits bool.splits)
    ultimately show ?thesis by (auto dest: live_clog_mallocD)
  next
    case False
    with spec show ?thesis by (auto dest: live_clog_mallocD)
  qed
  show ?case
  proof (cases "ret = CLOG_SUCCESS")
    case False
    with Cons.prems(4) put spec size1 show ?thesis by auto
  next
    case True
    with spec rep have abs1: "hm_abs canon hm1 = (hm_abs canon hm)(canon (fst e) \<mapsto> snd e)"
      and inv1: "hm_inv ok canon hm1" by auto
    have d: "distinct (map fst (cmap canon es))" using Cons.prems(2) by simp
    have n: "\<forall>e' \<in> set es. hm_abs canon hm1 (canon (fst e')) = None"
    proof
      fix e' assume e': "e' \<in> set es"
      then have "canon (fst e') \<in> set (map fst (cmap canon es))" by (simp add: map_fst_cmap)
      moreover have "canon (fst e) \<notin> set (map fst (cmap canon es))"
        using Cons.prems(2) by simp
      ultimately have "canon (fst e') \<noteq> canon (fst e)" by metis
      with e' Cons.prems(3) show "hm_abs canon hm1 (canon (fst e')) = None" by (simp add: abs1)
    qed
    have mv: "move_entries hm1 es m1 = (b, hm', m')"
      using Cons.prems(4) put True by simp
    have notin: "map_of (cmap canon es) (canon (fst e)) = None"
      using Cons.prems(2) by (simp add: map_of_eq_None_iff)
    have eq: "(hm_abs canon hm)(canon (fst e) \<mapsto> snd e) ++ map_of (cmap canon es)
        = hm_abs canon hm ++ map_of (cmap canon (e # es))"
      using notin by (auto simp: fun_eq_iff map_add_def split: option.splits)
    note IH = Cons.IH [OF inv1 d n mv]
    have "b \<longrightarrow> hm_abs canon hm' = hm_abs canon hm ++ map_of (cmap canon (e # es))"
      using IH eq unfolding abs1 by metis
    with IH spec size1 show ?thesis
      by (metis same_ops_trans)
  qed
qed

lemma empty_buckets_inv:
  assumes "ok hm" and "n = 2 ^ p"
  shows "hm_inv ok canon
     (hm\<lparr>hm_buckets := replicate n [], hm_buckets_size := n, hm_data_size := 0\<rparr>)"
    and "hm_abs canon
     (hm\<lparr>hm_buckets := replicate n [], hm_buckets_size := n, hm_data_size := 0\<rparr>) = Map.empty"
proof -
  have e: "entries (hm\<lparr>hm_buckets := replicate n [], hm_buckets_size := n, hm_data_size := 0\<rparr>) = []"
    by (simp add: entries_def concat_replicate_trivial)
  have "same_ops hm (hm\<lparr>hm_buckets := replicate n [], hm_buckets_size := n, hm_data_size := 0\<rparr>)"
    by (simp add: same_ops_def)
  with assms e show "hm_inv ok canon
     (hm\<lparr>hm_buckets := replicate n [], hm_buckets_size := n, hm_data_size := 0\<rparr>)"
    using ok_frame by (auto simp: hm_inv_def hm_shape_def placed_def)
  from e show "hm_abs canon
     (hm\<lparr>hm_buckets := replicate n [], hm_buckets_size := n, hm_data_size := 0\<rparr>) = Map.empty"
    by (simp add: hm_abs_def)
qed

lemma size_card: "hm_inv ok canon h \<Longrightarrow> card (dom (hm_abs canon h)) = hm_data_size h"
proof -
  assume inv: "hm_inv ok canon h"
  have "dom (hm_abs canon h) = set (map fst (cmap canon (entries h)))"
    by (simp add: hm_abs_def dom_map_of_conv_image_fst)
  moreover have "distinct (map fst (cmap canon (entries h)))"
    using inv by (simp add: hm_inv_def)
  ultimately have "card (dom (hm_abs canon h)) = length (entries h)"
    by (metis distinct_card length_cmap length_map)
  then show ?thesis using inv_data_size [OF inv] by simp
qed

text \<open>
  Resizing to any power of two keeps the partial function. It either moves every entry, or
  restores the map exactly; either way no block is lost.
\<close>

lemma live_free_entries: "live (free_entries es m) = live m - int (length es)"
  by (induction es arbitrary: m) (auto simp: mem_simps)

lemma resize_spec:
  assumes inv: "hm_inv ok canon hm" and n: "n = 2 ^ p"
    and res: "clog_hashmap_resize hm n m = (ret, hm', m')"
  shows "hm_inv ok canon hm' \<and> same_ops hm hm' \<and> hm_abs canon hm' = hm_abs canon hm \<and>
    live m' = live m \<and>
    (if ret = CLOG_SUCCESS then hm_buckets_size hm' = n else hm' = hm)"
proof -
  obtain bs :: "(bytes \<times> 'v) list list option" and m1 where Pair: "clog_hashmap_create_empty_buckets n m = (bs, m1)"
    by (rule prod.exhaust)
  show ?thesis
  proof (cases bs)
    case None
    with Pair res inv show ?thesis
      by (auto simp: clog_hashmap_resize_def clog_hashmap_create_empty_buckets_def
          split: prod.splits bool.splits dest: live_clog_mallocD)
  next
    case (Some b0)
    with Pair have b0: "b0 = replicate n []" and m1: "live m1 = live m + 1"
      by (auto simp: clog_hashmap_create_empty_buckets_def split: prod.splits bool.splits
          dest: live_clog_mallocD)
    define hm0 where
      "hm0 = hm\<lparr>hm_buckets := b0, hm_buckets_size := n, hm_data_size := 0\<rparr>"
    have inv0: "hm_inv ok canon hm0" and abs0: "hm_abs canon hm0 = Map.empty"
      using empty_buckets_inv [of hm n p] inv n by (simp_all add: hm0_def b0 hm_inv_def)
    have d: "distinct (map fst (cmap canon (concat (hm_buckets hm))))"
      using inv by (simp add: hm_inv_def entries_def)
    obtain ok2 hm2 m2 where mv: "move_entries hm0 (concat (hm_buckets hm)) m1 = (ok2, hm2, m2)"
      by (cases "move_entries hm0 (concat (hm_buckets hm)) m1")
    have spec: "hm_inv ok canon hm2 \<and> same_ops hm0 hm2 \<and>
        hm_buckets_size hm2 = hm_buckets_size hm0 \<and>
        (ok2 \<longrightarrow> hm_abs canon hm2 = hm_abs canon hm0 ++ map_of (cmap canon (concat (hm_buckets hm)))) \<and>
        live m2 - int (hm_data_size hm2) = live m1 - int (hm_data_size hm0)"
      by (rule move_entries_spec [OF inv0 d _ mv]) (simp add: abs0)
    have same: "same_ops hm hm2" using spec by (simp add: hm0_def same_ops_def)
    have ds: "hm_data_size hm2 = length (concat (hm_buckets hm2))"
      using spec inv_data_size by (simp add: entries_def)
    have l2: "live m2 = live m + 1 + int (hm_data_size hm2)"
      using spec m1 by (simp add: hm0_def)
    show ?thesis
    proof (cases ok2)
      case True
      have abs2: "hm_abs canon hm2 = hm_abs canon hm"
        using spec True abs0 by (simp add: hm_abs_def entries_def)
      have size_eq: "hm_data_size hm2 = hm_data_size hm"
        using size_card [OF inv] size_card [of hm2] spec abs2 by simp
      from True res Pair Some mv have "ret = CLOG_SUCCESS" "hm' = hm2"
        "m' = clog_free (free_entries (concat (hm_buckets hm)) m2)"
        by (simp_all add: clog_hashmap_resize_def hm0_def [symmetric])
      with spec same abs2 l2 size_eq inv_data_size [OF inv] show ?thesis
        by (simp add: mem_simps live_free_entries entries_def hm0_def)
    next
      case False
      let ?undo = "hm2\<lparr>hm_buckets := hm_buckets hm, hm_buckets_size := hm_buckets_size hm,
          hm_data_size := hm_data_size hm\<rparr>"
      have "?undo = hm"
        using same by (intro same_ops_eqI) (simp_all add: same_ops_def)
      moreover from False res Pair Some mv have "ret = CLOG_FAIL" "hm' = ?undo"
        "m' = clog_free (free_entries (concat (hm_buckets hm2)) m2)"
        by (simp_all add: clog_hashmap_resize_def hm0_def [symmetric])
      ultimately show ?thesis using inv l2 ds by (simp add: mem_simps live_free_entries)
    qed
  qed
qed

lemma resize_double_spec:
  assumes "hm_inv ok canon hm"
    and "(hm3, m3) = (hm, m2) \<or> (hm3, m3) = snd (clog_hashmap_resize hm (hm_buckets_size hm * 2) m2)"
  shows "hm_inv ok canon hm3 \<and> same_ops hm hm3 \<and> hm_abs canon hm3 = hm_abs canon hm \<and>
    live m3 = live m2"
proof -
  obtain p where "hm_buckets_size hm = 2 ^ p" using assms(1) by (auto simp: hm_inv_def hm_shape_def)
  then have n: "hm_buckets_size hm * 2 = 2 ^ Suc p" by simp
  obtain r hm1 m1 where r: "clog_hashmap_resize hm (hm_buckets_size hm * 2) m2 = (r, hm1, m1)"
    by (metis surj_pair)
  from resize_spec [OF assms(1) n r] r assms show ?thesis by auto
qed

lemma put_spec:
  assumes inv: "hm_inv ok canon hm" and wf: "wf_key k"
    and put: "put_nn hm k v m = (ret, hm', m')"
  shows "hm_inv ok canon hm' \<and> same_ops hm hm' \<and>
    (ret = CLOG_SUCCESS \<and> hm_abs canon hm' = (hm_abs canon hm)(canon k \<mapsto> v) \<or>
     ret = CLOG_NO_MEMORY \<and> hm_abs canon hm' = hm_abs canon hm)"
  using put
proof (cases rule: put_nn_cases)
  case (insert k1 m1 v1 m2 hm3 m3 rep m4)
  have ok: "ok hm" using inv by (simp add: hm_inv_def)
  have k1: "canon k1 = canon k" and v1: "v1 = v"
    using dup_key_canon [OF ok wf insert(1)] dup_value_eq [OF ok insert(2)] .
  have three: "hm_inv ok canon hm3 \<and> same_ops hm hm3 \<and> hm_abs canon hm3 = hm_abs canon hm \<and>
    live m3 = live m2"
    by (rule resize_double_spec [OF inv insert(3)])
  then show ?thesis
    using put_internal_spec [OF _ insert(4)] k1 v1 by (auto intro: same_ops_trans)
qed (use inv in simp_all)

lemma get_spec:
  assumes inv: "hm_inv ok canon hm" and get: "get_nn hm k = (r, hm')"
  shows "r = hm_abs canon hm (canon k) \<and> hm_inv ok canon hm' \<and> same_ops hm hm' \<and>
    hm_abs canon hm' = hm_abs canon hm"
proof -
  define i where i: "i = clog_hashmap_get_index hm k"
  have ok: "ok hm" using inv by (simp add: hm_inv_def)
  show ?thesis
  proof (cases "chain_split (\<lambda>k'. clog_hashmap_cmp hm k' k) (hm_buckets hm ! i)")
    case None
    then have "\<forall>e \<in> set (chain_of hm k). canon (fst e) \<noteq> canon k"
      using cmp_canon [OF ok] by (fastforce simp: chain_split_None chain_of_def i)
    then have "hm_abs canon hm (canon k) = None" by (rule abs_chain [OF inv])
    with None get inv show ?thesis by (simp add: get_nn_def i)
  next
    case (Some x)
    obtain pre e post where x: "x = (pre, e, post)" by (cases x)
    from chain_split_Some [OF Some [unfolded x]] have
      ch: "hm_buckets hm ! i = pre @ e # post" and ek: "canon (fst e) = canon k"
      using cmp_canon [OF ok] by auto
    have r: "r = Some (snd e)" and hm': "hm' = hm \<or> hm' = set_chain i (e # pre @ post) hm"
      using get Some x by (auto simp: get_nn_def i split: if_splits)
    show ?thesis
      using r hm' drop_chain(3) [OF inv i ch ek] front_chain [OF inv i ch] inv by auto
  qed
qed

lemma found_iff:
  assumes inv: "hm_inv ok canon hm"
  shows "chain_split (\<lambda>k'. clog_hashmap_cmp hm k' k)
      (hm_buckets hm ! clog_hashmap_get_index hm k) = None \<longleftrightarrow> hm_abs canon hm (canon k) = None"
proof -
  obtain r hm' where get: "get_nn hm k = (r, hm')" by (cases "get_nn hm k")
  then have "r = hm_abs canon hm (canon k)" by (rule get_spec [OF inv, THEN conjunct1])
  moreover from get have "r = None \<longleftrightarrow> chain_split (\<lambda>k'. clog_hashmap_cmp hm k' k)
      (hm_buckets hm ! clog_hashmap_get_index hm k) = None"
    by (auto simp add: get_nn_def Let_def split: option.splits prod.splits)
  ultimately show ?thesis by metis
qed

lemma take_spec:
  assumes inv: "hm_inv ok canon hm" and tk: "take_nn hm k m = (r, hm', m')"
  shows "r = hm_abs canon hm (canon k) \<and> hm_inv ok canon hm' \<and> same_ops hm hm' \<and>
    hm_abs canon hm' = (hm_abs canon hm)(canon k := None) \<and>
    (if r = None then m' = m else \<exists>k1. m' = clog_free (clog_hashmap_free_key hm k1 m))"
proof -
  define i where i: "i = clog_hashmap_get_index hm k"
  have ok: "ok hm" using inv by (simp add: hm_inv_def)
  show ?thesis
  proof (cases "chain_split (\<lambda>k'. clog_hashmap_cmp hm k' k) (hm_buckets hm ! i)")
    case None
    with found_iff [OF inv, of k] have "hm_abs canon hm (canon k) = None" by (simp add: i)
    with None tk inv show ?thesis by (simp add: take_nn_def i fun_upd_idem)
  next
    case (Some x)
    obtain pre e post where x: "x = (pre, e, post)" by (cases x)
    from chain_split_Some [OF Some [unfolded x]] have
      ch: "hm_buckets hm ! i = pre @ e # post" and ek: "canon (fst e) = canon k"
      using cmp_canon [OF ok] by auto
    show ?thesis
      using tk Some x drop_chain [OF inv i ch ek] by (auto simp: take_nn_def i)
  qed
qed

lemma remove_spec:
  assumes inv: "hm_inv ok canon hm" and rm: "remove_nn hm k m = (r, hm', m')"
  shows "(r \<longleftrightarrow> hm_abs canon hm (canon k) \<noteq> None) \<and> hm_inv ok canon hm' \<and> same_ops hm hm' \<and>
    hm_abs canon hm' = (hm_abs canon hm)(canon k := None)"
    and "if r then \<exists>k1. live m' = live (clog_hashmap_free_entry hm
           (k1, the (hm_abs canon hm (canon k))) m)
         else m' = m"
proof -
  define i where i: "i = clog_hashmap_get_index hm k"
  have ok: "ok hm" using inv by (simp add: hm_inv_def)
  have "((r \<longleftrightarrow> hm_abs canon hm (canon k) \<noteq> None) \<and> hm_inv ok canon hm' \<and> same_ops hm hm' \<and>
      hm_abs canon hm' = (hm_abs canon hm)(canon k := None)) \<and>
    (if r then \<exists>k1. live m' = live (clog_hashmap_free_entry hm
           (k1, the (hm_abs canon hm (canon k))) m)
         else m' = m)"
  proof (cases "hm_data_size hm = 0")
    case True
    with size_card [OF inv] inv_data_size [OF inv] have "hm_abs canon hm (canon k) = None"
      by (simp add: hm_abs_def)
    with True rm inv show ?thesis by (simp add: remove_nn_def fun_upd_idem)
  next
    case ds: False
    show ?thesis
    proof (cases "chain_split (\<lambda>k'. clog_hashmap_cmp hm k' k) (hm_buckets hm ! i)")
      case None
      with found_iff [OF inv, of k] have "hm_abs canon hm (canon k) = None" by (simp add: i)
      with None rm ds inv show ?thesis by (simp add: remove_nn_def i fun_upd_idem)
    next
      case (Some x)
      obtain pre e post where x: "x = (pre, e, post)" by (cases x)
      from chain_split_Some [OF Some [unfolded x]] have
        ch: "hm_buckets hm ! i = pre @ e # post" and ek: "canon (fst e) = canon k"
        using cmp_canon [OF ok] by auto
      define hm1 where
        "hm1 = (set_chain i (pre @ post) hm)\<lparr>hm_data_size := hm_data_size hm - 1\<rparr>"
      define m1 where "m1 = clog_hashmap_free_entry hm1 e m"
      note drop = drop_chain [OF inv i ch ek]
      have inv1: "hm_inv ok canon hm1" and same1: "same_ops hm hm1"
        and abs1: "hm_abs canon hm1 = (hm_abs canon hm)(canon k := None)"
        using drop by (simp_all add: hm1_def)
      have free1: "m1 = clog_hashmap_free_entry hm e m"
        using same_ops_funs(7) [OF same1] by (simp add: m1_def)
      have e: "e = (fst e, the (hm_abs canon hm (canon k)))"
        using drop(3) by simp
      show ?thesis
      proof (cases "hm_data_size hm1 < hm_buckets_size hm1 div 2")
        case False
        with rm ds Some x have "r" "hm' = hm1" "m' = m1"
          by (auto simp: remove_nn_def i Let_def hm1_def [unfolded i] m1_def)
        with inv1 same1 abs1 free1 e drop(3) show ?thesis by (metis option.distinct(1))
      next
        case True
        obtain p where p: "hm_buckets_size hm1 = 2 ^ p"
          using inv1 by (auto simp: hm_inv_def hm_shape_def)
        with True have "p \<noteq> 0" by (intro notI) simp
        then have n: "hm_buckets_size hm1 div 2 = 2 ^ (p - 1)"
          using p by (cases p) simp_all
        obtain ret hm2 m2 where
          res: "clog_hashmap_resize hm1 (hm_buckets_size hm1 div 2) m1 = (ret, hm2, m2)"
          by (metis surj_pair)
        from rm ds Some x True res have "r" "hm' = hm2" "m' = m2"
          by (auto simp: remove_nn_def i Let_def hm1_def [unfolded i] m1_def)
        with resize_spec [OF inv1 n res] same1 abs1 free1 e drop(3) show ?thesis
          by (metis option.distinct(1) same_ops_trans)
      qed
    qed
  qed
  then show "(r \<longleftrightarrow> hm_abs canon hm (canon k) \<noteq> None) \<and> hm_inv ok canon hm' \<and> same_ops hm hm' \<and>
      hm_abs canon hm' = (hm_abs canon hm)(canon k := None)"
    and "if r then \<exists>k1. live m' = live (clog_hashmap_free_entry hm
           (k1, the (hm_abs canon hm (canon k))) m)
         else m' = m" by blast+
qed

lemma clear_spec:
  assumes inv: "hm_inv ok canon hm" and cl: "clog_hashmap_clear (Some hm) m = (r, m')"
  obtains hm' where "r = Some hm'" "hm_inv ok canon hm'" "same_ops hm hm'"
    "hm_abs canon hm' = Map.empty" "m' = free_chain hm (entries hm) m"
proof -
  let ?hm = "hm\<lparr>hm_buckets := replicate (length (hm_buckets hm)) [], hm_data_size := 0\<rparr>"
  obtain p where p: "hm_buckets_size hm = 2 ^ p" and l: "length (hm_buckets hm) = hm_buckets_size hm"
    using inv by (auto simp: hm_inv_def hm_shape_def)
  have ok: "ok hm" using inv by (simp add: hm_inv_def)
  have "?hm = hm\<lparr>hm_buckets := replicate (hm_buckets_size hm) [],
      hm_buckets_size := hm_buckets_size hm, hm_data_size := 0\<rparr>"
    using l by simp
  with empty_buckets_inv [OF ok p] have "hm_inv ok canon ?hm" "hm_abs canon ?hm = Map.empty"
    by simp_all
  moreover have "same_ops hm ?hm" by (simp add: same_ops_def)
  moreover have "r = Some ?hm" "m' = free_chain hm (entries hm) m"
    using cl by (simp_all add: clog_hashmap_clear_def entries_def)
  ultimately show ?thesis using that by blast
qed

end

end
