(* ===== verification/Hashmap_Maps.thy ===== *)
theory Hashmap_Maps
  imports Hashmap_Correct
begin

unbundle bit_operations_syntax

text \<open>
  The hash map seen from its clients: what every operation allocates and releases (the locale
  \<open>block_contract\<close>), the two kinds of map the library creates (C-string keys, keys of a
  fixed size) as instances of the contracts, and the properties of the component.
\<close>

subsection \<open>Blocks\<close>

text \<open>
  The blocks a map owns: the struct, the bucket array, and for each entry its own block, its
  key and \<open>vcost\<close> blocks of its value. It depends on the partial function only.
\<close>

definition foot :: "('v \<Rightarrow> int) \<Rightarrow> ('c \<Rightarrow> 'v option) \<Rightarrow> int" where
  "foot vcost M = 2 + (\<Sum>c \<in> dom M. 2 + vcost (the (M c)))"

lemma surjective_pairing3: "t = (fst t, fst (snd t), snd (snd t))"
  by simp

lemma foot_empty [simp]: "foot vcost Map.empty = 2"
  by (simp add: foot_def)

lemma foot_insert:
  "finite (dom M) \<Longrightarrow> M c = None \<Longrightarrow> foot vcost (M(c \<mapsto> v)) = foot vcost M + 2 + vcost v"
proof -
  assume f: "finite (dom M)" and n: "M c = None"
  then have "(\<Sum>x \<in> dom M. 2 + vcost (the ((M(c \<mapsto> v)) x))) = (\<Sum>x \<in> dom M. 2 + vcost (the (M x)))"
    by (intro sum.cong) auto
  with f n show ?thesis by (simp add: foot_def domIff)
qed

lemma foot_delete:
  "finite (dom M) \<Longrightarrow> M c = Some v \<Longrightarrow> foot vcost (M(c := None)) = foot vcost M - 2 - vcost v"
proof -
  assume f: "finite (dom M)" and s: "M c = Some v"
  have "foot vcost ((M(c := None))(c \<mapsto> v)) = foot vcost (M(c := None)) + 2 + vcost v"
    by (rule foot_insert) (use f in simp_all)
  moreover have "(M(c := None))(c \<mapsto> v) = M" using s by auto
  ultimately show ?thesis by simp
qed

lemma foot_replace:
  "finite (dom M) \<Longrightarrow> M c = Some old \<Longrightarrow>
   foot vcost (M(c \<mapsto> v)) = foot vcost M + vcost v - vcost old"
  using foot_delete [of M c old vcost] foot_insert [of "M(c := None)" c vcost v] by simp

lemma finite_hm_abs [simp]: "finite (dom (hm_abs canon hm))"
  by (simp add: hm_abs_def finite_dom_map_of)

locale block_contract = key_contract ok wf_key canon
  for ok :: "('v, 'm) clog_hashmap \<Rightarrow> bool"
    and wf_key :: "bytes \<Rightarrow> bool"
    and canon :: "bytes \<Rightarrow> 'c" +
  fixes vcost :: "'v \<Rightarrow> int"
  assumes dup_key_live:
      "ok hm \<Longrightarrow> clog_hashmap_dup_key hm k m = (r, m') \<Longrightarrow>
       live m' = live m + (if r = None then 0 else 1)"
    and free_key_live: "ok hm \<Longrightarrow> live (clog_hashmap_free_key hm k m) = live m - 1"
    and dup_value_live:
      "ok hm \<Longrightarrow> clog_hashmap_dup_value hm v m = (q, m') \<Longrightarrow>
       live m' = live m + (if q = None then 0 else vcost v)"
    and free_value_live: "ok hm \<Longrightarrow> live (clog_hashmap_free_value hm v m) = live m - vcost v"
begin

definition blocks :: "('v, 'm) clog_hashmap \<Rightarrow> int" where
  "blocks hm = foot vcost (hm_abs canon hm)"

lemma free_entry_live:
  "ok hm \<Longrightarrow> live (clog_hashmap_free_entry hm e m) = live m - 2 - vcost (snd e)"
  by (simp add: clog_hashmap_free_entry_def mem_simps free_value_live free_key_live)

lemma put_internal_blocks:
  assumes inv: "hm_inv ok canon hm"
    and put: "clog_hashmap_put_internal hm k v m = (ret, rep, hm', m')"
  shows "live m' - blocks hm' = live m - blocks hm -
    (if ret \<noteq> CLOG_SUCCESS then 0 else if rep then vcost v else 1 + vcost v)"
proof -
  have ok: "ok hm" using inv by (simp add: hm_inv_def)
  from put_internal_spec [OF inv put] show ?thesis
    by (auto simp: blocks_def foot_replace foot_insert free_value_live [OF ok] 
        split: if_splits dest!: live_clog_mallocD)
qed

lemma put_blocks:
  assumes inv: "hm_inv ok canon hm" and wf: "wf_key k"
    and put: "put_nn hm k v m = (ret, hm', m')"
  shows "live m' - blocks hm' = live m - blocks hm"
  using put
proof (cases rule: put_nn_cases)
  case (nokey m1)
  with dup_key_live inv show ?thesis by (fastforce simp: hm_inv_def)
next
  case (novalue k1 m1 m2)
  have ok: "ok hm" using inv by (simp add: hm_inv_def)
  from novalue dup_key_live [OF ok novalue(1)] dup_value_live [OF ok novalue(2)] show ?thesis
    by (simp add: free_key_live [OF ok])
next
  case (insert k1 m1 v1 m2 hm3 m3 rep m4)
  have ok: "ok hm" using inv by (simp add: hm_inv_def)
  have v1: "v1 = v" by (rule dup_value_eq [OF ok insert(2)])
  have three: "hm_inv ok canon hm3 \<and> same_ops hm hm3 \<and> hm_abs canon hm3 = hm_abs canon hm \<and>
    live m3 = live m2"
    by (rule resize_double_spec [OF inv insert(3)])
  then have inv3: "hm_inv ok canon hm3" by blast
  have ok': "ok hm'" using put_internal_spec [OF inv3 insert(4)] by (simp add: hm_inv_def)
  have b3: "blocks hm3 = blocks hm" using three by (simp add: blocks_def)
  from insert(5) dup_key_live [OF ok insert(1)] dup_value_live [OF ok insert(2)] three b3
    put_internal_blocks [OF inv3 insert(4)] v1 put_internal_spec [OF inv3 insert(4)]
  show ?thesis
    by (auto simp: free_key_live [OF ok'] free_value_live [OF ok'] split: if_splits)
qed

lemma take_blocks:
  assumes inv: "hm_inv ok canon hm" and tk: "take_nn hm k m = (r, hm', m')"
  shows "live m' - blocks hm' =
    live m - blocks hm + (case r of None \<Rightarrow> 0 | Some v \<Rightarrow> vcost v)"
proof -
  have ok: "ok hm" using inv by (simp add: hm_inv_def)
  from take_spec [OF inv tk] show ?thesis
    by (auto simp: blocks_def foot_delete mem_simps free_key_live [OF ok] fun_upd_idem
        split: option.splits)
qed

lemma remove_blocks:
  assumes inv: "hm_inv ok canon hm" and rm: "remove_nn hm k m = (r, hm', m')"
  shows "live m' - blocks hm' = live m - blocks hm"
proof -
  have ok: "ok hm" using inv by (simp add: hm_inv_def)
  show ?thesis
  proof (cases r)
    case True
    with remove_spec(1) [OF inv rm] obtain v where v: "hm_abs canon hm (canon k) = Some v" by blast
    with True remove_spec(2) [OF inv rm] have "live m' = live m - 2 - vcost v"
      by (auto simp: free_entry_live [OF ok])
    with v remove_spec(1) [OF inv rm] show ?thesis by (simp add: blocks_def foot_delete)
  next
    case False
    with remove_spec [OF inv rm] show ?thesis by (simp add: blocks_def fun_upd_idem)
  qed
qed

lemma free_chain_live:
  "ok hm \<Longrightarrow> live (free_chain hm es m) = live m - (\<Sum>e \<leftarrow> es. 2 + vcost (snd e))"
  by (induction es arbitrary: m) (simp_all add: free_entry_live)

lemma blocks_entries:
  assumes "hm_inv ok canon hm"
  shows "blocks hm = 2 + (\<Sum>e \<leftarrow> entries hm. 2 + vcost (snd e))"
proof -
  have "foot vcost (map_of (cmap canon es)) = 2 + (\<Sum>e \<leftarrow> es. 2 + vcost (snd e))"
    if "distinct (map fst (cmap canon es))" for es :: "(bytes \<times> 'v) list"
    using that
    by (induction es)
      (simp_all add: foot_insert finite_dom_map_of map_of_eq_None_iff)
  with assms show ?thesis by (simp add: blocks_def hm_abs_def hm_inv_def)
qed

lemma clear_blocks:
  assumes inv: "hm_inv ok canon hm" and cl: "clog_hashmap_clear (Some hm) m = (Some hm', m')"
  shows "live m' - blocks hm' = live m - blocks hm"
proof -
  obtain hm1 where "Some hm' = Some hm1" "hm_abs canon hm1 = Map.empty"
    and m': "m' = free_chain hm (entries hm) m"
    by (rule clear_spec [OF inv cl])
  then have "blocks hm' = 2" by (simp add: blocks_def)
  with m' blocks_entries [OF inv] free_chain_live [of hm "entries hm" m] inv show ?thesis
    by (simp add: hm_inv_def)
qed

lemma destroy_blocks:
  assumes inv: "hm_inv ok canon hm" and d: "clog_hashmap_destroy (Some hm) m = (r, m')"
  shows "r = None \<and> live m' = live m - blocks hm"
  using d blocks_entries [OF inv] inv
  by (auto simp: clog_hashmap_destroy_def clog_hashmap_free_buckets_def mem_simps free_chain_live
      hm_inv_def entries_def)

end

subsection \<open>Reading keys\<close>

text \<open>Two keys with the same first \<open>n\<close> bytes have the same hash over \<open>n\<close> bytes.\<close>

lemma nth_eq_of_take: "take n a = take n b \<Longrightarrow> i < n \<Longrightarrow> a ! i = b ! i"
  by (metis nth_take)

lemma murmur_body_cong:
  "4 * k \<le> n \<Longrightarrow> take n a = take n b \<Longrightarrow> murmur_body a k h = murmur_body b k h"
  by (induction k arbitrary: h) (simp_all add: read32_def nth_eq_of_take [of n a b])

lemma murmur_tail_cong:
  "off + rest \<le> n \<Longrightarrow> take n a = take n b \<Longrightarrow> murmur_tail a off rest h = murmur_tail b off rest h"
  by (simp add: murmur_tail_def Let_def nth_eq_of_take [of n a b])

lemma murmur3_cong: "take n a = take n b \<Longrightarrow> murmur3_32_bytes sd n a = murmur3_32_bytes sd n b"
proof -
  assume t: "take n a = take n b"
  have "4 * (n div 4) \<le> n" "n div 4 * 4 + n mod 4 \<le> n" by simp_all
  with t show ?thesis
    by (simp add: murmur3_32_bytes_def Let_def murmur_body_cong [OF _ t]
        murmur_tail_cong [OF _ t])
qed

subsection \<open>String keys\<close>

text \<open>The C string a pointer designates, and the block of a C string.\<close>

definition cstr :: "bytes \<Rightarrow> string" where
  "cstr k = map (\<lambda>w. char_of (unat w)) (takeWhile (\<lambda>w. w \<noteq> 0) k)"

definition cstr_bytes :: "string \<Rightarrow> bytes" where
  "cstr_bytes s = map (\<lambda>c. of_nat (of_char c)) s @ [0]"

definition clog_hashmap_string_dup ::
    "bytes \<Rightarrow> 'm mem_scheme \<Rightarrow> bytes option \<times> 'm mem_scheme" where
  "clog_hashmap_string_dup str m =
     (case clog_strdup (Some (cstr str)) m of (r, m') \<Rightarrow> (map_option cstr_bytes r, m'))"

definition clog_hashmap_string_free :: "bytes \<Rightarrow> 'm mem_scheme \<Rightarrow> 'm mem_scheme" where
  "clog_hashmap_string_free str m = clog_free m"

definition clog_hashmap_string_cmp :: "bytes \<Rightarrow> bytes \<Rightarrow> bool" where
  "clog_hashmap_string_cmp str1 str2 \<longleftrightarrow> cstr str1 = cstr str2"

definition clog_hashmap_string_size :: "bytes \<Rightarrow> nat" where
  "clog_hashmap_string_size str = length (cstr str)"

lemma unat_byte_mod [simp]: "unat (w :: 8 word) mod 256 = unat w"
  using unsigned_less [of w, where ?'a = nat] by simp

lemma byte_of_char_0: "of_nat (of_char c) = (0 :: 8 word) \<longleftrightarrow> c = CHR 0x00"
proof
  assume "of_nat (of_char c) = (0 :: 8 word)"
  then have "unat (of_nat (of_char c) :: 8 word) = 0" by simp
  then have "(of_char c :: nat) = 0" by (simp add: unat_of_nat)
  then have "char_of (of_char c :: nat) = char_of (0 :: nat)" by simp
  then show "c = CHR 0x00" by (simp only: char_of_char) (simp add: char_of_def)
qed simp

lemma cstr_eq_takeWhile: "cstr a = cstr b \<longleftrightarrow> takeWhile (\<lambda>w. w \<noteq> 0) a = takeWhile (\<lambda>w. w \<noteq> 0) b"
proof -
  have "inj (\<lambda>w :: 8 word. char_of (unat w))" by (rule injI) (simp add: word_unat_eq_iff)
  then show ?thesis by (simp add: cstr_def inj_map_eq_map)
qed

lemma take_length_takeWhile: "take (length (takeWhile P xs)) xs = takeWhile P xs"
  by (induction xs) auto

lemma cstr_hash:
  "cstr a = cstr b \<Longrightarrow>
   murmur3_32_bytes sd (clog_hashmap_string_size a) a = murmur3_32_bytes sd (clog_hashmap_string_size b) b"
proof -
  assume e: "cstr a = cstr b"
  then have t: "takeWhile (\<lambda>w. w \<noteq> 0) a = takeWhile (\<lambda>w. w \<noteq> 0) b" by (simp add: cstr_eq_takeWhile)
  have n: "clog_hashmap_string_size a = clog_hashmap_string_size b"
    using e by (simp add: clog_hashmap_string_size_def)
  have "clog_hashmap_string_size x = length (takeWhile (\<lambda>w. w \<noteq> 0) x)" for x
    by (simp add: clog_hashmap_string_size_def cstr_def)
  then have "take (clog_hashmap_string_size a) a = take (clog_hashmap_string_size a) b"
    using t n by (metis take_length_takeWhile)
  then show ?thesis using n murmur3_cong by metis
qed

lemma takeWhile_no_null: "CHR 0x00 \<notin> set s \<Longrightarrow>
  takeWhile (\<lambda>w. w \<noteq> 0) (map (\<lambda>c. of_nat (of_char c)) s @ 0 # r) =
    map (\<lambda>c. of_nat (of_char c) :: 8 word) s"
proof (induction s)
  case (Cons c s)
  then have "of_nat (of_char c) \<noteq> (0 :: 8 word)" by (auto simp: byte_of_char_0)
  with Cons show ?case by simp
qed simp

lemma no_null_cstr: "CHR 0x00 \<notin> set (cstr k)"
proof
  assume "CHR 0x00 \<in> set (cstr k)"
  then obtain w where w: "w \<in> set (takeWhile (\<lambda>w. w \<noteq> 0) k)" and c: "CHR 0x00 = char_of (unat w)"
    by (auto simp: cstr_def)
  from c have "(of_char (CHR 0x00) :: nat) = of_char (char_of (unat w))" by simp
  then have "w = 0" by (simp add: unat_eq_zero)
  with w show False by (auto dest: set_takeWhileD)
qed

lemma cstr_cstr_bytes: "CHR 0x00 \<notin> set s \<Longrightarrow> cstr (cstr_bytes s) = s"
proof -
  assume "CHR 0x00 \<notin> set s"
  then have "cstr (cstr_bytes s) = map (\<lambda>w. char_of (unat w)) (map (\<lambda>c. of_nat (of_char c) :: 8 word) s)"
    by (simp add: cstr_def cstr_bytes_def takeWhile_no_null)
  also have "\<dots> = s" by (simp add: comp_def unat_of_nat)
  finally show ?thesis .
qed


definition string_map :: "('v, 'm) clog_hashmap \<Rightarrow> bool" where
  "string_map hm \<longleftrightarrow>
     hm_key_dup hm = Some clog_hashmap_string_dup \<and> hm_key_free hm = Some clog_hashmap_string_free \<and>
     hm_value_dup hm = None \<and> hm_value_free hm = None \<and> 0 < hm_value_size hm \<and>
     hm_cmp hm = Some clog_hashmap_string_cmp \<and> hm_size_of hm = Some clog_hashmap_string_size"

lemma dup_value_none:
  "hm_value_dup hm = None \<Longrightarrow> 0 < hm_value_size hm \<Longrightarrow>
   clog_hashmap_dup_value hm v m = (q, m') \<Longrightarrow>
   (q = None \<or> q = Some v) \<and> live m' = live m + (if q = None then 0 else 1)"
  by (auto simp: clog_hashmap_dup_value_def split: prod.splits bool.splits
      dest: live_clog_mallocD)

lemma dup_key_string:
  assumes "string_map hm" and "clog_hashmap_dup_key hm k m = (r, m')"
  shows "(r = None \<or> r = Some (cstr_bytes (cstr k))) \<and> live m' = live m + (if r = None then 0 else 1)"
proof (cases "clog_strdup (Some (cstr k)) m")
  case (Pair s m1)
  with assms have "r = map_option cstr_bytes s" "m' = m1"
    by (simp_all add: string_map_def clog_hashmap_dup_key_def clog_hashmap_string_dup_def)
  with Pair show ?thesis
    using clog_strdup_Some [of "cstr k" m _ m1] live_clog_strdup [OF Pair] by (cases s) simp_all
qed

interpretation string_keys: block_contract string_map "\<lambda>k. True" cstr "\<lambda>v. 1"
proof unfold_locales
  fix hm hm' :: "('v, 'm) clog_hashmap"
  show "same_ops hm hm' \<Longrightarrow> string_map hm \<Longrightarrow> string_map hm'"
    by (simp add: same_ops_def string_map_def)
  fix a b
  show "string_map hm \<Longrightarrow> clog_hashmap_cmp hm a b = (cstr a = cstr b)"
    by (simp add: string_map_def clog_hashmap_cmp_def clog_hashmap_string_cmp_def)
  show "string_map hm \<Longrightarrow> cstr a = cstr b \<Longrightarrow> murmur3_32 hm a = murmur3_32 hm b"
    using cstr_hash [of a b "hm_seed hm"]
    by (simp add: string_map_def murmur3_32_def clog_hashmap_size_of_key_def)
  fix k k' v q v' and m m' :: "'m mem_scheme" and r
  show "string_map hm \<Longrightarrow> clog_hashmap_dup_key hm k m = (Some k', m') \<Longrightarrow> cstr k' = cstr k"
    using dup_key_string [of hm k m "Some k'" m'] by (simp add: cstr_cstr_bytes no_null_cstr)
  show "string_map hm \<Longrightarrow> clog_hashmap_dup_value hm v m = (Some v', m') \<Longrightarrow> v' = v"
    using dup_value_none [of hm v m "Some v'" m'] by (simp add: string_map_def)
  show "string_map hm \<Longrightarrow> clog_hashmap_dup_key hm k m = (r, m') \<Longrightarrow>
      live m' = live m + (if r = None then 0 else 1)"
    using dup_key_string [of hm k m r m'] by blast
  show "string_map hm \<Longrightarrow> live (clog_hashmap_free_key hm k m) = live m - 1"
    by (simp add: string_map_def clog_hashmap_free_key_def clog_hashmap_string_free_def mem_simps)
  show "string_map hm \<Longrightarrow> clog_hashmap_dup_value hm v m = (q, m') \<Longrightarrow>
      live m' = live m + (if q = None then 0 else 1)"
    using dup_value_none [of hm v m q m'] by (simp add: string_map_def)
  show "string_map hm \<Longrightarrow> live (clog_hashmap_free_value hm v m) = live m - 1"
    by (simp add: string_map_def clog_hashmap_free_value_def mem_simps)
qed


text \<open>Requests are decided by \<open>grants\<close>, which no operation on a map with string keys changes.\<close>

lemma put_internal_same:
  "clog_hashmap_put_internal hm k v m = (ret, rep, hm', m') \<Longrightarrow>
   same_ops hm hm' \<and> ((\<forall>v m. grants (clog_hashmap_free_value hm v m) = grants m) \<longrightarrow>
     grants m' = grants m \<and> ((\<forall>i. grants m i) \<longrightarrow> ret = CLOG_SUCCESS))"
  by (auto simp: clog_hashmap_put_internal_def Let_def clog_malloc_def sizeof_entry_def
      split: option.splits prod.splits if_splits)

lemma move_entries_grants:
  "move_entries hm es m = (b, hm', m') \<Longrightarrow>
   \<forall>v m. grants (clog_hashmap_free_value hm v m) = grants m \<Longrightarrow>
   same_ops hm hm' \<and> grants m' = grants m"
proof (induction es arbitrary: hm m)
  case (Cons e es)
  obtain ret rep hm1 m1 where
    put: "clog_hashmap_put_internal hm (fst e) (snd e) m = (ret, rep, hm1, m1)"
    by (metis surj_pair)
  note p = put_internal_same [OF put]
  with same_ops_funs(6) [of hm hm1] Cons.prems(2) have
    "\<forall>v m. grants (clog_hashmap_free_value hm1 v m) = grants m" "grants m1 = grants m"
    by simp_all
  with Cons put p show ?case by (auto split: if_splits intro: same_ops_trans)
qed simp

lemma free_entries_grants: "grants (free_entries es m) = grants m"
  by (induction es arbitrary: m) (simp_all add: mem_simps)

lemma create_buckets_grants:
  "clog_hashmap_create_empty_buckets n m = (b, m') \<Longrightarrow> grants m' = grants m"
  by (auto simp: clog_hashmap_create_empty_buckets_def split: prod.splits bool.splits
      dest: grants_clog_mallocD)

lemma resize_grants:
  assumes "clog_hashmap_resize hm n m = (r, hm', m')"
    and "\<forall>v m. grants (clog_hashmap_free_value hm v m) = grants m"
  shows "same_ops hm hm' \<and> grants m' = grants m"
proof -
  obtain bs :: "(bytes \<times> 'a) list list option" and m1
    where c: "clog_hashmap_create_empty_buckets n m = (bs, m1)"
    by (rule prod.exhaust)
  show ?thesis
  proof (cases bs)
    case None
    with c assms(1) show ?thesis
      by (auto simp: clog_hashmap_resize_def dest: create_buckets_grants)
  next
    case (Some b)
    let ?hm0 = "hm\<lparr>hm_buckets := b, hm_buckets_size := n, hm_data_size := 0\<rparr>"
    obtain b2 hm2 m2 where mv: "move_entries ?hm0 (concat (hm_buckets hm)) m1 = (b2, hm2, m2)"
      by (metis surj_pair)
    have fv: "\<forall>v m. grants (clog_hashmap_free_value ?hm0 v m) = grants m"
      using assms(2) by (simp add: clog_hashmap_free_value_def)
    from move_entries_grants [OF mv fv] have
      "same_ops hm hm2" "grants m2 = grants m1" by (simp_all add: same_ops_def)
    with c Some mv assms(1) create_buckets_grants [OF c] show ?thesis
      by (cases b2) (auto simp: clog_hashmap_resize_def same_ops_def mem_simps free_entries_grants)
  qed
qed

lemma string_map_granted:
  assumes "string_map hm" and "\<And>i. grants m i"
  shows "clog_hashmap_dup_key hm k m =
      (Some (cstr_bytes (cstr k)), m\<lparr>tick := Suc (tick m), live := live m + 1\<rparr>)"
    and "clog_hashmap_dup_value hm v m = (Some v, m\<lparr>tick := Suc (tick m), live := live m + 1\<rparr>)"
    and "grants (clog_hashmap_free_value hm v m) = grants m"
  using assms
  by (simp_all add: string_map_def clog_hashmap_dup_key_def clog_hashmap_dup_value_def
      clog_hashmap_string_dup_def clog_strdup_def clog_malloc_total clog_hashmap_free_value_def
      mem_simps)

lemma string_put_granted:
  assumes sm: "string_map hm" and g: "\<And>i. grants m i" and put: "put_nn hm k v m = (ret, hm', m')"
  shows "ret = CLOG_SUCCESS \<and> grants m' = grants m"
  using put
proof (cases rule: put_nn_cases)
  case (nokey m1)
  with string_map_granted [OF sm g] show ?thesis by simp
next
  case (novalue k1 m1 m2)
  with string_map_granted [OF sm g] have "\<And>i. grants m1 i" using g by auto
  with novalue string_map_granted(2) [OF sm, of m1 v] show ?thesis by simp
next
  case (insert k1 m1 v1 m2 hm3 m3 rep m4)
  have fv: "\<forall>v m. grants (clog_hashmap_free_value hm v m) = grants m"
    using sm by (simp add: string_map_def clog_hashmap_free_value_def mem_simps)
  have g1: "grants m1 = grants m" using insert(1) string_map_granted(1) [OF sm g, of k] by auto
  then have g2: "grants m2 = grants m"
    using insert(2) string_map_granted(2) [OF sm, of m1 v] g by auto
  obtain r hm5 m5 where r: "clog_hashmap_resize hm (hm_buckets_size hm * 2) m2 = (r, hm5, m5)"
    by (metis surj_pair)
  from insert(3) r resize_grants [OF r fv] g2 have g3: "grants m3 = grants m" by auto
  from insert(3) r have "hm3 = hm \<or> hm3 = hm5" by auto
  then have ops: "same_ops hm hm3" using resize_grants [OF r fv] by (auto simp: same_ops_def)
  then have "\<forall>v m. grants (clog_hashmap_free_value hm3 v m) = grants m"
    using fv by (simp add: same_ops_def clog_hashmap_free_value_def)
  with put_internal_same [OF insert(4)] g3 g
  have fin: "ret = CLOG_SUCCESS" "grants m4 = grants m" "same_ops hm3 hm'" by simp_all
  from ops sm fin(3) have "hm_key_free hm' = Some clog_hashmap_string_free"
    unfolding same_ops_def string_map_def by metis
  then have "\<forall>k m. grants (clog_hashmap_free_key hm' k m) = grants m"
    by (simp add: clog_hashmap_free_key_def clog_hashmap_string_free_def mem_simps)
  with fin insert(5) show ?thesis by simp
qed


subsection \<open>Programs that use a map with string keys\<close>

text \<open>
  A client of a map is a sequence of calls; \<open>hm_step\<close> is one call of the interface, with its
  result. The specification is a partial function from strings: \<open>spec_step\<close> says which results
  are allowed and what becomes of the function. An insertion may fail, then it changes nothing.
\<close>

datatype 'v map_op =
    Op_put bytes 'v | Op_get bytes | Op_take bytes | Op_remove bytes | Op_exists bytes
  | Op_size | Op_clear

datatype 'v map_out = Out_res clog_res | Out_val "'v option" | Out_bool bool | Out_nat nat | Out_unit

fun hm_step ::
    "'v map_op \<Rightarrow> ('v, 'm) clog_hashmap \<Rightarrow> 'm mem_scheme
     \<Rightarrow> 'v map_out \<times> ('v, 'm) clog_hashmap \<times> 'm mem_scheme" where
  "hm_step (Op_put k v) hm m =
     (case clog_hashmap_put (Some hm) (Some k) (Some v) m of (r, h, m') \<Rightarrow> (Out_res r, the h, m'))"
| "hm_step (Op_get k) hm m =
     (case clog_hashmap_get (Some hm) (Some k) of (r, h) \<Rightarrow> (Out_val r, the h, m))"
| "hm_step (Op_take k) hm m =
     (case clog_hashmap_take (Some hm) (Some k) m of (r, h, m') \<Rightarrow> (Out_val r, the h, m'))"
| "hm_step (Op_remove k) hm m =
     (case clog_hashmap_remove (Some hm) k m of (r, h, m') \<Rightarrow> (Out_bool r, the h, m'))"
| "hm_step (Op_exists k) hm m = (Out_bool (clog_hashmap_is_exists (Some hm) k), hm, m)"
| "hm_step Op_size hm m = (Out_nat (clog_hashmap_size (Some hm)), hm, m)"
| "hm_step Op_clear hm m = (case clog_hashmap_clear (Some hm) m of (h, m') \<Rightarrow> (Out_unit, the h, m'))"

fun hm_run ::
    "'v map_op list \<Rightarrow> ('v, 'm) clog_hashmap \<Rightarrow> 'm mem_scheme
     \<Rightarrow> 'v map_out list \<times> ('v, 'm) clog_hashmap \<times> 'm mem_scheme" where
  "hm_run [] hm m = ([], hm, m)"
| "hm_run (c # cs) hm m =
     (case hm_step c hm m of (out, hm1, m1) \<Rightarrow>
        (case hm_run cs hm1 m1 of (outs, hm2, m2) \<Rightarrow> (out # outs, hm2, m2)))"

fun spec_step ::
    "'v map_op \<Rightarrow> 'v map_out \<Rightarrow> (string \<Rightarrow> 'v option) \<Rightarrow> (string \<Rightarrow> 'v option) option" where
  "spec_step (Op_put k v) (Out_res r) M =
     (if r = CLOG_SUCCESS then Some (M(cstr k \<mapsto> v))
      else if r = CLOG_NO_MEMORY then Some M else None)"
| "spec_step (Op_get k) (Out_val r) M = (if r = M (cstr k) then Some M else None)"
| "spec_step (Op_take k) (Out_val r) M =
     (if r = M (cstr k) then Some (M(cstr k := None)) else None)"
| "spec_step (Op_remove k) (Out_bool r) M =
     (if r = (M (cstr k) \<noteq> None) then Some (M(cstr k := None)) else None)"
| "spec_step (Op_exists k) (Out_bool r) M = (if r = (M (cstr k) \<noteq> None) then Some M else None)"
| "spec_step Op_size (Out_nat n) M = (if n = card (dom M) then Some M else None)"
| "spec_step Op_clear Out_unit M = Some Map.empty"
| "spec_step _ _ _ = None"

fun spec_run ::
    "'v map_op list \<Rightarrow> 'v map_out list \<Rightarrow> (string \<Rightarrow> 'v option) \<Rightarrow> (string \<Rightarrow> 'v option) option" where
  "spec_run [] [] M = Some M"
| "spec_run (c # cs) (r # rs) M =
     (case spec_step c r M of None \<Rightarrow> None | Some M' \<Rightarrow> spec_run cs rs M')"
| "spec_run _ _ _ = None"

text \<open>The values that \<open>clog_hashmap_take\<close> handed over; their blocks belong to the client.\<close>

fun taken :: "'v map_op list \<Rightarrow> 'v map_out list \<Rightarrow> nat" where
  "taken (Op_take _ # cs) (Out_val (Some _) # rs) = Suc (taken cs rs)"
| "taken (_ # cs) (_ # rs) = taken cs rs"
| "taken _ _ = 0"

abbreviation "string_inv \<equiv> hm_inv string_map cstr"

lemma exists_string:
  "string_inv hm \<Longrightarrow> clog_hashmap_is_exists (Some hm) k \<longleftrightarrow> hm_abs cstr hm (cstr k) \<noteq> None"
  using string_keys.found_iff [of hm k] by (simp add: clog_hashmap_is_exists_def)

lemma hm_step_spec:
  assumes inv: "string_inv hm" and st: "hm_step c hm m = (out, hm', m')"
  shows "string_inv hm' \<and> spec_step c out (hm_abs cstr hm) = Some (hm_abs cstr hm') \<and>
    live m' - string_keys.blocks hm' = live m - string_keys.blocks hm + int (taken [c] [out])"
proof (cases c)
  case (Op_put k v)
  obtain r h m1 where p: "put_nn hm k v m = (r, h, m1)" by (metis surj_pair)
  with st Op_put have "out = Out_res r" "hm' = h" "m' = m1" by (auto simp: clog_hashmap_put_def)
  with Op_put string_keys.put_spec [OF inv _ p] string_keys.put_blocks [OF inv _ p] show ?thesis
    by auto
next
  case (Op_get k)
  obtain r h where g: "get_nn hm k = (r, h)" by (metis surj_pair)
  with st Op_get have "out = Out_val r" "hm' = h" "m' = m" by (auto simp: clog_hashmap_get_def)
  with Op_get string_keys.get_spec [OF inv g] show ?thesis
    by (cases r) (auto simp: string_keys.blocks_def)
next
  case (Op_take k)
  obtain r h m1 where p: "take_nn hm k m = (r, h, m1)" by (metis surj_pair)
  with st Op_take have "out = Out_val r" "hm' = h" "m' = m1" by (auto simp: clog_hashmap_take_def)
  with Op_take string_keys.take_spec [OF inv p] string_keys.take_blocks [OF inv p] show ?thesis
    by (cases "hm_abs cstr hm (cstr k)") auto
next
  case (Op_remove k)
  obtain r h m1 where p: "remove_nn hm k m = (r, h, m1)" by (metis surj_pair)
  with st Op_remove have "out = Out_bool r" "hm' = h" "m' = m1"
    by (auto simp: clog_hashmap_remove_def)
  with Op_remove string_keys.remove_spec(1) [OF inv p] string_keys.remove_blocks [OF inv p]
  show ?thesis by auto
next
  case (Op_exists k)
  with st exists_string [OF inv, of k] inv show ?thesis by auto
next
  case Op_size
  with st string_keys.size_card [OF inv] inv show ?thesis by (auto simp: clog_hashmap_size_def)
next
  case Op_clear
  obtain h m1 where cl: "clog_hashmap_clear (Some hm) m = (h, m1)" by (metis surj_pair)
  obtain hm1 where h: "h = Some hm1" "string_inv hm1" "hm_abs cstr hm1 = Map.empty"
    by (rule string_keys.clear_spec [OF inv cl])
  with st Op_clear cl have "out = Out_unit" "hm' = hm1" "m' = m1" by auto
  with Op_clear h string_keys.clear_blocks [OF inv, of m hm1 m1] cl show ?thesis by simp
qed

lemma taken_Cons: "taken (c # cs) (r # rs) = taken [c] [r] + taken cs rs"
  by (cases "(c # cs, r # rs)" rule: taken.cases) auto

lemma hm_run_spec:
  assumes "string_inv hm" and "hm_run cs hm m = (outs, hm', m')"
  shows "string_inv hm' \<and> spec_run cs outs (hm_abs cstr hm) = Some (hm_abs cstr hm') \<and>
    live m' - string_keys.blocks hm' = live m - string_keys.blocks hm + int (taken cs outs)"
  using assms
proof (induction cs arbitrary: hm m outs)
  case (Cons c cs)
  obtain out hm1 m1 where st: "hm_step c hm m = (out, hm1, m1)" by (metis surj_pair)
  obtain outs1 where run: "hm_run cs hm1 m1 = (outs1, hm', m')" and outs: "outs = out # outs1"
    using Cons.prems(2) st by (auto split: prod.splits)
  note step = hm_step_spec [OF Cons.prems(1) st]
  from step have inv1: "string_inv hm1" by blast
  from Cons.IH [OF inv1 run] step show ?case
    by (simp add: outs taken_Cons [of c cs] del: taken.simps)
qed simp


subsection \<open>Creation and iteration\<close>

abbreviation string_create ::
    "nat \<Rightarrow> 32 word \<Rightarrow> 'm mem_scheme \<Rightarrow> ('v, 'm) clog_hashmap option \<times> 'm mem_scheme" where
  "string_create vs sd m \<equiv> clog_hashmap_create 0 vs (Some clog_hashmap_string_dup)
     (Some clog_hashmap_string_free) None None (Some clog_hashmap_string_cmp)
     (Some clog_hashmap_string_size) sd m"

lemma create_empty:
  assumes "clog_hashmap_create ks vs kd kf vd vf cmp sz sd m = (Some hm, m')"
  shows "hm_shape hm \<and> placed hm \<and> entries hm = [] \<and> live m' = live m + 2 \<and>
    hm_key_size hm = ks \<and> hm_value_size hm = vs \<and> hm_key_dup hm = kd \<and> hm_key_free hm = kf \<and>
    hm_value_dup hm = vd \<and> hm_value_free hm = vf \<and> hm_cmp hm = cmp \<and> hm_size_of hm = sz"
proof -
  have "\<exists>p. (16::nat) = 2 ^ p" by (rule exI [of _ 4]) simp
  moreover from assms have "hm_buckets hm = replicate 16 [] \<and> hm_buckets_size hm = 16 \<and>
      hm_data_size hm = 0 \<and> live m' = live m + 2 \<and>
      hm_key_size hm = ks \<and> hm_value_size hm = vs \<and> hm_key_dup hm = kd \<and> hm_key_free hm = kf \<and>
      hm_value_dup hm = vd \<and> hm_value_free hm = vf \<and> hm_cmp hm = cmp \<and> hm_size_of hm = sz"
    by (auto simp: clog_hashmap_create_def clog_hashmap_create_empty_buckets_def
        split: prod.splits bool.splits option.splits if_splits dest!: live_clog_mallocD)
  ultimately show ?thesis
    by (simp add: hm_shape_def placed_def entries_def)
qed

lemma create_fails:
  "clog_hashmap_create ks vs kd kf vd vf cmp sz sd m = (None, m') \<Longrightarrow> live m' = live m"
  by (auto simp: clog_hashmap_create_def clog_hashmap_create_empty_buckets_def mem_simps
      split: prod.splits bool.splits option.splits if_splits dest!: live_clog_mallocD)

lemma string_create_inv:
  "string_create vs sd m = (Some hm, m') \<Longrightarrow> 0 < vs \<Longrightarrow>
   string_inv hm \<and> hm_abs cstr hm = Map.empty \<and> live m' = live m + 2"
  by (drule create_empty) (simp add: hm_inv_def string_map_def hm_abs_def)

text \<open>A loop over the entries, as the callers write it: the entry, then \<open>next\<close> while true.\<close>

fun iterate :: "nat \<Rightarrow> ('v, 'm) clog_hashmap \<Rightarrow> 'v clog_hashmap_iterator \<Rightarrow> (bytes \<times> 'v) list" where
  "iterate 0 hm it = []"
| "iterate (Suc n) hm it =
     (case clog_hashmap_iterator_entry (Some it) of
        None \<Rightarrow> []
      | Some e \<Rightarrow> e # (case clog_hashmap_iterator_next hm it of
                           (True, it') \<Rightarrow> iterate n hm it'
                         | (False, _) \<Rightarrow> []))"

definition iter_rest :: "('v, 'm) clog_hashmap \<Rightarrow> 'v clog_hashmap_iterator \<Rightarrow> (bytes \<times> 'v) list" where
  "iter_rest hm it = hi_current it @ concat (drop (Suc (hi_bucket_index it)) (hm_buckets hm))"

lemma iterator_scan_rest:
  assumes "length (hm_buckets hm) = hm_buckets_size hm"
  shows "concat (drop i (hm_buckets hm)) = iter_rest hm (iterator_scan hm i) \<and>
    (hi_current (iterator_scan hm i) = [] \<longrightarrow> iter_rest hm (iterator_scan hm i) = [])"
  using assms
proof (induction hm i rule: iterator_scan.induct)
  case (1 hm i)
  show ?case
  proof (cases "i < hm_buckets_size hm")
    case True
    with 1 have d: "drop i (hm_buckets hm) = hm_buckets hm ! i # drop (Suc i) (hm_buckets hm)"
      by (simp add: Cons_nth_drop_Suc)
    with 1 True show ?thesis
      by (simp add: iterator_scan.simps [of hm i] iter_rest_def)
  next
    case False
    with 1 show ?thesis by (simp add: iterator_scan.simps [of hm i] iter_rest_def)
  qed
qed

lemma iterate_rest:
  assumes "length (hm_buckets hm) = hm_buckets_size hm"
    and "length (iter_rest hm it) \<le> n"
    and "hi_current it = [] \<longrightarrow> iter_rest hm it = []"
  shows "iterate n hm it = iter_rest hm it"
  using assms(2,3)
proof (induction n arbitrary: it)
  case (Suc n)
  show ?case
  proof (cases "hi_current it")
    case Nil
    with Suc.prems show ?thesis by (simp add: clog_hashmap_iterator_entry_def)
  next
    case (Cons e es)
    show ?thesis
    proof (cases "es = []")
      case False
      let ?it = "it\<lparr>hi_current := es\<rparr>"
      have "iter_rest hm it = e # iter_rest hm ?it" using Cons by (simp add: iter_rest_def)
      with Suc Cons False show ?thesis
        by (simp add: clog_hashmap_iterator_entry_def clog_hashmap_iterator_next_def)
    next
      case True
      let ?it = "iterator_scan hm (Suc (hi_bucket_index it))"
      note scan = iterator_scan_rest [OF assms(1), of "Suc (hi_bucket_index it)"]
      have r: "iter_rest hm it = e # iter_rest hm ?it"
        using Cons True scan by (simp add: iter_rest_def)
      with Suc.IH [of ?it] Suc.prems scan have "iterate n hm ?it = iter_rest hm ?it" by simp
      with r Cons True scan show ?thesis
        by (auto simp: clog_hashmap_iterator_entry_def clog_hashmap_iterator_next_def Let_def
            split: bool.splits)
    qed
  qed
qed (simp_all)

subsection \<open>A concrete map\<close>

text \<open>A fresh map of numbers, and a short program over it, on which the properties are applied.\<close>

definition ex_key :: bytes where "ex_key = [97, 98, 0]"

definition ex_hm :: "(nat, unit) clog_hashmap" where
  "ex_hm = the (fst (string_create 8 0 mem_ok))"

definition ex_m :: mem where
  "ex_m = snd (string_create 8 0 mem_ok :: (nat, unit) clog_hashmap option \<times> mem)"

definition ex_ops :: "nat map_op list" where
  "ex_ops = [Op_put ex_key 5, Op_get ex_key, Op_take ex_key, Op_size]"

lemmas ex_create_defs = clog_hashmap_create_def clog_hashmap_create_empty_buckets_def
  clog_malloc_def sizeof_hashmap_def sizeof_entry_def mem_ok_def

lemma ex_create: "string_create 8 0 mem_ok = (Some ex_hm, ex_m)"
  by (simp add: ex_hm_def ex_m_def ex_create_defs)

lemma ex_cstr: "cstr ex_key = ''ab''"
  by (simp add: cstr_def ex_key_def char_of_def bit_simps)

lemma ex_cstr_bytes: "cstr_bytes ''ab'' = ex_key"
  by (simp add: cstr_bytes_def ex_key_def)

lemma ex_index:
  "string_map hm \<Longrightarrow> hm_seed hm = 0xAA6F3B22 \<Longrightarrow> hm_buckets_size hm = 16 \<Longrightarrow>
   clog_hashmap_get_index hm ex_key = 2"
  by (simp add: clog_hashmap_get_index_def murmur3_32_def string_map_def
      clog_hashmap_size_of_key_def clog_hashmap_string_size_def ex_cstr)
    (simp add: ex_key_def murmur3_32_bytes_def murmur_tail_def murmur_mix_def rotl32_def
      murmur_final_def Let_def)

lemma ex_hm_simps:
  "string_map ex_hm" "hm_seed ex_hm = 0xAA6F3B22" "hm_buckets_size ex_hm = 16"
  "hm_data_size ex_hm = 0" "hm_buckets ex_hm = replicate 16 []"
  by (simp_all add: ex_hm_def ex_create_defs string_map_def)

lemma ex_m_simps: "grants ex_m = (\<lambda>i. True)" "live ex_m = 2"
  by (simp_all add: ex_m_def ex_create_defs)

lemma string_map_frame:
  "string_map (set_chain i c hm) = string_map hm"
  "string_map (hm\<lparr>hm_data_size := n\<rparr>) = string_map hm"
  by (simp_all add: string_map_def set_chain_def)

lemma string_map_cmp: "string_map hm \<Longrightarrow> clog_hashmap_cmp hm a b \<longleftrightarrow> cstr a = cstr b"
  by (simp add: string_keys.cmp_canon)

lemma ex_inv: "string_inv ex_hm"
  using string_create_inv [OF ex_create] by simp

lemma ex_run:
  "fst (hm_run ex_ops ex_hm ex_m) =
     [Out_res CLOG_SUCCESS, Out_val (Some 5), Out_val (Some 5), Out_nat 0]"
  by (simp add: ex_ops_def clog_hashmap_put_def clog_hashmap_get_def clog_hashmap_take_def
      clog_hashmap_size_def put_nn_def string_map_granted ex_hm_simps ex_m_simps
      clog_hashmap_put_internal_def ex_index ex_cstr get_nn_def take_nn_def clog_malloc_def
      sizeof_entry_def string_map_frame Let_def string_map_cmp ex_cstr_bytes)

subsection \<open>Properties\<close>

text \<open>
  C5. A map with string keys is a partial function: whatever sequence of calls is made on a
  fresh map, and whichever allocations are refused, every result is the one the partial
  function gives (an insertion may report no memory, and then has no effect), and the map
  stays well formed through every resize.
\<close>
theorem string_map_refines:
  assumes "string_create vs sd m = (Some hm, m1)" and "0 < vs"
    and "hm_run cs hm m1 = (outs, hm', m')"
  shows "spec_run cs outs Map.empty = Some (hm_abs cstr hm') \<and> string_inv hm'"
  using string_create_inv [OF assms(1,2)] hm_run_spec [OF _ assms(3)] by auto

lemma string_map_refines_witness:
  "spec_run ex_ops [Out_res CLOG_SUCCESS, Out_val (Some 5), Out_val (Some 5), Out_nat 0] Map.empty
     = Some (hm_abs cstr (fst (snd (hm_run ex_ops ex_hm ex_m)))) \<and>
   string_inv (fst (snd (hm_run ex_ops ex_hm ex_m)))"
  using string_map_refines [OF ex_create _ surjective_pairing3 [of "hm_run ex_ops ex_hm ex_m"]]
  by (simp add: ex_run)

text \<open>
  C25. No block is lost or released twice: after any sequence of calls, destroying the map
  brings the number of live blocks back to what it was before its creation, except for the
  values that \<open>clog_hashmap_take\<close> handed over to the client.
\<close>
theorem string_map_no_leak:
  assumes "string_create vs sd m = (Some hm, m1)" and "0 < vs"
    and "hm_run cs hm m1 = (outs, hm', m')"
    and "clog_hashmap_destroy (Some hm') m' = (r, m'')"
  shows "r = None \<and> live m'' = live m + int (taken cs outs)"
proof -
  from string_create_inv [OF assms(1,2)] have
    i: "string_inv hm" "hm_abs cstr hm = Map.empty" "live m1 = live m + 2" by auto
  from hm_run_spec [OF i(1) assms(3)] i have
    "string_inv hm'" "live m' - string_keys.blocks hm' = live m + int (taken cs outs)"
    by (simp_all add: string_keys.blocks_def)
  with string_keys.destroy_blocks [OF _ assms(4)] show ?thesis by simp
qed

lemma string_map_no_leak_witness:
  "live (snd (clog_hashmap_destroy (Some (fst (snd (hm_run ex_ops ex_hm ex_m))))
     (snd (snd (hm_run ex_ops ex_hm ex_m))))) = 1"
proof -
  let ?outs = "[Out_res CLOG_SUCCESS, Out_val (Some 5), Out_val (Some 5), Out_nat 0]"
  obtain hm' m' where run: "hm_run ex_ops ex_hm ex_m = (?outs, hm', m')"
    using ex_run by (metis prod.collapse)
  have "taken ex_ops ?outs = 1" by (simp add: ex_ops_def)
  then show ?thesis
    using string_map_no_leak [OF ex_create _ run prod.collapse [symmetric]]
    by (simp add: run mem_ok_def)
qed

text \<open>
  Insertion succeeds when memory is granted, and then the key is found with that value and
  every other key is as before.
\<close>
theorem string_put_get:
  assumes inv: "string_inv hm" and g: "\<And>i. grants m i"
    and put: "clog_hashmap_put (Some hm) (Some k) (Some v) m = (r, Some hm', m')"
  shows "r = CLOG_SUCCESS \<and> fst (clog_hashmap_get (Some hm') (Some k)) = Some v \<and>
    (\<forall>k'. cstr k' \<noteq> cstr k \<longrightarrow>
       fst (clog_hashmap_get (Some hm') (Some k')) = fst (clog_hashmap_get (Some hm) (Some k')))"
proof -
  have p: "put_nn hm k v m = (r, hm', m')" using put by (auto simp: clog_hashmap_put_def split: prod.splits)
  have r: "r = CLOG_SUCCESS"
    using inv string_put_granted [OF _ g p] by (simp add: hm_inv_def)
  have get: "fst (clog_hashmap_get (Some h) (Some x)) = hm_abs cstr h (cstr x)" if "string_inv h"
    for h :: "('a, 'b) clog_hashmap" and x
    using string_keys.get_spec [OF that, of x "fst (get_nn h x)" "snd (get_nn h x)"]
    by (cases "get_nn h x") (simp add: clog_hashmap_get_def)
  from string_keys.put_spec [OF inv _ p] r get [OF inv] get [of hm'] show ?thesis by auto
qed

lemma string_put_get_witness:
  "fst (clog_hashmap_put (Some ex_hm) (Some ex_key) (Some 5) ex_m) = CLOG_SUCCESS"
proof -
  obtain r hm' m' where "put_nn ex_hm ex_key 5 ex_m = (r, hm', m')"
    by (metis surj_pair)
  then have p: "clog_hashmap_put (Some ex_hm) (Some ex_key) (Some 5) ex_m = (r, Some hm', m')"
    by (simp add: clog_hashmap_put_def)
  from string_put_get [OF ex_inv _ p] p show ?thesis by (simp add: ex_m_simps)
qed

text \<open>
  Resizing to a power of two never changes what the map holds: it either moves every entry
  to the new bucket array, or fails and puts the map back exactly as it was. Neither way
  changes the number of live blocks.
\<close>
theorem string_resize:
  assumes "string_inv hm" and "clog_hashmap_resize hm (2 ^ p) m = (ret, hm', m')"
  shows "hm_abs cstr hm' = hm_abs cstr hm \<and> string_inv hm' \<and> live m' = live m \<and>
    (if ret = CLOG_SUCCESS then hm_buckets_size hm' = 2 ^ p else hm' = hm)"
  using string_keys.resize_spec [OF assms(1) refl assms(2)] by blast

lemma string_resize_witness:
  "hm_abs cstr (fst (snd (clog_hashmap_resize ex_hm (2 ^ 5) ex_m))) = hm_abs cstr ex_hm \<and>
   live (snd (snd (clog_hashmap_resize ex_hm (2 ^ 5) ex_m))) = 2"
  using string_resize [OF ex_inv surjective_pairing3 [of "clog_hashmap_resize ex_hm (2 ^ 5) ex_m"]]
  by (simp add: ex_m_simps)

text \<open>
  A loop with an iterator over a well-formed map meets every entry exactly once: the
  entries visited are \<open>data_size\<close> many and are the partial function.
\<close>
theorem iterator_visits_all:
  assumes "string_inv hm"
    and "clog_hashmap_iterator_create (Some hm) m = (Some it, m')"
  shows "length (iterate (hm_data_size hm) hm it) = hm_data_size hm \<and>
    map_of (cmap cstr (iterate (hm_data_size hm) hm it)) = hm_abs cstr hm \<and>
    distinct (map (\<lambda>e. cstr (fst e)) (iterate (hm_data_size hm) hm it))"
proof -
  have l: "length (hm_buckets hm) = hm_buckets_size hm" "hm_data_size hm = length (entries hm)"
    using assms(1) by (auto simp: hm_inv_def hm_shape_def)
  have it: "it = iterator_scan hm 0"
    using assms(2) by (auto simp: clog_hashmap_iterator_create_def split: prod.splits bool.splits)
  from iterator_scan_rest [OF l(1), of 0] it have
    "iter_rest hm it = entries hm" "hi_current it = [] \<longrightarrow> iter_rest hm it = []"
    by (simp_all add: entries_def)
  with iterate_rest [OF l(1), of it "hm_data_size hm"] l(2) have
    "iterate (hm_data_size hm) hm it = entries hm" by simp
  with assms(1) l show ?thesis
    by (simp add: hm_abs_def hm_inv_def map_fst_cmap)
qed

lemma iterator_visits_all_witness:
  "length (iterate 1 (fst (snd (hm_run [Op_put ex_key 5] ex_hm ex_m)))
     (iterator_scan (fst (snd (hm_run [Op_put ex_key 5] ex_hm ex_m))) 0)) = 1"
proof -
  let ?hm = "fst (snd (hm_run [Op_put ex_key 5] ex_hm ex_m))"
  have inv: "string_inv ?hm"
    using hm_run_spec [OF ex_inv surjective_pairing3] by blast
  have "clog_hashmap_iterator_create (Some ?hm) mem_ok =
      (Some (iterator_scan ?hm 0), snd (clog_malloc sizeof_iterator mem_ok))"
    by (simp add: clog_hashmap_iterator_create_def clog_malloc_def mem_ok_def sizeof_iterator_def)
  from iterator_visits_all [OF inv this] show ?thesis
    by (simp add: clog_hashmap_put_def put_nn_def string_map_granted ex_hm_simps ex_m_simps
        clog_hashmap_put_internal_def ex_index clog_malloc_def sizeof_entry_def Let_def
        ex_cstr ex_cstr_bytes)
qed

end
