(* ===== verification/Interpolator.thy ===== *)
theory Interpolator
  imports Hashmap_Maps
begin

text \<open>
  The interpolator of clog_interpolator.c: a format such as \<open>[{_level}] {_content}\<close> is parsed
  into a list of segments, and a list of segments is written into a buffer.

  A placeholder handler gets its parameter and the room left, and returns what it writes to the
  buffer and its result: \<open>Inr len\<close> for a length, \<open>Inl code\<close> for a negated result code. A
  handler with undefined behaviour is \<open>None\<close>, and so is a write outside the buffer. The room is \<open>size - offset\<close> on \<open>size_t\<close>: it wraps
  when an earlier handler reported more than there was room for.
\<close>

subsection \<open>Segments and contexts\<close>

datatype 'h clog_interpolator = Pure string | Handle 'h

record ('h, 'm) clog_interpolator_context =
  ic_is_map_allocated :: bool
  ic_map :: "('h, 'm) clog_hashmap"

definition sizeof_interp :: nat where "sizeof_interp = 32"
definition sizeof_handler :: nat where "sizeof_handler = 8"

definition clog_interpolator_context_create ::
    "('h, 'm) clog_hashmap option \<Rightarrow> 'm mem_scheme
     \<Rightarrow> ('h, 'm) clog_interpolator_context option \<times> 'm mem_scheme" where
  "clog_interpolator_context_create mp m =
     (case clog_malloc sizeof_interp m of
        (False, m1) \<Rightarrow> (None, m1)
      | (True, m1) \<Rightarrow>
          (case mp of
             Some h \<Rightarrow> (Some \<lparr>ic_is_map_allocated = False, ic_map = h\<rparr>, m1)
           | None \<Rightarrow>
               (case string_create sizeof_handler 0 m1 of
                  (None, m2) \<Rightarrow> (None, clog_free m2)
                | (Some h, m2) \<Rightarrow> (Some \<lparr>ic_is_map_allocated = True, ic_map = h\<rparr>, m2))))"

definition clog_interpolator_context_register ::
    "('h, 'm) clog_interpolator_context option \<Rightarrow> string option \<Rightarrow> 'h option \<Rightarrow> 'm mem_scheme
     \<Rightarrow> clog_res \<times> ('h, 'm) clog_interpolator_context option \<times> 'm mem_scheme" where
  "clog_interpolator_context_register context name handler m = (case context of
      None \<Rightarrow> (CLOG_INVALID_PARAM, None, m)
    | Some c \<Rightarrow> (case (name, handler) of
          (Some nm, Some fn) \<Rightarrow>
            (case clog_hashmap_put (Some (ic_map c)) (Some (cstr_bytes nm)) (Some fn) m of
               (r, h, m') \<Rightarrow> (r, Some (c\<lparr>ic_map := the h\<rparr>), m'))
        | _ \<Rightarrow> (CLOG_INVALID_PARAM, Some c, m)))"

definition clog_interpolator_context_destroy ::
    "('h, 'm) clog_interpolator_context option \<Rightarrow> 'm mem_scheme
     \<Rightarrow> ('h, 'm) clog_interpolator_context option \<times> 'm mem_scheme" where
  "clog_interpolator_context_destroy context m = (case context of
      None \<Rightarrow> (None, m)
    | Some c \<Rightarrow>
        (None,
         clog_free (if ic_is_map_allocated c then snd (clog_hashmap_destroy (Some (ic_map c)) m)
                    else m)))"

subsection \<open>Parsing\<close>

definition clog_placeholder_is_name_valid :: "char \<Rightarrow> bool" where
  "clog_placeholder_is_name_valid ch \<longleftrightarrow>
     (let n = (of_char ch :: nat) in
      97 \<le> n \<and> n \<le> 122 \<or> 65 \<le> n \<and> n \<le> 90 \<or> 48 \<le> n \<and> n \<le> 57 \<or> ch = CHR ''_'')"

definition clog_interpolator_create ::
    "('h, 'm) clog_hashmap \<Rightarrow> string \<Rightarrow> bool \<Rightarrow> 'm mem_scheme
     \<Rightarrow> 'h clog_interpolator option \<times> ('h, 'm) clog_hashmap \<times> 'm mem_scheme" where
  "clog_interpolator_create hm name should_handle m =
     (if should_handle
      then case get_nn hm (cstr_bytes name) of
             (None, hm') \<Rightarrow> (None, hm', m)
           | (Some f, hm') \<Rightarrow>
               (case clog_malloc sizeof_interp m of
                  (False, m1) \<Rightarrow> (None, hm', m1)
                | (True, m1) \<Rightarrow> (Some (Handle f), hm', m1))
      else case clog_malloc sizeof_interp m of
             (False, m1) \<Rightarrow> (None, hm, m1)
           | (True, m1) \<Rightarrow>
               (case clog_strdup (Some name) m1 of
                  (None, m2) \<Rightarrow> (None, hm, clog_free m2)
                | (Some s, m2) \<Rightarrow> (Some (Pure s), hm, m2)))"

text \<open>
  \<open>placeholder_scan\<close> counts the characters of a name up to its \<open>}\<close>. \<open>pure_end\<close> is the loop that
  finds the end of literal text; it is \<open>None\<close> at a \<open>}\<close> that is not escaped. \<open>copy_pure\<close> is the
  loop that copies the text without the backslashes that escape a brace.
\<close>

fun placeholder_scan :: "string \<Rightarrow> nat option" where
  "placeholder_scan [] = None"
| "placeholder_scan (c # cs) =
     (if c = CHR ''}'' then Some 0
      else if \<not> clog_placeholder_is_name_valid c then None
      else map_option Suc (placeholder_scan cs))"

definition clog_interpolator_parse_placeholder_name :: "string \<Rightarrow> nat option" where
  "clog_interpolator_parse_placeholder_name fmt = (case tl fmt of
      [] \<Rightarrow> None
    | c # cs \<Rightarrow> if c = CHR ''}'' then None else placeholder_scan (c # cs))"

fun pure_end :: "bool \<Rightarrow> string \<Rightarrow> nat option" where
  "pure_end is_escape [] = Some 0"
| "pure_end is_escape (c # cs) =
     (if c = CHR ''{'' \<and> \<not> is_escape then Some 0
      else if c = CHR ''}'' \<and> \<not> is_escape then None
      else map_option Suc (pure_end (c = CHR 0x5C) cs))"

fun copy_pure :: "nat \<Rightarrow> string \<Rightarrow> string" where
  "copy_pure 0 cs = []"
| "copy_pure (Suc n) [] = []"
| "copy_pure (Suc n) (c # cs) =
     (if c = CHR 0x5C \<and> cs \<noteq> [] \<and> (hd cs = CHR ''{'' \<or> hd cs = CHR ''}'')
      then copy_pure n cs else c # copy_pure n cs)"

lemma pure_end_pos: "pure_end False (c # cs) = Some n \<Longrightarrow> c \<noteq> CHR ''{'' \<Longrightarrow> 0 < n"
  by (auto split: if_splits)

text \<open>
  \<open>clog_interpolator_parse_format\<close> makes one segment from the front of the format, links it
  after \<open>root\<close> and calls itself on the rest; here it returns the segments. \<open>parse_handle\<close> and
  \<open>parse_pure\<close> are its two ways to make a segment: the segment and the rest of the format, or
  the code to return. An unescaped \<open>}\<close> returns \<open>false\<close>, which is \<open>CLOG_SUCCESS\<close>.
\<close>

definition parse_handle ::
    "('h, 'm) clog_hashmap \<Rightarrow> string \<Rightarrow> 'm mem_scheme
     \<Rightarrow> (clog_res + 'h clog_interpolator \<times> string) \<times> ('h, 'm) clog_hashmap \<times> 'm mem_scheme" where
  "parse_handle hm fmt m =
     (case clog_interpolator_parse_placeholder_name fmt of
        None \<Rightarrow> (Inl CLOG_INVALID_PARAM, hm, m)
      | Some n \<Rightarrow>
          (case clog_strndup (tl fmt) n m of
             (None, m1) \<Rightarrow> (Inl CLOG_NO_MEMORY, hm, m1)
           | (Some name, m1) \<Rightarrow>
               (case clog_interpolator_create hm name True m1 of
                  (None, hm1, m2) \<Rightarrow> (Inl CLOG_FAIL, hm1, clog_free m2)
                | (Some s, hm1, m2) \<Rightarrow> (Inr (s, drop (n + 2) fmt), hm1, clog_free m2))))"

definition parse_pure ::
    "('h, 'm) clog_hashmap \<Rightarrow> string \<Rightarrow> 'm mem_scheme
     \<Rightarrow> (clog_res + 'h clog_interpolator \<times> string) \<times> ('h, 'm) clog_hashmap \<times> 'm mem_scheme" where
  "parse_pure hm fmt m =
     (case pure_end False fmt of
        None \<Rightarrow> (Inl CLOG_SUCCESS, hm, m)
      | Some n \<Rightarrow>
          (case clog_malloc (n + 1) m of
             (False, m1) \<Rightarrow> (Inl CLOG_NO_MEMORY, hm, m1)
           | (True, m1) \<Rightarrow>
               (case clog_interpolator_create hm (copy_pure n fmt) False m1 of
                  (None, hm1, m2) \<Rightarrow> (Inl CLOG_FAIL, hm1, clog_free m2)
                | (Some s, hm1, m2) \<Rightarrow> (Inr (s, drop n fmt), hm1, clog_free m2))))"

definition parse_segment ::
    "('h, 'm) clog_hashmap \<Rightarrow> string \<Rightarrow> 'm mem_scheme
     \<Rightarrow> (clog_res + 'h clog_interpolator \<times> string) \<times> ('h, 'm) clog_hashmap \<times> 'm mem_scheme" where
  "parse_segment hm fmt m = (if hd fmt = CHR ''{'' then parse_handle hm fmt m else parse_pure hm fmt m)"

lemma parse_segment_shorter:
  assumes "parse_segment hm fmt m = (Inr (s, rest), hm', m')" and "fmt \<noteq> []"
  shows "length rest < length fmt"
proof (cases "hd fmt = CHR ''{''")
  case True
  with assms show ?thesis
    by (auto simp: parse_segment_def parse_handle_def split: option.splits prod.splits)
next
  case False
  with assms obtain n where "pure_end False fmt = Some n" "rest = drop n fmt"
    by (auto simp: parse_segment_def parse_pure_def split: option.splits prod.splits bool.splits)
  with False assms(2) pure_end_pos [of "hd fmt" "tl fmt" n] show ?thesis by simp
qed

function clog_interpolator_parse_format ::
    "('h, 'm) clog_hashmap \<Rightarrow> string \<Rightarrow> 'm mem_scheme
     \<Rightarrow> clog_res \<times> 'h clog_interpolator list \<times> ('h, 'm) clog_hashmap \<times> 'm mem_scheme" where
  "clog_interpolator_parse_format hm fmt m =
     (if fmt = [] then (CLOG_SUCCESS, [], hm, m)
      else case parse_segment hm fmt m of
             (Inl r, hm', m') \<Rightarrow> (r, [], hm', m')
           | (Inr (s, rest), hm', m') \<Rightarrow>
               (case clog_interpolator_parse_format hm' rest m' of
                  (r, ss, hm'', m'') \<Rightarrow> (r, s # ss, hm'', m'')))"
  by pat_completeness auto
termination
  by (relation "measure (\<lambda>(hm, fmt, m). length fmt)") (auto dest: parse_segment_shorter sym)

declare clog_interpolator_parse_format.simps [simp del]

text \<open>
  The root node's \<open>next\<close> is not initialised when it is allocated: it is set by the first
  segment, and stays indeterminate (\<open>None\<close>) when there is none.
\<close>

definition root_next :: "'h clog_interpolator list \<Rightarrow> 'h clog_interpolator list option" where
  "root_next ss = (if ss = [] then None else Some ss)"

fun free_segments :: "'h clog_interpolator list \<Rightarrow> 'm mem_scheme \<Rightarrow> 'm mem_scheme" where
  "free_segments [] m = m"
| "free_segments (Pure s # ss) m = free_segments ss (clog_free (clog_free m))"
| "free_segments (Handle f # ss) m = free_segments ss (clog_free m)"

definition clog_interpolator_clear ::
    "'h clog_interpolator list option option \<Rightarrow> 'm mem_scheme \<Rightarrow> 'm mem_scheme option" where
  "clog_interpolator_clear interpolator m = (case interpolator of
      None \<Rightarrow> Some m
    | Some None \<Rightarrow> None
    | Some (Some ss) \<Rightarrow> Some (clog_free (free_segments ss m)))"

definition clog_interpolator_parse ::
    "('h, 'm) clog_interpolator_context option \<Rightarrow> string option \<Rightarrow> 'm mem_scheme
     \<Rightarrow> (clog_res \<times> 'h clog_interpolator list option option \<times>
         ('h, 'm) clog_interpolator_context option \<times> 'm mem_scheme) option" where
  "clog_interpolator_parse context fmt m = (case (context, fmt) of
      (Some c, Some f) \<Rightarrow>
        (case clog_malloc sizeof_interp m of
           (False, m1) \<Rightarrow> Some (CLOG_NO_MEMORY, None, context, m1)
         | (True, m1) \<Rightarrow>
             (case clog_interpolator_parse_format (ic_map c) f m1 of
                (ret, ss, hm, m2) \<Rightarrow>
                  if ret \<noteq> CLOG_SUCCESS
                  then map_option (\<lambda>m3. (ret, None, Some (c\<lparr>ic_map := hm\<rparr>), m3))
                         (clog_interpolator_clear (Some (root_next ss)) m2)
                  else Some (CLOG_SUCCESS, Some (root_next ss), Some (c\<lparr>ic_map := hm\<rparr>), m2)))
    | _ \<Rightarrow> Some (CLOG_INVALID_PARAM, None, context, m))"

subsection \<open>Writing\<close>

type_synonym 'p handler = "'p \<Rightarrow> nat \<Rightarrow> (string \<times> (clog_res + nat)) option"

definition buf_write :: "nat \<Rightarrow> string \<Rightarrow> string \<Rightarrow> string option" where
  "buf_write off s buf =
     (if s = [] then Some buf
      else if off + length s \<le> length buf
      then Some (take off buf @ s @ drop (off + length s) buf) else None)"

definition room :: "nat \<Rightarrow> nat \<Rightarrow> nat" where
  "room n off = unat (of_nat n - of_nat off :: 64 word)"

text \<open>What \<open>clog_strcpy\<close> writes: the characters that fit, and the terminator.\<close>

definition strcpy_bytes :: "nat \<Rightarrow> string \<Rightarrow> string" where
  "strcpy_bytes n s = (case snprintf_out n s of None \<Rightarrow> [] | Some t \<Rightarrow> t @ [CHR 0x00])"

fun interpolate_loop ::
    "'p handler clog_interpolator list \<Rightarrow> 'p \<Rightarrow> nat \<Rightarrow> nat \<Rightarrow> string
     \<Rightarrow> (clog_res \<times> string \<times> nat option) option" where
  "interpolate_loop [] p n off buf =
     (if n \<le> off
      then map_option (\<lambda>b. (CLOG_NO_MEMORY, b, None)) (buf_write 0 [CHR 0x00] buf)
      else map_option (\<lambda>b. (CLOG_SUCCESS, b, Some off)) (buf_write off [CHR 0x00] buf))"
| "interpolate_loop (Pure s # ss) p n off buf =
     (case buf_write off (strcpy_bytes (room n off) s) buf of
        None \<Rightarrow> None
      | Some b \<Rightarrow>
          let res = fst (clog_strcpy True (room n off) (Some s)) in
          if res \<noteq> CLOG_SUCCESS then map_option (\<lambda>b. (res, b, None)) (buf_write 0 [CHR 0x00] b)
          else interpolate_loop ss p n (off + length s) b)"
| "interpolate_loop (Handle f # ss) p n off buf =
     (case f p (room n off) of None \<Rightarrow> None | Some (text, ret) \<Rightarrow>
        (case buf_write off text buf of
           None \<Rightarrow> None
         | Some b \<Rightarrow> (case ret of
               Inl code \<Rightarrow> map_option (\<lambda>b. (code, b, None)) (buf_write 0 [CHR 0x00] b)
             | Inr len \<Rightarrow>
                 if len = 0
                 then map_option (\<lambda>b. (CLOG_SUCCESS, b, None)) (buf_write 0 [CHR 0x00] b)
                 else interpolate_loop ss p n (off + len) b)))"

text \<open>\<open>buf\<close> has \<open>size\<close> characters; the last component is \<open>*num\<close> when it is set.\<close>

definition clog_interpolator_interpolate ::
    "'p handler clog_interpolator list option option \<Rightarrow> 'p \<Rightarrow> string option \<Rightarrow> nat
     \<Rightarrow> (clog_res \<times> string option \<times> nat option) option" where
  "clog_interpolator_interpolate interpolator p buf n = (case interpolator of
      None \<Rightarrow> Some (CLOG_INVALID_PARAM, buf, None)
    | Some root \<Rightarrow> (case buf of
          None \<Rightarrow> Some (CLOG_INVALID_PARAM, buf, None)
        | Some b \<Rightarrow>
            if n \<le> 1 then Some (CLOG_INVALID_PARAM, buf, None)
            else (case root of
              None \<Rightarrow> None
            | Some ss \<Rightarrow>
                map_option (\<lambda>(r, b, k). (r, Some b, k)) (interpolate_loop ss p n 0 b))))"


subsection \<open>Blocks\<close>

fun segment_blocks :: "'h clog_interpolator list \<Rightarrow> int" where
  "segment_blocks [] = 0"
| "segment_blocks (Pure s # ss) = 2 + segment_blocks ss"
| "segment_blocks (Handle f # ss) = 1 + segment_blocks ss"

lemma live_free_segments: "live (free_segments ss m) = live m - segment_blocks ss"
  by (induction ss m rule: free_segments.induct) (simp_all add: mem_simps)

lemma create_blocks:
  "clog_interpolator_create hm name b m = (s, hm', m') \<Longrightarrow>
   live m' = live m + (case s of None \<Rightarrow> 0 | Some seg \<Rightarrow> segment_blocks [seg])"
  by (auto simp: clog_interpolator_create_def mem_simps
      split: if_splits option.splits prod.splits bool.splits
      dest!: live_clog_mallocD live_clog_strdup)

lemma segment_blocks_Cons: "segment_blocks (s # ss) = segment_blocks [s] + segment_blocks ss"
  by (cases s) simp_all

lemma parse_segment_blocks:
  assumes "parse_segment hm fmt m = (x, hm', m')"
  shows "live m' = live m + (case x of Inl _ \<Rightarrow> 0 | Inr (s, _) \<Rightarrow> segment_blocks [s])"
proof (cases "hd fmt = CHR ''{''")
  case True
  with assms show ?thesis
    by (auto simp: parse_segment_def parse_handle_def mem_simps simp del: segment_blocks.simps
        split: option.splits prod.splits dest!: live_clog_strndup create_blocks)
next
  case False
  with assms show ?thesis
    by (auto simp: parse_segment_def parse_pure_def mem_simps simp del: segment_blocks.simps
        split: option.splits prod.splits bool.splits dest!: live_clog_mallocD create_blocks)
qed

text \<open>The three ways \<open>clog_interpolator_parse_format\<close> proceeds.\<close>

lemma parse_format_cases:
  assumes "clog_interpolator_parse_format hm fmt m = (r, ss, hm', m')"
  obtains (over) "fmt = []" "r = CLOG_SUCCESS" "ss = []" "hm' = hm" "m' = m"
    | (stop) "fmt \<noteq> []" "parse_segment hm fmt m = (Inl r, hm', m')" "ss = []"
    | (more) s rest hm1 m1 ss' where "fmt \<noteq> []" "parse_segment hm fmt m = (Inr (s, rest), hm1, m1)"
      "ss = s # ss'" "clog_interpolator_parse_format hm1 rest m1 = (r, ss', hm', m')"
  using assms
  by (subst (asm) clog_interpolator_parse_format.simps)
    (auto split: if_splits prod.splits sum.splits)

lemma parse_format_blocks:
  "clog_interpolator_parse_format hm fmt m = (r, ss, hm', m') \<Longrightarrow>
   live m' = live m + segment_blocks ss"
proof (induction "length fmt" arbitrary: hm fmt m r ss hm' m' rule: less_induct)
  case less
  from less.prems show ?case
  proof (cases rule: parse_format_cases)
    case stop
    with parse_segment_blocks [OF stop(2)] show ?thesis by simp
  next
    case (more s rest hm1 m1 ss')
    from less.hyps [OF parse_segment_shorter [OF more(2,1)] more(4)] parse_segment_blocks [OF more(2)]
      more(3) segment_blocks_Cons [of s ss']
    show ?thesis by simp
  qed simp
qed

subsection \<open>Writing segments\<close>

text \<open>
  The text of one segment, when it fits into the room: literal text shorter than the room, or
  what a handler that reports the length of its text writes inside the room.
\<close>

fun segment_out :: "'p handler clog_interpolator \<Rightarrow> 'p \<Rightarrow> nat \<Rightarrow> string option" where
  "segment_out (Pure s) p n = (if s \<noteq> [] \<and> length s < n then Some s else None)"
| "segment_out (Handle f) p n = (case f p n of
      Some (text, Inr len) \<Rightarrow>
        if 0 < len \<and> len \<le> length text \<and> length text \<le> n then Some (take len text) else None
    | _ \<Rightarrow> None)"

fun segments_out :: "'p handler clog_interpolator list \<Rightarrow> 'p \<Rightarrow> nat \<Rightarrow> string option" where
  "segments_out [] p n = (if 0 < n then Some [] else None)"
| "segments_out (s # ss) p n = (case segment_out s p n of
      None \<Rightarrow> None
    | Some t \<Rightarrow> map_option (\<lambda>u. t @ u) (segments_out ss p (n - length t)))"

lemma room_exact: "off \<le> n \<Longrightarrow> n < 2 ^ 64 \<Longrightarrow> room n off = n - off"
  by (simp add: room_def unat_sub_if' unat_of_nat word_le_nat_alt)

lemma segment_out_length: "segment_out s p n = Some t \<Longrightarrow> 0 < length t \<and> length t \<le> n"
  by (cases s) (auto split: if_splits option.splits prod.splits sum.splits)


lemma buf_write_ok:
  assumes "off + length s \<le> length buf"
  shows "\<exists>b. buf_write off s buf = Some b \<and> length b = length buf \<and>
    take (off + length s) b = take off buf @ s"
  using assms by (auto simp: buf_write_def intro!: exI)

lemma strcpy_bytes_length: "length (strcpy_bytes n s) \<le> n"
  by (auto simp: strcpy_bytes_def snprintf_out_def)

lemma strcpy_bytes_fits: "length s < n \<Longrightarrow> strcpy_bytes n s = s @ [CHR 0x00]"
  by (auto simp: strcpy_bytes_def snprintf_out_def)

lemma take_append_prefix:
  "take (k + length (u @ v)) b = w @ u @ v \<Longrightarrow> length w = k \<Longrightarrow> take (k + length u) b = w @ u"
proof -
  assume e: "take (k + length (u @ v)) b = w @ u @ v" and "length w = k"
  have "take (k + length u) b = take (k + length u) (take (k + length (u @ v)) b)"
    by (simp add: min_def)
  also have "\<dots> = take (k + length u) (w @ u @ v)" by (simp only: e)
  also have "\<dots> = w @ u" using \<open>length w = k\<close> by simp
  finally show ?thesis .
qed

lemma interpolate_loop_prefix:
  assumes "n < 2 ^ 64" "length buf = n" "off \<le> n" "segments_out ss p (n - off) = Some t"
  shows "\<exists>b. interpolate_loop (ss @ rest) p n off buf = interpolate_loop rest p n (off + length t) b \<and>
    length b = n \<and> off + length t < n \<and> take (off + length t) b = take off buf @ t"
  using assms(2-4)
proof (induction ss arbitrary: off buf t)
  case Nil
  then show ?case by (auto split: if_splits)
next
  case (Cons s ss)
  from Cons.prems(3) obtain t1 t2 where t: "segment_out s p (n - off) = Some t1"
    "segments_out ss p (n - off - length t1) = Some t2" "t = t1 @ t2"
    by (auto split: option.splits)
  have len: "0 < length t1" "length t1 \<le> n - off" using segment_out_length [OF t(1)] by auto
  have rm: "room n off = n - off" by (rule room_exact [OF Cons.prems(2) assms(1)])
  have step: "\<exists>b. interpolate_loop (s # ss @ rest) p n off buf = interpolate_loop (ss @ rest) p n (off + length t1) b \<and>
      length b = n \<and> take (off + length t1) b = take off buf @ t1"
  proof (cases s)
    case (Pure x)
    with t(1) have x: "x = t1" "length t1 < n - off" by (auto split: if_splits)
    from x Cons.prems have "off + length (t1 @ [CHR 0x00]) \<le> length buf" by simp
    from buf_write_ok [OF this] Cons.prems(1) obtain b where
      b: "buf_write off (t1 @ [CHR 0x00]) buf = Some b" "length b = n"
        "take (off + length (t1 @ [CHR 0x00])) b = take off buf @ t1 @ [CHR 0x00]" by blast
    have "take (off + length t1) b = take off buf @ t1"
      by (rule take_append_prefix [OF b(3)]) (use Cons.prems in simp)
    moreover have "fst (clog_strcpy True (n - off) (Some t1)) = CLOG_SUCCESS"
      using x(2) len(1) by (simp add: clog_strcpy_def)
    ultimately show ?thesis
      using Pure x rm b by (auto simp: strcpy_bytes_fits)
  next
    case (Handle f)
    with t(1) obtain tx l where f: "f p (n - off) = Some (tx, Inr l)" "0 < l" "l \<le> length tx"
      "length tx \<le> n - off" "t1 = take l tx"
      by (auto split: option.splits prod.splits sum.splits if_splits)
    have "off + length tx \<le> length buf" using f(4) Cons.prems(1,2) by simp
    from buf_write_ok [OF this] Cons.prems(1) obtain b where
      b: "buf_write off tx buf = Some b" "length b = n"
        "take (off + length tx) b = take off buf @ tx" by blast
    have "take (off + length t1) b = take off buf @ t1"
      by (rule take_append_prefix [of _ _ "drop l tx"]) (use b f Cons.prems in simp_all)
    with Handle f rm b show ?thesis by auto
  qed
  then obtain b where b: "interpolate_loop (s # ss @ rest) p n off buf = interpolate_loop (ss @ rest) p n (off + length t1) b"
    "length b = n" "take (off + length t1) b = take off buf @ t1" by blast
  have "segments_out ss p (n - (off + length t1)) = Some t2" using t(2) by simp
  moreover have "off + length t1 \<le> n" using len(2) Cons.prems(2) by simp
  ultimately obtain b' where
    "interpolate_loop (ss @ rest) p n (off + length t1) b =
      interpolate_loop rest p n (off + length t1 + length t2) b'"
    "length b' = n" "off + length t1 + length t2 < n"
    "take (off + length t1 + length t2) b' = take (off + length t1) b @ t2"
    using Cons.IH [OF b(2)] by blast
  with b t(3) show ?case by (auto simp: add.assoc)
qed

lemma interpolate_loop_ok:
  assumes "n < 2 ^ 64" "length buf = n" "off \<le> n" "segments_out ss p (n - off) = Some t"
  shows "\<exists>b. interpolate_loop ss p n off buf = Some (CLOG_SUCCESS, b, Some (off + length t)) \<and>
    length b = n \<and> off + length t < n \<and> take (off + length t) b = take off buf @ t \<and>
    b ! (off + length t) = CHR 0x00"
proof -
  let ?k = "off + length t"
  from interpolate_loop_prefix [OF assms, of "[]"] obtain b where b:
    "interpolate_loop ss p n off buf = interpolate_loop [] p n ?k b" "length b = n" "?k < n"
    "take ?k b = take off buf @ t" by auto
  have "buf_write ?k [CHR 0x00] b = Some (take ?k b @ CHR 0x00 # drop (Suc ?k) b)"
    using b by (simp add: buf_write_def)
  with b assms(2,3) show ?thesis by (simp add: nth_append min_def)
qed

definition bounded_handler :: "'p \<Rightarrow> 'p handler \<Rightarrow> bool" where
  "bounded_handler p f \<longleftrightarrow> (\<forall>n. \<exists>text ret. f p n = Some (text, ret) \<and> length text \<le> n \<and> (\<forall>l. ret = Inr l \<longrightarrow> l \<le> n))"

lemma interpolate_loop_bounded:
  assumes "n < 2 ^ 64" "0 < n" "length buf = n" "off \<le> n" "\<forall>f. Handle f \<in> set ss \<longrightarrow> bounded_handler p f"
  shows "\<exists>r b k. interpolate_loop ss p n off buf = Some (r, b, k) \<and> length b = n"
  using assms(3-5)
proof (induction ss arbitrary: off buf)
  case Nil
  with assms(2) show ?case by (auto simp: buf_write_def)
next
  case (Cons s ss)
  have rm: "room n off = n - off" by (rule room_exact [OF Cons.prems(2) assms(1)])
  have end0: "\<exists>r b' k. map_option (\<lambda>b. (x, b, None :: nat option)) (buf_write 0 [CHR 0x00] b) = Some (r, b', k) \<and>
      length b' = n" if "length b = n" for b and x :: clog_res
    using that assms(2) by (auto simp: buf_write_def)
  show ?case
  proof (cases s)
    case (Pure x)
    have "off + length (strcpy_bytes (n - off) x) \<le> length buf"
      using strcpy_bytes_length [of "n - off" x] Cons.prems by simp
    from buf_write_ok [OF this] obtain b where
      b: "buf_write off (strcpy_bytes (n - off) x) buf = Some b" "length b = n" using Cons.prems by auto
    show ?thesis
    proof (cases "fst (clog_strcpy True (n - off) (Some x)) = CLOG_SUCCESS")
      case True
      then have "length x \<le> n - off" by (auto simp: clog_strcpy_def split: if_splits)
      with Cons.IH [OF b(2), of "off + length x"] Cons.prems Pure b rm True show ?thesis by auto
    next
      case False
      with Pure b rm end0 [OF b(2)] show ?thesis by simp
    qed
  next
    case (Handle f)
    with Cons.prems(3) have "bounded_handler p f" by simp
    then obtain tx ret where f: "f p (n - off) = Some (tx, ret)"
      "length tx \<le> n - off" "\<forall>l. ret = Inr l \<longrightarrow> l \<le> n - off"
      unfolding bounded_handler_def by blast
    have "off + length tx \<le> length buf" using f(2) Cons.prems(1,2) by simp
    from buf_write_ok [OF this] Cons.prems(1) obtain b where
      b: "buf_write off tx buf = Some b" "length b = n" by blast
    show ?thesis
    proof (cases ret)
      case (Inl c)
      with Handle f b rm end0 [OF b(2)] show ?thesis by simp
    next
      case (Inr l)
      show ?thesis
      proof (cases "l = 0")
        case True
        with Handle f b rm Inr end0 [OF b(2)] show ?thesis by simp
      next
        case False
        from f(3) Inr have "off + l \<le> n" using Cons.prems(2) by auto
        from Cons.IH [OF b(2) this] Cons.prems Handle f b rm Inr False show ?thesis by auto
      qed
    qed
  qed
qed


subsection \<open>Formats\<close>

text \<open>
  \<open>format_of\<close> writes a list of named segments as a format: braces in literal text are escaped.
  A list is \<open>printable\<close> when literal texts are not empty, do not follow one another and do not
  end in a backslash, which would escape the brace of the placeholder after them, and when the
  names are made of name characters.
\<close>

datatype part = Lit string | Name string

fun escape_text :: "string \<Rightarrow> string" where
  "escape_text [] = []"
| "escape_text (c # cs) =
     (if c = CHR ''{'' \<or> c = CHR ''}'' then CHR 0x5C # c # escape_text cs else c # escape_text cs)"

fun format_of :: "part list \<Rightarrow> string" where
  "format_of [] = []"
| "format_of (Lit t # ps) = escape_text t @ format_of ps"
| "format_of (Name nm # ps) = CHR ''{'' # nm @ CHR ''}'' # format_of ps"

fun printable :: "part list \<Rightarrow> bool" where
  "printable [] = True"
| "printable (Lit t # ps) = (t \<noteq> [] \<and> last t \<noteq> CHR 0x5C \<and>
     (case ps of Lit _ # _ \<Rightarrow> False | _ \<Rightarrow> True) \<and> printable ps)"
| "printable (Name nm # ps) =
     (nm \<noteq> [] \<and> (\<forall>c \<in> set nm. clog_placeholder_is_name_valid c) \<and> printable ps)"

lemma name_char: "clog_placeholder_is_name_valid c \<Longrightarrow> c \<noteq> CHR ''}'' \<and> c \<noteq> CHR ''{'' \<and> c \<noteq> CHR 0x00"
  by (auto simp: clog_placeholder_is_name_valid_def Let_def)

lemma placeholder_scan_name:
  "\<forall>c \<in> set nm. clog_placeholder_is_name_valid c \<Longrightarrow>
   placeholder_scan (nm @ CHR ''}'' # rest) = Some (length nm)"
  by (induction nm) (auto dest: name_char)

lemma parse_name:
  assumes "nm \<noteq> []" "\<forall>c \<in> set nm. clog_placeholder_is_name_valid c"
  shows "clog_interpolator_parse_placeholder_name (CHR ''{'' # nm @ CHR ''}'' # rest) = Some (length nm)"
  using assms placeholder_scan_name [OF assms(2), of rest] name_char
  by (cases nm) (auto simp: clog_interpolator_parse_placeholder_name_def simp del: placeholder_scan.simps)

text \<open>Escaped text is scanned to its end, and the copy undoes the escape.\<close>

lemma pure_end_escape:
  assumes "rest = [] \<or> hd rest = CHR ''{''"
    and "esc \<longrightarrow> t \<noteq> []" "t \<noteq> [] \<longrightarrow> last t \<noteq> CHR 0x5C"
  shows "pure_end esc (escape_text t @ rest) = Some (length (escape_text t))"
  using assms(2,3)
proof (induction t arbitrary: esc)
  case Nil
  with assms(1) show ?case by (cases rest) auto
next
  case (Cons c t)
  show ?case
  proof (cases "c = CHR ''{'' \<or> c = CHR ''}''")
    case True
    have "pure_end False (escape_text t @ rest) = Some (length (escape_text t))"
      by (rule Cons.IH) (use Cons.prems in auto)
    with True show ?thesis by auto
  next
    case False
    have "pure_end (c = CHR 0x5C) (escape_text t @ rest) = Some (length (escape_text t))"
      by (rule Cons.IH) (use Cons.prems in auto)
    with False show ?thesis by auto
  qed
qed

lemma copy_pure_escape:
  assumes "t \<noteq> [] \<longrightarrow> last t \<noteq> CHR 0x5C"
  shows "copy_pure (length (escape_text t)) (escape_text t @ rest) = t"
  using assms
proof (induction t)
  case (Cons c t)
  have ih: "copy_pure (length (escape_text t)) (escape_text t @ rest) = t"
    by (rule Cons.IH) (use Cons.prems in auto)
  show ?case
  proof (cases "c = CHR ''{'' \<or> c = CHR ''}''")
    case True
    with ih show ?thesis by auto
  next
    case False
    have "c = CHR 0x5C \<Longrightarrow> t \<noteq> []" using Cons.prems by auto
    then have "c = CHR 0x5C \<Longrightarrow> hd (escape_text t @ rest) \<noteq> CHR ''{'' \<and> hd (escape_text t @ rest) \<noteq> CHR ''}''"
      by (cases t) auto
    with False ih show ?thesis by auto
  qed
qed simp


definition segment_of :: "(string \<Rightarrow> 'h option) \<Rightarrow> part \<Rightarrow> 'h clog_interpolator" where
  "segment_of M p = (case p of Lit t \<Rightarrow> Pure t | Name nm \<Rightarrow> Handle (the (M nm)))"

definition registered :: "(string \<Rightarrow> 'h option) \<Rightarrow> part \<Rightarrow> bool" where
  "registered M p \<longleftrightarrow> (case p of Lit t \<Rightarrow> True | Name nm \<Rightarrow> M nm \<noteq> None)"

lemma malloc_granted:
  assumes "\<And>i. grants m i" "0 < n"
  obtains m' where "clog_malloc n m = (True, m')" "\<And>i. grants m' i"
  using clog_malloc_total [OF assms(1), of n] assms by simp

lemma parse_handle_name:
  assumes inv: "string_inv hm" and M: "hm_abs cstr hm nm = Some f" and g: "\<And>i. grants m i"
    and nm: "nm \<noteq> []" "\<forall>c \<in> set nm. clog_placeholder_is_name_valid c"
  obtains hm' m' where
    "parse_segment hm (CHR ''{'' # nm @ CHR ''}'' # rest) m = (Inr (Handle f, rest), hm', m')"
    "string_inv hm'" "hm_abs cstr hm' = hm_abs cstr hm" "\<And>i. grants m' i"
proof -
  obtain r hm' where get: "get_nn hm (cstr_bytes nm) = (r, hm')" by (metis surj_pair)
  have "cstr (cstr_bytes nm) = nm" using nm(2) name_char by (intro cstr_cstr_bytes) auto
  with string_keys.get_spec [OF inv get] M have
    hm': "r = Some f" "string_inv hm'" "hm_abs cstr hm' = hm_abs cstr hm" by simp_all
  obtain m1 where m1: "clog_malloc (length nm + 1) m = (True, m1)" "\<And>i. grants m1 i"
    by (rule malloc_granted [OF g, of "length nm + 1"]) (simp, rule that)
  obtain m2 where m2: "clog_malloc sizeof_interp m1 = (True, m2)" "\<And>i. grants m2 i"
    by (rule malloc_granted [OF m1(2), of sizeof_interp]) (simp add: sizeof_interp_def, rule that)
  have "clog_strndup (nm @ CHR ''}'' # rest) (length nm) m = (Some nm, m1)"
    using nm(1) m1(1) by (simp add: clog_strndup_def)
  then have "parse_segment hm (CHR ''{'' # nm @ CHR ''}'' # rest) m =
      (Inr (Handle f, rest), hm', clog_free m2)"
    using parse_name [OF nm] get hm'(1) m2(1)
    by (simp add: parse_segment_def parse_handle_def clog_interpolator_create_def)
  moreover have "\<And>i. grants (clog_free m2) i" by (simp add: grants_clog_free m2(2))
  ultimately show ?thesis by (rule that [of hm' "clog_free m2", OF _ hm'(2,3)])
qed

lemma parse_pure_text:
  assumes g: "\<And>i. grants m i" and t: "t \<noteq> []" "last t \<noteq> CHR 0x5C"
    and rest: "rest = [] \<or> hd rest = CHR ''{''"
  obtains m' where "parse_segment hm (escape_text t @ rest) m = (Inr (Pure t, rest), hm, m')"
    "\<And>i. grants m' i"
proof -
  let ?n = "length (escape_text t)"
  obtain m1 where m1: "clog_malloc (?n + 1) m = (True, m1)" "\<And>i. grants m1 i"
    by (rule malloc_granted [OF g, of "?n + 1"]) (simp, rule that)
  obtain m2 where m2: "clog_malloc sizeof_interp m1 = (True, m2)" "\<And>i. grants m2 i"
    by (rule malloc_granted [OF m1(2), of sizeof_interp]) (simp add: sizeof_interp_def, rule that)
  obtain m3 where m3: "clog_malloc (length t + 1) m2 = (True, m3)" "\<And>i. grants m3 i"
    by (rule malloc_granted [OF m2(2), of "length t + 1"]) (simp, rule that)
  have h: "hd (escape_text t @ rest) \<noteq> CHR ''{''" using t(1) by (cases t) auto
  have "pure_end False (escape_text t @ rest) = Some ?n"
    by (rule pure_end_escape [OF rest]) (use t in auto)
  moreover have "copy_pure ?n (escape_text t @ rest) = t" by (rule copy_pure_escape) (use t in simp)
  ultimately have "parse_segment hm (escape_text t @ rest) m = (Inr (Pure t, rest), hm, clog_free m3)"
    using h m1(1) m2(1) m3(1)
    by (simp add: parse_segment_def parse_pure_def clog_interpolator_create_def clog_strdup_def)
  moreover have "\<And>i. grants (clog_free m3) i" by (simp add: grants_clog_free m3(2))
  ultimately show ?thesis by (rule that [of "clog_free m3"])
qed

lemma format_of_hd: "printable ps \<Longrightarrow> (case ps of Lit _ # _ \<Rightarrow> False | _ \<Rightarrow> True) \<Longrightarrow>
  format_of ps = [] \<or> hd (format_of ps) = CHR ''{''"
  by (cases ps rule: format_of.cases) auto

lemma escape_text_Nil [simp]: "escape_text t = [] \<longleftrightarrow> t = []"
  by (cases t) auto

lemma parse_format_print:
  assumes "string_inv hm" "hm_abs cstr hm = M" "\<And>i. grants m i" "printable ps" "\<forall>p \<in> set ps. registered M p"
  shows "\<exists>hm' m'. clog_interpolator_parse_format hm (format_of ps) m =
      (CLOG_SUCCESS, map (segment_of M) ps, hm', m') \<and> string_inv hm' \<and> hm_abs cstr hm' = M"
  using assms
proof (induction ps arbitrary: hm m rule: format_of.induct)
  case 1
  then show ?case by (subst clog_interpolator_parse_format.simps) simp
next
  case (2 t ps)
  from 2 have rest: "format_of ps = [] \<or> hd (format_of ps) = CHR ''{''"
    by (intro format_of_hd) (auto split: list.splits part.splits)
  obtain m' where m': "parse_segment hm (escape_text t @ format_of ps) m =
      (Inr (Pure t, format_of ps), hm, m')" "\<And>i. grants m' i"
    by (rule parse_pure_text [of m t "format_of ps" hm]) (use 2 rest in auto)
  from "2.IH" [OF "2.prems"(1,2) m'(2)] "2.prems" m'(1) show ?case
    by (subst clog_interpolator_parse_format.simps) (auto simp: segment_of_def)
next
  case (3 nm ps)
  from "3.prems" obtain f where f: "hm_abs cstr hm nm = Some f" by (auto simp: registered_def)
  obtain hm' m' where m': "parse_segment hm (CHR ''{'' # nm @ CHR ''}'' # format_of ps) m =
      (Inr (Handle f, format_of ps), hm', m')" "string_inv hm'" "hm_abs cstr hm' = hm_abs cstr hm"
      "\<And>i. grants m' i"
    by (rule parse_handle_name [OF "3.prems"(1) f "3.prems"(3), of "format_of ps"])
      (use "3.prems" in auto)
  from "3.IH" [OF m'(2) _ m'(4)] "3.prems" m' f show ?case
    by (subst clog_interpolator_parse_format.simps) (auto simp: segment_of_def)
qed


lemma parse_print:
  assumes "string_inv (ic_map c)" "hm_abs cstr (ic_map c) = M" "\<And>i. grants m i"
    and "printable ps" "\<forall>p \<in> set ps. registered M p"
  shows "\<exists>c' m'. clog_interpolator_parse (Some c) (Some (format_of ps)) m =
      Some (CLOG_SUCCESS, Some (root_next (map (segment_of M) ps)), Some c', m') \<and>
    string_inv (ic_map c') \<and> hm_abs cstr (ic_map c') = M \<and>
    live m' = live m + 1 + segment_blocks (map (segment_of M) ps)"
proof -
  obtain m1 where m1: "clog_malloc sizeof_interp m = (True, m1)" "\<And>i. grants m1 i"
    by (rule malloc_granted [OF assms(3), of sizeof_interp]) (simp add: sizeof_interp_def, rule that)
  from parse_format_print [OF assms(1,2) m1(2) assms(4,5)] obtain hm' m2 where
    p: "clog_interpolator_parse_format (ic_map c) (format_of ps) m1 =
        (CLOG_SUCCESS, map (segment_of M) ps, hm', m2)" "string_inv hm'" "hm_abs cstr hm' = M" by blast
  from parse_format_blocks [OF p(1)] live_clog_mallocD [OF m1(1)]
  have "live m2 = live m + 1 + segment_blocks (map (segment_of M) ps)" by simp
  with p m1(1) show ?thesis by (simp add: clog_interpolator_parse_def)
qed

lemma interpolate_segments:
  assumes "segments_out ss p n = Some t" "ss \<noteq> []" "1 < n" "n < 2 ^ 64" "length buf = n"
  shows "\<exists>b. clog_interpolator_interpolate (Some (root_next ss)) p (Some buf) n =
      Some (CLOG_SUCCESS, Some b, Some (length t)) \<and>
    length b = n \<and> length t < n \<and> take (length t) b = t \<and> b ! length t = CHR 0x00"
proof -
  from assms(1) have "segments_out ss p (n - 0) = Some t" by simp
  from interpolate_loop_ok [OF assms(4,5) _ this] obtain b where
    "interpolate_loop ss p n 0 buf = Some (CLOG_SUCCESS, b, Some (length t))"
    "length b = n" "length t < n" "take (length t) b = t" "b ! length t = CHR 0x00" by auto
  with assms(2,3) show ?thesis by (simp add: clog_interpolator_interpolate_def root_next_def)
qed

subsection \<open>A concrete context\<close>

definition ex_ctx :: "(nat, unit) clog_interpolator_context" where
  "ex_ctx = the (fst (snd (clog_interpolator_context_register
     (Some \<lparr>ic_is_map_allocated = True, ic_map = ex_hm\<rparr>) (Some ''ab'') (Some 5) ex_m)))"

definition ex_ctx_m :: mem where
  "ex_ctx_m = snd (snd (clog_interpolator_context_register
     (Some \<lparr>ic_is_map_allocated = True, ic_map = ex_hm\<rparr>) (Some ''ab'') (Some (5 :: nat)) ex_m))"

lemma ex_ctx_facts:
  "string_inv (ic_map ex_ctx)" "hm_abs cstr (ic_map ex_ctx) = [''ab'' \<mapsto> 5]" "\<And>i. grants ex_ctx_m i"
proof -
  obtain r hm' m' where p: "put_nn ex_hm ex_key 5 ex_m = (r, hm', m')" by (metis surj_pair)
  have c: "ex_ctx = \<lparr>ic_is_map_allocated = True, ic_map = hm'\<rparr>" "ex_ctx_m = m'"
    using p by (simp_all add: ex_ctx_def ex_ctx_m_def clog_interpolator_context_register_def
        ex_cstr_bytes clog_hashmap_put_def)
  have g: "r = CLOG_SUCCESS \<and> grants m' = grants ex_m"
    by (rule string_put_granted [OF ex_hm_simps(1) _ p]) (simp add: ex_m_simps)
  have e: "hm_abs cstr ex_hm = Map.empty" using string_create_inv [OF ex_create] by simp
  from string_keys.put_spec [OF ex_inv _ p] g e ex_cstr
  show "string_inv (ic_map ex_ctx)" "hm_abs cstr (ic_map ex_ctx) = [''ab'' \<mapsto> 5]" by (simp_all add: c)
  show "grants ex_ctx_m i" for i using g ex_m_simps(1) by (simp add: c)
qed

subsection \<open>Properties\<close>

text \<open>
  C13. Parsing undoes printing: a list of literal texts and names of registered handlers, written
  as a format with its braces escaped, parses into exactly those segments when memory is
  granted, and the context's map keeps its contents.
\<close>
theorem interpolator_parse_print:
  assumes "string_inv (ic_map c)" "hm_abs cstr (ic_map c) = M" "\<And>i. grants m i"
    and "printable ps" "\<forall>p \<in> set ps. registered M p"
  shows "\<exists>c' m'. clog_interpolator_parse (Some c) (Some (format_of ps)) m =
      Some (CLOG_SUCCESS, Some (root_next (map (segment_of M) ps)), Some c', m') \<and>
    string_inv (ic_map c') \<and> hm_abs cstr (ic_map c') = M \<and>
    live m' = live m + 1 + segment_blocks (map (segment_of M) ps)"
  using assms by (rule parse_print)

lemma interpolator_parse_print_witness:
  "format_of [Lit ''x{'', Name ''ab''] = ''x'' @ [CHR 0x5C] @ ''{{ab}'' \<and>
   (\<exists>c' m'. clog_interpolator_parse (Some ex_ctx) (Some (format_of [Lit ''x{'', Name ''ab''])) ex_ctx_m =
      Some (CLOG_SUCCESS, Some (Some [Pure ''x{'', Handle 5]), Some c', m'))"
proof -
  have "printable [Lit ''x{'', Name ''ab'']" by (simp add: clog_placeholder_is_name_valid_def)
  moreover have "\<forall>p \<in> set [Lit ''x{'', Name ''ab'']. registered [''ab'' \<mapsto> (5::nat)] p"
    by (simp add: registered_def)
  ultimately show ?thesis
    using interpolator_parse_print [OF ex_ctx_facts, of "[Lit ''x{'', Name ''ab'']"]
    by (auto simp: segment_of_def root_next_def)
qed

text \<open>
  When every segment fits into what room the ones before it left, interpolating puts the
  concatenation of their texts at the start of the buffer, terminates it, leaves the buffer's
  length alone and reports the length of the text.
\<close>
theorem interpolate_writes_segments:
  assumes "segments_out ss p n = Some t" "ss \<noteq> []" "1 < n" "n < 2 ^ 64" "length buf = n"
  shows "\<exists>b. clog_interpolator_interpolate (Some (root_next ss)) p (Some buf) n =
      Some (CLOG_SUCCESS, Some b, Some (length t)) \<and>
    length b = n \<and> length t < n \<and> take (length t) b = t \<and> b ! length t = CHR 0x00"
  using assms by (rule interpolate_segments)

definition ex_upper :: "unit handler" where
  "ex_upper p n = Some (if n \<le> 2 then ([], Inl CLOG_NO_MEMORY) else (''AB'', Inr 2))"

lemma interpolate_writes_segments_witness:
  "\<exists>b. clog_interpolator_interpolate (Some (root_next [Pure ''x='', Handle ex_upper])) ()
       (Some (replicate 6 CHR ''?'')) 6 = Some (CLOG_SUCCESS, Some b, Some (length ''x=AB'')) \<and>
     take (length ''x=AB'') b = ''x=AB''"
proof -
  have "segments_out [Pure ''x='', Handle ex_upper] () 6 = Some ''x=AB''" by (simp add: ex_upper_def)
  from interpolate_writes_segments [OF this, of "replicate 6 CHR ''?''"] show ?thesis by auto
qed

text \<open>
  If every handler writes and reports no more than the room it is told, interpolating never
  writes outside the buffer, whatever the segments and the size.
\<close>
theorem interpolate_in_bounds:
  assumes "\<forall>f. Handle f \<in> set ss \<longrightarrow> bounded_handler p f" "ss \<noteq> []" "n < 2 ^ 64" "length buf = n"
  shows "\<exists>r b k. clog_interpolator_interpolate (Some (root_next ss)) p (Some buf) n = Some (r, Some b, k) \<and>
    length b = n"
proof (cases "n \<le> 1")
  case True
  with assms show ?thesis by (simp add: clog_interpolator_interpolate_def)
next
  case False
  then have "0 < n" by simp
  from interpolate_loop_bounded [OF assms(3) this assms(4) _ assms(1), of 0] obtain r b k where
    "interpolate_loop ss p n 0 buf = Some (r, b, k)" "length b = n" by auto
  with False assms(2) show ?thesis by (simp add: clog_interpolator_interpolate_def root_next_def)
qed

lemma interpolate_in_bounds_witness:
  "\<exists>r b k. clog_interpolator_interpolate (Some (Some [Pure ''x='', Handle ex_upper])) () (Some (replicate 4 CHR ''?'')) 4 =
     Some (r, Some b, k) \<and> length b = 4"
proof -
  have "\<forall>f. Handle f \<in> set [Pure ''x='', Handle ex_upper] \<longrightarrow> bounded_handler () f"
    by (simp add: bounded_handler_def ex_upper_def)
  from interpolate_in_bounds [OF this, of 4 "replicate 4 CHR ''?''"] show ?thesis
    by (simp add: root_next_def)
qed

text \<open>
  Parsing leaks nothing: when it fails every block it took has been released, and when it
  succeeds clearing the result releases them all.
\<close>
theorem interpolator_parse_no_leak:
  assumes "clog_interpolator_parse (Some c) (Some fmt) m = Some (r, root, c', m')"
  shows "(r \<noteq> CLOG_SUCCESS \<longrightarrow> root = None \<and> live m' = live m) \<and>
    (r = CLOG_SUCCESS \<longrightarrow> (\<exists>ss. root = Some (root_next ss) \<and>
       (ss \<noteq> [] \<longrightarrow> (\<exists>m''. clog_interpolator_clear root m' = Some m'' \<and> live m'' = live m))))"
proof -
  obtain b m1 where m1: "clog_malloc sizeof_interp m = (b, m1)" by (metis surj_pair)
  from live_clog_mallocD [OF m1] have l1: "live m1 = live m + (if b then 1 else 0)" .
  show ?thesis
  proof (cases b)
    case False
    with assms m1 l1 show ?thesis by (auto simp: clog_interpolator_parse_def)
  next
    case True
    obtain ret ss hm m2 where p: "clog_interpolator_parse_format (ic_map c) fmt m1 = (ret, ss, hm, m2)"
      by (metis surj_pair)
    from parse_format_blocks [OF p] l1 True
    have l2: "live (clog_free (free_segments ss m2)) = live m" by (simp add: mem_simps live_free_segments)
    show ?thesis
    proof (cases "ret = CLOG_SUCCESS")
      case True
      with assms m1 p \<open>b\<close> have "r = CLOG_SUCCESS" "root = Some (root_next ss)" "m' = m2"
        by (auto simp: clog_interpolator_parse_def)
      with l2 show ?thesis by (auto simp: clog_interpolator_clear_def root_next_def)
    next
      case False
      with assms m1 p \<open>b\<close> l2 show ?thesis
        by (auto simp: clog_interpolator_parse_def clog_interpolator_clear_def root_next_def
            split: if_splits)
    qed
  qed
qed

lemma ex_parse_unknown:
  "clog_interpolator_parse (Some ex_ctx) (Some ''x{}'') ex_ctx_m =
     (case clog_malloc sizeof_interp ex_ctx_m of (_, m1) \<Rightarrow>
       (case parse_pure (ic_map ex_ctx) ''x{}'' m1 of (_, hm, m2) \<Rightarrow>
          Some (CLOG_INVALID_PARAM, None, Some (ex_ctx\<lparr>ic_map := hm\<rparr>), clog_free (clog_free (clog_free m2)))))"
  by (simp add: clog_interpolator_parse_def clog_malloc_total ex_ctx_facts sizeof_interp_def
      clog_interpolator_parse_format.simps parse_segment_def parse_pure_def parse_handle_def
      clog_interpolator_create_def clog_strdup_def clog_interpolator_parse_placeholder_name_def
      clog_free_def clog_interpolator_clear_def root_next_def)

lemma interpolator_parse_no_leak_witness:
  "case clog_interpolator_parse (Some ex_ctx) (Some ''x{}'') ex_ctx_m of
     None \<Rightarrow> False
   | Some (r, root, c, m) \<Rightarrow> r = CLOG_INVALID_PARAM \<and> root = None \<and> live m = live ex_ctx_m"
  using interpolator_parse_no_leak [of ex_ctx "''x{}''" ex_ctx_m] ex_parse_unknown
  by (auto split: prod.splits)

text \<open>
  A format whose first segment cannot be parsed, for example one that starts with an unknown
  placeholder, is not rejected cleanly: the root's uninitialised \<open>next\<close> is read to release the
  segments, which is undefined behaviour. A stray \<open>}\<close> there is worse, for parsing reports success
  with that indeterminate root.
\<close>
theorem interpolator_first_segment:
  assumes "clog_malloc sizeof_interp m = (True, m1)" "fmt \<noteq> []"
    and "parse_segment (ic_map c) fmt m1 = (Inl r, hm', m')"
  shows "clog_interpolator_parse (Some c) (Some fmt) m =
    (if r = CLOG_SUCCESS then Some (CLOG_SUCCESS, Some None, Some (c\<lparr>ic_map := hm'\<rparr>), m') else None)"
  using assms
  by (simp add: clog_interpolator_parse_def clog_interpolator_parse_format.simps [of _ fmt]
      root_next_def clog_interpolator_clear_def)

lemma interpolator_first_segment_witness:
  "clog_interpolator_parse (Some ex_ctx) (Some ''{}'') ex_ctx_m = None \<and>
   fst (the (clog_interpolator_parse (Some ex_ctx) (Some ''a}'') ex_ctx_m)) = CLOG_SUCCESS"
proof -
  obtain m1 where m1: "clog_malloc sizeof_interp ex_ctx_m = (True, m1)"
    by (rule malloc_granted [of ex_ctx_m sizeof_interp]) (simp_all add: ex_ctx_facts sizeof_interp_def)
  have "parse_segment (ic_map ex_ctx) ''{}'' m1 = (Inl CLOG_INVALID_PARAM, ic_map ex_ctx, m1)"
    by (simp add: parse_segment_def parse_handle_def clog_interpolator_parse_placeholder_name_def)
  moreover have "parse_segment (ic_map ex_ctx) ''a}'' m1 = (Inl CLOG_SUCCESS, ic_map ex_ctx, m1)"
    by (simp add: parse_segment_def parse_pure_def)
  ultimately show ?thesis
    using interpolator_first_segment [OF m1, of "''{}''" ex_ctx] interpolator_first_segment [OF m1, of "''a}''" ex_ctx]
    by simp
qed

end
