(* ===== verification/Formatter.thy ===== *)
theory Formatter
  imports Interpolator
begin

text \<open>
  The formatter of clog_formatter.c and the default placeholders of clog_log_format_placeholder.c.

  A handler's parameter is the item wrapper. Its \<open>fmt\<close> and \<open>args\<close> are used by \<open>vsnprintf\<close> of the
  C library only: \<open>wr_text\<close> is the text \<open>vsnprintf\<close> makes of them when there is room for it all,
  \<open>None\<close> when it reports an error. The numbers are written by \<open>clog_num_to_str\<close>, which reads the
  table \<open>max_values\<close> and the digits; a read outside of the digits is \<open>None\<close>.
\<close>

subsection \<open>Numbers\<close>

record clog_item_wrapper =
  wr_process :: string
  wr_module :: string
  wr_filename :: string
  wr_function :: string
  wr_tag :: string
  wr_text :: "string option"
  wr_log :: clog_item

definition digits :: string where "digits = ''0123456789'' @ [CHR 0x00]"

definition digit :: "32 word \<Rightarrow> char option" where
  "digit v = (if unat v < length digits then Some (digits ! unat v) else None)"

definition max_values :: "32 word list" where
  "max_values = [1, 10, 100, 1000, 10000, 100000, 1000000, 10000000, 100000000, 1000000000, 1000000000]"

fun pad_loop :: "nat \<Rightarrow> 32 word \<Rightarrow> string \<Rightarrow> string" where
  "pad_loop 0 v acc = acc"
| "pad_loop (Suc k) v acc = pad_loop k (v div 10) (digits ! unat (v mod 10) # acc)"

text \<open>\<open>max_index\<close> stops at index 0 at the latest, since its value is not 0.\<close>

fun max_index :: "nat \<Rightarrow> 32 word \<Rightarrow> nat" where
  "max_index 0 v = 0"
| "max_index (Suc i) v = (if max_values ! Suc i > v then max_index i v else Suc i)"

fun emit_loop :: "nat \<Rightarrow> 32 word \<Rightarrow> string option" where
  "emit_loop 0 v = map_option (\<lambda>c. [c]) (digit (v div max_values ! 0))"
| "emit_loop (Suc i) v = (case digit (v div max_values ! Suc i) of
      None \<Rightarrow> None
    | Some c \<Rightarrow> map_option (\<lambda>s. c # s) (emit_loop i (v mod max_values ! Suc i)))"

definition clog_num_to_str :: "32 word \<Rightarrow> nat \<Rightarrow> bool \<Rightarrow> string option" where
  "clog_num_to_str v num is_padding =
     (if is_padding then Some (pad_loop num v [])
      else if v = 0 then Some ''0''
      else emit_loop (max_index num v) v)"

subsection \<open>Placeholders\<close>

definition num_placeholder ::
    "(clog_item \<Rightarrow> 32 word) \<Rightarrow> nat \<Rightarrow> bool \<Rightarrow> clog_item_wrapper handler" where
  "num_placeholder field num is_padding wrapper n =
     (if n < num then Some ([], Inl CLOG_INVALID_PARAM)
      else map_option (\<lambda>s. (s, Inr (length s)))
             (clog_num_to_str (field (wr_log wrapper)) num is_padding))"

definition clog_placeholder_year :: "clog_item_wrapper handler" where
  "clog_placeholder_year = num_placeholder (\<lambda>i. ucast (it_year i)) 4 True"
definition clog_placeholder_month :: "clog_item_wrapper handler" where
  "clog_placeholder_month = num_placeholder (\<lambda>i. ucast (it_month i)) 2 True"
definition clog_placeholder_day :: "clog_item_wrapper handler" where
  "clog_placeholder_day = num_placeholder (\<lambda>i. ucast (it_day i)) 2 True"
definition clog_placeholder_hour :: "clog_item_wrapper handler" where
  "clog_placeholder_hour = num_placeholder (\<lambda>i. ucast (it_hour i)) 2 True"
definition clog_placeholder_minute :: "clog_item_wrapper handler" where
  "clog_placeholder_minute = num_placeholder (\<lambda>i. ucast (it_minute i)) 2 True"
definition clog_placeholder_second :: "clog_item_wrapper handler" where
  "clog_placeholder_second = num_placeholder (\<lambda>i. ucast (it_second i)) 2 True"
definition clog_placeholder_millisecond :: "clog_item_wrapper handler" where
  "clog_placeholder_millisecond = num_placeholder (\<lambda>i. ucast (it_millisecond i)) 3 True"
definition clog_placeholder_line :: "clog_item_wrapper handler" where
  "clog_placeholder_line = num_placeholder it_line 6 False"
definition clog_placeholder_tid :: "clog_item_wrapper handler" where
  "clog_placeholder_tid = num_placeholder (\<lambda>i. ucast (it_tid i)) 10 False"

fun string_copy_loop :: "string \<Rightarrow> nat \<Rightarrow> nat \<Rightarrow> string" where
  "string_copy_loop [] i n = []"
| "string_copy_loop (c # cs) i n = (if i = n then [] else c # string_copy_loop cs (Suc i) n)"

definition clog_placeholder_string_copy :: "string \<Rightarrow> nat \<Rightarrow> string \<times> (clog_res + nat)" where
  "clog_placeholder_string_copy str n =
     (let s = string_copy_loop str 0 n in (s, Inr (length s)))"

definition clog_placeholder_process :: "clog_item_wrapper handler" where
  "clog_placeholder_process wrapper n = Some (clog_placeholder_string_copy (wr_process wrapper) n)"
definition clog_placeholder_module :: "clog_item_wrapper handler" where
  "clog_placeholder_module wrapper n = Some (clog_placeholder_string_copy (wr_module wrapper) n)"
definition clog_placeholder_file :: "clog_item_wrapper handler" where
  "clog_placeholder_file wrapper n = Some (clog_placeholder_string_copy (wr_filename wrapper) n)"
definition clog_placeholder_level :: "clog_item_wrapper handler" where
  "clog_placeholder_level wrapper n = Some (clog_placeholder_string_copy (wr_tag wrapper) n)"

text \<open>\<open>vsnprintf\<close> writes what fits and the terminator, and returns the length of the whole text.\<close>

definition clog_placeholder_content :: "clog_item_wrapper handler" where
  "clog_placeholder_content wrapper n = (case wr_text wrapper of
      None \<Rightarrow> Some ([], Inr 0)
    | Some t \<Rightarrow> Some (strcpy_bytes n t, Inr (length t)))"

definition clog_placeholder_ln :: "clog_item_wrapper handler" where
  "clog_placeholder_ln wrapper n = Some ([CHR 0x0A], Inr 1)"

subsection \<open>The default placeholders\<close>

definition default_placeholders :: "(string \<times> clog_item_wrapper handler) list" where
  "default_placeholders =
     [(''_year'', clog_placeholder_year), (''_month'', clog_placeholder_month),
      (''_day'', clog_placeholder_day), (''_hour'', clog_placeholder_hour),
      (''_minute'', clog_placeholder_minute), (''_second'', clog_placeholder_second),
      (''_millisecond'', clog_placeholder_millisecond), (''_process'', clog_placeholder_process),
      (''_module'', clog_placeholder_module), (''_tid'', clog_placeholder_tid),
      (''_file'', clog_placeholder_file), (''_line'', clog_placeholder_line),
      (''_content'', clog_placeholder_content), (''_level'', clog_placeholder_level),
      (''_ln'', clog_placeholder_ln)]"

fun put_placeholders ::
    "(string \<times> 'h) list \<Rightarrow> ('h, 'm) clog_hashmap \<Rightarrow> 'm mem_scheme
     \<Rightarrow> ('h, 'm) clog_hashmap option \<times> 'm mem_scheme" where
  "put_placeholders [] hm m = (Some hm, m)"
| "put_placeholders ((name, f) # ps) hm m =
     (case put_nn hm (cstr_bytes name) f m of
        (ret, hm', m') \<Rightarrow>
          if ret \<noteq> CLOG_SUCCESS then (None, snd (clog_hashmap_destroy (Some hm') m'))
          else put_placeholders ps hm' m')"

definition clog_log_format_default_placeholder_map_create ::
    "'m mem_scheme \<Rightarrow> (clog_item_wrapper handler, 'm) clog_hashmap option \<times> 'm mem_scheme" where
  "clog_log_format_default_placeholder_map_create m =
     (case string_create sizeof_handler 0 m of
        (None, m1) \<Rightarrow> (None, m1)
      | (Some hm, m1) \<Rightarrow> put_placeholders default_placeholders hm m1)"

subsection \<open>Formatting an item\<close>

definition strcpy_field :: "string \<Rightarrow> nat \<Rightarrow> string \<Rightarrow> string" where
  "strcpy_field old n s = (case snd (clog_strcpy True n (Some s)) of None \<Rightarrow> old | Some t \<Rightarrow> t)"

definition copy_names :: "clog_item_wrapper \<Rightarrow> clog_item_wrapper" where
  "copy_names w =
     (let i = wr_log w in
      w\<lparr>wr_log := i\<lparr>it_process := strcpy_field (it_process i) CASCA_LOG_PROCESS_NAME_MAX_SIZE (wr_process w),
                    it_module := strcpy_field (it_module i) CASCA_LOG_MODULE_NAME_MAX_SIZE (wr_module w),
                    it_filename := strcpy_field (it_filename i) CASCA_LOG_FILENAME_MAX_SIZE (wr_filename w)\<rparr>\<rparr>)"

definition clog_format_log ::
    "clog_item_wrapper handler clog_interpolator list option option \<Rightarrow> clog_item_wrapper option
     \<Rightarrow> string option \<Rightarrow> nat \<Rightarrow> bool
     \<Rightarrow> (clog_res \<times> clog_item_wrapper option \<times> string option \<times> nat option) option" where
  "clog_format_log interpolator wrapper content n has_num = (case (interpolator, wrapper, content) of
      (Some root, Some w, Some buf) \<Rightarrow>
        if \<not> has_num then Some (CLOG_INVALID_PARAM, wrapper, content, None)
        else if n \<le> 1 then Some (CLOG_OVERSIZE, wrapper, content, None)
        else (let w' = copy_names w in
              map_option (\<lambda>(r, b, k). (r, Some w', b, k))
                (clog_interpolator_interpolate interpolator w' content n))
    | _ \<Rightarrow> Some (CLOG_INVALID_PARAM, wrapper, content, None))"

subsection \<open>Decimal notation\<close>

definition dec_digit :: "char \<Rightarrow> bool" where
  "dec_digit c \<longleftrightarrow> 48 \<le> (of_char c :: nat) \<and> (of_char c :: nat) \<le> 57"

fun dec_value :: "nat \<Rightarrow> string \<Rightarrow> nat" where
  "dec_value a [] = a"
| "dec_value a (c # cs) = dec_value (10 * a + (of_char c - 48)) cs"

lemma dec_value_shift: "dec_value a s = a * 10 ^ length s + dec_value 0 s"
proof (induction s arbitrary: a)
  case (Cons c s)
  show ?case
    using Cons.IH [of "10 * a + (of_char c - 48)"] Cons.IH [of "of_char c - 48"]
    by (simp add: algebra_simps)
qed simp

lemma digits_nth: "d < 10 \<Longrightarrow> dec_digit (digits ! d) \<and> of_char (digits ! d) = 48 + d"
proof -
  assume "d < 10"
  then have "d \<in> {0, 1, 2, 3, 4, 5, 6, 7, 8, 9}" by auto
  then show ?thesis by (auto simp: digits_def dec_digit_def)
qed

lemma length_digits [simp]: "length digits = 11"
  by (simp add: digits_def)

lemma digit_Some: "unat v < 10 \<Longrightarrow> digit v = Some (digits ! unat v)"
  by (simp add: digit_def)

lemma pad_loop_value:
  "\<exists>s. pad_loop k v acc = s @ acc \<and> length s = k \<and> (\<forall>c \<in> set s. dec_digit c) \<and>
     dec_value 0 s = unat v mod 10 ^ k"
proof (induction k arbitrary: v acc)
  case (Suc k)
  let ?c = "digits ! unat (v mod 10)"
  from Suc.IH [of "v div 10" "?c # acc"] obtain s where s:
    "pad_loop k (v div 10) (?c # acc) = s @ ?c # acc" "length s = k" "\<forall>c \<in> set s. dec_digit c"
    "dec_value 0 s = unat (v div 10) mod 10 ^ k" by blast
  have c: "dec_digit ?c" "of_char ?c = 48 + unat v mod 10"
    using digits_nth [of "unat (v mod 10)"] by (simp_all add: unat_mod)
  have "dec_value 0 (s @ [?c]) = 10 * dec_value 0 s + (of_char ?c - 48)"
  proof -
    have "dec_value a (s @ [x]) = 10 * dec_value a s + (of_char x - 48)" for a and x :: char
      by (induction s arbitrary: a) simp_all
    then show ?thesis .
  qed
  also have "\<dots> = unat v mod 10 ^ Suc k"
    using s(4) c(2) by (simp add: unat_div mod_mult2_eq)
  finally show ?case
    using s c by (intro exI [of _ "s @ [?c]"]) auto
qed simp

lemma max_values_pow: "i \<le> 9 \<Longrightarrow> unat (max_values ! i) = 10 ^ i"
proof -
  assume "i \<le> 9"
  then have "i \<in> {0, 1, 2, 3, 4, 5, 6, 7, 8, 9}" by auto
  then show ?thesis by (auto simp: max_values_def)
qed

lemma emit_loop_value:
  "i \<le> 9 \<Longrightarrow> unat v < 10 ^ Suc i \<Longrightarrow>
   \<exists>s. emit_loop i v = Some s \<and> length s = Suc i \<and> (\<forall>c \<in> set s. dec_digit c) \<and>
     dec_value 0 s = unat v \<and> (10 ^ i \<le> unat v \<longrightarrow> hd s \<noteq> CHR ''0'')"
proof (induction i arbitrary: v)
  case 0
  then have v: "unat v < 10" by simp
  have "max_values ! 0 = 1" by (simp add: max_values_def)
  with v digits_nth [OF v] show ?case by (auto simp: digit_Some)
next
  case (Suc i)
  let ?m = "max_values ! Suc i" and ?d = "v div max_values ! Suc i"
  have m: "unat ?m = 10 ^ Suc i" using max_values_pow Suc.prems(1) by blast
  have d: "unat ?d = unat v div 10 ^ Suc i" by (simp only: unat_div m)
  have "unat v div 10 ^ Suc i < 10" using Suc.prems(2) by (simp add: less_mult_imp_div_less)
  then have d10: "unat ?d < 10" by (simp only: d)
  have r: "unat (v mod ?m) = unat v mod 10 ^ Suc i" by (simp only: unat_mod m)
  have "unat (v mod ?m) < 10 ^ Suc i" by (simp only: r) simp
  from Suc.IH [OF _ this] Suc.prems(1) obtain s where s: "emit_loop i (v mod ?m) = Some s" "length s = Suc i"
    "\<forall>c \<in> set s. dec_digit c" "dec_value 0 s = unat v mod 10 ^ Suc i" using r by auto
  let ?c = "digits ! unat ?d"
  have c: "dec_digit ?c" "of_char ?c = 48 + unat v div 10 ^ Suc i"
    using digits_nth [OF d10] by (simp_all only: d)
  have "dec_value 0 (?c # s) = (of_char ?c - 48) * 10 ^ length s + dec_value 0 s"
    using dec_value_shift [of "of_char ?c - 48" s] by simp
  also have "\<dots> = unat v"
    using s(2,4) c(2) div_mult_mod_eq [of "unat v" "10 ^ Suc i"] by (simp del: power_Suc)
  finally have val: "dec_value 0 (?c # s) = unat v" .
  have nz: "?c \<noteq> CHR ''0''" if "10 ^ Suc i \<le> unat v"
  proof
    assume "?c = CHR ''0''"
    with c(2) have "unat v div 10 ^ Suc i = 0" by simp
    with that show False by (simp add: div_eq_0_iff)
  qed
  show ?case
    using s c val nz by (simp add: digit_Some [OF d10])
qed

lemma max_index_spec:
  "num \<le> 9 \<Longrightarrow> v \<noteq> 0 \<Longrightarrow> max_index num v \<le> num \<and> 10 ^ max_index num v \<le> unat v \<and>
   (unat v < 10 ^ Suc num \<longrightarrow> unat v < 10 ^ Suc (max_index num v))"
proof (induction num)
  case 0
  then show ?case by (simp add: unat_gt_0 Suc_le_eq)
next
  case (Suc n)
  have m: "unat (max_values ! Suc n) = 10 ^ Suc n" using max_values_pow Suc.prems(1) by blast
  show ?case
  proof (cases "max_values ! Suc n > v")
    case True
    then have "unat v < 10 ^ Suc n" using m by (simp add: word_less_nat_alt)
    with True Suc show ?thesis by auto
  next
    case False
    then have "10 ^ Suc n \<le> unat v" using m by (simp add: word_less_nat_alt)
    with False show ?thesis by simp
  qed
qed

text \<open>
  \<open>is_decimal s n\<close>: \<open>s\<close> is the decimal notation of \<open>n\<close>, without leading zeros.
\<close>

definition is_decimal :: "string \<Rightarrow> nat \<Rightarrow> bool" where
  "is_decimal s n \<longleftrightarrow> s \<noteq> [] \<and> (\<forall>c \<in> set s. dec_digit c) \<and> dec_value 0 s = n \<and>
     (hd s = CHR ''0'' \<longrightarrow> s = ''0'')"

lemma num_to_str_plain:
  assumes "num \<le> 9" "unat v < 10 ^ num"
  shows "\<exists>s. clog_num_to_str v num False = Some s \<and> is_decimal s (unat v) \<and> length s \<le> max 1 num"
proof (cases "v = 0")
  case True
  then show ?thesis by (auto simp: clog_num_to_str_def is_decimal_def dec_digit_def)
next
  case False
  let ?i = "max_index num v"
  have "unat v < 10 ^ Suc num" using assms(2) by simp
  with False max_index_spec [OF assms(1), of v] have i: "?i \<le> num" "10 ^ ?i \<le> unat v" "unat v < 10 ^ Suc ?i"
    by auto
  from i(2) assms(2) have "(10::nat) ^ ?i < 10 ^ num" by linarith
  then have "?i < num" by simp
  moreover from emit_loop_value [OF _ i(3)] i(1,2) assms(1) obtain s where
    "emit_loop ?i v = Some s" "length s = Suc ?i" "\<forall>c \<in> set s. dec_digit c" "dec_value 0 s = unat v"
    "hd s \<noteq> CHR ''0''" by auto
  ultimately show ?thesis using False by (auto simp: clog_num_to_str_def is_decimal_def)
qed

lemma num_to_str_tid:
  assumes "unat v < 10 ^ 9"
  shows "clog_num_to_str v 10 False = clog_num_to_str v 9 False"
proof (cases "v = 0")
  case False
  have "max_values ! 10 = max_values ! 9" by (simp add: max_values_def)
  moreover have "unat (max_values ! 9) = 10 ^ 9" by (rule max_values_pow) simp
  ultimately have "max_values ! Suc 9 > v" using assms by (simp add: word_less_nat_alt)
  then have "max_index 10 v = max_index 9 v" using max_index.simps(2) [of 9 v] by simp
  then show ?thesis by (simp add: clog_num_to_str_def)
qed (simp add: clog_num_to_str_def)

lemma num_to_str_tid_wide:
  assumes "10 ^ 9 \<le> unat v"
  shows "\<exists>d s. clog_num_to_str v 10 False = Some (d # CHR ''0'' # s) \<and> length s = 9 \<and>
    is_decimal (d # s) (unat v)"
proof -
  have e: "max_values ! 10 = max_values ! 9" by (simp add: max_values_def)
  have u: "unat (max_values ! 9) = 10 ^ 9" by (rule max_values_pow) simp
  have "\<not> max_values ! Suc 9 > v" using assms e u by (simp add: word_less_nat_alt)
  then have i: "max_index 10 v = 10" using max_index.simps(2) [of 9 v] by simp
  let ?d = "v div max_values ! 9" and ?r = "v mod max_values ! 9"
  have d: "unat ?d = unat v div 10 ^ 9" by (simp only: unat_div u)
  have r: "unat ?r = unat v mod 10 ^ 9" by (simp only: unat_mod u)
  have "unat v < 2 ^ 32" using unsigned_less [of v] by simp
  then have d10: "unat ?d < 10" "unat ?d \<noteq> 0" using assms by (simp_all add: d div_eq_0_iff)
  have r9: "unat ?r < 10 ^ Suc 8" by (simp add: r)
  from emit_loop_value [OF _ r9] obtain s where s: "emit_loop 8 ?r = Some s" "length s = 9"
    "\<forall>c \<in> set s. dec_digit c" "dec_value 0 s = unat ?r" by auto
  have "unat (?r div max_values ! 9) = 0" by (simp only: unat_div u r) simp
  then have z: "?r div max_values ! 9 = 0" by (simp only: unat_eq_zero)
  have zm: "?r mod max_values ! 9 = ?r"
    by (simp only: word_unat_eq_iff unat_mod u r) simp
  have z0: "digit 0 = Some CHR ''0''" by (simp add: digit_def digits_def)
  have nine: "emit_loop 9 ?r = Some (CHR ''0'' # s)"
  proof -
    show ?thesis using emit_loop.simps(2) [of 8 ?r] s(1) z z0 zm by simp
  qed
  let ?c = "digits ! unat ?d"
  have "emit_loop 10 v = Some (?c # CHR ''0'' # s)"
    using emit_loop.simps(2) [of 9 v] nine e digit_Some [OF d10(1)] by simp
  then have f: "clog_num_to_str v 10 False = Some (?c # CHR ''0'' # s)"
    using i assms by (auto simp: clog_num_to_str_def)
  have c: "dec_digit ?c" "of_char ?c = 48 + unat ?d" using digits_nth [OF d10(1)] by auto
  have "dec_value 0 (?c # s) = unat ?d * 10 ^ length s + dec_value 0 s"
    using dec_value_shift [of "of_char ?c - 48" s] c(2) by simp
  also have "\<dots> = unat v" using s(2,4) d r by simp
  finally have "dec_value 0 (?c # s) = unat v" .
  moreover have "?c \<noteq> CHR ''0''" using c(2) d10(2) by auto
  ultimately have "is_decimal (?c # s) (unat v)"
    using s(3) c(1) by (simp add: is_decimal_def)
  with f s(2) show ?thesis by blast
qed

subsection \<open>The default map\<close>

lemma put_placeholders_spec:
  assumes "string_inv hm" "\<And>i. grants m i" "\<forall>(nm, f) \<in> set ps. CHR 0x00 \<notin> set nm"
  shows "\<exists>hm' m'. put_placeholders ps hm m = (Some hm', m') \<and> string_inv hm' \<and>
    hm_abs cstr hm' = hm_abs cstr hm ++ map_of (rev ps) \<and> (\<forall>i. grants m' i)"
  using assms
proof (induction ps hm m rule: put_placeholders.induct)
  case (2 name f ps hm m)
  obtain ret hm1 m1 where p: "put_nn hm (cstr_bytes name) f m = (ret, hm1, m1)" by (metis surj_pair)
  have g: "ret = CLOG_SUCCESS" "grants m1 = grants m"
    using string_put_granted [OF _ 2(3) p] 2(2) by (simp_all add: hm_inv_def)
  have "cstr (cstr_bytes name) = name" using 2(4) by (intro cstr_cstr_bytes) auto
  with string_keys.put_spec [OF 2(2) _ p] g(1) have
    h: "string_inv hm1" "hm_abs cstr hm1 = (hm_abs cstr hm)(name \<mapsto> f)" by simp_all
  have "\<exists>hm' m'. put_placeholders ps hm1 m1 = (Some hm', m') \<and> string_inv hm' \<and>
      hm_abs cstr hm' = hm_abs cstr hm1 ++ map_of (rev ps) \<and> (\<forall>i. grants m' i)"
    by (rule "2.IH" [OF p [symmetric] refl]) (use 2 g h in auto)
  moreover have "hm_abs cstr hm ++ map_of (rev ((name, f) # ps)) = hm_abs cstr hm1 ++ map_of (rev ps)"
    by (simp add: h(2) map_add_def fun_eq_iff split: option.splits)
  ultimately show ?case using p g(1) by simp
qed auto

definition default_map :: "string \<Rightarrow> clog_item_wrapper handler option" where
  "default_map = map_of default_placeholders"

lemma default_map_create:
  fixes m :: "'m mem_scheme"
  assumes "\<And>i. grants m i"
  obtains hm m' where "clog_log_format_default_placeholder_map_create m = (Some hm, m')"
    "string_inv hm" "hm_abs cstr hm = default_map" "\<And>i. grants m' i"
proof -
  obtain hm0 :: "(clog_item_wrapper handler, 'm) clog_hashmap" and m0 where
    c: "string_create sizeof_handler 0 m = (Some hm0, m0)" "\<And>i. grants m0 i"
    using assms
    by (auto simp: clog_hashmap_create_def clog_hashmap_create_empty_buckets_def clog_malloc_def
        sizeof_hashmap_def sizeof_entry_def)
  have h: "string_inv hm0" "hm_abs cstr hm0 = Map.empty"
    using string_create_inv [OF c(1)] by (simp_all add: sizeof_handler_def)
  have "\<forall>(nm, f) \<in> set default_placeholders. CHR 0x00 \<notin> set nm"
    by (simp add: default_placeholders_def)
  from put_placeholders_spec [OF h(1) c(2) this] obtain hm m' where
    p: "put_placeholders default_placeholders hm0 m0 = (Some hm, m')" "string_inv hm"
      "hm_abs cstr hm = map_of (rev default_placeholders)" "\<forall>i. grants m' i"
    using h(2) by auto
  have "map_of (rev default_placeholders) = default_map"
    by (rule ext) (simp add: default_map_def default_placeholders_def)
  with p c(1) show ?thesis
    by (intro that [of hm m']) (simp_all add: clog_log_format_default_placeholder_map_create_def)
qed

subsection \<open>The text of an item\<close>

text \<open>
  What each default placeholder stands for, and what a printed list of parts becomes: numbers are
  given by \<open>clog_num_to_str\<close>, whose results are decimal.
\<close>

definition num_text :: "32 word \<Rightarrow> nat \<Rightarrow> bool \<Rightarrow> string" where
  "num_text v num is_padding = the (clog_num_to_str v num is_padding)"

definition name_texts :: "clog_item_wrapper \<Rightarrow> (string \<times> string) list" where
  "name_texts w = (let i = wr_log w in
     [(''_year'', num_text (ucast (it_year i)) 4 True), (''_month'', num_text (ucast (it_month i)) 2 True),
      (''_day'', num_text (ucast (it_day i)) 2 True), (''_hour'', num_text (ucast (it_hour i)) 2 True),
      (''_minute'', num_text (ucast (it_minute i)) 2 True),
      (''_second'', num_text (ucast (it_second i)) 2 True),
      (''_millisecond'', num_text (ucast (it_millisecond i)) 3 True),
      (''_process'', wr_process w), (''_module'', wr_module w),
      (''_tid'', num_text (ucast (it_tid i)) 10 False), (''_file'', wr_filename w),
      (''_line'', num_text (it_line i) 6 False), (''_content'', the (wr_text w)),
      (''_level'', wr_tag w), (''_ln'', [CHR 0x0A])])"

definition part_text :: "clog_item_wrapper \<Rightarrow> part \<Rightarrow> string" where
  "part_text w p = (case p of Lit t \<Rightarrow> t | Name nm \<Rightarrow> the (map_of (name_texts w) nm))"

definition ordinary_item :: "clog_item_wrapper \<Rightarrow> bool" where
  "ordinary_item w \<longleftrightarrow> wr_text w \<noteq> None \<and> unat (it_line (wr_log w)) < 10 ^ 6 \<and>
     unat (ucast (it_tid (wr_log w)) :: 32 word) < 10 ^ 9"

lemma string_copy_fits: "i + length s \<le> n \<Longrightarrow> string_copy_loop s i n = s"
  by (induction s arbitrary: i) auto

lemma num_out:
  assumes "clog_num_to_str (field (wr_log w)) num pad = Some s" "s \<noteq> []" "length s \<le> num" "num \<le> n"
  shows "segment_out (Handle (num_placeholder field num pad)) w n = Some s"
  using assms by (simp add: num_placeholder_def)

lemma pad_out:
  assumes "0 < num" "num \<le> n"
  shows "segment_out (Handle (num_placeholder field num True)) w n =
    Some (num_text (field (wr_log w)) num True)"
proof -
  obtain s where s: "pad_loop num (field (wr_log w)) [] = s" "length s = num"
    using pad_loop_value [of num "field (wr_log w)" "[]"] by auto
  then have c: "clog_num_to_str (field (wr_log w)) num True = Some s" by (simp add: clog_num_to_str_def)
  have "s \<noteq> []" "length s \<le> num" using s(2) assms(1) by auto
  from num_out [of field, OF c this assms(2)] c show ?thesis by (simp add: num_text_def)
qed

lemma plain_out:
  assumes "num = 6 \<and> unat (field (wr_log w)) < 10 ^ 6 \<or> num = 10 \<and> unat (field (wr_log w)) < 10 ^ 9"
    and "10 \<le> n"
  shows "segment_out (Handle (num_placeholder field num False)) w n =
    Some (num_text (field (wr_log w)) num False)"
proof -
  obtain s where s: "clog_num_to_str (field (wr_log w)) num False = Some s" "s \<noteq> []" "length s \<le> num"
  proof (cases "num = 6")
    case True
    with assms num_to_str_plain [of 6 "field (wr_log w)"] that show ?thesis
      by (auto simp: is_decimal_def)
  next
    case False
    with assms num_to_str_plain [of 9 "field (wr_log w)"] num_to_str_tid [of "field (wr_log w)"] that
    show ?thesis by (auto simp: is_decimal_def)
  qed
  from num_out [of field, OF s] s(1) assms show ?thesis by (auto simp: num_text_def)
qed

lemma copy_out:
  "s \<noteq> [] \<Longrightarrow> length s \<le> n \<Longrightarrow> (\<And>n. f w n = Some (clog_placeholder_string_copy s n)) \<Longrightarrow>
   segment_out (Handle f) w n = Some s"
  by (simp add: clog_placeholder_string_copy_def Let_def string_copy_fits)

lemma content_out:
  "wr_text w = Some t \<Longrightarrow> t \<noteq> [] \<Longrightarrow> length t < n \<Longrightarrow>
   segment_out (Handle clog_placeholder_content) w n = Some t"
  by (simp add: clog_placeholder_content_def strcpy_bytes_fits)

definition gives :: "clog_item_wrapper \<Rightarrow> nat \<Rightarrow> string \<times> clog_item_wrapper handler \<Rightarrow> string \<times> string \<Rightarrow> bool" where
  "gives w n = (\<lambda>(nm, f) (nm', t). nm = nm' \<and>
     (t \<noteq> [] \<and> length t + 10 \<le> n \<longrightarrow> segment_out (Handle f) w n = Some t))"

lemma gives_pad:
  "0 < num \<Longrightarrow> num \<le> 10 \<Longrightarrow>
   gives w n (nm, num_placeholder field num True) (nm, num_text (field (wr_log w)) num True)"
  by (simp add: gives_def pad_out del: segment_out.simps)

lemma gives_plain:
  "num = 6 \<and> unat (field (wr_log w)) < 10 ^ 6 \<or> num = 10 \<and> unat (field (wr_log w)) < 10 ^ 9 \<Longrightarrow>
   gives w n (nm, num_placeholder field num False) (nm, num_text (field (wr_log w)) num False)"
  by (simp add: gives_def plain_out del: segment_out.simps)

lemma gives_copy:
  "(\<And>n. f w n = Some (clog_placeholder_string_copy s n)) \<Longrightarrow> gives w n (nm, f) (nm, s)"
  by (simp add: gives_def copy_out del: segment_out.simps)

lemma gives_all:
  assumes "ordinary_item w"
  shows "list_all2 (gives w n) default_placeholders (name_texts w)"
proof -
  from assms obtain x where x: "wr_text w = Some x" by (auto simp: ordinary_item_def)
  have ln: "gives w n (nm, clog_placeholder_ln) (nm, [CHR 0x0A])" for nm
    by (simp add: gives_def clog_placeholder_ln_def)
  have ct: "gives w n (nm, clog_placeholder_content) (nm, the (wr_text w))" for nm
    by (simp add: gives_def x content_out del: segment_out.simps)
  show ?thesis
    unfolding default_placeholders_def name_texts_def Let_def
      clog_placeholder_year_def clog_placeholder_month_def clog_placeholder_day_def
      clog_placeholder_hour_def clog_placeholder_minute_def clog_placeholder_second_def
      clog_placeholder_millisecond_def clog_placeholder_line_def clog_placeholder_tid_def
    using assms
    by (intro list.rel_intros gives_pad gives_plain ln ct
        gives_copy [OF clog_placeholder_process_def] gives_copy [OF clog_placeholder_module_def]
        gives_copy [OF clog_placeholder_file_def] gives_copy [OF clog_placeholder_level_def])
      (simp_all add: ordinary_item_def)
qed

lemma name_out:
  assumes "ordinary_item w" "map_of (name_texts w) nm = Some t" "t \<noteq> []" "length t + 10 \<le> n"
  shows "\<exists>f. default_map nm = Some f \<and> segment_out (Handle f) w n = Some t"
proof -
  note all = gives_all [OF assms(1), of n]
  from assms(2) obtain i where i: "i < length (name_texts w)" "name_texts w ! i = (nm, t)"
    by (metis in_set_conv_nth map_of_SomeD)
  with all have l: "i < length default_placeholders" by (simp add: list_all2_lengthD)
  obtain nm' f where f: "default_placeholders ! i = (nm', f)" by (metis surj_pair)
  from list_all2_nthD2 [OF all i(1)] i(2) f assms(3,4)
  have "nm' = nm" "segment_out (Handle f) w n = Some t"
    by (simp_all add: gives_def del: segment_out.simps)
  moreover have "distinct (map fst default_placeholders)" by (simp add: default_placeholders_def)
  then have "default_map nm' = Some f"
    using f l nth_mem [OF l] by (simp add: default_map_def)
  ultimately show ?thesis by auto
qed

lemma name_texts_copy: "name_texts (copy_names w) = name_texts w"
  by (simp add: name_texts_def copy_names_def Let_def)

lemma ordinary_copy: "ordinary_item (copy_names w) = ordinary_item w"
  by (simp add: ordinary_item_def copy_names_def Let_def)

definition known_part :: "clog_item_wrapper \<Rightarrow> part \<Rightarrow> bool" where
  "known_part w p \<longleftrightarrow> (case p of Lit t \<Rightarrow> t \<noteq> [] | Name nm \<Rightarrow> (\<exists>t. map_of (name_texts w) nm = Some t \<and> t \<noteq> []))"

lemma parts_out:
  assumes "ordinary_item w" "\<forall>p \<in> set ps. known_part w p"
    "length (concat (map (part_text w) ps)) + 10 \<le> n"
  shows "segments_out (map (segment_of default_map) ps) w n = Some (concat (map (part_text w) ps))"
  using assms(2,3)
proof (induction ps arbitrary: n)
  case (Cons p ps)
  have seg: "segment_out (segment_of default_map p) w n = Some (part_text w p)"
  proof (cases p)
    case (Lit t)
    with Cons.prems show ?thesis by (simp add: segment_of_def part_text_def known_part_def)
  next
    case (Name nm)
    with Cons.prems(1) obtain t where t: "map_of (name_texts w) nm = Some t" "t \<noteq> []"
      by (auto simp: known_part_def)
    with name_out [OF assms(1) t, of n] Cons.prems(2) Name show ?thesis
      by (auto simp: segment_of_def part_text_def simp del: segment_out.simps)
  qed
  have "segments_out (map (segment_of default_map) ps) w (n - length (part_text w p)) =
      Some (concat (map (part_text w) ps))"
    by (rule Cons.IH) (use Cons.prems in auto)
  with seg show ?case by simp
qed simp

subsection \<open>Properties\<close>

text \<open>
  Numbers are written in decimal: a padded field has exactly its width and the value's last
  digits, and an unpadded one is the shortest decimal notation of the value and stays within
  its width, for every value that has at most that many digits (for the thread's number, with
  its width of 10, at most 9).
\<close>
theorem clog_num_to_str_decimal:
  assumes "0 < num" "num \<le> 9 \<and> unat v < 10 ^ num \<or> num = 10 \<and> unat v < 10 ^ 9"
  shows "(\<exists>s. clog_num_to_str v num True = Some s \<and> length s = num \<and> (\<forall>c \<in> set s. dec_digit c) \<and>
      dec_value 0 s = unat v) \<and>
    (\<exists>s. clog_num_to_str v num False = Some s \<and> length s \<le> num \<and> is_decimal s (unat v))"
proof -
  from assms(2) have "unat v < 10 ^ num" by auto
  then have "\<exists>s. clog_num_to_str v num True = Some s \<and> length s = num \<and> (\<forall>c \<in> set s. dec_digit c) \<and>
      dec_value 0 s = unat v"
    using pad_loop_value [of num v "[]"] by (auto simp: clog_num_to_str_def)
  moreover have "\<exists>s. clog_num_to_str v num False = Some s \<and> length s \<le> num \<and> is_decimal s (unat v)"
  proof (cases "num = 10")
    case True
    with assms num_to_str_plain [of 9 v] num_to_str_tid [of v] show ?thesis by auto
  next
    case False
    with assms num_to_str_plain [of num v] show ?thesis by auto
  qed
  ultimately show ?thesis by blast
qed

lemma clog_num_to_str_decimal_witness:
  "clog_num_to_str 7 3 True = Some ''007'' \<and> is_decimal (the (clog_num_to_str 407 6 False)) 407"
proof -
  have "clog_num_to_str 7 3 True = Some ''007''"
    by (simp add: clog_num_to_str_def digits_def numeral_3_eq_3)
  with clog_num_to_str_decimal [of 6 407] show ?thesis by auto
qed

text \<open>
  A thread number of ten digits is not written in decimal: the table repeats its last entry,
  so a 0 appears after the first digit, and eleven characters are written although the
  placeholder only asks for room for ten.
\<close>
theorem clog_placeholder_tid_wide:
  assumes "10 ^ 9 \<le> unat (ucast (it_tid (wr_log w)) :: 32 word)"
  shows "\<exists>d s. clog_placeholder_tid w 10 = Some (d # CHR ''0'' # s, Inr 11) \<and>
    is_decimal (d # s) (unat (ucast (it_tid (wr_log w)) :: 32 word))"
  using num_to_str_tid_wide [OF assms]
  by (fastforce simp: clog_placeholder_tid_def num_placeholder_def)

definition ex_item :: clog_item where
  "ex_item = \<lparr>it_magic = CASCA_LOG_MAGIC, it_version = CASCA_LOG_VERSION, it_recorder = [1, 0, 0, 0],
     it_process = [], it_module = [], it_filename = [], it_tid = 4000000001, it_line = 12, it_level = 3,
     it_year = 2026, it_month = 3, it_day = 4, it_hour = 5, it_minute = 6, it_second = 7,
     it_millisecond = 89, it_timestamp = 0, it_length = 0, it_content = []\<rparr>"

definition ex_wrapper :: clog_item_wrapper where
  "ex_wrapper = \<lparr>wr_process = ''p'', wr_module = ''m'', wr_filename = ''f.c'', wr_function = ''g'',
     wr_tag = ''I'', wr_text = Some ''hello'', wr_log = ex_item\<rparr>"

lemma clog_placeholder_tid_wide_witness:
  "\<exists>d s. clog_placeholder_tid ex_wrapper 10 = Some (d # CHR ''0'' # s, Inr 11)"
  using clog_placeholder_tid_wide [of ex_wrapper] by (auto simp: ex_wrapper_def ex_item_def)

text \<open>
  C17. A format of literal text and default placeholders is printed faithfully: on the default map
  it parses, and an item whose text fits (with ten characters to spare) is written to the buffer
  as the concatenation of the literal texts and the item's fields, terminated, with its length.
\<close>
theorem clog_format_log_text:
  fixes m :: "'m mem_scheme"
  assumes "ordinary_item w" "printable ps" "\<forall>p \<in> set ps. known_part w p" "ps \<noteq> []"
    and "length (concat (map (part_text w) ps)) + 10 \<le> n" "n < 2 ^ 64" "length buf = n"
    and "\<And>i. grants m i"
  shows "\<exists>hm m1 root c' m2 b.
    clog_log_format_default_placeholder_map_create m = (Some hm, m1) \<and>
    clog_interpolator_parse (Some \<lparr>ic_is_map_allocated = False, ic_map = hm\<rparr>) (Some (format_of ps)) m1 =
      Some (CLOG_SUCCESS, root, Some c', m2) \<and>
    clog_format_log root (Some w) (Some buf) n True =
      Some (CLOG_SUCCESS, Some (copy_names w), Some b, Some (length (concat (map (part_text w) ps)))) \<and>
    take (length (concat (map (part_text w) ps))) b = concat (map (part_text w) ps) \<and>
    b ! length (concat (map (part_text w) ps)) = CHR 0x00"
proof -
  let ?t = "concat (map (part_text w) ps)"
  let ?ss = "map (segment_of default_map) ps"
  obtain hm m1 where hm: "clog_log_format_default_placeholder_map_create m = (Some hm, m1)"
    "string_inv hm" "hm_abs cstr hm = default_map" "\<And>i. grants m1 i"
    by (rule default_map_create [OF assms(8)], rule that)
  let ?c = "\<lparr>ic_is_map_allocated = False, ic_map = hm\<rparr>"
  have reg: "\<forall>p \<in> set ps. registered default_map p"
  proof
    fix p assume "p \<in> set ps"
    with assms(3) have "known_part w p" by simp
    then show "registered default_map p"
    proof (cases p)
      case (Name nm)
      with \<open>known_part w p\<close> obtain t where "map_of (name_texts w) nm = Some t" "t \<noteq> []"
        by (auto simp: known_part_def)
      from name_out [OF assms(1) this, of "length t + 10"] Name show ?thesis
        by (auto simp: registered_def)
    qed (simp add: registered_def)
  qed
  from parse_print [of ?c, OF _ _ hm(4) assms(2) reg] hm(2,3) obtain c' m2 where
    parse: "clog_interpolator_parse (Some ?c) (Some (format_of ps)) m1 =
      Some (CLOG_SUCCESS, Some (root_next ?ss), Some c', m2)" by auto
  have pt: "part_text (copy_names w) = part_text w" "known_part (copy_names w) = known_part w"
    by (rule ext, simp add: part_text_def known_part_def name_texts_copy split: part.split)+
  have "segments_out ?ss (copy_names w) n = Some ?t"
    using parts_out [of "copy_names w" ps n] assms(1,3,5) by (simp add: ordinary_copy pt)
  from interpolate_segments [OF this _ _ assms(6,7)] assms(4,5) obtain b where
    b: "clog_interpolator_interpolate (Some (root_next ?ss)) (copy_names w) (Some buf) n =
        Some (CLOG_SUCCESS, Some b, Some (length ?t))"
      "take (length ?t) b = ?t" "b ! length ?t = CHR 0x00" by auto
  have "clog_format_log (Some (root_next ?ss)) (Some w) (Some buf) n True =
      Some (CLOG_SUCCESS, Some (copy_names w), Some b, Some (length ?t))"
    using b(1) assms(5) by (simp add: clog_format_log_def Let_def)
  with hm(1) parse b(2,3) show ?thesis by blast
qed

definition ex_parts :: "part list" where
  "ex_parts = [Lit ''['', Name ''_level'', Lit ''] '', Name ''_content'', Name ''_ln'']"

definition ex_w :: clog_item_wrapper where
  "ex_w = ex_wrapper\<lparr>wr_log := ex_item\<lparr>it_tid := 7\<rparr>\<rparr>"

lemma ex_text: "concat (map (part_text ex_w) ex_parts) = ''[I] hello'' @ [CHR 0x0A]"
  by (simp add: ex_w_def ex_parts_def part_text_def name_texts_def ex_wrapper_def Let_def)

lemma ex_w_ok: "ordinary_item ex_w" "printable ex_parts" "\<forall>p \<in> set ex_parts. known_part ex_w p"
  "ex_parts \<noteq> []"
  by (simp_all add: ordinary_item_def ex_w_def ex_wrapper_def ex_item_def ex_parts_def
      clog_placeholder_is_name_valid_def known_part_def name_texts_def Let_def)

lemma clog_format_log_text_witness:
  "format_of ex_parts = ''[{_level}] {_content}{_ln}'' \<and>
   (\<exists>root b. clog_format_log root (Some ex_w) (Some (replicate 256 CHR ''?'')) 256 True =
      Some (CLOG_SUCCESS, Some (copy_names ex_w), Some b, Some 10) \<and>
      take 10 b = ''[I] hello'' @ [CHR 0x0A])"
proof -
  have len: "length (''[I] hello'' @ [CHR 0x0A]) = (10 :: nat)" by simp
  have g: "\<And>i. grants mem_ok i" by (simp add: mem_ok_def)
  have fit: "length (concat (map (part_text ex_w) ex_parts)) + 10 \<le> 256" "(256 :: nat) < 2 ^ 64"
    "length (replicate 256 CHR ''?'') = 256" by (simp_all only: ex_text len) simp_all
  have "format_of ex_parts = ''[{_level}] {_content}{_ln}''" by (simp add: ex_parts_def)
  with clog_format_log_text [OF ex_w_ok fit g, unfolded ex_text len] show ?thesis by blast
qed

text \<open>
  A message that does not fit makes the format of the README undefined: when \<open>{_content}\<close> is
  followed by \<open>{_ln}\<close> and the message is longer than the room left to it, \<open>vsnprintf\<close>'s length
  moves the offset past the end of the buffer and the line feed is written there.
\<close>
theorem clog_format_log_overflow:
  assumes "segments_out pre (copy_names w) n = Some u" "wr_text w = Some t"
    and "n \<le> length u + length t" "1 < n" "n < 2 ^ 64" "length buf = n"
  shows "clog_format_log (Some (root_next (pre @ [Handle clog_placeholder_content, Handle clog_placeholder_ln])))
    (Some w) (Some buf) n True = None"
proof -
  let ?post = "[Handle clog_placeholder_content, Handle clog_placeholder_ln]"
  from assms(1) have "segments_out pre (copy_names w) (n - 0) = Some u" by simp
  from interpolate_loop_prefix [OF assms(5,6) _ this, of ?post] obtain b where
    b: "interpolate_loop (pre @ ?post) (copy_names w) n 0 buf =
        interpolate_loop ?post (copy_names w) n (length u) b" "length b = n" "length u < n" by auto
  have rm: "room n (length u) = n - length u" by (rule room_exact) (use b(3) assms(5) in auto)
  have wt: "wr_text (copy_names w) = Some t" using assms(2) by (simp add: copy_names_def Let_def)
  have len: "length (strcpy_bytes (n - length u) t) \<le> n - length u" by (rule strcpy_bytes_length)
  have "length u + length (strcpy_bytes (n - length u) t) \<le> length b" using len b(2,3) by simp
  from buf_write_ok [OF this] obtain b' where
    b': "buf_write (length u) (strcpy_bytes (n - length u) t) b = Some b'" "length b' = n"
    using b(2) by auto
  have "t \<noteq> []" using assms(3) b(3) by auto
  with b' rm wt assms(3) have "interpolate_loop ?post (copy_names w) n (length u) b = None"
    by (simp add: clog_placeholder_content_def clog_placeholder_ln_def buf_write_def [of "length u + length t"])
  with b(1) assms(4) show ?thesis
    by (simp add: clog_format_log_def clog_interpolator_interpolate_def root_next_def)
qed

lemma clog_format_log_overflow_witness:
  "clog_format_log (Some (root_next ([Pure ''> ''] @ [Handle clog_placeholder_content, Handle clog_placeholder_ln])))
     (Some ex_wrapper) (Some (replicate 7 CHR ''?'')) 7 True = None"
proof -
  have "segments_out [Pure ''> ''] (copy_names ex_wrapper) 7 = Some ''> ''" by simp
  from clog_format_log_overflow [OF this, of "''hello''" "replicate 7 CHR ''?''"] show ?thesis
    by (simp add: ex_wrapper_def)
qed

end
