(* ===== verification/Log_Filter.thy ===== *)
theory Log_Filter
  imports Formatter
begin

text \<open>
  Filters: clog_filter.c, clog_filter_keywords.c and the ordered insertion
  \<open>clog_add_filter_to_chain\<close> of casca_log_core.c.

  A chain is a linked list in a heap of filters; its head is the \<open>next\<close> of a filter embedded in
  the context, here an address. A filter function is given the filter's parameter and the item
  wrapper, \<open>None\<close> being undefined behaviour in it. A deallocator is a name, and what it does to
  the heap an argument of \<open>clog_filter_free\<close>. An access to a freed filter is \<open>None\<close>.
\<close>

subsection \<open>Filters\<close>

datatype clog_filter_type = CLOG_FILTER_PRE | CLOG_FILTER_POST | Filter_type_other

datatype clog_filter_res = CLOG_FILTER_CONTINUE | CLOG_FILTER_ACCEPT | CLOG_FILTER_REJECT

record ('p, 'f) clog_filter =
  fl_priority :: "32 word"
  fl_type :: clog_filter_type
  fl_filter :: "('p option \<Rightarrow> clog_item_wrapper \<Rightarrow> clog_filter_res option) option"
  fl_free :: "'f option"
  fl_param :: "'p option"
  fl_next :: addr

type_synonym ('p, 'f) fheap = "('p, 'f) clog_filter heap"

text \<open>
  The loop of \<open>clog_filter_free\<close> walks with \<open>head\<close> but looks at the parameter of \<open>filter\<close>, its
  argument.
\<close>

definition release_param ::
    "('f \<Rightarrow> 'p \<Rightarrow> ('p, 'f) fheap \<Rightarrow> ('p, 'f) fheap) \<Rightarrow> addr \<Rightarrow> ('p, 'f) fheap
     \<Rightarrow> ('p, 'f) fheap option" where
  "release_param dealloc a h = (case cells h a of
      None \<Rightarrow> None
    | Some f \<Rightarrow> (case fl_param f of
          None \<Rightarrow> Some h
        | Some p \<Rightarrow>
            hupd a (\<lambda>f. f\<lparr>fl_param := None\<rparr>)
              (case fl_free f of Some d \<Rightarrow> dealloc d p h | None \<Rightarrow> clog_free h)))"

partial_function (option) filter_free_loop ::
    "('f \<Rightarrow> 'p \<Rightarrow> ('p, 'f) fheap \<Rightarrow> ('p, 'f) fheap) \<Rightarrow> addr \<Rightarrow> addr \<Rightarrow> ('p, 'f) fheap
     \<Rightarrow> ('p, 'f) fheap option" where
  "filter_free_loop dealloc filt head h =
     (if head = NULL then Some h
      else case release_param dealloc filt h of
             None \<Rightarrow> None
           | Some h1 \<Rightarrow> (case cells h1 head of
                 None \<Rightarrow> None
               | Some f \<Rightarrow> (case hfree head h1 of
                     None \<Rightarrow> None
                   | Some h2 \<Rightarrow> filter_free_loop dealloc filt (fl_next f) h2)))"

definition clog_filter_free ::
    "('f \<Rightarrow> 'p \<Rightarrow> ('p, 'f) fheap \<Rightarrow> ('p, 'f) fheap) \<Rightarrow> addr \<Rightarrow> ('p, 'f) fheap
     \<Rightarrow> ('p, 'f) fheap option" where
  "clog_filter_free dealloc filt h = filter_free_loop dealloc filt filt h"

partial_function (option) filter_log_loop ::
    "('p, 'f) fheap \<Rightarrow> addr \<Rightarrow> clog_item_wrapper \<Rightarrow> bool option" where
  "filter_log_loop h filt w =
     (if filt = NULL then Some True
      else case cells h filt of
             None \<Rightarrow> None
           | Some f \<Rightarrow> (case fl_filter f of
                 None \<Rightarrow> Some False
               | Some fn \<Rightarrow> (case fn (fl_param f) w of
                     None \<Rightarrow> None
                   | Some res \<Rightarrow>
                       if res = CLOG_FILTER_ACCEPT then Some True
                       else if res = CLOG_FILTER_REJECT then Some False
                       else filter_log_loop h (fl_next f) w)))"

definition clog_filter_log ::
    "('p, 'f) fheap \<Rightarrow> addr \<Rightarrow> clog_item_wrapper option \<Rightarrow> bool option" where
  "clog_filter_log h filters wrapper = (case wrapper of
      None \<Rightarrow> Some True
    | Some w \<Rightarrow> filter_log_loop h filters w)"

subsection \<open>Insertion\<close>

text \<open>\<open>last\<close> is NULL while it stands for the embedded head.\<close>

partial_function (option) find_position ::
    "('p, 'f) fheap \<Rightarrow> 32 word \<Rightarrow> addr \<Rightarrow> addr \<Rightarrow> (addr \<times> addr) option" where
  "find_position h prio prev cur =
     (if cur = NULL then Some (prev, cur)
      else case cells h cur of
             None \<Rightarrow> None
           | Some f \<Rightarrow>
               if prio < fl_priority f then Some (prev, cur)
               else find_position h prio cur (fl_next f))"

definition clog_add_filter_to_chain ::
    "addr \<Rightarrow> addr \<Rightarrow> ('p, 'f) fheap \<Rightarrow> (addr \<times> ('p, 'f) fheap) option" where
  "clog_add_filter_to_chain head_next filt h = (case cells h filt of
      None \<Rightarrow> None
    | Some f \<Rightarrow> (case find_position h (fl_priority f) NULL head_next of
          None \<Rightarrow> None
        | Some (prev, cur) \<Rightarrow>
            if prev = NULL then map_option (\<lambda>h'. (filt, h')) (hupd filt (\<lambda>f. f\<lparr>fl_next := cur\<rparr>) h)
            else (case hupd prev (\<lambda>f. f\<lparr>fl_next := filt\<rparr>) h of
                    None \<Rightarrow> None
                  | Some h1 \<Rightarrow>
                      map_option (\<lambda>h'. (head_next, h')) (hupd filt (\<lambda>f. f\<lparr>fl_next := cur\<rparr>) h1))))"

subsection \<open>The keywords filter\<close>

fun strstr :: "string \<Rightarrow> string \<Rightarrow> bool" where
  "strstr s k = (take (length k) s = k \<or> (case s of [] \<Rightarrow> False | _ # t \<Rightarrow> strstr t k))"

declare strstr.simps [simp del]

definition clog_filter_keywords :: "string option \<Rightarrow> clog_item_wrapper \<Rightarrow> clog_filter_res option" where
  "clog_filter_keywords param item = (case param of
      None \<Rightarrow> None
    | Some k \<Rightarrow> Some (if strstr (it_content (wr_log item)) k then CLOG_FILTER_REJECT else CLOG_FILTER_CONTINUE))"

definition clog_filter_keywords_create ::
    "('f \<Rightarrow> string \<Rightarrow> (string, 'f) fheap \<Rightarrow> (string, 'f) fheap) \<Rightarrow> 'f \<Rightarrow> 32 word \<Rightarrow> string option
     \<Rightarrow> (string, 'f) fheap \<Rightarrow> (addr \<times> (string, 'f) fheap) option" where
  "clog_filter_keywords_create dealloc clog_sys_free priority keywords h = (case keywords of
      None \<Rightarrow> Some (NULL, h)
    | Some k \<Rightarrow>
        (let (a, h1) = halloc \<lparr>fl_priority = priority, fl_type = CLOG_FILTER_POST,
               fl_filter = Some clog_filter_keywords, fl_free = Some clog_sys_free, fl_param = None,
               fl_next = NULL\<rparr> h
         in if a = NULL then Some (NULL, h1)
            else case clog_strdup (Some k) h1 of
              (None, h2) \<Rightarrow> map_option (\<lambda>h3. (NULL, h3)) (clog_filter_free dealloc a h2)
            | (Some s, h2) \<Rightarrow> map_option (\<lambda>h3. (a, h3)) (hupd a (\<lambda>f. f\<lparr>fl_param := Some s\<rparr>) h2)))"

lemma strstr_iff: "strstr s k \<longleftrightarrow> (\<exists>a b. s = a @ k @ b)"
proof (induction s k rule: strstr.induct)
  case (1 s k)
  have now: "take (length k) s = k \<longleftrightarrow> (\<exists>b. s = k @ b)"
    by (metis append_eq_conv_conj append_take_drop_id)
  show ?case
  proof (cases s)
    case Nil
    then show ?thesis by (auto simp: strstr.simps [of "[]"])
  next
    case (Cons c t)
    have "strstr s k \<longleftrightarrow> (\<exists>b. s = k @ b) \<or> (\<exists>a b. t = a @ k @ b)"
      using 1 [OF Cons] now Cons by (simp add: strstr.simps [of "c # t"])
    also have "\<dots> \<longleftrightarrow> (\<exists>a b. s = a @ k @ b)"
      using Cons by (metis append_Cons append_Nil list.exhaust list.inject)
    finally show ?thesis .
  qed
qed

subsection \<open>Chains\<close>

text \<open>\<open>filter_seg C a xs b\<close>: the filters \<open>xs\<close> are linked from \<open>a\<close> and the last one leads to \<open>b\<close>.\<close>

fun filter_seg ::
    "(addr \<Rightarrow> ('p, 'f) clog_filter option) \<Rightarrow> addr \<Rightarrow> addr list \<Rightarrow> addr \<Rightarrow> bool" where
  "filter_seg C a [] b = (a = b)"
| "filter_seg C a (x # xs) b =
     (a = x \<and> x \<noteq> NULL \<and> (case C x of None \<Rightarrow> False | Some f \<Rightarrow> filter_seg C (fl_next f) xs b))"

definition filter_chain :: "('p, 'f) fheap \<Rightarrow> addr \<Rightarrow> addr list \<Rightarrow> bool" where
  "filter_chain h a xs \<longleftrightarrow> filter_seg (cells h) a xs NULL \<and> distinct xs"

definition prio :: "('p, 'f) fheap \<Rightarrow> addr \<Rightarrow> 32 word" where
  "prio h x = (case cells h x of None \<Rightarrow> 0 | Some f \<Rightarrow> fl_priority f)"

lemma filter_seg_append:
  "filter_seg C a (xs @ ys) b \<longleftrightarrow> (\<exists>m. filter_seg C a xs m \<and> filter_seg C m ys b)"
  by (induction xs arbitrary: a) (auto split: option.splits)

lemma filter_seg_frame:
  "\<forall>x \<in> set xs. C' x = C x \<Longrightarrow> filter_seg C' a xs b \<longleftrightarrow> filter_seg C a xs b"
  by (induction xs arbitrary: a) (auto split: option.splits)

lemma filter_seg_null: "filter_seg C NULL xs b \<longleftrightarrow> xs = [] \<and> b = NULL"
  by (cases xs) auto

lemma filter_seg_mem: "filter_seg C a xs b \<Longrightarrow> x \<in> set xs \<Longrightarrow> C x \<noteq> None"
  by (induction xs arbitrary: a) (auto split: option.splits)

lemma find_position_spec:
  assumes "filter_seg (cells h) cur xs NULL"
  shows "\<exists>c. find_position h p prev cur =
      Some (if takeWhile (\<lambda>x. prio h x \<le> p) xs = [] then prev else last (takeWhile (\<lambda>x. prio h x \<le> p) xs), c) \<and>
    filter_seg (cells h) cur (takeWhile (\<lambda>x. prio h x \<le> p) xs) c \<and>
    filter_seg (cells h) c (dropWhile (\<lambda>x. prio h x \<le> p) xs) NULL"
  using assms
proof (induction xs arbitrary: prev cur)
  case Nil
  then show ?case by (subst find_position.simps) simp
next
  case (Cons x xs)
  then obtain f where f: "cur = x" "x \<noteq> NULL" "cells h x = Some f" "filter_seg (cells h) (fl_next f) xs NULL"
    by (auto split: option.splits)
  show ?case
  proof (cases "p < fl_priority f")
    case True
    with f show ?thesis by (subst find_position.simps) (auto simp: prio_def not_le)
  next
    case False
    with f have w: "takeWhile (\<lambda>x. prio h x \<le> p) (x # xs) = x # takeWhile (\<lambda>x. prio h x \<le> p) xs"
      "dropWhile (\<lambda>x. prio h x \<le> p) (x # xs) = dropWhile (\<lambda>x. prio h x \<le> p) xs"
      by (simp_all add: prio_def)
    from Cons.IH [OF f(4), of x] obtain c where c: "find_position h p x (fl_next f) =
        Some (if takeWhile (\<lambda>x. prio h x \<le> p) xs = [] then x else last (takeWhile (\<lambda>x. prio h x \<le> p) xs), c)"
      "filter_seg (cells h) (fl_next f) (takeWhile (\<lambda>x. prio h x \<le> p) xs) c"
      "filter_seg (cells h) c (dropWhile (\<lambda>x. prio h x \<le> p) xs) NULL" by blast
    have "find_position h p prev cur = find_position h p x (fl_next f)"
      using f False by (subst find_position.simps) simp
    with c f w show ?thesis by auto
  qed
qed

text \<open>What the insertion keeps of a filter: all but its link.\<close>

definition same_filters :: "('p, 'f) fheap \<Rightarrow> ('p, 'f) fheap \<Rightarrow> bool" where
  "same_filters h h' \<longleftrightarrow> live h' = live h \<and>
     (\<forall>x. map_option (\<lambda>f. f\<lparr>fl_next := NULL\<rparr>) (cells h' x) = map_option (\<lambda>f. f\<lparr>fl_next := NULL\<rparr>) (cells h x))"

lemma same_but_next:
  "f\<lparr>fl_next := n\<rparr> = g\<lparr>fl_next := n\<rparr> \<Longrightarrow>
   fl_priority f = fl_priority g \<and> fl_filter f = fl_filter g \<and> fl_param f = fl_param g"
  by (cases f; cases g) simp

lemma same_filters_cells:
  assumes "same_filters h h'" "cells h x = Some f"
  obtains g where "cells h' x = Some g" "fl_priority g = fl_priority f" "fl_filter g = fl_filter f"
    "fl_param g = fl_param f"
proof -
  from assms have "map_option (\<lambda>f. f\<lparr>fl_next := NULL\<rparr>) (cells h' x) = Some (f\<lparr>fl_next := NULL\<rparr>)"
    by (simp add: same_filters_def)
  then obtain g where "cells h' x = Some g" "g\<lparr>fl_next := NULL\<rparr> = f\<lparr>fl_next := NULL\<rparr>" by auto
  with same_but_next [OF this(2)] show ?thesis using that [of g] by simp
qed

lemma same_filters_prio:
  assumes "same_filters h h'"
  shows "prio h' x = prio h x"
proof (cases "cells h x")
  case None
  with assms have "map_option (\<lambda>f. f\<lparr>fl_next := NULL\<rparr>) (cells h' x) = None"
    by (simp add: same_filters_def)
  with None show ?thesis by (simp add: prio_def)
next
  case (Some f)
  from same_filters_cells [OF assms Some] obtain g where "cells h' x = Some g" "fl_priority g = fl_priority f"
    by blast
  with Some show ?thesis by (simp add: prio_def)
qed

lemma add_to_chain_spec:
  assumes ch: "filter_chain h p xs" and a: "cells h a = Some f" "a \<notin> set xs" "a \<noteq> NULL"
    and Q: "Q = (\<lambda>x. prio h x \<le> fl_priority f)"
  shows "\<exists>p' h'. clog_add_filter_to_chain p a h = Some (p', h') \<and>
    filter_chain h' p' (takeWhile Q xs @ a # dropWhile Q xs) \<and> same_filters h h'"
proof -
  let ?pre = "takeWhile Q xs" and ?post = "dropWhile Q xs"
  have seg: "filter_seg (cells h) p xs NULL" and "distinct xs" using ch by (simp_all add: filter_chain_def)
  then have "distinct (?pre @ ?post)" by simp
  then have dist: "distinct ?pre" "distinct ?post" "set ?pre \<inter> set ?post = {}"
    unfolding distinct_append by blast+
  have an: "a \<notin> set ?pre" "a \<notin> set ?post" using a(2) by (auto dest: set_takeWhileD set_dropWhileD)
  from find_position_spec [OF seg, of "fl_priority f" NULL] obtain c where
    c: "find_position h (fl_priority f) NULL p = Some (if ?pre = [] then NULL else last ?pre, c)"
      "filter_seg (cells h) p ?pre c" "filter_seg (cells h) c ?post NULL" unfolding Q by blast
  have d: "distinct (?pre @ a # ?post)" using dist an by auto
  show ?thesis
  proof (cases "?pre = []")
    case True
    define h' where "h' = h\<lparr>cells := (cells h)(a \<mapsto> f\<lparr>fl_next := c\<rparr>)\<rparr>"
    have fr: "cells h' = (cells h)(a \<mapsto> f\<lparr>fl_next := c\<rparr>)" "live h' = live h" by (simp_all add: h'_def)
    have "filter_seg (cells h') c ?post NULL"
      using c(3) an(2) by (subst filter_seg_frame [where C = "cells h"]) (auto simp: fr)
    then have "filter_chain h' a (?pre @ a # ?post)"
      using True a(3) d by (simp add: filter_chain_def fr)
    moreover have "same_filters h h'" using a(1) by (simp add: same_filters_def fr)
    moreover have "clog_add_filter_to_chain p a h = Some (a, h')"
      using c(1) a(1) True by (simp add: clog_add_filter_to_chain_def hupd_Some h'_def)
    ultimately show ?thesis by blast
  next
    case False
    then obtain pre0 l where pre: "?pre = pre0 @ [l]" by (metis append_butlast_last_id)
    with c(2) obtain g where g: "filter_seg (cells h) p pre0 l" "l \<noteq> NULL" "cells h l = Some g" "fl_next g = c"
      by (auto simp: filter_seg_append split: option.splits)
    have la: "l \<noteq> a" "l \<notin> set pre0" "l \<notin> set ?post" "a \<notin> set pre0" using pre dist an by auto
    define h1 where "h1 = h\<lparr>cells := (cells h)(l \<mapsto> g\<lparr>fl_next := a\<rparr>)\<rparr>"
    define h' where "h' = h1\<lparr>cells := (cells h1)(a \<mapsto> f\<lparr>fl_next := c\<rparr>)\<rparr>"
    have fr: "cells h' = (cells h)(l \<mapsto> g\<lparr>fl_next := a\<rparr>, a \<mapsto> f\<lparr>fl_next := c\<rparr>)" "live h' = live h"
      by (simp_all add: h'_def h1_def)
    have a1: "cells h1 a = Some f" using a(1) la(1) by (simp add: h1_def)
    have "filter_seg (cells h') c ?post NULL"
      using c(3) an(2) la(3) by (subst filter_seg_frame [where C = "cells h"]) (auto simp: fr)
    moreover have "filter_seg (cells h') p pre0 l"
      using g(1) la(2,4) by (subst filter_seg_frame [where C = "cells h"]) (auto simp: fr)
    ultimately have "filter_seg (cells h') p (pre0 @ l # a # ?post) NULL"
      using la(1) g(2) a(3) by (auto simp: filter_seg_append fr)
    with d pre have "filter_chain h' p (?pre @ a # ?post)" by (simp add: filter_chain_def)
    moreover have "same_filters h h'" using a(1) g(3) la(1) by (simp add: same_filters_def fr)
    moreover have "clog_add_filter_to_chain p a h = Some (p, h')"
      using c(1) a(1) pre g a1 hupd_Some [OF g(3)] hupd_Some [OF a1]
      by (simp add: clog_add_filter_to_chain_def h1_def [symmetric] h'_def [symmetric])
    ultimately show ?thesis by blast
  qed
qed

text \<open>The result of a chain: the first filter that does not let the item pass to the next one.\<close>

fun chain_verdict :: "('p, 'f) fheap \<Rightarrow> addr list \<Rightarrow> clog_item_wrapper \<Rightarrow> bool option" where
  "chain_verdict h [] w = Some True"
| "chain_verdict h (x # xs) w = (case fl_filter (the (cells h x)) of
      None \<Rightarrow> Some False
    | Some fn \<Rightarrow> (case fn (fl_param (the (cells h x))) w of
          None \<Rightarrow> None
        | Some CLOG_FILTER_ACCEPT \<Rightarrow> Some True
        | Some CLOG_FILTER_REJECT \<Rightarrow> Some False
        | Some CLOG_FILTER_CONTINUE \<Rightarrow> chain_verdict h xs w))"

lemma filter_log_loop_verdict:
  "filter_seg (cells h) a xs NULL \<Longrightarrow> filter_log_loop h a w = chain_verdict h xs w"
proof (induction xs arbitrary: a)
  case Nil
  then show ?case by (subst filter_log_loop.simps) simp
next
  case (Cons x xs)
  then obtain f where f: "a = x" "x \<noteq> NULL" "cells h x = Some f" "filter_seg (cells h) (fl_next f) xs NULL"
    by (auto split: option.splits)
  then show ?case
    using Cons.IH [OF f(4)] by (subst filter_log_loop.simps) (auto split: option.splits clog_filter_res.splits)
qed

subsection \<open>Properties\<close>

text \<open>
  C26. Adding a filter keeps a chain sorted by priority: the new filter stands after all filters
  of a smaller or the same priority and before the others, the order of the rest does not
  change, and no filter but for its link does.
\<close>
theorem filter_chain_sorted:
  assumes "filter_chain h p xs" "sorted (map (prio h) xs)"
    and "cells h a = Some f" "a \<notin> set xs" "a \<noteq> NULL"
  shows "\<exists>p' h' ys zs. clog_add_filter_to_chain p a h = Some (p', h') \<and> xs = ys @ zs \<and>
    filter_chain h' p' (ys @ a # zs) \<and> same_filters h h' \<and> sorted (map (prio h') (ys @ a # zs)) \<and>
    (\<forall>x \<in> set ys. prio h x \<le> prio h a) \<and> (\<forall>x \<in> set zs. prio h a < prio h x)"
proof -
  define Q where "Q = (\<lambda>x. prio h x \<le> fl_priority f)"
  from add_to_chain_spec [OF assms(1,3,4,5) Q_def] obtain p' h' where
    r: "clog_add_filter_to_chain p a h = Some (p', h')"
      "filter_chain h' p' (takeWhile Q xs @ a # dropWhile Q xs)" "same_filters h h'" by blast
  have pa: "prio h a = fl_priority f" using assms(3) by (simp add: prio_def)
  have low: "\<forall>x \<in> set (takeWhile Q xs). prio h x \<le> prio h a"
    by (auto simp: pa Q_def dest: set_takeWhileD)
  have srt: "sorted (map (prio h) (takeWhile Q xs))" "sorted (map (prio h) (dropWhile Q xs))"
    using assms(2) by (metis takeWhile_dropWhile_id map_append sorted_append)+
  have high: "\<forall>x \<in> set (dropWhile Q xs). prio h a < prio h x"
  proof (cases "dropWhile Q xs")
    case (Cons y ys)
    then have "\<not> Q y" using hd_dropWhile [of Q xs] by simp
    then have "prio h a < prio h y" by (simp add: Q_def pa not_le)
    moreover have "\<forall>x \<in> set ys. prio h y \<le> prio h x" using srt(2) Cons by simp
    ultimately show ?thesis using Cons by auto
  next
    case Nil
    show ?thesis unfolding Nil by simp
  qed
  have "sorted (map (prio h) (takeWhile Q xs @ a # dropWhile Q xs))"
    using srt low high by (fastforce simp: sorted_append)
  then have "sorted (map (prio h') (takeWhile Q xs @ a # dropWhile Q xs))"
    using same_filters_prio [OF r(3)] by (simp cong: map_cong)
  with r low high show ?thesis
    by (intro exI [of _ p'] exI [of _ h'] exI [of _ "takeWhile Q xs"] exI [of _ "dropWhile Q xs"]) simp
qed

definition ex_filter :: "32 word \<Rightarrow> addr \<Rightarrow> (string, unit) clog_filter" where
  "ex_filter pr nx = \<lparr>fl_priority = pr, fl_type = CLOG_FILTER_POST, fl_filter = Some clog_filter_keywords,
     fl_free = None, fl_param = Some ''secret'', fl_next = nx\<rparr>"

definition ex_fheap :: "(string, unit) fheap" where
  "ex_fheap = \<lparr>grants = (\<lambda>_. True), tick = 3, live = 6,
     cells = [1 \<mapsto> ex_filter 1 2, 2 \<mapsto> ex_filter 5 0, 3 \<mapsto> ex_filter 3 0], brk = 4\<rparr>"

lemma ex_fheap_chain: "filter_chain ex_fheap 1 [1, 2]" "sorted (map (prio ex_fheap) [1, 2])"
  by (simp_all add: filter_chain_def ex_fheap_def ex_filter_def prio_def)

lemma filter_chain_sorted_witness:
  "\<exists>p' h' ys zs. clog_add_filter_to_chain 1 3 ex_fheap = Some (p', h') \<and> [1, 2] = ys @ zs \<and>
     filter_chain h' p' (ys @ 3 # zs)"
proof -
  have "cells ex_fheap 3 = Some (ex_filter 3 0)" by (simp add: ex_fheap_def)
  from filter_chain_sorted [OF ex_fheap_chain this] show ?thesis by auto
qed

text \<open>
  C27. Filtering stops at the first filter that accepts, rejects or has no function, and lets an
  item through that no filter decides on; adding a filter changes the verdict as inserting it
  at its place does.
\<close>
theorem filter_log_verdict:
  assumes "filter_chain h p xs" "cells h a = Some f" "a \<notin> set xs" "a \<noteq> NULL"
  shows "clog_filter_log h p (Some w) = chain_verdict h xs w \<and>
    (\<exists>p' h' ys zs. clog_add_filter_to_chain p a h = Some (p', h') \<and> xs = ys @ zs \<and>
       clog_filter_log h' p' (Some w) = chain_verdict h (ys @ a # zs) w)"
proof -
  from add_to_chain_spec [OF assms refl] obtain p' h' ys zs where
    r: "clog_add_filter_to_chain p a h = Some (p', h')" "filter_chain h' p' (ys @ a # zs)" "same_filters h h'"
      "xs = ys @ zs" by (metis takeWhile_dropWhile_id)
  have all: "\<forall>x \<in> set (ys @ a # zs). cells h x \<noteq> None"
  proof -
    have "\<forall>x \<in> set xs. cells h x \<noteq> None"
      using assms(1) filter_seg_mem unfolding filter_chain_def by blast
    with assms(2) r(4) show ?thesis by auto
  qed
  have same: "chain_verdict h' l w = chain_verdict h l w" if "\<forall>x \<in> set l. cells h x \<noteq> None" for l
    using that
  proof (induction l)
    case (Cons x l)
    then obtain c where c: "cells h x = Some c" by auto
    from same_filters_cells [OF r(3) c] obtain g where "cells h' x = Some g" "fl_filter g = fl_filter c"
      "fl_param g = fl_param c" by blast
    with c Cons show ?case by (auto split: option.splits clog_filter_res.splits)
  qed simp
  have "filter_log_loop h' p' w = chain_verdict h' (ys @ a # zs) w"
    using r(2) filter_log_loop_verdict unfolding filter_chain_def by blast
  then have "clog_filter_log h' p' (Some w) = chain_verdict h (ys @ a # zs) w"
    using same [OF all] by (simp only: clog_filter_log_def option.case)
  with r(1,4) assms(1) show ?thesis
    by (auto simp: clog_filter_log_def filter_chain_def filter_log_loop_verdict)
qed

lemma filter_log_verdict_witness:
  "clog_filter_log ex_fheap 1 (Some (ex_wrapper\<lparr>wr_log := ex_item\<lparr>it_content := ''a secret b''\<rparr>\<rparr>)) = Some False"
proof -
  have "cells ex_fheap 3 = Some (ex_filter 3 0)" by (simp add: ex_fheap_def)
  from filter_log_verdict [OF ex_fheap_chain(1) this] have
    "clog_filter_log ex_fheap 1 (Some (ex_wrapper\<lparr>wr_log := ex_item\<lparr>it_content := ''a secret b''\<rparr>\<rparr>)) =
     chain_verdict ex_fheap [1, 2] (ex_wrapper\<lparr>wr_log := ex_item\<lparr>it_content := ''a secret b''\<rparr>\<rparr>)" by simp
  also have "strstr ''a secret b'' ''secret''" by (simp add: strstr.simps)
  then have "chain_verdict ex_fheap [1, 2] (ex_wrapper\<lparr>wr_log := ex_item\<lparr>it_content := ''a secret b''\<rparr>\<rparr>) = Some False"
    by (simp add: ex_fheap_def ex_filter_def clog_filter_keywords_def)
  finally show ?thesis .
qed

text \<open>
  Releasing a chain of one filter frees it and its parameter, but a chain of two or more is
  undefined behaviour: the loop looks at the parameter of the first filter again after that
  filter has been freed.
\<close>
theorem filter_free_reads_freed:
  assumes "filter_chain h p xs"
    and "\<And>d q g. cells (dealloc d q g) = cells g"
  shows "(length xs = 1 \<longrightarrow> (\<exists>h'. clog_filter_free dealloc p h = Some h' \<and> cells h' = (cells h)(p := None))) \<and>
    (2 \<le> length xs \<longrightarrow> clog_filter_free dealloc p h = None)"
proof (cases xs)
  case (Cons x ys)
  with assms(1) obtain f where f: "p = x" "x \<noteq> NULL" "cells h x = Some f" "filter_seg (cells h) (fl_next f) ys NULL"
    by (auto simp: filter_chain_def split: option.splits)
  have cf: "cells (clog_free g) = cells g" for g :: "('a, 'b) fheap" by (simp add: clog_free_def)
  obtain h1 f1 where h1: "release_param dealloc x h = Some h1" "cells h1 = (cells h)(x \<mapsto> f1)"
    "fl_next f1 = fl_next f"
  proof (cases "fl_param f")
    case None
    with f(3) show ?thesis by (intro that [of h f]) (auto simp: release_param_def)
  next
    case (Some q)
    define g where "g = (case fl_free f of Some d \<Rightarrow> dealloc d q h | None \<Rightarrow> clog_free h)"
    have g: "cells g = cells h" using assms(2) cf by (simp add: g_def split: option.split)
    define f1 where "f1 = f\<lparr>fl_param := None\<rparr>"
    from g have "release_param dealloc x h = Some (g\<lparr>cells := (cells g)(x \<mapsto> f1)\<rparr>)"
      using f(3) Some by (simp add: release_param_def hupd_def g_def [symmetric] f1_def)
    moreover have "cells (g\<lparr>cells := (cells g)(x \<mapsto> f1)\<rparr>) = (cells h)(x \<mapsto> f1)" using g by simp
    moreover have "fl_next f1 = fl_next f" by (simp add: f1_def)
    ultimately show ?thesis by (rule that)
  qed
  define h2 where "h2 = (clog_free h1)\<lparr>cells := (cells h1)(x := None)\<rparr>"
  have fr: "hfree x h1 = Some h2" using h1(2) by (simp add: hfree_def h2_def)
  have step: "clog_filter_free dealloc p h = filter_free_loop dealloc x (fl_next f) h2"
    using f h1 fr by (subst clog_filter_free_def, subst filter_free_loop.simps) simp
  show ?thesis
  proof (cases ys)
    case Nil
    then have "fl_next f = NULL" using f(4) by simp
    then have "clog_filter_free dealloc p h = Some h2" by (simp add: step filter_free_loop.simps)
    moreover have "cells h2 = (cells h)(p := None)" using f(1) h1(2) by (simp add: h2_def fun_eq_iff)
    ultimately show ?thesis using Cons Nil by simp
  next
    case (Cons y zs)
    then have "fl_next f \<noteq> NULL" using f(4) by auto
    moreover have "cells h2 x = None" by (simp add: h2_def)
    ultimately have "filter_free_loop dealloc x (fl_next f) h2 = None"
      by (subst filter_free_loop.simps) (simp add: release_param_def)
    then show ?thesis using step \<open>xs = x # ys\<close> Cons by simp
  qed
qed simp

lemma filter_free_reads_freed_witness: "clog_filter_free (\<lambda>d q g. clog_free g) 1 ex_fheap = None"
  using filter_free_reads_freed [OF ex_fheap_chain(1), of "\<lambda>d q g. clog_free g"]
  by (simp add: clog_free_def)

end
