(* ===== verification/Queue.thy ===== *)
theory Queue
  imports Secure_Func
begin

text \<open>
  The linked queue of clog_queue.c. Nodes live in a heap; a queue is the record
  \<open>clog_queue\<close> with the addresses of its first and last node. An access to an address that
  holds no node is \<open>None\<close>, so a result \<open>Some\<close> says that no freed or foreign node was touched.

  The locale \<open>fifo_queue\<close> is the contract the channels rely on: a state represents a list,
  enqueueing appends or reports no memory, dequeueing takes the first element. It is interpreted
  on \<open>clog_queue\<close> here and on the lock-free queue in MPSC_Queue.thy.
\<close>

subsection \<open>Nodes and queues\<close>

record 'd queue_node =
  qn_data :: 'd
  qn_next :: addr

record clog_queue =
  q_head :: addr
  q_tail :: addr
  q_size :: nat
  q_has_dealloc :: bool

type_synonym 'd qheap = "'d queue_node heap"

definition clog_queue_node_create :: "'d \<Rightarrow> 'd qheap \<Rightarrow> addr \<times> 'd qheap" where
  "clog_queue_node_create p h = halloc \<lparr>qn_data = p, qn_next = NULL\<rparr> h"

text \<open>
  \<open>clog_queue_node_free\<close> returns the data it passed to the deallocator. Data is a
  \<open>uintptr_t\<close>; 0 is not passed.
\<close>

definition clog_queue_node_free ::
    "clog_queue \<Rightarrow> addr \<Rightarrow> ('d::zero) qheap \<Rightarrow> ('d list \<times> 'd qheap) option" where
  "clog_queue_node_free q a h =
     (if a = NULL then Some ([], h)
      else case cells h a of
        None \<Rightarrow> None
      | Some n \<Rightarrow>
          map_option (Pair (if q_has_dealloc q \<and> qn_data n \<noteq> 0 then [qn_data n] else []))
            (hfree a h))"

definition sizeof_queue :: nat where "sizeof_queue = 32"

definition clog_queue_create ::
    "bool \<Rightarrow> bool \<Rightarrow> 'd qheap \<Rightarrow> clog_res \<times> clog_queue option \<times> 'd qheap" where
  "clog_queue_create has_out dealloc h =
     (if \<not> has_out then (CLOG_INVALID_PARAM, None, h)
      else case clog_malloc sizeof_queue h of
        (False, h') \<Rightarrow> (CLOG_NO_MEMORY, None, h')
      | (True, h') \<Rightarrow>
          (CLOG_SUCCESS,
           Some \<lparr>q_head = NULL, q_tail = NULL, q_size = 0, q_has_dealloc = dealloc\<rparr>, h'))"

definition clog_queue_enqueue ::
    "clog_queue option \<Rightarrow> 'd \<Rightarrow> 'd qheap
     \<Rightarrow> (clog_res \<times> clog_queue option \<times> 'd qheap) option" where
  "clog_queue_enqueue queue p h = (case queue of
      None \<Rightarrow> Some (CLOG_INVALID_PARAM, None, h)
    | Some q \<Rightarrow>
        (case clog_queue_node_create p h of (node, h1) \<Rightarrow>
           if node = NULL then Some (CLOG_NO_MEMORY, Some q, h1)
           else if q_tail q = NULL
           then Some (CLOG_SUCCESS,
                  Some (q\<lparr>q_head := node, q_tail := node, q_size := Suc (q_size q)\<rparr>), h1)
           else map_option
                  (\<lambda>h2. (CLOG_SUCCESS, Some (q\<lparr>q_tail := node, q_size := Suc (q_size q)\<rparr>), h2))
                  (hupd (q_tail q) (\<lambda>n. n\<lparr>qn_next := node\<rparr>) h1)))"

definition clog_queue_dequeue ::
    "clog_queue option \<Rightarrow> bool \<Rightarrow> 'd qheap
     \<Rightarrow> (clog_res \<times> 'd option \<times> clog_queue option \<times> 'd qheap) option" where
  "clog_queue_dequeue queue has_data h = (case queue of
      None \<Rightarrow> Some (CLOG_INVALID_PARAM, None, None, h)
    | Some q \<Rightarrow>
        if \<not> has_data then Some (CLOG_INVALID_PARAM, None, Some q, h)
        else if q_head q = NULL then Some (CLOG_TARGET_NOT_FOUND, None, Some q, h)
        else case cells h (q_head q) of
          None \<Rightarrow> None
        | Some n \<Rightarrow>
            let q1 = q\<lparr>q_head := qn_next n\<rparr>;
                q2 = (if q_head q1 = NULL then q1\<lparr>q_tail := NULL\<rparr> else q1)
            in map_option
                 (\<lambda>h2. (CLOG_SUCCESS, Some (qn_data n), Some (q2\<lparr>q_size := q_size q - 1\<rparr>), h2))
                 (hfree (q_head q) h))"

definition clog_queue_peek ::
    "clog_queue option \<Rightarrow> bool \<Rightarrow> 'd qheap \<Rightarrow> (clog_res \<times> 'd option) option" where
  "clog_queue_peek queue has_data h = (case queue of
      None \<Rightarrow> Some (CLOG_INVALID_PARAM, None)
    | Some q \<Rightarrow>
        if \<not> has_data then Some (CLOG_INVALID_PARAM, None)
        else if q_head q = NULL then Some (CLOG_TARGET_NOT_FOUND, None)
        else map_option (\<lambda>n. (CLOG_SUCCESS, Some (qn_data n))) (cells h (q_head q)))"

definition clog_queue_is_empty :: "clog_queue option \<Rightarrow> bool" where
  "clog_queue_is_empty queue = (case queue of None \<Rightarrow> True | Some q \<Rightarrow> q_head q = NULL)"

definition clog_queue_size :: "clog_queue option \<Rightarrow> nat" where
  "clog_queue_size queue = (case queue of None \<Rightarrow> 0 | Some q \<Rightarrow> q_size q)"

text \<open>The loop of \<open>clog_queue_clear\<close>; not ending and touching a freed node are both \<open>None\<close>.\<close>

partial_function (option) queue_clear_loop ::
    "clog_queue \<Rightarrow> addr \<Rightarrow> ('d::zero) qheap \<Rightarrow> 'd list \<Rightarrow> ('d list \<times> 'd qheap) option" where
  "queue_clear_loop q a h out =
     (if a = NULL then Some (out, h)
      else case cells h a of
        None \<Rightarrow> None
      | Some n \<Rightarrow>
          (case clog_queue_node_free q a h of
             None \<Rightarrow> None
           | Some (freed, h') \<Rightarrow> queue_clear_loop q (qn_next n) h' (out @ freed)))"

definition clog_queue_clear ::
    "clog_queue option \<Rightarrow> ('d::zero) qheap \<Rightarrow> ('d list \<times> clog_queue option \<times> 'd qheap) option" where
  "clog_queue_clear queue h = (case queue of
      None \<Rightarrow> Some ([], None, h)
    | Some q \<Rightarrow>
        (case queue_clear_loop q (q_head q) h [] of
           None \<Rightarrow> None
         | Some (out, h') \<Rightarrow>
             Some (out, Some (q\<lparr>q_head := NULL, q_tail := NULL, q_size := 0\<rparr>), h')))"

definition clog_queue_destroy ::
    "clog_queue option \<Rightarrow> ('d::zero) qheap \<Rightarrow> ('d list \<times> clog_queue option \<times> 'd qheap) option" where
  "clog_queue_destroy queue h = (case queue of
      None \<Rightarrow> Some ([], None, h)
    | Some q \<Rightarrow>
        (case clog_queue_clear (Some q) h of
           None \<Rightarrow> None
         | Some (out, _, h') \<Rightarrow> Some (out, None, clog_free h')))"

subsection \<open>Representation\<close>

text \<open>
  \<open>node_chain C a ns ds\<close>: from \<open>a\<close>, the cells \<open>C\<close> hold the nodes \<open>ns\<close> in this order, with data \<open>ds\<close>,
  and the last one's \<open>next\<close> is NULL.
\<close>

fun node_chain :: "(addr \<Rightarrow> 'd queue_node option) \<Rightarrow> addr \<Rightarrow> addr list \<Rightarrow> 'd list \<Rightarrow> bool" where
  "node_chain C a [] ds = (a = NULL \<and> ds = [])"
| "node_chain C a (x # xs) ds =
     (a = x \<and> x \<noteq> NULL \<and>
      (case C x of
         None \<Rightarrow> False
       | Some n \<Rightarrow> (case ds of [] \<Rightarrow> False | d # ds' \<Rightarrow> d = qn_data n \<and> node_chain C (qn_next n) xs ds')))"

definition queue_nodes :: "clog_queue \<Rightarrow> 'd qheap \<Rightarrow> addr list \<Rightarrow> 'd list \<Rightarrow> bool" where
  "queue_nodes q h ns ds \<longleftrightarrow>
     heap_ok h \<and> distinct ns \<and> node_chain (cells h) (q_head q) ns ds \<and> dom (cells h) = set ns \<and>
     q_tail q = (if ns = [] then NULL else last ns) \<and> q_size q = length ds"

definition queue_rep :: "clog_queue \<Rightarrow> 'd qheap \<Rightarrow> 'd list \<Rightarrow> bool" where
  "queue_rep q h ds \<longleftrightarrow> (\<exists>ns. queue_nodes q h ns ds)"

lemma node_chain_length: "node_chain C a ns ds \<Longrightarrow> length ns = length ds"
  by (induction C a ns ds rule: node_chain.induct) (auto split: option.splits list.splits)

lemma node_chain_mem: "node_chain C a ns ds \<Longrightarrow> x \<in> set ns \<Longrightarrow> C x \<noteq> None \<and> x \<noteq> NULL"
  by (induction C a ns ds rule: node_chain.induct) (auto split: option.splits list.splits)

lemma node_chain_null: "node_chain C NULL ns ds \<longleftrightarrow> ns = [] \<and> ds = []"
  by (cases ns) auto

lemma node_chain_frame:
  "\<forall>x \<in> set ns. C x = C' x \<Longrightarrow> node_chain C a ns ds \<longleftrightarrow> node_chain C' a ns ds"
  by (induction C a ns ds rule: node_chain.induct) (auto split: option.splits list.splits)

lemma node_chain_append:
  assumes "node_chain C a ns ds" "distinct ns" "ns \<noteq> []" "b \<noteq> NULL"
    and "C (last ns) = Some n" "C' (last ns) = Some (n\<lparr>qn_next := b\<rparr>)"
    and "C' b = Some \<lparr>qn_data = d, qn_next = NULL\<rparr>"
    and "\<forall>x \<in> set ns. x \<noteq> last ns \<longrightarrow> C' x = C x"
  shows "node_chain C' a (ns @ [b]) (ds @ [d])"
  using assms
proof (induction ns arbitrary: a ds)
  case (Cons x xs)
  from Cons.prems obtain m d0 ds0 where m: "C x = Some m" "ds = d0 # ds0" "a = x" "x \<noteq> NULL"
    "d0 = qn_data m" "node_chain C (qn_next m) xs ds0"
    by (auto split: option.splits list.splits)
  show ?case
  proof (cases "xs = []")
    case True
    with Cons.prems m show ?thesis by simp
  next
    case False
    from False Cons.prems have "x \<noteq> last xs" "last (x # xs) = last xs" by auto
    with Cons.prems(8) m(1) have x: "C' x = Some m"
      by (metis list.set_intros(1))
    have "node_chain C' (qn_next m) (xs @ [b]) (ds0 @ [d])"
      by (rule Cons.IH [OF m(6) _ False Cons.prems(4)])
        (use Cons.prems(2,5-8) False in simp_all)
    with x m show ?thesis by simp
  qed
qed simp

subsection \<open>The operations on representations\<close>

lemma queue_create_rep:
  "clog_queue_create True d (heap_empty orc) = (CLOG_SUCCESS, Some q, h) \<Longrightarrow>
   queue_rep q h [] \<and> live h = 1"
proof -
  assume "clog_queue_create True d (heap_empty orc) = (CLOG_SUCCESS, Some q, h)"
  then have "q = \<lparr>q_head = NULL, q_tail = NULL, q_size = 0, q_has_dealloc = d\<rparr>"
    "cells h = Map.empty" "brk h = 1" "live h = 1"
    by (auto simp: clog_queue_create_def clog_malloc_def heap_empty_def sizeof_queue_def
        split: if_splits)
  then have "queue_nodes q h [] []" "live h = 1" by (simp_all add: queue_nodes_def heap_ok_def)
  then show ?thesis by (auto simp only: queue_rep_def)
qed

lemma queue_enqueue_rep:
  assumes rep: "queue_rep q h ds"
  obtains (refused) q' h' where "clog_queue_enqueue (Some q) d h = Some (CLOG_NO_MEMORY, Some q', h')"
      "queue_rep q' h' ds" "live h' = live h" "\<not> grants h (tick h)"
    | (granted) q' h' where "clog_queue_enqueue (Some q) d h = Some (CLOG_SUCCESS, Some q', h')"
      "queue_rep q' h' (ds @ [d])" "live h' = live h + 1" "grants h (tick h)"
proof -
  from rep obtain ns where hp: "heap_ok h" and ns: "distinct ns"
    "node_chain (cells h) (q_head q) ns ds" "dom (cells h) = set ns"
    and q: "q_tail q = (if ns = [] then NULL else last ns)" "q_size q = length ds"
    by (auto simp: queue_rep_def queue_nodes_def)
  let ?n = "\<lparr>qn_data = d, qn_next = NULL\<rparr>"
  show ?thesis
  proof (cases "grants h (tick h)")
    case False
    then have h1: "halloc ?n h = (NULL, h\<lparr>tick := Suc (tick h)\<rparr>)" by (rule halloc_refused)
    have "queue_rep q (h\<lparr>tick := Suc (tick h)\<rparr>) ds"
      using rep by (simp add: queue_rep_def queue_nodes_def heap_ok_def)
    with h1 False show ?thesis
      by (intro refused [of q "h\<lparr>tick := Suc (tick h)\<rparr>"]) (auto simp: clog_queue_enqueue_def clog_queue_node_create_def)
  next
    case True
    define h1 where "h1 = h\<lparr>tick := Suc (tick h), live := live h + 1,
        cells := (cells h)(brk h \<mapsto> ?n), brk := Suc (brk h)\<rparr>"
    have al: "halloc ?n h = (brk h, h1)" unfolding h1_def by (rule halloc_granted [OF True])
    have ok1: "heap_ok h1" by (rule heap_ok_halloc [OF hp al])
    have b: "brk h \<notin> set ns" "brk h \<noteq> NULL" using heap_ok_brk [OF hp] hp ns(3)
      by (auto simp: heap_ok_def)
    show ?thesis
    proof (cases "ns = []")
      case True
      with q ns have e: "ds = []" "q_tail q = NULL" "cells h = Map.empty" by auto
      let ?q = "q\<lparr>q_head := brk h, q_tail := brk h, q_size := Suc (q_size q)\<rparr>"
      have "queue_nodes ?q h1 [brk h] [d]"
        using ok1 b e q by (simp add: queue_nodes_def h1_def)
      with al e b \<open>grants h (tick h)\<close> show ?thesis
        by (intro granted [of ?q h1])
          (auto simp: clog_queue_enqueue_def clog_queue_node_create_def queue_rep_def h1_def)
    next
      case False
      with q have t: "q_tail q = last ns" by simp
      from False have l: "last ns \<in> set ns" by simp
      then obtain n where n: "cells h (last ns) = Some n" using ns(3) by blast
      then have n1: "cells h1 (last ns) = Some n" using b l by (auto simp: h1_def)
      from node_chain_mem [OF ns(2) l] have l0: "last ns \<noteq> NULL" by simp
      define h2 where "h2 = h1\<lparr>cells := (cells h1)(last ns \<mapsto> n\<lparr>qn_next := brk h\<rparr>)\<rparr>"
      have up: "hupd (last ns) (\<lambda>n. n\<lparr>qn_next := brk h\<rparr>) h1 = Some h2"
        unfolding h2_def by (rule hupd_Some [OF n1])
      have ne: "brk h \<noteq> last ns" using b l by metis
      have c2: "cells h2 = (cells h)(last ns \<mapsto> n\<lparr>qn_next := brk h\<rparr>, brk h \<mapsto> ?n)"
        by (simp add: h2_def h1_def fun_upd_twist [OF ne])
      let ?q = "q\<lparr>q_tail := brk h, q_size := Suc (q_size q)\<rparr>"
      have "node_chain (cells h2) (q_head q) (ns @ [brk h]) (ds @ [d])"
        by (rule node_chain_append [OF ns(2,1) False b(2) n])
          (use ne b in \<open>auto simp: c2\<close>)
      moreover have "heap_ok h2" using ok1 n1 by (auto simp: heap_ok_def h2_def)
      moreover have "dom (cells h2) = set (ns @ [brk h])" using ns(3) l by (auto simp: c2)
      ultimately have "queue_nodes ?q h2 (ns @ [brk h]) (ds @ [d])"
        using ns(1) b q by (simp add: queue_nodes_def)
      with al up t l0 b \<open>grants h (tick h)\<close> show ?thesis
        by (intro granted [of ?q h2])
          (auto simp: clog_queue_enqueue_def clog_queue_node_create_def queue_rep_def h1_def h2_def)
    qed
  qed
qed

lemma queue_dequeue_nil:
  "queue_rep q h [] \<Longrightarrow>
   clog_queue_dequeue (Some q) True h = Some (CLOG_TARGET_NOT_FOUND, None, Some q, h)"
proof -
  assume "queue_rep q h []"
  then obtain ns where "node_chain (cells h) (q_head q) ns []"
    by (auto simp: queue_rep_def queue_nodes_def)
  moreover from this have "ns = []" using node_chain_length by fastforce
  ultimately show ?thesis by (simp add: clog_queue_dequeue_def)
qed

lemma queue_dequeue_cons:
  assumes rep: "queue_rep q h (d # ds)"
  obtains q' h' where
    "clog_queue_dequeue (Some q) True h = Some (CLOG_SUCCESS, Some d, Some q', h')"
    "queue_rep q' h' ds" "live h' = live h - 1" "q_has_dealloc q' = q_has_dealloc q"
proof -
  from rep obtain ns0 where "queue_nodes q h ns0 (d # ds)" by (auto simp: queue_rep_def)
  then obtain x ns n where hp: "heap_ok h" and x: "x \<noteq> NULL" "q_head q = x" "cells h x = Some n"
    "qn_data n = d" and ch: "node_chain (cells h) (qn_next n) ns ds" "distinct (x # ns)"
    and dm: "dom (cells h) = insert x (set ns)"
    and q: "q_tail q = last (x # ns)" "q_size q = Suc (length ds)"
    by (cases ns0) (auto simp: queue_nodes_def split: option.splits)
  define h' where "h' = (clog_free h)\<lparr>cells := (cells h)(x := None)\<rparr>"
  have fr: "hfree x h = Some h'" unfolding h'_def by (rule hfree_Some [OF x(3)])
  have ch': "node_chain (cells h') (qn_next n) ns ds"
    using ch by (subst node_chain_frame [where C' = "cells h"]) (auto simp: h'_def)
  let ?q1 = "q\<lparr>q_head := qn_next n\<rparr>"
  let ?q = "(if qn_next n = NULL then ?q1\<lparr>q_tail := NULL\<rparr> else ?q1)\<lparr>q_size := q_size q - 1\<rparr>"
  have nil: "qn_next n = NULL \<longleftrightarrow> ns = []"
    using ch(1) by (cases ns) auto
  have "queue_nodes ?q h' ns ds"
    unfolding queue_nodes_def
  proof (intro conjI)
    show "heap_ok h'" by (rule heap_ok_hfree [OF hp fr])
    show "distinct ns" using ch(2) by simp
    show "node_chain (cells h') (q_head ?q) ns ds"
      by (cases "qn_next n = NULL") (use ch' in simp_all)
    show "dom (cells h') = set ns" using dm ch(2) by (auto simp: h'_def)
    show "q_tail ?q = (if ns = [] then NULL else last ns)" using nil q by auto
    show "q_size ?q = length ds" using q by simp
  qed
  then have "queue_rep ?q h' ds" by (auto simp: queue_rep_def)
  moreover have "clog_queue_dequeue (Some q) True h = Some (CLOG_SUCCESS, Some d, Some ?q, h')"
    using x fr by (simp add: clog_queue_dequeue_def Let_def)
  moreover have "live h' = live h - 1" by (simp add: h'_def mem_simps)
  ultimately show ?thesis by (intro that [of ?q h']) auto
qed

lemma queue_clear_loop_spec:
  assumes "node_chain (cells h) a ns ds" "distinct ns"
  shows "\<exists>h'. queue_clear_loop q a h out =
      Some (out @ (if q_has_dealloc q then filter (\<lambda>d. d \<noteq> 0) ds else []), h') \<and>
    live h' = live h - int (length ds) \<and> brk h' = brk h \<and>
    cells h' = (\<lambda>x. if x \<in> set ns then None else cells h x)"
  using assms
proof (induction ns arbitrary: h a ds out)
  case Nil
  then show ?case by (subst queue_clear_loop.simps) simp
next
  case (Cons x ns)
  then obtain n d ds' where x: "a = x" "x \<noteq> NULL" "cells h x = Some n" "ds = d # ds'"
    "qn_data n = d" "node_chain (cells h) (qn_next n) ns ds'"
    by (auto split: option.splits list.splits)
  define h1 where "h1 = (clog_free h)\<lparr>cells := (cells h)(x := None)\<rparr>"
  have fr: "hfree x h = Some h1" unfolding h1_def by (rule hfree_Some [OF x(3)])
  have ch1: "node_chain (cells h1) (qn_next n) ns ds'"
    using x(6) Cons.prems(2) by (subst node_chain_frame [where C' = "cells h"]) (auto simp: h1_def)
  have "distinct ns" using Cons.prems(2) by simp
  let ?freed = "if q_has_dealloc q \<and> d \<noteq> 0 then [d] else []"
  from Cons.IH [OF ch1 \<open>distinct ns\<close>, of "out @ ?freed"] obtain h' where
    h': "queue_clear_loop q (qn_next n) h1 (out @ ?freed) =
      Some ((out @ ?freed) @ (if q_has_dealloc q then filter (\<lambda>d. d \<noteq> 0) ds' else []), h')"
    "live h' = live h1 - int (length ds')" "brk h' = brk h1"
    "cells h' = (\<lambda>x. if x \<in> set ns then None else cells h1 x)" by blast
  have "clog_queue_node_free q x h = Some (?freed, h1)"
    using x fr by (simp add: clog_queue_node_free_def)
  then have "queue_clear_loop q a h out = queue_clear_loop q (qn_next n) h1 (out @ ?freed)"
    using x by (subst queue_clear_loop.simps) simp
  with h' x show ?case by (auto simp: h1_def mem_simps fun_eq_iff clog_free_def)
qed


lemma queue_clear_rep:
  assumes "queue_rep q h ds"
  obtains q' h' where "clog_queue_clear (Some q) h =
      Some (if q_has_dealloc q then filter (\<lambda>d. d \<noteq> 0) ds else [], Some q', h')"
    "queue_rep q' h' []" "live h' = live h - int (length ds)" "q_has_dealloc q' = q_has_dealloc q"
proof -
  from assms obtain ns where "heap_ok h" and ns: "distinct ns"
    "node_chain (cells h) (q_head q) ns ds" "dom (cells h) = set ns"
    by (auto simp: queue_rep_def queue_nodes_def)
  from queue_clear_loop_spec [OF ns(2,1), of q "[]"] obtain h' where
    h': "queue_clear_loop q (q_head q) h [] =
        Some (if q_has_dealloc q then filter (\<lambda>d. d \<noteq> 0) ds else [], h')"
    "live h' = live h - int (length ds)" "brk h' = brk h"
    "cells h' = (\<lambda>x. if x \<in> set ns then None else cells h x)" by auto
  have "cells h' = Map.empty" using h'(4) ns(3) by (auto simp: fun_eq_iff)
  with h'(3) \<open>heap_ok h\<close>
  have "queue_nodes (q\<lparr>q_head := NULL, q_tail := NULL, q_size := 0\<rparr>) h' [] []"
    by (simp add: queue_nodes_def heap_ok_def)
  then have "queue_rep (q\<lparr>q_head := NULL, q_tail := NULL, q_size := 0\<rparr>) h' []"
    by (auto simp only: queue_rep_def)
  with h' show ?thesis
    by (intro that [of "q\<lparr>q_head := NULL, q_tail := NULL, q_size := 0\<rparr>" h'])
      (simp_all add: clog_queue_clear_def)
qed

lemma queue_rep_views:
  assumes "queue_rep q h ds"
  shows "clog_queue_size (Some q) = length ds" "clog_queue_is_empty (Some q) \<longleftrightarrow> ds = []"
    "clog_queue_peek (Some q) True h =
      Some (case ds of [] \<Rightarrow> (CLOG_TARGET_NOT_FOUND, None) | d # _ \<Rightarrow> (CLOG_SUCCESS, Some d))"
proof -
  from assms obtain ns where n: "queue_nodes q h ns ds" by (auto simp: queue_rep_def)
  then have l: "length ns = length ds" by (auto simp: queue_nodes_def dest: node_chain_length)
  show "clog_queue_size (Some q) = length ds"
    using n by (simp add: queue_nodes_def clog_queue_size_def)
  show "clog_queue_is_empty (Some q) \<longleftrightarrow> ds = []"
    using n l by (cases ns) (auto simp: queue_nodes_def clog_queue_is_empty_def)
  show "clog_queue_peek (Some q) True h =
      Some (case ds of [] \<Rightarrow> (CLOG_TARGET_NOT_FOUND, None) | d # _ \<Rightarrow> (CLOG_SUCCESS, Some d))"
    using n l
    by (cases ns) (auto simp: queue_nodes_def clog_queue_peek_def split: option.splits list.splits)
qed

subsection \<open>The FIFO contract\<close>

locale fifo_queue =
  fixes rep :: "'s \<Rightarrow> 'd list \<Rightarrow> bool"
    and enq :: "'d \<Rightarrow> 's \<Rightarrow> (clog_res \<times> 's) option"
    and deq :: "'s \<Rightarrow> (clog_res \<times> 'd option \<times> 's) option"
  assumes enq_law: "rep s ds \<Longrightarrow> \<exists>r s'. enq d s = Some (r, s') \<and>
      (r = CLOG_SUCCESS \<and> rep s' (ds @ [d]) \<or> r = CLOG_NO_MEMORY \<and> rep s' ds)"
    and deq_nil: "rep s [] \<Longrightarrow> \<exists>s'. deq s = Some (CLOG_TARGET_NOT_FOUND, None, s') \<and> rep s' []"
    and deq_cons: "rep s (d # ds) \<Longrightarrow> \<exists>s'. deq s = Some (CLOG_SUCCESS, Some d, s') \<and> rep s' ds"

text \<open>Read until the queue is empty, doing \<open>act\<close> with every element.\<close>

partial_function (option) drain ::
    "('s \<Rightarrow> (clog_res \<times> 'd option \<times> 's) option) \<Rightarrow> ('d \<Rightarrow> 'x \<Rightarrow> 'x option) \<Rightarrow> 's \<Rightarrow> 'x
     \<Rightarrow> ('s \<times> 'x) option" where
  "drain deq act s x = (case deq s of
      None \<Rightarrow> None
    | Some (CLOG_SUCCESS, Some d, s') \<Rightarrow>
        (case act d x of None \<Rightarrow> None | Some x' \<Rightarrow> drain deq act s' x')
    | Some (_, _, s') \<Rightarrow> Some (s', x))"

fun fold_act :: "('d \<Rightarrow> 'x \<Rightarrow> 'x option) \<Rightarrow> 'd list \<Rightarrow> 'x \<Rightarrow> 'x option" where
  "fold_act act [] x = Some x"
| "fold_act act (d # ds) x = (case act d x of None \<Rightarrow> None | Some x' \<Rightarrow> fold_act act ds x')"

text \<open>A client program of a queue, and what a list says about its results.\<close>

datatype 'd fifo_op = F_enq 'd | F_deq

fun fifo_exec ::
    "('d \<Rightarrow> 's \<Rightarrow> (clog_res \<times> 's) option) \<Rightarrow> ('s \<Rightarrow> (clog_res \<times> 'd option \<times> 's) option)
     \<Rightarrow> 'd fifo_op list \<Rightarrow> 's \<Rightarrow> ((clog_res \<times> 'd option) list \<times> 's) option" where
  "fifo_exec enq deq [] s = Some ([], s)"
| "fifo_exec enq deq (F_enq d # cs) s =
     (case enq d s of
        None \<Rightarrow> None
      | Some (r, s1) \<Rightarrow>
          map_option (\<lambda>(outs, s2). ((r, None) # outs, s2)) (fifo_exec enq deq cs s1))"
| "fifo_exec enq deq (F_deq # cs) s =
     (case deq s of
        None \<Rightarrow> None
      | Some (r, d, s1) \<Rightarrow>
          map_option (\<lambda>(outs, s2). ((r, d) # outs, s2)) (fifo_exec enq deq cs s1))"

fun fifo_spec1 :: "'d fifo_op \<Rightarrow> clog_res \<times> 'd option \<Rightarrow> 'd list \<Rightarrow> 'd list option" where
  "fifo_spec1 (F_enq d) (r, _) ds =
     (if r = CLOG_SUCCESS then Some (ds @ [d]) else if r = CLOG_NO_MEMORY then Some ds else None)"
| "fifo_spec1 F_deq (r, out) [] = (if r = CLOG_TARGET_NOT_FOUND \<and> out = None then Some [] else None)"
| "fifo_spec1 F_deq (r, out) (d # ds) = (if r = CLOG_SUCCESS \<and> out = Some d then Some ds else None)"

fun fifo_spec ::
    "'d fifo_op list \<Rightarrow> (clog_res \<times> 'd option) list \<Rightarrow> 'd list \<Rightarrow> 'd list option" where
  "fifo_spec [] [] ds = Some ds"
| "fifo_spec (c # cs) (r # rs) ds =
     (case fifo_spec1 c r ds of None \<Rightarrow> None | Some ds' \<Rightarrow> fifo_spec cs rs ds')"
| "fifo_spec _ _ _ = None"

context fifo_queue
begin

lemma drain_spec:
  assumes "rep s ds" and "fold_act act ds x = Some x'"
  shows "\<exists>s'. drain deq act s x = Some (s', x') \<and> rep s' []"
  using assms
proof (induction ds arbitrary: s x)
  case Nil
  from deq_nil [OF Nil(1)] Nil(2) show ?case by (subst drain.simps) auto
next
  case (Cons d ds)
  from Cons.prems(2) obtain x1 where x1: "act d x = Some x1" "fold_act act ds x1 = Some x'"
    by (auto split: option.splits)
  from deq_cons [OF Cons.prems(1)] obtain s1 where
    "deq s = Some (CLOG_SUCCESS, Some d, s1)" "rep s1 ds" by blast
  with Cons.IH [OF _ x1(2)] x1(1) show ?case by (subst drain.simps) auto
qed

lemma exec_spec:
  "rep s ds \<Longrightarrow> \<exists>outs s' ds'. fifo_exec enq deq cs s = Some (outs, s') \<and>
     fifo_spec cs outs ds = Some ds' \<and> rep s' ds'"
proof (induction cs arbitrary: s ds)
  case (Cons c cs)
  show ?case
  proof (cases c)
    case (F_enq d)
    from enq_law [OF Cons.prems, of d] obtain r s1 where e: "enq d s = Some (r, s1)"
      and rs: "r = CLOG_SUCCESS \<and> rep s1 (ds @ [d]) \<or> r = CLOG_NO_MEMORY \<and> rep s1 ds" by blast
    then obtain ds1 where "fifo_spec1 c (r, None) ds = Some ds1" "rep s1 ds1"
      using F_enq by auto
    with Cons.IH [of s1 ds1] e F_enq show ?thesis by fastforce
  next
    case F_deq
    have "\<exists>r d s1 ds1. deq s = Some (r, d, s1) \<and> fifo_spec1 c (r, d) ds = Some ds1 \<and> rep s1 ds1"
    proof (cases ds)
      case Nil
      with deq_nil [of s] Cons.prems F_deq show ?thesis by auto
    next
      case (Cons d ds2)
      with deq_cons [of s d ds2] Cons.prems F_deq show ?thesis by auto
    qed
    then obtain r d s1 ds1 where "deq s = Some (r, d, s1)" "fifo_spec1 c (r, d) ds = Some ds1"
      "rep s1 ds1" by blast
    with Cons.IH [of s1 ds1] F_deq show ?thesis by fastforce
  qed
qed simp

end

text \<open>The contract on the queue of this theory: a state is a queue and its heap.\<close>

definition queue_enq :: "'d \<Rightarrow> clog_queue \<times> 'd qheap \<Rightarrow> (clog_res \<times> clog_queue \<times> 'd qheap) option" where
  "queue_enq d s = map_option (\<lambda>(r, q, h). (r, the q, h)) (clog_queue_enqueue (Some (fst s)) d (snd s))"

definition queue_deq ::
    "clog_queue \<times> 'd qheap \<Rightarrow> (clog_res \<times> 'd option \<times> clog_queue \<times> 'd qheap) option" where
  "queue_deq s =
     map_option (\<lambda>(r, d, q, h). (r, d, the q, h)) (clog_queue_dequeue (Some (fst s)) True (snd s))"

interpretation linked_queue: fifo_queue "\<lambda>(q, h). queue_rep q h" queue_enq queue_deq
proof (unfold_locales, goal_cases)
  case (1 s ds d)
  obtain q h where s: "s = (q, h)" by (cases s)
  from 1 have "queue_rep q h ds" by (simp add: s)
  then show ?case
    by (cases rule: queue_enqueue_rep [of q h ds d]) (auto simp: queue_enq_def s)
next
  case (2 s)
  then show ?case by (cases s) (auto simp: queue_deq_def queue_dequeue_nil)
next
  case (3 s d ds)
  obtain q h where s: "s = (q, h)" by (cases s)
  from 3 have "queue_rep q h (d # ds)" by (simp add: s)
  then show ?case
    by (cases rule: queue_dequeue_cons [of q h d ds]) (auto simp: queue_deq_def s)
qed


lemma queue_destroy_rep:
  assumes "queue_rep q h ds"
  shows "\<exists>h'. clog_queue_destroy (Some q) h =
      Some (if q_has_dealloc q then filter (\<lambda>d. d \<noteq> 0) ds else [], None, h') \<and>
    live h' = live h - int (length ds) - 1 \<and> cells h' = Map.empty"
proof -
  from assms obtain q' h' where c: "clog_queue_clear (Some q) h =
      Some (if q_has_dealloc q then filter (\<lambda>d. d \<noteq> 0) ds else [], Some q', h')"
    "queue_rep q' h' []" "live h' = live h - int (length ds)"
    by (rule queue_clear_rep)
  from c(2) have "cells h' = Map.empty"
    by (auto simp: queue_rep_def queue_nodes_def dest: node_chain_length)
  with c show ?thesis
    by (auto simp: clog_queue_destroy_def mem_simps clog_free_def)
qed

subsection \<open>Properties\<close>

text \<open>
  C30. The linked queue is a FIFO: on a fresh queue, any sequence of insertions and removals
  runs without touching a node that was not allocated or was freed, and gives the results of
  a list; an insertion that reports no memory changes nothing.
\<close>
theorem clog_queue_is_fifo:
  assumes "clog_queue_create True dealloc (heap_empty orc) = (CLOG_SUCCESS, Some q, h)"
  shows "\<exists>outs q' h' ds. fifo_exec queue_enq queue_deq cs (q, h) = Some (outs, q', h') \<and>
    fifo_spec cs outs [] = Some ds \<and> queue_rep q' h' ds \<and>
    clog_queue_size (Some q') = length ds \<and> (clog_queue_is_empty (Some q') \<longleftrightarrow> ds = []) \<and>
    clog_queue_peek (Some q') True h' =
      Some (case ds of [] \<Rightarrow> (CLOG_TARGET_NOT_FOUND, None) | d # _ \<Rightarrow> (CLOG_SUCCESS, Some d))"
proof -
  have "queue_rep q h []" using queue_create_rep [OF assms] by simp
  then obtain outs q' h' ds where x: "fifo_exec queue_enq queue_deq cs (q, h) = Some (outs, q', h')"
    "fifo_spec cs outs [] = Some ds" "queue_rep q' h' ds"
    using linked_queue.exec_spec [of "(q, h)" "[]" cs] by fastforce
  from x(3) have "clog_queue_size (Some q') = length ds" "clog_queue_is_empty (Some q') \<longleftrightarrow> ds = []"
    "clog_queue_peek (Some q') True h' =
      Some (case ds of [] \<Rightarrow> (CLOG_TARGET_NOT_FOUND, None) | d # _ \<Rightarrow> (CLOG_SUCCESS, Some d))"
    by (rule queue_rep_views)+
  with x show ?thesis by blast
qed

lemma clog_queue_is_fifo_witness:
  "\<exists>outs q' h' ds. fifo_exec queue_enq queue_deq [F_enq (7::nat), F_enq 8, F_deq]
      (\<lparr>q_head = NULL, q_tail = NULL, q_size = 0, q_has_dealloc = False\<rparr>,
       (heap_empty (\<lambda>_. True))\<lparr>tick := 1, live := 1\<rparr>) = Some (outs, q', h') \<and>
    fifo_spec [F_enq 7, F_enq 8, F_deq] outs [] = Some ds"
proof -
  have "clog_queue_create True False (heap_empty (\<lambda>_. True)) =
      (CLOG_SUCCESS, Some \<lparr>q_head = NULL, q_tail = NULL, q_size = 0, q_has_dealloc = False\<rparr>,
       (heap_empty (\<lambda>_. True))\<lparr>tick := 1, live := 1\<rparr> :: nat qheap)"
    by (simp add: clog_queue_create_def clog_malloc_def sizeof_queue_def heap_empty_def)
  from clog_queue_is_fifo [OF this, of "[F_enq 7, F_enq 8, F_deq]"] show ?thesis by blast
qed

text \<open>
  Destroying a queue releases every node and the queue, and hands exactly the elements it
  still held, in order and without the zeros, to the deallocator when there is one.
\<close>
theorem clog_queue_destroy_releases:
  assumes "queue_rep q h ds"
  shows "\<exists>h'. clog_queue_destroy (Some q) h =
      Some (if q_has_dealloc q then filter (\<lambda>d. d \<noteq> 0) ds else [], None, h') \<and>
    live h' = live h - int (length ds) - 1 \<and> cells h' = Map.empty"
  using assms by (rule queue_destroy_rep)

lemma clog_queue_destroy_releases_witness:
  "\<exists>h'. clog_queue_destroy (Some \<lparr>q_head = 1, q_tail = 1, q_size = 1, q_has_dealloc = True\<rparr>)
      \<lparr>grants = (\<lambda>_. True), tick = 2, live = 2,
        cells = [1 \<mapsto> \<lparr>qn_data = (7::nat), qn_next = NULL\<rparr>], brk = 2\<rparr> = Some ([7], None, h') \<and>
    live h' = 0"
proof -
  have "queue_nodes \<lparr>q_head = 1, q_tail = 1, q_size = 1, q_has_dealloc = True\<rparr>
      \<lparr>grants = (\<lambda>_. True), tick = 2, live = 2,
        cells = [1 \<mapsto> \<lparr>qn_data = (7::nat), qn_next = NULL\<rparr>], brk = 2\<rparr> [1] [7]"
    by (simp add: queue_nodes_def heap_ok_def)
  then have "queue_rep \<lparr>q_head = 1, q_tail = 1, q_size = 1, q_has_dealloc = True\<rparr>
      \<lparr>grants = (\<lambda>_. True), tick = 2, live = 2,
        cells = [1 \<mapsto> \<lparr>qn_data = (7::nat), qn_next = NULL\<rparr>], brk = 2\<rparr> [7]"
    by (auto simp only: queue_rep_def)
  from clog_queue_destroy_releases [OF this] show ?thesis by auto
qed

end
