(* ===== verification/MPSC_Queue.thy ===== *)
theory MPSC_Queue
  imports Queue
begin

text \<open>
  The multi-producer single-consumer queue of clog_atomic_mpsc_queue.c. Every access to shared
  memory is one step: a producer allocates its node, exchanges the tail, stores the link; the
  consumer loads the head, loads its link, reads the data, stores the head, frees the old
  head. Steps of any number of producers and of the consumer interleave freely; atomics are
  sequentially consistent. A step that accesses a node that is not allocated is \<open>Some None\<close>,
  a step whose thread is elsewhere is \<open>None\<close>.

  Two fields record the history: \<open>mq_order\<close> the data in the order the producers exchanged the
  tail, \<open>mq_out\<close> the data the consumer took. No step reads them.

  \<open>mpsc_inv\<close> describes every reachable state, and gives that no step touches a freed node, that
  data comes out in the order of the exchanges, and that the consumer misses an element only
  while its producer has yet to store the link.
\<close>

subsection \<open>State and steps\<close>

record 'd mpsc_node =
  mn_next :: addr
  mn_data :: 'd

datatype ppc = P_idle | P_node addr | P_swapped addr addr

datatype 'd cpc = C_idle | C_head addr | C_next addr addr | C_data addr addr 'd | C_stored addr

record 'd clog_atomic_mpsc_queue =
  mq_heap :: "'d mpsc_node heap"
  mq_head :: addr
  mq_tail :: addr
  mq_prod :: "nat \<Rightarrow> ppc"
  mq_cons :: "'d cpc"
  mq_order :: "'d list"
  mq_out :: "'d list"

definition sizeof_mpsc_queue :: nat where "sizeof_mpsc_queue = 128"

definition clog_atomic_mpsc_queue_create ::
    "('d::zero) mpsc_node heap \<Rightarrow> 'd clog_atomic_mpsc_queue option \<times> 'd mpsc_node heap" where
  "clog_atomic_mpsc_queue_create h =
     (case clog_malloc sizeof_mpsc_queue h of
        (False, h1) \<Rightarrow> (None, h1)
      | (True, h1) \<Rightarrow>
          (case halloc \<lparr>mn_next = NULL, mn_data = 0\<rparr> h1 of
             (a, h2) \<Rightarrow>
               if a = NULL then (None, clog_free h2)
               else (Some \<lparr>mq_heap = h2, mq_head = a, mq_tail = a, mq_prod = (\<lambda>_. P_idle),
                           mq_cons = C_idle, mq_order = [], mq_out = []\<rparr>, h2)))"

definition p_alloc :: "nat \<Rightarrow> 'd \<Rightarrow> 'd clog_atomic_mpsc_queue \<Rightarrow> 'd clog_atomic_mpsc_queue option" where
  "p_alloc t d q =
     (case halloc \<lparr>mn_next = NULL, mn_data = d\<rparr> (mq_heap q) of
        (a, h) \<Rightarrow> Some (q\<lparr>mq_heap := h,
                         mq_prod := (mq_prod q)(t := if a = NULL then P_idle else P_node a)\<rparr>))"

definition p_swap :: "nat \<Rightarrow> addr \<Rightarrow> 'd clog_atomic_mpsc_queue \<Rightarrow> 'd clog_atomic_mpsc_queue option" where
  "p_swap t n q = (case cells (mq_heap q) n of
      None \<Rightarrow> None
    | Some c \<Rightarrow>
        Some (q\<lparr>mq_tail := n, mq_prod := (mq_prod q)(t := P_swapped n (mq_tail q)),
                mq_order := mq_order q @ [mn_data c]\<rparr>))"

definition p_link ::
    "nat \<Rightarrow> addr \<Rightarrow> addr \<Rightarrow> 'd clog_atomic_mpsc_queue \<Rightarrow> 'd clog_atomic_mpsc_queue option" where
  "p_link t n prev q =
     map_option (\<lambda>h. q\<lparr>mq_heap := h, mq_prod := (mq_prod q)(t := P_idle)\<rparr>)
       (hupd prev (\<lambda>c. c\<lparr>mn_next := n\<rparr>) (mq_heap q))"

definition c_head :: "'d clog_atomic_mpsc_queue \<Rightarrow> 'd clog_atomic_mpsc_queue option" where
  "c_head q = Some (q\<lparr>mq_cons := C_head (mq_head q)\<rparr>)"

definition c_next :: "addr \<Rightarrow> 'd clog_atomic_mpsc_queue \<Rightarrow> 'd clog_atomic_mpsc_queue option" where
  "c_next a q = (case cells (mq_heap q) a of
      None \<Rightarrow> None
    | Some c \<Rightarrow>
        Some (q\<lparr>mq_cons := if mn_next c = NULL then C_idle else C_next a (mn_next c)\<rparr>))"

definition c_read :: "addr \<Rightarrow> addr \<Rightarrow> 'd clog_atomic_mpsc_queue \<Rightarrow> 'd clog_atomic_mpsc_queue option" where
  "c_read a b q = (case cells (mq_heap q) b of
      None \<Rightarrow> None
    | Some c \<Rightarrow> Some (q\<lparr>mq_cons := C_data a b (mn_data c)\<rparr>))"

definition c_store ::
    "addr \<Rightarrow> addr \<Rightarrow> 'd \<Rightarrow> 'd clog_atomic_mpsc_queue \<Rightarrow> 'd clog_atomic_mpsc_queue option" where
  "c_store a b d q =
     Some (q\<lparr>mq_head := b, mq_cons := C_stored a, mq_out := mq_out q @ [d]\<rparr>)"

definition c_free :: "addr \<Rightarrow> 'd clog_atomic_mpsc_queue \<Rightarrow> 'd clog_atomic_mpsc_queue option" where
  "c_free a q = map_option (\<lambda>h. q\<lparr>mq_heap := h, mq_cons := C_idle\<rparr>) (hfree a (mq_heap q))"

datatype 'd mpsc_action = Act_alloc nat 'd | Act_producer nat | Act_consumer

fun mpsc_step ::
    "'d mpsc_action \<Rightarrow> 'd clog_atomic_mpsc_queue \<Rightarrow> 'd clog_atomic_mpsc_queue option option" where
  "mpsc_step (Act_alloc t d) q =
     (if mq_prod q t = P_idle then Some (p_alloc t d q) else None)"
| "mpsc_step (Act_producer t) q = (case mq_prod q t of
      P_idle \<Rightarrow> None
    | P_node n \<Rightarrow> Some (p_swap t n q)
    | P_swapped n prev \<Rightarrow> Some (p_link t n prev q))"
| "mpsc_step Act_consumer q = (case mq_cons q of
      C_idle \<Rightarrow> Some (c_head q)
    | C_head a \<Rightarrow> Some (c_next a q)
    | C_next a b \<Rightarrow> Some (c_read a b q)
    | C_data a b d \<Rightarrow> Some (c_store a b d q)
    | C_stored a \<Rightarrow> Some (c_free a q))"

inductive mpsc_reach :: "('d::zero) clog_atomic_mpsc_queue \<Rightarrow> bool" where
  reach_init: "heap_ok h \<Longrightarrow> cells h = Map.empty \<Longrightarrow>
     clog_atomic_mpsc_queue_create h = (Some q, h') \<Longrightarrow> mpsc_reach q"
| reach_step: "mpsc_reach q \<Longrightarrow> mpsc_step a q = Some (Some q') \<Longrightarrow> mpsc_reach q'"

subsection \<open>The operations, run by one thread\<close>

text \<open>
  A call of \<open>clog_atomic_mpsc_queue_in\<close> by producer 0, or of \<open>clog_atomic_mpsc_queue_out\<close>, with
  no other thread running, is its steps one after the other.
\<close>

definition clog_atomic_mpsc_queue_in ::
    "'d \<Rightarrow> 'd clog_atomic_mpsc_queue \<Rightarrow> (clog_res \<times> 'd clog_atomic_mpsc_queue) option" where
  "clog_atomic_mpsc_queue_in d q = (case p_alloc 0 d q of
      None \<Rightarrow> None
    | Some q1 \<Rightarrow> (case mq_prod q1 0 of
          P_node n \<Rightarrow>
            (case p_swap 0 n q1 of
               None \<Rightarrow> None
             | Some q2 \<Rightarrow> map_option (Pair CLOG_SUCCESS) (p_link 0 n (mq_tail q1) q2))
        | _ \<Rightarrow> Some (CLOG_NO_MEMORY, q1)))"

definition clog_atomic_mpsc_queue_out ::
    "'d clog_atomic_mpsc_queue \<Rightarrow> (clog_res \<times> 'd option \<times> 'd clog_atomic_mpsc_queue) option" where
  "clog_atomic_mpsc_queue_out q = (case c_next (mq_head q) q of
      None \<Rightarrow> None
    | Some q1 \<Rightarrow> (case mq_cons q1 of
          C_next a b \<Rightarrow>
            (case c_read a b q1 of
               None \<Rightarrow> None
             | Some q2 \<Rightarrow> (case mq_cons q2 of
                   C_data _ _ d \<Rightarrow>
                     (case c_store a b d q2 of
                        None \<Rightarrow> None
                      | Some q3 \<Rightarrow> map_option (\<lambda>q4. (CLOG_SUCCESS, Some d, q4)) (c_free a q3))
                 | _ \<Rightarrow> None))
        | _ \<Rightarrow> Some (CLOG_TARGET_NOT_FOUND, None, q1)))"

partial_function (option) mpsc_destroy_loop ::
    "addr \<Rightarrow> 'd mpsc_node heap \<Rightarrow> 'd mpsc_node heap option" where
  "mpsc_destroy_loop a h =
     (if a = NULL then Some h
      else case cells h a of
        None \<Rightarrow> None
      | Some c \<Rightarrow> (case hfree a h of None \<Rightarrow> None | Some h' \<Rightarrow> mpsc_destroy_loop (mn_next c) h'))"

definition clog_atomic_mpsc_queue_destroy ::
    "'d clog_atomic_mpsc_queue option \<Rightarrow> 'd mpsc_node heap \<Rightarrow> 'd mpsc_node heap option" where
  "clog_atomic_mpsc_queue_destroy queue h = (case queue of
      None \<Rightarrow> Some h
    | Some q \<Rightarrow> map_option clog_free (mpsc_destroy_loop (mq_head q) (mq_heap q)))"

lemma in_set_tlD: "x \<in> set (tl xs) \<Longrightarrow> x \<in> set xs"
  by (cases xs) auto

subsection \<open>Links\<close>

text \<open>
  \<open>linked C P ns\<close>: the nodes \<open>ns\<close> are allocated, each links to the next one, except that the link
  of a pair in \<open>P\<close> has not been stored yet.
\<close>

fun linked :: "(addr \<Rightarrow> 'd mpsc_node option) \<Rightarrow> (addr \<times> addr) set \<Rightarrow> addr list \<Rightarrow> bool" where
  "linked C P [] = True"
| "linked C P [x] = (\<exists>c. C x = Some c \<and> mn_next c = NULL)"
| "linked C P (x # y # zs) =
     ((\<exists>c. C x = Some c \<and> (if (x, y) \<in> P then mn_next c = NULL else mn_next c = y)) \<and>
      linked C P (y # zs))"

definition steps_of :: "addr list \<Rightarrow> (addr \<times> addr) set" where
  "steps_of ns = set (zip ns (tl ns))"

lemma steps_of_simps [simp]:
  "steps_of [] = {}" "steps_of [x] = {}" "steps_of (x # y # zs) = insert (x, y) (steps_of (y # zs))"
  by (simp_all add: steps_of_def)

lemma steps_of_in: "(x, y) \<in> steps_of ns \<Longrightarrow> x \<in> set ns \<and> y \<in> set (tl ns)"
  by (auto simp: steps_of_def dest: set_zip_leftD set_zip_rightD)

lemma steps_of_append: "steps_of (ns @ [x, y]) = insert (x, y) (steps_of (ns @ [x]))"
  by (induction ns rule: induct_list012) (auto)

lemma steps_of_fun:
  "distinct ns \<Longrightarrow> (x, y) \<in> steps_of ns \<Longrightarrow> (x, y') \<in> steps_of ns \<Longrightarrow> y = y'"
  by (induction ns rule: induct_list012) (auto dest: steps_of_in)

lemma steps_of_inj:
  "distinct ns \<Longrightarrow> (x, y) \<in> steps_of ns \<Longrightarrow> (x', y) \<in> steps_of ns \<Longrightarrow> x = x'"
  by (induction ns rule: induct_list012) (fastforce dest: steps_of_in)+

lemma steps_of_last: "distinct ns \<Longrightarrow> (x, y) \<in> steps_of ns \<Longrightarrow> x \<noteq> last ns"
  by (induction ns rule: induct_list012) (auto dest: steps_of_in split: if_splits)

lemma linked_cong:
  "(\<And>x. x \<in> set ns \<Longrightarrow> C x = C' x) \<Longrightarrow> (\<And>p. p \<in> steps_of ns \<Longrightarrow> p \<in> P \<longleftrightarrow> p \<in> P') \<Longrightarrow>
   linked C P ns = linked C' P' ns"
  by (induction ns rule: induct_list012) auto

lemma linked_cells: "linked C P ns \<Longrightarrow> x \<in> set ns \<Longrightarrow> C x \<noteq> None"
  by (induction ns rule: induct_list012) auto

lemma linked_tl: "linked C P (x # y # zs) \<Longrightarrow> linked C P (y # zs)"
  by simp

lemma linked_push:
  assumes "linked C P (ns @ [x])" and "distinct (ns @ [x, y])"
    and "C y = Some c" "mn_next c = NULL"
  shows "linked C (insert (x, y) P) (ns @ [x, y])"
  using assms
proof (induction ns rule: induct_list012)
  case (2 z)
  then show ?case by auto
next
  case (3 z w zs)
  then show ?case by auto
qed simp

lemma linked_link:
  assumes "linked C P ns" and "distinct ns" and "(x, y) \<in> steps_of ns" and "C x = Some c"
  shows "linked (C(x \<mapsto> c\<lparr>mn_next := y\<rparr>)) (P - {(x, y)}) ns"
  using assms
proof (induction ns rule: induct_list012)
  case (3 z w zs)
  show ?case
  proof (cases "(x, y) \<in> steps_of (w # zs)")
    case True
    then have "x \<noteq> z" using 3(4) by (auto dest: steps_of_in)
    with 3 True show ?thesis by auto
  next
    case False
    with 3 have xy: "x = z" "y = w" by auto
    have "linked (C(x \<mapsto> c\<lparr>mn_next := y\<rparr>)) (P - {(x, y)}) (w # zs) = linked C P (w # zs)"
      by (rule linked_cong) (use 3(4) xy False in auto)
    moreover from 3(3,6) xy have "linked C P (w # zs)" "C z = Some c" by simp_all
    ultimately show ?thesis unfolding xy linked.simps(3) by simp
  qed
qed auto


subsection \<open>The invariant\<close>

definition waiting_links :: "'d clog_atomic_mpsc_queue \<Rightarrow> (addr \<times> addr) set" where
  "waiting_links q = {(p, n). \<exists>t. mq_prod q t = P_swapped n p}"

definition own_nodes :: "'d clog_atomic_mpsc_queue \<Rightarrow> addr set" where
  "own_nodes q = {n. \<exists>t. mq_prod q t = P_node n}"

definition old_head :: "'d clog_atomic_mpsc_queue \<Rightarrow> addr set" where
  "old_head q = (case mq_cons q of C_stored a \<Rightarrow> {a} | _ \<Rightarrow> {})"

definition node_data :: "'d clog_atomic_mpsc_queue \<Rightarrow> addr \<Rightarrow> 'd" where
  "node_data q a = mn_data (the (cells (mq_heap q) a))"

fun consumer_ok :: "'d clog_atomic_mpsc_queue \<Rightarrow> addr list \<Rightarrow> 'd cpc \<Rightarrow> bool" where
  "consumer_ok q ns C_idle = True"
| "consumer_ok q ns (C_head a) = (a = hd ns)"
| "consumer_ok q ns (C_next a b) = ((\<exists>zs. ns = a # b # zs) \<and> (a, b) \<notin> waiting_links q)"
| "consumer_ok q ns (C_data a b d) =
     ((\<exists>zs. ns = a # b # zs) \<and> (a, b) \<notin> waiting_links q \<and> d = node_data q b)"
| "consumer_ok q ns (C_stored a) = True"

definition producers_ok :: "'d clog_atomic_mpsc_queue \<Rightarrow> bool" where
  "producers_ok q \<longleftrightarrow>
     (\<forall>t t' n p p'. mq_prod q t = P_swapped n p \<and> mq_prod q t' = P_swapped n p' \<longrightarrow> t = t') \<and>
     (\<forall>t t' n. mq_prod q t = P_node n \<and> mq_prod q t' = P_node n \<longrightarrow> t = t') \<and>
     (\<forall>n \<in> own_nodes q. \<exists>c. cells (mq_heap q) n = Some c \<and> mn_next c = NULL)"

definition mpsc_nodes :: "'d clog_atomic_mpsc_queue \<Rightarrow> addr list \<Rightarrow> bool" where
  "mpsc_nodes q ns \<longleftrightarrow>
     heap_ok (mq_heap q) \<and> ns \<noteq> [] \<and> distinct ns \<and> hd ns = mq_head q \<and> last ns = mq_tail q \<and>
     linked (cells (mq_heap q)) (waiting_links q) ns \<and> waiting_links q \<subseteq> steps_of ns \<and>
     producers_ok q \<and> consumer_ok q ns (mq_cons q) \<and>
     set ns \<inter> own_nodes q = {} \<and> set ns \<inter> old_head q = {} \<and> own_nodes q \<inter> old_head q = {} \<and>
     dom (cells (mq_heap q)) = set ns \<union> own_nodes q \<union> old_head q \<and>
     mq_order q = mq_out q @ map (node_data q) (tl ns)"

definition mpsc_inv :: "'d clog_atomic_mpsc_queue \<Rightarrow> bool" where
  "mpsc_inv q \<longleftrightarrow> (\<exists>ns. mpsc_nodes q ns)"

lemma create_nodes:
  assumes "heap_ok h" "cells h = Map.empty" "clog_atomic_mpsc_queue_create h = (Some q, h')"
  shows "mpsc_nodes q [mq_head q] \<and> mq_out q = [] \<and> (\<forall>t. mq_prod q t = P_idle) \<and>
    mq_cons q = C_idle \<and> live (mq_heap q) = live h + 2"
proof -
  from assms(3) obtain h1 where m: "clog_malloc sizeof_mpsc_queue h = (True, h1)"
    by (auto simp: clog_atomic_mpsc_queue_create_def split: prod.splits bool.splits)
  obtain a h2 where al: "halloc \<lparr>mn_next = NULL, mn_data = 0 :: 'a\<rparr> h1 = (a, h2)"
    by (metis surj_pair)
  have q: "a \<noteq> NULL" "q = \<lparr>mq_heap = h2, mq_head = a, mq_tail = a, mq_prod = (\<lambda>_. P_idle),
      mq_cons = C_idle, mq_order = [], mq_out = []\<rparr>"
    using assms(3) m al by (auto simp: clog_atomic_mpsc_queue_create_def split: if_splits)
  have h1: "cells h1 = Map.empty" "brk h1 = brk h" "live h1 = live h + 1"
    using clog_malloc_heap [OF m] live_clog_mallocD [OF m] assms(2) by simp_all
  with assms(1,2) have ok1: "heap_ok h1" by (simp add: heap_ok_def)
  have ok2: "heap_ok h2" by (rule heap_ok_halloc [OF ok1 al])
  from al q(1) have "cells h2 = [a \<mapsto> \<lparr>mn_next = NULL, mn_data = 0\<rparr>]" "live h2 = live h + 2"
    by (cases rule: halloc_cases [OF al]; simp add: h1)+
  with q ok2 show ?thesis
    by (auto simp: mpsc_nodes_def waiting_links_def own_nodes_def old_head_def producers_ok_def)
qed

lemma alloc_nodes:
  assumes "mpsc_nodes q ns" and "mq_prod q t = P_idle" and st: "p_alloc t d q = Some q'"
  shows "mpsc_nodes q' ns"
proof -
  obtain a h where al: "halloc \<lparr>mn_next = NULL, mn_data = d\<rparr> (mq_heap q) = (a, h)"
    by (metis surj_pair)
  have q': "q' = q\<lparr>mq_heap := h, mq_prod := (mq_prod q)(t := if a = NULL then P_idle else P_node a)\<rparr>"
    using st al by (simp add: p_alloc_def)
  have ok: "heap_ok (mq_heap q)" using assms(1) by (simp add: mpsc_nodes_def)
  have ok': "heap_ok h" by (rule heap_ok_halloc [OF ok al])
  have "mq_prod q' t' = P_swapped n p \<longleftrightarrow> mq_prod q t' = P_swapped n p" for t' n p
    using assms(2) by (simp add: q')
  then have wl: "waiting_links q' = waiting_links q" by (simp add: waiting_links_def)
  have oh: "old_head q' = old_head q" by (simp add: old_head_def q')
  from al show ?thesis
  proof (cases rule: halloc_cases)
    case fail
    have p: "mq_prod q' = mq_prod q" using assms(2) fail by (auto simp: q')
    then have "own_nodes q' = own_nodes q" by (simp add: own_nodes_def)
    moreover have nd: "node_data q' = node_data q" using fail by (simp add: fun_eq_iff node_data_def q')
    moreover have "consumer_ok q' ns (mq_cons q) = consumer_ok q ns (mq_cons q)"
      by (cases "mq_cons q") (simp_all add: wl nd)
    ultimately show ?thesis using assms(1) fail ok' wl oh p
      by (simp add: mpsc_nodes_def q' producers_ok_def)
  next
    case ok
    define a where "a = brk (mq_heap q)"
    have fresh: "cells (mq_heap q) a = None"
      unfolding a_def using \<open>heap_ok (mq_heap q)\<close> by (rule heap_ok_brk)
    have a0: "a \<noteq> NULL" using \<open>heap_ok (mq_heap q)\<close> by (simp add: heap_ok_def a_def)
    have prod': "mq_prod q' = (mq_prod q)(t := P_node a)" using ok a0 by (simp add: q' a_def)
    have cells': "cells (mq_heap q') = (cells (mq_heap q))(a \<mapsto> \<lparr>mn_next = NULL, mn_data = d\<rparr>)"
      using ok by (simp add: q' a_def)
    have dm: "dom (cells (mq_heap q)) = set ns \<union> own_nodes q \<union> old_head q"
      using assms(1) by (simp add: mpsc_nodes_def)
    with fresh have an: "a \<notin> set ns" "a \<notin> own_nodes q" "a \<notin> old_head q" by blast+
    have own: "own_nodes q' = insert a (own_nodes q)"
      using assms(2) by (auto simp: own_nodes_def prod') (metis ppc.distinct(1))
    have nd: "node_data q' x = node_data q x" if "x \<noteq> a" for x
      using that by (simp add: node_data_def cells')
    have co: "consumer_ok q' ns (mq_cons q) = consumer_ok q ns (mq_cons q)"
      using an by (cases "mq_cons q") (auto simp: wl nd)
    have lk: "linked (cells (mq_heap q')) (waiting_links q') ns = linked (cells (mq_heap q)) (waiting_links q) ns"
      by (rule linked_cong) (use an wl in \<open>auto simp: cells'\<close>)
    have po: "producers_ok q'"
      using assms(1,2) an unfolding producers_ok_def own prod' cells'
      by (auto simp: mpsc_nodes_def producers_ok_def own_nodes_def)
    have mp: "map (node_data q') (tl ns) = map (node_data q) (tl ns)"
      using an(1) by (auto intro!: nd dest: in_set_tlD)
    have "dom (cells (mq_heap q')) = set ns \<union> own_nodes q' \<union> old_head q'"
      by (simp add: cells' own oh dm insert_commute)
    with assms(1) co lk po mp an ok' show ?thesis
      by (simp add: mpsc_nodes_def own oh wl) (simp add: q')
  qed
qed


lemma linked_last: "linked C P ns \<Longrightarrow> ns \<noteq> [] \<Longrightarrow> \<exists>c. C (last ns) = Some c \<and> mn_next c = NULL"
  by (induction ns rule: induct_list012) auto

lemma swap_nodes:
  assumes inv: "mpsc_nodes q ns" and t: "mq_prod q t = P_node n" and st: "p_swap t n q = Some q'"
  shows "mpsc_nodes q' (ns @ [n])"
proof -
  have n_own: "n \<in> own_nodes q" using t by (auto simp: own_nodes_def)
  from inv have facts: "ns \<noteq> []" "distinct ns" "last ns = mq_tail q" "producers_ok q"
    "set ns \<inter> own_nodes q = {}" "own_nodes q \<inter> old_head q = {}"
    "waiting_links q \<subseteq> steps_of ns" "mq_order q = mq_out q @ map (node_data q) (tl ns)"
    "dom (cells (mq_heap q)) = set ns \<union> own_nodes q \<union> old_head q"
    "linked (cells (mq_heap q)) (waiting_links q) ns" "consumer_ok q ns (mq_cons q)"
    by (auto simp: mpsc_nodes_def)
  from facts(4) n_own obtain c where c: "cells (mq_heap q) n = Some c" "mn_next c = NULL"
    by (auto simp: producers_ok_def)
  have q': "q' = q\<lparr>mq_tail := n, mq_prod := (mq_prod q)(t := P_swapped n (last ns)),
      mq_order := mq_order q @ [mn_data c]\<rparr>"
    using st c facts(3) by (simp add: p_swap_def)
  have nns: "n \<notin> set ns" "last ns \<in> set ns" using facts(1,5) n_own by auto
  have wl: "waiting_links q' = insert (last ns, n) (waiting_links q)"
  proof -
    have "mq_prod q' t' = P_swapped m p \<longleftrightarrow> t' = t \<and> m = n \<and> p = last ns \<or> mq_prod q t' = P_swapped m p"
      for t' m p
      using t by (auto simp: q')
    then show ?thesis by (auto simp: waiting_links_def)
  qed
  have own: "own_nodes q' = own_nodes q - {n}"
  proof -
    have "mq_prod q' t' = P_node m \<longleftrightarrow> mq_prod q t' = P_node m \<and> m \<noteq> n" for t' m
      using t facts(4) by (auto simp: q' producers_ok_def)
    then show ?thesis by (auto simp: own_nodes_def)
  qed
  have nd: "node_data q' = node_data q" by (simp add: fun_eq_iff node_data_def q')
  have oh: "old_head q' = old_head q" by (simp add: old_head_def q')
  have split: "ns = butlast ns @ [last ns]" using facts(1) by simp
  have bl: "butlast ns @ [last ns, n] = ns @ [n]" "butlast ns @ [last ns] = ns"
    using facts(1) by (metis append.assoc append_Cons append_Nil split, simp)
  have dn: "distinct (butlast ns @ [last ns, n])" unfolding bl using facts(2) nns(1) by simp
  have "linked (cells (mq_heap q)) (insert (last ns, n) (waiting_links q)) (butlast ns @ [last ns, n])"
    by (rule linked_push [where C = "cells (mq_heap q)" and y = n, OF _ dn c])
      (unfold bl, rule facts(10))
  then have lk: "linked (cells (mq_heap q')) (waiting_links q') (ns @ [n])"
    unfolding bl wl by (simp add: q')
  have "steps_of (butlast ns @ [last ns, n]) = insert (last ns, n) (steps_of ns)"
    using steps_of_append [of "butlast ns" "last ns" n] split by simp
  then have so: "steps_of (ns @ [n]) = insert (last ns, n) (steps_of ns)" by (simp only: bl)
  have "(p, n) \<notin> waiting_links q" for p
    using facts(7) nns(1) by (auto dest!: subsetD steps_of_in dest: in_set_tlD)
  then have noex: "mq_prod q t' \<noteq> P_swapped n p" for t' p by (auto simp: waiting_links_def)
  have po: "producers_ok q'"
    using facts(4) noex unfolding producers_ok_def own
    by (auto simp: q' split: if_splits)
  have "consumer_ok q' (ns @ [n]) (mq_cons q)"
    using facts(11,1,2) nns by (cases "mq_cons q") (auto simp: wl nd)
  then have co: "consumer_ok q' (ns @ [n]) (mq_cons q')" by (simp add: q')
  show ?thesis
    unfolding mpsc_nodes_def
    using inv facts nns n_own own oh lk so wl po co nd c
    by (auto simp: mpsc_nodes_def q' node_data_def)
qed

lemma link_nodes:
  assumes inv: "mpsc_nodes q ns" and t: "mq_prod q t = P_swapped n prev"
    and st: "p_link t n prev q = Some q'"
  shows "mpsc_nodes q' ns"
proof -
  from inv have facts: "distinct ns" "producers_ok q" "set ns \<inter> own_nodes q = {}"
    "waiting_links q \<subseteq> steps_of ns" "linked (cells (mq_heap q)) (waiting_links q) ns"
    "consumer_ok q ns (mq_cons q)" "heap_ok (mq_heap q)"
    by (auto simp: mpsc_nodes_def)
  have wp: "(prev, n) \<in> waiting_links q" using t by (auto simp: waiting_links_def)
  with facts(4) have stp: "(prev, n) \<in> steps_of ns" by blast
  then have pns: "prev \<in> set ns" by (auto dest: steps_of_in)
  with linked_cells [OF facts(5)] obtain c where c: "cells (mq_heap q) prev = Some c" by blast
  define h where "h = (mq_heap q)\<lparr>cells := (cells (mq_heap q))(prev \<mapsto> c\<lparr>mn_next := n\<rparr>)\<rparr>"
  have q': "q' = q\<lparr>mq_heap := h, mq_prod := (mq_prod q)(t := P_idle)\<rparr>"
    using st c by (simp add: p_link_def hupd_def h_def)
  have wl: "waiting_links q' = waiting_links q - {(prev, n)}"
  proof -
    have "mq_prod q' t' = P_swapped m p \<longleftrightarrow> mq_prod q t' = P_swapped m p \<and> (p, m) \<noteq> (prev, n)"
      for t' m p
      using t facts(2) unfolding producers_ok_def q' by (auto split: if_splits)
    then show ?thesis by (auto simp: waiting_links_def)
  qed
  have own: "own_nodes q' = own_nodes q"
  proof -
    have "mq_prod q' t' = P_node m \<longleftrightarrow> mq_prod q t' = P_node m" for t' m
      using t by (simp add: q')
    then show ?thesis by (simp add: own_nodes_def)
  qed
  have nd: "node_data q' = node_data q"
    using c by (auto simp: fun_eq_iff node_data_def q' h_def)
  have oh: "old_head q' = old_head q" by (simp add: old_head_def q')
  have lk: "linked (cells (mq_heap q')) (waiting_links q') ns"
    using linked_link [OF facts(5,1) stp c] by (simp add: wl) (simp add: q' h_def)
  have po: "producers_ok q'"
    unfolding producers_ok_def own
  proof (intro conjI allI impI ballI)
    fix t1 t2 m p p' assume "mq_prod q' t1 = P_swapped m p \<and> mq_prod q' t2 = P_swapped m p'"
    then show "t1 = t2" using facts(2) by (auto simp: q' producers_ok_def split: if_splits)
  next
    fix t1 t2 m assume "mq_prod q' t1 = P_node m \<and> mq_prod q' t2 = P_node m"
    then show "t1 = t2" using facts(2) by (auto simp: q' producers_ok_def split: if_splits)
  next
    fix m assume m: "m \<in> own_nodes q"
    then have "m \<noteq> prev" using pns facts(3) by blast
    with m facts(2) show "\<exists>c. cells (mq_heap q') m = Some c \<and> mn_next c = NULL"
      by (simp add: q' h_def producers_ok_def)
  qed
  have co: "consumer_ok q' ns (mq_cons q)"
    using facts(6) by (cases "mq_cons q") (auto simp: wl nd)
  have hok: "heap_ok h" using facts(7) c by (auto simp: heap_ok_def h_def)
  have dm: "dom (cells (mq_heap q')) = dom (cells (mq_heap q))"
    using c by (auto simp: q' h_def)
  have sub: "waiting_links q' \<subseteq> steps_of ns" using wl facts(4) by blast
  show ?thesis
    using inv lk po co hok dm sub unfolding mpsc_nodes_def own oh nd
    by (simp add: q')
qed

lemma consumer_frame:
  "waiting_links (q\<lparr>mq_cons := c\<rparr>) = waiting_links q" "own_nodes (q\<lparr>mq_cons := c\<rparr>) = own_nodes q"
  "node_data (q\<lparr>mq_cons := c\<rparr>) = node_data q" "producers_ok (q\<lparr>mq_cons := c\<rparr>) = producers_ok q"
  by (simp_all add: waiting_links_def own_nodes_def node_data_def producers_ok_def fun_eq_iff)

lemma consumer_step:
  assumes inv: "mpsc_nodes q ns" and st: "mpsc_step Act_consumer q = Some r"
  shows "\<exists>q' ns'. r = Some q' \<and> mpsc_nodes q' ns'"
proof (cases "mq_cons q")
  case C_idle
  with inv st show ?thesis
    by (auto simp: c_head_def mpsc_nodes_def consumer_frame old_head_def intro!: exI [of _ ns])
next
  case (C_head a)
  with inv have a: "a = hd ns" "ns \<noteq> []"
    "linked (cells (mq_heap q)) (waiting_links q) ns" "old_head q = {}" "heap_ok (mq_heap q)"
    by (auto simp: mpsc_nodes_def old_head_def)
  with linked_cells [OF a(3)] obtain c where c: "cells (mq_heap q) a = Some c"
    by (metis hd_in_set not_None_eq)
  let ?q = "q\<lparr>mq_cons := if mn_next c = NULL then C_idle else C_next a (mn_next c)\<rparr>"
  have "consumer_ok ?q ns (mq_cons ?q)"
  proof (cases ns rule: remdups_adj.cases)
    case (3 x y zs)
    with a c have "if (a, y) \<in> waiting_links q then mn_next c = NULL else mn_next c = y" by auto
    with 3 a show ?thesis by (auto simp: consumer_frame split: if_splits)
  qed (use a c in auto)
  then have "mpsc_nodes ?q ns"
    using inv a(4) by (simp add: mpsc_nodes_def consumer_frame) (auto simp: old_head_def)
  moreover have "r = Some ?q" using st C_head c by (simp add: c_next_def)
  ultimately show ?thesis by blast
next
  case (C_next a b)
  with inv obtain zs where ns: "ns = a # b # zs" "(a, b) \<notin> waiting_links q"
    "linked (cells (mq_heap q)) (waiting_links q) ns" "old_head q = {}"
    by (auto simp: mpsc_nodes_def old_head_def)
  with linked_cells [OF ns(3), of b] obtain c where c: "cells (mq_heap q) b = Some c" by auto
  let ?q = "q\<lparr>mq_cons := C_data a b (mn_data c)\<rparr>"
  have "mpsc_nodes ?q ns"
    using inv ns c by (simp add: mpsc_nodes_def consumer_frame) (auto simp: old_head_def node_data_def)
  moreover have "r = Some ?q" using st C_next c by (simp add: c_read_def)
  ultimately show ?thesis by blast
next
  case (C_data a b d)
  with inv obtain zs where ns: "ns = a # b # zs" "(a, b) \<notin> waiting_links q" "d = node_data q b"
    by (auto simp: mpsc_nodes_def)
  define q1 where "q1 = q\<lparr>mq_head := b, mq_cons := C_stored a, mq_out := mq_out q @ [d]\<rparr>"
  have frame: "waiting_links q1 = waiting_links q" "own_nodes q1 = own_nodes q"
    "node_data q1 = node_data q" "producers_ok q1 = producers_ok q" "old_head q1 = {a}"
    "mq_heap q1 = mq_heap q" "mq_head q1 = b" "mq_tail q1 = mq_tail q" "mq_cons q1 = C_stored a"
    "mq_order q1 = mq_order q" "mq_out q1 = mq_out q @ [d]"
    by (simp_all add: q1_def waiting_links_def own_nodes_def node_data_def producers_ok_def
        fun_eq_iff old_head_def)
  have oh: "old_head q = {}" using C_data by (simp add: old_head_def)
  have "linked (cells (mq_heap q)) (waiting_links q) (b # zs)"
    "waiting_links q \<subseteq> steps_of (b # zs)"
    using inv ns by (auto simp: mpsc_nodes_def)
  with inv oh have "mpsc_nodes q1 (b # zs)"
    unfolding mpsc_nodes_def frame ns by auto
  moreover have "r = Some q1" using st C_data by (simp add: c_store_def q1_def)
  ultimately show ?thesis by blast
next
  case (C_stored a)
  have oh: "old_head q = {a}" using C_stored by (simp add: old_head_def)
  with inv have f: "a \<notin> set ns" "a \<notin> own_nodes q" "cells (mq_heap q) a \<noteq> None" "heap_ok (mq_heap q)"
    by (auto simp: mpsc_nodes_def)
  then obtain c where c: "cells (mq_heap q) a = Some c" by blast
  define h where "h = (clog_free (mq_heap q))\<lparr>cells := (cells (mq_heap q))(a := None)\<rparr>"
  have fr: "hfree a (mq_heap q) = Some h" unfolding h_def by (rule hfree_Some [OF c])
  let ?q = "q\<lparr>mq_heap := h, mq_cons := C_idle\<rparr>"
  have frame: "waiting_links ?q = waiting_links q" "own_nodes ?q = own_nodes q" "old_head ?q = {}"
    by (simp_all add: waiting_links_def own_nodes_def old_head_def)
  have lk: "linked (cells h) (waiting_links q) ns"
  proof -
    have "linked (cells h) (waiting_links q) ns = linked (cells (mq_heap q)) (waiting_links q) ns"
      by (rule linked_cong) (use f(1) in \<open>auto simp: h_def\<close>)
    with inv show ?thesis by (simp add: mpsc_nodes_def)
  qed
  have po: "producers_ok ?q"
    using inv f unfolding producers_ok_def frame by (auto simp: mpsc_nodes_def producers_ok_def h_def)
  have nd: "map (node_data ?q) (tl ns) = map (node_data q) (tl ns)"
    using f(1) by (auto simp: node_data_def h_def dest: in_set_tlD)
  have dm: "dom (cells h) = dom (cells (mq_heap q)) - {a}" by (auto simp: h_def)
  have "mpsc_nodes ?q ns"
    using inv lk po nd dm f heap_ok_hfree [OF f(4) fr] oh unfolding mpsc_nodes_def frame by auto
  moreover have "r = Some ?q" using st C_stored fr by (simp add: c_free_def)
  ultimately show ?thesis by blast
qed


lemma mpsc_step_nodes:
  assumes inv: "mpsc_nodes q ns" and st: "mpsc_step a q = Some r"
  shows "\<exists>q' ns'. r = Some q' \<and> mpsc_nodes q' ns'"
proof (cases a)
  case (Act_alloc t d)
  with st have r: "mq_prod q t = P_idle" "r = p_alloc t d q" by (auto split: if_splits)
  moreover obtain q' where "p_alloc t d q = Some q'"
    by (cases "halloc \<lparr>mn_next = NULL, mn_data = d\<rparr> (mq_heap q)") (simp add: p_alloc_def)
  ultimately show ?thesis using alloc_nodes [OF inv] by blast
next
  case (Act_producer t)
  show ?thesis
  proof (cases "mq_prod q t")
    case P_idle
    with Act_producer st show ?thesis by simp
  next
    case (P_node n)
    then have "n \<in> own_nodes q" by (auto simp: own_nodes_def)
    with inv obtain c where "cells (mq_heap q) n = Some c"
      by (auto simp: mpsc_nodes_def producers_ok_def)
    then obtain q' where "p_swap t n q = Some q'" by (simp add: p_swap_def)
    with Act_producer P_node st swap_nodes [OF inv P_node] show ?thesis by auto
  next
    case (P_swapped n p)
    then have "(p, n) \<in> waiting_links q" by (auto simp: waiting_links_def)
    with inv have "p \<in> set ns" by (auto simp: mpsc_nodes_def dest!: subsetD steps_of_in)
    with inv obtain c where "cells (mq_heap q) p = Some c"
      using linked_cells by (fastforce simp: mpsc_nodes_def)
    then obtain q' where "p_link t n p q = Some q'" by (simp add: p_link_def hupd_def)
    with Act_producer P_swapped st link_nodes [OF inv P_swapped] show ?thesis by auto
  qed
next
  case Act_consumer
  with st consumer_step [OF inv] show ?thesis by simp
qed

lemma mpsc_reach_inv: "mpsc_reach q \<Longrightarrow> mpsc_inv q"
proof (induction rule: mpsc_reach.induct)
  case (reach_init h q h')
  with create_nodes show ?case by (fastforce simp: mpsc_inv_def)
next
  case (reach_step q a q')
  with mpsc_step_nodes show ?case by (fastforce simp: mpsc_inv_def)
qed

subsection \<open>The FIFO contract\<close>

lemma halloc_null: "halloc c h = (NULL, h') \<Longrightarrow> heap_ok h \<Longrightarrow> live h' = live h"
  by (erule halloc_cases) (auto simp: heap_ok_def)

definition mpsc_rep :: "'d clog_atomic_mpsc_queue \<Rightarrow> 'd list \<Rightarrow> bool" where
  "mpsc_rep q ds \<longleftrightarrow> mpsc_inv q \<and> (\<forall>t. mq_prod q t = P_idle) \<and> mq_cons q = C_idle \<and>
     mq_order q = mq_out q @ ds \<and> live (mq_heap q) = int (length ds) + 2"

lemma mpsc_in_rep:
  assumes "mpsc_rep q ds"
  shows "\<exists>r q'. clog_atomic_mpsc_queue_in d q = Some (r, q') \<and>
    (r = CLOG_SUCCESS \<and> mpsc_rep q' (ds @ [d]) \<or> r = CLOG_NO_MEMORY \<and> mpsc_rep q' ds)"
proof -
  from assms obtain ns where inv: "mpsc_nodes q ns" and idle: "\<forall>t. mq_prod q t = P_idle"
    "mq_cons q = C_idle" and ord: "mq_order q = mq_out q @ ds"
    by (auto simp: mpsc_rep_def mpsc_inv_def)
  obtain a h where al: "halloc \<lparr>mn_next = NULL, mn_data = d\<rparr> (mq_heap q) = (a, h)"
    by (metis surj_pair)
  define q1 where
    "q1 = q\<lparr>mq_heap := h, mq_prod := (mq_prod q)(0 := if a = NULL then P_idle else P_node a)\<rparr>"
  have p1: "p_alloc 0 d q = Some q1" using al by (simp add: p_alloc_def q1_def)
  have inv1: "mpsc_nodes q1 ns" by (rule alloc_nodes [OF inv _ p1]) (use idle in simp)
  show ?thesis
  proof (cases "a = NULL")
    case True
    then have "clog_atomic_mpsc_queue_in d q = Some (CLOG_NO_MEMORY, q1)"
      using p1 by (simp add: clog_atomic_mpsc_queue_in_def) (simp add: q1_def)
    moreover have "mpsc_rep q1 ds"
      using assms inv1 idle ord True halloc_null [OF al [unfolded True]] inv
      by (auto simp: mpsc_rep_def mpsc_inv_def q1_def mpsc_nodes_def)
    ultimately show ?thesis by blast
  next
    case False
    have n: "mq_prod q1 0 = P_node a" using False by (simp add: q1_def)
    have ca: "cells h a = Some \<lparr>mn_next = NULL, mn_data = d\<rparr>"
      using False by (cases rule: halloc_cases [OF al]) auto
    obtain q2 where p2: "p_swap 0 a q1 = Some q2" using ca by (simp add: p_swap_def q1_def)
    have l1: "live h = live (mq_heap q) + 1" using False by (cases rule: halloc_cases [OF al]) auto
    have q2: "live (mq_heap q2) = live h" "mq_prod q2 = (mq_prod q1)(0 := P_swapped a (mq_tail q1))"
      "mq_order q2 = mq_order q @ [d]" "mq_out q2 = mq_out q" "mq_cons q2 = C_idle"
      using p2 ca idle by (auto simp: p_swap_def q1_def)
    have inv2: "mpsc_nodes q2 (ns @ [a])" by (rule swap_nodes [OF inv1 n p2])
    have n2: "mq_prod q2 0 = P_swapped a (mq_tail q1)" by (simp add: q2)
    from mpsc_step_nodes [OF inv2, of "Act_producer 0"] n2 obtain q3 where
      p3: "p_link 0 a (mq_tail q1) q2 = Some q3" by auto
    have inv3: "mpsc_nodes q3 (ns @ [a])" by (rule link_nodes [OF inv2 n2 p3])
    have "mq_prod q3 = (mq_prod q2)(0 := P_idle)" "mq_order q3 = mq_order q2"
      "mq_out q3 = mq_out q2" "mq_cons q3 = mq_cons q2" "live (mq_heap q3) = live (mq_heap q2)"
      using p3 by (auto simp: p_link_def hupd_def split: option.splits)
    with q2 idle have "\<forall>t. mq_prod q3 t = P_idle" "mq_cons q3 = C_idle"
      "mq_order q3 = mq_out q3 @ ds @ [d]" "live (mq_heap q3) = int (length (ds @ [d])) + 2"
      using ord l1 assms by (auto simp: q1_def mpsc_rep_def)
    with inv3 have "mpsc_rep q3 (ds @ [d])" by (auto simp: mpsc_rep_def mpsc_inv_def)
    moreover have "clog_atomic_mpsc_queue_in d q = Some (CLOG_SUCCESS, q3)"
      using p1 n p2 p3 by (simp add: clog_atomic_mpsc_queue_in_def)
    ultimately show ?thesis by blast
  qed
qed

text \<open>What the consumer sees of a list of linked nodes.\<close>

lemma consumer_view:
  assumes inv: "mpsc_nodes q ns" and w: "waiting_links q = {}"
  obtains (empty) "ns = [mq_head q]" "mq_order q = mq_out q"
      "\<exists>c. cells (mq_heap q) (mq_head q) = Some c \<and> mn_next c = NULL"
    | (more) b zs c c' where "ns = mq_head q # b # zs" "cells (mq_heap q) (mq_head q) = Some c"
      "mn_next c = b" "b \<noteq> NULL" "cells (mq_heap q) b = Some c'"
      "mq_order q = mq_out q @ mn_data c' # map (node_data q) zs"
proof (cases ns rule: remdups_adj.cases)
  case 1
  with inv show ?thesis by (simp add: mpsc_nodes_def)
next
  case (2 x)
  with inv show ?thesis by (intro empty) (auto simp: mpsc_nodes_def)
next
  case (3 x b zs)
  with inv w obtain c where f: "x = mq_head q" "cells (mq_heap q) x = Some c \<and> mn_next c = b"
    "linked (cells (mq_heap q)) {} (b # zs)" "heap_ok (mq_heap q)"
    "mq_order q = mq_out q @ node_data q b # map (node_data q) zs"
    by (auto simp: mpsc_nodes_def)
  from linked_cells [OF f(3), of b] obtain c' where c': "cells (mq_heap q) b = Some c'" by auto
  with heap_ok_null [OF f(4)] have "b \<noteq> NULL" by (metis option.distinct(1))
  with 3 f c' show ?thesis by (intro more [of b zs c c']) (auto simp: node_data_def)
qed

lemma mpsc_out_rep:
  assumes "mpsc_rep q ds"
  shows "case ds of
      [] \<Rightarrow> \<exists>q'. clog_atomic_mpsc_queue_out q = Some (CLOG_TARGET_NOT_FOUND, None, q') \<and> mpsc_rep q' []
    | d # ds' \<Rightarrow> \<exists>q'. clog_atomic_mpsc_queue_out q = Some (CLOG_SUCCESS, Some d, q') \<and> mpsc_rep q' ds'"
proof -
  from assms obtain ns where inv: "mpsc_nodes q ns" and idle: "\<forall>t. mq_prod q t = P_idle"
    "mq_cons q = C_idle" and ord: "mq_order q = mq_out q @ ds"
    by (auto simp: mpsc_rep_def mpsc_inv_def)
  have w: "waiting_links q = {}" using idle(1) by (simp add: waiting_links_def)
  from inv w show ?thesis
  proof (cases rule: consumer_view)
    case empty
    then have "clog_atomic_mpsc_queue_out q =
        Some (CLOG_TARGET_NOT_FOUND, None, q\<lparr>mq_cons := C_idle\<rparr>)"
      by (auto simp: clog_atomic_mpsc_queue_out_def c_next_def)
    moreover have "q\<lparr>mq_cons := C_idle\<rparr> = q" using idle(2) by simp
    ultimately show ?thesis using assms empty(2) ord by simp
  next
    case (more b zs c c')
    let ?a = "mq_head q"
    obtain qh where qh: "mpsc_step Act_consumer q = Some (Some qh)" "qh = q\<lparr>mq_cons := C_head ?a\<rparr>"
      using idle(2) by (simp add: c_head_def)
    obtain ns0 where "mpsc_nodes qh ns0" using mpsc_step_nodes [OF inv qh(1)] by auto
    moreover define q1 where "q1 = q\<lparr>mq_cons := C_next ?a b\<rparr>"
    have "mpsc_step Act_consumer qh = Some (Some q1)" using more qh(2) by (simp add: c_next_def q1_def)
    ultimately obtain ns1 where i1: "mpsc_nodes q1 ns1" using mpsc_step_nodes by fastforce
    define q2 where "q2 = q\<lparr>mq_cons := C_data ?a b (mn_data c')\<rparr>"
    have s2: "mpsc_step Act_consumer q1 = Some (Some q2)" using more by (simp add: q1_def q2_def c_read_def)
    obtain ns2 where i2: "mpsc_nodes q2 ns2" using mpsc_step_nodes [OF i1 s2] by auto
    define q3 where
      "q3 = q\<lparr>mq_head := b, mq_cons := C_stored ?a, mq_out := mq_out q @ [mn_data c']\<rparr>"
    have s3: "mpsc_step Act_consumer q2 = Some (Some q3)" by (simp add: q2_def q3_def c_store_def)
    obtain ns3 where i3: "mpsc_nodes q3 ns3" using mpsc_step_nodes [OF i2 s3] by auto
    have "mpsc_step Act_consumer q3 = Some (c_free ?a q3)" by (simp add: q3_def)
    with mpsc_step_nodes [OF i3 this] obtain q4 ns4 where
      q4: "c_free ?a q3 = Some q4" "mpsc_nodes q4 ns4" by auto
    then have "mq_cons q4 = C_idle" "mq_prod q4 = mq_prod q" "mq_out q4 = mq_out q @ [mn_data c']"
      "mq_order q4 = mq_order q" "live (mq_heap q4) = live (mq_heap q) - 1"
      by (auto simp: c_free_def q3_def hfree_def mem_simps split: option.splits)
    moreover from ord more have ds: "ds = mn_data c' # map (node_data q) zs" by simp
    ultimately have "mpsc_rep q4 (map (node_data q) zs)"
      using q4(2) idle ord assms by (auto simp: mpsc_rep_def mpsc_inv_def)
    moreover have "clog_atomic_mpsc_queue_out q = Some (CLOG_SUCCESS, Some (mn_data c'), q4)"
      using more q4(1)
      by (simp add: clog_atomic_mpsc_queue_out_def c_next_def c_read_def c_store_def q3_def)
    ultimately show ?thesis using ds by simp
  qed
qed

lemma mpsc_create_rep:
  assumes "clog_atomic_mpsc_queue_create (heap_empty orc) = (Some q, h)"
  shows "mpsc_rep q []"
proof -
  have n: "mpsc_nodes q [mq_head q] \<and> mq_out q = [] \<and> (\<forall>t. mq_prod q t = P_idle) \<and>
      mq_cons q = C_idle \<and> live (mq_heap q) = 2"
    using create_nodes [OF _ _ assms] by (simp add: heap_empty_def heap_ok_def)
  then have "mpsc_inv q" by (auto simp only: mpsc_inv_def)
  moreover from n have "mq_order q = []" by (simp add: mpsc_nodes_def)
  ultimately show "mpsc_rep q []" using n by (simp add: mpsc_rep_def)
qed

interpretation mpsc: fifo_queue mpsc_rep clog_atomic_mpsc_queue_in clog_atomic_mpsc_queue_out
proof (unfold_locales, goal_cases)
  case (1 s ds d)
  then show ?case by (rule mpsc_in_rep)
next
  case (2 s)
  from mpsc_out_rep [OF 2] show ?case by simp
next
  case (3 s d ds)
  from mpsc_out_rep [OF 3] show ?case by simp
qed


lemma destroy_loop_spec:
  assumes "linked (cells h) {} ns" "distinct ns" "NULL \<notin> set ns" "ns \<noteq> []"
  shows "\<exists>h'. mpsc_destroy_loop (hd ns) h = Some h' \<and> live h' = live h - int (length ns) \<and>
    dom (cells h') = dom (cells h) - set ns"
  using assms
proof (induction ns arbitrary: h)
  case (Cons x xs)
  from linked_cells [OF Cons.prems(1), of x] obtain c where c: "cells h x = Some c" by auto
  define h1 where "h1 = (clog_free h)\<lparr>cells := (cells h)(x := None)\<rparr>"
  have fr: "hfree x h = Some h1" unfolding h1_def by (rule hfree_Some [OF c])
  have x0: "x \<noteq> NULL" using Cons.prems(3) by auto
  have un: "mpsc_destroy_loop x h = mpsc_destroy_loop (mn_next c) h1"
    using c fr x0 by (subst mpsc_destroy_loop.simps) simp
  show ?case
  proof (cases xs)
    case Nil
    with Cons.prems c have "mn_next c = NULL" by simp
    with un Nil c show ?thesis
      by (subst (asm) (2) mpsc_destroy_loop.simps) (auto simp: h1_def mem_simps)
  next
    case (Cons y ys)
    have lk: "linked (cells h) {} xs" using Cons.prems(1) Cons by simp
    have "linked (cells h1) {} xs = linked (cells h) {} xs"
      by (rule linked_cong) (use Cons.prems(2) in \<open>auto simp: h1_def\<close>)
    with lk have "linked (cells h1) {} xs" by simp
    from Cons.IH [OF this] Cons.prems Cons obtain h' where
      "mpsc_destroy_loop y h1 = Some h'" "live h' = live h1 - int (length xs)"
      "dom (cells h') = dom (cells h1) - set xs" by auto
    moreover have "mn_next c = y" using Cons.prems(1) Cons c by simp
    ultimately show ?thesis using un by (auto simp: h1_def mem_simps)
  qed
qed simp

lemma mpsc_destroy_rep:
  assumes "mpsc_rep q ds"
  shows "\<exists>h'. clog_atomic_mpsc_queue_destroy (Some q) h = Some h' \<and>
    live h' = 0 \<and> cells h' = Map.empty"
proof -
  from assms obtain ns where inv: "mpsc_nodes q ns" and idle: "\<forall>t. mq_prod q t = P_idle"
    "mq_cons q = C_idle" and ord: "mq_order q = mq_out q @ ds"
    by (auto simp: mpsc_rep_def mpsc_inv_def)
  have w: "waiting_links q = {}" "own_nodes q = {}" "old_head q = {}"
    using idle by (simp_all add: waiting_links_def own_nodes_def old_head_def)
  from inv w have f: "linked (cells (mq_heap q)) {} ns" "distinct ns" "ns \<noteq> []"
    "hd ns = mq_head q" "dom (cells (mq_heap q)) = set ns" "heap_ok (mq_heap q)"
    "mq_order q = mq_out q @ map (node_data q) (tl ns)"
    by (auto simp: mpsc_nodes_def)
  have "NULL \<notin> set ns" using heap_ok_null [OF f(6)] f(5) by blast
  from destroy_loop_spec [OF f(1,2) this f(3)] f(4,5) obtain h' where
    "mpsc_destroy_loop (mq_head q) (mq_heap q) = Some h'"
    "live h' = live (mq_heap q) - int (length ns)" "dom (cells h') = {}" by auto
  moreover have "length ns = Suc (length ds)" using f(3,7) ord by (cases ns) auto
  moreover have "live (mq_heap q) = int (length ds) + 2" using assms by (simp add: mpsc_rep_def)
  ultimately show ?thesis
    by (auto simp: clog_atomic_mpsc_queue_destroy_def mem_simps clog_free_def)
qed

subsection \<open>Properties\<close>

text \<open>
  C7. No thread ever touches a node that is not allocated: in every state reachable by any
  interleaving of producers and the consumer, whatever allocations are refused, the next step
  of any thread accesses allocated nodes only. In particular the consumer's release of the old
  head never races with a producer that still has to store its link.
\<close>
theorem mpsc_memory_safe: "mpsc_reach q \<Longrightarrow> mpsc_step a q \<noteq> Some None"
proof
  assume "mpsc_reach q" and st: "mpsc_step a q = Some None"
  then obtain ns where "mpsc_nodes q ns" using mpsc_reach_inv by (auto simp: mpsc_inv_def)
  from mpsc_step_nodes [OF this st] show False by simp
qed

definition ex_mpsc :: "nat clog_atomic_mpsc_queue" where
  "ex_mpsc = the (fst (clog_atomic_mpsc_queue_create (heap_empty (\<lambda>_. True))))"

lemma ex_mpsc_reach: "mpsc_reach ex_mpsc"
proof (rule reach_init)
  show "clog_atomic_mpsc_queue_create (heap_empty (\<lambda>_. True)) =
      (Some ex_mpsc, snd (clog_atomic_mpsc_queue_create (heap_empty (\<lambda>_. True))))"
    by (simp add: ex_mpsc_def clog_atomic_mpsc_queue_create_def clog_malloc_def halloc_def
        sizeof_mpsc_queue_def heap_empty_def)
qed (simp_all add: heap_empty_def heap_ok_def)

lemma mpsc_memory_safe_witness: "mpsc_step (Act_alloc 3 (7::nat)) ex_mpsc \<noteq> Some None"
  by (rule mpsc_memory_safe [OF ex_mpsc_reach])

text \<open>
  C6. Data comes out in the order in which the producers exchanged the tail, nothing is lost or
  repeated, and the consumer reports an empty queue only if everything was taken or the producer
  of the next element has not stored its link yet.
\<close>
theorem mpsc_fifo_order:
  assumes "mpsc_reach q"
  shows "\<exists>pending. mq_order q = mq_out q @ pending \<and>
    (\<forall>a q'. mq_cons q = C_head a \<longrightarrow> mpsc_step Act_consumer q = Some (Some q') \<longrightarrow>
       mq_cons q' = C_idle \<longrightarrow> pending = [] \<or> (\<exists>t n. mq_prod q t = P_swapped n (mq_head q)))"
proof -
  from assms obtain ns where inv: "mpsc_nodes q ns" using mpsc_reach_inv by (auto simp: mpsc_inv_def)
  have miss: "tl ns = [] \<or> (\<exists>t n. mq_prod q t = P_swapped n (mq_head q))"
    if "mq_cons q = C_head a" "mpsc_step Act_consumer q = Some (Some q')" "mq_cons q' = C_idle" for a q'
  proof (cases ns rule: remdups_adj.cases)
    case (3 x b zs)
    with inv that have x: "x = mq_head q" "a = mq_head q" "linked (cells (mq_heap q)) (waiting_links q) (x # b # zs)"
      by (auto simp: mpsc_nodes_def)
    have "b \<noteq> NULL"
      using linked_cells [OF x(3), of b] inv heap_ok_null [of "mq_heap q"]
      by (auto simp: mpsc_nodes_def)
    with x that have "(x, b) \<in> waiting_links q" by (auto simp: c_next_def split: if_splits)
    then show ?thesis by (auto simp: waiting_links_def x(1))
  qed auto
  show ?thesis
  proof (intro exI conjI allI impI)
    show "mq_order q = mq_out q @ map (node_data q) (tl ns)" using inv by (simp add: mpsc_nodes_def)
  next
    fix a q'
    assume "mq_cons q = C_head a" "mpsc_step Act_consumer q = Some (Some q')" "mq_cons q' = C_idle"
    from miss [OF this] show "map (node_data q) (tl ns) = [] \<or>
        (\<exists>t n. mq_prod q t = P_swapped n (mq_head q))" by auto
  qed
qed

lemma mpsc_fifo_order_witness:
  "\<exists>pending. mq_order ex_mpsc = mq_out ex_mpsc @ pending"
  using mpsc_fifo_order [OF ex_mpsc_reach] by blast

text \<open>
  Used by one thread at a time the queue is a FIFO that leaks nothing: on a fresh queue any
  sequence of calls gives the results of a list, and destroying it then releases the queue and
  every node it still has.
\<close>
theorem mpsc_sequential_fifo:
  assumes "clog_atomic_mpsc_queue_create (heap_empty orc) = (Some q, h)"
  shows "\<exists>outs q' ds h'. fifo_exec clog_atomic_mpsc_queue_in clog_atomic_mpsc_queue_out cs q = Some (outs, q') \<and>
    fifo_spec cs outs [] = Some ds \<and>
    clog_atomic_mpsc_queue_destroy (Some q') h0 = Some h' \<and> cells h' = Map.empty \<and>
    live h' = 0"
proof -
  from mpsc_create_rep [OF assms] have "mpsc_rep q []" .
  from mpsc.exec_spec [OF this, of cs] obtain outs q' ds where
    x: "fifo_exec clog_atomic_mpsc_queue_in clog_atomic_mpsc_queue_out cs q = Some (outs, q')"
    "fifo_spec cs outs [] = Some ds" "mpsc_rep q' ds" by blast
  from mpsc_destroy_rep [OF x(3), of h0] x show ?thesis by blast
qed

lemma mpsc_sequential_fifo_witness:
  "\<exists>outs q' ds. fifo_exec clog_atomic_mpsc_queue_in clog_atomic_mpsc_queue_out
      [F_enq (7::nat), F_deq, F_deq] ex_mpsc = Some (outs, q') \<and>
    fifo_spec [F_enq 7, F_deq, F_deq] outs [] = Some ds"
proof -
  have "clog_atomic_mpsc_queue_create (heap_empty (\<lambda>_. True)) =
      (Some ex_mpsc, snd (clog_atomic_mpsc_queue_create (heap_empty (\<lambda>_. True))))"
    by (simp add: ex_mpsc_def clog_atomic_mpsc_queue_create_def clog_malloc_def halloc_def
        sizeof_mpsc_queue_def heap_empty_def)
  from mpsc_sequential_fifo [OF this, of "[F_enq 7, F_deq, F_deq]"] show ?thesis by blast
qed

end
