(* ===== verification/Channel.thy ===== *)
theory Channel
  imports MPSC_Queue
begin

text \<open>
  Channels (clog_channel.h, clog_channel_unsafe_queue.c, clog_channel_atomic_queue.c): queues of
  log items between the threads that log and the dispatcher. An item is its address. A channel
  is the struct with its identifier and its parameter, NULL while it is closed, together with
  the heap its blocks are in; the block of the struct itself is counted there too.

  Closing reads what is left and hands every item to \<open>clog_release_log_item\<close>, here an action
  \<open>act\<close> on a state of the caller.

  The locale \<open>log_channel\<close> is what dispatchers and contexts rely on; both channels satisfy it.
\<close>

definition CLOG_CHANNEL_ID_ATOMIC_QUEUE :: nat where "CLOG_CHANNEL_ID_ATOMIC_QUEUE = 1"
definition CLOG_CHANNEL_ID_UNSAFE_QUEUE :: nat where "CLOG_CHANNEL_ID_UNSAFE_QUEUE = 2"

definition sizeof_channel :: nat where "sizeof_channel = 56"
definition sizeof_channel_param :: nat where "sizeof_channel_param = 8"

subsection \<open>The contract\<close>

locale log_channel = fifo_queue rep wr rd
  for rep :: "'s \<Rightarrow> addr list \<Rightarrow> bool"
    and wr :: "addr \<Rightarrow> 's \<Rightarrow> (clog_res \<times> 's) option"
    and rd :: "'s \<Rightarrow> (clog_res \<times> addr option \<times> 's) option" +
  fixes cl :: "(addr \<Rightarrow> 'x \<Rightarrow> 'x option) \<Rightarrow> 's \<Rightarrow> 'x \<Rightarrow> ('s \<times> 'x) option"
    and closed :: "'s \<Rightarrow> bool"
  assumes close_law: "rep s ds \<Longrightarrow> fold_act act ds x = Some x' \<Longrightarrow>
      \<exists>s'. cl act s x = Some (s', x') \<and> closed s'"
    and close_closed: "closed s \<Longrightarrow> cl act s x = Some (s, x)"

subsection \<open>The channel over the linked queue\<close>

record unsafe_channel =
  uc_id :: nat
  uc_param :: "clog_queue option"
  uc_heap :: "addr qheap"

definition clog_unsafe_queue_channel_create :: "addr qheap \<Rightarrow> unsafe_channel option \<times> addr qheap" where
  "clog_unsafe_queue_channel_create h =
     (case clog_malloc sizeof_channel h of
        (False, h') \<Rightarrow> (None, h')
      | (True, h') \<Rightarrow>
          (Some \<lparr>uc_id = CLOG_CHANNEL_ID_UNSAFE_QUEUE, uc_param = None, uc_heap = h'\<rparr>, h'))"

definition clog_unsafe_queue_channel_open :: "unsafe_channel \<Rightarrow> clog_res \<times> unsafe_channel" where
  "clog_unsafe_queue_channel_open c =
     (case clog_queue_create True False (uc_heap c) of
        (ret, q, h) \<Rightarrow>
          if ret \<noteq> CLOG_SUCCESS then (ret, c\<lparr>uc_heap := h\<rparr>)
          else (CLOG_SUCCESS, c\<lparr>uc_param := q, uc_heap := h\<rparr>))"

definition clog_unsafe_queue_channel_write ::
    "addr \<Rightarrow> unsafe_channel \<Rightarrow> (clog_res \<times> unsafe_channel) option" where
  "clog_unsafe_queue_channel_write item c =
     map_option (\<lambda>(r, q, h). (r, c\<lparr>uc_param := q, uc_heap := h\<rparr>))
       (clog_queue_enqueue (uc_param c) item (uc_heap c))"

definition clog_unsafe_queue_channel_read ::
    "unsafe_channel \<Rightarrow> (clog_res \<times> addr option \<times> unsafe_channel) option" where
  "clog_unsafe_queue_channel_read c =
     map_option (\<lambda>(r, d, q, h). (r, if r = CLOG_SUCCESS then d else None, c\<lparr>uc_param := q, uc_heap := h\<rparr>))
       (clog_queue_dequeue (uc_param c) True (uc_heap c))"

definition clog_unsafe_queue_channel_close ::
    "(addr \<Rightarrow> 'x \<Rightarrow> 'x option) \<Rightarrow> unsafe_channel \<Rightarrow> 'x \<Rightarrow> (unsafe_channel \<times> 'x) option" where
  "clog_unsafe_queue_channel_close act c x = (case uc_param c of
      None \<Rightarrow> Some (c\<lparr>uc_param := None\<rparr>, x)
    | Some _ \<Rightarrow> (case drain clog_unsafe_queue_channel_read act c x of
          None \<Rightarrow> None
        | Some (c1, x1) \<Rightarrow>
            map_option (\<lambda>(out, q, h). (c1\<lparr>uc_param := None, uc_heap := h\<rparr>, x1))
              (clog_queue_destroy (uc_param c1) (uc_heap c1))))"

subsection \<open>The channel over the lock-free queue\<close>

text \<open>
  The queue of an open channel carries its own heap; \<open>ac_heap\<close> is that heap while the channel
  is closed, and \<open>ac_mem\<close> counts the struct and its parameter.
\<close>

record atomic_channel =
  ac_id :: nat
  ac_param :: "addr clog_atomic_mpsc_queue option"
  ac_mem :: mem
  ac_heap :: "addr mpsc_node heap"

definition clog_atomic_queue_channel_create ::
    "mem \<Rightarrow> addr mpsc_node heap \<Rightarrow> atomic_channel option \<times> mem" where
  "clog_atomic_queue_channel_create m h =
     (case clog_malloc sizeof_channel m of
        (False, m') \<Rightarrow> (None, m')
      | (True, m') \<Rightarrow>
          (Some \<lparr>ac_id = CLOG_CHANNEL_ID_ATOMIC_QUEUE, ac_param = None, ac_mem = m', ac_heap = h\<rparr>, m'))"

definition clog_atomic_queue_channel_open :: "atomic_channel \<Rightarrow> clog_res \<times> atomic_channel" where
  "clog_atomic_queue_channel_open c =
     (case clog_malloc sizeof_channel_param (ac_mem c) of
        (False, m1) \<Rightarrow> (CLOG_NO_MEMORY, c\<lparr>ac_mem := m1\<rparr>)
      | (True, m1) \<Rightarrow>
          (case clog_atomic_mpsc_queue_create (ac_heap c) of
             (None, h) \<Rightarrow> (CLOG_NO_MEMORY, c\<lparr>ac_mem := clog_free m1, ac_heap := h\<rparr>)
           | (Some q, h) \<Rightarrow> (CLOG_SUCCESS, c\<lparr>ac_param := Some q, ac_mem := m1, ac_heap := h\<rparr>)))"

definition clog_atomic_queue_channel_write ::
    "addr \<Rightarrow> atomic_channel \<Rightarrow> (clog_res \<times> atomic_channel) option" where
  "clog_atomic_queue_channel_write item c = (case ac_param c of
      None \<Rightarrow> None
    | Some q \<Rightarrow>
        map_option (\<lambda>(r, q'). (r, c\<lparr>ac_param := Some q'\<rparr>)) (clog_atomic_mpsc_queue_in item q))"

definition clog_atomic_queue_channel_read ::
    "atomic_channel \<Rightarrow> (clog_res \<times> addr option \<times> atomic_channel) option" where
  "clog_atomic_queue_channel_read c = (case ac_param c of
      None \<Rightarrow> None
    | Some q \<Rightarrow>
        map_option (\<lambda>(r, d, q'). (r, if r = CLOG_SUCCESS then d else None, c\<lparr>ac_param := Some q'\<rparr>))
          (clog_atomic_mpsc_queue_out q))"

definition clog_atomic_queue_channel_close ::
    "(addr \<Rightarrow> 'x \<Rightarrow> 'x option) \<Rightarrow> atomic_channel \<Rightarrow> 'x \<Rightarrow> (atomic_channel \<times> 'x) option" where
  "clog_atomic_queue_channel_close act c x = (case ac_param c of
      None \<Rightarrow> Some (c\<lparr>ac_param := None\<rparr>, x)
    | Some _ \<Rightarrow> (case drain clog_atomic_queue_channel_read act c x of
          None \<Rightarrow> None
        | Some (c1, x1) \<Rightarrow>
            map_option (\<lambda>h. (c1\<lparr>ac_param := None, ac_mem := clog_free (ac_mem c1), ac_heap := h\<rparr>, x1))
              (clog_atomic_mpsc_queue_destroy (ac_param c1) (ac_heap c1))))"

text \<open>\<open>clog_channel_destroy\<close> closes a channel and frees its struct.\<close>

definition clog_channel_destroy ::
    "(('d \<Rightarrow> 'x \<Rightarrow> 'x option) \<Rightarrow> 's \<Rightarrow> 'x \<Rightarrow> ('s \<times> 'x) option) \<Rightarrow> ('s \<Rightarrow> 's)
     \<Rightarrow> ('d \<Rightarrow> 'x \<Rightarrow> 'x option) \<Rightarrow> 's option \<Rightarrow> 'x \<Rightarrow> ('s option \<times> 'x) option" where
  "clog_channel_destroy cl free_struct act channel x = (case channel of
      None \<Rightarrow> Some (None, x)
    | Some s \<Rightarrow> map_option (\<lambda>(s', x'). (Some (free_struct s'), x')) (cl act s x))"

subsection \<open>Both channels satisfy the contract\<close>

definition uc_rep :: "unsafe_channel \<Rightarrow> addr list \<Rightarrow> bool" where
  "uc_rep c ds \<longleftrightarrow> (\<exists>q. uc_param c = Some q \<and> queue_rep q (uc_heap c) ds \<and>
     live (uc_heap c) = int (length ds) + 2)"

definition uc_closed :: "unsafe_channel \<Rightarrow> bool" where
  "uc_closed c \<longleftrightarrow> uc_param c = None \<and> live (uc_heap c) = 1 \<and> cells (uc_heap c) = Map.empty"

definition ac_rep :: "atomic_channel \<Rightarrow> addr list \<Rightarrow> bool" where
  "ac_rep c ds \<longleftrightarrow> (\<exists>q. ac_param c = Some q \<and> mpsc_rep q ds \<and> live (ac_mem c) = 2)"

definition ac_closed :: "atomic_channel \<Rightarrow> bool" where
  "ac_closed c \<longleftrightarrow> ac_param c = None \<and> live (ac_mem c) = 1 \<and> live (ac_heap c) = 0 \<and>
     cells (ac_heap c) = Map.empty"

lemma uc_fifo: "fifo_queue uc_rep clog_unsafe_queue_channel_write clog_unsafe_queue_channel_read"
proof
  fix c :: unsafe_channel and ds d
  assume "uc_rep c ds"
  then obtain q where q: "uc_param c = Some q" "queue_rep q (uc_heap c) ds" "live (uc_heap c) = int (length ds) + 2"
    by (auto simp: uc_rep_def)
  from q(2) show "\<exists>r c'. clog_unsafe_queue_channel_write d c = Some (r, c') \<and>
      (r = CLOG_SUCCESS \<and> uc_rep c' (ds @ [d]) \<or> r = CLOG_NO_MEMORY \<and> uc_rep c' ds)"
    by (cases rule: queue_enqueue_rep [of q "uc_heap c" ds d])
      (use q in \<open>auto simp: clog_unsafe_queue_channel_write_def uc_rep_def\<close>)
next
  fix c :: unsafe_channel
  assume "uc_rep c []"
  then show "\<exists>c'. clog_unsafe_queue_channel_read c = Some (CLOG_TARGET_NOT_FOUND, None, c') \<and> uc_rep c' []"
    by (auto simp: uc_rep_def clog_unsafe_queue_channel_read_def queue_dequeue_nil)
next
  fix c :: unsafe_channel and d ds
  assume "uc_rep c (d # ds)"
  then obtain q where q: "uc_param c = Some q" "queue_rep q (uc_heap c) (d # ds)"
    "live (uc_heap c) = int (length ds) + 3"
    by (auto simp: uc_rep_def)
  from q(2) show "\<exists>c'. clog_unsafe_queue_channel_read c = Some (CLOG_SUCCESS, Some d, c') \<and> uc_rep c' ds"
    by (cases rule: queue_dequeue_cons [of q "uc_heap c" d ds])
      (use q in \<open>auto simp: clog_unsafe_queue_channel_read_def uc_rep_def\<close>)
qed

interpretation unsafe_channel: log_channel uc_rep clog_unsafe_queue_channel_write
  clog_unsafe_queue_channel_read clog_unsafe_queue_channel_close uc_closed
proof (rule log_channel.intro [OF uc_fifo], unfold_locales)
  fix c :: unsafe_channel and ds and act :: "addr \<Rightarrow> 'x \<Rightarrow> 'x option" and x x'
  assume rep: "uc_rep c ds" and act: "fold_act act ds x = Some x'"
  from fifo_queue.drain_spec [OF uc_fifo rep act] obtain c1 where
    c1: "drain clog_unsafe_queue_channel_read act c x = Some (c1, x')" "uc_rep c1 []" by blast
  from c1(2) obtain q where q: "uc_param c1 = Some q" "queue_rep q (uc_heap c1) []" "live (uc_heap c1) = 2"
    by (auto simp: uc_rep_def)
  from queue_destroy_rep [OF q(2)] obtain h' where
    "clog_queue_destroy (Some q) (uc_heap c1) = Some ([], None, h')" "live h' = 1" "cells h' = Map.empty"
    using q(3) by (auto split: if_splits)
  with c1 q(1) rep show "\<exists>s'. clog_unsafe_queue_channel_close act c x = Some (s', x') \<and> uc_closed s'"
    by (auto simp: clog_unsafe_queue_channel_close_def uc_rep_def uc_closed_def)
next
  fix c :: unsafe_channel and act :: "addr \<Rightarrow> 'x \<Rightarrow> 'x option" and x
  assume "uc_closed c"
  then show "clog_unsafe_queue_channel_close act c x = Some (c, x)"
    by (simp add: clog_unsafe_queue_channel_close_def uc_closed_def)
qed

lemma ac_fifo: "fifo_queue ac_rep clog_atomic_queue_channel_write clog_atomic_queue_channel_read"
proof
  fix c :: atomic_channel and ds d
  assume "ac_rep c ds"
  then obtain q where q: "ac_param c = Some q" "mpsc_rep q ds" "live (ac_mem c) = 2"
    by (auto simp: ac_rep_def)
  from mpsc_in_rep [OF q(2), of d] q show "\<exists>r c'. clog_atomic_queue_channel_write d c = Some (r, c') \<and>
      (r = CLOG_SUCCESS \<and> ac_rep c' (ds @ [d]) \<or> r = CLOG_NO_MEMORY \<and> ac_rep c' ds)"
    by (auto simp: clog_atomic_queue_channel_write_def ac_rep_def)
next
  fix c :: atomic_channel
  assume "ac_rep c []"
  then obtain q where q: "ac_param c = Some q" "mpsc_rep q []" "live (ac_mem c) = 2"
    by (auto simp: ac_rep_def)
  from mpsc.deq_nil [OF q(2)] q
  show "\<exists>c'. clog_atomic_queue_channel_read c = Some (CLOG_TARGET_NOT_FOUND, None, c') \<and> ac_rep c' []"
    by (auto simp: clog_atomic_queue_channel_read_def ac_rep_def)
next
  fix c :: atomic_channel and d ds
  assume "ac_rep c (d # ds)"
  then obtain q where q: "ac_param c = Some q" "mpsc_rep q (d # ds)" "live (ac_mem c) = 2"
    by (auto simp: ac_rep_def)
  from mpsc.deq_cons [OF q(2)] q
  show "\<exists>c'. clog_atomic_queue_channel_read c = Some (CLOG_SUCCESS, Some d, c') \<and> ac_rep c' ds"
    by (auto simp: clog_atomic_queue_channel_read_def ac_rep_def)
qed

interpretation atomic_channel: log_channel ac_rep clog_atomic_queue_channel_write
  clog_atomic_queue_channel_read clog_atomic_queue_channel_close ac_closed
proof (rule log_channel.intro [OF ac_fifo], unfold_locales)
  fix c :: atomic_channel and ds and act :: "addr \<Rightarrow> 'x \<Rightarrow> 'x option" and x x'
  assume rep: "ac_rep c ds" and act: "fold_act act ds x = Some x'"
  from fifo_queue.drain_spec [OF ac_fifo rep act] obtain c1 where
    c1: "drain clog_atomic_queue_channel_read act c x = Some (c1, x')" "ac_rep c1 []" by blast
  from c1(2) obtain q where q: "ac_param c1 = Some q" "mpsc_rep q []" "live (ac_mem c1) = 2"
    by (auto simp: ac_rep_def)
  from mpsc_destroy_rep [OF q(2), of "ac_heap c1"] obtain h' where
    "clog_atomic_mpsc_queue_destroy (Some q) (ac_heap c1) = Some h'" "live h' = 0" "cells h' = Map.empty"
    by blast
  with c1 q rep show "\<exists>s'. clog_atomic_queue_channel_close act c x = Some (s', x') \<and> ac_closed s'"
    by (auto simp: clog_atomic_queue_channel_close_def ac_rep_def ac_closed_def mem_simps)
next
  fix c :: atomic_channel and act :: "addr \<Rightarrow> 'x \<Rightarrow> 'x option" and x
  assume "ac_closed c"
  then show "clog_atomic_queue_channel_close act c x = Some (c, x)"
    by (simp add: clog_atomic_queue_channel_close_def ac_closed_def)
qed

lemma fold_collect: "fold_act (\<lambda>d x. Some (x @ [d])) ds x = Some (x @ ds)"
  by (induction ds arbitrary: x) simp_all

lemma uc_open_rep:
  assumes "clog_unsafe_queue_channel_create (heap_empty orc) = (Some c0, h0)"
    and "clog_unsafe_queue_channel_open c0 = (CLOG_SUCCESS, c)"
  shows "uc_rep c []"
proof -
  define h where "h = (heap_empty orc :: addr qheap)\<lparr>tick := 1, live := 1\<rparr>"
  from assms(1) have c0: "uc_heap c0 = h"
    by (auto simp: clog_unsafe_queue_channel_create_def clog_malloc_def sizeof_channel_def heap_empty_def
        h_def split: if_splits)
  define q where "q = \<lparr>q_head = NULL, q_tail = NULL, q_size = 0, q_has_dealloc = False\<rparr>"
  from assms(2) c0 have c: "uc_param c = Some q" "uc_heap c = h\<lparr>tick := 2, live := 2\<rparr>"
    by (auto simp: clog_unsafe_queue_channel_open_def clog_queue_create_def clog_malloc_def sizeof_queue_def
        h_def heap_empty_def q_def split: if_splits)
  have "queue_nodes q (uc_heap c) [] []"
    by (simp add: queue_nodes_def c q_def h_def heap_empty_def heap_ok_def)
  then have "queue_rep q (uc_heap c) []" by (auto simp only: queue_rep_def)
  with c show ?thesis by (simp add: uc_rep_def)
qed

lemma ac_open_rep:
  assumes "clog_atomic_queue_channel_create \<lparr>grants = orc, tick = 0, live = 0\<rparr> (heap_empty orc') = (Some c0, m0)"
    and "clog_atomic_queue_channel_open c0 = (CLOG_SUCCESS, c)"
  shows "ac_rep c []"
proof -
  define m where "m = \<lparr>grants = orc, tick = 1, live = 1\<rparr>"
  from assms(1) have c0: "ac_mem c0 = m" "ac_heap c0 = heap_empty orc'"
    by (auto simp: clog_atomic_queue_channel_create_def clog_malloc_def sizeof_channel_def heap_empty_def
        m_def split: if_splits)
  from assms(2) c0 obtain q h where q: "clog_atomic_mpsc_queue_create (heap_empty orc') = (Some q, h)"
    "ac_param c = Some q" "live (ac_mem c) = 2"
    by (auto simp: clog_atomic_queue_channel_open_def clog_malloc_def sizeof_channel_param_def m_def
        heap_empty_def split: if_splits option.splits prod.splits)
  from mpsc_create_rep [OF q(1)] q(2,3) show ?thesis by (simp add: ac_rep_def)
qed

subsection \<open>Properties\<close>

text \<open>
  C28. The channel over the linked queue: opened on a fresh heap it takes any sequence of writes
  and reads as a list of items would, closing it releases exactly the items still in it, in
  order, and frees every block but its struct.
\<close>
theorem unsafe_channel_lifecycle:
  assumes "clog_unsafe_queue_channel_create (heap_empty orc) = (Some c0, h0)"
    and "clog_unsafe_queue_channel_open c0 = (CLOG_SUCCESS, c)"
  shows "\<exists>outs c1 ds c2.
    fifo_exec clog_unsafe_queue_channel_write clog_unsafe_queue_channel_read ops c = Some (outs, c1) \<and>
    fifo_spec ops outs [] = Some ds \<and>
    clog_unsafe_queue_channel_close (\<lambda>d out. Some (out @ [d])) c1 [] = Some (c2, ds) \<and> uc_closed c2"
proof -
  from unsafe_channel.exec_spec [OF uc_open_rep [OF assms], of ops] obtain outs c1 ds where
    r: "fifo_exec clog_unsafe_queue_channel_write clog_unsafe_queue_channel_read ops c = Some (outs, c1)"
      "fifo_spec ops outs [] = Some ds" "uc_rep c1 ds" by blast
  from unsafe_channel.close_law [OF r(3) fold_collect, of "[]"] r show ?thesis by auto
qed

lemma unsafe_channel_lifecycle_witness:
  "\<exists>outs c1 ds c2.
    fifo_exec clog_unsafe_queue_channel_write clog_unsafe_queue_channel_read [F_enq 5, F_enq 6, F_deq]
      (snd (clog_unsafe_queue_channel_open (the (fst (clog_unsafe_queue_channel_create (heap_empty (\<lambda>_. True))))))) =
      Some (outs, c1) \<and>
    fifo_spec [F_enq 5, F_enq 6, F_deq] outs [] = Some ds \<and>
    clog_unsafe_queue_channel_close (\<lambda>d out. Some (out @ [d])) c1 [] = Some (c2, ds)"
proof -
  let ?c0 = "the (fst (clog_unsafe_queue_channel_create (heap_empty (\<lambda>_. True))))"
  have "clog_unsafe_queue_channel_create (heap_empty (\<lambda>_. True)) =
      (Some ?c0, snd (clog_unsafe_queue_channel_create (heap_empty (\<lambda>_. True))))"
    by (simp add: clog_unsafe_queue_channel_create_def clog_malloc_def heap_empty_def sizeof_channel_def)
  moreover have "clog_unsafe_queue_channel_open ?c0 = (CLOG_SUCCESS, snd (clog_unsafe_queue_channel_open ?c0))"
    by (simp add: clog_unsafe_queue_channel_create_def clog_unsafe_queue_channel_open_def clog_malloc_def
        heap_empty_def sizeof_channel_def clog_queue_create_def sizeof_queue_def)
  ultimately show ?thesis
    using unsafe_channel_lifecycle [of "\<lambda>_. True" ?c0 _ "snd (clog_unsafe_queue_channel_open ?c0)" "[F_enq 5, F_enq 6, F_deq]"]
    by blast
qed

text \<open>C29. The same for the channel over the lock-free queue, used by one thread at a time.\<close>
theorem atomic_channel_lifecycle:
  assumes "clog_atomic_queue_channel_create \<lparr>grants = orc, tick = 0, live = 0\<rparr> (heap_empty orc') = (Some c0, m0)"
    and "clog_atomic_queue_channel_open c0 = (CLOG_SUCCESS, c)"
  shows "\<exists>outs c1 ds c2.
    fifo_exec clog_atomic_queue_channel_write clog_atomic_queue_channel_read ops c = Some (outs, c1) \<and>
    fifo_spec ops outs [] = Some ds \<and>
    clog_atomic_queue_channel_close (\<lambda>d out. Some (out @ [d])) c1 [] = Some (c2, ds) \<and> ac_closed c2"
proof -
  from atomic_channel.exec_spec [OF ac_open_rep [OF assms], of ops] obtain outs c1 ds where
    r: "fifo_exec clog_atomic_queue_channel_write clog_atomic_queue_channel_read ops c = Some (outs, c1)"
      "fifo_spec ops outs [] = Some ds" "ac_rep c1 ds" by blast
  from atomic_channel.close_law [OF r(3) fold_collect, of "[]"] r show ?thesis by auto
qed

lemma atomic_channel_lifecycle_witness:
  "\<exists>outs c1 ds c2.
    fifo_exec clog_atomic_queue_channel_write clog_atomic_queue_channel_read [F_enq 5, F_deq, F_deq]
      (snd (clog_atomic_queue_channel_open
        (the (fst (clog_atomic_queue_channel_create mem_ok (heap_empty (\<lambda>_. True))))))) = Some (outs, c1) \<and>
    fifo_spec [F_enq 5, F_deq, F_deq] outs [] = Some ds \<and>
    clog_atomic_queue_channel_close (\<lambda>d out. Some (out @ [d])) c1 [] = Some (c2, ds)"
proof -
  let ?cr = "clog_atomic_queue_channel_create mem_ok (heap_empty (\<lambda>_. True))"
  let ?c0 = "the (fst ?cr)"
  have "clog_atomic_queue_channel_create \<lparr>grants = (\<lambda>_. True), tick = 0, live = 0\<rparr> (heap_empty (\<lambda>_. True)) =
      (Some ?c0, snd ?cr)"
    by (simp add: clog_atomic_queue_channel_create_def clog_malloc_def mem_ok_def sizeof_channel_def)
  moreover have "clog_atomic_queue_channel_open ?c0 = (CLOG_SUCCESS, snd (clog_atomic_queue_channel_open ?c0))"
    by (simp add: clog_atomic_queue_channel_create_def clog_atomic_queue_channel_open_def clog_malloc_def
        heap_empty_def sizeof_channel_def sizeof_channel_param_def clog_atomic_mpsc_queue_create_def
        sizeof_mpsc_queue_def halloc_def mem_ok_def)
  ultimately show ?thesis
    using atomic_channel_lifecycle [of "\<lambda>_. True" "\<lambda>_. True" ?c0 _ "snd (clog_atomic_queue_channel_open ?c0)" "[F_enq 5, F_deq, F_deq]"]
    by blast
qed

end
