(* ===== verification/Dispatcher.thy ===== *)
theory Dispatcher
  imports Channel
begin

text \<open>
  Dispatchers (clog_dispatcher.h, clog_dispatcher_direct.c, clog_dispatcher_async_thread.c): they
  read items from the channel, write each to the recorders it names, and release it.

  What a dispatcher calls is the record \<open>dispatch_env\<close> over a state of the caller: looking up a
  recorder (\<open>clog_get_recoder\<close>), the recorder's \<open>write\<close> and \<open>flush\<close>, reading an item's memory and
  \<open>clog_release_log_item\<close>; undefined behaviour in them is \<open>None\<close>. A channel is its \<open>read\<close>; the
  loops are proved in the context of the locale \<open>log_channel\<close>.

  The asynchronous dispatcher runs a thread. \<open>async_step\<close> is the step relation of that thread,
  of the threads that log and of the one that opens and closes, at the grain of the accesses to
  the semaphore, the state and the channel.
\<close>

definition CLOG_RECORDER_ID_INVALID :: "32 word" where "CLOG_RECORDER_ID_INVALID = 0"

datatype clog_dispatcher_event =
  CLOG_DISPATCHER_EVENT_START | CLOG_DISPATCHER_EVENT_DATA | CLOG_DISPATCHER_EVENT_END

record ('r, 'x) dispatch_env =
  de_recoder :: "32 word \<Rightarrow> 'x \<Rightarrow> 'r option \<times> 'x"
  de_id :: "'r \<Rightarrow> 'x \<Rightarrow> 32 word"
  de_write :: "'r \<Rightarrow> clog_item \<Rightarrow> 'x \<Rightarrow> (clog_res \<times> 'x) option"
  de_flush :: "'r \<Rightarrow> 'x \<Rightarrow> (clog_res \<times> 'x) option"
  de_item :: "addr \<Rightarrow> 'x \<Rightarrow> clog_item option"
  de_release :: "addr \<Rightarrow> 'x \<Rightarrow> 'x option"

subsection \<open>The direct dispatcher\<close>

text \<open>One recorder gets an item: it is flushed when its \<open>write\<close> asks for it.\<close>

definition record_item ::
    "('r, 'x) dispatch_env \<Rightarrow> 'r \<Rightarrow> clog_item \<Rightarrow> 'x \<Rightarrow> 'x option" where
  "record_item env r item x = (case de_write env r item x of
      None \<Rightarrow> None
    | Some (ret, x') \<Rightarrow>
        if ret = CLOG_SUCCESS then Some x'
        else if ret \<noteq> CLOG_REQUEST_FLUSH then Some x'
        else map_option snd (de_flush env r x'))"

fun direct_deliver ::
    "('r, 'x) dispatch_env \<Rightarrow> clog_item \<Rightarrow> 32 word list \<Rightarrow> 'x \<Rightarrow> 'x option" where
  "direct_deliver env item [] x = Some x"
| "direct_deliver env item (rid # ids) x =
     (if rid = CLOG_RECORDER_ID_INVALID then Some x
      else case de_recoder env rid x of
             (None, x') \<Rightarrow> direct_deliver env item ids x'
           | (Some r, x') \<Rightarrow>
               (case record_item env r item x' of
                  None \<Rightarrow> None
                | Some x'' \<Rightarrow> direct_deliver env item ids x''))"

definition direct_item :: "('r, 'x) dispatch_env \<Rightarrow> addr \<Rightarrow> 'x \<Rightarrow> 'x option" where
  "direct_item env a x = (case de_item env a x of
      None \<Rightarrow> None
    | Some item \<Rightarrow>
        (case direct_deliver env item (it_recorder item) x of
           None \<Rightarrow> None
         | Some x' \<Rightarrow> de_release env a x'))"

partial_function (option) dispatch_loop ::
    "('s \<Rightarrow> (clog_res \<times> addr option \<times> 's) option) \<Rightarrow> (addr \<Rightarrow> 'x \<Rightarrow> 'x option)
     \<Rightarrow> (addr \<Rightarrow> 'x \<Rightarrow> 'x option) \<Rightarrow> 's \<Rightarrow> 'x \<Rightarrow> ('s \<times> 'x) option" where
  "dispatch_loop rd proc rel s x = (case rd s of
      None \<Rightarrow> None
    | Some (res, item, s') \<Rightarrow>
        (case item of
           None \<Rightarrow> Some (s', x)
         | Some a \<Rightarrow>
             if a = NULL then Some (s', x)
             else if res = CLOG_SUCCESS
             then (case proc a x of None \<Rightarrow> None | Some x' \<Rightarrow> dispatch_loop rd proc rel s' x')
             else map_option (Pair s') (rel a x)))"

definition clog_dispatcher_direct_open :: clog_res where
  "clog_dispatcher_direct_open = CLOG_SUCCESS"

definition clog_dispatcher_direct_notify ::
    "('r, 'x) dispatch_env \<Rightarrow> ('s \<Rightarrow> (clog_res \<times> addr option \<times> 's) option)
     \<Rightarrow> clog_dispatcher_event \<Rightarrow> 's \<Rightarrow> 'x \<Rightarrow> ('s \<times> 'x) option" where
  "clog_dispatcher_direct_notify env rd event s x =
     (if event \<noteq> CLOG_DISPATCHER_EVENT_DATA then Some (s, x)
      else dispatch_loop rd (direct_item env) (de_release env) s x)"

subsection \<open>Processing in the thread\<close>

text \<open>
  The thread keeps the recorder it used last at each position of an item's recorder array. The
  state of the loop is the cache and the caller's state.
\<close>

fun async_deliver ::
    "('r, 'x) dispatch_env \<Rightarrow> clog_item \<Rightarrow> nat \<Rightarrow> 32 word list \<Rightarrow> 'r option list \<times> 'x
     \<Rightarrow> ('r option list \<times> 'x) option" where
  "async_deliver env item i [] (cache, x) = Some (cache, x)"
| "async_deliver env item i (rid # ids) (cache, x) =
     (if rid = CLOG_RECORDER_ID_INVALID then Some (cache, x)
      else
        let stale = (case cache ! i of None \<Rightarrow> True | Some r \<Rightarrow> de_id env r x \<noteq> rid);
            (cache', x') = (if stale then (case de_recoder env rid x of (r, x1) \<Rightarrow> (cache[i := r], x1))
                            else (cache, x))
        in case cache' ! i of
             None \<Rightarrow> async_deliver env item (Suc i) ids (cache', x')
           | Some r \<Rightarrow>
               (case record_item env r item x' of
                  None \<Rightarrow> None
                | Some x'' \<Rightarrow> async_deliver env item (Suc i) ids (cache', x'')))"

definition async_item ::
    "('r, 'x) dispatch_env \<Rightarrow> addr \<Rightarrow> 'r option list \<times> 'x \<Rightarrow> ('r option list \<times> 'x) option" where
  "async_item env a cx = (case de_item env a (snd cx) of
      None \<Rightarrow> None
    | Some item \<Rightarrow>
        (case async_deliver env item 0 (it_recorder item) cx of
           None \<Rightarrow> None
         | Some (cache, x') \<Rightarrow> map_option (Pair cache) (de_release env a x')))"

definition clog_async_thread_dispatcher_process_log ::
    "('r, 'x) dispatch_env \<Rightarrow> ('s \<Rightarrow> (clog_res \<times> addr option \<times> 's) option) \<Rightarrow> 's \<Rightarrow> 'r option list \<times> 'x
     \<Rightarrow> ('s \<times> 'r option list \<times> 'x) option" where
  "clog_async_thread_dispatcher_process_log env rd s cx =
     dispatch_loop rd (async_item env) (\<lambda>a (cache, x). map_option (Pair cache) (de_release env a x)) s cx"

subsection \<open>The loops on a channel\<close>

context log_channel
begin

lemma dispatch_loop_spec:
  fixes proc :: "addr \<Rightarrow> 'y \<Rightarrow> 'y option"
  assumes "rep s ds" "NULL \<notin> set ds" "fold_act proc ds x = Some x'"
  shows "\<exists>s'. dispatch_loop rd proc rel s x = Some (s', x') \<and> rep s' []"
  using assms
proof (induction ds arbitrary: s x)
  case Nil
  from deq_nil [OF Nil(1)] Nil(3) show ?case by (subst dispatch_loop.simps) auto
next
  case (Cons d ds)
  from Cons.prems(3) obtain x1 where x1: "proc d x = Some x1" "fold_act proc ds x1 = Some x'"
    by (auto split: option.splits)
  from deq_cons [OF Cons.prems(1)] obtain s1 where
    s1: "rd s = Some (CLOG_SUCCESS, Some d, s1)" "rep s1 ds" by blast
  have "d \<noteq> NULL" "NULL \<notin> set ds" using Cons.prems(2) by auto
  with Cons.IH [OF s1(2) _ x1(2)] x1(1) s1(1) show ?case
    by (subst dispatch_loop.simps) auto
qed

end

subsection \<open>What is delivered\<close>

text \<open>
  An environment that records what a dispatcher does: which recorders are known, what their
  \<open>write\<close> returns for an item and what the items' memory holds are arbitrary. \<open>item_events\<close> is
  what one item should cause: a write to every known recorder of its array up to the first
  unused entry, each followed by a flush when it is asked for, and at the end its release.
\<close>

datatype event = Ev_write "32 word" clog_item | Ev_flush "32 word" | Ev_release addr

definition trace_env ::
    "32 word set \<Rightarrow> (32 word \<Rightarrow> clog_item \<Rightarrow> clog_res) \<Rightarrow> (addr \<Rightarrow> clog_item option)
     \<Rightarrow> (32 word, event list) dispatch_env" where
  "trace_env known wres items =
     \<lparr>de_recoder = (\<lambda>rid x. (if rid \<in> known then Some rid else None, x)),
      de_id = (\<lambda>r x. r),
      de_write = (\<lambda>r item x. Some (wres r item, x @ [Ev_write r item])),
      de_flush = (\<lambda>r x. Some (CLOG_SUCCESS, x @ [Ev_flush r])),
      de_item = (\<lambda>a x. items a),
      de_release = (\<lambda>a x. Some (x @ [Ev_release a]))\<rparr>"

definition recorder_events ::
    "32 word set \<Rightarrow> (32 word \<Rightarrow> clog_item \<Rightarrow> clog_res) \<Rightarrow> clog_item \<Rightarrow> 32 word \<Rightarrow> event list" where
  "recorder_events known wres item r =
     (if r \<in> known
      then Ev_write r item # (if wres r item = CLOG_REQUEST_FLUSH then [Ev_flush r] else [])
      else [])"

definition item_events ::
    "32 word set \<Rightarrow> (32 word \<Rightarrow> clog_item \<Rightarrow> clog_res) \<Rightarrow> (addr \<Rightarrow> clog_item option) \<Rightarrow> addr
     \<Rightarrow> event list" where
  "item_events known wres items a =
     (case items a of
        None \<Rightarrow> []
      | Some item \<Rightarrow>
          concat (map (recorder_events known wres item)
            (takeWhile (\<lambda>r. r \<noteq> CLOG_RECORDER_ID_INVALID) (it_recorder item))) @ [Ev_release a])"

lemma trace_env_simps:
  "de_recoder (trace_env known wres items) rid x = (if rid \<in> known then Some rid else None, x)"
  "de_id (trace_env known wres items) q x = q"
  "de_item (trace_env known wres items) a x = items a"
  "de_release (trace_env known wres items) a x = Some (x @ [Ev_release a])"
  by (simp_all add: trace_env_def)

lemma record_item_trace:
  "r \<in> known \<Longrightarrow>
   record_item (trace_env known wres items) r item x = Some (x @ recorder_events known wres item r)"
  by (simp add: record_item_def trace_env_def recorder_events_def)

lemma direct_deliver_trace:
  "direct_deliver (trace_env known wres items) item ids x =
   Some (x @ concat (map (recorder_events known wres item)
     (takeWhile (\<lambda>r. r \<noteq> CLOG_RECORDER_ID_INVALID) ids)))"
proof (induction ids arbitrary: x)
  case (Cons r ids)
  show ?case
    using Cons.IH by (simp add: trace_env_simps record_item_trace) (simp add: recorder_events_def)
qed simp

definition cache_ok :: "32 word set \<Rightarrow> 32 word option list \<Rightarrow> bool" where
  "cache_ok known cache \<longleftrightarrow> (\<forall>r. Some r \<in> set cache \<longrightarrow> r \<in> known)"

lemma cache_update: "cache_ok known cache \<Longrightarrow> (\<forall>q. r = Some q \<longrightarrow> q \<in> known) \<Longrightarrow> cache_ok known (cache[i := r])"
  using set_update_subset_insert [of cache i r] by (auto simp: cache_ok_def)

lemma async_deliver_trace:
  "cache_ok known cache \<Longrightarrow> i + length ids \<le> length cache \<Longrightarrow>
   \<exists>cache'. async_deliver (trace_env known wres items) item i ids (cache, x) =
     Some (cache', x @ concat (map (recorder_events known wres item)
       (takeWhile (\<lambda>r. r \<noteq> CLOG_RECORDER_ID_INVALID) ids))) \<and>
     cache_ok known cache' \<and> length cache' = length cache"
proof (induction ids arbitrary: i cache x)
  case (Cons r ids)
  let ?env = "trace_env known wres items"
  define c1 where "c1 = (if (case cache ! i of None \<Rightarrow> True | Some q \<Rightarrow> q \<noteq> r)
      then cache[i := if r \<in> known then Some r else None] else cache)"
  have i: "i < length cache" using Cons.prems(2) by simp
  have c1: "cache_ok known c1" "length c1 = length cache"
    using Cons.prems(1) cache_update [of known cache] by (simp_all add: c1_def)
  have at: "c1 ! i = (if r \<in> known then Some r else None)"
  proof (cases "cache ! i")
    case None
    with i show ?thesis by (simp add: c1_def)
  next
    case (Some q)
    then have "q \<in> known" using Cons.prems(1) i by (metis cache_ok_def nth_mem)
    with Some i show ?thesis by (auto simp: c1_def)
  qed
  show ?case
  proof (cases "r = CLOG_RECORDER_ID_INVALID")
    case True
    with Cons.prems show ?thesis by simp
  next
    case False
    have step: "async_deliver ?env item i (r # ids) (cache, x) =
        (case c1 ! i of None \<Rightarrow> async_deliver ?env item (Suc i) ids (c1, x)
         | Some q \<Rightarrow> (case record_item ?env q item x of None \<Rightarrow> None
            | Some x'' \<Rightarrow> async_deliver ?env item (Suc i) ids (c1, x'')))"
      using False by (auto simp: trace_env_simps c1_def Let_def split: option.splits)
    have "Suc i + length ids \<le> length c1" using Cons.prems(2) c1(2) by simp
    from Cons.IH [OF c1(1) this, of "x @ recorder_events known wres item r"] False at c1(2)
    show ?thesis
      unfolding step
      by (cases "r \<in> known") (auto simp: record_item_trace recorder_events_def [of known wres item r])
  qed
qed simp

lemma direct_item_trace:
  "items a \<noteq> None \<Longrightarrow>
   direct_item (trace_env known wres items) a x = Some (x @ item_events known wres items a)"
  by (auto simp: direct_item_def direct_deliver_trace item_events_def trace_env_simps)

lemma async_item_trace:
  assumes "items a = Some item" "cache_ok known cache" "length (it_recorder item) \<le> length cache"
  shows "\<exists>cache'. async_item (trace_env known wres items) a (cache, x) =
      Some (cache', x @ item_events known wres items a) \<and> cache_ok known cache' \<and> length cache' = length cache"
proof -
  from async_deliver_trace [OF assms(2), of 0 "it_recorder item" wres items item x] assms(3) obtain cache' where
    "async_deliver (trace_env known wres items) item 0 (it_recorder item) (cache, x) =
      Some (cache', x @ concat (map (recorder_events known wres item)
        (takeWhile (\<lambda>r. r \<noteq> CLOG_RECORDER_ID_INVALID) (it_recorder item))))"
    "cache_ok known cache'" "length cache' = length cache" by auto
  with assms(1) show ?thesis by (simp add: async_item_def trace_env_simps item_events_def)
qed

lemma fold_direct_trace:
  "\<forall>a \<in> set ds. items a \<noteq> None \<Longrightarrow>
   fold_act (direct_item (trace_env known wres items)) ds x =
     Some (x @ concat (map (item_events known wres items) ds))"
  by (induction ds arbitrary: x) (simp_all add: direct_item_trace)

lemma fold_async_trace:
  assumes "\<forall>a \<in> set ds. \<exists>item. items a = Some item \<and> length (it_recorder item) \<le> n"
    and "cache_ok known cache" "length cache = n"
  shows "\<exists>cache'. fold_act (async_item (trace_env known wres items)) ds (cache, x) =
      Some (cache', x @ concat (map (item_events known wres items) ds)) \<and> cache_ok known cache' \<and> length cache' = n"
  using assms
proof (induction ds arbitrary: cache x)
  case (Cons a ds)
  then obtain item where item: "items a = Some item" "length (it_recorder item) \<le> length cache" by auto
  from async_item_trace [of items a item known cache wres x, OF item(1) Cons.prems(2) item(2)] obtain c1 where
    c1: "async_item (trace_env known wres items) a (cache, x) = Some (c1, x @ item_events known wres items a)"
      "cache_ok known c1" "length c1 = n" using Cons.prems(3) by auto
  from Cons.IH [OF _ c1(2,3), of "x @ item_events known wres items a"] Cons.prems(1) c1(1)
  show ?case by auto
qed simp

subsection \<open>The thread\<close>

text \<open>
  The state shared by the threads. \<open>at_queue\<close> is the channel's contents, as its contract gives
  them, \<open>at_posts\<close> the number of items written whose \<open>sem_post\<close> is still to come.
  \<open>at_log\<close> and \<open>at_done\<close> record the items written and the items processed, and no step reads them.

  The owner's program is that of a context: open, notify START, later (when no call that logs is
  under way, which the context's lock ensures) notify END, and close. Logging is possible from
  START to END.
\<close>

datatype async_state = S_idle | S_running | S_stopping | S_closed

datatype thread_pc = T_wait | T_woken | T_run bool | T_set_closed | T_exited

datatype owner_pc =
    O_opened | O_start_post | O_live | O_end_post | O_close | O_close_set | O_close_post | O_spin | O_closed

record 'd async =
  at_state :: async_state
  at_sem :: nat
  at_queue :: "'d list"
  at_posts :: nat
  at_thread :: thread_pc
  at_owner :: owner_pc
  at_log :: "'d list"
  at_done :: "'d list"

definition async_opened :: "'d async" where
  "async_opened = \<lparr>at_state = S_idle, at_sem = 0, at_queue = [], at_posts = 0, at_thread = T_wait,
     at_owner = O_opened, at_log = [], at_done = []\<rparr>"

text \<open>One step of the thread, \<open>clog_async_thread_handler\<close>.\<close>

definition clog_async_thread_handler :: "'d async \<Rightarrow> 'd async option" where
  "clog_async_thread_handler s = (case at_thread s of
      T_wait \<Rightarrow> if at_sem s = 0 then None else Some (s\<lparr>at_sem := at_sem s - 1, at_thread := T_woken\<rparr>)
    | T_woken \<Rightarrow>
        Some (s\<lparr>at_thread :=
          if at_state s = S_stopping then T_run True
          else if at_state s \<noteq> S_running then T_exited else T_run False\<rparr>)
    | T_run final \<Rightarrow>
        (case at_queue s of
           [] \<Rightarrow> Some (s\<lparr>at_thread := if final then T_set_closed else T_wait\<rparr>)
         | d # ds \<Rightarrow> Some (s\<lparr>at_queue := ds, at_done := at_done s @ [d]\<rparr>))
    | T_set_closed \<Rightarrow> Some (s\<lparr>at_state := S_closed, at_thread := T_exited\<rparr>)
    | T_exited \<Rightarrow> None)"

text \<open>
  One step of the owner: the parts of \<open>clog_dispatcher_async_thread_notify\<close> and
  \<open>clog_dispatcher_async_thread_close\<close> between two accesses to the state or the semaphore.
\<close>

definition async_owner :: "'d async \<Rightarrow> 'd async option" where
  "async_owner s = (case at_owner s of
      O_opened \<Rightarrow> Some (s\<lparr>at_state := S_running, at_owner := O_start_post\<rparr>)
    | O_start_post \<Rightarrow> Some (s\<lparr>at_sem := Suc (at_sem s), at_owner := O_live\<rparr>)
    | O_live \<Rightarrow>
        if at_posts s = 0 then Some (s\<lparr>at_state := S_stopping, at_owner := O_end_post\<rparr>) else None
    | O_end_post \<Rightarrow> Some (s\<lparr>at_sem := Suc (at_sem s), at_owner := O_close\<rparr>)
    | O_close \<Rightarrow> Some (s\<lparr>at_owner := if at_state s \<noteq> S_stopping then O_close_set else O_spin\<rparr>)
    | O_close_set \<Rightarrow> Some (s\<lparr>at_state := S_stopping, at_owner := O_close_post\<rparr>)
    | O_close_post \<Rightarrow> Some (s\<lparr>at_sem := Suc (at_sem s), at_owner := O_spin\<rparr>)
    | O_spin \<Rightarrow>
        if at_state s \<noteq> S_closed then Some s
        else Some (s\<lparr>at_state := S_idle, at_owner := O_closed\<rparr>)
    | O_closed \<Rightarrow> None)"

datatype 'd async_act = A_thread | A_owner | A_write 'd | A_notify

fun async_step :: "'d async_act \<Rightarrow> 'd async \<Rightarrow> 'd async option" where
  "async_step A_thread s = clog_async_thread_handler s"
| "async_step A_owner s = async_owner s"
| "async_step (A_write d) s =
     (if at_owner s = O_live
      then Some (s\<lparr>at_queue := at_queue s @ [d], at_posts := Suc (at_posts s), at_log := at_log s @ [d]\<rparr>)
      else None)"
| "async_step A_notify s =
     (if at_posts s > 0 then Some (s\<lparr>at_sem := Suc (at_sem s), at_posts := at_posts s - 1\<rparr>) else None)"

inductive async_reach :: "'d async \<Rightarrow> 'd async \<Rightarrow> bool" for s0 where
  async_init: "async_reach s0 s0"
| async_next: "async_reach s0 s \<Longrightarrow> async_step a s = Some s' \<Longrightarrow> async_reach s0 s'"

text \<open>
  The invariant: nothing is lost or reordered; the state follows the owner's progress until the
  thread closes it; once the thread is done with the last run there is nothing left to process.
\<close>

definition after_end :: "owner_pc \<Rightarrow> bool" where
  "after_end p \<longleftrightarrow> p \<in> {O_end_post, O_close, O_close_set, O_close_post, O_spin, O_closed}"

definition async_inv :: "'d async \<Rightarrow> bool" where
  "async_inv s \<longleftrightarrow>
     at_log s = at_done s @ at_queue s \<and>
     (at_thread s = T_run True \<or> at_thread s = T_set_closed \<or> at_thread s = T_exited \<longrightarrow>
        after_end (at_owner s) \<and> at_state s \<noteq> S_running) \<and>
     (at_state s = S_stopping \<or> at_state s = S_closed \<longrightarrow> after_end (at_owner s)) \<and>
     (after_end (at_owner s) \<longrightarrow> at_posts s = 0 \<and> at_state s \<noteq> S_running) \<and>
     (at_thread s = T_set_closed \<or> at_thread s = T_exited \<longrightarrow> at_queue s = []) \<and>
     (at_state s = S_closed \<longrightarrow> at_thread s = T_exited) \<and>
     (at_owner s = O_closed \<longrightarrow> at_thread s = T_exited) \<and>
     (at_owner s = O_opened \<longleftrightarrow> at_state s = S_idle \<and> at_owner s \<noteq> O_closed) \<and>
     (at_owner s = O_opened \<longrightarrow> at_sem s = 0 \<and> at_posts s = 0 \<and> at_thread s = T_wait)"

lemma async_inv_opened: "async_inv async_opened"
  by (simp add: async_inv_def async_opened_def after_end_def)

lemma async_invD:
  assumes "async_inv s"
  shows "at_log s = at_done s @ at_queue s"
    and "at_thread s = T_run True \<or> at_thread s = T_set_closed \<or> at_thread s = T_exited \<Longrightarrow> after_end (at_owner s)"
    and "at_state s = S_stopping \<or> at_state s = S_closed \<Longrightarrow> after_end (at_owner s)"
    and "after_end (at_owner s) \<Longrightarrow> at_posts s = 0 \<and> at_state s \<noteq> S_running"
    and "at_thread s = T_set_closed \<or> at_thread s = T_exited \<Longrightarrow> at_queue s = []"
    and "at_state s = S_closed \<or> at_owner s = O_closed \<Longrightarrow> at_thread s = T_exited"
    and "at_state s = S_idle \<Longrightarrow> at_owner s = O_opened \<or> at_owner s = O_closed"
    and "at_owner s = O_opened \<Longrightarrow> at_state s = S_idle \<and> at_sem s = 0 \<and> at_posts s = 0 \<and> at_thread s = T_wait"
  using assms unfolding async_inv_def by blast+

lemma async_inv_thread:
  assumes inv: "async_inv s" and step: "clog_async_thread_handler s = Some s'"
  shows "async_inv s'"
proof (cases "at_thread s")
  case T_wait
  with step inv show ?thesis
    by (auto simp: clog_async_thread_handler_def async_inv_def split: if_splits)
next
  case T_woken
  with async_invD [OF inv] have "at_state s = S_stopping \<or> at_state s = S_running"
    by (cases "at_state s") auto
  with T_woken step inv show ?thesis
    by (auto simp: clog_async_thread_handler_def async_inv_def split: if_splits)
next
  case (T_run final)
  show ?thesis
  proof (cases "at_queue s")
    case Nil
    define t where "t = (if final then T_set_closed else T_wait)"
    from step T_run Nil have s': "s' = s\<lparr>at_thread := t\<rparr>"
      by (simp add: clog_async_thread_handler_def t_def)
    show ?thesis using async_invD [OF inv] T_run Nil unfolding s'
      by (cases final) (simp_all add: async_inv_def t_def, blast+)
  next
    case (Cons d ds)
    from step T_run Cons have s': "s' = s\<lparr>at_queue := ds, at_done := at_done s @ [d]\<rparr>"
      by (simp add: clog_async_thread_handler_def)
    show ?thesis using async_invD [OF inv] T_run Cons unfolding s'
      by (simp add: async_inv_def) blast
  qed
next
  case T_set_closed
  with step have s': "s' = s\<lparr>at_state := S_closed, at_thread := T_exited\<rparr>"
    by (simp add: clog_async_thread_handler_def)
  show ?thesis using async_invD [OF inv] T_set_closed unfolding s'
    by (simp add: async_inv_def) fastforce
next
  case T_exited
  with step show ?thesis by (simp add: clog_async_thread_handler_def)
qed

lemma after_end_simps [simp]:
  "\<not> after_end O_opened" "\<not> after_end O_start_post" "\<not> after_end O_live" "after_end O_end_post"
  "after_end O_close" "after_end O_close_set" "after_end O_close_post" "after_end O_spin" "after_end O_closed"
  by (simp_all add: after_end_def)

lemma async_inv_owner:
  assumes inv: "async_inv s" and step: "async_owner s = Some s'"
  shows "async_inv s'"
proof (cases "at_owner s")
  case O_opened
  with step have s': "s' = s\<lparr>at_state := S_running, at_owner := O_start_post\<rparr>" by (simp add: async_owner_def)
  show ?thesis using async_invD [OF inv] O_opened unfolding s' by (simp add: async_inv_def)
next
  case O_start_post
  with step have s': "s' = s\<lparr>at_sem := Suc (at_sem s), at_owner := O_live\<rparr>" by (simp add: async_owner_def)
  show ?thesis using async_invD [OF inv] O_start_post unfolding s' by (auto simp: async_inv_def)
next
  case O_live
  with step have s': "s' = s\<lparr>at_state := S_stopping, at_owner := O_end_post\<rparr>" "at_posts s = 0"
    by (simp_all add: async_owner_def split: if_splits)
  show ?thesis using async_invD [OF inv] O_live s'(2) unfolding s'(1) by (auto simp: async_inv_def)
next
  case O_end_post
  with step have s': "s' = s\<lparr>at_sem := Suc (at_sem s), at_owner := O_close\<rparr>" by (simp add: async_owner_def)
  show ?thesis using async_invD [OF inv] O_end_post unfolding s' by (auto simp: async_inv_def)
next
  case O_close
  with step obtain p where s': "s' = s\<lparr>at_owner := p\<rparr>" "p = O_close_set \<or> p = O_spin"
    by (auto simp add: async_owner_def)
  show ?thesis using async_invD [OF inv] O_close s'(2) unfolding s'(1) by (auto simp: async_inv_def)
next
  case O_close_set
  with step have s': "s' = s\<lparr>at_state := S_stopping, at_owner := O_close_post\<rparr>" by (simp add: async_owner_def)
  show ?thesis using async_invD [OF inv] O_close_set unfolding s' by (auto simp: async_inv_def)
next
  case O_close_post
  with step have s': "s' = s\<lparr>at_sem := Suc (at_sem s), at_owner := O_spin\<rparr>" by (simp add: async_owner_def)
  show ?thesis using async_invD [OF inv] O_close_post unfolding s' by (auto simp: async_inv_def)
next
  case O_spin
  show ?thesis
  proof (cases "at_state s = S_closed")
    case True
    with O_spin step have s': "s' = s\<lparr>at_state := S_idle, at_owner := O_closed\<rparr>" by (simp add: async_owner_def)
    show ?thesis using async_invD [OF inv] O_spin True unfolding s' by (auto simp: async_inv_def)
  next
    case False
    with O_spin step inv show ?thesis by (simp add: async_owner_def)
  qed
next
  case O_closed
  with step show ?thesis by (simp add: async_owner_def)
qed

lemma async_inv_step:
  assumes inv: "async_inv s" and step: "async_step a s = Some s'"
  shows "async_inv s'"
proof (cases a)
  case (A_write d)
  with step have s': "s' = s\<lparr>at_queue := at_queue s @ [d], at_posts := Suc (at_posts s), at_log := at_log s @ [d]\<rparr>"
    "at_owner s = O_live" by (simp_all split: if_splits)
  show ?thesis using async_invD [OF inv] s'(2) unfolding s'(1) by (auto simp: async_inv_def)
next
  case A_notify
  with step have s': "s' = s\<lparr>at_sem := Suc (at_sem s), at_posts := at_posts s - 1\<rparr>" "0 < at_posts s"
    by (simp_all split: if_splits)
  show ?thesis using async_invD [OF inv] s'(2) unfolding s'(1) by (auto simp: async_inv_def)
qed (use assms async_inv_thread async_inv_owner in auto)

lemma async_reach_inv: "async_reach s0 s \<Longrightarrow> async_inv s0 \<Longrightarrow> async_inv s"
  by (induction rule: async_reach.induct) (auto intro: async_inv_step)

text \<open>
  Progress: once END has been posted, a thread that has not yet seen it still finds a token of
  the semaphore, so it gets to its last run.
\<close>

definition end_posted :: "owner_pc \<Rightarrow> bool" where
  "end_posted p \<longleftrightarrow> p \<in> {O_close, O_close_set, O_close_post, O_spin}"

definition wake_inv :: "'d async \<Rightarrow> bool" where
  "wake_inv s \<longleftrightarrow>
     (end_posted (at_owner s) \<and> (at_thread s = T_wait \<or> at_thread s = T_run False) \<longrightarrow> 0 < at_sem s)"

lemma wake_inv_step:
  assumes inv: "async_inv s" and w: "wake_inv s" and step: "async_step a s = Some s'"
  shows "wake_inv s'"
proof (cases a)
  case A_thread
  with step have t: "clog_async_thread_handler s = Some s'" by simp
  show ?thesis
  proof (cases "at_thread s")
    case T_wait
    with t show ?thesis
      by (auto simp: clog_async_thread_handler_def wake_inv_def split: if_splits)
  next
    case T_woken
    have "end_posted (at_owner s) \<Longrightarrow> after_end (at_owner s)" by (auto simp: end_posted_def)
    with async_invD(4) [OF inv] T_woken t show ?thesis
      by (auto simp: clog_async_thread_handler_def wake_inv_def split: if_splits)
  next
    case (T_run final)
    with t w show ?thesis
      by (cases "at_queue s") (auto simp: clog_async_thread_handler_def wake_inv_def)
  next
    case T_set_closed
    with t show ?thesis by (auto simp: clog_async_thread_handler_def wake_inv_def)
  next
    case T_exited
    with t show ?thesis by (simp add: clog_async_thread_handler_def)
  qed
next
  case A_owner
  with step have "async_owner s = Some s'" by simp
  then show ?thesis
    by (cases "at_owner s")
      (use w in \<open>auto simp: async_owner_def wake_inv_def end_posted_def split: if_splits\<close>)
next
  case (A_write d)
  with step show ?thesis by (auto simp: wake_inv_def end_posted_def split: if_splits)
next
  case A_notify
  with step w show ?thesis by (auto simp: wake_inv_def split: if_splits)
qed

lemma async_reach_wake: "async_reach s0 s \<Longrightarrow> async_inv s0 \<Longrightarrow> wake_inv s0 \<Longrightarrow> wake_inv s"
  by (induction rule: async_reach.induct) (auto intro: wake_inv_step async_reach_inv)

lemma async_reach_trans: "async_reach s1 s2 \<Longrightarrow> async_reach s0 s1 \<Longrightarrow> async_reach s0 s2"
  by (induction rule: async_reach.induct) (auto intro: async_next)

lemma async_cons: "async_step a s = Some s1 \<Longrightarrow> async_reach s1 s2 \<Longrightarrow> async_reach s s2"
  by (rule async_reach_trans [OF _ async_next [OF async_init]])

lemma run_drains:
  "at_thread s = T_run final \<Longrightarrow>
   async_reach s (s\<lparr>at_queue := [], at_done := at_done s @ at_queue s\<rparr>)"
proof (induction "at_queue s" arbitrary: s)
  case Nil
  then have "s\<lparr>at_queue := [], at_done := at_done s @ at_queue s\<rparr> = s" by simp
  then show ?case by (simp add: async_init)
next
  case (Cons d ds)
  define s1 where "s1 = s\<lparr>at_queue := ds, at_done := at_done s @ [d]\<rparr>"
  have q: "at_queue s = d # ds" using Cons.hyps(2) by simp
  then have st: "async_step A_thread s = Some s1"
    using Cons.prems by (simp add: clog_async_thread_handler_def s1_def)
  have "async_reach s1 (s1\<lparr>at_queue := [], at_done := at_done s1 @ at_queue s1\<rparr>)"
    by (rule Cons.hyps(1)) (simp_all add: s1_def Cons.prems)
  moreover have "s1\<lparr>at_queue := [], at_done := at_done s1 @ at_queue s1\<rparr> =
      s\<lparr>at_queue := [], at_done := at_done s @ at_queue s\<rparr>" by (simp add: s1_def q)
  ultimately show ?case using async_cons [OF st] by simp
qed

lemma last_run_closes:
  assumes "at_thread s = T_run True" "at_owner s = O_spin"
  shows "\<exists>s'. async_reach s s' \<and> at_owner s' = O_closed"
proof -
  define s1 where "s1 = s\<lparr>at_queue := [], at_done := at_done s @ at_queue s\<rparr>"
  define s2 where "s2 = s1\<lparr>at_thread := T_set_closed\<rparr>"
  define s3 where "s3 = s2\<lparr>at_state := S_closed, at_thread := T_exited\<rparr>"
  define s4 where "s4 = s3\<lparr>at_state := S_idle, at_owner := O_closed\<rparr>"
  have "async_reach s s1" unfolding s1_def by (rule run_drains [OF assms(1)])
  moreover have "async_step A_thread s1 = Some s2" "async_step A_thread s2 = Some s3"
    "async_step A_owner s3 = Some s4"
    using assms by (simp_all add: clog_async_thread_handler_def async_owner_def s1_def s2_def s3_def s4_def)
  ultimately have "async_reach s s4" by (meson async_next)
  moreover have "at_owner s4 = O_closed" by (simp add: s4_def)
  ultimately show ?thesis by blast
qed

lemma woken_closes:
  assumes "at_thread s = T_woken" "at_state s = S_stopping" "at_owner s = O_spin"
  shows "\<exists>s'. async_reach s s' \<and> at_owner s' = O_closed"
proof -
  have "async_step A_thread s = Some (s\<lparr>at_thread := T_run True\<rparr>)"
    using assms by (simp add: clog_async_thread_handler_def)
  moreover obtain s' where "async_reach (s\<lparr>at_thread := T_run True\<rparr>) s'" "at_owner s' = O_closed"
    using last_run_closes [of "s\<lparr>at_thread := T_run True\<rparr>"] assms(3) by auto
  ultimately show ?thesis using async_cons by blast
qed

lemma waiting_closes:
  assumes "at_thread s = T_wait" "at_state s = S_stopping" "at_owner s = O_spin" "0 < at_sem s"
  shows "\<exists>s'. async_reach s s' \<and> at_owner s' = O_closed"
proof -
  define s1 where "s1 = s\<lparr>at_sem := at_sem s - 1, at_thread := T_woken\<rparr>"
  have "async_step A_thread s = Some s1"
    using assms by (simp add: clog_async_thread_handler_def s1_def)
  moreover obtain s' where "async_reach s1 s'" "at_owner s' = O_closed"
    using woken_closes [of s1] assms by (auto simp: s1_def)
  ultimately show ?thesis using async_cons by blast
qed

lemma spin_closes:
  assumes "wake_inv s" "at_owner s = O_spin" "at_state s = S_stopping" "at_thread s \<noteq> T_exited"
  shows "\<exists>s'. async_reach s s' \<and> at_owner s' = O_closed"
proof (cases "at_thread s")
  case T_wait
  with assms waiting_closes show ?thesis by (auto simp: wake_inv_def end_posted_def)
next
  case T_woken
  with assms woken_closes show ?thesis by blast
next
  case (T_run final)
  show ?thesis
  proof (cases final)
    case True
    with T_run assms(2) show ?thesis by (intro last_run_closes) simp_all
  next
    case False
    define s1 where "s1 = s\<lparr>at_queue := [], at_done := at_done s @ at_queue s\<rparr>"
    define s2 where "s2 = s1\<lparr>at_thread := T_wait\<rparr>"
    have "async_reach s s1" unfolding s1_def by (rule run_drains [OF T_run])
    moreover have "async_step A_thread s1 = Some s2"
      using T_run False by (simp add: clog_async_thread_handler_def s1_def s2_def)
    ultimately have "async_reach s s2" by (meson async_next)
    moreover obtain s' where "async_reach s2 s'" "at_owner s' = O_closed"
      using waiting_closes [of s2] assms T_run False
      by (auto simp: s1_def s2_def wake_inv_def end_posted_def)
    ultimately show ?thesis using async_reach_trans by blast
  qed
next
  case T_set_closed
  define s3 where "s3 = s\<lparr>at_state := S_closed, at_thread := T_exited\<rparr>"
  define s4 where "s4 = s3\<lparr>at_state := S_idle, at_owner := O_closed\<rparr>"
  have "async_step A_thread s = Some s3" "async_step A_owner s3 = Some s4"
    using assms T_set_closed by (simp_all add: clog_async_thread_handler_def async_owner_def s3_def s4_def)
  then have "async_reach s s4" by (meson async_init async_next)
  moreover have "at_owner s4 = O_closed" by (simp add: s4_def)
  ultimately show ?thesis by blast
next
  case T_exited
  with assms(4) show ?thesis by simp
qed

text \<open>The states from which close can no longer return.\<close>

definition hung :: "'d async \<Rightarrow> bool" where
  "hung s \<longleftrightarrow> at_thread s = T_exited \<and> at_posts s = 0 \<and>
     (at_owner s = O_close \<and> at_state s = S_closed \<or> at_owner s = O_close_set \<or>
      (at_owner s = O_close_post \<or> at_owner s = O_spin) \<and> at_state s = S_stopping)"

lemma hung_step: "hung s \<Longrightarrow> async_step a s = Some s' \<Longrightarrow> hung s'"
  by (cases a)
    (auto simp: hung_def clog_async_thread_handler_def async_owner_def split: if_splits)

lemma hung_reach: "async_reach s s' \<Longrightarrow> hung s \<Longrightarrow> hung s'"
  by (induction rule: async_reach.induct) (auto intro: hung_step)

subsection \<open>Properties\<close>

text \<open>
  C18. A notification of the direct dispatcher empties the channel: every item in it, in order, is
  written to the known recorders of its array up to the first unused entry, a recorder that
  asks for it is flushed, and the item is released exactly once, after its writes.
\<close>
theorem direct_dispatch:
  assumes "uc_rep c ds" "NULL \<notin> set ds" "\<forall>a \<in> set ds. items a \<noteq> None"
  shows "\<exists>c'. clog_dispatcher_direct_notify (trace_env known wres items) clog_unsafe_queue_channel_read
      CLOG_DISPATCHER_EVENT_DATA c [] = Some (c', concat (map (item_events known wres items) ds)) \<and> uc_rep c' []"
  using unsafe_channel.dispatch_loop_spec [OF assms(1,2) fold_direct_trace [OF assms(3), of known wres "[]"]]
  by (simp add: clog_dispatcher_direct_notify_def)

definition ex_disp_item :: clog_item where
  "ex_disp_item = \<lparr>it_magic = CASCA_LOG_MAGIC, it_version = CASCA_LOG_VERSION, it_recorder = [1, 9, 0, 1],
     it_process = [], it_module = [], it_filename = [], it_tid = 1, it_line = 12, it_level = 3,
     it_year = 2026, it_month = 3, it_day = 4, it_hour = 5, it_minute = 6, it_second = 7,
     it_millisecond = 89, it_timestamp = 0, it_length = 1, it_content = ''x''\<rparr>"

lemma ex_channel_rep:
  "uc_rep \<lparr>uc_id = 2, uc_param = Some \<lparr>q_head = 1, q_tail = 1, q_size = 1, q_has_dealloc = False\<rparr>,
     uc_heap = \<lparr>grants = (\<lambda>_. True), tick = 3, live = 3, cells = [1 \<mapsto> \<lparr>qn_data = 7, qn_next = NULL\<rparr>], brk = 2\<rparr>\<rparr> [7]"
proof -
  have "queue_nodes \<lparr>q_head = 1, q_tail = 1, q_size = 1, q_has_dealloc = False\<rparr>
      \<lparr>grants = (\<lambda>_. True), tick = 3, live = 3, cells = [1 \<mapsto> \<lparr>qn_data = (7 :: nat), qn_next = NULL\<rparr>], brk = 2\<rparr> [1] [7]"
    by (simp add: queue_nodes_def heap_ok_def)
  then show ?thesis unfolding uc_rep_def queue_rep_def by fastforce
qed

lemma direct_dispatch_witness:
  "\<exists>c c'. clog_dispatcher_direct_notify
      (trace_env {1} (\<lambda>r i. CLOG_REQUEST_FLUSH) (\<lambda>a. if a = 7 then Some ex_disp_item else None))
      clog_unsafe_queue_channel_read CLOG_DISPATCHER_EVENT_DATA c [] =
    Some (c', [Ev_write 1 ex_disp_item, Ev_flush 1, Ev_release 7])"
proof -
  have "item_events {1} (\<lambda>r i. CLOG_REQUEST_FLUSH) (\<lambda>a. if a = 7 then Some ex_disp_item else None) 7 =
      [Ev_write 1 ex_disp_item, Ev_flush 1, Ev_release 7]"
    by (simp add: item_events_def ex_disp_item_def recorder_events_def CLOG_RECORDER_ID_INVALID_def)
  with direct_dispatch [OF ex_channel_rep, of "\<lambda>a. if a = 7 then Some ex_disp_item else None" "{1}"
      "\<lambda>r i. CLOG_REQUEST_FLUSH"]
  show ?thesis by auto
qed



text \<open>
  C14. With the thread, no item is lost, repeated or reordered in any interleaving, and when
  closing returns every item that was written has been processed and the thread has left.
\<close>
theorem async_complete:
  assumes "async_reach async_opened s"
  shows "at_log s = at_done s @ at_queue s \<and>
    (at_owner s = O_closed \<longrightarrow> at_done s = at_log s \<and> at_thread s = T_exited)"
proof -
  have "async_inv s" using async_reach_inv [OF assms async_inv_opened] .
  from async_invD [OF this] show ?thesis by auto
qed

definition ex_live :: "nat async" where
  "ex_live = \<lparr>at_state = S_running, at_sem = 1, at_queue = [5], at_posts = 1, at_thread = T_wait,
     at_owner = O_live, at_log = [5], at_done = []\<rparr>"

lemma ex_live_reach: "async_reach async_opened ex_live"
proof -
  let ?s1 = "async_opened\<lparr>at_state := S_running, at_owner := O_start_post\<rparr> :: nat async"
  let ?s2 = "?s1\<lparr>at_sem := 1, at_owner := O_live\<rparr>"
  have "async_step A_owner async_opened = Some ?s1" "async_step A_owner ?s1 = Some ?s2"
    "async_step (A_write 5) ?s2 = Some ex_live"
    by (simp_all add: async_owner_def async_opened_def ex_live_def)
  then show ?thesis by (meson async_init async_next)
qed

lemma async_complete_witness: "at_log ex_live = at_done ex_live @ at_queue ex_live"
  using async_complete [OF ex_live_reach] by simp

text \<open>
  Closing can always return as long as the thread is still there: from every reachable state in
  which it waits for a thread that has not left, some continuation ends it.
\<close>
theorem async_close_possible:
  assumes "async_reach async_opened s" "at_owner s = O_spin" "at_thread s \<noteq> T_exited"
  shows "\<exists>s'. async_reach s s' \<and> at_owner s' = O_closed"
proof -
  have inv: "async_inv s" using async_reach_inv [OF assms(1) async_inv_opened] .
  have "wake_inv s"
    by (rule async_reach_wake [OF assms(1) async_inv_opened])
      (simp add: wake_inv_def async_opened_def end_posted_def)
  moreover from async_invD [OF inv] assms(2,3) have "at_state s = S_stopping"
    by (cases "at_state s") auto
  ultimately show ?thesis using spin_closes assms(2,3) by blast
qed

definition ex_spin :: "nat async" where
  "ex_spin = \<lparr>at_state = S_stopping, at_sem = 2, at_queue = [], at_posts = 0, at_thread = T_wait,
     at_owner = O_spin, at_log = [], at_done = []\<rparr>"

definition ex_end :: "nat async" where
  "ex_end = ex_spin\<lparr>at_owner := O_close\<rparr>"

lemma ex_end_reach: "async_reach async_opened ex_end"
proof -
  let ?s1 = "async_opened\<lparr>at_state := S_running, at_owner := O_start_post\<rparr> :: nat async"
  let ?s2 = "?s1\<lparr>at_sem := 1, at_owner := O_live\<rparr>"
  let ?s3 = "?s2\<lparr>at_state := S_stopping, at_owner := O_end_post\<rparr>"
  have "async_step A_owner async_opened = Some ?s1" "async_step A_owner ?s1 = Some ?s2"
    "async_step A_owner ?s2 = Some ?s3" "async_step A_owner ?s3 = Some ex_end"
    by (simp_all add: async_owner_def async_opened_def ex_end_def ex_spin_def)
  then show ?thesis by (meson async_init async_next)
qed

lemma async_close_possible_witness: "\<exists>s'. async_reach ex_spin s' \<and> at_owner s' = O_closed"
proof -
  have "async_step A_owner ex_end = Some ex_spin"
    by (simp add: ex_end_def ex_spin_def async_owner_def)
  then have "async_reach async_opened ex_spin" by (rule async_next [OF ex_end_reach])
  from async_close_possible [OF this] show ?thesis by (simp add: ex_spin_def)
qed

text \<open>
  Closing hangs when the thread is faster: if it has processed everything and closed the
  state after END, but before close looks at the state, close takes that for a thread that has
  not been told to stop, sets the state back and waits for ever.
\<close>
theorem async_close_hangs:
  assumes "async_reach async_opened s" "at_owner s = O_close" "at_state s = S_closed" "async_reach s s'"
  shows "at_owner s' \<noteq> O_closed \<and> at_thread s' = T_exited"
proof -
  have inv: "async_inv s" using async_reach_inv [OF assms(1) async_inv_opened] .
  from async_invD [OF inv] assms(2,3) have "hung s" by (simp add: hung_def)
  from hung_reach [OF assms(4) this] show ?thesis by (auto simp: hung_def)
qed

definition ex_fast :: "nat async" where
  "ex_fast = ex_end\<lparr>at_sem := 1, at_thread := T_exited, at_state := S_closed\<rparr>"

lemma async_close_hangs_witness:
  "async_reach async_opened ex_fast \<and> at_owner (ex_fast\<lparr>at_owner := O_close_set\<rparr>) \<noteq> O_closed"
proof -
  let ?s1 = "ex_end\<lparr>at_sem := 1, at_thread := T_woken\<rparr>"
  let ?s2 = "?s1\<lparr>at_thread := T_run True\<rparr>"
  let ?s3 = "?s2\<lparr>at_thread := T_set_closed\<rparr>"
  have "async_step A_thread ex_end = Some ?s1" "async_step A_thread ?s1 = Some ?s2"
    "async_step A_thread ?s2 = Some ?s3" "async_step A_thread ?s3 = Some ex_fast"
    by (simp_all add: clog_async_thread_handler_def ex_end_def ex_spin_def ex_fast_def)
  then have reach: "async_reach async_opened ex_fast" by (meson async_next ex_end_reach)
  have "async_step A_owner ex_fast = Some (ex_fast\<lparr>at_owner := O_close_set\<rparr>)"
    by (simp add: async_owner_def ex_fast_def ex_end_def ex_spin_def)
  then have "async_reach ex_fast (ex_fast\<lparr>at_owner := O_close_set\<rparr>)" by (rule async_next [OF async_init])
  from async_close_hangs [OF reach _ _ this] reach show ?thesis
    by (simp add: ex_fast_def ex_end_def ex_spin_def)
qed

end
