(* ===== verification/Config.thy ===== *)
theory Config
  imports Secure_Func
begin

text \<open>
  The configuration files of clog_config.c: groups and items, their release, the parser of a
  line and of a whole file, and the lookups (clog_config_ext.c included). Printing is in
  \<open>Config_Dump\<close>.

  Data. The \<open>next\<close> and \<open>sibling\<close> links become lists: an item holds its key (NULL for
  the element of an array) and a value, the type tag and its union being one datatype; a group
  holds its name (NULL for the root), its items and its subgroups. The parser mutates the tree
  it builds through two pointers, \<open>root\<close> and \<open>current\<close>; \<open>current\<close> is here the
  path to a group, the index taken at every level. Floating point values are a type variable
  and \<open>strtod\<close> is a parameter that yields \<open>None\<close> where it sets \<open>errno\<close>.

  Text. A file is a string \<open>d\<close> and a pointer into it a position; position
  \<open>length d\<close> holds the terminator. A line is the range from a start to an end position,
  and the parser does look at the character the end points to. Two of its reads can fall beyond
  the terminator, and one of its results is computed from a null pointer; these give
  \<open>Undefined\<close>. \<open>NoFuel\<close> stands for the bound on the recursion over nested arrays
  being too small, which is shown not to happen. The error log is left out.
\<close>

subsection \<open>Data\<close>

datatype 'f config_value =
    V_INT "32 word" | V_UINT "32 word" | V_FLOAT 'f | V_CHAR char | V_STRING string | V_BOOL bool
  | V_ARRAY "'f config_item list" | V_INVALID
and 'f config_item = Item (item_key: "string option") (item_value: "'f config_value")

datatype 'f config_group =
  Group (group_name: "string option") (group_content: "'f config_item list")
    (group_children: "'f config_group list")

datatype 'a outcome = Returns 'a | Returns_NULL | Undefined | NoFuel

definition of_option :: "'a option \<Rightarrow> 'a outcome" where
  "of_option x = (case x of None \<Rightarrow> Returns_NULL | Some y \<Rightarrow> Returns y)"

definition sizeof_item :: nat where "sizeof_item = 32"
definition sizeof_group :: nat where "sizeof_group = 32"

definition TAB :: char where "TAB = CHR 0x09"
definition NL :: char where "NL = CHR 0x0A"
definition CR :: char where "CR = CHR 0x0D"
definition NUL :: char where "NUL = CHR 0x00"
definition QUOTE :: char where "QUOTE = CHR 0x22"
definition APOSTROPHE :: char where "APOSTROPHE = CHR 0x27"
definition BACKSLASH :: char where "BACKSLASH = CHR 0x5C"

lemmas char_consts = TAB_def NL_def CR_def NUL_def QUOTE_def APOSTROPHE_def BACKSLASH_def

definition char_at :: "string \<Rightarrow> nat \<Rightarrow> char" where
  "char_at d i = (if i < length d then d ! i else NUL)"

definition char_in :: "char \<Rightarrow> char \<Rightarrow> char \<Rightarrow> bool" where
  "char_in lo hi c \<longleftrightarrow> (of_char lo :: nat) \<le> of_char c \<and> (of_char c :: nat) \<le> of_char hi"

definition is_blank :: "char \<Rightarrow> bool" where
  "is_blank c \<longleftrightarrow> c = CHR '' '' \<or> c = TAB"

subsection \<open>Spaces, empty groups and items, release\<close>

function clog_config_remove_leading_spaces :: "string \<Rightarrow> nat \<Rightarrow> nat \<Rightarrow> nat" where
  "clog_config_remove_leading_spaces d tmp e =
     (if tmp < e then
        if char_at d tmp \<noteq> CHR '' '' \<and> char_at d tmp \<noteq> TAB then tmp
        else clog_config_remove_leading_spaces d (tmp + 1) e
      else tmp)"
  by pat_completeness auto
termination by (relation "measure (\<lambda>(d, tmp, e). e - tmp)") auto

declare clog_config_remove_leading_spaces.simps [simp del]

definition clog_config_create_empty_group ::
    "'m mem_scheme \<Rightarrow> 'f config_group option \<times> 'm mem_scheme" where
  "clog_config_create_empty_group m = (case clog_malloc sizeof_group m of
      (False, m) \<Rightarrow> (None, m)
    | (True, m) \<Rightarrow> (Some (Group None [] []), m))"

definition clog_config_create_empty_item ::
    "'m mem_scheme \<Rightarrow> 'f config_item option \<times> 'm mem_scheme" where
  "clog_config_create_empty_item m = (case clog_malloc sizeof_item m of
      (False, m) \<Rightarrow> (None, m)
    | (True, m) \<Rightarrow> (Some (Item None V_INVALID), m))"

fun clog_config_free_item :: "'f config_item \<Rightarrow> 'm mem_scheme \<Rightarrow> 'm mem_scheme"
  and clog_config_free_items :: "'f config_item list \<Rightarrow> 'm mem_scheme \<Rightarrow> 'm mem_scheme" where
  "clog_config_free_item (Item key v) m =
     (let m = clog_free_opt key m;
          m = (case v of V_STRING str \<Rightarrow> clog_free m | _ \<Rightarrow> m);
          m = (case v of V_ARRAY items \<Rightarrow> clog_config_free_items items m | _ \<Rightarrow> m)
      in clog_free m)"
| "clog_config_free_items [] m = m"
| "clog_config_free_items (it # items) m = clog_config_free_items items (clog_config_free_item it m)"

fun clog_config_destroy_group :: "'f config_group \<Rightarrow> 'm mem_scheme \<Rightarrow> 'm mem_scheme"
  and destroy_children :: "'f config_group list \<Rightarrow> 'm mem_scheme \<Rightarrow> 'm mem_scheme" where
  "clog_config_destroy_group (Group name content children) m =
     (let m = destroy_children children m;
          m = clog_free_opt name m;
          m = clog_config_free_items content m
      in clog_free m)"
| "destroy_children [] m = m"
| "destroy_children (g # gs) m = destroy_children gs (clog_config_destroy_group g m)"

definition clog_config_is_valid_name_char :: "char \<Rightarrow> bool" where
  "clog_config_is_valid_name_char ch \<longleftrightarrow>
     ch = CHR ''_'' \<or> char_in (CHR ''0'') (CHR ''9'') ch \<or> char_in (CHR ''a'') (CHR ''z'') ch \<or>
     char_in (CHR ''A'') (CHR ''Z'') ch"

subsection \<open>Group lines\<close>

text \<open>
  The first part of a dotted name ends at the first dot or space. \<open>find_prefix\<close> is the
  search among the siblings: \<open>clog_strncmp\<close> is given the length of the part, so a group
  whose name only begins with the part is taken for it.
\<close>

function name_stop :: "string \<Rightarrow> nat \<Rightarrow> nat \<Rightarrow> nat" where
  "name_stop d tmp e =
     (if tmp < e then
        if char_at d tmp = CHR ''.'' \<or> char_at d tmp = CHR '' '' \<or> char_at d tmp = TAB then tmp
        else name_stop d (tmp + 1) e
      else tmp)"
  by pat_completeness auto
termination by (relation "measure (\<lambda>(d, tmp, e). e - tmp)") auto

declare name_stop.simps [simp del]

fun find_prefix :: "'f config_group list \<Rightarrow> string \<Rightarrow> nat \<Rightarrow> nat option" where
  "find_prefix [] start n = None"
| "find_prefix (g # gs) start n =
     (if clog_strncmp (group_name g) (Some start) n = 0 then Some 0
      else map_option Suc (find_prefix gs start n))"

text \<open>The new group of lines 126-129 and 149-152; a part of length 0 has no name.\<close>

definition create_named_group ::
    "string \<Rightarrow> nat \<Rightarrow> 'm mem_scheme \<Rightarrow> 'f config_group option \<times> 'm mem_scheme" where
  "create_named_group start n m = (case clog_config_create_empty_group m of
      (None, m) \<Rightarrow> (None, m)
    | (Some (new_group :: 'f config_group), m) \<Rightarrow>
        (case clog_strndup start n m of
           (None, m) \<Rightarrow> (None, clog_config_destroy_group new_group m)
         | (Some name, m) \<Rightarrow> (Some (Group (Some name) [] []), m)))"

lemma remove_leading_spaces_ge: "tmp \<le> clog_config_remove_leading_spaces d tmp e"
  by (induction d tmp e rule: clog_config_remove_leading_spaces.induct)
    (subst clog_config_remove_leading_spaces.simps, auto dest: Suc_leD)

lemma remove_leading_spaces_le: "tmp \<le> e \<Longrightarrow> clog_config_remove_leading_spaces d tmp e \<le> e"
  by (induction d tmp e rule: clog_config_remove_leading_spaces.induct)
    (subst clog_config_remove_leading_spaces.simps, auto dest: Suc_leD)

lemma name_stop_ge: "tmp \<le> name_stop d tmp e"
  by (induction d tmp e rule: name_stop.induct) (subst name_stop.simps, auto dest: Suc_leD)

lemma next_name_ge:
  "start \<le> clog_config_remove_leading_spaces d
     (name_stop d (clog_config_remove_leading_spaces d start e) e) e"
  by (meson le_trans name_stop_ge remove_leading_spaces_ge)

lemma remove_leading_spaces_beyond: "e \<le> tmp \<Longrightarrow> clog_config_remove_leading_spaces d tmp e = tmp"
  by (subst clog_config_remove_leading_spaces.simps) simp

text \<open>
  The result is the path to the group, the group \<open>r\<close> with what was added below it, and the
  memory. \<open>sibling\<close> tells the two creating branches apart: the second one returns
  \<open>current\<close>, which is NULL there, when the name is followed by spaces (line 156).
\<close>

function clog_config_find_or_create_group ::
    "string \<Rightarrow> 'f config_group \<Rightarrow> nat \<Rightarrow> nat \<Rightarrow> 'm mem_scheme \<Rightarrow>
     nat list outcome \<times> 'f config_group \<times> 'm mem_scheme" where
  "clog_config_find_or_create_group d r start e m =
     (let name_start = clog_config_remove_leading_spaces d start e;
          name_end = name_stop d name_start e;
          n = name_end - name_start;
          next = clog_config_remove_leading_spaces d name_end e;
          children = group_children r;
          set_children = (\<lambda>cs. Group (group_name r) (group_content r) cs)
      in case find_prefix children (drop name_start d) n of
           Some i \<Rightarrow>
             if name_end = e then (Returns [i], r, m)
             else if e \<le> next then (Returns [i], r, m)
             else (case clog_config_find_or_create_group d (children ! i) (next + 1) e m of
                     (p, g, m) \<Rightarrow>
                       (map_outcome ((#) i) p, set_children (children[i := g]), m))
         | None \<Rightarrow>
             (case create_named_group (drop name_start d) n m of
                (None, m) \<Rightarrow> (Returns_NULL, r, m)
              | (Some new_group, m) \<Rightarrow>
                  let i = length children; sibling = (children \<noteq> []) in
                  if name_end = e then (Returns [i], set_children (children @ [new_group]), m)
                  else if e \<le> next then
                    ((if sibling then Returns_NULL else Returns [i]),
                     set_children (children @ [new_group]), m)
                  else (case clog_config_find_or_create_group d new_group (next + 1) e m of
                          (p, g, m) \<Rightarrow>
                            (map_outcome ((#) i) p, set_children (children @ [g]), m))))"
  by pat_completeness auto
termination
  by (relation "measure (\<lambda>(d, r, start, e, m). e - start)")
    (auto intro!: diff_less_mono2 le_imp_less_Suc next_name_ge simp: not_le
      intro: le_less_trans [OF next_name_ge])

declare clog_config_find_or_create_group.simps [simp del]

text \<open>
  The check of a group line, from the bracket at \<open>start\<close>: the start and the end of the
  name and the position after the closing bracket. \<open>group_name_loop\<close> is its loop. After a
  run of spaces the next character is passed over whatever it is, which is how
  \<open>[a bc]\<close> is accepted.
\<close>

function group_name_loop :: "string \<Rightarrow> nat \<Rightarrow> bool \<Rightarrow> nat \<Rightarrow> (nat \<times> nat) option" where
  "group_name_loop d tmp is_split_exist e =
     (if \<not> tmp < e then None
      else if char_at d tmp = CHR '' '' \<or> char_at d tmp = TAB then
        let tmp' = clog_config_remove_leading_spaces d tmp e; c = char_at d tmp' in
        if is_split_exist then
          if \<not> clog_config_is_valid_name_char c then None
          else group_name_loop d (tmp' + 1) False e
        else if c = CHR '']'' then Some (tmp', tmp' + 1)
        else if c = CHR ''.'' then None
        else group_name_loop d (tmp' + 1) True e
      else if char_at d tmp = CHR ''.'' then
        if is_split_exist then None else group_name_loop d (tmp + 1) True e
      else if char_at d tmp = CHR '']'' then
        if is_split_exist then None else Some (tmp, tmp + 1)
      else if clog_config_is_valid_name_char (char_at d tmp) then group_name_loop d (tmp + 1) False e
      else None)"
  by pat_completeness auto
termination
  by (relation "measure (\<lambda>(d, tmp, is_split_exist, e). e - tmp)")
    (auto intro: diff_less_mono2 le_less_trans [OF remove_leading_spaces_ge] simp: less_Suc_eq_le
      remove_leading_spaces_ge)

declare group_name_loop.simps [simp del]

definition clog_config_get_valid_group_name ::
    "string \<Rightarrow> nat \<Rightarrow> nat \<Rightarrow> (nat \<times> nat \<times> nat) option" where
  "clog_config_get_valid_group_name d start e =
     (let tmp = clog_config_remove_leading_spaces d (start + 1) e in
      if tmp = e then None
      else if \<not> clog_config_is_valid_name_char (char_at d tmp) then None
      else map_option (\<lambda>(format_end, next). (tmp, format_end, next))
             (group_name_loop d tmp False e))"

text \<open>What is left of a line; \<open>start\<close> may lie beyond the end of the line.\<close>

definition clog_config_check_inline_comment :: "string \<Rightarrow> nat \<Rightarrow> nat \<Rightarrow> bool outcome" where
  "clog_config_check_inline_comment d start e =
     (if start = e then Returns True
      else let tmp = clog_config_remove_leading_spaces d start e in
        if tmp = e then Returns True
        else if length d < tmp then Undefined
        else Returns (char_at d tmp = CHR ''#''))"

subsection \<open>Values: characters, numbers\<close>

text \<open>
  A value parser returns the position after the value together with the value, \<open>None\<close> for
  the null pointer. The escapes of a character literal.
\<close>

definition escape_chars :: "(char \<times> char) list" where
  "escape_chars = [(APOSTROPHE, APOSTROPHE), (CHR ''n'', NL), (CHR ''t'', TAB), (CHR ''r'', CR),
     (BACKSLASH, BACKSLASH), (CHR ''0'', NUL)]"

definition clog_config_parse_char ::
    "string \<Rightarrow> nat \<Rightarrow> nat \<Rightarrow> (nat \<times> 'f config_value) option" where
  "clog_config_parse_char d start e =
     (let close = (\<lambda>tmp value.
            if tmp = e then None
            else if char_at d tmp \<noteq> APOSTROPHE then None
            else Some (tmp + 1, V_CHAR value));
          tmp = start + 1
      in if tmp = e then None
         else if char_at d tmp = BACKSLASH then
           let tmp = tmp + 1 in
           if tmp = e then None
           else (case map_of escape_chars (char_at d tmp) of
                   None \<Rightarrow> None
                 | Some value \<Rightarrow> close (tmp + 1) value)
         else close (tmp + 1) (char_at d tmp))"

definition code :: "char \<Rightarrow> int" where "code c = of_char c"

definition clog_config_get_number_value :: "nat \<Rightarrow> char \<Rightarrow> int" where
  "clog_config_get_number_value radix tmp =
     (if radix = 2 then
        if tmp = CHR ''0'' \<or> tmp = CHR ''1'' then code tmp - code (CHR ''0'') else -1
      else if radix = 8 then
        if char_in (CHR ''0'') (CHR ''7'') tmp then code tmp - code (CHR ''0'') else -1
      else if radix = 10 then
        if char_in (CHR ''0'') (CHR ''9'') tmp then code tmp - code (CHR ''0'') else -1
      else if radix = 16 then
        if char_in (CHR ''0'') (CHR ''9'') tmp then code tmp - code (CHR ''0'')
        else if char_in (CHR ''a'') (CHR ''f'') tmp then code tmp - code (CHR ''a'') + 10
        else if char_in (CHR ''A'') (CHR ''F'') tmp then code tmp - code (CHR ''A'') + 10
        else -1
      else -1)"

text \<open>
  The accumulator has 64 bits and wraps; the check against \<open>UINT32_MAX\<close> comes after the
  loop. Without a digit \<open>number_end\<close> is still \<open>end\<close>, and with a null \<open>end\<close>
  (a sign with nothing after it) the result is one past the null pointer.
\<close>

function uint_loop ::
    "nat \<Rightarrow> string \<Rightarrow> nat \<Rightarrow> nat \<Rightarrow> 64 word \<Rightarrow> nat \<Rightarrow> 64 word \<times> nat" where
  "uint_loop radix d tmp e base number_end =
     (if tmp < e then
        let value = clog_config_get_number_value radix (char_at d tmp) in
        if value < 0 then (base, number_end)
        else uint_loop radix d (tmp + 1) e (base * of_nat radix + of_int value) tmp
      else (base, number_end))"
  by pat_completeness auto
termination by (relation "measure (\<lambda>(radix, d, tmp, e, base, number_end). e - tmp)") auto

declare uint_loop.simps [simp del]

definition clog_config_parse_uint_radix ::
    "nat \<Rightarrow> string \<Rightarrow> nat \<Rightarrow> nat option \<Rightarrow> (nat \<times> 'f config_value) outcome" where
  "clog_config_parse_uint_radix radix d start end_opt = (case end_opt of
      None \<Rightarrow> Undefined
    | Some e \<Rightarrow>
        (let (base, number_end) = uint_loop radix d start e 0 e in
         if 0xFFFFFFFF < base then Returns_NULL
         else Returns (number_end + 1, V_UINT (ucast base))))"

text \<open>
  The condition of line 322 holds of every character, so a floating point value extends to the
  end of the line, or to a second dot, which is refused.
\<close>

function double_loop :: "string \<Rightarrow> nat \<Rightarrow> nat \<Rightarrow> bool \<Rightarrow> nat \<Rightarrow> nat option" where
  "double_loop d tmp e is_dot number_end =
     (if tmp < e then
        if char_at d tmp = CHR ''.'' then
          if is_dot then None else double_loop d (tmp + 1) e True number_end
        else if code (char_at d tmp) \<ge> code (CHR ''0'') \<or> code (char_at d tmp) \<le> code (CHR ''9'') then
          double_loop d (tmp + 1) e is_dot tmp
        else Some number_end
      else Some number_end)"
  by pat_completeness auto
termination by (relation "measure (\<lambda>(d, tmp, e, is_dot, number_end). e - tmp)") auto

declare double_loop.simps [simp del]

definition clog_config_parse_double ::
    "(string \<Rightarrow> 'f option) \<Rightarrow> string \<Rightarrow> nat \<Rightarrow> nat \<Rightarrow> 'm mem_scheme \<Rightarrow>
     (nat \<times> 'f config_value) option \<times> 'm mem_scheme" where
  "clog_config_parse_double strtod d start e m =
     (let tmp = (if char_at d start = CHR ''+'' \<or> char_at d start = CHR ''-'' then start + 1 else start)
      in case double_loop d tmp e False tmp of
           None \<Rightarrow> (None, m)
         | Some number_end \<Rightarrow>
             (case clog_strndup (drop start d) (number_end - start + 1) m of
                (None, m) \<Rightarrow> (None, m)
              | (Some str, m) \<Rightarrow>
                  (case strtod str of
                     None \<Rightarrow> (None, clog_free m)
                   | Some res \<Rightarrow> (Some (number_end + 1, V_FLOAT res), clog_free m))))"

definition clog_config_get_radix :: "char \<Rightarrow> nat" where
  "clog_config_get_radix ch =
     (if ch = CHR ''x'' then 16 else if ch = CHR ''o'' then 8 else if ch = CHR ''b'' then 2 else 10)"

text \<open>
  The decimal case (lines 393-412). The scan gives \<open>Inl ()\<close> at a dot and otherwise
  \<open>number_end\<close>, NULL when the scan stops at once at a space, a comment or the end of the
  line. The type tag of the result is \<open>UINT\<close> also behind a sign, where the union holds the
  negated value.
\<close>

function decimal_scan :: "string \<Rightarrow> nat \<Rightarrow> nat \<Rightarrow> nat option \<Rightarrow> unit + nat option" where
  "decimal_scan d tmp e number_end =
     (let c = char_at d tmp in
      if c \<noteq> CHR '' '' \<and> c \<noteq> TAB \<and> c \<noteq> CHR ''#'' \<and> tmp < e then
        if c = CHR ''.'' then Inl ()
        else if \<not> char_in (CHR ''0'') (CHR ''9'') c then Inr (Some tmp)
        else decimal_scan d (tmp + 1) e (Some (tmp + 1))
      else Inr number_end)"
  by pat_completeness auto
termination by (relation "measure (\<lambda>(d, tmp, e, number_end). e - tmp)") auto

declare decimal_scan.simps [simp del]

definition negate_uint :: "bool \<Rightarrow> nat \<times> 'f config_value \<Rightarrow> (nat \<times> 'f config_value) outcome" where
  "negate_uint is_negative = (\<lambda>(tmp, v). case v of
      V_UINT u \<Rightarrow>
        if is_negative then
          if 0x7FFFFFFF < u then Returns_NULL else Returns (tmp, V_UINT (u * (- 1)))
        else Returns (tmp, v)
    | _ \<Rightarrow> Returns (tmp, v))"

definition parse_decimal ::
    "(string \<Rightarrow> 'f option) \<Rightarrow> string \<Rightarrow> nat \<Rightarrow> nat \<Rightarrow> bool \<Rightarrow> nat \<Rightarrow> nat \<Rightarrow> 'm mem_scheme \<Rightarrow>
     (nat \<times> 'f config_value) outcome \<times> 'm mem_scheme" where
  "parse_decimal strtod d start number_start is_negative tmp e m =
     (if char_at d tmp = CHR ''.'' then (Returns_NULL, m)
      else case decimal_scan d tmp e None of
          Inl _ \<Rightarrow> (let (r, m) = clog_config_parse_double strtod d start e m in (of_option r, m))
        | Inr number_end \<Rightarrow>
            (case clog_config_parse_uint_radix 10 d number_start number_end of
               Returns x \<Rightarrow> (negate_uint is_negative x, m)
             | r \<Rightarrow> (r, m)))"

definition clog_config_parse_number ::
    "(string \<Rightarrow> 'f option) \<Rightarrow> string \<Rightarrow> nat \<Rightarrow> nat \<Rightarrow> 'm mem_scheme \<Rightarrow>
     (nat \<times> 'f config_value) outcome \<times> 'm mem_scheme" where
  "clog_config_parse_number strtod d start e m =
     (let is_flag_exist = (char_at d start = CHR ''-'' \<or> char_at d start = CHR ''+'');
          is_negative = (char_at d start = CHR ''-'');
          number_start = (if is_flag_exist then start + 1 else start);
          tmp = number_start
      in if char_at d tmp = CHR ''0'' then
           let tmp = tmp + 1; c = char_at d tmp in
           if tmp = e \<or> c = CHR '' '' \<or> c = CHR ''#'' \<or> c = TAB then
             (Returns (tmp, if is_flag_exist then V_INT 0 else V_UINT 0), m)
           else if c = CHR ''.'' then
             let tmp = tmp - 1; tmp = (if is_flag_exist then tmp - 1 else tmp);
                 (r, m) = clog_config_parse_double strtod d tmp e m
             in (of_option r, m)
           else
             let radix = clog_config_get_radix c in
             if radix \<noteq> 10 then
               if is_flag_exist then (Returns_NULL, m)
               else (clog_config_parse_uint_radix radix d (tmp + 1) (Some e), m)
             else parse_decimal strtod d start number_start is_negative tmp e m
         else parse_decimal strtod d start number_start is_negative tmp e m)"

subsection \<open>Values: strings, truth values, arrays\<close>

function string_loop :: "string \<Rightarrow> nat \<Rightarrow> nat \<Rightarrow> bool \<Rightarrow> string \<Rightarrow> (nat \<times> string) option" where
  "string_loop d tmp e is_escaping out =
     (if tmp < e then
        let c = char_at d tmp in
        if is_escaping then
          if c = BACKSLASH \<or> c = QUOTE then string_loop d (tmp + 1) e False (out @ [c]) else None
        else if c = BACKSLASH then string_loop d (tmp + 1) e True out
        else if c = QUOTE then Some (tmp + 1, out)
        else string_loop d (tmp + 1) e False (out @ [c])
      else None)"
  by pat_completeness auto
termination by (relation "measure (\<lambda>(d, tmp, e, is_escaping, out). e - tmp)") auto

declare string_loop.simps [simp del]

definition clog_config_parse_string ::
    "string \<Rightarrow> nat \<Rightarrow> nat \<Rightarrow> 'm mem_scheme \<Rightarrow> (nat \<times> 'f config_value) option \<times> 'm mem_scheme" where
  "clog_config_parse_string d start e m =
     (let tmp = clog_config_remove_leading_spaces d start e in
      if tmp = e \<or> char_at d tmp \<noteq> QUOTE then (None, m)
      else case clog_malloc (e - start + 1) m of
          (False, m) \<Rightarrow> (None, m)
        | (True, m) \<Rightarrow>
            (case string_loop d (tmp + 1) e False [] of
               None \<Rightarrow> (None, clog_free m)
             | Some (tmp, result) \<Rightarrow> (Some (tmp, V_STRING result), m)))"

definition clog_config_parse_bool :: "string \<Rightarrow> nat \<Rightarrow> nat \<Rightarrow> (nat \<times> 'f config_value) option" where
  "clog_config_parse_bool d start e =
     (let tmp = clog_config_remove_leading_spaces d start e in
      if e \<le> tmp then None
      else if char_at d tmp = CHR ''t'' then
        if e - tmp < 4 then None
        else if strncmp (drop tmp d) ''true'' 4 \<noteq> 0 then None
        else Some (tmp + 4, V_BOOL True)
      else if char_at d tmp = CHR ''f'' then
        if e - tmp < 5 then None
        else if strncmp (drop tmp d) ''false'' 5 \<noteq> 0 then None
        else Some (tmp + 5, V_BOOL False)
      else None)"

fun clog_config_add_array_item ::
    "'f config_item list \<Rightarrow> 'f config_item \<Rightarrow> 'f config_item list" where
  "clog_config_add_array_item [] item = [item]"
| "clog_config_add_array_item (child # rest) item = child # clog_config_add_array_item rest item"

text \<open>
  A value. The second component is what the item holds afterwards, also on failure, where the
  caller releases it: the elements of an array parsed so far. \<open>array_loop\<close> is the loop of
  lines 511-525; its first step is one past \<open>tmp\<close>, so the character after a comma is passed
  over.
\<close>

definition with_value ::
    "(nat \<times> 'f config_value) outcome \<Rightarrow> nat outcome \<times> 'f config_value" where
  "with_value r = (case r of
      Returns (p, v) \<Rightarrow> (Returns p, v)
    | Returns_NULL \<Rightarrow> (Returns_NULL, V_INVALID)
    | Undefined \<Rightarrow> (Undefined, V_INVALID)
    | NoFuel \<Rightarrow> (NoFuel, V_INVALID))"

fun clog_config_parse_value ::
    "(string \<Rightarrow> 'f option) \<Rightarrow> nat \<Rightarrow> string \<Rightarrow> nat \<Rightarrow> nat \<Rightarrow> 'm mem_scheme \<Rightarrow>
     (nat outcome \<times> 'f config_value) \<times> 'm mem_scheme"
  and array_loop ::
    "(string \<Rightarrow> 'f option) \<Rightarrow> nat \<Rightarrow> string \<Rightarrow> nat \<Rightarrow> nat \<Rightarrow> 'f config_item list \<Rightarrow> 'm mem_scheme \<Rightarrow>
     (nat outcome \<times> 'f config_value) \<times> 'm mem_scheme" where
  "clog_config_parse_value strtod 0 d start e m = ((NoFuel, V_INVALID), m)"
| "clog_config_parse_value strtod (Suc fuel) d start e m =
     (let tmp = clog_config_remove_leading_spaces d start e; c = char_at d tmp in
      if tmp = e then ((Returns_NULL, V_INVALID), m)
      else if c = CHR ''+'' \<or> c = CHR ''-'' \<or> char_in (CHR ''0'') (CHR ''9'') c then
        (let (r, m) = clog_config_parse_number strtod d tmp e m in (with_value r, m))
      else if c = APOSTROPHE then (with_value (of_option (clog_config_parse_char d tmp e)), m)
      else if c = QUOTE then
        (let (r, m) = clog_config_parse_string d tmp e m in (with_value (of_option r), m))
      else if c = CHR ''t'' \<or> c = CHR ''f'' then
        (with_value (of_option (clog_config_parse_bool d tmp e)), m)
      else if c = CHR ''['' then array_loop strtod fuel d tmp e [] m
      else ((Returns_NULL, V_INVALID), m))"
| "array_loop strtod 0 d tmp e items m = ((NoFuel, V_ARRAY items), m)"
| "array_loop strtod (Suc fuel) d tmp e items m =
     (if \<not> tmp < e then ((Returns_NULL, V_ARRAY items), m)
      else let tmp = clog_config_remove_leading_spaces d (tmp + 1) e in
        if tmp = e then ((Returns_NULL, V_ARRAY items), m)
        else if char_at d tmp = CHR '']'' then ((Returns (tmp + 1), V_ARRAY items), m)
        else case clog_config_create_empty_item m of
            (None, m) \<Rightarrow> ((Returns_NULL, V_ARRAY items), m)
          | (Some (child :: 'f config_item), m) \<Rightarrow>
              (case clog_config_parse_value strtod fuel d tmp e m of
                 ((Returns tmp, v), m) \<Rightarrow>
                   let items = clog_config_add_array_item items (Item (item_key child) v);
                       tmp = clog_config_remove_leading_spaces d tmp e in
                   if tmp = e then ((Returns_NULL, V_ARRAY items), m)
                   else if length d < tmp then ((Undefined, V_ARRAY items), m)
                   else if char_at d tmp = CHR '']'' then ((Returns (tmp + 1), V_ARRAY items), m)
                   else if char_at d tmp \<noteq> CHR '','' then ((Returns_NULL, V_ARRAY items), m)
                   else array_loop strtod fuel d (tmp + 1) e items m
               | ((r, v), m) \<Rightarrow>
                   ((r, V_ARRAY items), clog_config_free_item (Item (item_key child) v) m)))"

declare clog_config_parse_value.simps (2) [simp del] array_loop.simps (2) [simp del]

subsection \<open>Properties\<close>

definition key_exists :: "'f config_item list \<Rightarrow> 'f config_item \<Rightarrow> bool" where
  "key_exists content item \<longleftrightarrow> (\<exists>it \<in> set content. item_key it = item_key item)"

text \<open>\<open>None\<close> when the key is there already; a new item goes to the front.\<close>

definition clog_config_add_item :: "'f config_group \<Rightarrow> 'f config_item \<Rightarrow> 'f config_group option" where
  "clog_config_add_item g item =
     (if group_content g = [] then Some (Group (group_name g) [item] (group_children g))
      else if key_exists (group_content g) item then None
      else Some (Group (group_name g) (item # group_content g) (group_children g)))"

datatype phase = PARSE_KEY | PARSE_EQUAL | PARSE_VALUE

text \<open>
  The loop over a property line; \<open>key\<close> is the key of the item under construction. At the end
  of the key the code steps back one character, finds it valid and comes forward again.
  The bound handed to \<open>clog_config_parse_value\<close> covers the longest nesting the rest of the
  line can hold.
\<close>

definition fuel_for :: "nat \<Rightarrow> nat \<Rightarrow> nat" where
  "fuel_for tmp e = 2 * (e - tmp) + 2"

definition finish_property ::
    "(string \<Rightarrow> 'f option) \<Rightarrow> string \<Rightarrow> nat \<Rightarrow> nat \<Rightarrow> string option \<Rightarrow> 'm mem_scheme \<Rightarrow>
     'f config_item outcome \<times> 'm mem_scheme" where
  "finish_property strtod d tmp e key m =
     (case clog_config_parse_value strtod (fuel_for tmp e) d tmp e m of
        ((Returns tmp, v), m) \<Rightarrow>
          (case clog_config_check_inline_comment d tmp e of
             Returns True \<Rightarrow> (Returns (Item key v), m)
           | Returns False \<Rightarrow> (Returns_NULL, clog_config_free_item (Item key v) m)
           | _ \<Rightarrow> (Undefined, m))
      | ((Returns_NULL, v), m) \<Rightarrow> (Returns_NULL, clog_config_free_item (Item key v) m)
      | ((Undefined, v), m) \<Rightarrow> (Undefined, m)
      | ((NoFuel, v), m) \<Rightarrow> (NoFuel, m))"

function property_loop ::
    "(string \<Rightarrow> 'f option) \<Rightarrow> string \<Rightarrow> nat \<Rightarrow> nat \<Rightarrow> nat \<Rightarrow> phase \<Rightarrow> string option \<Rightarrow> 'm mem_scheme \<Rightarrow>
     'f config_item outcome \<times> 'm mem_scheme" where
  "property_loop strtod d start tmp e phase key m =
     (if \<not> tmp < e then (Returns_NULL, clog_config_free_item (Item key (V_INVALID :: 'f config_value)) m)
      else let c = char_at d tmp in case phase of
        PARSE_KEY \<Rightarrow>
          if c = CHR '' '' \<or> c = CHR ''='' \<or> c = TAB then
            (case clog_strndup (drop start d) (tmp - start) m of
               (None, m) \<Rightarrow> (Returns_NULL, clog_config_free_item (Item None (V_INVALID :: 'f config_value)) m)
             | (Some key, m) \<Rightarrow>
                 if \<not> clog_config_is_valid_name_char (char_at d (tmp - 1)) then
                   (Returns_NULL, clog_config_free_item (Item (Some key) (V_INVALID :: 'f config_value)) m)
                 else property_loop strtod d start (tmp - 1 + 1) e PARSE_EQUAL (Some key) m)
          else if \<not> clog_config_is_valid_name_char c then
            (Returns_NULL, clog_config_free_item (Item key (V_INVALID :: 'f config_value)) m)
          else property_loop strtod d start (tmp + 1) e PARSE_KEY key m
      | PARSE_EQUAL \<Rightarrow>
          if c = CHR ''='' then property_loop strtod d start (tmp + 1) e PARSE_VALUE key m
          else if c = CHR '' '' \<or> c = TAB then property_loop strtod d start (tmp + 1) e PARSE_EQUAL key m
          else (Returns_NULL, clog_config_free_item (Item key (V_INVALID :: 'f config_value)) m)
      | PARSE_VALUE \<Rightarrow> finish_property strtod d tmp e key m)"
  by pat_completeness auto
termination
  by (relation "measures [\<lambda>(strtod, d, start, tmp, e, phase, key, m). if phase = PARSE_KEY then 1 else 0,
       \<lambda>(strtod, d, start, tmp, e, phase, key, m). e - tmp]") auto

declare property_loop.simps [simp del]

definition clog_config_parse_property ::
    "(string \<Rightarrow> 'f option) \<Rightarrow> string \<Rightarrow> nat \<Rightarrow> nat \<Rightarrow> 'm mem_scheme \<Rightarrow> 'f config_item outcome \<times> 'm mem_scheme" where
  "clog_config_parse_property strtod d start e m =
     (case clog_config_create_empty_item m of
        (None, m) \<Rightarrow> (Returns_NULL, m)
      | (Some (item :: 'f config_item), m) \<Rightarrow>
          property_loop strtod d start (start + 1) e PARSE_KEY (item_key item) m)"

subsection \<open>Lines and files\<close>

text \<open>Paths: the group at a path, and the tree with that group replaced.\<close>

fun group_at :: "nat list \<Rightarrow> 'f config_group \<Rightarrow> 'f config_group" where
  "group_at [] g = g"
| "group_at (i # p) g = group_at p (group_children g ! i)"

fun put_group_at :: "nat list \<Rightarrow> 'f config_group \<Rightarrow> 'f config_group \<Rightarrow> 'f config_group" where
  "put_group_at [] new g = new"
| "put_group_at (i # p) new g =
     Group (group_name g) (group_content g)
       ((group_children g)[i := put_group_at p new (group_children g ! i)])"

definition process_group_line ::
    "string \<Rightarrow> nat \<Rightarrow> nat \<Rightarrow> 'f config_group \<Rightarrow> 'm mem_scheme \<Rightarrow>
     nat list outcome \<times> 'f config_group \<times> 'm mem_scheme" where
  "process_group_line d tmp e root m =
     (case clog_config_get_valid_group_name d tmp e of
        None \<Rightarrow> (Returns_NULL, root, m)
      | Some (group_start, group_end, tmp) \<Rightarrow>
          (case clog_config_check_inline_comment d tmp e of
             Returns True \<Rightarrow> clog_config_find_or_create_group d root group_start group_end m
           | Returns False \<Rightarrow> (Returns_NULL, root, m)
           | _ \<Rightarrow> (Undefined, root, m)))"

definition process_property_line ::
    "(string \<Rightarrow> 'f option) \<Rightarrow> string \<Rightarrow> nat \<Rightarrow> nat \<Rightarrow> 'f config_group \<Rightarrow> nat list \<Rightarrow> 'm mem_scheme \<Rightarrow>
     nat list outcome \<times> 'f config_group \<times> 'm mem_scheme" where
  "process_property_line strtod d tmp e root current m =
     (case clog_config_parse_property strtod d tmp e m of
        (Returns item, m) \<Rightarrow>
          (case clog_config_add_item (group_at current root) item of
             Some g \<Rightarrow> (Returns current, put_group_at current g root, m)
           | None \<Rightarrow> (Returns_NULL, root, clog_config_free_item item m))
      | (Returns_NULL, m) \<Rightarrow> (Returns_NULL, root, m)
      | (Undefined, m) \<Rightarrow> (Undefined, root, m)
      | (NoFuel, m) \<Rightarrow> (NoFuel, root, m))"

definition clog_config_process_line ::
    "(string \<Rightarrow> 'f option) \<Rightarrow> string \<Rightarrow> nat \<Rightarrow> nat \<Rightarrow> 'f config_group \<Rightarrow> nat list \<Rightarrow> 'm mem_scheme \<Rightarrow>
     nat list outcome \<times> 'f config_group \<times> 'm mem_scheme" where
  "clog_config_process_line strtod d start e root current m =
     (let tmp = clog_config_remove_leading_spaces d start e; c = char_at d tmp in
      if tmp = e then (Returns current, root, m)
      else if c = CHR ''['' then process_group_line d tmp e root m
      else if c = CHR ''#'' then (Returns current, root, m)
      else if clog_config_is_valid_name_char c then
        process_property_line strtod d tmp e root current m
      else (Returns_NULL, root, m))"

text \<open>\<open>line_end\<close> and \<open>skip_newlines\<close> are the inner loops of \<open>clog_config_parse\<close>.\<close>

function line_end :: "string \<Rightarrow> nat \<Rightarrow> nat" where
  "line_end d tmp =
     (if char_at d tmp \<noteq> NL \<and> char_at d tmp \<noteq> CR \<and> char_at d tmp \<noteq> NUL then line_end d (tmp + 1)
      else tmp)"
  by pat_completeness auto
termination
  by (relation "measure (\<lambda>(d, tmp). length d - tmp)") (auto simp: char_at_def split: if_splits)

function skip_newlines :: "string \<Rightarrow> nat \<Rightarrow> nat" where
  "skip_newlines d tmp =
     (if char_at d tmp = NL \<or> char_at d tmp = CR then skip_newlines d (tmp + 1) else tmp)"
  by pat_completeness auto
termination
  by (relation "measure (\<lambda>(d, tmp). length d - tmp)")
    (auto simp: char_at_def char_consts split: if_splits)

declare line_end.simps [simp del] skip_newlines.simps [simp del]

lemma line_end_ge: "tmp \<le> line_end d tmp"
  by (induction d tmp rule: line_end.induct) (subst line_end.simps, auto dest: Suc_leD)

lemma skip_newlines_ge: "tmp \<le> skip_newlines d tmp"
  by (induction d tmp rule: skip_newlines.induct) (subst skip_newlines.simps, auto dest: Suc_leD)

lemma line_end_le: "tmp \<le> length d \<Longrightarrow> line_end d tmp \<le> length d"
  by (induction d tmp rule: line_end.induct)
    (subst line_end.simps, auto simp: char_at_def split: if_splits)

lemma next_line_gt:
  assumes "char_at d tmp \<noteq> NUL"
  shows "tmp < skip_newlines d (line_end d tmp)"
proof (cases "char_at d tmp = NL \<or> char_at d tmp = CR")
  case True
  then have "line_end d tmp = tmp" by (subst line_end.simps) auto
  moreover have "skip_newlines d tmp = skip_newlines d (tmp + 1)"
    using True by (subst skip_newlines.simps) simp
  ultimately show ?thesis using skip_newlines_ge [of "tmp + 1" d] by simp
next
  case False
  then have "line_end d tmp = line_end d (tmp + 1)" using assms by (subst line_end.simps) simp
  then show ?thesis
    using line_end_ge [of "tmp + 1" d] skip_newlines_ge [of "line_end d tmp" d] by simp
qed

lemma char_at_not_NUL: "char_at d tmp \<noteq> NUL \<Longrightarrow> tmp < length d"
  by (simp add: char_at_def split: if_splits)

text \<open>
  On failure the line is copied for the message, the copy released, and the tree destroyed.
\<close>

definition fail_parse :: "string \<Rightarrow> nat \<Rightarrow> nat \<Rightarrow> 'f config_group \<Rightarrow> 'm mem_scheme \<Rightarrow> 'm mem_scheme" where
  "fail_parse d start e root m =
     (let (line, m) = clog_strndup (drop start d) (e - start + 1) m;
          m = clog_free_opt line m
      in clog_config_destroy_group root m)"

function parse_lines ::
    "(string \<Rightarrow> 'f option) \<Rightarrow> string \<Rightarrow> nat \<Rightarrow> 'f config_group \<Rightarrow> nat list \<Rightarrow> 'm mem_scheme \<Rightarrow>
     'f config_group outcome \<times> 'm mem_scheme" where
  "parse_lines strtod d tmp root current m =
     (if char_at d tmp = NUL then (Returns root, m)
      else let start = tmp; e = line_end d tmp; continue = skip_newlines d e in
        if start = e then parse_lines strtod d continue root current m
        else case clog_config_process_line strtod d start e root current m of
            (Returns current, root, m) \<Rightarrow> parse_lines strtod d continue root current m
          | (Returns_NULL, root, m) \<Rightarrow> (Returns_NULL, fail_parse d start e root m)
          | (Undefined, root, m) \<Rightarrow> (Undefined, m)
          | (NoFuel, root, m) \<Rightarrow> (NoFuel, m))"
  by pat_completeness auto
termination
  by (relation "measure (\<lambda>(strtod, d, tmp, root, current, m). length d - tmp)")
    (auto intro!: diff_less_mono2 dest: char_at_not_NUL, (metis next_line_gt)+)

declare parse_lines.simps [simp del]

definition clog_config_parse ::
    "(string \<Rightarrow> 'f option) \<Rightarrow> string option \<Rightarrow> 'm mem_scheme \<Rightarrow> 'f config_group outcome \<times> 'm mem_scheme" where
  "clog_config_parse strtod data m = (case data of
      None \<Rightarrow> (Returns_NULL, m)
    | Some d \<Rightarrow>
        (case clog_config_create_empty_group m of
           (None, m) \<Rightarrow> (Returns_NULL, m)
         | (Some root, m) \<Rightarrow> parse_lines strtod d 0 root [] m))"

subsection \<open>Lookups\<close>

text \<open>
  \<open>groups\<close> is an array of strings, a list of possibly null pointers, or NULL itself;
  reading its first element when it has none is undefined. The recursion of
  \<open>clog_config_find_group\<close> goes through the same checks again.
\<close>

fun find_child :: "'f config_group list \<Rightarrow> string \<Rightarrow> 'f config_group option" where
  "find_child [] n = None"
| "find_child (g # gs) n = (if group_name g = Some n then Some g else find_child gs n)"

fun find_group_names ::
    "'f config_group \<Rightarrow> string option list \<Rightarrow> nat \<Rightarrow> 'f config_group outcome" where
  "find_group_names root [] count = Undefined"
| "find_group_names root (None # groups) count = Returns_NULL"
| "find_group_names root (Some n # groups) count =
     (if count = 0 then Returns root
      else case find_child (group_children root) n of
          None \<Rightarrow> Returns_NULL
        | Some g \<Rightarrow> if count = 1 then Returns g else find_group_names g groups (count - 1))"

definition clog_config_find_group ::
    "'f config_group option \<Rightarrow> string option list option \<Rightarrow> nat \<Rightarrow> 'f config_group outcome" where
  "clog_config_find_group root groups count = (case (root, groups) of
      (Some root, Some groups) \<Rightarrow> find_group_names root groups count
    | _ \<Rightarrow> Returns_NULL)"

fun find_key :: "'f config_item list \<Rightarrow> string \<Rightarrow> 'f config_item option" where
  "find_key [] key = None"
| "find_key (it # items) key = (if item_key it = Some key then Some it else find_key items key)"

definition clog_config_find_item_in_group ::
    "'f config_group option \<Rightarrow> string option \<Rightarrow> 'f config_item option" where
  "clog_config_find_item_in_group grp key = (case (grp, key) of
      (Some g, Some k) \<Rightarrow> find_key (group_content g) k
    | _ \<Rightarrow> None)"

text \<open>
  The macro of lines 802-811: \<open>read\<close> checks the type tag and reads the union, \<open>has_value\<close>
  says that the result pointer is not NULL.
\<close>

definition CLOG_DECLARE_FIND_ITEM_FUNC ::
    "('f config_value \<Rightarrow> 'v option) \<Rightarrow> 'f config_group option \<Rightarrow> string option \<Rightarrow> bool \<Rightarrow> clog_res + 'v" where
  "CLOG_DECLARE_FIND_ITEM_FUNC read grp key has_value =
     (if \<not> has_value then Inl CLOG_INVALID_PARAM
      else case clog_config_find_item_in_group grp key of
          None \<Rightarrow> Inl CLOG_TARGET_NOT_FOUND
        | Some item \<Rightarrow>
            (case read (item_value item) of None \<Rightarrow> Inl CLOG_ERROR_FORMAT | Some v \<Rightarrow> Inr v))"

fun read_uint :: "'f config_value \<Rightarrow> 32 word option" where
  "read_uint (V_UINT u) = Some u" | "read_uint _ = None"

fun read_bool :: "'f config_value \<Rightarrow> bool option" where
  "read_bool (V_BOOL b) = Some b" | "read_bool _ = None"

fun read_string :: "'f config_value \<Rightarrow> string option" where
  "read_string (V_STRING s) = Some s" | "read_string _ = None"

fun read_array :: "'f config_value \<Rightarrow> 'f config_item list option" where
  "read_array (V_ARRAY items) = Some items" | "read_array _ = None"

definition clog_config_find_item_in_group_uint ::
    "'f config_group option \<Rightarrow> string option \<Rightarrow> bool \<Rightarrow> clog_res + 32 word" where
  "clog_config_find_item_in_group_uint = CLOG_DECLARE_FIND_ITEM_FUNC read_uint"
definition clog_config_find_item_in_group_bool ::
    "'f config_group option \<Rightarrow> string option \<Rightarrow> bool \<Rightarrow> clog_res + bool" where
  "clog_config_find_item_in_group_bool = CLOG_DECLARE_FIND_ITEM_FUNC read_bool"
definition clog_config_find_item_in_group_string ::
    "'f config_group option \<Rightarrow> string option \<Rightarrow> bool \<Rightarrow> clog_res + string" where
  "clog_config_find_item_in_group_string = CLOG_DECLARE_FIND_ITEM_FUNC read_string"
definition clog_config_find_item_in_group_array ::
    "'f config_group option \<Rightarrow> string option \<Rightarrow> bool \<Rightarrow> clog_res + 'f config_item list" where
  "clog_config_find_item_in_group_array = CLOG_DECLARE_FIND_ITEM_FUNC read_array"

fun find_item_names ::
    "'f config_group \<Rightarrow> string option list \<Rightarrow> nat \<Rightarrow> string \<Rightarrow> 'f config_item outcome" where
  "find_item_names root groups 0 key = of_option (find_key (group_content root) key)"
| "find_item_names root [] (Suc count) key = Undefined"
| "find_item_names root (None # groups) (Suc count) key = Returns_NULL"
| "find_item_names root (Some n # groups) (Suc count) key =
     (case find_child (group_children root) n of
        None \<Rightarrow> Returns_NULL
      | Some g \<Rightarrow> find_item_names g groups count key)"

definition clog_config_find_item ::
    "'f config_group option \<Rightarrow> string option list \<Rightarrow> nat \<Rightarrow> string option \<Rightarrow> 'f config_item outcome" where
  "clog_config_find_item root groups count key = (case (root, key) of
      (Some root, Some key) \<Rightarrow> find_item_names root groups count key
    | _ \<Rightarrow> Returns_NULL)"

text \<open>The flag \<open>enabled\<close> of a group keeps its value when the group does not set it.\<close>

definition clog_config_item_get_enabled ::
    "'f config_group option \<Rightarrow> bool \<Rightarrow> bool \<Rightarrow> clog_res \<times> bool" where
  "clog_config_item_get_enabled grp has_value enabled =
     (case clog_config_find_item_in_group_bool grp (Some ''enabled'') has_value of
        Inr b \<Rightarrow> (CLOG_SUCCESS, b)
      | Inl CLOG_TARGET_NOT_FOUND \<Rightarrow> (CLOG_SUCCESS, enabled)
      | Inl ret \<Rightarrow> (ret, enabled))"

end
