(* ===== verification/Config_Correct.thy ===== *)
theory Config_Correct
  imports Config "HOL-Library.Sublist"
begin

text \<open>
  What the configuration parser keeps: the memory it owns is exactly the tree it builds and is
  given back on every failure; the recursion over nested arrays ends within the bound given to
  it; and the trees it returns are well formed.
\<close>

subsection \<open>Blocks held by a tree\<close>

fun item_blocks :: "'f config_item \<Rightarrow> int" and items_blocks :: "'f config_item list \<Rightarrow> int" where
  "item_blocks (Item key v) = 1 + (if key = None then 0 else 1) +
     (case v of V_STRING _ \<Rightarrow> 1 | V_ARRAY items \<Rightarrow> items_blocks items | _ \<Rightarrow> 0)"
| "items_blocks [] = 0"
| "items_blocks (it # items) = item_blocks it + items_blocks items"

definition value_blocks :: "'f config_value \<Rightarrow> int" where
  "value_blocks v = item_blocks (Item None v) - 1"

lemma value_blocks_simps [simp]:
  "value_blocks (V_INT i) = 0" "value_blocks (V_UINT u) = 0" "value_blocks (V_FLOAT f) = 0"
  "value_blocks (V_CHAR c) = 0" "value_blocks (V_STRING s) = 1" "value_blocks (V_BOOL b) = 0"
  "value_blocks (V_ARRAY items) = items_blocks items" "value_blocks V_INVALID = 0"
  by (simp_all add: value_blocks_def)

lemma item_blocks_value:
  "item_blocks (Item key v) = 1 + (if key = None then 0 else 1) + value_blocks v"
  by (simp add: value_blocks_def)

declare item_blocks.simps(1) [simp del] item_blocks_value [simp]

fun group_blocks :: "'f config_group \<Rightarrow> int" and groups_blocks :: "'f config_group list \<Rightarrow> int" where
  "group_blocks (Group name content children) =
     1 + (if name = None then 0 else 1) + items_blocks content + groups_blocks children"
| "groups_blocks [] = 0"
| "groups_blocks (g # gs) = group_blocks g + groups_blocks gs"

lemma live_free_item:
  fixes it :: "'f config_item" and items :: "'f config_item list"
  shows "live (clog_config_free_item it m) = live m - item_blocks it"
    and "live (clog_config_free_items items m) = live m - items_blocks items"
  by (induction it m and items m rule: clog_config_free_item_clog_config_free_items.induct)
    (auto simp: mem_simps Let_def split: config_value.splits)

lemma live_destroy_group:
  fixes g :: "'f config_group" and gs :: "'f config_group list"
  shows "live (clog_config_destroy_group g m) = live m - group_blocks g"
    and "live (destroy_children gs m) = live m - groups_blocks gs"
  by (induction g m and gs m rule: clog_config_destroy_group_destroy_children.induct)
    (auto simp: mem_simps Let_def live_free_item)

declare clog_config_free_item.simps [simp del] clog_config_destroy_group.simps [simp del]

lemma items_blocks_append: "items_blocks (xs @ ys) = items_blocks xs + items_blocks ys"
  by (induction xs) auto

lemma add_array_item_append: "clog_config_add_array_item xs x = xs @ [x]"
  by (induction xs) auto

lemma groups_blocks_append: "groups_blocks (xs @ ys) = groups_blocks xs + groups_blocks ys"
  by (induction xs) auto

lemma groups_blocks_update:
  "i < length gs \<Longrightarrow> groups_blocks (gs[i := g]) = groups_blocks gs - group_blocks (gs ! i) + group_blocks g"
  by (induction gs arbitrary: i) (auto split: nat.splits)

lemma group_blocks_eq:
  "group_blocks g = 1 + (if group_name g = None then 0 else 1) + items_blocks (group_content g) +
     groups_blocks (group_children g)"
  by (cases g) simp

subsection \<open>The parser owns what it returns\<close>

lemma parse_double_live:
  "clog_config_parse_double strtod d start e m = (r, m') \<Longrightarrow>
   live m' = live m \<and> (\<forall>p v. r = Some (p, v) \<longrightarrow> value_blocks v = 0)"
  by (auto simp: clog_config_parse_double_def mem_simps Let_def split: option.splits prod.splits
      dest!: live_clog_strndup)

lemma with_value_blocks:
  "(\<And>p v. r = Returns (p, v) \<Longrightarrow> value_blocks v = 0) \<Longrightarrow> value_blocks (snd (with_value r)) = 0"
  by (cases r) (auto simp: with_value_def)

lemma parse_uint_radix_blocks:
  "clog_config_parse_uint_radix radix d s eo = Returns (p, v) \<Longrightarrow> \<exists>u. v = V_UINT u"
  by (auto simp: clog_config_parse_uint_radix_def split: option.splits prod.splits if_splits)

lemma parse_decimal_live:
  "parse_decimal strtod d start ns neg tmp e m = (r, m') \<Longrightarrow>
   live m' = live m \<and> (\<forall>p v. r = Returns (p, v) \<longrightarrow> value_blocks v = 0)"
  by (auto simp: parse_decimal_def negate_uint_def of_option_def
      split: if_splits sum.splits prod.splits outcome.splits option.splits config_value.splits
      dest: parse_double_live parse_uint_radix_blocks)

lemma parse_number_live:
  "clog_config_parse_number strtod d start e m = (r, m') \<Longrightarrow>
   live m' = live m \<and> (\<forall>p v. r = Returns (p, v) \<longrightarrow> value_blocks v = 0)"
  by (auto simp: clog_config_parse_number_def Let_def of_option_def
      split: if_splits prod.splits option.splits
      dest: parse_double_live parse_uint_radix_blocks parse_decimal_live)

lemma parse_char_blocks: "clog_config_parse_char d s e = Some (p, v) \<Longrightarrow> value_blocks v = 0"
  by (auto simp: clog_config_parse_char_def Let_def split: if_splits option.splits)

lemma parse_bool_blocks: "clog_config_parse_bool d s e = Some (p, v) \<Longrightarrow> value_blocks v = 0"
  by (auto simp: clog_config_parse_bool_def Let_def split: if_splits)

lemma parse_string_live:
  "clog_config_parse_string d start e m = (r, m') \<Longrightarrow>
   live m' = live m + (case r of None \<Rightarrow> 0 | Some (p, v) \<Rightarrow> value_blocks v)"
  by (auto simp: clog_config_parse_string_def Let_def mem_simps
      split: if_splits prod.splits option.splits bool.splits dest: live_clog_mallocD)

lemma of_option_Returns [simp]: "of_option x = Returns y \<longleftrightarrow> x = Some y"
  by (cases x) (auto simp: of_option_def)

lemma create_empty_item_live:
  "clog_config_create_empty_item m = (None, m') \<Longrightarrow> live m' = live m"
  "clog_config_create_empty_item m = (Some (it :: 'f config_item), m') \<Longrightarrow>
     live m' = live m + 1 \<and> it = Item None V_INVALID"
  by (auto simp: clog_config_create_empty_item_def split: prod.splits bool.splits
      dest: live_clog_mallocD)

lemma parse_value_cases:
  fixes v :: "'f config_value"
  assumes "clog_config_parse_value strtod (Suc fuel) d start e m = ((r, v), m')"
  obtains (null) "r = Returns_NULL" "v = V_INVALID" "m' = m"
  | (number) x where
      "clog_config_parse_number strtod d (clog_config_remove_leading_spaces d start e) e m = (x, m')"
      "(r, v) = with_value x" "clog_config_remove_leading_spaces d start e \<noteq> e"
  | (char) "(r, v) = with_value (of_option
        (clog_config_parse_char d (clog_config_remove_leading_spaces d start e) e))" "m' = m"
      "clog_config_remove_leading_spaces d start e \<noteq> e"
  | (str) x where
      "clog_config_parse_string d (clog_config_remove_leading_spaces d start e) e m = (x, m')"
      "(r, v) = with_value (of_option x)" "clog_config_remove_leading_spaces d start e \<noteq> e"
  | (bool) "(r, v) = with_value (of_option
        (clog_config_parse_bool d (clog_config_remove_leading_spaces d start e) e))" "m' = m"
      "clog_config_remove_leading_spaces d start e \<noteq> e"
  | (arr) "array_loop strtod fuel d (clog_config_remove_leading_spaces d start e) e [] m = ((r, v), m')"
      "clog_config_remove_leading_spaces d start e \<noteq> e"
      "char_at d (clog_config_remove_leading_spaces d start e) = CHR ''[''"
proof -
  define t where "t = clog_config_remove_leading_spaces d start e"
  define c where "c = char_at d t"
  note eq = assms [unfolded clog_config_parse_value.simps(2) Let_def, folded t_def, folded c_def]
  consider "t = e" | "t \<noteq> e" "c = CHR ''+'' \<or> c = CHR ''-'' \<or> char_in (CHR ''0'') (CHR ''9'') c"
    | "t \<noteq> e" "\<not> (c = CHR ''+'' \<or> c = CHR ''-'' \<or> char_in (CHR ''0'') (CHR ''9'') c)"
    by blast
  then show thesis
  proof cases
    case 1
    then show ?thesis using eq by (intro null) auto
  next
    case 2
    obtain x m1 where "clog_config_parse_number strtod d t e m = (x, m1)" by (metis surj_pair)
    then show ?thesis using 2 eq unfolding t_def by (intro number [of x]) auto
  next
    case 3
    note not_number = \<open>\<not> (c = CHR ''+'' \<or> _)\<close>
    obtain x m1 where x: "clog_config_parse_string d t e m = (x :: (nat \<times> 'f config_value) option, m1)"
      by (metis surj_pair)
    consider "c = APOSTROPHE" | "c = QUOTE" | "c = CHR ''t'' \<or> c = CHR ''f''" | "c = CHR ''[''"
      | "c \<notin> {APOSTROPHE, QUOTE, CHR ''t'', CHR ''f'', CHR ''[''}" by blast
    then show ?thesis
    proof cases
      case 1
      then show ?thesis using 3 eq unfolding t_def by (intro char) (auto simp: char_consts)
    next
      case 2
      then show ?thesis using 3 eq x unfolding t_def by (intro str [of x]) (auto simp: char_consts)
    next
      case 3
      then show ?thesis
        using \<open>t \<noteq> e\<close> not_number eq unfolding t_def by (intro bool) (auto simp: char_consts)
    next
      case 4
      then show ?thesis
        using 3 eq unfolding t_def c_def by (intro arr) (auto simp: char_consts t_def c_def)
    next
      case 5
      then show ?thesis using 3 eq by (intro null) auto
    qed
  qed
qed

text \<open>One round of the array loop, with \<open>t\<close> the position of the element.\<close>

lemma array_loop_cases:
  fixes items :: "'f config_item list"
  assumes "array_loop strtod (Suc fuel) d tmp e items m = ((r, v), m')"
    and "t = clog_config_remove_leading_spaces d (tmp + 1) e"
  obtains (null) "r = Returns_NULL" "v = V_ARRAY items" "live m' = live m"
  | (close) "r = Returns (t + 1)" "v = V_ARRAY items" "m' = m" "tmp < e"
  | (child) m1 p w m2 where "tmp < e" "t \<noteq> e" "live m1 = live m + 1"
      "clog_config_parse_value strtod fuel d t e m1 = ((Returns p, w), m2)"
      "r = Returns (clog_config_remove_leading_spaces d p e + 1) \<or> r = Returns_NULL \<or> r = Undefined"
      "v = V_ARRAY (items @ [Item None w])" "m' = m2"
  | (next_child) m1 p w m2 where "tmp < e" "t \<noteq> e" "live m1 = live m + 1"
      "clog_config_parse_value strtod fuel d t e m1 = ((Returns p, w), m2)"
      "array_loop strtod fuel d (clog_config_remove_leading_spaces d p e + 1) e
         (items @ [Item None w]) m2 = ((r, v), m')"
  | (failed) m1 w m2 where "tmp < e" "t \<noteq> e" "live m1 = live m + 1"
      "clog_config_parse_value strtod fuel d t e m1 = ((r, w), m2)" "\<And>p. r \<noteq> Returns p"
      "v = V_ARRAY items" "m' = clog_config_free_item (Item None w) m2"
proof (cases "tmp < e \<and> t \<noteq> e \<and> char_at d t \<noteq> CHR '']''")
  case False
  then show ?thesis
    using assms null close unfolding array_loop.simps(2) Let_def by (auto split: if_splits)
next
  case True
  obtain c m1 where c: "clog_config_create_empty_item m = (c :: 'f config_item option, m1)"
    by (metis surj_pair)
  obtain q w m2 where q: "clog_config_parse_value strtod fuel d t e m1 = ((q, w), m2)"
    by (metis surj_pair)
  note eq = assms(1) [unfolded array_loop.simps(2) Let_def, folded assms(2)]
  show ?thesis
  proof (cases c)
    case None
    then show ?thesis using True eq c by (intro null) (auto dest: create_empty_item_live(1))
  next
    case (Some it)
    have it: "live m1 = live m + 1" "it = Item None V_INVALID"
      using create_empty_item_live(2) c Some by blast+
    show ?thesis
    proof (cases q)
      case (Returns p)
      then show ?thesis
        using True eq c q it Some child [of m1 p w m2] next_child [of m1 p w m2]
        by (auto simp: add_array_item_append split: if_splits)
    qed (use True eq c q it Some failed [of m1 w m2] in auto)
  qed
qed

lemma parse_value_live:
  fixes items :: "'f config_item list" and strtod :: "string \<Rightarrow> 'f option"
  shows "clog_config_parse_value strtod fuel d s e m = ((r, v), m') \<Longrightarrow>
     live m' = live m + value_blocks v"
  and "array_loop strtod fuel d s e items m = ((r, v), m') \<Longrightarrow>
     live m' + items_blocks items = live m + value_blocks v"
proof (induction fuel arbitrary: s m r v m' items)
  case 0
  { case 1 then show ?case by simp }
  { case 2 then show ?case by auto }
next
  case (Suc fuel)
  { case 1
    have blocks: "value_blocks v = value_blocks (snd (with_value x))"
      if "(r, v) = with_value x" for x by (metis snd_conv that)
    from 1 show ?case
    proof (cases rule: parse_value_cases)
      case (number x)
      then show ?thesis
        using parse_number_live [OF number(1)] by (auto simp: blocks intro: with_value_blocks)
    next
      case char
      then show ?thesis by (auto simp: blocks intro!: with_value_blocks dest: parse_char_blocks)
    next
      case (str x)
      then show ?thesis
        using parse_string_live [OF str(1)]
        by (auto simp: with_value_def of_option_def split: option.splits)
    next
      case bool
      then show ?thesis by (auto simp: blocks intro!: with_value_blocks dest: parse_bool_blocks)
    next
      case arr
      then show ?thesis using Suc(2) by fastforce
    qed simp }
  { case 2
    from 2 refl show ?case
    proof (cases rule: array_loop_cases)
      case (child m1 p w m2)
      then show ?thesis using Suc(1) [OF child(4)] by (simp add: items_blocks_append)
    next
      case (next_child m1 p w m2)
      then show ?thesis
        using Suc(1) [OF next_child(4)] Suc(2) [OF next_child(5)]
        by (simp add: items_blocks_append)
    next
      case (failed m1 w m2)
      then show ?thesis
        using Suc(1) [OF failed(4)] by (simp add: live_free_item)
    qed auto }
qed

lemma finish_property_live:
  assumes "finish_property strtod d tmp e key m = (r, m')"
  shows "r = Returns it \<Longrightarrow>
           live m' + item_blocks (Item key V_INVALID) = live m + item_blocks it"
    and "r = Returns_NULL \<Longrightarrow> live m' + item_blocks (Item key V_INVALID) = live m"
  using assms unfolding finish_property_def
  by (auto simp: live_free_item dest!: parse_value_live(1)
      split: prod.splits outcome.splits bool.splits)

lemma strndup_live:
  "clog_strndup s n m = (None, m') \<Longrightarrow> live m' = live m"
  "clog_strndup s n m = (Some r, m') \<Longrightarrow> live m' = live m + 1 \<and> 0 < n \<and> r = take n s"
  by (auto dest: live_clog_strndup clog_strndup_Some)

lemma property_loop_live:
  assumes "property_loop strtod d start tmp e phase key m = (r, m')"
    and "phase = PARSE_KEY \<longrightarrow> key = None"
  shows "(r = Returns it \<longrightarrow>
            live m' + item_blocks (Item key V_INVALID) = live m + item_blocks it) \<and>
         (r = Returns_NULL \<longrightarrow> live m' + item_blocks (Item key V_INVALID) = live m)"
  using assms
proof (induction strtod d start tmp e phase key m arbitrary: m' rule: property_loop.induct)
  case (1 strtod d start tmp e phase key m)
  note eq = "1.prems"(1) [unfolded property_loop.simps [of strtod d start tmp e phase key m] Let_def]
  show ?case
  proof (cases "tmp < e")
    case False
    then show ?thesis using eq by (auto simp: live_free_item)
  next
    case True
    show ?thesis
    proof (cases phase)
      case PARSE_KEY
      have key: "key = None" using PARSE_KEY "1.prems"(2) by simp
      obtain k m1 where k: "clog_strndup (drop start d) (tmp - start) m = (k, m1)"
        by (metis surj_pair)
      show ?thesis
      proof (cases "char_at d tmp = CHR '' '' \<or> char_at d tmp = CHR ''='' \<or> char_at d tmp = TAB")
        case True
        show ?thesis
        proof (cases k)
          case None
          then show ?thesis
            using eq True \<open>tmp < e\<close> PARSE_KEY k key by (auto simp: live_free_item dest: strndup_live)
        next
          case (Some k')
          show ?thesis
          proof (cases "clog_config_is_valid_name_char (char_at d (tmp - 1))")
            case valid: True
            have "property_loop strtod d start (tmp - 1 + 1) e PARSE_EQUAL (Some k') m1 = (r, m')"
              using eq True \<open>tmp < e\<close> PARSE_KEY k Some valid by auto
            then show ?thesis
              using "1.IH"(1) [OF _ refl PARSE_KEY True k [unfolded Some, symmetric] refl] valid
                \<open>tmp < e\<close> strndup_live(2) [OF k [unfolded Some]] key
              by auto
          next
            case False
            then show ?thesis
              using eq True \<open>tmp < e\<close> PARSE_KEY k key Some
              by (auto simp: live_free_item dest: strndup_live)
          qed
        qed
      next
        case False
        then show ?thesis
          using eq \<open>tmp < e\<close> PARSE_KEY key "1.IH"(2) [OF _ refl PARSE_KEY] 
          by (auto simp: live_free_item split: if_splits)
      qed
    next
      case PARSE_EQUAL
      then show ?thesis
        using eq True "1.IH"(3,4) [OF _ refl PARSE_EQUAL]
        by (auto simp: live_free_item split: if_splits)
    next
      case PARSE_VALUE
      then show ?thesis
        using eq True by (auto dest: finish_property_live)
    qed
  qed
qed

lemma parse_property_live:
  assumes "clog_config_parse_property strtod d start e m = (r, m')"
  shows "r = Returns it \<Longrightarrow> live m' = live m + item_blocks it"
    and "r = Returns_NULL \<Longrightarrow> live m' = live m"
proof -
  obtain c m1 where c: "clog_config_create_empty_item m = (c :: 'a config_item option, m1)"
    by (metis surj_pair)
  have eq: "(case c of None \<Rightarrow> (Returns_NULL, m1)
      | Some item \<Rightarrow> property_loop strtod d start (start + 1) e PARSE_KEY (item_key item) m1) = (r, m')"
    using assms c by (simp add: clog_config_parse_property_def)
  have live: "c = None \<Longrightarrow> live m1 = live m"
    "c = Some x \<Longrightarrow> live m1 = live m + 1 \<and> x = Item None V_INVALID" for x
    using create_empty_item_live c by blast+
  note loop = property_loop_live [of strtod d start "start + 1" e PARSE_KEY None m1 r m' it, simplified]
  show "r = Returns it \<Longrightarrow> live m' = live m + item_blocks it"
    using eq live loop by (cases c) auto
  show "r = Returns_NULL \<Longrightarrow> live m' = live m"
    using eq live loop by (cases c) auto
qed

lemma create_named_group_live:
  "create_named_group start n m = (g, m') \<Longrightarrow>
   (g = None \<longrightarrow> live m' = live m) \<and>
   (\<forall>new. g = Some new \<longrightarrow>
      live m' = live m + group_blocks new \<and> 0 < n \<and> new = Group (Some (take n start)) [] [])"
  by (auto simp: create_named_group_def clog_config_create_empty_group_def live_destroy_group
      split: prod.splits bool.splits option.splits
      dest!: live_clog_mallocD strndup_live)

lemma find_prefix_Some:
  "find_prefix gs start n = Some i \<Longrightarrow>
   i < length gs \<and> clog_strncmp (group_name (gs ! i)) (Some start) n = 0"
  by (induction gs start n arbitrary: i rule: find_prefix.induct) (auto split: if_splits)

lemma find_prefix_None:
  "find_prefix gs start n = None \<Longrightarrow> g \<in> set gs \<Longrightarrow> clog_strncmp (group_name g) (Some start) n \<noteq> 0"
  by (induction gs start n rule: find_prefix.induct) (auto split: if_splits)

text \<open>
  The ways through \<open>clog_config_find_or_create_group\<close>, with \<open>s\<close> the start of the first
  part of the name and \<open>n\<close> its length.
\<close>

lemma find_or_create_cases:
  fixes r r' :: "'f config_group"
  assumes "clog_config_find_or_create_group d r start e m = (p, r', m')"
    and s: "s = clog_config_remove_leading_spaces d start e"
    and n: "n = name_stop d s e - s"
    and nx: "nx = clog_config_remove_leading_spaces d (name_stop d s e) e"
  obtains
    (found) i where "find_prefix (group_children r) (drop s d) n = Some i" "p = Returns [i]"
      "r' = r" "m' = m"
  | (found_below) i q g where "find_prefix (group_children r) (drop s d) n = Some i" "nx < e"
      "clog_config_find_or_create_group d (group_children r ! i) (nx + 1) e m = (q, g, m')"
      "p = map_outcome ((#) i) q"
      "r' = Group (group_name r) (group_content r) ((group_children r)[i := g])"
  | (refused) "find_prefix (group_children r) (drop s d) n = None"
      "create_named_group (drop s d) n m = (None :: 'f config_group option, m')"
      "p = Returns_NULL" "r' = r"
  | (created) new_group where "find_prefix (group_children r) (drop s d) n = None"
      "create_named_group (drop s d) n m = (Some (new_group :: 'f config_group), m')"
      "p = Returns [length (group_children r)] \<or> p = Returns_NULL"
      "r' = Group (group_name r) (group_content r) (group_children r @ [new_group])"
  | (created_below) new_group m1 q g where "find_prefix (group_children r) (drop s d) n = None"
      "create_named_group (drop s d) n m = (Some (new_group :: 'f config_group), m1)" "nx < e"
      "clog_config_find_or_create_group d new_group (nx + 1) e m1 = (q, g, m')"
      "p = map_outcome ((#) (length (group_children r))) q"
      "r' = Group (group_name r) (group_content r) (group_children r @ [g])"
proof -
  note eq = assms(1) [unfolded clog_config_find_or_create_group.simps [of d r start e m] Let_def,
      folded s, folded n nx]
  show thesis
  proof (cases "find_prefix (group_children r) (drop s d) n")
    case (Some i)
    obtain q g m1 where
      "clog_config_find_or_create_group d (group_children r ! i) (nx + 1) e m = (q, g, m1)"
      by (metis prod_cases3)
    then show ?thesis
      using eq Some by (auto split: if_splits intro: found found_below)
  next
    case no_prefix: None
    obtain c m1 where c: "create_named_group (drop s d) n m = (c :: 'f config_group option, m1)"
      by (metis surj_pair)
    note eq = eq [unfolded no_prefix c option.case prod.case]
    show ?thesis
    proof (cases c)
      case None
      have "p = Returns_NULL \<and> r' = r \<and> m' = m1" using eq None by simp
      then show ?thesis using refused no_prefix c None by blast
    next
      case (Some ng)
      obtain q g m2 where "clog_config_find_or_create_group d ng (nx + 1) e m1 = (q, g, m2)"
        by (metis prod_cases3)
      note below = this
      note eq = eq [unfolded Some below option.case prod.case]
      consider "name_stop d s e = e \<or> e \<le> nx" "(p = Returns [length (group_children r)] \<or> p = Returns_NULL)"
          "r' = Group (group_name r) (group_content r) (group_children r @ [ng])" "m' = m1"
        | "nx < e" "p = map_outcome ((#) (length (group_children r))) q"
          "r' = Group (group_name r) (group_content r) (group_children r @ [g])" "m' = m2"
        using eq by (auto split: if_splits)
      then show ?thesis
        using created [OF no_prefix, of ng] created_below [OF no_prefix, of ng m1 q g] c Some below
        by cases simp_all
    qed
  qed
qed

fun valid_path :: "nat list \<Rightarrow> 'f config_group \<Rightarrow> bool" where
  "valid_path [] g = True"
| "valid_path (i # p) g = (i < length (group_children g) \<and> valid_path p (group_children g ! i))"

lemma map_outcome_Returns: "map_outcome f x = Returns y \<longleftrightarrow> (\<exists>z. x = Returns z \<and> y = f z)"
  by (cases x) auto

lemma find_or_create_live:
  fixes r r' :: "'f config_group"
  shows "clog_config_find_or_create_group d r start e m = (p, r', m') \<Longrightarrow>
   live m' - group_blocks r' = live m - group_blocks r \<and> group_name r' = group_name r \<and>
   group_content r' = group_content r \<and> p \<noteq> NoFuel \<and> p \<noteq> Undefined \<and>
   (\<forall>q. p = Returns q \<longrightarrow> valid_path q r')"
proof (induction "e - start" arbitrary: r start m p r' m' rule: less_induct)
  case less
  define s where "s = clog_config_remove_leading_spaces d start e"
  define nx where "nx = clog_config_remove_leading_spaces d (name_stop d s e) e"
  have nx_ge: "start \<le> nx" unfolding nx_def s_def by (rule next_name_ge)
  from less.prems s_def refl nx_def show ?case
  proof (cases rule: find_or_create_cases)
    case (found i)
    then show ?thesis using find_prefix_Some by fastforce
  next
    case (found_below i q g)
    have "i < length (group_children r)" using find_prefix_Some found_below(1) by blast
    moreover have "e - (nx + 1) < e - start" using nx_ge found_below(2) by simp
    note below = less.hyps [OF this found_below(3)]
    ultimately show ?thesis
      using below found_below(4,5) group_blocks_eq [of r]
      by (auto simp: groups_blocks_update map_outcome_Returns) (cases q; simp)+
  next
    case refused
    then show ?thesis using create_named_group_live [OF refused(2)] by simp
  next
    case (created ng)
    then show ?thesis
      using create_named_group_live [OF created(2)]
      by (auto simp: group_blocks_eq [of r] groups_blocks_append)
  next
    case (created_below ng m1 q g)
    have "e - (nx + 1) < e - start" using nx_ge created_below(3) by simp
    note below = less.hyps [OF this created_below(4)]
    have "live m1 = live m + group_blocks ng"
      using create_named_group_live [OF created_below(2)] by simp
    then show ?thesis
      using below created_below(5,6) group_blocks_eq [of r]
      by (auto simp: groups_blocks_append map_outcome_Returns) (cases q; simp)+
  qed
qed

lemma put_group_at_blocks:
  "valid_path p g \<Longrightarrow>
   group_blocks (put_group_at p new g) = group_blocks g - group_blocks (group_at p g) + group_blocks new"
  by (induction p g rule: group_at.induct)
    (auto simp: groups_blocks_update group_blocks_eq [of g for g])

lemma valid_path_put_group_at:
  "valid_path p g \<Longrightarrow> valid_path p (put_group_at p new g)"
  by (induction p g rule: group_at.induct) auto

lemma add_item_blocks:
  "clog_config_add_item g it = Some g' \<Longrightarrow> group_blocks g' = group_blocks g + item_blocks it"
  by (auto simp: clog_config_add_item_def group_blocks_eq [of g] split: if_splits)

lemma process_group_line_live:
  assumes "process_group_line d tmp e root m = (p, root', m')"
  shows "live m' - group_blocks root' = live m - group_blocks root \<and>
    (\<forall>q. p = Returns q \<longrightarrow> valid_path q root')"
  using assms unfolding process_group_line_def
  by (auto split: option.splits outcome.splits bool.splits prod.splits
      dest: find_or_create_live)

lemma process_property_line_live:
  fixes root :: "'f config_group"
  assumes "process_property_line strtod d tmp e root current m = (p, root', m')"
    and "valid_path current root" and "p \<noteq> Undefined" and "p \<noteq> NoFuel"
  shows "live m' - group_blocks root' = live m - group_blocks root \<and>
    (\<forall>q. p = Returns q \<longrightarrow> valid_path q root')"
proof -
  obtain x m1 where x: "clog_config_parse_property strtod d tmp e m = (x :: 'f config_item outcome, m1)"
    by (metis surj_pair)
  show ?thesis
  proof (cases x)
    case (Returns it)
    then have m1: "live m1 = live m + item_blocks it" using x parse_property_live(1) by blast
    show ?thesis
      using assms x Returns m1
      by (auto simp: process_property_line_def put_group_at_blocks add_item_blocks live_free_item
          valid_path_put_group_at split: option.splits)
  next
    case Returns_NULL
    then have "live m1 = live m" using x parse_property_live(2) by blast
    then show ?thesis using assms x Returns_NULL by (auto simp: process_property_line_def)
  qed (use assms x in \<open>auto simp: process_property_line_def\<close>)
qed

lemma process_line_live:
  assumes "clog_config_process_line strtod d start e root current m = (p, root', m')"
    and "valid_path current root" and "p \<noteq> Undefined" and "p \<noteq> NoFuel"
  shows "live m' - group_blocks root' = live m - group_blocks root \<and>
    (\<forall>q. p = Returns q \<longrightarrow> valid_path q root')"
  using assms unfolding clog_config_process_line_def Let_def
  by (auto split: if_splits dest: process_group_line_live process_property_line_live)

lemma fail_parse_live: "live (fail_parse d start e root m) = live m - group_blocks root"
  by (auto simp: fail_parse_def live_destroy_group mem_simps split: prod.splits
      dest: live_clog_strndup)

lemma parse_lines_live:
  assumes "parse_lines strtod d tmp root current m = (r, m')" and "valid_path current root"
  shows "(r = Returns_NULL \<longrightarrow> live m' = live m - group_blocks root) \<and>
    (\<forall>g. r = Returns g \<longrightarrow> live m' - group_blocks g = live m - group_blocks root)"
  using assms
proof (induction "length d - tmp" arbitrary: tmp root current m rule: less_induct)
  case less
  define c where "c = skip_newlines d (line_end d tmp)"
  note eq = less.prems(1) [unfolded parse_lines.simps [of strtod d tmp root current m] Let_def,
      folded c_def]
  show ?case
  proof (cases "char_at d tmp = NUL")
    case True
    then show ?thesis using eq by auto
  next
    case False
    then have lt: "length d - c < length d - tmp"
      unfolding c_def using next_line_gt char_at_not_NUL by (meson diff_less_mono2)
    show ?thesis
    proof (cases "tmp = line_end d tmp")
      case True
      then show ?thesis using less.hyps [OF lt] eq False less.prems(2) by simp
    next
      case not_empty: False
      obtain p root' m1 where
        line: "clog_config_process_line strtod d tmp (line_end d tmp) root current m = (p, root', m1)"
        by (metis prod_cases3)
      note line_live = process_line_live [OF line less.prems(2)]
      show ?thesis
      proof (cases p)
        case (Returns q)
        then show ?thesis
          using less.hyps [OF lt, of root' q m1] line_live eq False not_empty line by auto
      next
        case Returns_NULL
        then show ?thesis
          using line_live eq False not_empty line by (auto simp: fail_parse_live)
      qed (use eq False not_empty line in auto)
    qed
  qed
qed

lemma parse_live:
  fixes r :: "'f config_group outcome"
  assumes "clog_config_parse strtod data m = (r, m')"
  shows "(r = Returns_NULL \<longrightarrow> live m' = live m) \<and>
    (\<forall>g. r = Returns g \<longrightarrow> live m' = live m + group_blocks g)"
proof -
  obtain c m1 where c: "clog_config_create_empty_group m = (c :: 'f config_group option, m1)"
    by (metis surj_pair)
  have "c = None \<longrightarrow> live m1 = live m"
    "\<forall>g. c = Some g \<longrightarrow> live m1 = live m + 1 \<and> g = Group None [] []"
    using c by (auto simp: clog_config_create_empty_group_def split: prod.splits bool.splits
        dest: live_clog_mallocD)
  then show ?thesis
    using assms c by (cases c; cases data) (auto simp: clog_config_parse_def dest: parse_lines_live)
qed

subsection \<open>The bound on nested arrays\<close>

lemma uint_loop_end:
  "uint_loop radix d tmp e base ne = (b, ne') \<Longrightarrow> ne' = ne \<or> tmp \<le> ne'"
  by (induction radix d tmp e base ne rule: uint_loop.induct)
    (subst (asm) uint_loop.simps, auto simp: Let_def split: if_splits)

lemma decimal_scan_end:
  "decimal_scan d tmp e ne = Inr (Some x) \<Longrightarrow> ne = Some x \<or> tmp \<le> x"
  by (induction d tmp e ne rule: decimal_scan.induct)
    (subst (asm) decimal_scan.simps, auto simp: Let_def split: if_splits)

lemma double_loop_end:
  "double_loop d tmp e dot ne = Some x \<Longrightarrow> x = ne \<or> tmp \<le> x"
  by (induction d tmp e dot ne rule: double_loop.induct)
    (subst (asm) double_loop.simps, auto split: if_splits)

lemma string_loop_end:
  "string_loop d tmp e esc out = Some (p, s) \<Longrightarrow> tmp < p"
  by (induction d tmp e esc out rule: string_loop.induct)
    (subst (asm) string_loop.simps, auto simp: Let_def split: if_splits)

lemma parse_double_end:
  assumes "clog_config_parse_double strtod d start e m = (Some (p, v), m')"
  shows "start < p"
proof -
  have "double_loop d t e False t = Some x \<Longrightarrow> t \<le> x" for t x
    by (drule double_loop_end) auto
  then show ?thesis
    using assms by (force simp: clog_config_parse_double_def Let_def
        split: option.splits prod.splits if_splits)
qed

lemma parse_uint_radix_end:
  assumes "clog_config_parse_uint_radix radix d start eo = Returns (p, v)"
    and "\<And>e. eo = Some e \<Longrightarrow> start \<le> e"
  shows "start < p"
  using assms by (auto simp: clog_config_parse_uint_radix_def split: option.splits prod.splits if_splits
      dest: uint_loop_end)

lemma parse_uint_radix_fuel [simp]: "clog_config_parse_uint_radix radix d start eo \<noteq> NoFuel"
  by (auto simp: clog_config_parse_uint_radix_def split: option.splits prod.splits)

lemma of_option_fuel [simp]: "of_option x \<noteq> NoFuel" "of_option x \<noteq> Undefined"
  by (auto simp: of_option_def split: option.splits)

lemma negate_uint_end:
  "negate_uint b x \<noteq> NoFuel" "negate_uint b (p, v) = Returns (q, w) \<Longrightarrow> q = p"
  by (auto simp: negate_uint_def split: config_value.splits if_splits prod.splits)

lemma parse_decimal_end:
  assumes "parse_decimal strtod d start ns neg tmp e m = (r, m')" and "start \<le> ns" and "ns \<le> tmp"
  shows "r \<noteq> NoFuel \<and> (\<forall>p v. r = Returns (p, v) \<longrightarrow> start < p)"
proof (cases "char_at d tmp = CHR ''.''")
  case True
  then show ?thesis using assms by (auto simp: parse_decimal_def)
next
  case False
  show ?thesis
  proof (cases "decimal_scan d tmp e None")
    case (Inl u)
    then show ?thesis
      using assms False by (auto simp: parse_decimal_def split: prod.splits dest: parse_double_end)
  next
    case (Inr ne)
    have "ns \<le> x" if "ne = Some x" for x
      using decimal_scan_end [of d tmp e None x] Inr that assms(3) by simp
    note radix = parse_uint_radix_end [of 10 d ns ne, OF _ this]
    show ?thesis
    proof (cases "clog_config_parse_uint_radix 10 d ns ne :: (nat \<times> 'a config_value) outcome")
      case (Returns x)
      obtain p v where x: "x = (p, v)" by (metis surj_pair)
      then have "start < p" using radix Returns assms(2) by fastforce
      moreover have "r = negate_uint neg (p, v)"
        using assms(1) False Inr Returns x by (simp add: parse_decimal_def)
      ultimately show ?thesis using negate_uint_end by (metis (no_types))
    qed (use assms(1) False Inr in \<open>auto simp: parse_decimal_def\<close>)
  qed
qed

lemma parse_number_end:
  assumes "clog_config_parse_number strtod d start e m = (r, m')" and "start < e"
  shows "r \<noteq> NoFuel \<and> (\<forall>p v. r = Returns (p, v) \<longrightarrow> start < p)"
proof -
  define ns where "ns = (if char_at d start = CHR ''-'' \<or> char_at d start = CHR ''+''
      then start + 1 else start)"
  have ns: "start \<le> ns" "ns \<le> start + 1" unfolding ns_def by auto
  have rollback: "(if char_at d start = CHR ''-'' \<or> char_at d start = CHR ''+''
      then ns + 1 - 1 - 1 else ns + 1 - 1) = start"
    unfolding ns_def by auto
  have radix: "start < p"
    if "clog_config_parse_uint_radix k d (ns + 1 + 1) (Some e) = Returns (p, v)" for p k
      and v :: "'a config_value"
    using that assms(2) ns uint_loop_end [of k d "ns + 1 + 1" e 0 e]
    by (auto simp: clog_config_parse_uint_radix_def split: prod.splits if_splits)
  show ?thesis
    using assms(1) ns radix
    unfolding clog_config_parse_number_def Let_def ns_def [symmetric] rollback
    by (auto split: if_splits prod.splits dest: parse_double_end parse_decimal_end)
qed

lemma with_value_eqD:
  "(r, v) = with_value x \<Longrightarrow> r = map_outcome fst x"
  by (cases x) (auto simp: with_value_def)

lemma parse_char_end: "clog_config_parse_char d s e = Some (p, v) \<Longrightarrow> s < p"
  by (auto simp: clog_config_parse_char_def Let_def split: if_splits option.splits)

lemma parse_bool_end:
  assumes "clog_config_parse_bool d s e = Some (p, v)"
  shows "s < p"
  using assms remove_leading_spaces_ge [of s d e]
  by (auto simp: clog_config_parse_bool_def Let_def split: if_splits)

lemma parse_string_end:
  assumes "clog_config_parse_string d s e m = (Some (p, v), m')"
  shows "s < p"
  using assms remove_leading_spaces_ge [of s d e]
  by (auto simp: clog_config_parse_string_def Let_def split: if_splits prod.splits bool.splits
      option.splits dest!: string_loop_end)

lemma map_outcome_NoFuel: "map_outcome f x = NoFuel \<longleftrightarrow> x = NoFuel"
  by (cases x) auto

lemma parse_value_fuel:
  fixes items :: "'f config_item list" and strtod :: "string \<Rightarrow> 'f option"
  shows "clog_config_parse_value strtod fuel d s e m = ((r, v), m') \<Longrightarrow> s \<le> e \<Longrightarrow>
     2 * (e - s) + 2 \<le> fuel \<Longrightarrow> r \<noteq> NoFuel \<and> (\<forall>p. r = Returns p \<longrightarrow> s < p)"
  and "array_loop strtod fuel d s e items m = ((r, v), m') \<Longrightarrow>
     2 * (e - s) + 1 \<le> fuel \<Longrightarrow> r \<noteq> NoFuel \<and> (\<forall>p. r = Returns p \<longrightarrow> s < p)"
proof (induction fuel arbitrary: s m r v m' items)
  case 0
  { case 1 then show ?case by simp }
  { case 2 then show ?case by simp }
next
  case (Suc fuel)
  { case 1
    define t where "t = clog_config_remove_leading_spaces d s e"
    have t: "s \<le> t" "t \<le> e"
      unfolding t_def using 1 by (simp_all add: remove_leading_spaces_ge remove_leading_spaces_le)
    from 1(1) show ?case
    proof (cases rule: parse_value_cases)
      case null
      then show ?thesis by simp
    next
      case (number x)
      then show ?thesis
        using parse_number_end [OF number(1)] t unfolding t_def
        by (auto simp: map_outcome_Returns map_outcome_NoFuel dest!: with_value_eqD)
    next
      case char
      then show ?thesis
        using t parse_char_end [of d t e] unfolding t_def
        by (fastforce simp: map_outcome_Returns map_outcome_NoFuel dest!: with_value_eqD)
    next
      case (str x)
      then show ?thesis
        using t parse_string_end [of d t e m] unfolding t_def
        by (fastforce simp: map_outcome_Returns map_outcome_NoFuel dest!: with_value_eqD)
    next
      case bool
      then show ?thesis
        using t parse_bool_end [of d t e] unfolding t_def
        by (fastforce simp: map_outcome_Returns map_outcome_NoFuel dest!: with_value_eqD)
    next
      case arr
      have "2 * (e - t) + 1 \<le> fuel" using 1(3) t by linarith
      then show ?thesis using Suc(2) [OF arr(1)] t unfolding t_def by fastforce
    qed }
  { case 2
    define t where "t = clog_config_remove_leading_spaces d (s + 1) e"
    have t: "s < t" "s < e \<Longrightarrow> t \<le> e"
      unfolding t_def using remove_leading_spaces_ge [of "s + 1" d e] remove_leading_spaces_le [of "s + 1" e d]
      by simp_all
    from 2(1) t_def show ?case
    proof (cases rule: array_loop_cases)
      case (child m1 p w m2)
      have "t < p" using Suc(1) [OF child(4)] t child(1) 2(2) by simp
      then show ?thesis
        using child(5) t remove_leading_spaces_ge [of p d e] by auto
    next
      case (next_child m1 p w m2)
      have "t < p" using Suc(1) [OF next_child(4)] t next_child(1) 2(2) by simp
      then show ?thesis
        using Suc(2) [OF next_child(5)] t 2(2) next_child(1) remove_leading_spaces_ge [of p d e]
        by fastforce
    next
      case (failed m1 w m2)
      have "r \<noteq> NoFuel" using Suc(1) [OF failed(4)] t failed(1) 2(2) by simp
      then show ?thesis using failed(5) by simp
    qed (use t in auto) }
qed

lemma check_inline_comment_fuel [simp]:
  "clog_config_check_inline_comment d s e \<noteq> NoFuel"
  "clog_config_check_inline_comment d s e \<noteq> Returns_NULL"
  by (auto simp: clog_config_check_inline_comment_def Let_def)

lemma finish_property_fuel:
  assumes "finish_property strtod d tmp e key m = (r, m')" and "tmp < e"
  shows "r \<noteq> NoFuel"
proof -
  obtain q v m1 where
    v: "clog_config_parse_value strtod (fuel_for tmp e) d tmp e m = ((q, v), m1)" by (metis surj_pair)
  have "q \<noteq> NoFuel" using parse_value_fuel(1) [OF v] assms(2) by (simp add: fuel_for_def)
  then show ?thesis
    using assms(1) v by (auto simp: finish_property_def split: outcome.splits bool.splits)
qed

lemma property_loop_fuel:
  "property_loop strtod d start tmp e phase key m = (r, m') \<Longrightarrow> r \<noteq> NoFuel"
proof (induction strtod d start tmp e phase key m arbitrary: m' rule: property_loop.induct)
  case (1 strtod d start tmp e phase key m)
  note eq = "1.prems"(1) [unfolded property_loop.simps [of strtod d start tmp e phase key m] Let_def]
  show ?case
  proof (cases "tmp < e")
    case False
    then show ?thesis using eq by auto
  next
    case lt: True
    show ?thesis
    proof (cases phase)
      case PARSE_KEY
      obtain k m1 where k: "clog_strndup (drop start d) (tmp - start) m = (k, m1)"
        by (metis surj_pair)
      show ?thesis
      proof (cases "char_at d tmp = CHR '' '' \<or> char_at d tmp = CHR ''='' \<or> char_at d tmp = TAB")
        case True
        show ?thesis
        proof (cases k)
          case None
          then show ?thesis using eq True lt PARSE_KEY k by auto
        next
          case (Some k')
          then show ?thesis
            using eq True lt PARSE_KEY k
              "1.IH"(1) [OF _ refl PARSE_KEY True k [unfolded Some, symmetric] refl]
            by (auto split: if_splits)
        qed
      next
        case False
        then show ?thesis
          using eq lt PARSE_KEY "1.IH"(2) [OF _ refl PARSE_KEY] by (auto split: if_splits)
      qed
    next
      case PARSE_EQUAL
      then show ?thesis using eq lt "1.IH"(3,4) [OF _ refl PARSE_EQUAL] by (auto split: if_splits)
    next
      case PARSE_VALUE
      then show ?thesis using eq lt by (auto dest: finish_property_fuel)
    qed
  qed
qed

lemma process_line_fuel:
  fixes root :: "'f config_group"
  assumes "clog_config_process_line strtod d start e root current m = (p, root', m')"
  shows "p \<noteq> NoFuel"
proof -
  have "q \<noteq> NoFuel" if "clog_config_parse_property strtod d tmp e m = (q :: 'f config_item outcome, m1)"
    for q tmp m1
    using that property_loop_fuel
    by (fastforce simp: clog_config_parse_property_def split: prod.splits option.splits)
  moreover have "q \<noteq> NoFuel"
    if "clog_config_find_or_create_group d root a b m = (q, r', m1)" for q a b r' m1
    using find_or_create_live [OF that] by simp
  ultimately show ?thesis
    using assms
    unfolding clog_config_process_line_def process_group_line_def process_property_line_def Let_def
    by (auto split: if_splits option.splits outcome.splits bool.splits prod.splits)
qed

lemma parse_lines_fuel:
  "parse_lines strtod d tmp root current m = (r, m') \<Longrightarrow> r \<noteq> NoFuel"
proof (induction "length d - tmp" arbitrary: tmp root current m rule: less_induct)
  case less
  define c where "c = skip_newlines d (line_end d tmp)"
  note eq = less.prems(1) [unfolded parse_lines.simps [of strtod d tmp root current m] Let_def,
      folded c_def]
  show ?case
  proof (cases "char_at d tmp = NUL")
    case True
    then show ?thesis using eq by auto
  next
    case False
    then have lt: "length d - c < length d - tmp"
      unfolding c_def using next_line_gt char_at_not_NUL by (meson diff_less_mono2)
    obtain p root' m1 where
      line: "clog_config_process_line strtod d tmp (line_end d tmp) root current m = (p, root', m1)"
      by (metis prod_cases3)
    then show ?thesis
      using eq False less.hyps [OF lt] process_line_fuel [OF line]
      by (cases p) (auto split: if_splits)
  qed
qed

text \<open>
  C24. Parsing ends: on every input, whatever the allocator does, the recursion over nested
  arrays stays within the bound the parser is given, so the outcome is a tree, NULL or one of
  the two undefined reads.
\<close>

theorem config_parse_terminates: "fst (clog_config_parse strtod data m) \<noteq> NoFuel"
proof -
  obtain r m' where r: "clog_config_parse strtod data m = (r, m')" by (metis surj_pair)
  then show ?thesis
    by (auto simp: clog_config_parse_def split: option.splits prod.splits dest: parse_lines_fuel)
qed

text \<open>
  C12. The parser leaks nothing. When it returns NULL every block it allocated has been
  released, whichever request was refused or line rejected; when it returns a tree, destroying
  the tree releases every block.
\<close>

theorem config_parse_no_leak:
  assumes "clog_config_parse strtod data m = (r, m')"
  shows "(r = Returns_NULL \<longrightarrow> live m' = live m) \<and>
    (\<forall>g. r = Returns g \<longrightarrow> live (clog_config_destroy_group g m') = live m)"
  using parse_live [OF assms] by (auto simp: live_destroy_group)

definition ex_conf :: string where
  "ex_conf = ''[A.b]'' @ [NL] @ ''k = [1, true]'' @ [NL] @ ''[C]'' @ [NL]"

definition ex_strtod :: "string \<Rightarrow> nat option" where
  "ex_strtod s = Some (length s)"

definition ex_tree :: "nat config_group" where
  "ex_tree = Group None []
     [Group (Some ''A'') []
        [Group (Some ''b'')
           [Item (Some ''k'') (V_ARRAY [Item None (V_UINT 1), Item None (V_BOOL True)])] []],
      Group (Some ''C'') [] []]"

lemma ex_parse:
  "fst (clog_config_parse ex_strtod (Some ex_conf) mem_ok) = Returns ex_tree"
  "fst (clog_config_parse ex_strtod (Some ex_conf) (mem_fail_at {7})) = Returns_NULL"
  by code_simp+

lemma config_parse_no_leak_witness:
  "live (clog_config_destroy_group ex_tree
      (snd (clog_config_parse ex_strtod (Some ex_conf) mem_ok))) = live mem_ok \<and>
   live (snd (clog_config_parse ex_strtod (Some ex_conf) (mem_fail_at {7}))) = live (mem_fail_at {7})"
  using config_parse_no_leak
      [OF surjective_pairing, of ex_strtod "Some ex_conf" mem_ok]
    config_parse_no_leak
      [OF surjective_pairing, of ex_strtod "Some ex_conf" "mem_fail_at {7}"]
  by (simp add: ex_parse)

subsection \<open>Well-formed trees\<close>

text \<open>
  Keys and names, and the values a parsed file can hold. \<open>V_INT\<close> only ever holds 0: behind a
  sign the parser writes the tag \<open>UINT\<close> (clog_config.c:304). Of two sibling groups the later
  one's name is no prefix of the earlier one's.
\<close>

definition key_ok :: "string \<Rightarrow> bool" where
  "key_ok k \<longleftrightarrow> k \<noteq> [] \<and> (\<forall>c \<in> set k. clog_config_is_valid_name_char c)"

definition name_ok :: "string \<Rightarrow> bool" where
  "name_ok n \<longleftrightarrow> n \<noteq> [] \<and> (\<forall>c \<in> set n. c \<noteq> CHR ''.'' \<and> c \<noteq> CHR '' '' \<and> c \<noteq> TAB)"

fun wf_value :: "'f config_value \<Rightarrow> bool" and wf_elems :: "'f config_item list \<Rightarrow> bool" where
  "wf_value (V_INT i) = (i = 0)"
| "wf_value (V_ARRAY items) = wf_elems items"
| "wf_value V_INVALID = False"
| "wf_value (V_UINT u) = True"
| "wf_value (V_FLOAT x) = True"
| "wf_value (V_CHAR c) = True"
| "wf_value (V_STRING t) = True"
| "wf_value (V_BOOL b) = True"
| "wf_elems [] = True"
| "wf_elems (Item key v # items) = (key = None \<and> wf_value v \<and> wf_elems items)"

definition wf_content :: "'f config_item list \<Rightarrow> bool" where
  "wf_content content \<longleftrightarrow> distinct (map item_key content) \<and>
     (\<forall>it \<in> set content. wf_value (item_value it) \<and> (\<exists>k. item_key it = Some k \<and> key_ok k))"

definition wf_names :: "string option list \<Rightarrow> bool" where
  "wf_names ns \<longleftrightarrow> (\<forall>n \<in> set ns. \<exists>s. n = Some s \<and> name_ok s) \<and>
     sorted_wrt (\<lambda>a b. \<not> prefix (the b) (the a)) ns"

fun wf_group :: "'f config_group \<Rightarrow> bool" and wf_groups :: "'f config_group list \<Rightarrow> bool" where
  "wf_group (Group name content children) =
     (wf_content content \<and> wf_names (map group_name children) \<and> wf_groups children)"
| "wf_groups [] = True"
| "wf_groups (g # gs) = (wf_group g \<and> wf_groups gs)"

lemma wf_groups_all: "wf_groups gs \<longleftrightarrow> (\<forall>g \<in> set gs. wf_group g)"
  by (induction gs) auto

lemma wf_group_eq:
  "wf_group g \<longleftrightarrow> wf_content (group_content g) \<and> wf_names (map group_name (group_children g)) \<and>
     (\<forall>c \<in> set (group_children g). wf_group c)"
  by (cases g) (simp add: wf_groups_all)

lemma wf_elems_append: "wf_elems (xs @ ys) \<longleftrightarrow> wf_elems xs \<and> wf_elems ys"
proof (induction xs)
  case (Cons it xs)
  then show ?case by (cases it) auto
qed simp

lemma parse_decimal_wf:
  assumes "parse_decimal strtod d start ns neg tmp e m = (Returns (p, v), m')"
  shows "wf_value v"
  using assms
  by (auto simp: parse_decimal_def negate_uint_def clog_config_parse_double_def Let_def
      split: if_splits sum.splits prod.splits outcome.splits option.splits config_value.splits
      dest: parse_uint_radix_blocks)

lemma parse_number_wf:
  assumes "clog_config_parse_number strtod d start e m = (Returns (p, v), m')"
  shows "wf_value v"
  using assms
  by (auto simp: clog_config_parse_number_def clog_config_parse_double_def Let_def
      split: if_splits prod.splits option.splits
      dest: parse_uint_radix_blocks parse_decimal_wf)

lemma with_value_Returns:
  "(Returns p, v) = with_value x \<longleftrightarrow> x = Returns (p, v)"
  by (cases x) (auto simp: with_value_def)

lemma simple_values_wf:
  "clog_config_parse_char d s e = Some (p, v) \<Longrightarrow> wf_value v"
  "clog_config_parse_bool d s e = Some (p, v) \<Longrightarrow> wf_value v"
  "clog_config_parse_string d s e m = (Some (p, v), m') \<Longrightarrow> wf_value v"
  by (auto simp: clog_config_parse_char_def clog_config_parse_bool_def clog_config_parse_string_def
      Let_def split: if_splits option.splits prod.splits bool.splits)

lemma parse_value_wf:
  fixes items :: "'f config_item list" and strtod :: "string \<Rightarrow> 'f option"
  shows "clog_config_parse_value strtod fuel d s e m = ((Returns p, v), m') \<Longrightarrow> wf_value v"
  and "array_loop strtod fuel d s e items m = ((Returns p, v), m') \<Longrightarrow> wf_elems items \<Longrightarrow> wf_value v"
proof (induction fuel arbitrary: s m p v m' items)
  case 0
  { case 1 then show ?case by simp }
  { case 2 then show ?case by simp }
next
  case (Suc fuel)
  { case 1
    then show ?case
    proof (cases rule: parse_value_cases)
      case arr
      then show ?thesis using Suc(2) by (metis wf_elems.simps(1))
    qed (auto simp: with_value_Returns dest: parse_number_wf simple_values_wf) }
  { case 2
    from 2(1) refl show ?case
    proof (cases rule: array_loop_cases)
      case (child m1 q w m2)
      then show ?thesis using Suc(1) [OF child(4)] 2(2) by (simp add: wf_elems_append)
    next
      case (next_child m1 q w m2)
      then show ?thesis
        using Suc(1) [OF next_child(4)] Suc(2) [OF next_child(5)] 2(2) by (simp add: wf_elems_append)
    next
      case (failed m1 w m2)
      then show ?thesis by blast
    qed (use 2(2) in auto) }
qed

lemma valid_name_char_not_NUL: "clog_config_is_valid_name_char c \<Longrightarrow> c \<noteq> NUL"
  by (auto simp: clog_config_is_valid_name_char_def char_in_def NUL_def)

lemma take_key_ok:
  assumes "start < tmp" and "\<forall>i. start \<le> i \<and> i < tmp \<longrightarrow> clog_config_is_valid_name_char (char_at d i)"
  shows "key_ok (take (tmp - start) (drop start d))"
proof -
  have "start < length d"
    using assms valid_name_char_not_NUL char_at_not_NUL by blast
  moreover have "clog_config_is_valid_name_char c" if c: "c \<in> set (take (tmp - start) (drop start d))" for c
  proof -
    obtain i where i: "i < length (take (tmp - start) (drop start d))" "c = take (tmp - start) (drop start d) ! i"
      using c by (metis in_set_conv_nth)
    then have "c = char_at d (start + i)" "start + i < tmp" by (auto simp: char_at_def)
    then show ?thesis using assms(2) by simp
  qed
  ultimately show ?thesis using assms(1) by (auto simp: key_ok_def)
qed

lemma finish_property_wf:
  "finish_property strtod d tmp e key m = (Returns it, m') \<Longrightarrow> \<exists>v. it = Item key v \<and> wf_value v"
  by (auto simp: finish_property_def split: prod.splits outcome.splits bool.splits
      dest: parse_value_wf(1))

lemma property_loop_wf:
  assumes "property_loop strtod d start tmp e phase key m = (Returns it, m')"
    and "phase = PARSE_KEY \<longrightarrow> start < tmp \<and>
      (\<forall>i. start \<le> i \<and> i < tmp \<longrightarrow> clog_config_is_valid_name_char (char_at d i))"
    and "phase \<noteq> PARSE_KEY \<longrightarrow> (\<exists>k. key = Some k \<and> key_ok k)"
  shows "wf_value (item_value it) \<and> (\<exists>k. item_key it = Some k \<and> key_ok k)"
  using assms
proof (induction strtod d start tmp e phase key m arbitrary: m' rule: property_loop.induct)
  case (1 strtod d start tmp e phase key m)
  note eq = "1.prems"(1) [unfolded property_loop.simps [of strtod d start tmp e phase key m] Let_def]
  have lt: "tmp < e" using eq by (auto split: if_splits)
  show ?case
  proof (cases phase)
    case PARSE_KEY
    obtain k m1 where k: "clog_strndup (drop start d) (tmp - start) m = (k, m1)"
      by (metis surj_pair)
    show ?thesis
    proof (cases "char_at d tmp = CHR '' '' \<or> char_at d tmp = CHR ''='' \<or> char_at d tmp = TAB")
      case True
      then obtain k' where k': "k = Some k'" using eq lt PARSE_KEY k by (cases k) auto
      have "k' = take (tmp - start) (drop start d)" using strndup_live(2) k k' by blast
      then have "key_ok k'" using take_key_ok "1.prems"(2) PARSE_KEY by blast
      then show ?thesis
        using eq True lt PARSE_KEY k k' "1.IH"(1) [OF _ refl PARSE_KEY True k [unfolded k', symmetric] refl]
        by (auto split: if_splits)
    next
      case False
      have "\<forall>i. start \<le> i \<and> i < tmp + 1 \<longrightarrow> clog_config_is_valid_name_char (char_at d i)"
        using "1.prems"(2) PARSE_KEY eq lt False by (auto simp: less_Suc_eq split: if_splits)
      then show ?thesis
        using eq lt PARSE_KEY False "1.prems"(2) "1.IH"(2) [OF _ refl PARSE_KEY False, of m']
        by (auto split: if_splits)
    qed
  next
    case PARSE_EQUAL
    then show ?thesis
      using eq lt "1.IH"(3,4) [OF _ refl PARSE_EQUAL] "1.prems"(3) by (auto split: if_splits)
  next
    case PARSE_VALUE
    then show ?thesis using eq lt "1.prems"(3) by (auto dest: finish_property_wf)
  qed
qed

lemma parse_property_wf:
  assumes "clog_config_parse_property strtod d start e m = (Returns it, m')"
    and "clog_config_is_valid_name_char (char_at d start)"
  shows "wf_value (item_value it) \<and> (\<exists>k. item_key it = Some k \<and> key_ok k)"
proof -
  obtain m1 where "property_loop strtod d start (start + 1) e PARSE_KEY None m1 = (Returns it, m')"
    using assms(1) by (auto simp: clog_config_parse_property_def clog_config_create_empty_item_def
        split: prod.splits option.splits bool.splits)
  then show ?thesis by (rule property_loop_wf) (use assms(2) in \<open>auto simp: less_Suc_eq\<close>)
qed

lemma add_item_wf:
  assumes "clog_config_add_item g it = Some g'" and "wf_group g"
    and "wf_value (item_value it)" and "\<exists>k. item_key it = Some k \<and> key_ok k"
  shows "wf_group g' \<and> group_name g' = group_name g"
  using assms
  by (cases g) (fastforce simp: clog_config_add_item_def key_exists_def wf_content_def
      split: if_splits)

lemma wf_group_child: "wf_group g \<Longrightarrow> i < length (group_children g) \<Longrightarrow> wf_group (group_children g ! i)"
  by (cases g) (simp add: wf_groups_all)

lemma wf_group_at: "valid_path p g \<Longrightarrow> wf_group g \<Longrightarrow> wf_group (group_at p g)"
  by (induction p g rule: group_at.induct) (auto intro: wf_group_child)

lemma group_name_put:
  "group_name new = group_name (group_at p g) \<Longrightarrow> group_name (put_group_at p new g) = group_name g"
  by (cases p) auto

lemma map_name_update:
  "i < length gs \<Longrightarrow> group_name g = group_name (gs ! i) \<Longrightarrow>
   map group_name (gs[i := g]) = map group_name gs"
  by (metis list_update_id map_update)

lemma wf_put_group_at:
  assumes "valid_path p g" and "wf_group g" and "wf_group new"
    and "group_name new = group_name (group_at p g)"
  shows "wf_group (put_group_at p new g)"
  using assms
proof (induction p g rule: group_at.induct)
  case (2 i p g)
  let ?c = "group_children g ! i" and ?n = "put_group_at p new (group_children g ! i)"
  have i: "i < length (group_children g)" using 2 by simp
  then have "?c \<in> set (group_children g)" by simp
  then have "wf_group ?n" using 2 by (auto simp: wf_group_eq [of g])
  moreover have "group_name ?n = group_name ?c" using 2 by (auto intro: group_name_put)
  ultimately show ?case
    using 2 i by (auto simp: wf_group_eq [of g] wf_groups_all map_name_update
        dest!: set_update_subset_insert [THEN subsetD])
qed simp

subsection \<open>Names\<close>

lemma name_stop_chars:
  "tmp \<le> i \<Longrightarrow> i < name_stop d tmp e \<Longrightarrow>
   char_at d i \<noteq> CHR ''.'' \<and> char_at d i \<noteq> CHR '' '' \<and> char_at d i \<noteq> TAB"
proof (induction d tmp e rule: name_stop.induct)
  case (1 d tmp e)
  show ?case
  proof (cases "tmp < e \<and> \<not> (char_at d tmp = CHR ''.'' \<or> char_at d tmp = CHR '' '' \<or> char_at d tmp = TAB)")
    case True
    then have "name_stop d tmp e = name_stop d (tmp + 1) e" by (subst name_stop.simps) simp
    then show ?thesis using 1 True by (cases "i = tmp") auto
  next
    case False
    then have "name_stop d tmp e = tmp" by (subst name_stop.simps) auto
    then show ?thesis using 1 by simp
  qed
qed

lemma name_stop_le: "tmp \<le> e \<Longrightarrow> name_stop d tmp e \<le> e"
  by (induction d tmp e rule: name_stop.induct) (subst name_stop.simps, auto)

lemma find_or_create_wf:
  fixes r r' :: "'f config_group"
  shows "clog_config_find_or_create_group d r start e m = (p, r', m') \<Longrightarrow> wf_group r \<Longrightarrow>
    e \<le> length d \<Longrightarrow> wf_group r'"
proof (induction "e - start" arbitrary: r start m p r' m' rule: less_induct)
  case less
  define s where "s = clog_config_remove_leading_spaces d start e"
  define n where "n = name_stop d s e - s"
  define nx where "nx = clog_config_remove_leading_spaces d (name_stop d s e) e"
  have nx_ge: "start \<le> nx" unfolding nx_def s_def by (rule next_name_ge)
  have new: "wf_group ng \<and> wf_names (map group_name (group_children r) @ [group_name ng])"
    if none: "find_prefix (group_children r) (drop s d) n = None"
      and ng: "create_named_group (drop s d) n m = (Some ng, m1)" for ng :: "'f config_group" and m1
  proof -
    have n: "0 < n" "ng = Group (Some (take n (drop s d))) [] []"
      using create_named_group_live [OF ng] by auto
    have "s \<le> e" using n name_stop_le [of s e d] name_stop_ge [of s d e]
      unfolding n_def by (subst (asm) name_stop.simps) (auto split: if_splits)
    then have in_d: "s + n \<le> length d"
      using less.prems(3) name_stop_le [of s e d] name_stop_ge [of s d e] unfolding n_def by simp
    have "name_ok (take n (drop s d))"
      unfolding name_ok_def
    proof (intro conjI ballI)
      show "take n (drop s d) \<noteq> []" using n in_d by auto
      fix c assume "c \<in> set (take n (drop s d))"
      then obtain i where "i < n" "c = char_at d (s + i)"
        using in_d by (auto simp: in_set_conv_nth char_at_def)
      then have "s \<le> s + i" "s + i < name_stop d s e" unfolding n_def by auto
      from name_stop_chars [OF this]
      show "c \<noteq> CHR ''.''" "c \<noteq> CHR '' ''" "c \<noteq> TAB" using \<open>c = _\<close> by auto
    qed
    moreover have "\<not> prefix (take n (drop s d)) x"
      if g: "g \<in> set (group_children r)" "group_name g = Some x" for g x
    proof
      assume "prefix (take n (drop s d)) x"
      then have "take n x = take n (drop s d)" using in_d by (auto simp: prefix_def)
      then show False using find_prefix_None [OF none g(1)] g(2) by (simp add: clog_strncmp_0)
    qed
    ultimately show ?thesis
      using less.prems(2) n
      by (fastforce simp: wf_group_eq [of r] wf_names_def sorted_wrt_append wf_content_def)
  qed
  have r: "wf_content (group_content r)" "wf_names (map group_name (group_children r))"
    "\<forall>c \<in> set (group_children r). wf_group c"
    using less.prems(2) wf_group_eq by blast+
  from less.prems(1) s_def n_def nx_def show ?case
  proof (cases rule: find_or_create_cases)
    case (found_below i q g)
    have i: "i < length (group_children r)" using find_prefix_Some found_below(1) by blast
    have "e - (nx + 1) < e - start" using nx_ge found_below(2) by simp
    then have "wf_group g"
      using less.hyps found_below(3) r(3) i less.prems(3) nth_mem by blast
    then show ?thesis
      using r i found_below(5) find_or_create_live [OF found_below(3)]
      by (auto simp: wf_groups_all map_name_update dest!: set_update_subset_insert [THEN subsetD])
  next
    case (created ng)
    then show ?thesis using new [OF created(1,2)] r by (auto simp: wf_groups_all)
  next
    case (created_below ng m1 q g)
    note ng = new [OF created_below(1,2)]
    have "e - (nx + 1) < e - start" using nx_ge created_below(3) by simp
    then have "wf_group g" using less.hyps created_below(4) ng less.prems(3) by blast
    then show ?thesis
      using ng r created_below(6) find_or_create_live [OF created_below(4)] by (auto simp: wf_groups_all)
  qed (use less.prems in simp_all)
qed

lemma group_name_loop_end:
  "group_name_loop d tmp sp e = Some (fe, nx) \<Longrightarrow> char_at d fe = CHR '']'' \<and> nx = fe + 1"
  by (induction d tmp sp e rule: group_name_loop.induct)
    (subst (asm) group_name_loop.simps, auto simp: Let_def split: if_splits)

lemma process_group_line_wf:
  assumes "process_group_line d tmp e root m = (p, root', m')" and "wf_group root"
  shows "wf_group root' \<and> group_name root' = group_name root"
proof -
  have "fe \<le> length d" if "clog_config_get_valid_group_name d tmp e = Some (fs, fe, nx)" for fs fe nx
    using that group_name_loop_end char_at_not_NUL [of d fe]
    by (fastforce simp: clog_config_get_valid_group_name_def Let_def NUL_def split: if_splits)
  then show ?thesis
    using assms unfolding process_group_line_def
    by (auto split: option.splits outcome.splits bool.splits prod.splits
        dest: find_or_create_wf find_or_create_live)
qed

lemma process_line_wf:
  fixes root :: "'f config_group"
  assumes "clog_config_process_line strtod d start e root current m = (Returns q, root', m')"
    and "wf_group root" and "valid_path current root"
  shows "wf_group root' \<and> group_name root' = group_name root"
proof -
  define tmp where "tmp = clog_config_remove_leading_spaces d start e"
  have "wf_group root' \<and> group_name root' = group_name root"
    if property: "process_property_line strtod d tmp e root current m = (Returns q, root', m')"
      and valid: "clog_config_is_valid_name_char (char_at d tmp)"
  proof -
    obtain it m1 g where it: "clog_config_parse_property strtod d tmp e m = (Returns it, m1)"
      "clog_config_add_item (group_at current root) it = Some g" "root' = put_group_at current g root"
      using property by (auto simp: process_property_line_def split: prod.splits outcome.splits option.splits)
    note item = parse_property_wf [OF it(1) valid]
    have "wf_group (group_at current root)" using assms(2,3) by (rule wf_group_at [rotated])
    then have g: "wf_group g \<and> group_name g = group_name (group_at current root)"
      using add_item_wf it(2) item by blast
    then show ?thesis
      using it(3) wf_put_group_at [OF assms(3,2)] group_name_put by metis
  qed
  then show ?thesis
    using assms(1,2) process_group_line_wf [of d tmp e root m "Returns q" root' m']
    unfolding clog_config_process_line_def Let_def tmp_def [symmetric]
    by (simp split: if_splits)
qed

lemma parse_lines_wf:
  assumes "parse_lines strtod d tmp root current m = (Returns g, m')" and "wf_group root"
    and "valid_path current root"
  shows "wf_group g \<and> group_name g = group_name root"
  using assms
proof (induction "length d - tmp" arbitrary: tmp root current m rule: less_induct)
  case less
  define c where "c = skip_newlines d (line_end d tmp)"
  note eq = less.prems(1) [unfolded parse_lines.simps [of strtod d tmp root current m] Let_def,
      folded c_def]
  show ?case
  proof (cases "char_at d tmp = NUL")
    case True
    then show ?thesis using eq less.prems by auto
  next
    case False
    then have lt: "length d - c < length d - tmp"
      unfolding c_def using next_line_gt char_at_not_NUL by (meson diff_less_mono2)
    show ?thesis
    proof (cases "tmp = line_end d tmp")
      case True
      then show ?thesis using less.hyps [OF lt] eq False less.prems by simp
    next
      case not_empty: False
      obtain p root' m1 where
        line: "clog_config_process_line strtod d tmp (line_end d tmp) root current m = (p, root', m1)"
        by (metis prod_cases3)
      obtain q where q: "p = Returns q" using eq False not_empty line by (cases p) auto
      have "wf_group root' \<and> group_name root' = group_name root"
        using process_line_wf line [unfolded q] less.prems(2,3) by blast
      moreover have "valid_path q root'"
        using process_line_live [OF line less.prems(3)] q by simp
      ultimately show ?thesis
        using less.hyps [OF lt, of root' q m1] eq False not_empty line q by simp
    qed
  qed
qed

lemma parse_wf:
  assumes "clog_config_parse strtod data m = (Returns g, m')"
  shows "wf_group g \<and> group_name g = None"
proof -
  have "wf_group (Group None [] [])" by (simp add: wf_content_def wf_names_def)
  then show ?thesis
    using assms
    by (auto simp: clog_config_parse_def clog_config_create_empty_group_def
        split: option.splits prod.splits bool.splits dest: parse_lines_wf)
qed

lemma find_key_in:
  "distinct (map item_key items) \<Longrightarrow> it \<in> set items \<Longrightarrow> item_key it = Some k \<Longrightarrow>
   find_key items k = Some it"
  by (induction items) (auto simp: rev_image_eqI)

lemma wf_names_distinct: "wf_names ns \<Longrightarrow> distinct ns"
proof (induction ns)
  case (Cons n ns)
  have "n \<notin> set ns" using Cons.prems by (auto simp: wf_names_def)
  then show ?case using Cons by (simp add: wf_names_def)
qed simp

lemma find_child_in:
  "distinct (map group_name gs) \<Longrightarrow> g \<in> set gs \<Longrightarrow> group_name g = Some n \<Longrightarrow>
   find_child gs n = Some g"
  by (induction gs) (auto simp: rev_image_eqI)

lemma wf_lookup:
  assumes "wf_group g"
  shows "it \<in> set (group_content g) \<Longrightarrow> item_key it = Some k \<Longrightarrow>
      clog_config_find_item_in_group (Some g) (Some k) = Some it"
    and "c \<in> set (group_children g) \<Longrightarrow> group_name c = Some n \<Longrightarrow>
      clog_config_find_group (Some g) (Some [Some n]) 1 = Returns c"
  using assms wf_names_distinct [of "map group_name (group_children g)"]
  by (cases g; auto simp: clog_config_find_item_in_group_def clog_config_find_group_def wf_content_def
      find_key_in find_child_in)+

text \<open>
  C37. Every tree the parser returns is well formed: in each group the keys are distinct,
  nonempty and made of name characters, the values are typed (no invalid tag anywhere, elements
  of an array without a key, the tag \<open>INT\<close> only with the value 0), and the names of
  subgroups are nonempty, free of dots and spaces, the later of two never a prefix of the
  earlier. So in every group of the tree a lookup by key or by name finds the one item or
  subgroup that has it.
\<close>

theorem config_parse_well_formed:
  assumes "clog_config_parse strtod data m = (Returns g, m')"
  shows "wf_group g \<and> group_name g = None \<and>
    (\<forall>p. valid_path p g \<longrightarrow>
       (\<forall>it \<in> set (group_content (group_at p g)).
          clog_config_find_item_in_group (Some (group_at p g)) (item_key it) = Some it) \<and>
       (\<forall>c \<in> set (group_children (group_at p g)).
          clog_config_find_group (Some (group_at p g)) (Some [group_name c]) 1 = Returns c))"
proof -
  have "clog_config_find_item_in_group (Some h) (item_key it) = Some it"
    if h: "wf_group h" "it \<in> set (group_content h)" for h it
  proof -
    obtain k where "item_key it = Some k" using h by (cases h) (auto simp: wf_content_def)
    then show ?thesis using wf_lookup(1) h by metis
  qed
  moreover have "clog_config_find_group (Some h) (Some [group_name c]) 1 = Returns c"
    if h: "wf_group h" "c \<in> set (group_children h)" for h c
  proof -
    obtain n where "group_name c = Some n" using h by (cases h) (auto simp: wf_names_def)
    then show ?thesis using wf_lookup(2) h by metis
  qed
  ultimately show ?thesis using parse_wf [OF assms] wf_group_at by blast
qed

lemma config_parse_well_formed_witness:
  "wf_group ex_tree \<and> clog_config_find_item_in_group (Some (group_at [0, 0] ex_tree)) (Some ''k'') =
     Some (Item (Some ''k'') (V_ARRAY [Item None (V_UINT 1), Item None (V_BOOL True)]))"
proof -
  have "clog_config_parse ex_strtod (Some ex_conf) mem_ok =
      (Returns ex_tree, snd (clog_config_parse ex_strtod (Some ex_conf) mem_ok))"
    using ex_parse(1) by (metis prod.collapse)
  from config_parse_well_formed [OF this] show ?thesis
    by (auto simp: ex_tree_def dest: spec [of _ "[0, 0]"])
qed

end
