(* ===== verification/Config_Dump.thy ===== *)
theory Config_Dump
  imports Config_Correct
begin

text \<open>
  Printing a configuration (clog_config.c, lines 657-883) and the round trip through the parser.

  A dump function fills a buffer and returns the number of characters written, 0 for failure.
  Here it returns what it wrote, the empty string for 0. \<open>sz\<close> is the room in the buffer
  from where the function writes. \<open>snprintf\<close> with \<open>%d\<close> and \<open>%u\<close> is written out;
  the text of a floating point value (\<open>%lf\<close>) is the parameter \<open>show_float\<close>.
\<close>

subsection \<open>The dump\<close>

fun indent_loop :: "nat \<Rightarrow> string \<Rightarrow> string" where
  "indent_loop 0 indent = []"
| "indent_loop (Suc i) indent = indent @ indent_loop i indent"

definition clog_config_dump_set_indent :: "nat \<Rightarrow> nat \<Rightarrow> string option \<Rightarrow> string" where
  "clog_config_dump_set_indent sz level indent = (case indent of
      None \<Rightarrow> []
    | Some indent \<Rightarrow>
        if length indent = 0 then []
        else if sz \<le> level * length indent then []
        else indent_loop level indent)"

definition key_text :: "string option \<Rightarrow> string" where
  "key_text key = (case key of None \<Rightarrow> [] | Some k \<Rightarrow> k @ '' = '')"

fun scalar_text :: "('f \<Rightarrow> string) \<Rightarrow> 'f config_value \<Rightarrow> string option" where
  "scalar_text show_float (V_INT i) = Some (show_int (sint i))"
| "scalar_text show_float (V_UINT u) = Some (show_nat (unat u))"
| "scalar_text show_float (V_FLOAT f) = Some (show_float f)"
| "scalar_text show_float (V_CHAR c) = Some [c]"
| "scalar_text show_float (V_STRING str) = Some (QUOTE # str @ [QUOTE])"
| "scalar_text show_float (V_BOOL flag) = Some (if flag then ''true'' else ''false'')"
| "scalar_text show_float _ = None"

text \<open>\<open>out\<close> is what the buffer holds so far; \<open>sz\<close> counts from its start.\<close>

function clog_config_dump_item ::
    "('f \<Rightarrow> string) \<Rightarrow> 'f config_item \<Rightarrow> nat \<Rightarrow> nat \<Rightarrow> string option \<Rightarrow> string"
  and dump_elems ::
    "('f \<Rightarrow> string) \<Rightarrow> 'f config_item list \<Rightarrow> nat \<Rightarrow> string option \<Rightarrow> string \<Rightarrow> string" where
  "clog_config_dump_item show_float (Item key v) sz level indent =
     (let out = clog_config_dump_set_indent sz level indent in
      if length out = 0 \<and> 0 < level \<and> indent \<noteq> None then []
      else case scalar_text show_float v of
          Some t \<Rightarrow>
            if sz - length out \<le> length (key_text key @ t) then []
            else out @ key_text key @ t
        | None \<Rightarrow>
            (case v of
               V_ARRAY items \<Rightarrow>
                 (let out = out @ key_text key @ ''[ '' in
                  if sz \<le> length out then []
                  else if items = [] then out @ '']''
                  else dump_elems show_float items sz indent out)
             | _ \<Rightarrow> []))"
| "dump_elems show_float [] sz indent out =
     (if sz \<le> length out then []
      else let out = out @ '' '' in if sz \<le> length out then [] else out @ '']'')"
| "dump_elems show_float (child # rest) sz indent out =
     (let t = clog_config_dump_item show_float child (sz - length out) 0 indent in
      if length t = 0 then []
      else let out = out @ t in
        if rest \<noteq> [] then
          if sz \<le> length out then []
          else let out = out @ '','' in
            if sz \<le> length out then [] else dump_elems show_float rest sz indent (out @ '' '')
        else dump_elems show_float rest sz indent out)"
  by pat_completeness auto
termination
  by (relation "measure (case_sum (\<lambda>(f, it, sz, level, indent). size it)
        (\<lambda>(f, items, sz, indent, out). size_list size items))") auto

fun dump_content ::
    "('f \<Rightarrow> string) \<Rightarrow> 'f config_item list \<Rightarrow> nat \<Rightarrow> nat \<Rightarrow> string option \<Rightarrow> string \<Rightarrow> string option" where
  "dump_content show_float [] sz level indent out = Some out"
| "dump_content show_float (item # rest) sz level indent out =
     (let t = clog_config_dump_item show_float item (sz - length out) (level + 1) indent in
      if length t = 0 then None
      else let out = out @ t in
        if sz \<le> length out then None
        else let out = out @ [NL] in
          if sz \<le> length out then None else dump_content show_float rest sz level indent out)"

definition dump_name :: "string option \<Rightarrow> string" where
  "dump_name name = (case name of None \<Rightarrow> [] | Some n \<Rightarrow> ''['' @ n @ '']'' @ [NL])"

function clog_config_dump_group_internal ::
    "('f \<Rightarrow> string) \<Rightarrow> 'f config_group \<Rightarrow> nat \<Rightarrow> nat \<Rightarrow> string option \<Rightarrow> string"
  and dump_children ::
    "('f \<Rightarrow> string) \<Rightarrow> 'f config_group list \<Rightarrow> nat \<Rightarrow> nat \<Rightarrow> string option \<Rightarrow> string \<Rightarrow> string option" where
  "clog_config_dump_group_internal show_float (Group name content children) sz level indent =
     (let out = clog_config_dump_set_indent sz level indent in
      if length out = 0 \<and> 0 < level \<and> indent \<noteq> None then []
      else if name \<noteq> None \<and> sz - length out \<le> length (dump_name name) then []
      else case dump_content show_float content sz level indent (out @ dump_name name) of
          None \<Rightarrow> []
        | Some out \<Rightarrow>
            (case dump_children show_float children sz level indent out of
               None \<Rightarrow> []
             | Some out \<Rightarrow> if sz \<le> length out then [] else out))"
| "dump_children show_float [] sz level indent out = Some out"
| "dump_children show_float (child # rest) sz level indent out =
     (let t = clog_config_dump_group_internal show_float child (sz - length out) (level + 1) indent in
      if length t = 0 then None else dump_children show_float rest sz level indent (out @ t))"
  by pat_completeness auto
termination
  by (relation "measure (case_sum (\<lambda>(f, g, sz, level, indent). size g)
        (\<lambda>(f, gs, sz, level, indent, out). size_list size gs))") auto

definition clog_config_dump_group ::
    "('f \<Rightarrow> string) \<Rightarrow> 'f config_group option \<Rightarrow> bool \<Rightarrow> nat \<Rightarrow> string option \<Rightarrow> bool \<times> string" where
  "clog_config_dump_group show_float grp has_buf sz indent = (case grp of
      None \<Rightarrow> (False, [])
    | Some g \<Rightarrow>
        if \<not> has_buf then (False, [])
        else let out = clog_config_dump_group_internal show_float g sz 0 indent in
          (length out \<noteq> 0, out))"

subsection \<open>What a successful dump says\<close>

text \<open>The text of a value and of an array's elements, without bounds.\<close>

fun value_text :: "('f \<Rightarrow> string) \<Rightarrow> 'f config_value \<Rightarrow> string"
  and elems_text :: "('f \<Rightarrow> string) \<Rightarrow> 'f config_item list \<Rightarrow> string" where
  "value_text show_float (V_ARRAY items) =
     ''[ '' @ (if items = [] then '']'' else elems_text show_float items)"
| "value_text show_float (V_UINT u) = show_nat (unat u)"
| "value_text show_float (V_BOOL b) = (if b then ''true'' else ''false'')"
| "value_text show_float (V_STRING str) = QUOTE # str @ [QUOTE]"
| "value_text show_float (V_INT i) = show_int (sint i)"
| "value_text show_float (V_FLOAT f) = show_float f"
| "value_text show_float (V_CHAR c) = [c]"
| "value_text show_float V_INVALID = []"
| "elems_text show_float [] = '' ]''"
| "elems_text show_float (Item key v # rest) =
     key_text key @ value_text show_float v @
     (if rest = [] then elems_text show_float rest else '', '' @ elems_text show_float rest)"

lemma scalar_text_value:
  "scalar_text show_float v = Some t \<Longrightarrow> value_text show_float v = t"
  by (cases v) auto

declare clog_config_dump_item.simps [simp del]

lemma dump_item_text:
  fixes it :: "'f config_item" and items :: "'f config_item list"
  shows "clog_config_dump_item show_float it sz level indent = t \<Longrightarrow> t \<noteq> [] \<Longrightarrow>
      t = clog_config_dump_set_indent sz level indent @ key_text (item_key it) @
          value_text show_float (item_value it) \<and>
      (0 < level \<and> indent \<noteq> None \<longrightarrow> clog_config_dump_set_indent sz level indent \<noteq> [])"
    and "dump_elems show_float items sz indent out = t \<Longrightarrow> t \<noteq> [] \<Longrightarrow>
      t = out @ elems_text show_float items"
proof (induction show_float it sz level indent and show_float items sz indent out
    arbitrary: t and t rule: clog_config_dump_item_dump_elems.induct)
  case (1 show_float key v sz level indent)
  let ?ind = "clog_config_dump_set_indent sz level indent"
  have ind: "\<not> (length ?ind = 0 \<and> 0 < level \<and> indent \<noteq> None)" 
  proof
    assume "length ?ind = 0 \<and> 0 < level \<and> indent \<noteq> None"
    then show False using 1(2,3) by (simp add: clog_config_dump_item.simps)
  qed
  note eq = 1(2) [unfolded clog_config_dump_item.simps Let_def if_not_P [OF ind]]
  show ?case
  proof (cases "\<exists>items. v = V_ARRAY items")
    case True
    then obtain items where items: "v = V_ARRAY items" by blast
    have eq': "(if sz \<le> length (?ind @ key_text key @ ''[ '') then []
        else if items = [] then (?ind @ key_text key @ ''[ '') @ '']''
        else dump_elems show_float items sz indent (?ind @ key_text key @ ''[ '')) = t"
      using eq items by simp
    then show ?thesis
      using 1(1) [OF refl ind _ items refl _ _ _ 1(3)] 1(3) ind items by (auto split: if_splits)
  next
    case False
    have "(case scalar_text show_float v of None \<Rightarrow> []
        | Some u \<Rightarrow> if sz - length ?ind \<le> length (key_text key @ u) then []
            else ?ind @ key_text key @ u) = t"
      using eq False by (cases v) auto
    then show ?thesis
      using 1(3) ind by (auto split: option.splits if_splits dest: scalar_text_value)
  qed
next
  case (2 show_float sz indent out)
  then show ?case by (auto simp: Let_def split: if_splits)
next
  case (3 show_float child rest sz indent out)
  have indent0: "clog_config_dump_set_indent n 0 indent = []" for n
    by (auto simp: clog_config_dump_set_indent_def split: option.splits)
  define u where "u = clog_config_dump_item show_float child (sz - length out) 0 indent"
  note eq = 3(4) [unfolded dump_elems.simps(2) Let_def, folded u_def]
  have u: "length u \<noteq> 0" using eq 3(5) by auto
  then have u_text: "u = key_text (item_key child) @ value_text show_float (item_value child)"
    using 3(1) [of u] by (simp add: u_def indent0)
  show ?case
  proof (cases "rest = []")
    case True
    have "dump_elems show_float rest sz indent (out @ u) = t" using eq u True by simp
    then have "t = (out @ u) @ elems_text show_float rest"
      using 3(3) [of u, folded u_def, OF refl u refl] True 3(5) by blast
    then show ?thesis using True u_text by (cases child) simp
  next
    case False
    have "dump_elems show_float rest sz indent (out @ u @ '', '') = t"
      using eq u False 3(5) by (simp split: if_splits)
    moreover have "\<not> sz \<le> length (out @ u)" "\<not> sz \<le> length ((out @ u) @ '','')"
      using eq u False 3(5) by (auto split: if_splits)
    ultimately have "t = ((out @ u) @ '','') @ '' '' @ elems_text show_float rest"
      using 3(2) [of u, folded u_def, OF refl u refl False _ refl, of t] 3(5) by simp
    then show ?thesis using False u_text by (cases child) simp
  qed
qed

end
