(* ===== verification/Config_Roundtrip.thy ===== *)
theory Config_Roundtrip
  imports Config_Dump
begin

text \<open>
  Printing and parsing back: what the dump writes for a value, a property, a group and a whole
  tree of one level is read by the parser as the same thing, with the items of every group in
  reverse order because the parser puts a new item in front.

  Which values this holds for is the predicate \<open>plain_value\<close>: unsigned numbers, truth values,
  strings without quotes, backslashes and line breaks, and arrays of these. Characters are
  printed without their quotes, quotes in strings without a backslash, and floating point
  values swallow the rest of the line when read (line 322), so none of them comes back.
\<close>

subsection \<open>A text at a position\<close>

fun occurs :: "string \<Rightarrow> nat \<Rightarrow> string \<Rightarrow> bool" where
  "occurs d s [] = True"
| "occurs d s (c # w) = (s < length d \<and> d ! s = c \<and> occurs d (Suc s) w)"

lemma occurs_append: "occurs d s (u @ w) \<longleftrightarrow> occurs d s u \<and> occurs d (s + length u) w"
  by (induction u arbitrary: s) auto

lemma occurs_mid: "occurs (pre @ w @ post) (length pre) w"
proof (induction w arbitrary: pre)
  case (Cons c w)
  from Cons [of "pre @ [c]"] show ?case by (simp add: nth_append)
qed simp

lemma occurs_char: "occurs d s (c # w) \<Longrightarrow> char_at d s = c"
  by (simp add: char_at_def)

lemma occurs_take: "occurs d s w \<Longrightarrow> take (length w) (drop s d) = w"
proof (induction w arbitrary: s)
  case (Cons c w)
  then show ?case by (simp flip: Cons_nth_drop_Suc)
qed simp

lemma occurs_nth: "occurs d s w \<Longrightarrow> i < length w \<Longrightarrow> char_at d (s + i) = w ! i"
proof (induction w arbitrary: s i)
  case (Cons c w)
  then show ?case by (cases i) (auto simp: char_at_def dest: Cons.IH)
qed simp

lemma occurs_length: "occurs d s w \<Longrightarrow> w \<noteq> [] \<Longrightarrow> s + length w \<le> length d"
proof (induction w arbitrary: s)
  case (Cons c w)
  show ?case
  proof (cases "w = []")
    case False
    moreover have "occurs d (Suc s) w" using Cons.prems by simp
    ultimately have "Suc s + length w \<le> length d" using Cons.IH by blast
    then show ?thesis by simp
  qed (use Cons in simp)
qed simp

lemma spaces_stop:
  "\<not> is_blank (char_at d s) \<Longrightarrow> clog_config_remove_leading_spaces d s e = s"
  by (subst clog_config_remove_leading_spaces.simps) (simp add: is_blank_def)

lemma spaces_skip:
  "occurs d s w \<Longrightarrow> \<forall>c \<in> set w. is_blank c \<Longrightarrow> s + length w \<le> e \<Longrightarrow>
   clog_config_remove_leading_spaces d s e = clog_config_remove_leading_spaces d (s + length w) e"
proof (induction w arbitrary: s)
  case (Cons c w)
  then have "clog_config_remove_leading_spaces d s e = clog_config_remove_leading_spaces d (Suc s) e"
    by (subst clog_config_remove_leading_spaces.simps) (auto simp: is_blank_def char_at_def)
  then show ?case using Cons by simp
qed simp

subsection \<open>Numbers\<close>

definition is_digit :: "char \<Rightarrow> bool" where
  "is_digit c \<longleftrightarrow> (\<exists>n < 10. c = digit_char n)"

lemma digit_char_cases: "n < 10 \<Longrightarrow> n \<in> {0, 1, 2, 3, 4, 5, 6, 7, 8, 9 :: nat}"
  by auto

lemma digit_char_value: "n < 10 \<Longrightarrow> clog_config_get_number_value 10 (digit_char n) = int n"
  using digit_char_cases [of n]
  by (auto simp: clog_config_get_number_value_def digit_char_def char_in_def code_def)

lemma is_digit_facts:
  assumes "is_digit c"
  shows "char_in (CHR ''0'') (CHR ''9'') c"
    and "c \<notin> {CHR '' '', TAB, CHR ''#'', CHR ''.'', CHR ''-'', CHR ''+'', CHR ''x'', CHR ''o'', CHR ''b'',
      CHR '']'', CHR '',''}"
proof -
  obtain n where "n < 10" "c = digit_char n" using assms is_digit_def by blast
  then show "char_in (CHR ''0'') (CHR ''9'') c"
    and "c \<notin> {CHR '' '', TAB, CHR ''#'', CHR ''.'', CHR ''-'', CHR ''+'', CHR ''x'', CHR ''o'', CHR ''b'',
      CHR '']'', CHR '',''}"
    using digit_char_cases [of n]
    by (auto simp: digit_char_def char_in_def TAB_def)
qed

fun digits_value :: "nat \<Rightarrow> string \<Rightarrow> nat" where
  "digits_value b [] = b"
| "digits_value b (c # w) = digits_value (b * 10 + nat (clog_config_get_number_value 10 c)) w"

lemma digits_value_append: "digits_value b (u @ w) = digits_value (digits_value b u) w"
  by (induction u arbitrary: b) auto

lemma show_nat_digits: "\<forall>c \<in> set (show_nat n). is_digit c"
proof (induction n rule: show_nat.induct)
  case (1 n)
  then show ?case
    by (subst show_nat.simps) (auto simp: is_digit_def intro: exI [of _ n] exI [of _ "n mod 10"])
qed

lemma show_nat_value: "digits_value 0 (show_nat n) = n"
proof (induction n rule: show_nat.induct)
  case (1 n)
  then show ?case
    by (subst show_nat.simps) (auto simp: digits_value_append digit_char_value)
qed

lemma show_nat_nonempty [simp]: "show_nat n \<noteq> []"
  by (subst show_nat.simps) simp

lemma show_nat_zero: "hd (show_nat n) = CHR ''0'' \<longleftrightarrow> n = 0"
proof (induction n rule: show_nat.induct)
  case (1 n)
  have digit: "digit_char k = CHR ''0'' \<longleftrightarrow> k = 0" if "k < 10" for k
    using digit_char_cases [OF that] by (auto simp: digit_char_def)
  show ?case
  proof (cases "n < 10")
    case True
    then show ?thesis by (subst show_nat.simps) (simp add: digit)
  next
    case False
    then have "n div 10 \<noteq> 0" by auto
    then show ?thesis using 1 False by (subst show_nat.simps) (simp add: hd_append)
  qed
qed

lemma show_nat_0: "show_nat 0 = ''0''"
  by (subst show_nat.simps) (simp add: digit_char_def)

lemma uint_loop_digits:
  assumes "occurs d s w" and "\<forall>c \<in> set w. is_digit c" and "s + length w = e"
    and "digits_value b w < 2 ^ 64"
  shows "uint_loop 10 d s e (of_nat b) ne =
    (of_nat (digits_value b w), if w = [] then ne else e - 1)"
  using assms
proof (induction w arbitrary: s b ne)
  case Nil
  then show ?case by (subst uint_loop.simps) simp
next
  case (Cons c w)
  obtain k where k: "k < 10" "c = digit_char k" using Cons.prems(2) by (auto simp: is_digit_def)
  have v: "clog_config_get_number_value 10 (char_at d s) = int k"
    using Cons.prems(1) k digit_char_value by (simp add: char_at_def)
  have "uint_loop 10 d s e (of_nat b) ne = uint_loop 10 d (Suc s) e (of_nat (b * 10 + k)) s"
    using Cons.prems(3) v by (subst uint_loop.simps) simp
  also have "\<dots> = (of_nat (digits_value (b * 10 + k) w), if w = [] then s else e - 1)"
    using Cons.prems k digit_char_value by (intro Cons.IH) auto
  finally show ?case using Cons.prems(3) k digit_char_value by auto
qed

lemma decimal_scan_digits:
  assumes "occurs d s w" and "\<forall>c \<in> set w. is_digit c" and "s + length w \<le> e"
    and "s + length w < e \<Longrightarrow> char_at d (s + length w) \<in> {CHR '' '', CHR '',''}"
    and "w \<noteq> [] \<or> ne = Some s"
  shows "decimal_scan d s e ne = Inr (Some (s + length w))"
  using assms
proof (induction w arbitrary: s ne)
  case Nil
  then have "char_at d s \<noteq> CHR ''.'' \<or> s = e" by (cases "s < e") auto
  then show ?case using Nil by (subst decimal_scan.simps) (auto simp: char_in_def TAB_def Let_def)
next
  case (Cons c w)
  have c: "char_at d s = c" "is_digit c" using Cons.prems by (auto simp: char_at_def)
  have "decimal_scan d s e ne = decimal_scan d (Suc s) e (Some (Suc s))"
    using Cons.prems(3) is_digit_facts [OF c(2)] by (subst decimal_scan.simps) (simp add: c Let_def)
  also have "\<dots> = Inr (Some (Suc s + length w))"
    using Cons.prems by (intro Cons.IH) auto
  finally show ?case by simp
qed

lemma uint_radix_print:
  assumes "occurs d s (show_nat (unat u))" and "q = s + length (show_nat (unat (u :: 32 word)))"
  shows "clog_config_parse_uint_radix 10 d s (Some q) = Returns (q, V_UINT u)"
proof -
  have u: "unat u < 2 ^ 32" using unsigned_less [of u] by simp
  have "uint_loop 10 d s q (of_nat 0) q = (of_nat (unat u), q - 1)"
    using uint_loop_digits [OF assms(1) show_nat_digits, of q 0 q] assms(2) u
    by (simp add: show_nat_value)
  then have loop: "uint_loop 10 d s q 0 q = (of_nat (unat u), q - 1)" by simp
  have n: "unat (of_nat (unat u) :: 64 word) = unat u"
    using u by (subst unsigned_of_nat) (simp add: take_bit_nat_eq_self)
  then have "\<not> (0xFFFFFFFF :: 64 word) < of_nat (unat u)"
    using u by (simp add: word_less_nat_alt)
  moreover have "ucast (of_nat (unat u) :: 64 word) = u"
    by (metis n of_nat_unat ucast_id)
  moreover have "0 < q" using assms(2) by (cases "show_nat (unat u)") auto
  ultimately show ?thesis by (simp add: clog_config_parse_uint_radix_def loop)
qed

lemma parse_number_print:
  fixes strtod :: "string \<Rightarrow> 'f option"
  assumes "occurs d s (show_nat (unat u))" and q: "q = s + length (show_nat (unat (u :: 32 word)))"
    and "q \<le> e" and stop: "q < e \<Longrightarrow> char_at d q \<in> {CHR '' '', CHR '',''}"
  shows "clog_config_parse_number strtod d s e m = (Returns (q, V_UINT u), m)"
proof -
  obtain c w where w: "show_nat (unat u) = c # w" by (cases "show_nat (unat u)") auto
  have c: "char_at d s = c" using assms(1) w by (simp add: char_at_def)
  have digit: "is_digit c" using show_nat_digits [of "unat u"] w by simp
  note facts = is_digit_facts [OF digit]
  have radix: "clog_config_parse_uint_radix 10 d s (Some q) = Returns (q, V_UINT u :: 'f config_value)"
    using assms(1) q by (rule uint_radix_print)
  show ?thesis
  proof (cases "unat u = 0")
    case True
    then have u: "u = 0" by (simp add: unat_0_iff)
    then have w0: "c = CHR ''0''" "w = []" using w show_nat_0 by auto
    then have q1: "q = s + 1" using q w by simp
    consider "q = e" | "q \<noteq> e" "char_at d q = CHR '' ''" | "q < e" "char_at d q = CHR '',''"
      using assms(3) stop by fastforce
    then show ?thesis
    proof cases
      case 3
      have "decimal_scan d q e None = Inr (Some q)"
        using 3 by (subst decimal_scan.simps) (simp add: char_in_def TAB_def)
      then have "parse_decimal strtod d s s False q e m = (Returns (q, V_UINT u), m)"
        using 3 radix
        by (simp add: parse_decimal_def negate_uint_def)
      then show ?thesis
        using 3 c w0 q1 unfolding clog_config_parse_number_def Let_def
        by (simp add: TAB_def clog_config_get_radix_def)
    qed (use c w0 q1 u in \<open>simp_all add: clog_config_parse_number_def Let_def\<close>)
  next
    case False
    then have "c \<noteq> CHR ''0''" using show_nat_zero [of "unat u"] w by simp
    moreover have "decimal_scan d s e None = Inr (Some q)"
      using decimal_scan_digits [OF assms(1) show_nat_digits] assms(3) stop q by simp
    then have "parse_decimal strtod d s s False s e m = (Returns (q, V_UINT u), m)"
      using c facts radix
      by (simp add: parse_decimal_def negate_uint_def)
    ultimately show ?thesis
      using c facts unfolding clog_config_parse_number_def Let_def by simp
  qed
qed

subsection \<open>Values\<close>

definition plain_char :: "char \<Rightarrow> bool" where
  "plain_char c \<longleftrightarrow> c \<notin> {QUOTE, BACKSLASH, NL, CR, NUL}"

fun plain_value :: "'f config_value \<Rightarrow> bool" and plain_elems :: "'f config_item list \<Rightarrow> bool" where
  "plain_value (V_ARRAY items) = plain_elems items"
| "plain_value (V_UINT u) = True"
| "plain_value (V_BOOL b) = True"
| "plain_value (V_STRING t) = (\<forall>c \<in> set t. plain_char c)"
| "plain_value (V_INT i) = False"
| "plain_value (V_FLOAT x) = False"
| "plain_value (V_CHAR c) = False"
| "plain_value V_INVALID = False"
| "plain_elems [] = True"
| "plain_elems (Item key v # rest) = (key = None \<and> plain_value v \<and> plain_elems rest)"

lemma string_loop_print:
  assumes "occurs d s (t @ [QUOTE])" and "\<forall>c \<in> set t. plain_char c" and "s + length t < e"
  shows "string_loop d s e False out = Some (s + length t + 1, out @ t)"
  using assms
proof (induction t arbitrary: s out)
  case Nil
  then show ?case by (subst string_loop.simps) (auto simp: Let_def char_consts char_at_def)
next
  case (Cons c t)
  have c: "char_at d s = c" "c \<noteq> QUOTE" "c \<noteq> BACKSLASH"
    using Cons.prems by (auto simp: char_at_def plain_char_def)
  have "string_loop d s e False out = string_loop d (Suc s) e False (out @ [c])"
    using Cons.prems(3) c by (subst string_loop.simps) (simp add: Let_def)
  also have "\<dots> = Some (Suc s + length t + 1, (out @ [c]) @ t)"
    using Cons.prems by (intro Cons.IH) auto
  finally show ?case by simp
qed

abbreviation all_granted :: "'m mem_scheme \<Rightarrow> bool" where
  "all_granted m \<equiv> (\<forall>i. grants m i)"

lemma malloc_all_granted:
  assumes "all_granted m" and "0 < n"
  obtains m' where "clog_malloc n m = (True, m')" "all_granted m'"
  using assms clog_malloc_total [of m n] by fastforce

lemma parse_string_print:
  assumes "occurs d s (QUOTE # t @ [QUOTE])" and "\<forall>c \<in> set t. plain_char c"
    and "s + length t + 2 \<le> e" and "all_granted m"
  shows "\<exists>m'. clog_config_parse_string d s e m = (Some (s + length t + 2, V_STRING t), m') \<and> all_granted m'"
proof -
  obtain m' where m': "clog_malloc (e - s + 1) m = (True, m')" "all_granted m'"
    using malloc_all_granted [OF assms(4), of "e - s + 1"] by auto
  have q: "char_at d s = QUOTE" using assms(1) by (simp add: char_at_def)
  have "clog_config_remove_leading_spaces d s e = s"
    by (rule spaces_stop) (simp add: q is_blank_def char_consts)
  moreover have "string_loop d (s + 1) e False [] = Some (s + 1 + length t + 1, [] @ t)"
    using assms by (intro string_loop_print) auto
  ultimately show ?thesis
    using m' q assms(3) by (simp add: clog_config_parse_string_def Let_def)
qed

lemma parse_bool_print:
  assumes "occurs d s (value_text show_float (V_BOOL b))"
    and "s + length (value_text show_float (V_BOOL b)) \<le> e"
  shows "clog_config_parse_bool d s e =
    Some (s + length (value_text show_float (V_BOOL b)), V_BOOL b)"
proof -
  have c: "char_at d s = (if b then CHR ''t'' else CHR ''f'')"
    using assms(1) by (cases b) (auto simp: char_at_def)
  then have "clog_config_remove_leading_spaces d s e = s"
    by (intro spaces_stop) (simp add: is_blank_def char_consts)
  moreover have "take (if b then 4 else 5) (drop s d) = (if b then ''true'' else ''false'')"
    using occurs_take [OF assms(1)] by (cases b) (simp_all add: eval_nat_numeral)
  ultimately show ?thesis
    using c assms(2) by (cases b) (auto simp: clog_config_parse_bool_def Let_def strncmp_0)
qed

lemma value_text_start:
  assumes "plain_value v"
  obtains c w where "value_text show_float v = c # w" "\<not> is_blank c" "c \<noteq> CHR '']''"
    "c \<noteq> CHR '',''"
proof (cases v)
  case (V_UINT u)
  obtain c w where w: "show_nat (unat u) = c # w" by (cases "show_nat (unat u)") auto
  then have "is_digit c" using show_nat_digits [of "unat u"] by simp
  from is_digit_facts(2) [OF this] have "\<not> is_blank c" "c \<noteq> CHR '']''" "c \<noteq> CHR '',''"
    by (simp_all add: is_blank_def)
  then show ?thesis using V_UINT w that [of c w] by simp
next
  case (V_BOOL b)
  show ?thesis
    by (cases b, rule that [of "CHR ''t''" "''rue''"], use V_BOOL in \<open>simp_all add: is_blank_def TAB_def\<close>,
      rule that [of "CHR ''f''" "''alse''"], simp_all add: is_blank_def TAB_def)
next
  case (V_STRING t)
  then show ?thesis by (intro that [of QUOTE "t @ [QUOTE]"]) (simp_all add: is_blank_def char_consts)
next
  case (V_ARRAY items)
  then show ?thesis
    by (intro that [of "CHR ''[''" "CHR '' '' # (if items = [] then '']'' else elems_text show_float items)"])
      (simp_all add: is_blank_def char_consts)
qed (use assms in simp_all)

lemma elems_text_start:
  assumes "plain_elems items" and "items \<noteq> []"
  obtains c w where "elems_text show_float items = c # w" "\<not> is_blank c"
proof -
  obtain v rest where items: "items = Item None v # rest" "plain_value v"
    using assms by (cases items; cases "hd items") auto
  obtain c w where "value_text show_float v = c # w" "\<not> is_blank c"
    using value_text_start items(2) by metis
  then show thesis using that [of c] items(1) by (simp add: key_text_def)
qed

text \<open>
  A scalar value, or the opening bracket of an array, where the parser finds it after skipping
  spaces from \<open>s\<close> to \<open>t\<close>.
\<close>

lemma create_item_granted:
  assumes "all_granted m"
  obtains m' where "clog_config_create_empty_item m = (Some (Item None V_INVALID), m')" "all_granted m'"
proof -
  obtain m' where "clog_malloc sizeof_item m = (True, m')" "all_granted m'"
    using malloc_all_granted [OF assms, of sizeof_item] by (auto simp: sizeof_item_def)
  then show thesis by (intro that [of m']) (simp_all add: clog_config_create_empty_item_def)
qed

lemma parse_value_scalar:
  fixes strtod :: "string \<Rightarrow> 'f option"
  assumes "plain_value v" and "\<forall>items. v \<noteq> V_ARRAY items"
    and t: "clog_config_remove_leading_spaces d s e = t"
    and w: "occurs d t (value_text show_float v)" and q: "q = t + length (value_text show_float v)"
    and "q \<le> e" and stop: "q < e \<Longrightarrow> char_at d q \<in> {CHR '' '', CHR '',''}" and "all_granted m"
  shows "\<exists>m'. clog_config_parse_value strtod (Suc fuel) d s e m = ((Returns q, v), m') \<and> all_granted m'"
proof -
  obtain c u where c: "value_text show_float v = c # u" using value_text_start assms(1) by metis
  have at: "char_at d t = c" using w c by (simp add: char_at_def)
  have ne: "t \<noteq> e" using q c assms(6) by auto
  show ?thesis
  proof (cases v)
    case (V_UINT x)
    have "is_digit c" using show_nat_digits [of "unat x"] c V_UINT by simp
    note facts = is_digit_facts [OF this]
    have "clog_config_parse_number strtod d t e m = (Returns (q, V_UINT x), m)"
      using w q assms(6) stop V_UINT by (intro parse_number_print) auto
    then show ?thesis
      using ne facts at V_UINT assms(8)
      by (simp add: clog_config_parse_value.simps(2) t with_value_def)
  next
    case (V_STRING x)
    obtain m' where "clog_config_parse_string d t e m = (Some (t + length x + 2, V_STRING x :: 'f config_value), m')"
      "all_granted m'"
      using parse_string_print [of d t x e m] w q assms(1,6,8) V_STRING by auto
    moreover have "c = QUOTE" using c V_STRING by simp
    ultimately show ?thesis
      using ne at V_STRING q
      by (simp add: clog_config_parse_value.simps(2) t with_value_def of_option_def char_in_def char_consts)
  next
    case (V_BOOL b)
    have "clog_config_parse_bool d t e = Some (q, V_BOOL b :: 'f config_value)"
      using parse_bool_print [of d t show_float b e] w q assms(6) V_BOOL by simp
    moreover have "c = (if b then CHR ''t'' else CHR ''f'')" using c V_BOOL by (cases b) auto
    ultimately show ?thesis
      using ne at V_BOOL assms(8)
      by (cases b) (simp_all add: clog_config_parse_value.simps(2) t with_value_def of_option_def
          char_in_def char_consts)
  qed (use assms(1,2) in auto)
qed

lemma parse_value_array:
  assumes "clog_config_remove_leading_spaces d s e = t" and "char_at d t = CHR ''[''" and "t \<noteq> e"
  shows "clog_config_parse_value strtod (Suc fuel) d s e m = array_loop strtod fuel d t e [] m"
  using assms by (simp add: clog_config_parse_value.simps(2) char_in_def char_consts)

lemma parse_value_print:
  fixes strtod :: "string \<Rightarrow> 'f option"
  shows "\<lbrakk>plain_value v; clog_config_remove_leading_spaces d s e = t;
      occurs d t (value_text show_float v); q = t + length (value_text show_float v); q \<le> e;
      q < e \<Longrightarrow> char_at d q \<in> {CHR '' '', CHR '',''}; all_granted m; 2 * (e - s) + 2 \<le> fuel\<rbrakk> \<Longrightarrow>
    \<exists>m'. clog_config_parse_value strtod fuel d s e m = ((Returns q, v), m') \<and> all_granted m'"
  and "\<lbrakk>items \<noteq> []; plain_elems items; clog_config_remove_leading_spaces d (s + 1) e = t;
      occurs d t (elems_text show_float items); q = t + length (elems_text show_float items); q \<le> e;
      all_granted m; 2 * (e - s) + 1 \<le> fuel\<rbrakk> \<Longrightarrow>
    \<exists>m'. array_loop strtod fuel d s e acc m = ((Returns q, V_ARRAY (acc @ items)), m') \<and> all_granted m'"
proof (induction fuel arbitrary: s t q m v items acc)
  case 0
  { case 1 then show ?case by simp }
  { case 2 then show ?case by simp }
next
  case (Suc fuel)
  { case 1
    show ?case
    proof (cases "\<exists>items. v = V_ARRAY items")
      case False
      then show ?thesis using 1 by (intro parse_value_scalar) auto
    next
      case True
      then obtain items where v: "v = V_ARRAY items" by blast
      have t: "s \<le> t" "t < q" using remove_leading_spaces_ge [of s d e] 1 v by auto
      have "char_at d t = CHR ''[''" using 1(3) v by (simp add: char_at_def)
      note step = parse_value_array [OF 1(2) this, of strtod fuel m]
      have sp: "clog_config_remove_leading_spaces d (t + 1) e = clog_config_remove_leading_spaces d (t + 2) e"
        using spaces_skip [of d "t + 1" "'' ''" e] 1(3,4,5) v by (auto simp: is_blank_def)
      show ?thesis
      proof (cases "items = []")
        case True
        have "char_at d (t + 2) = CHR '']''" using 1(3) v True by (simp add: char_at_def)
        then have "clog_config_remove_leading_spaces d (t + 1) e = t + 2"
          using sp spaces_stop [of d "t + 2" e] by (simp add: is_blank_def TAB_def)
        moreover obtain f where "fuel = Suc f" using 1(5,8) t by (cases fuel) auto
        ultimately show ?thesis
          using step 1(4,5,7) v True \<open>char_at d (t + 2) = _\<close>
          by (simp add: array_loop.simps(2))
      next
        case False
        obtain c w where c: "elems_text show_float items = c # w" "\<not> is_blank c"
          using False 1(1) v elems_text_start [of items show_float] by auto
        have "occurs d (t + 2) (elems_text show_float items)" using 1(3) v False by simp
        moreover have "clog_config_remove_leading_spaces d (t + 1) e = t + 2"
          using sp spaces_stop [of d "t + 2" e] calculation c by (simp add: char_at_def)
        moreover have "2 * (e - t) + 1 \<le> fuel" using 1(8) t by linarith
        ultimately obtain m' where
          "array_loop strtod fuel d t e [] m = ((Returns q, V_ARRAY ([] @ items)), m')" "all_granted m'"
          using Suc(2) [of items t "t + 2" q m "[]"] False 1(1,4,5,7) v by auto
        then show ?thesis using step t 1(5) v by simp
      qed
    qed }
  { case 2
    then obtain v rest where items: "items = Item None v # rest" "plain_value v" "plain_elems rest"
      by (cases items; cases "hd items") auto
    define p where "p = t + length (value_text show_float v)"
    have t: "s < t" using remove_leading_spaces_ge [of "s + 1" d e] 2(3) by simp
    obtain c w where c: "value_text show_float v = c # w" "\<not> is_blank c" "c \<noteq> CHR '']''"
      using value_text_start items(2) by metis
    have w: "occurs d t (value_text show_float v)"
      "occurs d p (if rest = [] then '' ]'' else '', '' @ elems_text show_float rest)"
      using 2(4) unfolding items p_def by (auto simp: occurs_append key_text_def split: if_splits)
    have q: "q = p + length (if rest = [] then '' ]'' else '', '' @ elems_text show_float rest)"
      using 2(5) unfolding items p_def by (simp add: key_text_def)
    have at_t: "char_at d t = c" using w(1) c by (simp add: char_at_def)
    have at_p: "char_at d p = (if rest = [] then CHR '' '' else CHR '','')"
      using w(2) by (auto simp: char_at_def split: if_splits)
    have lt: "p + 2 \<le> e" using q 2(6) by (simp split: if_splits)
    have tp: "t < p" using c p_def by simp
    obtain m1 where m1: "clog_config_create_empty_item m = (Some (Item None V_INVALID :: 'f config_item), m1)"
      "all_granted m1" using create_item_granted [OF 2(7)] by auto
    have "clog_config_remove_leading_spaces d t e = t" using spaces_stop at_t c by metis
    moreover have "2 * (e - t) + 2 \<le> fuel" using 2(8) t tp lt by linarith
    moreover have "char_at d p \<in> {CHR '' '', CHR '',''}" using at_p by simp
    moreover have "p \<le> e" using lt by simp
    ultimately obtain m2 where
      m2: "clog_config_parse_value strtod fuel d t e m1 = ((Returns p, v), m2)" "all_granted m2"
      using Suc(1) [OF items(2) _ w(1) p_def _ _ m1(2)] by blast
    have loop: "array_loop strtod (Suc fuel) d s e acc m =
      (let tmp = clog_config_remove_leading_spaces d p e; items = acc @ [Item None v] in
         if tmp = e then ((Returns_NULL, V_ARRAY items), m2)
         else if length d < tmp then ((Undefined, V_ARRAY items), m2)
         else if char_at d tmp = CHR '']'' then ((Returns (tmp + 1), V_ARRAY items), m2)
         else if char_at d tmp \<noteq> CHR '','' then ((Returns_NULL, V_ARRAY items), m2)
         else array_loop strtod fuel d (tmp + 1) e items m2)"
      using 2(3) t tp lt at_t c(3) m1(1) m2(1)
      by (simp add: array_loop.simps(2) Let_def add_array_item_append)
    show ?case
    proof (cases "rest = []")
      case True
      have "char_at d (p + 1) = CHR '']''" using w(2) True by (simp add: char_at_def)
      then have "clog_config_remove_leading_spaces d p e = p + 1"
        using spaces_skip [of d p "'' ''" e] spaces_stop [of d "p + 1" e] w(2) True lt
        by (simp add: is_blank_def TAB_def)
      moreover have "p + 1 < length d" using w(2) True by simp
      ultimately show ?thesis
        using loop True q lt m2(2) \<open>char_at d (p + 1) = _\<close> items(1) by simp
    next
      case False
      obtain c' w' where c': "elems_text show_float rest = c' # w'" "\<not> is_blank c'"
        using False items(3) elems_text_start [of rest show_float] by auto
      have p: "clog_config_remove_leading_spaces d p e = p"
        using spaces_stop [of d p e] at_p False by (simp add: is_blank_def TAB_def)
      have o: "occurs d (p + 2) (elems_text show_float rest)" using w(2) False by simp
      have "clog_config_remove_leading_spaces d (p + 1 + 1) e = p + 2"
        using spaces_stop [of d "p + 2" e] o c' by (simp add: char_at_def)
      moreover have "2 * (e - (p + 1)) + 1 \<le> fuel" using 2(8) t tp lt by linarith
      ultimately obtain m3 where
        "array_loop strtod fuel d (p + 1) e (acc @ [Item None v]) m2 =
           ((Returns q, V_ARRAY ((acc @ [Item None v]) @ rest)), m3)" "all_granted m3"
        using Suc(2) [of rest "p + 1" "p + 2" q m2 "acc @ [Item None v]"] False items(3) o q 2(6) m2(2)
        by auto
      moreover have "p < length d" using w(2) False by simp
      ultimately show ?thesis using loop p at_p False lt items(1) by simp
    qed }
qed

subsection \<open>Property lines\<close>

lemma name_char_facts:
  assumes "clog_config_is_valid_name_char c"
  shows "c \<notin> {CHR '' '', TAB, CHR ''='', CHR ''['', CHR '']'', CHR ''.'', CHR ''#'', NL, CR, NUL}"
  using assms by (auto simp: clog_config_is_valid_name_char_def char_in_def char_consts)

lemma strndup_granted:
  assumes "all_granted m" and "0 < n"
  obtains m' where "clog_strndup s n m = (Some (take n s), m')" "all_granted m'"
proof -
  obtain m' where "clog_malloc (n + 1) m = (True, m')" "all_granted m'"
    using malloc_all_granted [OF assms(1), of "n + 1"] by auto
  then show thesis using assms(2) that by (simp add: clog_strndup_def)
qed

lemma key_scan:
  assumes "occurs d s k" and "key_ok k" and "s < tmp" and "tmp \<le> s + length k" and "s + length k \<le> e"
  shows "property_loop strtod d s tmp e PARSE_KEY key m =
    property_loop strtod d s (s + length k) e PARSE_KEY key m"
  using assms(3,4)
proof (induction "s + length k - tmp" arbitrary: tmp)
  case (Suc n)
  have lt: "tmp < s + length k" using Suc by linarith
  then have "char_at d tmp = k ! (tmp - s)"
    using occurs_nth [OF assms(1), of "tmp - s"] Suc.prems(1) by simp
  then have c: "clog_config_is_valid_name_char (char_at d tmp)"
    using assms(2) lt Suc.prems(1) by (simp add: key_ok_def)
  note facts = name_char_facts [OF c]
  have "property_loop strtod d s tmp e PARSE_KEY key m =
      property_loop strtod d s (tmp + 1) e PARSE_KEY key m"
    using c facts lt assms(5) by (subst property_loop.simps) (simp add: Let_def)
  also have "\<dots> = property_loop strtod d s (s + length k) e PARSE_KEY key m"
    using Suc lt by (intro Suc.hyps) auto
  finally show ?case .
qed (use assms in simp)

lemma parse_property_print:
  fixes strtod :: "string \<Rightarrow> 'f option"
  assumes "occurs d s (k @ '' = '' @ value_text show_float v)" and "key_ok k" and "plain_value v"
    and e: "e = s + length (k @ '' = '' @ value_text show_float v)" and "all_granted m"
  shows "\<exists>m'. clog_config_parse_property strtod d s e m = (Returns (Item (Some k) v), m') \<and> all_granted m'"
proof -
  define p where "p = s + length k"
  have k: "0 < length k" using assms(2) by (simp add: key_ok_def)
  have o: "occurs d s k" "occurs d p '' = ''" "occurs d (p + 3) (value_text show_float v)"
    using assms(1) unfolding p_def by (auto simp: occurs_append eval_nat_numeral)
  have at: "char_at d p = CHR '' ''" "char_at d (p + 1) = CHR ''=''" "char_at d (p + 2) = CHR '' ''"
    using o(2) by (auto simp: char_at_def eval_nat_numeral)
  have e': "e = p + 3 + length (value_text show_float v)" using e p_def by simp
  obtain m1 where m1: "clog_config_create_empty_item m = (Some (Item None V_INVALID :: 'f config_item), m1)"
    "all_granted m1" using create_item_granted [OF assms(5)] by auto
  obtain m2 where m2: "clog_strndup (drop s d) (length k) m1 = (Some (take (length k) (drop s d)), m2)"
    "all_granted m2" using strndup_granted [OF m1(2) k] by blast
  have key: "take (length k) (drop s d) = k" using occurs_take [OF o(1)] .
  have valid: "clog_config_is_valid_name_char (char_at d (p - 1))"
    using occurs_nth [OF o(1), of "length k - 1"] k assms(2)
    by (simp add: p_def key_ok_def)
  obtain c w where c: "value_text show_float v = c # w" "\<not> is_blank c"
    using value_text_start assms(3) by metis
  have "clog_config_remove_leading_spaces d (p + 2) e = p + 3"
    using spaces_skip [of d "p + 2" "'' ''" e] spaces_stop [of d "p + 3" e] o(2,3) c e'
    by (auto simp: char_at_def is_blank_def eval_nat_numeral)
  then obtain m3 where m3: "clog_config_parse_value strtod (fuel_for (p + 2) e) d (p + 2) e m2 = ((Returns e, v), m3)"
    "all_granted m3"
    using parse_value_print(1) [OF assms(3) _ o(3) e' order_refl _ m2(2), of "p + 2" "fuel_for (p + 2) e" strtod]
    by (auto simp: fuel_for_def)
  have "clog_config_check_inline_comment d e e = Returns True"
    by (simp add: clog_config_check_inline_comment_def)
  then have "property_loop strtod d s (p + 2) e PARSE_VALUE (Some k) m2 = (Returns (Item (Some k) v), m3)"
    using m3(1) e' by (subst property_loop.simps) (simp add: Let_def finish_property_def)
  then have "property_loop strtod d s (p + 1) e PARSE_EQUAL (Some k) m2 = (Returns (Item (Some k) v), m3)"
    using at(2) e' by (subst property_loop.simps) (simp add: Let_def)
  then have "property_loop strtod d s p e PARSE_EQUAL (Some k) m2 = (Returns (Item (Some k) v), m3)"
    using at(1) e' by (subst property_loop.simps) (simp add: Let_def)
  then have "property_loop strtod d s p e PARSE_KEY None m1 = (Returns (Item (Some k) v), m3)"
    using at(1) e' m2(1) key valid k by (subst property_loop.simps) (simp add: Let_def p_def)
  moreover have "property_loop strtod d s (s + 1) e PARSE_KEY None m1 = property_loop strtod d s p e PARSE_KEY None m1"
    unfolding p_def using k e' p_def by (intro key_scan [OF o(1) assms(2)]) (auto simp: Suc_le_eq)
  ultimately show ?thesis
    using m1(1) m3(2) by (simp add: clog_config_parse_property_def)
qed

lemma process_property_print:
  fixes strtod :: "string \<Rightarrow> 'f option"
  assumes "occurs d s (ind @ k @ '' = '' @ value_text show_float v)" and "key_ok k" and "plain_value v"
    and "\<forall>c \<in> set ind. is_blank c"
    and e: "e = s + length (ind @ k @ '' = '' @ value_text show_float v)" and "all_granted m"
    and "valid_path current root" and g: "group_at current root = Group nm content ch"
    and "Some k \<notin> item_key ` set content"
  shows "\<exists>m'. clog_config_process_line strtod d s e root current m =
      (Returns current, put_group_at current (Group nm (Item (Some k) v # content) ch) root, m') \<and> all_granted m'"
proof -
  define t where "t = s + length ind"
  have o: "occurs d s ind" "occurs d t (k @ '' = '' @ value_text show_float v)"
    using assms(1) unfolding t_def by (simp_all add: occurs_append)
  obtain c k' where k: "k = c # k'" "clog_config_is_valid_name_char c"
    using assms(2) by (cases k) (auto simp: key_ok_def)
  have at: "char_at d t = c" using o(2) k by (simp add: char_at_def)
  note facts = name_char_facts [OF k(2)]
  have "clog_config_remove_leading_spaces d s e = t"
    using spaces_skip [OF o(1) assms(4), of e] spaces_stop [of d t e] facts at e
    by (simp add: t_def is_blank_def)
  moreover obtain m' where
    "clog_config_parse_property strtod d t e m = (Returns (Item (Some k) v), m')" "all_granted m'"
    using parse_property_print [OF o(2) assms(2,3) _ assms(6), of e strtod] e t_def by auto
  moreover have "t \<noteq> e" using e t_def k by simp
  moreover have "clog_config_add_item (group_at current root) (Item (Some k) v) =
      Some (Group nm (Item (Some k) v # content) ch)"
    using assms(9) by (force simp: g clog_config_add_item_def key_exists_def)
  ultimately show ?thesis
    using at facts k(2) by (simp add: clog_config_process_line_def process_property_line_def)
qed

subsection \<open>Group lines\<close>

lemma group_name_loop_name:
  assumes "occurs d s (n @ '']'')" and "\<forall>c \<in> set n. clog_config_is_valid_name_char c" and "s + length n < e"
  shows "group_name_loop d s False e = Some (s + length n, s + length n + 1)"
  using assms
proof (induction n arbitrary: s)
  case Nil
  then show ?case by (subst group_name_loop.simps) (auto simp: char_at_def TAB_def)
next
  case (Cons c n)
  have c: "char_at d s = c" "clog_config_is_valid_name_char c"
    using Cons.prems by (auto simp: char_at_def)
  note facts = name_char_facts [OF c(2)]
  have "group_name_loop d s False e = group_name_loop d (Suc s) False e"
    using Cons.prems(3) c facts by (subst group_name_loop.simps) simp
  also have "\<dots> = Some (Suc s + length n, Suc s + length n + 1)"
    using Cons.prems by (intro Cons.IH) auto
  finally show ?case by simp
qed

lemma name_stop_name:
  assumes "occurs d s n" and "\<forall>c \<in> set n. clog_config_is_valid_name_char c"
  shows "name_stop d s (s + length n) = s + length n"
  using assms
proof (induction n arbitrary: s)
  case Nil
  then show ?case by (subst name_stop.simps) simp
next
  case (Cons c n)
  have c: "char_at d s = c" "clog_config_is_valid_name_char c"
    using Cons.prems by (auto simp: char_at_def)
  note facts = name_char_facts [OF c(2)]
  show ?case
    using Cons.prems c facts Cons.IH [of "Suc s"] by (subst name_stop.simps) simp
qed

lemma find_prefix_none:
  assumes "\<forall>g \<in> set gs. \<exists>x. group_name g = Some x \<and> \<not> prefix n x" and "take (length n) start = n"
  shows "find_prefix gs start (length n) = None"
  using assms(1)
proof (induction gs)
  case (Cons g gs)
  obtain x where x: "group_name g = Some x" "\<not> prefix n x" using Cons.prems by auto
  have "take (length n) x \<noteq> n" using x(2) take_is_prefix by metis
  then have "clog_strncmp (group_name g) (Some start) (length n) \<noteq> 0"
    using assms(2) by (simp add: x clog_strncmp_0)
  then show ?case using Cons by simp
qed simp

lemma process_group_print:
  fixes root :: "'f config_group"
  assumes "occurs d s (ind @ ''['' @ n @ '']'')" and "key_ok n" and "\<forall>c \<in> set ind. is_blank c"
    and e: "e = s + length (ind @ ''['' @ n @ '']'')" and "all_granted m"
    and "\<forall>g \<in> set (group_children root). \<exists>x. group_name g = Some x \<and> \<not> prefix n x"
  shows "\<exists>m'. clog_config_process_line strtod d s e root current m =
      (Returns [length (group_children root)],
       Group (group_name root) (group_content root) (group_children root @ [Group (Some n) [] []]), m') \<and>
     all_granted m'"
proof -
  define t where "t = s + length ind"
  have o: "occurs d s ind" "occurs d (t + 1) (n @ '']'')" "char_at d t = CHR ''[''"
    using assms(1) unfolding t_def by (auto simp: occurs_append char_at_def)
  then have on: "occurs d (t + 1) n" by (simp add: occurs_append)
  obtain c n' where n: "n = c # n'" "clog_config_is_valid_name_char c"
    using assms(2) by (cases n) (auto simp: key_ok_def)
  have at: "char_at d (t + 1) = c" using on n by (simp add: char_at_def)
  note facts = name_char_facts [OF n(2)]
  have e': "e = t + 1 + length n + 1" using e t_def by simp
  have sp: "clog_config_remove_leading_spaces d s e = t"
    using spaces_skip [OF o(1) assms(3), of e] spaces_stop [of d t e] o(3) e
    by (simp add: t_def is_blank_def TAB_def)
  have sp1: "clog_config_remove_leading_spaces d (t + 1) x = t + 1" for x
    using spaces_stop [of d "t + 1" x] facts at by (simp add: is_blank_def)
  have valid: "\<forall>c \<in> set n. clog_config_is_valid_name_char c" using assms(2) by (simp add: key_ok_def)
  have "group_name_loop d (t + 1) False e = Some (t + 1 + length n, t + 1 + length n + 1)"
    using e' by (intro group_name_loop_name [OF o(2) valid]) simp
  then have name: "clog_config_get_valid_group_name d t e = Some (t + 1, t + 1 + length n, e)"
    using sp1 [of e] e' at n(2) by (simp add: clog_config_get_valid_group_name_def)
  have take_n: "take (length n) (drop (t + 1) d) = n" using occurs_take [OF on] .
  have none: "find_prefix (group_children root) (drop (t + 1) d) (length n) = None"
    by (rule find_prefix_none [OF assms(6) take_n])
  obtain m1 where m1: "clog_malloc sizeof_group m = (True, m1)" "all_granted m1"
    using malloc_all_granted [OF assms(5), of sizeof_group] by (auto simp: sizeof_group_def)
  have "0 < length n" using n by simp
  then obtain m2 where m2: "clog_strndup (drop (t + 1) d) (length n) m1 = (Some n, m2)" "all_granted m2"
    using strndup_granted [OF m1(2)] take_n by metis
  have create: "create_named_group (drop (t + 1) d) (length n) m = (Some (Group (Some n) [] [] :: 'f config_group), m2)"
    using m1 m2 by (simp add: create_named_group_def clog_config_create_empty_group_def)
  have stop: "name_stop d (t + 1) (t + 1 + length n) = t + 1 + length n"
    by (rule name_stop_name [OF on valid])
  have "clog_config_find_or_create_group d root (t + 1) (t + 1 + length n) m =
      (Returns [length (group_children root)],
       Group (group_name root) (group_content root) (group_children root @ [Group (Some n) [] []]), m2)"
    by (subst clog_config_find_or_create_group.simps)
      (simp only: Let_def sp1 stop diff_add_inverse none create option.case prod.case if_True
          simp_thms)
  moreover have "clog_config_check_inline_comment d e e = Returns True"
    by (simp add: clog_config_check_inline_comment_def)
  ultimately show ?thesis
    using sp o(3) name e' m2(2) by (simp add: clog_config_process_line_def process_group_line_def)
qed

subsection \<open>Lines and files\<close>

definition line_char :: "char \<Rightarrow> bool" where
  "line_char c \<longleftrightarrow> c \<notin> {NL, CR, NUL}"

lemma line_end_line:
  "occurs d s (l @ [NL]) \<Longrightarrow> \<forall>c \<in> set l. line_char c \<Longrightarrow> line_end d s = s + length l"
proof (induction l arbitrary: s)
  case Nil
  then show ?case by (subst line_end.simps) (simp add: char_at_def)
next
  case (Cons c l)
  then show ?case by (subst line_end.simps) (auto simp: char_at_def line_char_def)
qed

lemma parse_line_step:
  assumes "occurs d s (l @ [NL])" and "l \<noteq> []" and "\<forall>c \<in> set l. line_char c"
    and next_char: "char_at d (s + length l + 1) \<noteq> NL" "char_at d (s + length l + 1) \<noteq> CR"
    and line: "clog_config_process_line strtod d s (s + length l) root current m =
      (Returns current', root', m')"
  shows "parse_lines strtod d s root current m =
    parse_lines strtod d (s + length l + 1) root' current' m'"
proof -
  obtain c l' where l: "l = c # l'" using assms(2) by (cases l) auto
  then have "char_at d s \<noteq> NUL" using assms(1,3) by (auto simp: char_at_def line_char_def)
  moreover have "char_at d (s + length l) = NL"
    using assms(1) by (simp add: occurs_append char_at_def)
  then have "skip_newlines d (s + length l) = s + length l + 1"
    using next_char by (subst skip_newlines.simps, subst skip_newlines.simps) (auto simp: char_consts)
  ultimately show ?thesis
    using line_end_line [OF assms(1,3)] line l by (subst parse_lines.simps) (simp add: Let_def)
qed

definition lines_text :: "string list \<Rightarrow> string" where
  "lines_text ls = concat (map (\<lambda>l. l @ [NL]) ls)"

lemma lines_text_simps [simp]:
  "lines_text [] = []" "lines_text (l # ls) = l @ NL # lines_text ls"
  "lines_text (ls @ ks) = lines_text ls @ lines_text ks"
  by (simp_all add: lines_text_def)

definition indent_text :: "string option \<Rightarrow> nat \<Rightarrow> string" where
  "indent_text indent level = (case indent of None \<Rightarrow> [] | Some i \<Rightarrow> indent_loop level i)"

definition item_line :: "('f \<Rightarrow> string) \<Rightarrow> string option \<Rightarrow> nat \<Rightarrow> 'f config_item \<Rightarrow> string" where
  "item_line show_float indent level it =
     indent_text indent level @ key_text (item_key it) @ value_text show_float (item_value it)"

definition name_line :: "string option \<Rightarrow> nat \<Rightarrow> string \<Rightarrow> string" where
  "name_line indent level n = indent_text indent level @ ''['' @ n @ '']''"

definition plain_item :: "'f config_item \<Rightarrow> bool" where
  "plain_item it \<longleftrightarrow> plain_value (item_value it) \<and> (\<exists>k. item_key it = Some k \<and> key_ok k)"

definition blank_indent :: "string option \<Rightarrow> bool" where
  "blank_indent indent \<longleftrightarrow> (\<forall>i. indent = Some i \<longrightarrow> (\<forall>c \<in> set i. is_blank c))"

lemma indent_text_blank: "blank_indent indent \<Longrightarrow> \<forall>c \<in> set (indent_text indent level). is_blank c"
proof -
  have "\<forall>c \<in> set i. is_blank c \<Longrightarrow> \<forall>c \<in> set (indent_loop level i). is_blank c" for i
    by (induction level) auto
  then show "blank_indent indent \<Longrightarrow> \<forall>c \<in> set (indent_text indent level). is_blank c"
    by (auto simp: blank_indent_def indent_text_def split: option.splits)
qed

lemma blank_line_char: "is_blank c \<Longrightarrow> line_char c"
  by (auto simp: is_blank_def line_char_def char_consts)

lemma name_line_char: "clog_config_is_valid_name_char c \<Longrightarrow> line_char c"
  using name_char_facts by (auto simp: line_char_def)

lemma digit_line_char: "is_digit c \<Longrightarrow> line_char c"
  using is_digit_facts(1) [of c] by (auto simp: line_char_def char_in_def char_consts)

lemma value_text_chars:
  fixes v :: "'f config_value" and items :: "'f config_item list"
  shows "plain_value v \<Longrightarrow> \<forall>c \<in> set (value_text show_float v). line_char c"
    and "plain_elems items \<Longrightarrow> \<forall>c \<in> set (elems_text show_float items). line_char c"
proof (induction show_float v and show_float items rule: value_text_elems_text.induct)
  case (2 show_float u)
  then show ?case using show_nat_digits digit_line_char by fastforce
qed (auto simp: line_char_def char_consts plain_char_def key_text_def)

lemma item_line_chars:
  assumes "plain_item it" and "blank_indent indent"
  shows "\<forall>c \<in> set (item_line show_float indent level it). line_char c"
proof -
  obtain k where k: "item_key it = Some k" "key_ok k" using assms(1) by (auto simp: plain_item_def)
  have "\<forall>c \<in> set (key_text (item_key it)). line_char c"
    using k name_line_char by (auto simp: key_text_def key_ok_def line_char_def char_consts)
  then show ?thesis
    using value_text_chars(1) [of "item_value it" show_float] assms(1)
      indent_text_blank [OF assms(2)] blank_line_char
    by (auto simp: item_line_def plain_item_def)
qed

lemma put_group_at_self: "valid_path p g \<Longrightarrow> put_group_at p (group_at p g) g = g"
  by (induction p g rule: group_at.induct) auto

lemma put_group_at_twice: "valid_path p g \<Longrightarrow> put_group_at p a (put_group_at p b g) = put_group_at p a g"
  by (induction p g rule: group_at.induct) auto

lemma group_at_put: "valid_path p g \<Longrightarrow> group_at p (put_group_at p a g) = a"
  by (induction p g rule: group_at.induct) auto

text \<open>The first character of a line is not a line break; nor is what follows the last line.\<close>

lemma next_char_lines:
  assumes "occurs d s (lines_text ls)" and "\<forall>l \<in> set ls. l \<noteq> [] \<and> (\<forall>c \<in> set l. line_char c)"
    and "char_at d (s + length (lines_text ls)) \<notin> {NL, CR}"
  shows "char_at d s \<noteq> NL" and "char_at d s \<noteq> CR"
proof -
  have "char_at d s \<notin> {NL, CR}"
  proof (cases ls)
    case (Cons l ks)
    then obtain c l' where "l = c # l'" using assms(2) by (cases l) auto
    then show ?thesis using Cons assms(1,2) by (auto simp: char_at_def line_char_def)
  qed (use assms(3) in simp)
  then show "char_at d s \<noteq> NL" and "char_at d s \<noteq> CR" by auto
qed

lemma item_line_nonempty: "plain_item it \<Longrightarrow> item_line show_float indent level it \<noteq> []"
  by (auto simp: item_line_def plain_item_def key_text_def)

lemma content_lines_ok:
  assumes "\<forall>it \<in> set ct. plain_item it" and "blank_indent indent"
  shows "\<forall>l \<in> set (map (item_line show_float indent level) ct). l \<noteq> [] \<and> (\<forall>c \<in> set l. line_char c)"
proof
  fix l assume "l \<in> set (map (item_line show_float indent level) ct)"
  then obtain it where it: "it \<in> set ct" "l = item_line show_float indent level it" by auto
  then have "plain_item it" using assms(1) by blast
  then show "l \<noteq> [] \<and> (\<forall>c \<in> set l. line_char c)"
    unfolding it(2) by (intro conjI item_line_nonempty item_line_chars [OF _ assms(2)])
qed

lemma parse_content:
  fixes strtod :: "string \<Rightarrow> 'f option"
  assumes "\<forall>it \<in> set ct. plain_item it" and "distinct (map item_key (ct @ acc))"
    and "occurs d s (lines_text (map (item_line show_float indent level) ct))"
    and "q = s + length (lines_text (map (item_line show_float indent level) ct))"
    and "char_at d q \<notin> {NL, CR}" and "all_granted m" and "blank_indent indent"
    and "valid_path current root" and "group_at current root = Group nm acc ch"
  shows "\<exists>m'. parse_lines strtod d s root current m =
      parse_lines strtod d q (put_group_at current (Group nm (rev ct @ acc) ch) root) current m' \<and>
      all_granted m'"
  using assms
proof (induction ct arbitrary: s acc root m)
  case Nil
  then show ?case using put_group_at_self [of current root] by auto
next
  case (Cons it ct)
  obtain k v where it: "it = Item (Some k) v" "key_ok k" "plain_value v"
    using Cons.prems(1) by (cases it) (auto simp: plain_item_def)
  define l where "l = item_line show_float indent level it"
  define r where "r = s + length l + 1"
  have l: "l = indent_text indent level @ k @ '' = '' @ value_text show_float v"
    by (simp add: l_def item_line_def it key_text_def)
  have o: "occurs d s (l @ [NL])" "occurs d r (lines_text (map (item_line show_float indent level) ct))"
    using Cons.prems(3) unfolding r_def by (simp_all add: occurs_append l_def)
  have ls: "\<forall>x \<in> set (map (item_line show_float indent level) ct). x \<noteq> [] \<and> (\<forall>c \<in> set x. line_char c)"
    using content_lines_ok Cons.prems(1,7) by (metis list.set_intros(2))
  have q: "q = r + length (lines_text (map (item_line show_float indent level) ct))"
    using Cons.prems(4) by (simp add: r_def l_def)
  have nc: "char_at d (s + length l + 1) \<noteq> NL" "char_at d (s + length l + 1) \<noteq> CR"
    using next_char_lines [OF o(2) ls] Cons.prems(5) q r_def by auto
  have lc: "\<forall>c \<in> set l. line_char c"
    unfolding l_def using Cons.prems(1,7) by (intro item_line_chars) simp
  have ne: "l \<noteq> []" unfolding l_def using Cons.prems(1) by (intro item_line_nonempty) simp
  have "Some k \<notin> item_key ` set acc" using Cons.prems(2) it(1) by auto
  moreover have "occurs d s (indent_text indent level @ k @ '' = '' @ value_text show_float v)"
    using o(1) l by (simp add: occurs_append)
  note o' = this
  have blank: "\<forall>c \<in> set (indent_text indent level). is_blank c"
    by (rule indent_text_blank [OF Cons.prems(7)])
  ultimately obtain m1 where
    line: "clog_config_process_line strtod d s (s + length l) root current m =
      (Returns current, put_group_at current (Group nm (Item (Some k) v # acc) ch) root, m1)"
    and m1: "all_granted m1"
    using process_property_print [OF o' it(2,3) blank _ Cons.prems(6,8,9), of "s + length l" strtod] l
    by auto
  define root1 where "root1 = put_group_at current (Group nm (it # acc) ch) root"
  have "valid_path current root1" "group_at current root1 = Group nm (it # acc) ch"
    unfolding root1_def using Cons.prems(8) by (simp_all add: valid_path_put_group_at group_at_put)
  then obtain m2 where
    "parse_lines strtod d r root1 current m1 =
      parse_lines strtod d q (put_group_at current (Group nm (rev ct @ it # acc) ch) root1) current m2"
    "all_granted m2"
    using Cons.IH [of "it # acc" r m1 root1] Cons.prems(1,2,5,7) o(2) q m1 by auto
  moreover have "parse_lines strtod d s root current m = parse_lines strtod d r root1 current m1"
    using parse_line_step [OF o(1) ne lc nc line] by (simp add: r_def root1_def it(1))
  ultimately show ?case
    using Cons.prems(8) by (auto simp: root1_def put_group_at_twice)
qed

text \<open>A group below the root: its name and its items; it has no subgroups.\<close>

definition child_lines :: "('f \<Rightarrow> string) \<Rightarrow> string option \<Rightarrow> 'f config_group \<Rightarrow> string list" where
  "child_lines show_float indent g =
     name_line indent 1 (the (group_name g)) # map (item_line show_float indent 2) (group_content g)"

definition plain_child :: "'f config_group \<Rightarrow> bool" where
  "plain_child g \<longleftrightarrow> (\<exists>n. group_name g = Some n \<and> key_ok n) \<and> group_children g = [] \<and>
     (\<forall>it \<in> set (group_content g). plain_item it) \<and> distinct (map item_key (group_content g))"

definition rev_content :: "'f config_group \<Rightarrow> 'f config_group" where
  "rev_content g = Group (group_name g) (rev (group_content g)) (group_children g)"

lemma child_lines_ok:
  assumes "plain_child g" and "blank_indent indent"
  shows "\<forall>l \<in> set (child_lines show_float indent g). l \<noteq> [] \<and> (\<forall>c \<in> set l. line_char c)"
proof -
  have "line_char (CHR ''['')" "line_char (CHR '']'')" by (simp_all add: line_char_def char_consts)
  then have "\<forall>c \<in> set (name_line indent 1 (the (group_name g))). line_char c"
    using assms(1) indent_text_blank [OF assms(2)] blank_line_char name_line_char
    by (auto simp: name_line_def plain_child_def key_ok_def)
  moreover have "name_line indent 1 n \<noteq> []" for n by (simp add: name_line_def)
  moreover have "\<forall>l \<in> set (map (item_line show_float indent 2) (group_content g)).
      l \<noteq> [] \<and> (\<forall>c \<in> set l. line_char c)"
    using assms by (intro content_lines_ok) (simp_all add: plain_child_def)
  ultimately show ?thesis by (simp add: child_lines_def)
qed

lemma parse_children:
  fixes strtod :: "string \<Rightarrow> 'f option"
  assumes "\<forall>g \<in> set gs. plain_child g" and "wf_names (map group_name (before @ gs))"
    and "occurs d s (lines_text (concat (map (child_lines show_float indent) gs)))"
    and "q = s + length (lines_text (concat (map (child_lines show_float indent) gs)))"
    and "char_at d q \<notin> {NL, CR}" and "all_granted m" and "blank_indent indent"
  shows "\<exists>m' current'. parse_lines strtod d s (Group nm ct before) current m =
      parse_lines strtod d q (Group nm ct (before @ map rev_content gs)) current' m' \<and> all_granted m'"
  using assms
proof (induction gs arbitrary: s before current m)
  case Nil
  then show ?case by auto
next
  case (Cons g gs)
  obtain n where n: "group_name g = Some n" "key_ok n" using Cons.prems(1) by (auto simp: plain_child_def)
  have g: "plain_child g" using Cons.prems(1) by simp
  define l where "l = name_line indent 1 n"
  define items where "items = map (item_line show_float indent 2) (group_content g)"
  define later where "later = concat (map (child_lines show_float indent) gs)"
  define r where "r = s + length l + 1"
  define r2 where "r2 = r + length (lines_text items)"
  have all: "lines_text (concat (map (child_lines show_float indent) (g # gs))) =
      l @ [NL] @ lines_text items @ lines_text later"
    by (simp add: child_lines_def n l_def items_def later_def)
  have o: "occurs d s (l @ [NL])" "occurs d r (lines_text items)" "occurs d r2 (lines_text later)"
    "occurs d r (lines_text (items @ later))"
    using Cons.prems(3) unfolding all r_def r2_def by (simp_all add: occurs_append add.assoc)
  have q: "q = r2 + length (lines_text later)" "q = r + length (lines_text (items @ later))"
    using Cons.prems(4) unfolding all r_def r2_def by simp_all
  have later_ok: "\<forall>l \<in> set later. l \<noteq> [] \<and> (\<forall>c \<in> set l. line_char c)"
    using Cons.prems(1) child_lines_ok [OF _ Cons.prems(7)] by (auto simp: later_def)
  have g_ok: "\<forall>x \<in> set (l # items). x \<noteq> [] \<and> (\<forall>c \<in> set x. line_char c)"
    using child_lines_ok [OF g Cons.prems(7), of show_float] by (simp add: child_lines_def n l_def items_def)
  have nc: "char_at d (s + length l + 1) \<noteq> NL" "char_at d (s + length l + 1) \<noteq> CR"
    using next_char_lines [OF o(4)] g_ok later_ok Cons.prems(5) q(2) by (auto simp: r_def)
  have nc2: "char_at d r2 \<notin> {NL, CR}"
    using next_char_lines [OF o(3) later_ok] Cons.prems(5) q(1) by auto
  have names: "\<forall>h \<in> set before. \<exists>x. group_name h = Some x \<and> \<not> prefix n x"
  proof
    fix h assume h: "h \<in> set before"
    then obtain x where "group_name h = Some x" using Cons.prems(2) by (auto simp: wf_names_def)
    moreover have "\<not> prefix (the (group_name g)) (the (group_name h))"
      using Cons.prems(2) h by (simp add: wf_names_def sorted_wrt_append)
    ultimately show "\<exists>x. group_name h = Some x \<and> \<not> prefix n x" using n(1) by simp
  qed
  have "occurs d s (indent_text indent 1 @ ''['' @ n @ '']'')"
    using o(1) by (simp add: l_def name_line_def occurs_append)
  then obtain m1 where
    line: "clog_config_process_line strtod d s (s + length l) (Group nm ct before) current m =
      (Returns [length before], Group nm ct (before @ [Group (Some n) [] []]), m1)" and m1: "all_granted m1"
    using process_group_print [OF _ n(2) indent_text_blank [OF Cons.prems(7)] _ Cons.prems(6),
        of d s 1 "s + length l" "Group nm ct before" strtod current] names
    by (auto simp: l_def name_line_def)
  have step: "parse_lines strtod d s (Group nm ct before) current m =
      parse_lines strtod d r (Group nm ct (before @ [Group (Some n) [] []])) [length before] m1"
    using parse_line_step [OF o(1) _ _ nc line] g_ok by (simp add: r_def)
  obtain m2 where m2: "parse_lines strtod d r (Group nm ct (before @ [Group (Some n) [] []])) [length before] m1 =
      parse_lines strtod d r2 (Group nm ct (before @ [rev_content g])) [length before] m2" "all_granted m2"
    using parse_content [of "group_content g" "[]" d r show_float indent 2 r2 m1 "[length before]"
        "Group nm ct (before @ [Group (Some n) [] []])" "Some n" "[]" strtod]
      g o(2) r2_def nc2 m1 Cons.prems(7) n(1)
    by (auto simp: plain_child_def items_def rev_content_def)
  have "wf_names (map group_name ((before @ [rev_content g]) @ gs))"
    using Cons.prems(2) by (simp add: rev_content_def)
  then obtain m3 current' where
    "parse_lines strtod d r2 (Group nm ct (before @ [rev_content g])) [length before] m2 =
      parse_lines strtod d q (Group nm ct ((before @ [rev_content g]) @ map rev_content gs)) current' m3"
    "all_granted m3"
    using Cons.IH [of "before @ [rev_content g]" r2 m2 "[length before]"] Cons.prems(1,5,7) o(3) q(1) m2(2)
    by (auto simp: later_def)
  then show ?case using step m2(1) by auto
qed

subsection \<open>The text of a tree of one level\<close>

lemma set_indent_text:
  "clog_config_dump_set_indent sz level indent \<noteq> [] \<or> indent = None \<Longrightarrow>
   clog_config_dump_set_indent sz level indent = indent_text indent level"
  by (cases indent) (simp_all add: clog_config_dump_set_indent_def indent_text_def split: if_splits)

lemma dump_content_text:
  "dump_content show_float items sz level indent out = Some t \<Longrightarrow>
   t = out @ lines_text (map (item_line show_float indent (level + 1)) items)"
proof (induction items arbitrary: out)
  case (Cons it items)
  define u where "u = clog_config_dump_item show_float it (sz - length out) (level + 1) indent"
  have u: "u \<noteq> []" and rest: "dump_content show_float items sz level indent ((out @ u) @ [NL]) = Some t"
    using Cons.prems by (auto simp: Let_def u_def split: if_splits)
  have "u = item_line show_float indent (level + 1) it"
    using dump_item_text(1) [OF u_def [symmetric] u] set_indent_text [of "sz - length out" "level + 1" indent]
    by (auto simp: item_line_def)
  then show ?case using Cons.IH [OF rest] by simp
qed simp

lemma dump_children_text:
  assumes "dump_children show_float gs sz 0 indent out = Some t" and "\<forall>g \<in> set gs. plain_child g"
  shows "t = out @ lines_text (concat (map (child_lines show_float indent) gs))"
  using assms
proof (induction gs arbitrary: out)
  case (Cons g gs)
  obtain n ct where g: "g = Group (Some n) ct []" using Cons.prems(2) by (cases g) (auto simp: plain_child_def)
  define u where "u = clog_config_dump_group_internal show_float g (sz - length out) 1 indent"
  define i where "i = clog_config_dump_set_indent (sz - length out) 1 indent"
  have u: "u \<noteq> []" and rest: "dump_children show_float gs sz 0 indent (out @ u) = Some t"
    using Cons.prems(1) by (auto simp: Let_def u_def split: if_splits)
  have i: "i \<noteq> [] \<or> indent = None" and
    content: "dump_content show_float ct (sz - length out) 1 indent (i @ dump_name (Some n)) = Some u"
    using u unfolding u_def g by (auto simp: Let_def i_def split: if_splits option.splits)
  have "u = lines_text (child_lines show_float indent g)"
    using dump_content_text [OF content] set_indent_text i
    by (simp add: i_def child_lines_def g name_line_def dump_name_def numeral_2_eq_2)
  then show ?case using Cons.IH [OF rest] Cons.prems(2) by simp
qed simp

definition plain_tree :: "'f config_group \<Rightarrow> bool" where
  "plain_tree g \<longleftrightarrow> group_name g = None \<and> distinct (map item_key (group_content g)) \<and>
     (\<forall>it \<in> set (group_content g). plain_item it) \<and> wf_names (map group_name (group_children g)) \<and>
     (\<forall>c \<in> set (group_children g). plain_child c)"

definition reverse_items :: "'f config_group \<Rightarrow> 'f config_group" where
  "reverse_items g =
     Group (group_name g) (rev (group_content g)) (map rev_content (group_children g))"

lemma dump_tree_text:
  assumes "clog_config_dump_group show_float (Some g) True sz indent = (True, t)" and "plain_tree g"
  shows "t = lines_text (map (item_line show_float indent 1) (group_content g) @
    concat (map (child_lines show_float indent) (group_children g)))"
proof -
  obtain ct ch where g: "g = Group None ct ch" using assms(2) by (cases g) (auto simp: plain_tree_def)
  have i: "clog_config_dump_set_indent sz 0 indent = []"
    by (auto simp: clog_config_dump_set_indent_def split: option.splits)
  obtain u where u: "dump_content show_float ct sz 0 indent [] = Some u"
    "dump_children show_float ch sz 0 indent u = Some t"
    using assms(1) by (auto simp: clog_config_dump_group_def g i Let_def dump_name_def
        split: option.splits if_splits)
  show ?thesis
    using dump_content_text [OF u(1)] dump_children_text [OF u(2)] assms(2)
    by (simp add: g plain_tree_def)
qed

lemma dump_parse:
  fixes strtod :: "string \<Rightarrow> 'f option" and m :: "'m mem_scheme"
  assumes dump: "clog_config_dump_group show_float (Some g) True sz indent = (True, t)"
    and "plain_tree g" and "blank_indent indent" and "all_granted m"
  shows "fst (clog_config_parse strtod (Some t) m) = Returns (reverse_items g)"
proof -
  define l1 where "l1 = map (item_line show_float indent 1) (group_content g)"
  define l2 where "l2 = concat (map (child_lines show_float indent) (group_children g))"
  define r where "r = length (lines_text l1)"
  have t: "t = lines_text l1 @ lines_text l2"
    using dump_tree_text [OF assms(1,2)] by (simp add: l1_def l2_def)
  have o: "occurs t 0 (lines_text l1)" "occurs t r (lines_text l2)"
    using occurs_mid [of "[]" "lines_text l1" "lines_text l2"]
      occurs_mid [of "lines_text l1" "lines_text l2" "[]"] by (simp_all add: t r_def)
  have q: "length t = r + length (lines_text l2)" by (simp add: t r_def)
  have end_char: "char_at t (length t) \<notin> {NL, CR}" "char_at t (length t) = NUL"
    by (simp_all add: char_at_def char_consts)
  have "\<forall>l \<in> set l2. l \<noteq> [] \<and> (\<forall>c \<in> set l. line_char c)"
    using assms(2) child_lines_ok [OF _ assms(3)] by (auto simp: l2_def plain_tree_def)
  then have nc: "char_at t r \<notin> {NL, CR}"
    using next_char_lines [OF o(2)] end_char(1) q by auto
  obtain m1 where m1: "clog_config_create_empty_group m = (Some (Group None [] [] :: 'f config_group), m1)"
    "all_granted m1"
    using malloc_all_granted [OF assms(4), of sizeof_group]
    by (metis (no_types, lifting) clog_config_create_empty_group_def old.prod.case bool.case(1)
        sizeof_group_def zero_less_numeral)
  obtain m2 where m2: "parse_lines strtod t 0 (Group None [] []) [] m1 =
      parse_lines strtod t r (Group None (rev (group_content g)) []) [] m2" "all_granted m2"
    using parse_content [of "group_content g" "[]" t 0 show_float indent 1 r m1 "[]"
        "Group None [] []" None "[]" strtod] assms(2,3) o(1) nc m1(2)
    by (auto simp: plain_tree_def l1_def r_def)
  obtain m3 current' where m3: "parse_lines strtod t r (Group None (rev (group_content g)) []) [] m2 =
      parse_lines strtod t (length t) (Group None (rev (group_content g)) (map rev_content (group_children g))) current' m3"
    using parse_children [of "group_children g" "[]" t r show_float indent "length t" m2 strtod None
        "rev (group_content g)" "[]"] assms(2,3) o(2) q end_char(1) m2(2)
    by (auto simp: plain_tree_def l2_def)
  have "parse_lines strtod t (length t) root cur h = (Returns root, h)"
    for root cur and h :: "'m mem_scheme"
    using end_char(2) by (subst parse_lines.simps) simp
  then show ?thesis
    using m1(1) m2(1) m3 assms(2) by (simp add: clog_config_parse_def reverse_items_def plain_tree_def)
qed


definition ex_dumped :: "nat config_group" where
  "ex_dumped = Group None [Item (Some ''a'') (V_UINT 12)]
     [Group (Some ''G'')
        [Item (Some ''x'') (V_ARRAY [Item None (V_STRING ''s,t''), Item None (V_BOOL True)]),
         Item (Some ''y'') (V_UINT 0)] []]"

definition ex_indent :: "string option" where "ex_indent = Some ''  ''"

lemma ex_dump:
  "fst (clog_config_dump_group (\<lambda>_. ''0.0'') (Some ex_dumped) True 100 ex_indent)"
  by code_simp

lemma plain_ex: "plain_tree ex_dumped" "blank_indent ex_indent"
  by (auto simp: plain_tree_def ex_dumped_def plain_item_def key_ok_def wf_names_def name_ok_def
      clog_config_is_valid_name_char_def char_in_def plain_child_def plain_char_def char_consts
      blank_indent_def ex_indent_def is_blank_def)


subsection \<open>What the parser makes of some files\<close>

text \<open>
  A sign with nothing behind it computes with the null pointer; an empty hexadecimal number at
  the end of the file makes the parser read beyond the terminator.
\<close>

lemma ex_dangling_sign: "fst (clog_config_parse ex_strtod (Some ''a = +'') mem_ok) = Undefined"
  by code_simp

lemma ex_empty_hex: "fst (clog_config_parse ex_strtod (Some ''a = 0x'') mem_ok) = Undefined"
  by code_simp

text \<open>Without a space after the comma the digit behind it is passed over.\<close>

lemma ex_array_no_space:
  "fst (clog_config_parse ex_strtod (Some ''a = [1,2]'') mem_ok) =
   Returns (Group None [Item (Some ''a'') (V_ARRAY [Item None (V_UINT 1)])] [])"
  by code_simp

text \<open>A negative number has the tag of an unsigned one; 64 bit wrap-around goes unnoticed.\<close>

lemma ex_negative:
  "fst (clog_config_parse ex_strtod (Some ''a = -5'') mem_ok) =
   Returns (Group None [Item (Some ''a'') (V_UINT 4294967291)] [])"
  by code_simp

lemma ex_wrap:
  "fst (clog_config_parse ex_strtod (Some ''a = 18446744073709551617'') mem_ok) =
   Returns (Group None [Item (Some ''a'') (V_UINT 1)] [])"
  by code_simp

text \<open>An array of a floating point number does not parse: the number takes the bracket too.\<close>

lemma ex_float_array: "fst (clog_config_parse ex_strtod (Some ''a = [1.5]'') mem_ok) = Returns_NULL"
  by code_simp

text \<open>
  Group lines: a second group followed by a space is refused, a name that is a prefix of an
  earlier one opens the earlier group, and the letter after a space disappears.
\<close>

lemma ex_group_space:
  "fst (clog_config_parse ex_strtod (Some (''[a]'' @ [NL] @ ''[b ]'')) mem_ok) = Returns_NULL"
  by code_simp

lemma ex_group_prefix:
  "fst (clog_config_parse ex_strtod (Some (''[abc]'' @ [NL] @ ''[ab]'')) mem_ok) =
   Returns (Group None [] [Group (Some ''abc'') [] []])"
  by code_simp

lemma ex_group_swallow:
  "fst (clog_config_parse ex_strtod (Some ''[a bc]'') mem_ok) =
   Returns (Group None [] [Group (Some ''a'') [] [Group (Some ''c'') [] []]])"
  by code_simp

end
