(* ===== verification/Datetime.thy ===== *)
theory Datetime
  imports Base
begin

text \<open>
  Dates and timestamps (clog_datetime.c), on the platforms with \<open>gettimeofday\<close>. The clock and
  \<open>localtime_r\<close> are the operating system's: what they return is a parameter. Fields keep their
  widths; the day count and the timestamp are 64 bit numbers that wrap. Months outside 1 to 12
  index the table of month lengths out of range, which is \<open>None\<close>.
\<close>

record clog_datetime =
  dt_year :: "16 word"
  dt_month :: "8 word"
  dt_day :: "8 word"
  dt_hour :: "8 word"
  dt_minute :: "8 word"
  dt_second :: "8 word"
  dt_millisecond :: "16 word"

text \<open>\<open>struct tm\<close> and \<open>struct timeval\<close>, as far as they are used.\<close>

record tm_info =
  tm_year :: int
  tm_mon :: int
  tm_mday :: int
  tm_hour :: int
  tm_min :: int
  tm_sec :: int

definition clog_datetime_now :: "int \<Rightarrow> tm_info \<Rightarrow> clog_datetime" where
  "clog_datetime_now tv_usec tm =
     \<lparr>dt_year = of_int (tm_year tm + 1900), dt_month = of_int (tm_mon tm + 1),
      dt_day = of_int (tm_mday tm), dt_hour = of_int (tm_hour tm), dt_minute = of_int (tm_min tm),
      dt_second = of_int (tm_sec tm), dt_millisecond = of_int (tv_usec div 1000)\<rparr>"

definition clog_timestamp_ms :: "int \<Rightarrow> int \<Rightarrow> 64 word" where
  "clog_timestamp_ms tv_sec tv_usec = of_int tv_sec * 1000 + of_int tv_usec div 1000"

definition clog_datetime_is_leap_year :: "nat \<Rightarrow> bool" where
  "clog_datetime_is_leap_year year \<longleftrightarrow>
     (year mod 4 = 0 \<and> year mod 100 \<noteq> 0) \<or> year mod 400 = 0"

definition month_days :: "nat list" where
  "month_days = [31, 28, 31, 30, 31, 30, 31, 31, 30, 31, 30, 31]"

definition clog_datetime_days_in_month :: "nat \<Rightarrow> nat \<Rightarrow> nat option" where
  "clog_datetime_days_in_month year month =
     (if month = 2 \<and> clog_datetime_is_leap_year year then Some 29
      else if month = 0 \<or> 12 < month then None else Some (month_days ! (month - 1)))"

function year_loop :: "nat \<Rightarrow> nat \<Rightarrow> 64 word \<Rightarrow> 64 word" where
  "year_loop y year total_days =
     (if y < year then
        year_loop (y + 1) year (total_days + (if clog_datetime_is_leap_year y then 366 else 365))
      else total_days)"
  by pat_completeness auto
termination by (relation "measure (\<lambda>(y, year, total_days). year - y)") auto

function month_loop :: "nat \<Rightarrow> nat \<Rightarrow> nat \<Rightarrow> 64 word \<Rightarrow> 64 word option" where
  "month_loop m year month total_days =
     (if m < month then
        (case clog_datetime_days_in_month year m of
           None \<Rightarrow> None
         | Some days \<Rightarrow> month_loop (m + 1) year month (total_days + of_nat days))
      else Some total_days)"
  by pat_completeness auto
termination by (relation "measure (\<lambda>(m, year, month, total_days). month - m)") auto

declare year_loop.simps [simp del] month_loop.simps [simp del]

definition clog_timestamp_of_datetime :: "clog_datetime option \<Rightarrow> int \<Rightarrow> int \<Rightarrow> 64 word option" where
  "clog_timestamp_of_datetime datetime tz_hour tz_minute = (case datetime of
      None \<Rightarrow> Some 0
    | Some dt \<Rightarrow>
        (case month_loop 1 (unat (dt_year dt)) (unat (dt_month dt))
                (year_loop 1970 (unat (dt_year dt)) 0) of
           None \<Rightarrow> None
         | Some total_days \<Rightarrow>
             let total_days = total_days + of_int (uint (dt_day dt) - 1);
                 ts = total_days * 86400000;
                 ts = ts + of_int (uint (dt_hour dt) * 3600000);
                 ts = ts - of_int (tz_hour * 3600000);
                 ts = ts + of_int (uint (dt_minute dt) * 60000);
                 ts = ts - of_int (tz_minute * 60000);
                 ts = ts + of_int (uint (dt_second dt) * 1000)
             in Some (ts + of_int (uint (dt_millisecond dt)))))"

subsection \<open>The calendar\<close>

text \<open>
  The reference: the number of a day in the Gregorian calendar by the closed formula, counted
  from 1970-01-01, and milliseconds as integers.
\<close>

definition leap_years_before :: "nat \<Rightarrow> nat" where
  "leap_years_before y = (y - 1) div 4 + (y - 1) div 400 - (y - 1) div 100"

definition days_before_month :: "nat \<Rightarrow> nat \<Rightarrow> nat" where
  "days_before_month y m =
     [0, 31, 59, 90, 120, 151, 181, 212, 243, 273, 304, 334] ! (m - 1) +
     (if 2 < m \<and> clog_datetime_is_leap_year y then 1 else 0)"

definition day_number :: "nat \<Rightarrow> nat \<Rightarrow> nat \<Rightarrow> nat" where
  "day_number y m d =
     365 * (y - 1970) + (leap_years_before y - leap_years_before 1970) + days_before_month y m + (d - 1)"

definition valid_datetime :: "clog_datetime \<Rightarrow> bool" where
  "valid_datetime dt \<longleftrightarrow> 1970 \<le> unat (dt_year dt) \<and>
     (\<exists>n. clog_datetime_days_in_month (unat (dt_year dt)) (unat (dt_month dt)) = Some n \<and>
          1 \<le> unat (dt_day dt) \<and> unat (dt_day dt) \<le> n) \<and>
     unat (dt_hour dt) < 24 \<and> unat (dt_minute dt) < 60 \<and> unat (dt_second dt) < 60 \<and>
     unat (dt_millisecond dt) < 1000"

definition local_ms :: "clog_datetime \<Rightarrow> nat" where
  "local_ms dt =
     (((day_number (unat (dt_year dt)) (unat (dt_month dt)) (unat (dt_day dt)) * 24 +
        unat (dt_hour dt)) * 60 + unat (dt_minute dt)) * 60 + unat (dt_second dt)) * 1000 +
     unat (dt_millisecond dt)"

lemma leap_step:
  assumes "1 \<le> y"
  shows "leap_years_before (y + 1) = leap_years_before y + (if clog_datetime_is_leap_year y then 1 else 0)"
proof -
  have div: "y div k = (y - 1) div k + (if y mod k = 0 then 1 else 0)" if "0 < k" for k
    using assms that by (cases y) (auto simp: div_Suc mod_Suc split: if_splits)
  define a b c where "a = (y - 1) div 4" and "b = (y - 1) div 100" and "c = (y - 1) div 400"
  define P Q R where "P = (y mod 4 = 0)" and "Q = (y mod 100 = 0)" and "R = (y mod 400 = 0)"
  have "b \<le> a" unfolding a_def b_def by (rule div_le_mono2) simp_all
  moreover have "R \<Longrightarrow> Q" "Q \<Longrightarrow> P"
    unfolding P_def Q_def R_def
    by (auto simp: mod_eq_0_iff_dvd dest: dvd_trans [of 100 400 y, simplified] dvd_trans [of 4 100 y, simplified])
  moreover have "leap_years_before (y + 1) =
      (a + (if P then 1 else 0)) + (c + (if R then 1 else 0)) - (b + (if Q then 1 else 0))"
    using div [of 4] div [of 100] div [of 400]
    by (simp only: leap_years_before_def add_diff_cancel_right' a_def b_def c_def P_def Q_def R_def
        zero_less_numeral)
  moreover have "leap_years_before y = a + c - b"
    by (simp only: leap_years_before_def a_def b_def c_def)
  moreover have "clog_datetime_is_leap_year y \<longleftrightarrow> (P \<and> \<not> Q) \<or> R"
    by (simp only: clog_datetime_is_leap_year_def P_def Q_def R_def)
  ultimately show ?thesis by (cases P; cases Q; cases R) simp_all
qed

lemma leap_mono: "1 \<le> a \<Longrightarrow> leap_years_before a \<le> leap_years_before (a + k)"
  by (induction k) (use leap_step in \<open>fastforce+\<close>)

lemma year_loop_days:
  assumes "1970 \<le> y" and "y \<le> year"
  shows "year_loop y year t =
    t + of_nat (365 * (year - y) + (leap_years_before year - leap_years_before y))"
  using assms(2,1)
proof (induction arbitrary: t rule: inc_induct)
  case base
  then show ?case by (subst year_loop.simps) simp
next
  case (step n)
  have le: "leap_years_before (n + 1) \<le> leap_years_before year"
    using leap_mono [of "n + 1" "year - (n + 1)"] step by simp
  have "year_loop n year t = year_loop (Suc n) year (t + (if clog_datetime_is_leap_year n then 366 else 365))"
    using step by (subst year_loop.simps) simp
  also have "\<dots> = t + (if clog_datetime_is_leap_year n then 366 else 365) +
      of_nat (365 * (year - Suc n) + (leap_years_before year - leap_years_before (Suc n)))"
    using step by simp
  also have "\<dots> = t + of_nat ((if clog_datetime_is_leap_year n then 366 else 365) +
      (365 * (year - Suc n) + (leap_years_before year - leap_years_before (Suc n))))"
    by simp
  also have "(if clog_datetime_is_leap_year n then 366 else 365) +
      (365 * (year - Suc n) + (leap_years_before year - leap_years_before (Suc n))) =
      365 * (year - n) + (leap_years_before year - leap_years_before n)"
    using leap_step [of n] le step.hyps step.prems by auto
  finally show ?case .
qed

lemma months: "1 \<le> m \<Longrightarrow> m \<le> 12 \<Longrightarrow> m \<in> {1, 2, 3, 4, 5, 6, 7, 8, 9, 10, 11, 12 :: nat}"
  unfolding insert_iff empty_iff by presburger

lemma days_before_step:
  assumes "1 \<le> m" and "m < 12"
  shows "\<exists>n. clog_datetime_days_in_month y m = Some n \<and>
    days_before_month y (m + 1) = days_before_month y m + n"
  using months [of m] assms
  by (auto simp: clog_datetime_days_in_month_def days_before_month_def month_days_def)

lemma month_loop_days:
  assumes "1 \<le> m" and "m \<le> month" and "month \<le> 12"
  shows "month_loop m y month t =
    Some (t + of_nat (days_before_month y month - days_before_month y m)) \<and>
    days_before_month y m \<le> days_before_month y month"
  using assms(2,1)
proof (induction arbitrary: t rule: inc_induct)
  case base
  then show ?case by (subst month_loop.simps) simp
next
  case (step n)
  obtain k where k: "clog_datetime_days_in_month y n = Some k"
    "days_before_month y (n + 1) = days_before_month y n + k"
    using days_before_step [of n y] step assms(3) by auto
  have "month_loop n y month t = month_loop (Suc n) y month (t + of_nat k)"
    using step k(1) by (subst month_loop.simps) simp
  also have "\<dots> = Some (t + of_nat k + of_nat (days_before_month y month - days_before_month y (Suc n)))"
    using step by simp
  also have "\<dots> = Some (t + of_nat (k + (days_before_month y month - days_before_month y (Suc n))))"
    by simp
  also have "k + (days_before_month y month - days_before_month y (Suc n)) =
      days_before_month y month - days_before_month y n"
    using k(2) step by simp
  moreover have "days_before_month y (Suc n) \<le> days_before_month y month" using step by simp
  ultimately show ?case using k(2) by simp
qed

lemma valid_month: "clog_datetime_days_in_month y m = Some n \<Longrightarrow> 1 \<le> m \<and> m \<le> 12"
  by (auto simp: clog_datetime_days_in_month_def split: if_splits)

lemma timestamp_eq:
  assumes "valid_datetime dt"
  shows "clog_timestamp_of_datetime (Some dt) tz_hour tz_minute =
    Some (of_int (int (local_ms dt) - (tz_hour * 60 + tz_minute) * 60000))"
proof -
  define y where "y = unat (dt_year dt)"
  define m where "m = unat (dt_month dt)"
  define d where "d = unat (dt_day dt)"
  have v: "1970 \<le> y" "1 \<le> m" "m \<le> 12" "1 \<le> d"
    using assms valid_month unfolding y_def m_def d_def by (auto simp: valid_datetime_def)
  define days where "days = 365 * (y - 1970) + (leap_years_before y - leap_years_before 1970) + days_before_month y m"
  have "days_before_month y 1 = 0" by (simp add: days_before_month_def)
  then have loops: "month_loop 1 y m (year_loop 1970 y 0) = Some (of_nat days)"
    using month_loop_days [of 1 m y] v year_loop_days [of 1970 y 0] by (simp add: days_def)
  have day: "int (day_number y m d) = int days + (int d - 1)"
    using v by (simp add: day_number_def days_def)
  have uints: "uint (dt_day dt) = int d" by (simp add: d_def)
  show ?thesis
    using loops
    unfolding clog_timestamp_of_datetime_def option.case local_ms_def y_def [symmetric]
      m_def [symmetric] d_def [symmetric] Let_def uints
    by (simp add: algebra_simps day flip: uint_nat)
qed

text \<open>The reference is strictly increasing in the order of dates.\<close>

lemma day_lt_month:
  "clog_datetime_days_in_month y m = Some n \<Longrightarrow> d \<le> n \<Longrightarrow> m < m' \<Longrightarrow> m' \<le> 12 \<Longrightarrow>
   days_before_month y m + d \<le> days_before_month y m'"
proof -
  assume n: "clog_datetime_days_in_month y m = Some n" and d: "d \<le> n" and m: "m < m'" "m' \<le> 12"
  obtain k where "clog_datetime_days_in_month y m = Some k"
    "days_before_month y (m + 1) = days_before_month y m + k"
    using days_before_step [of m y] valid_month [OF n] m by auto
  moreover have "days_before_month y (m + 1) \<le> days_before_month y m'"
    using month_loop_days [of "m + 1" m' y 0] valid_month [OF n] m by simp
  ultimately show ?thesis using n d by simp
qed

lemma days_in_year:
  "clog_datetime_days_in_month y m = Some n \<Longrightarrow> d \<le> n \<Longrightarrow>
   days_before_month y m + d \<le> (if clog_datetime_is_leap_year y then 366 else 365)"
  using months [of m] valid_month [of y m n]
  by (auto simp: clog_datetime_days_in_month_def days_before_month_def month_days_def split: if_splits)

lemma day_number_mono:
  assumes a: "clog_datetime_days_in_month y m = Some n" "1 \<le> d" "d \<le> n"
    and b: "clog_datetime_days_in_month y' m' = Some n'" "1 \<le> d'" "d' \<le> n'"
    and "1970 \<le> y" and "y < y' \<or> (y = y' \<and> (m < m' \<or> (m = m' \<and> d < d')))"
  shows "day_number y m d < day_number y' m' d'"
proof -
  consider "y < y'" | "y = y'" "m < m'" | "y = y'" "m = m'" "d < d'" using assms(8) by blast
  then show ?thesis
  proof cases
    case 1
    have "leap_years_before (y + 1) \<le> leap_years_before y'"
      using leap_mono [of "y + 1" "y' - (y + 1)"] 1 by simp
    moreover have "leap_years_before 1970 \<le> leap_years_before y"
      using leap_mono [of 1970 "y - 1970"] assms(7) by simp
    ultimately show ?thesis
      using days_in_year [OF a(1,3)] leap_step [of y] assms(2,5,7) 1
      by (auto simp: day_number_def split: if_splits)
  next
    case 2
    then show ?thesis
      using day_lt_month [OF a(1,3), of m'] valid_month [OF b(1)] a(2) by (simp add: day_number_def)
  next
    case 3
    then show ?thesis using a(2) by (simp add: day_number_def)
  qed
qed

definition date_before :: "clog_datetime \<Rightarrow> clog_datetime \<Rightarrow> bool" where
  "date_before a b \<longleftrightarrow> dt_year a < dt_year b \<or> (dt_year a = dt_year b \<and>
     (dt_month a < dt_month b \<or> (dt_month a = dt_month b \<and> dt_day a < dt_day b)))"

lemma local_ms_mono:
  assumes "valid_datetime a" and "valid_datetime b" and "date_before a b"
  shows "local_ms a < local_ms b"
proof -
  have "day_number (unat (dt_year a)) (unat (dt_month a)) (unat (dt_day a)) <
      day_number (unat (dt_year b)) (unat (dt_month b)) (unat (dt_day b))"
    using assms day_number_mono
    by (auto simp: valid_datetime_def date_before_def word_less_nat_alt)
  then show ?thesis using assms(1,2) by (simp add: local_ms_def valid_datetime_def)
qed

lemma local_ms_bound:
  assumes "valid_datetime dt"
  shows "local_ms dt < 2 ^ 63"
proof -
  define y m d where "y = unat (dt_year dt)" and "m = unat (dt_month dt)" and "d = unat (dt_day dt)"
  have y: "y < 65536" unfolding y_def using unsigned_less [of "dt_year dt"] by simp
  have "leap_years_before y \<le> 2 * y"
    using div_le_dividend [of "y - 1" 4] div_le_dividend [of "y - 1" 400]
    unfolding leap_years_before_def by linarith
  moreover obtain n where n: "clog_datetime_days_in_month y m = Some n" "d \<le> n"
    using assms by (auto simp: valid_datetime_def y_def m_def d_def)
  moreover have "days_before_month y m + d \<le> 366" using days_in_year [OF n] by (simp split: if_splits)
  ultimately have "day_number y m d < 365 * 65536 + 2 * 65536 + 366"
    using y unfolding day_number_def by linarith
  then show ?thesis using assms by (simp add: local_ms_def valid_datetime_def y_def m_def d_def)
qed

text \<open>
  C36. For a valid date and a time zone of less than a day, the timestamp is the number of
  milliseconds of the Gregorian calendar since the epoch, less the offset of the zone; the day
  and month loops and the arithmetic modulo 2 to the 64 never get it wrong when that number is not
  negative. A later date has a later timestamp in the same zone.
\<close>

theorem timestamp_is_calendar_time:
  assumes "valid_datetime dt" and "\<bar>tz_hour * 60 + tz_minute\<bar> < 1440"
    and "(tz_hour * 60 + tz_minute) * 60000 \<le> int (local_ms dt)"
  shows "\<exists>ts. clog_timestamp_of_datetime (Some dt) tz_hour tz_minute = Some ts \<and>
      uint ts = int (local_ms dt) - (tz_hour * 60 + tz_minute) * 60000 \<and>
      (\<forall>dt' ts'. valid_datetime dt' \<and> date_before dt dt' \<and>
         clog_timestamp_of_datetime (Some dt') tz_hour tz_minute = Some ts' \<longrightarrow> ts < ts')"
proof -
  define off where "off = (tz_hour * 60 + tz_minute) * 60000"
  have off: "\<bar>off\<bar> < 86400000" using assms(2) by (simp add: off_def abs_mult)
  have range: "uint (of_int (int (local_ms x) - off) :: 64 word) = int (local_ms x) - off"
    if "valid_datetime x" "off \<le> int (local_ms x)" for x
    using that local_ms_bound [of x] off by (simp add: word_of_int_inverse uint_word_of_int)
  show ?thesis
  proof (intro exI conjI allI impI)
    show "clog_timestamp_of_datetime (Some dt) tz_hour tz_minute =
        Some (of_int (int (local_ms dt) - off))"
      using timestamp_eq [OF assms(1)] by (simp add: off_def)
    show "uint (of_int (int (local_ms dt) - off) :: 64 word) =
        int (local_ms dt) - (tz_hour * 60 + tz_minute) * 60000"
      using range assms(1,3) by (simp add: off_def)
  next
    fix dt' ts'
    assume d: "valid_datetime dt' \<and> date_before dt dt' \<and>
      clog_timestamp_of_datetime (Some dt') tz_hour tz_minute = Some ts'"
    then have lt: "local_ms dt < local_ms dt'" using local_ms_mono assms(1) by blast
    have "ts' = of_int (int (local_ms dt') - off)"
      using timestamp_eq [of dt' tz_hour tz_minute] d by (simp add: off_def)
    then show "(of_int (int (local_ms dt) - off) :: 64 word) < ts'"
      using range [of dt] range [of dt'] assms(1,3) d lt by (simp add: word_less_def off_def)
  qed
qed

definition ex_date :: clog_datetime where
  "ex_date = \<lparr>dt_year = 2024, dt_month = 3, dt_day = 1, dt_hour = 8, dt_minute = 0, dt_second = 0,
     dt_millisecond = 5\<rparr>"

lemma timestamp_is_calendar_time_witness:
  "clog_timestamp_of_datetime (Some ex_date) 8 0 = Some 1709251200005"
proof -
  have "clog_datetime_days_in_month 2024 3 = Some 31"
    by (simp add: clog_datetime_days_in_month_def month_days_def)
  then have "valid_datetime ex_date" by (simp add: valid_datetime_def ex_date_def)
  moreover have ms: "local_ms ex_date = 1709280000005"
    by (simp add: local_ms_def ex_date_def day_number_def leap_years_before_def days_before_month_def
        clog_datetime_is_leap_year_def)
  ultimately obtain ts where ts: "clog_timestamp_of_datetime (Some ex_date) 8 0 = Some ts"
    "uint ts = 1709280000005 - 480 * 60000"
    using timestamp_is_calendar_time [of ex_date 8 0] by auto
  then have "uint ts = uint (1709251200005 :: 64 word)" by simp
  then show ?thesis using ts(1) word_uint_eqI by metis
qed

end
