(* ===== verification/Buffer_Pool.thy ===== *)
theory Buffer_Pool
  imports Base
begin

text \<open>
  The buffer pool (clog_buffer_pool.c) that hands out memory for log items: a free list of
  buffers linked through their headers, counters, and a fall back on the allocator.

  Heap. A block of the heap is a \<open>Buffer\<close>, the header and the entry behind it, or \<open>Plain\<close>,
  an entry of its own that no pool knows (the core allocates such items when it has no pool). An
  entry pointer is the address of its block. Reading the header of a \<open>Plain\<close> block or of no
  block is \<open>None\<close>. \<open>junk\<close> is the content of newly allocated memory. The pool's own block is
  counted; after it has been freed the pool is \<open>None\<close>. Counters have the 64 bits of
  \<open>uintptr_t\<close>.

  The operations are those of one thread at a time: a compare and swap succeeds. The section at
  the end takes the two steps of an acquisition apart and shows what two threads can do to each
  other.
\<close>

datatype buffer_type = CLOG_BUFFER_TYPE_POOL | CLOG_BUFFER_TYPE_TMP

datatype 'e block = Buffer (buf_next: addr) (buf_type: buffer_type) (block_entry: 'e) | Plain (block_entry: 'e)

definition CLOG_BUFFER_POOL_STATE_DISABLED :: nat where "CLOG_BUFFER_POOL_STATE_DISABLED = 0"
definition CLOG_BUFFER_POOL_STATE_RUNNING :: nat where "CLOG_BUFFER_POOL_STATE_RUNNING = 1"
definition CLOG_BUFFER_POOL_STATE_EXPANDING :: nat where "CLOG_BUFFER_POOL_STATE_EXPANDING = 2"
definition CLOG_BUFFER_POOL_STATE_FINALIZING :: nat where "CLOG_BUFFER_POOL_STATE_FINALIZING = 3"

lemmas pool_states = CLOG_BUFFER_POOL_STATE_DISABLED_def CLOG_BUFFER_POOL_STATE_RUNNING_def
  CLOG_BUFFER_POOL_STATE_EXPANDING_def CLOG_BUFFER_POOL_STATE_FINALIZING_def

record clog_buffer_pool =
  pl_head :: addr
  pl_state :: nat
  pl_free_count :: "64 word"
  pl_capacity :: "64 word"
  pl_init_capacity :: "64 word"
  pl_threshold :: "64 word"
  pl_auto_manager :: bool
  pl_item_size :: nat

definition clog_buffer_pool_malloc_single ::
    "'e \<Rightarrow> buffer_type \<Rightarrow> 'e block heap \<Rightarrow> addr \<times> 'e block heap" where
  "clog_buffer_pool_malloc_single junk t h = halloc (Buffer NULL t junk) h"

text \<open>
  The loops that walk along \<open>next\<close>: the release after a refused allocation and the one in
  finalize, which counts what it frees. A chain has no more members than there are addresses
  below \<open>brk\<close>, which bounds the walk; a longer one would be a cycle through freed blocks.
\<close>

fun free_chain :: "nat \<Rightarrow> addr \<Rightarrow> nat \<Rightarrow> 'e block heap \<Rightarrow> (nat \<times> 'e block heap) option" where
  "free_chain 0 a n h = (if a = NULL then Some (n, h) else None)"
| "free_chain (Suc fuel) a n h =
     (if a = NULL then Some (n, h)
      else case cells h a of
          Some (Buffer nxt t e) \<Rightarrow>
            (case hfree a h of None \<Rightarrow> None | Some h \<Rightarrow> free_chain fuel nxt (n + 1) h)
        | _ \<Rightarrow> None)"

definition set_next :: "addr \<Rightarrow> addr \<Rightarrow> 'e block heap \<Rightarrow> 'e block heap option" where
  "set_next a nxt h = (case cells h a of
      Some (Buffer n t e) \<Rightarrow> Some (h\<lparr>cells := (cells h)(a \<mapsto> Buffer nxt t e)\<rparr>)
    | _ \<Rightarrow> None)"

definition get_next :: "addr \<Rightarrow> 'e block heap \<Rightarrow> addr option" where
  "get_next a h = (case cells h a of Some (Buffer n t e) \<Rightarrow> Some n | _ \<Rightarrow> None)"

text \<open>\<open>k\<close> buffers are still to be allocated; a further one goes behind the head.\<close>

fun batch_loop :: "'e \<Rightarrow> nat \<Rightarrow> addr \<Rightarrow> 'e block heap \<Rightarrow> (addr \<times> 'e block heap) option" where
  "batch_loop junk 0 head h = Some (head, h)"
| "batch_loop junk (Suc k) head h =
     (case clog_buffer_pool_malloc_single junk CLOG_BUFFER_TYPE_POOL h of
        (buffer, h) \<Rightarrow>
          if buffer = NULL then
            (case free_chain (brk h) head 0 h of None \<Rightarrow> None | Some (_, h) \<Rightarrow> Some (NULL, h))
          else if head = NULL then batch_loop junk k buffer h
          else
            (case get_next head h of None \<Rightarrow> None
             | Some nxt \<Rightarrow>
                 (case set_next buffer nxt h of None \<Rightarrow> None
                  | Some h \<Rightarrow>
                      (case set_next head buffer h of None \<Rightarrow> None
                       | Some h \<Rightarrow> batch_loop junk k head h))))"

definition clog_buffer_pool_malloc_pool_batch ::
    "'e \<Rightarrow> nat \<Rightarrow> 'e block heap \<Rightarrow> (addr \<times> 'e block heap) option" where
  "clog_buffer_pool_malloc_pool_batch junk num h = batch_loop junk num NULL h"

definition clog_buffer_pool_get_state :: "clog_buffer_pool option \<Rightarrow> nat" where
  "clog_buffer_pool_get_state pool = (case pool of
      None \<Rightarrow> CLOG_BUFFER_POOL_STATE_DISABLED
    | Some p \<Rightarrow>
        if pl_state p \<le> CLOG_BUFFER_POOL_STATE_FINALIZING then pl_state p
        else CLOG_BUFFER_POOL_STATE_DISABLED)"

definition clog_buffer_pool_get_current_capacity :: "clog_buffer_pool option \<Rightarrow> 64 word" where
  "clog_buffer_pool_get_current_capacity pool = (case pool of
      None \<Rightarrow> 0
    | Some p \<Rightarrow> if pl_capacity p \<le> 0 then 0 else pl_capacity p)"

definition clog_buffer_pool_is_auto_manager :: "clog_buffer_pool option \<Rightarrow> bool" where
  "clog_buffer_pool_is_auto_manager pool = (case pool of None \<Rightarrow> False | Some p \<Rightarrow> pl_auto_manager p)"

text \<open>
  Finalize and release return the pool that is left, \<open>None\<close> once its block has been freed.
\<close>

definition clog_buffer_pool_finalize ::
    "clog_buffer_pool option \<Rightarrow> 'e block heap \<Rightarrow>
     (clog_res \<times> clog_buffer_pool option \<times> 'e block heap) option" where
  "clog_buffer_pool_finalize pool h = (case pool of
      None \<Rightarrow> Some (CLOG_INVALID_PARAM, None, h)
    | Some p \<Rightarrow>
        (case free_chain (brk h) (pl_head p) 0 h of
           None \<Rightarrow> None
         | Some (n, h) \<Rightarrow>
             let p = p\<lparr>pl_state := CLOG_BUFFER_POOL_STATE_FINALIZING, pl_head := NULL,
                       pl_free_count := pl_free_count p - of_nat n,
                       pl_capacity := pl_capacity p - of_nat n,
                       pl_init_capacity := 0, pl_auto_manager := False, pl_item_size := 0\<rparr>
             in if clog_buffer_pool_get_current_capacity (Some p) = 0
                then Some (CLOG_SUCCESS, None, clog_free h)
                else Some (CLOG_NOT_COMPLETED, Some p, h)))"

definition sizeof_pool :: nat where "sizeof_pool = 256"

definition clog_buffer_pool_initialize ::
    "'e \<Rightarrow> bool \<Rightarrow> nat \<Rightarrow> 64 word \<Rightarrow> bool \<Rightarrow> 8 word \<Rightarrow> 'e block heap \<Rightarrow>
     (clog_res \<times> clog_buffer_pool option \<times> 'e block heap) option" where
  "clog_buffer_pool_initialize junk has_pool item_size init_capacity auto_manager threshold h =
     (if \<not> has_pool then Some (CLOG_INVALID_PARAM, None, h)
      else if auto_manager \<and> (threshold = 0 \<or> 100 \<le> threshold) then Some (CLOG_INVALID_PARAM, None, h)
      else case clog_malloc sizeof_pool h of
          (False, h) \<Rightarrow> Some (CLOG_NO_MEMORY, None, h)
        | (True, h) \<Rightarrow>
            (let tmp = \<lparr>pl_head = NULL, pl_state = CLOG_BUFFER_POOL_STATE_RUNNING,
                        pl_free_count = init_capacity, pl_capacity = init_capacity,
                        pl_init_capacity = init_capacity, pl_threshold = ucast threshold,
                        pl_auto_manager = auto_manager, pl_item_size = item_size\<rparr>
             in case clog_buffer_pool_malloc_pool_batch junk (unat init_capacity) h of
                  None \<Rightarrow> None
                | Some (buffer, h) \<Rightarrow>
                    if buffer = NULL then
                      (case clog_buffer_pool_finalize (Some tmp) h of
                         None \<Rightarrow> None
                       | Some (_, _, h) \<Rightarrow> Some (CLOG_NO_MEMORY, None, h))
                    else Some (CLOG_SUCCESS, Some (tmp\<lparr>pl_head := buffer\<rparr>), h)))"

text \<open>The address of the buffer, NULL when there is none, the pool and the heap.\<close>

definition clog_buffer_pool_acquire ::
    "'e \<Rightarrow> clog_buffer_pool option \<Rightarrow> 'e block heap \<Rightarrow>
     (addr \<times> clog_buffer_pool option \<times> 'e block heap) option" where
  "clog_buffer_pool_acquire junk pool h = (case pool of
      None \<Rightarrow> Some (NULL, None, h)
    | Some p \<Rightarrow>
        if clog_buffer_pool_get_state pool \<noteq> CLOG_BUFFER_POOL_STATE_RUNNING then
          (let (tmp, h) = clog_buffer_pool_malloc_single junk CLOG_BUFFER_TYPE_TMP h in Some (tmp, pool, h))
        else if pl_head p \<noteq> NULL then
          (case get_next (pl_head p) h of
             None \<Rightarrow> None
           | Some new_head \<Rightarrow>
               (case set_next (pl_head p) NULL h of
                  None \<Rightarrow> None
                | Some h \<Rightarrow>
                    Some (pl_head p,
                      Some (p\<lparr>pl_head := new_head, pl_free_count := pl_free_count p - 1\<rparr>), h)))
        else if pl_auto_manager p then
          (let (buffer, h) = clog_buffer_pool_malloc_single junk CLOG_BUFFER_TYPE_POOL h in
           if buffer = NULL then Some (NULL, pool, h)
           else Some (buffer, Some (p\<lparr>pl_capacity := pl_capacity p + 1\<rparr>), h))
        else
          (let (buffer, h) = clog_buffer_pool_malloc_single junk CLOG_BUFFER_TYPE_TMP h in
           Some (buffer, pool, h)))"

definition push_buffer ::
    "addr \<Rightarrow> clog_buffer_pool \<Rightarrow> 'e block heap \<Rightarrow> (clog_buffer_pool option \<times> 'e block heap) option" where
  "push_buffer a p h = (case set_next a (pl_head p) h of
      None \<Rightarrow> None
    | Some h \<Rightarrow> Some (Some (p\<lparr>pl_head := a, pl_free_count := pl_free_count p + 1\<rparr>), h))"

definition free_buffer ::
    "addr \<Rightarrow> clog_buffer_pool option \<Rightarrow> 'e block heap \<Rightarrow> (clog_buffer_pool option \<times> 'e block heap) option" where
  "free_buffer a pool h = map_option (\<lambda>h. (pool, h)) (hfree a h)"

text \<open>The rate of line 174 divides by the capacity; a capacity of 0 is undefined.\<close>

definition clog_buffer_pool_release ::
    "clog_buffer_pool option \<Rightarrow> addr \<Rightarrow> 'e block heap \<Rightarrow>
     (clog_buffer_pool option \<times> 'e block heap) option" where
  "clog_buffer_pool_release pool a h =
     (if a = NULL then Some (None, h)
      else case cells h a of
          Some (Buffer nxt t e) \<Rightarrow>
            if t = CLOG_BUFFER_TYPE_TMP then free_buffer a pool h
            else (case pool of
                None \<Rightarrow> Some (None, h)
              | Some p \<Rightarrow>
                  if clog_buffer_pool_get_state pool = CLOG_BUFFER_POOL_STATE_FINALIZING then
                    (let p = p\<lparr>pl_capacity := pl_capacity p - 1\<rparr> in
                     case hfree a h of
                       None \<Rightarrow> None
                     | Some h \<Rightarrow>
                         if clog_buffer_pool_get_current_capacity (Some p) = 0
                         then Some (None, clog_free h) else Some (Some p, h))
                  else if \<not> pl_auto_manager p then push_buffer a p h
                  else if pl_capacity p = 0 then None
                  else if 100 - pl_free_count p * 100 div pl_capacity p > pl_threshold p \<or>
                          pl_capacity p = pl_init_capacity p
                  then push_buffer a p h
                  else free_buffer a (Some (p\<lparr>pl_capacity := pl_capacity p - 1\<rparr>)) h)
        | _ \<Rightarrow> None)"

subsection \<open>The invariant\<close>

text \<open>
  \<open>fs\<close> are the buffers of the free list and \<open>held\<close> those the clients hold; \<open>base\<close> is
  what was allocated before the pool.
\<close>

fun chain :: "(addr \<rightharpoonup> 'e block) \<Rightarrow> addr \<Rightarrow> addr list \<Rightarrow> bool" where
  "chain m a [] = (a = NULL)"
| "chain m a (x # xs) =
     (a = x \<and> a \<noteq> NULL \<and> (\<exists>n e. m x = Some (Buffer n CLOG_BUFFER_TYPE_POOL e) \<and> chain m n xs))"

lemma chain_cong: "(\<And>x. x \<in> set xs \<Longrightarrow> m x = m' x) \<Longrightarrow> chain m a xs = chain m' a xs"
  by (induction xs arbitrary: a) simp_all

lemma chain_upd [simp]: "a \<notin> set xs \<Longrightarrow> chain (m(a := x)) b xs = chain m b xs"
  by (intro chain_cong) auto

definition is_pooled :: "'e block heap \<Rightarrow> addr \<Rightarrow> bool" where
  "is_pooled h a \<longleftrightarrow> (case cells h a of Some (Buffer n t e) \<Rightarrow> t = CLOG_BUFFER_TYPE_POOL | _ \<Rightarrow> False)"

definition is_buffer :: "'e block heap \<Rightarrow> addr \<Rightarrow> bool" where
  "is_buffer h a \<longleftrightarrow> (case cells h a of Some (Buffer n t e) \<Rightarrow> True | _ \<Rightarrow> False)"

definition pool_inv ::
    "int \<Rightarrow> clog_buffer_pool \<Rightarrow> 'e block heap \<Rightarrow> addr list \<Rightarrow> addr list \<Rightarrow> bool" where
  "pool_inv base p h fs held \<longleftrightarrow> heap_ok h \<and> chain (cells h) (pl_head p) fs \<and> distinct (fs @ held) \<and>
     (\<forall>a \<in> set held. is_buffer h a) \<and> pl_state p = CLOG_BUFFER_POOL_STATE_RUNNING \<and>
     pl_free_count p = of_nat (length fs) \<and>
     pl_capacity p = of_nat (length fs + length (filter (is_pooled h) held)) \<and>
     live h = base + 1 + int (length fs + length held)"

lemma chain_cells: "chain m a xs \<Longrightarrow> x \<in> set xs \<Longrightarrow> x \<noteq> NULL \<and> (\<exists>n e. m x = Some (Buffer n CLOG_BUFFER_TYPE_POOL e))"
  by (induction xs arbitrary: a) auto

lemma is_buffer_cell: "is_buffer h a \<longleftrightarrow> (\<exists>n t e. cells h a = Some (Buffer n t e))"
  by (auto simp: is_buffer_def split: option.splits block.splits)

lemma held_facts:
  assumes "pool_inv base p h fs held" and "a \<in> set held"
  shows "a \<noteq> NULL" "a < brk h" "a \<notin> set fs"
proof -
  obtain n t e where "cells h a = Some (Buffer n t e)" "heap_ok h"
    using assms by (auto simp: pool_inv_def is_buffer_cell)
  then have "a \<in> dom (cells h)" by blast
  then show "a \<noteq> NULL" "a < brk h" using \<open>heap_ok h\<close> by (auto simp: heap_ok_def)
  show "a \<notin> set fs" using assms by (auto simp: pool_inv_def)
qed

lemma filter_pooled_cong:
  "(\<And>a. a \<in> set xs \<Longrightarrow> cells h a = cells h' a) \<Longrightarrow> filter (is_pooled h) xs = filter (is_pooled h') xs"
  by (rule filter_cong) (simp_all add: is_pooled_def)

text \<open>A new buffer for a client.\<close>

lemma malloc_single_inv:
  assumes inv: "pool_inv base p h fs held"
    and ms: "clog_buffer_pool_malloc_single junk t h = (a, h')"
  shows "(a = NULL \<and> pool_inv base p h' fs held \<and> (\<forall>b. cells h' b = cells h b)) \<or>
    (a \<noteq> NULL \<and> a \<notin> set held \<and> (\<forall>b \<in> set held. cells h' b = cells h b) \<and>
     pool_inv base (if t = CLOG_BUFFER_TYPE_POOL then p\<lparr>pl_capacity := pl_capacity p + 1\<rparr> else p)
       h' fs (a # held))"
proof -
  have ok: "heap_ok h'" using heap_ok_halloc inv ms
    by (auto simp: pool_inv_def clog_buffer_pool_malloc_single_def)
  from ms show ?thesis unfolding clog_buffer_pool_malloc_single_def
  proof (cases rule: halloc_cases)
    case fail
    then show ?thesis
      using inv ok filter_pooled_cong [of held h' h] chain_cong [of fs "cells h'" "cells h"]
      by (auto simp: pool_inv_def is_buffer_def)
  next
    case ok': ok
    have new: "b \<noteq> a" if "b \<in> set fs \<union> set held" for b
    proof -
      have "cells h b \<noteq> None"
        using inv that chain_cells [of "cells h" "pl_head p" fs b] by (auto simp: pool_inv_def is_buffer_cell)
      moreover have "cells h (brk h) = None" using inv by (simp add: pool_inv_def heap_ok_brk)
      ultimately show ?thesis using ok'(1) by metis
    qed
    have same: "cells h' b = cells h b" if "b \<in> set fs \<union> set held" for b
      using new that ok' by auto
    have "chain (cells h') (pl_head p) fs"
      using inv same chain_cong [of fs "cells h'" "cells h"] by (auto simp: pool_inv_def)
    moreover have "filter (is_pooled h') held = filter (is_pooled h) held"
      using same by (intro filter_pooled_cong) simp
    moreover have "\<forall>b \<in> set held. is_buffer h' b"
      using inv same by (simp add: pool_inv_def is_buffer_def)
    moreover have "is_buffer h' a" "is_pooled h' a \<longleftrightarrow> t = CLOG_BUFFER_TYPE_POOL"
      using ok' by (simp_all add: is_buffer_def is_pooled_def)
    moreover have "a \<noteq> NULL" using ok'(1) inv by (simp add: pool_inv_def heap_ok_def)
    ultimately show ?thesis
      using inv ok ok'(4) new same by (auto simp: pool_inv_def)
  qed
qed

lemma acquire_inv:
  assumes inv: "pool_inv base p h fs held"
  shows "\<exists>a p' h' fs'. clog_buffer_pool_acquire junk (Some p) h = Some (a, Some p', h') \<and>
    (\<forall>b \<in> set held. cells h' b = cells h b) \<and>
    ((a = NULL \<and> fs = [] \<and> pool_inv base p' h' fs' held \<and> length fs' = length fs) \<or>
     (a \<noteq> NULL \<and> a \<notin> set held \<and> pool_inv base p' h' fs' (a # held) \<and>
      length fs' + length (a # held) \<le> Suc (length fs + length held)))"
proof -
  have run: "clog_buffer_pool_get_state (Some p) = CLOG_BUFFER_POOL_STATE_RUNNING"
    using inv by (simp add: pool_inv_def clog_buffer_pool_get_state_def pool_states)
  show ?thesis
  proof (cases fs)
    case Nil
    then have head: "pl_head p = NULL" using inv by (simp add: pool_inv_def)
    obtain a h' where ms: "clog_buffer_pool_malloc_single junk
        (if pl_auto_manager p then CLOG_BUFFER_TYPE_POOL else CLOG_BUFFER_TYPE_TMP) h = (a, h')"
      by (metis surj_pair)
    show ?thesis
      using malloc_single_inv [OF inv ms] ms run head Nil
      by (cases "pl_auto_manager p") (auto simp: clog_buffer_pool_acquire_def)
  next
    case (Cons a fs')
    obtain n e where a: "pl_head p = a" "a \<noteq> NULL" "cells h a = Some (Buffer n CLOG_BUFFER_TYPE_POOL e)"
      "chain (cells h) n fs'"
      using inv Cons by (auto simp: pool_inv_def)
    define h' where "h' = h\<lparr>cells := (cells h)(a \<mapsto> Buffer NULL CLOG_BUFFER_TYPE_POOL e)\<rparr>"
    define p' where "p' = p\<lparr>pl_head := n, pl_free_count := pl_free_count p - 1\<rparr>"
    have dist: "a \<notin> set fs'" "a \<notin> set held" using inv Cons by (auto simp: pool_inv_def)
    have acq: "clog_buffer_pool_acquire junk (Some p) h = Some (a, Some p', h')"
      using a run by (simp add: clog_buffer_pool_acquire_def get_next_def set_next_def h'_def p'_def)
    have "chain (cells h') n fs'"
      using a(4) dist by (simp add: h'_def)
    moreover have "filter (is_pooled h') held = filter (is_pooled h) held"
      using dist by (intro filter_pooled_cong) (auto simp: h'_def)
    moreover have "\<forall>b \<in> set held. is_buffer h' b"
      using inv dist by (auto simp: pool_inv_def is_buffer_def h'_def)
    moreover have "is_buffer h' a" "is_pooled h' a" by (simp_all add: is_buffer_def is_pooled_def h'_def)
    moreover have "heap_ok h'" using inv a(3) by (auto simp: pool_inv_def heap_ok_def h'_def)
    ultimately have "pool_inv base p' h' fs' (a # held)"
      using inv Cons by (auto simp: pool_inv_def p'_def h'_def)
    then show ?thesis using acq dist a(2) Cons by (auto simp: h'_def)
  qed
qed

text \<open>Giving a buffer back: onto the free list, or to the allocator.\<close>

lemma filter_remove1_length:
  "a \<in> set xs \<Longrightarrow> distinct xs \<Longrightarrow>
   length (filter P (remove1 a xs)) + (if P a then 1 else 0) = length (filter P xs)"
  by (induction xs) auto

lemma push_inv:
  assumes inv: "pool_inv base p h fs held" and a: "a \<in> set held" and pooled: "is_pooled h a"
  shows "\<exists>p' h'. push_buffer a p h = Some (Some p', h') \<and> pool_inv base p' h' (a # fs) (remove1 a held) \<and>
    (\<forall>b \<in> set (remove1 a held). cells h' b = cells h b)"
proof -
  obtain n e where c: "cells h a = Some (Buffer n CLOG_BUFFER_TYPE_POOL e)"
    using pooled by (auto simp: is_pooled_def split: option.splits block.splits)
  note facts = held_facts [OF inv a]
  define h' where "h' = h\<lparr>cells := (cells h)(a \<mapsto> Buffer (pl_head p) CLOG_BUFFER_TYPE_POOL e)\<rparr>"
  define p' where "p' = p\<lparr>pl_head := a, pl_free_count := pl_free_count p + 1\<rparr>"
  have push: "push_buffer a p h = Some (Some p', h')"
    using c by (simp add: push_buffer_def set_next_def h'_def p'_def)
  have dist: "distinct held" "a \<notin> set (remove1 a held)" using inv by (auto simp: pool_inv_def)
  have same: "\<forall>b \<in> set (remove1 a held). cells h' b = cells h b" using dist by (auto simp: h'_def)
  then have filt: "filter (is_pooled h') (remove1 a held) = filter (is_pooled h) (remove1 a held)"
    by (intro filter_pooled_cong) simp
  have "length fs + length (filter (is_pooled h) held) =
      length (a # fs) + length (filter (is_pooled h') (remove1 a held))"
    using filter_remove1_length [OF a dist(1), of "is_pooled h"] pooled filt by simp
  moreover have "chain (cells h') (pl_head p') (a # fs)"
    using inv facts by (auto simp: pool_inv_def h'_def p'_def)
  moreover have "heap_ok h'" using inv c by (auto simp: pool_inv_def heap_ok_def h'_def)
  moreover have "\<forall>b \<in> set (remove1 a held). is_buffer h' b"
    using inv same by (auto simp: pool_inv_def is_buffer_def dest: notin_set_remove1)
  moreover have "Suc (length (remove1 a held)) = length held"
    using a by (simp add: length_remove1) (metis One_nat_def Suc_pred length_pos_if_in_set)
  moreover have "pl_free_count p' = of_nat (length (a # fs))" "pl_state p' = CLOG_BUFFER_POOL_STATE_RUNNING"
    "pl_capacity p' = pl_capacity p" "live h' = live h"
    using inv by (simp_all add: pool_inv_def p'_def h'_def)
  ultimately have "pool_inv base p' h' (a # fs) (remove1 a held)"
    using inv facts(3) dist(2) unfolding pool_inv_def by (auto dest: notin_set_remove1)
  then show ?thesis using push same by blast
qed

lemma free_inv:
  assumes inv: "pool_inv base p h fs held" and a: "a \<in> set held"
  shows "\<exists>h'. free_buffer a q h = Some (q, h') \<and>
    pool_inv base (if is_pooled h a then p\<lparr>pl_capacity := pl_capacity p - 1\<rparr> else p) h' fs (remove1 a held) \<and>
    (\<forall>b \<in> set (remove1 a held). cells h' b = cells h b)"
proof -
  obtain n t e where c: "cells h a = Some (Buffer n t e)"
    using inv a by (auto simp: pool_inv_def is_buffer_cell)
  note facts = held_facts [OF inv a]
  define h' where "h' = (clog_free h)\<lparr>cells := (cells h)(a := None)\<rparr>"
  define p' where "p' = (if is_pooled h a then p\<lparr>pl_capacity := pl_capacity p - 1\<rparr> else p)"
  have free: "hfree a h = Some h'" using c by (simp add: hfree_Some h'_def)
  have dist: "distinct held" "a \<notin> set (remove1 a held)" using inv by (auto simp: pool_inv_def)
  have same: "\<forall>b \<in> set (remove1 a held). cells h' b = cells h b" using dist by (auto simp: h'_def)
  then have filt: "filter (is_pooled h') (remove1 a held) = filter (is_pooled h) (remove1 a held)"
    by (intro filter_pooled_cong) simp
  have count: "length fs + length (filter (is_pooled h) held) =
      length fs + length (filter (is_pooled h') (remove1 a held)) + (if is_pooled h a then 1 else 0)"
    using filter_remove1_length [OF a dist(1), of "is_pooled h"] filt by simp
  have "pl_capacity p = of_nat (length fs + length (filter (is_pooled h) held))"
    using inv by (simp add: pool_inv_def)
  then have "pl_capacity p' = of_nat (length fs + length (filter (is_pooled h') (remove1 a held)))"
    unfolding count by (simp add: p'_def)
  moreover have "chain (cells h') (pl_head p') fs"
    using inv facts by (auto simp: pool_inv_def h'_def p'_def)
  moreover have "heap_ok h'" using inv free heap_ok_hfree by (auto simp: pool_inv_def)
  moreover have "\<forall>b \<in> set (remove1 a held). is_buffer h' b"
    using inv same by (auto simp: pool_inv_def is_buffer_def dest: notin_set_remove1)
  moreover have "Suc (length (remove1 a held)) = length held"
    using a by (simp add: length_remove1) (metis One_nat_def Suc_pred length_pos_if_in_set)
  moreover have "pl_free_count p' = pl_free_count p" "pl_state p' = pl_state p" "live h' = live h - 1"
    by (simp_all add: p'_def h'_def mem_simps)
  ultimately have "pool_inv base p' h' fs (remove1 a held)"
    using inv dist(2) unfolding pool_inv_def by (auto dest: notin_set_remove1)
  then show ?thesis using free same by (auto simp: free_buffer_def p'_def)
qed

lemma count_nonzero: "0 < n \<Longrightarrow> n < 2 ^ 64 \<Longrightarrow> (of_nat n :: 64 word) \<noteq> 0"
  by (auto simp: word_of_nat_eq_0_iff dest: nat_dvd_not_less)

lemma release_inv:
  assumes inv: "pool_inv base p h fs held" and a: "a \<in> set held"
    and few: "length fs + length held < 2 ^ 64"
  shows "\<exists>p' h' fs'. clog_buffer_pool_release (Some p) a h = Some (Some p', h') \<and>
    pool_inv base p' h' fs' (remove1 a held) \<and> length fs' + length (remove1 a held) \<le> length fs + length held \<and>
    (\<forall>b \<in> set (remove1 a held). cells h' b = cells h b)"
proof -
  obtain n t e where c: "cells h a = Some (Buffer n t e)"
    using inv a by (auto simp: pool_inv_def is_buffer_cell)
  note facts = held_facts [OF inv a]
  have len: "length (remove1 a held) \<le> length held" "Suc (length (remove1 a held)) \<le> length held"
    using a by (simp_all add: length_remove1) (metis One_nat_def Suc_pred length_pos_if_in_set order_refl)
  show ?thesis
  proof (cases t)
    case CLOG_BUFFER_TYPE_TMP
    then have "\<not> is_pooled h a" using c by (simp add: is_pooled_def)
    then show ?thesis
      using free_inv [OF inv a, of "Some p"] c facts(1) CLOG_BUFFER_TYPE_TMP len
      by (auto simp: clog_buffer_pool_release_def intro!: exI [of _ fs])
  next
    case CLOG_BUFFER_TYPE_POOL
    then have pooled: "is_pooled h a" using c by (simp add: is_pooled_def)
    have running: "clog_buffer_pool_get_state (Some p) \<noteq> CLOG_BUFFER_POOL_STATE_FINALIZING"
      using inv by (simp add: pool_inv_def clog_buffer_pool_get_state_def pool_states)
    obtain p1 h1 where push: "push_buffer a p h = Some (Some p1, h1)" "pool_inv base p1 h1 (a # fs) (remove1 a held)"
      "\<forall>b \<in> set (remove1 a held). cells h1 b = cells h b"
      using push_inv [OF inv a pooled] by blast
    obtain h2 where free: "free_buffer a (Some (p\<lparr>pl_capacity := pl_capacity p - 1\<rparr>)) h =
        Some (Some (p\<lparr>pl_capacity := pl_capacity p - 1\<rparr>), h2)"
      "pool_inv base (p\<lparr>pl_capacity := pl_capacity p - 1\<rparr>) h2 fs (remove1 a held)"
      "\<forall>b \<in> set (remove1 a held). cells h2 b = cells h b"
      using free_inv [OF inv a] pooled by auto
    have "0 < length (filter (is_pooled h) held)"
      using a pooled by (auto simp: filter_empty_conv intro: length_pos_if_in_set [of a])
    moreover have "length fs + length (filter (is_pooled h) held) < 2 ^ 64"
      using few length_filter_le [of "is_pooled h" held] by linarith
    ultimately have "pl_capacity p \<noteq> 0"
      using inv count_nonzero [of "length fs + length (filter (is_pooled h) held)"]
      unfolding pool_inv_def by (metis add_gr_0)
    then show ?thesis
      using c CLOG_BUFFER_TYPE_POOL facts(1) running push free len
      by (cases "\<not> pl_auto_manager p \<or> (100 - pl_free_count p * 100 div pl_capacity p > pl_threshold p \<or>
          pl_capacity p = pl_init_capacity p)")
        (auto simp: clog_buffer_pool_release_def)
  qed
qed

subsection \<open>Creating and finalizing\<close>

lemma chain_bound:
  assumes "heap_ok h" and "chain (cells h) a fs" and "distinct fs"
  shows "length fs \<le> brk h"
proof -
  have "set fs \<subseteq> {..< brk h}"
    using assms(1) chain_cells [OF assms(2)] by (fastforce simp: heap_ok_def dom_def)
  then have "card (set fs) \<le> card {..< brk h}" by (intro card_mono) auto
  then show ?thesis using assms(3) by (simp add: distinct_card)
qed

lemma free_chain_all:
  "heap_ok h \<Longrightarrow> chain (cells h) a fs \<Longrightarrow> distinct fs \<Longrightarrow> length fs \<le> fuel \<Longrightarrow>
   \<exists>h'. free_chain fuel a n h = Some (n + length fs, h') \<and> heap_ok h' \<and>
     live h' = live h - int (length fs) \<and> (\<forall>b. b \<notin> set fs \<longrightarrow> cells h' b = cells h b)"
proof (induction fuel a n h arbitrary: fs rule: free_chain.induct)
  case (1 a n h)
  then show ?case by simp
next
  case (2 fuel a n h)
  show ?case
  proof (cases fs)
    case Nil
    then show ?thesis using 2 by simp
  next
    case (Cons x xs)
    obtain nxt e where c: "a = x" "a \<noteq> NULL" "cells h a = Some (Buffer nxt CLOG_BUFFER_TYPE_POOL e)"
      "chain (cells h) nxt xs" using 2(3) Cons by auto
    define h1 where "h1 = (clog_free h)\<lparr>cells := (cells h)(a := None)\<rparr>"
    have free: "hfree a h = Some h1" using c(3) by (simp add: hfree_Some h1_def)
    have "heap_ok h1" using 2(2) free heap_ok_hfree by blast
    moreover have "chain (cells h1) nxt xs" using c 2(4) Cons by (simp add: h1_def)
    ultimately obtain h' where "free_chain fuel nxt (n + 1) h1 = Some (n + 1 + length xs, h')"
      "heap_ok h'" "live h' = live h1 - int (length xs)" "\<forall>b. b \<notin> set xs \<longrightarrow> cells h' b = cells h1 b"
      using 2(1) [OF c(2,3) refl free, of xs] 2(4,5) Cons by auto
    then show ?thesis using c free Cons by (auto simp: h1_def mem_simps)
  qed
qed

lemma finalize_empty:
  assumes inv: "pool_inv base p h fs []" and few: "length fs < 2 ^ 64"
  shows "\<exists>h'. clog_buffer_pool_finalize (Some p) h = Some (CLOG_SUCCESS, None, h') \<and>
    heap_ok h' \<and> live h' = base"
proof -
  obtain h1 where h1: "free_chain (brk h) (pl_head p) 0 h = Some (length fs, h1)" "heap_ok h1"
    "live h1 = live h - int (length fs)"
    using free_chain_all [of h "pl_head p" fs "brk h" 0] chain_bound [of h "pl_head p" fs] inv
    by (auto simp: pool_inv_def)
  have "heap_ok (clog_free h1)" using h1(2) by (simp add: heap_ok_def clog_free_def)
  then show ?thesis
    using h1 inv by (auto simp: clog_buffer_pool_finalize_def pool_inv_def mem_simps
        clog_buffer_pool_get_current_capacity_def Let_def)
qed

lemma batch_loop_chain:
  "heap_ok h \<Longrightarrow> chain (cells h) head fs \<Longrightarrow> distinct fs \<Longrightarrow>
   \<exists>b h'. batch_loop junk k head h = Some (b, h') \<and> heap_ok h' \<and>
     ((\<exists>fs'. chain (cells h') b fs' \<and> distinct fs' \<and> length fs' = length fs + k \<and>
         live h' = live h + int k) \<or>
      (0 < k \<and> b = NULL \<and> live h' = live h - int (length fs)))"
proof (induction junk k head h arbitrary: fs rule: batch_loop.induct)
  case (1 junk head h)
  then show ?case by auto
next
  case (2 junk k head h)
  obtain a h1 where ms: "clog_buffer_pool_malloc_single junk CLOG_BUFFER_TYPE_POOL h = (a, h1)"
    by (metis surj_pair)
  have ok1: "heap_ok h1" using heap_ok_halloc 2(3) ms by (auto simp: clog_buffer_pool_malloc_single_def)
  from ms show ?case unfolding clog_buffer_pool_malloc_single_def
  proof (cases rule: halloc_cases)
    case fail
    have ch: "chain (cells h1) head fs" using 2(4) fail by simp
    obtain h2 where "free_chain (brk h1) head 0 h1 = Some (length fs, h2)" "heap_ok h2"
      "live h2 = live h1 - int (length fs)"
      using free_chain_all [OF ok1 ch 2(5) chain_bound [OF ok1 ch 2(5)], of 0] by auto
    then show ?thesis using ms fail by simp
  next
    case ok
    have notin: "a \<notin> set fs"
      using chain_cells [OF 2(4)] heap_ok_brk [OF 2(3)] ok(1) by fastforce
    have a: "a \<noteq> NULL" using ok(1) 2(3) by (simp add: heap_ok_def)
    show ?thesis
    proof (cases fs)
      case Nil
      then have head: "head = NULL" using 2(4) by simp
      have "chain (cells h1) a [a]" using ok a by simp
      then obtain b h' where "batch_loop junk k a h1 = Some (b, h')" "heap_ok h'"
        "(\<exists>fs'. chain (cells h') b fs' \<and> distinct fs' \<and> length fs' = length [a] + k \<and>
            live h' = live h1 + int k) \<or> (0 < k \<and> b = NULL \<and> live h' = live h1 - int (length [a]))"
        using 2(1) [OF ms [symmetric] a head, of "[a]"] ok1 by auto
      then show ?thesis using ms a head ok(4) Nil by auto
    next
      case (Cons x xs)
      obtain n e where x: "head = x" "head \<noteq> NULL" "cells h head = Some (Buffer n CLOG_BUFFER_TYPE_POOL e)"
        "chain (cells h) n xs" using 2(4) Cons by auto
      have ax: "a \<noteq> head" using notin Cons x(1) by auto
      define h2 where "h2 = h1\<lparr>cells := (cells h1)(a \<mapsto> Buffer n CLOG_BUFFER_TYPE_POOL junk)\<rparr>"
      define h3 where "h3 = h2\<lparr>cells := (cells h2)(head \<mapsto> Buffer a CLOG_BUFFER_TYPE_POOL e)\<rparr>"
      have nxt: "get_next head h1 = Some n" using x ax ok by (simp add: get_next_def)
      have s1: "set_next a n h1 = Some h2" using ok(1,2) by (simp add: set_next_def h2_def)
      have s2: "set_next head a h2 = Some h3" using x ax ok by (simp add: set_next_def h2_def h3_def)
      have dist: "distinct (x # a # xs)" using 2(5) notin Cons by auto
      have "chain (cells h1) n xs" using x(4) notin Cons ok by simp
      then have ch: "chain (cells h3) head (x # a # xs)"
        using x a dist by (simp add: h2_def h3_def)
      have "heap_ok h3" using ok1 ok x ax by (auto simp: heap_ok_def h2_def h3_def)
      then obtain b h' where b: "batch_loop junk k head h3 = Some (b, h')" "heap_ok h'"
        "(\<exists>fs'. chain (cells h') b fs' \<and> distinct fs' \<and> length fs' = length (x # a # xs) + k \<and>
            live h' = live h3 + int k) \<or> (0 < k \<and> b = NULL \<and> live h' = live h3 - int (length (x # a # xs)))"
        using 2(2) [OF ms [symmetric] a x(2) nxt s1 s2 _ ch dist] by auto
      have step: "batch_loop junk (Suc k) head h = batch_loop junk k head h3"
        using ms a x(2) nxt s1 s2 by simp
      have live3: "live h3 = live h + 1" using ok(4) by (simp add: h3_def h2_def)
      show ?thesis
      proof (intro exI conjI)
        show "batch_loop junk (Suc k) head h = Some (b, h')" using step b(1) by simp
        show "heap_ok h'" by (rule b(2))
        show "(\<exists>fs'. chain (cells h') b fs' \<and> distinct fs' \<and> length fs' = length fs + Suc k \<and>
            live h' = live h + int (Suc k)) \<or> (0 < Suc k \<and> b = NULL \<and> live h' = live h - int (length fs))"
          using b(3) live3 Cons by auto
      qed
    qed
  qed
qed

lemma initialize_inv:
  assumes "heap_ok h" and init: "clog_buffer_pool_initialize junk True sz cap auto thr h = Some (r, po, h')"
  shows "heap_ok h' \<and> (case po of
      None \<Rightarrow> r \<noteq> CLOG_SUCCESS
    | Some p \<Rightarrow> r = CLOG_SUCCESS \<and> 0 < unat cap \<and>
        (\<exists>fs. pool_inv (live h) p h' fs [] \<and> length fs = unat cap))"
proof (cases "auto \<and> (thr = 0 \<or> 100 \<le> thr)")
  case True
  then show ?thesis using assms by (auto simp: clog_buffer_pool_initialize_def)
next
  case False
  obtain g h1 where m: "clog_malloc sizeof_pool h = (g, h1)" by (metis surj_pair)
  have ok1: "heap_ok h1" using m assms(1) clog_malloc_heap [OF m] by (simp add: heap_ok_def)
  show ?thesis
  proof (cases g)
    case g: False
    have "r = CLOG_NO_MEMORY \<and> po = None \<and> h' = h1"
      using init False m g unfolding clog_buffer_pool_initialize_def if_not_P [OF False] by simp
    then show ?thesis using ok1 by simp
  next
    case g: True
    define p where "p = \<lparr>pl_head = NULL, pl_state = CLOG_BUFFER_POOL_STATE_RUNNING,
        pl_free_count = cap, pl_capacity = cap, pl_init_capacity = cap, pl_threshold = ucast thr,
        pl_auto_manager = auto, pl_item_size = sz\<rparr>"
    obtain b h2 where b: "batch_loop junk (unat cap) NULL h1 = Some (b, h2)" "heap_ok h2"
      "(\<exists>fs'. chain (cells h2) b fs' \<and> distinct fs' \<and> length fs' = unat cap \<and>
         live h2 = live h1 + int (unat cap)) \<or> (0 < unat cap \<and> b = NULL \<and> live h2 = live h1)"
      using batch_loop_chain [OF ok1, of NULL "[]" junk "unat cap"] by auto
    have eq: "(if b = NULL then
          (case clog_buffer_pool_finalize (Some p) h2 of
             None \<Rightarrow> None | Some (_, _, h) \<Rightarrow> Some (CLOG_NO_MEMORY, None, h))
        else Some (CLOG_SUCCESS, Some (p\<lparr>pl_head := b\<rparr>), h2)) = Some (r, po, h')"
      using init m g b(1) unfolding clog_buffer_pool_initialize_def if_not_P [OF False] Let_def
        clog_buffer_pool_malloc_pool_batch_def p_def by simp
    show ?thesis
    proof (cases "b = NULL")
      case True
      have "free_chain (brk h2) (pl_head p) 0 h2 = Some (0, h2)"
        by (cases "brk h2") (simp_all add: p_def)
      then have "po = None \<and> r = CLOG_NO_MEMORY \<and> (h' = h2 \<or> h' = clog_free h2)"
        using eq True by (auto simp: clog_buffer_pool_finalize_def Let_def split: if_splits)
      then show ?thesis using b(2) by (auto simp: heap_ok_def clog_free_def)
    next
      case nb: False
      then obtain fs where fs: "chain (cells h2) b fs" "distinct fs" "length fs = unat cap"
        "live h2 = live h1 + int (unat cap)" using b(3) by auto
      have "0 < unat cap" using fs(1,3) nb by (cases fs) auto
      moreover have "live h1 = live h + 1" using live_clog_mallocD [OF m] g by simp
      ultimately show ?thesis
        using eq nb fs b(2) by (auto simp: pool_inv_def p_def intro!: exI [of _ fs])
    qed
  qed
qed

subsection \<open>A client\<close>

text \<open>A client acquires buffers and gives them back, by their place among those it holds.\<close>

datatype pool_op = Acquire | Release nat

definition pool_step ::
    "'e \<Rightarrow> pool_op \<Rightarrow> clog_buffer_pool option \<times> 'e block heap \<times> addr list \<Rightarrow>
     (clog_buffer_pool option \<times> 'e block heap \<times> addr list) option" where
  "pool_step junk c s = (case s of (pool, h, held) \<Rightarrow>
     (case c of
        Acquire \<Rightarrow>
          (case clog_buffer_pool_acquire junk pool h of
             None \<Rightarrow> None
           | Some (a, pool, h) \<Rightarrow> Some (pool, h, if a = NULL then held else a # held))
      | Release i \<Rightarrow>
          if i < length held then
            (case clog_buffer_pool_release pool (held ! i) h of
               None \<Rightarrow> None
             | Some (pool, h) \<Rightarrow> Some (pool, h, remove1 (held ! i) held))
          else Some s))"

fun pool_run ::
    "'e \<Rightarrow> pool_op list \<Rightarrow> clog_buffer_pool option \<times> 'e block heap \<times> addr list \<Rightarrow>
     (clog_buffer_pool option \<times> 'e block heap \<times> addr list) option" where
  "pool_run junk [] s = Some s"
| "pool_run junk (c # cs) s = (case pool_step junk c s of None \<Rightarrow> None | Some s \<Rightarrow> pool_run junk cs s)"

lemma pool_step_inv:
  assumes inv: "pool_inv base p h fs held" and few: "length fs + length held < 2 ^ 64"
  shows "\<exists>p' h' fs' held'. pool_step junk c (Some p, h, held) = Some (Some p', h', held') \<and>
    pool_inv base p' h' fs' held' \<and> length fs' + length held' \<le> Suc (length fs + length held) \<and>
    (\<forall>a \<in> set held \<inter> set held'. cells h' a = cells h a) \<and>
    (c = Release 0 \<longrightarrow> length held' = length held - 1 \<and>
       length fs' + length held' \<le> length fs + length held)"
proof (cases c)
  case Acquire
  obtain a p' h' fs' where a: "clog_buffer_pool_acquire junk (Some p) h = Some (a, Some p', h')"
    "\<forall>b \<in> set held. cells h' b = cells h b"
    "(a = NULL \<and> fs = [] \<and> pool_inv base p' h' fs' held \<and> length fs' = length fs) \<or>
     (a \<noteq> NULL \<and> a \<notin> set held \<and> pool_inv base p' h' fs' (a # held) \<and>
      length fs' + length (a # held) \<le> Suc (length fs + length held))"
    using acquire_inv [OF inv] by blast
  show ?thesis
    by (rule exI [of _ p'], rule exI [of _ h'], rule exI [of _ fs'],
        rule exI [of _ "if a = NULL then held else a # held"])
      (use a Acquire in \<open>auto simp: pool_step_def\<close>)
next
  case (Release i)
  show ?thesis
  proof (cases "i < length held")
    case True
    then have in_held: "held ! i \<in> set held" by simp
    obtain p' h' fs' where r: "clog_buffer_pool_release (Some p) (held ! i) h = Some (Some p', h')"
      "pool_inv base p' h' fs' (remove1 (held ! i) held)"
      "length fs' + length (remove1 (held ! i) held) \<le> length fs + length held"
      "\<forall>b \<in> set (remove1 (held ! i) held). cells h' b = cells h b"
      using release_inv [OF inv in_held few] by blast
    have len: "length (remove1 (held ! i) held) = length held - 1" using in_held by (simp add: length_remove1)
    show ?thesis
    proof (intro exI conjI)
      show "pool_step junk c (Some p, h, held) = Some (Some p', h', remove1 (held ! i) held)"
        using r(1) Release True by (simp add: pool_step_def)
      show "pool_inv base p' h' fs' (remove1 (held ! i) held)" by (rule r(2))
      show "length fs' + length (remove1 (held ! i) held) \<le> Suc (length fs + length held)"
        by (rule le_SucI [OF r(3)])
      show "\<forall>a \<in> set held \<inter> set (remove1 (held ! i) held). cells h' a = cells h a" using r(4) by blast
      show "c = Release 0 \<longrightarrow> length (remove1 (held ! i) held) = length held - 1 \<and>
          length fs' + length (remove1 (held ! i) held) \<le> length fs + length held"
        using r(3) len by blast
    qed
  next
    case False
    show ?thesis
      by (rule exI [of _ p], rule exI [of _ h], rule exI [of _ fs], rule exI [of _ held])
        (use inv Release False in \<open>auto simp: pool_step_def\<close>)
  qed
qed

lemma pool_run_inv:
  "pool_inv base p h fs held \<Longrightarrow> length fs + length held + length cs < 2 ^ 64 \<Longrightarrow>
   \<exists>p' h' fs' held'. pool_run junk cs (Some p, h, held) = Some (Some p', h', held') \<and>
     pool_inv base p' h' fs' held' \<and> length fs' + length held' \<le> length fs + length held + length cs"
proof (induction cs arbitrary: p h fs held)
  case (Cons c cs)
  obtain p1 h1 fs1 held1 where s: "pool_step junk c (Some p, h, held) = Some (Some p1, h1, held1)"
    "pool_inv base p1 h1 fs1 held1" "length fs1 + length held1 \<le> Suc (length fs + length held)"
    using pool_step_inv [OF Cons.prems(1), of junk c] Cons.prems(2) by auto
  obtain p' h' fs' held' where "pool_run junk cs (Some p1, h1, held1) = Some (Some p', h', held')"
    "pool_inv base p' h' fs' held'" "length fs' + length held' \<le> length fs1 + length held1 + length cs"
    using Cons.IH [OF s(2)] s(3) Cons.prems(2) by fastforce
  then show ?case using s by fastforce
qed auto

lemma release_all:
  "pool_inv base p h fs held \<Longrightarrow> length fs + length held < 2 ^ 64 \<Longrightarrow>
   \<exists>p' h' fs'. pool_run junk (replicate (length held) (Release 0)) (Some p, h, held) = Some (Some p', h', []) \<and>
     pool_inv base p' h' fs' [] \<and> length fs' \<le> length fs + length held"
proof (induction "length held" arbitrary: p h fs held)
  case 0
  then show ?case by auto
next
  case (Suc k)
  obtain p1 h1 fs1 held1 where s: "pool_step junk (Release 0) (Some p, h, held) = Some (Some p1, h1, held1)"
    "pool_inv base p1 h1 fs1 held1" "length held1 = length held - 1"
    "length fs1 + length held1 \<le> length fs + length held"
    using pool_step_inv [OF Suc.prems(1), of junk "Release 0"] Suc.prems(2) by auto
  have "k = length held1" using s(3) Suc.hyps(2) by simp
  then obtain p' h' fs' where "pool_run junk (replicate (length held1) (Release 0)) (Some p1, h1, held1) =
      Some (Some p', h', [])" "pool_inv base p' h' fs' []" "length fs' \<le> length fs1 + length held1"
    using Suc.hyps(1) [OF _ s(2)] s(4) Suc.prems(2) by fastforce
  then show ?case using s(1,4) Suc.hyps(2) \<open>k = length held1\<close>
    by (metis (no_types, lifting) le_trans option.case(2) pool_run.simps(2) replicate_Suc)
qed

text \<open>
  C15. The pool keeps its word to a client, whatever sequence of acquisitions and releases it
  makes and whatever the allocator refuses: no operation touches freed memory, the buffers the
  client holds are never NULL, pairwise different and not on the free list, acquiring or
  releasing one leaves the content of the others alone; and when the client has given everything
  back, finalize releases the pool and every buffer, so that nothing is leaked.
\<close>

theorem buffer_pool_client:
  assumes "heap_ok h"
    and "clog_buffer_pool_initialize junk True sz cap auto thr h = Some (CLOG_SUCCESS, po, h0)"
    and "unat cap + length cs < 2 ^ 64"
  shows "\<exists>p' h' fs held. pool_run junk cs (po, h0, []) = Some (Some p', h', held) \<and>
    pool_inv (live h) p' h' fs held \<and> distinct (fs @ held) \<and> NULL \<notin> set held \<and>
    (\<forall>c. \<exists>p2 h2 held2. pool_step junk c (Some p', h', held) = Some (Some p2, h2, held2) \<and>
       (\<forall>a \<in> set held \<inter> set held2. cells h2 a = cells h' a)) \<and>
    (\<exists>p2 h2 h3. pool_run junk (replicate (length held) (Release 0)) (Some p', h', held) =
         Some (Some p2, h2, []) \<and>
       clog_buffer_pool_finalize (Some p2) h2 = Some (CLOG_SUCCESS, None, h3) \<and> live h3 = live h)"
proof -
  obtain p fs0 where p: "po = Some p" "pool_inv (live h) p h0 fs0 []" "length fs0 = unat cap"
    using initialize_inv [OF assms(1,2)] by (auto split: option.splits)
  obtain p' h' fs held where run: "pool_run junk cs (Some p, h0, []) = Some (Some p', h', held)"
    "pool_inv (live h) p' h' fs held" "length fs + length held \<le> length fs0 + length cs"
    using pool_run_inv [OF p(2), of cs junk] p(3) assms(3) by auto
  have few: "length fs + length held < 2 ^ 64" using run(3) p(3) assms(3) by linarith
  obtain p2 h2 fs2 where r: "pool_run junk (replicate (length held) (Release 0)) (Some p', h', held) =
      Some (Some p2, h2, [])" "pool_inv (live h) p2 h2 fs2 []" "length fs2 \<le> length fs + length held"
    using release_all [OF run(2) few] by blast
  obtain h3 where f: "clog_buffer_pool_finalize (Some p2) h2 = Some (CLOG_SUCCESS, None, h3)" "live h3 = live h"
    using finalize_empty [OF r(2)] r(3) few by auto
  have "\<exists>p2 h2 held2. pool_step junk c (Some p', h', held) = Some (Some p2, h2, held2) \<and>
      (\<forall>a \<in> set held \<inter> set held2. cells h2 a = cells h' a)" for c
    using pool_step_inv [OF run(2) few, of junk c] by blast
  moreover have "NULL \<notin> set held" using held_facts(1) [OF run(2)] by blast
  moreover have "distinct (fs @ held)" using run(2) by (simp add: pool_inv_def)
  ultimately show ?thesis using p(1) run(1,2) r(1) f by blast
qed

definition ex_heap :: "nat block heap" where
  "ex_heap = heap_empty (\<lambda>n. n \<noteq> 3)"

lemma ex_initialize:
  "map_option fst (clog_buffer_pool_initialize 0 True 8 2 True 50 ex_heap) = Some CLOG_SUCCESS"
  by code_simp

text \<open>A pool of two buffers and a client that takes three; the allocator refuses the third.\<close>

lemma buffer_pool_client_witness:
  "\<exists>p' h' held. pool_run 0 [Acquire, Acquire, Acquire, Release 1]
      (case clog_buffer_pool_initialize 0 True 8 2 True 50 ex_heap of Some (_, po, h0) \<Rightarrow> (po, h0, [])) =
      Some (Some p', h', held) \<and> NULL \<notin> set held"
proof -
  have ok: "heap_ok ex_heap" by (simp add: ex_heap_def)
  obtain po h0 where init: "clog_buffer_pool_initialize 0 True 8 2 True 50 ex_heap = Some (CLOG_SUCCESS, po, h0)"
    using ex_initialize by (cases "clog_buffer_pool_initialize 0 True 8 2 True 50 ex_heap") auto
  show ?thesis
    using buffer_pool_client [OF ok init, of "[Acquire, Acquire, Acquire, Release 1]"] init by auto
qed

subsection \<open>A pool that could not be filled\<close>

text \<open>
  When a buffer of the first batch is refused, finalize is called on a pool whose capacity
  counts buffers that were never put on the list: it does not reach 0, and the block of the pool
  is never freed. A pool of capacity 0 cannot be created at all.
\<close>

definition ex_refusing :: "nat block heap" where
  "ex_refusing = heap_empty (\<lambda>n. n < 2)"

lemma ex_initialize_leak:
  "map_option (\<lambda>(r, po, h). (r, live h)) (clog_buffer_pool_initialize 0 True 8 2 False 0 ex_refusing) =
   Some (CLOG_NO_MEMORY, 1)"
  by code_simp

lemma ex_initialize_0:
  "map_option (\<lambda>(r, po, h). (r, live h)) (clog_buffer_pool_initialize 0 True 8 0 False 0 ex_heap) =
   Some (CLOG_NO_MEMORY, 0)"
  by code_simp

subsection \<open>Several threads\<close>

text \<open>
  The loop of \<open>clog_buffer_pool_acquire\<close> (lines 108-123) in its two steps: a thread reads the
  head and the successor of the head, and later exchanges the head for that successor if the head
  is still the same. A release (lines 158-166) is one step. \<open>None\<close> is a step that is not
  possible in the state or an access to memory that is not there.
\<close>

record 'e pool_threads =
  pt_pool :: clog_buffer_pool
  pt_heap :: "'e block heap"
  pt_pending :: "nat \<Rightarrow> (addr \<times> addr) option"
  pt_held :: "nat \<Rightarrow> addr list"

datatype thread_action = Read_Head nat | Swap_Head nat | Give_Back nat addr

definition thread_do :: "thread_action \<Rightarrow> 'e pool_threads \<Rightarrow> 'e pool_threads option" where
  "thread_do act s = (case act of
      Read_Head t \<Rightarrow>
        (let a = pl_head (pt_pool s) in
         if a = NULL then None
         else map_option (\<lambda>n. s\<lparr>pt_pending := (pt_pending s)(t := Some (a, n))\<rparr>) (get_next a (pt_heap s)))
    | Swap_Head t \<Rightarrow>
        (case pt_pending s t of
           None \<Rightarrow> None
         | Some (a, n) \<Rightarrow>
             if pl_head (pt_pool s) = a then
               map_option (\<lambda>h. s\<lparr>pt_pool := (pt_pool s)\<lparr>pl_head := n,
                     pl_free_count := pl_free_count (pt_pool s) - 1\<rparr>,
                   pt_heap := h, pt_pending := (pt_pending s)(t := None),
                   pt_held := (pt_held s)(t := a # pt_held s t)\<rparr>)
                 (set_next a NULL (pt_heap s))
             else Some (s\<lparr>pt_pending := (pt_pending s)(t := None)\<rparr>))
    | Give_Back t a \<Rightarrow>
        if a \<in> set (pt_held s t) then
          (case push_buffer a (pt_pool s) (pt_heap s) of
             Some (Some p, h) \<Rightarrow>
               Some (s\<lparr>pt_pool := p, pt_heap := h,
                       pt_held := (pt_held s)(t := remove1 a (pt_held s t))\<rparr>)
           | _ \<Rightarrow> None)
        else None)"

fun threads_run :: "thread_action list \<Rightarrow> 'e pool_threads \<Rightarrow> 'e pool_threads option" where
  "threads_run [] s = Some s"
| "threads_run (a # as) s = (case thread_do a s of None \<Rightarrow> None | Some s \<Rightarrow> threads_run as s)"

text \<open>
  Between the two steps of thread 0 another thread takes the first two buffers and gives the
  first one back: the head is the same again, its successor is not. Thread 0 puts the buffer
  thread 1 still holds at the head of the free list, and thread 2 gets it too.
\<close>

definition ex_three :: "nat pool_threads" where
  "ex_three = \<lparr>pt_pool = \<lparr>pl_head = 1, pl_state = 1, pl_free_count = 3, pl_capacity = 3,
       pl_init_capacity = 3, pl_threshold = 50, pl_auto_manager = False, pl_item_size = 8\<rparr>,
     pt_heap = (heap_empty (\<lambda>_. True))\<lparr>brk := 4, cells := [1 \<mapsto> Buffer 2 CLOG_BUFFER_TYPE_POOL 0,
       2 \<mapsto> Buffer 3 CLOG_BUFFER_TYPE_POOL 0, 3 \<mapsto> Buffer 0 CLOG_BUFFER_TYPE_POOL 0]\<rparr>,
     pt_pending = (\<lambda>_. None), pt_held = (\<lambda>_. [])\<rparr>"

lemma ex_acquire_aba:
  "map_option (\<lambda>s. (pt_held s 0, pt_held s 1, pt_held s 2))
     (threads_run [Read_Head 0, Read_Head 1, Swap_Head 1, Read_Head 1, Swap_Head 1, Give_Back 1 1,
        Swap_Head 0, Read_Head 2, Swap_Head 2] ex_three) =
   Some ([1], [2], [2])"
  by code_simp

end
