(* ===== verification/Core.thy ===== *)
theory Core
  imports Config_Correct Log_Filter Dispatcher Buffer_Pool Datetime
begin

unbundle bit_operations_syntax

text \<open>
  The logging context (casca_log_core.c), built with the memory pool and the lock.

  The state. A context is the record \<open>clog_context\<close>; the world around it has the memory the
  context and its maps allocate from (its \<open>mem\<close> part), the heap of the log items, the heap of
  the filters, and the state of whatever channels, dispatchers and recorders there are. Those
  are plugged in by function pointers: \<open>interface\<close> has them, NULL being \<open>None\<close>, with what
  else the core reads and writes of their structs; they may act on the context and the world.
  Undefined behaviour in any of them is \<open>None\<close>.

  The map of placeholders is shared by the context and its interpolator context, whose copy here
  is written back after every call (\<open>share_placeholders\<close>).

  A public operation gets the context pointer, \<open>None\<close> for NULL. One thread at a time is in the
  core; what its lock does then is nothing.
\<close>

subsection \<open>State\<close>

record ('p, 'f, 'x) world = mem +
  w_items :: "clog_item block heap"
  w_filters :: "('p, 'f) fheap"
  w_ext :: 'x

type_synonym ('p, 'f, 'x) rest = "('p, 'f, 'x, unit) world_ext"

record ('c, 'd, 'r, 'm) clog_context =
  cx_state :: clog_state
  cx_lock :: bool
  cx_pool :: "clog_buffer_pool option"
  cx_process :: string
  cx_mask :: "32 word"
  cx_modules :: "(clog_module, 'm) clog_hashmap option"
  cx_placeholders :: "(clog_item_wrapper handler, 'm) clog_hashmap option"
  cx_interpolator_context :: "(clog_item_wrapper handler, 'm) clog_interpolator_context option"
  cx_interpolator :: "clog_item_wrapper handler clog_interpolator list option option"
  cx_tags :: "string option list"
  cx_pre :: addr
  cx_post :: addr
  cx_channel :: "'c option"
  cx_dispatcher :: "'d option"
  cx_recorders :: "('r, 'm) clog_hashmap option"

record ('c, 'd, 'r, 'k, 'w) interface =
  ch_open :: "'c \<Rightarrow> ('k \<times> 'w \<Rightarrow> (clog_res \<times> 'k \<times> 'w) option) option"
  ch_write :: "'c \<Rightarrow> (addr \<Rightarrow> 'k \<times> 'w \<Rightarrow> (clog_res \<times> 'k \<times> 'w) option) option"
  ch_read :: "'c \<Rightarrow> ('k \<times> 'w \<Rightarrow> (clog_res \<times> addr option \<times> 'k \<times> 'w) option) option"
  ch_close :: "'c \<Rightarrow> ('k \<times> 'w \<Rightarrow> ('k \<times> 'w) option) option"
  ch_free :: "'c \<Rightarrow> 'w \<Rightarrow> 'w"
  di_channel :: "'d \<Rightarrow> 'w \<Rightarrow> 'c option"
  di_set_channel :: "'d \<Rightarrow> 'c \<Rightarrow> 'w \<Rightarrow> 'w"
  di_open :: "'d \<Rightarrow> ('k \<times> 'w \<Rightarrow> (clog_res \<times> 'k \<times> 'w) option) option"
  di_notify :: "'d \<Rightarrow> (clog_dispatcher_event \<Rightarrow> 'k \<times> 'w \<Rightarrow> ('k \<times> 'w) option) option"
  di_close :: "'d \<Rightarrow> ('k \<times> 'w \<Rightarrow> ('k \<times> 'w) option) option"
  di_free :: "'d \<Rightarrow> 'w \<Rightarrow> 'w"
  re_id :: "'r \<Rightarrow> 32 word"
  re_open :: "'r \<Rightarrow> ('w \<Rightarrow> (clog_res \<times> 'w) option) option"
  re_write :: "'r \<Rightarrow> (clog_item \<Rightarrow> 'w \<Rightarrow> (clog_res \<times> 'w) option) option"
  re_flush :: "'r \<Rightarrow> ('w \<Rightarrow> (clog_res \<times> 'w) option) option"
  re_close :: "'r \<Rightarrow> ('w \<Rightarrow> 'w) option"
  re_free :: "'r \<Rightarrow> 'w \<Rightarrow> 'w"

type_synonym ('c, 'd, 'r, 'p, 'f, 'x) ctx = "('c, 'd, 'r, ('p, 'f, 'x) rest) clog_context"
type_synonym ('c, 'd, 'r, 'p, 'f, 'x) iface =
  "('c, 'd, 'r, ('c, 'd, 'r, 'p, 'f, 'x) ctx, ('p, 'f, 'x) world) interface"

text \<open>A call through a function pointer.\<close>

definition call :: "('s \<Rightarrow> 't option) option \<Rightarrow> 's \<Rightarrow> 't option" where
  "call f s = (case f of None \<Rightarrow> None | Some g \<Rightarrow> g s)"

definition sizeof_context :: nat where "sizeof_context = 320"
definition sizeof_module :: nat where "sizeof_module = 88"
definition sizeof_rwlock :: nat where "sizeof_rwlock = 56"
definition sizeof_item_wrapper :: nat where "sizeof_item_wrapper = 88"
definition sizeof_log_item :: nat where "sizeof_log_item = 507"

subsection \<open>The lock's memory\<close>

text \<open>\<open>init_ok\<close>: \<open>pthread_rwlock_init\<close> returned 0.\<close>

definition clog_rwlock_create :: "bool \<Rightarrow> 'm mem_scheme \<Rightarrow> bool \<times> 'm mem_scheme" where
  "clog_rwlock_create init_ok m = (case clog_malloc sizeof_rwlock m of
      (False, m) \<Rightarrow> (False, m)
    | (True, m) \<Rightarrow> if init_ok then (True, m) else (False, clog_free m))"

definition clog_rwlock_destroy :: "bool \<Rightarrow> 'm mem_scheme \<Rightarrow> bool \<times> 'm mem_scheme" where
  "clog_rwlock_destroy rwlock m = (if rwlock then (False, clog_free m) else (False, m))"

subsection \<open>Items\<close>

text \<open>
  Without a pool an item is a block of \<open>sizeof(clog_item_wrapper_t)\<close> bytes, which is less than
  an item has; a write to such an item leaves the block. \<open>junk\<close> is what new memory holds.
\<close>

definition item_room :: "'e block \<Rightarrow> nat" where
  "item_room b = (case b of Buffer n t e \<Rightarrow> sizeof_log_item | Plain e \<Rightarrow> sizeof_item_wrapper)"

fun update_entry :: "('e \<Rightarrow> 'e) \<Rightarrow> 'e block \<Rightarrow> 'e block" where
  "update_entry f (Buffer n t e) = Buffer n t (f e)"
| "update_entry f (Plain e) = Plain (f e)"

definition write_item ::
    "addr \<Rightarrow> (clog_item \<Rightarrow> clog_item) \<Rightarrow> ('p, 'f, 'x) world \<Rightarrow> ('p, 'f, 'x) world option" where
  "write_item a f w = (case cells (w_items w) a of
      None \<Rightarrow> None
    | Some b \<Rightarrow>
        if item_room b < sizeof_log_item then None
        else map_option (\<lambda>h. w\<lparr>w_items := h\<rparr>) (hupd a (update_entry f) (w_items w)))"

definition read_item :: "addr \<Rightarrow> ('p, 'f, 'x) world \<Rightarrow> clog_item option" where
  "read_item a w = map_option block_entry (cells (w_items w) a)"

definition clog_acquire_log_item ::
    "clog_item \<Rightarrow> ('c, 'd, 'r, 'p, 'f, 'x) ctx option \<Rightarrow> ('p, 'f, 'x) world
     \<Rightarrow> (addr \<times> ('c, 'd, 'r, 'p, 'f, 'x) ctx option \<times> ('p, 'f, 'x) world) option" where
  "clog_acquire_log_item junk context w = (case context of
      None \<Rightarrow> Some (NULL, None, w)
    | Some cx \<Rightarrow>
        if cx_state cx \<noteq> CLOG_STATE_RUNNING then Some (NULL, context, w)
        else if cx_pool cx \<noteq> None then
          map_option (\<lambda>(a, po, h). (a, Some (cx\<lparr>cx_pool := po\<rparr>), w\<lparr>w_items := h\<rparr>))
            (clog_buffer_pool_acquire junk (cx_pool cx) (w_items w))
        else (let (a, h) = halloc (Plain junk) (w_items w) in Some (a, context, w\<lparr>w_items := h\<rparr>)))"

text \<open>The core drops what \<open>clog_buffer_pool_release\<close> returns; a pool that freed itself would be
  used again, which is undefined.\<close>

definition clog_release_log_item ::
    "('c, 'd, 'r, 'p, 'f, 'x) ctx option \<Rightarrow> addr \<Rightarrow> ('p, 'f, 'x) world
     \<Rightarrow> (('c, 'd, 'r, 'p, 'f, 'x) ctx option \<times> ('p, 'f, 'x) world) option" where
  "clog_release_log_item context item w =
     (if item = NULL then Some (context, w)
      else case context of
        None \<Rightarrow> Some (None, w)
      | Some cx \<Rightarrow>
          if cx_state cx \<noteq> CLOG_STATE_RUNNING \<and> cx_state cx \<noteq> CLOG_STATE_STOPPING
          then Some (context, w)
          else if cx_pool cx \<noteq> None then
            (case clog_buffer_pool_release (cx_pool cx) item (w_items w) of
               None \<Rightarrow> None
             | Some (None, h) \<Rightarrow> None
             | Some (Some p, h) \<Rightarrow> Some (Some (cx\<lparr>cx_pool := Some p\<rparr>), w\<lparr>w_items := h\<rparr>))
          else map_option (\<lambda>h. (context, w\<lparr>w_items := h\<rparr>)) (hfree item (w_items w)))"

definition release_in ::
    "addr \<Rightarrow> ('c, 'd, 'r, 'p, 'f, 'x) ctx \<times> ('p, 'f, 'x) world
     \<Rightarrow> (('c, 'd, 'r, 'p, 'f, 'x) ctx \<times> ('p, 'f, 'x) world) option" where
  "release_in a s = (case clog_release_log_item (Some (fst s)) a (snd s) of
      Some (Some cx, w) \<Rightarrow> Some (cx, w) | _ \<Rightarrow> None)"

text \<open>A recorder's identifier as a key: the four bytes of a \<open>uint32_t\<close>.\<close>

definition id_bytes :: "32 word \<Rightarrow> bytes" where
  "id_bytes v = [ucast v, ucast (drop_bit 8 v), ucast (drop_bit 16 v), ucast (drop_bit 24 v)]"

definition clog_get_recoder ::
    "('c, 'd, 'r, 'm) clog_context option \<Rightarrow> 32 word \<Rightarrow> 'r option \<times> ('c, 'd, 'r, 'm) clog_context option" where
  "clog_get_recoder context v = (case context of
      None \<Rightarrow> (None, None)
    | Some cx \<Rightarrow>
        if cx_state cx \<noteq> CLOG_STATE_RUNNING \<and> cx_state cx \<noteq> CLOG_STATE_STOPPING then (None, context)
        else (case clog_hashmap_get (cx_recorders cx) (Some (id_bytes v)) of
                (r, hm) \<Rightarrow> (r, Some (cx\<lparr>cx_recorders := hm\<rparr>))))"

subsection \<open>Destroying a context\<close>

text \<open>A call through a missing \<open>close\<close> is undefined; \<open>clog_add_recorder\<close> does not take such a recorder.\<close>

definition clog_recorder_destroy :: "('c, 'd, 'r, 'k, 'w) interface \<Rightarrow> 'r \<Rightarrow> 'w \<Rightarrow> 'w" where
  "clog_recorder_destroy i r w = re_free i r (case re_close i r of None \<Rightarrow> w | Some f \<Rightarrow> f w)"

definition channel_destroy ::
    "('c, 'd, 'r, 'k, 'w) interface \<Rightarrow> 'c option \<Rightarrow> 'k \<times> 'w \<Rightarrow> ('k \<times> 'w) option" where
  "channel_destroy i channel s = (case channel of
      None \<Rightarrow> Some s
    | Some c \<Rightarrow> map_option (\<lambda>(k, w). (k, ch_free i c w)) (call (ch_close i c) s))"

definition clog_dispatcher_destroy ::
    "('c, 'd, 'r, 'k, 'w) interface \<Rightarrow> 'd option \<Rightarrow> 'k \<times> 'w \<Rightarrow> ('k \<times> 'w) option" where
  "clog_dispatcher_destroy i dispatcher s = (case dispatcher of
      None \<Rightarrow> Some s
    | Some d \<Rightarrow> map_option (\<lambda>(k, w). (k, di_free i d w)) (call (di_close i d) s))"

partial_function (option) drain_items ::
    "('s \<Rightarrow> (clog_res \<times> addr option \<times> 's) option) \<Rightarrow> (addr \<Rightarrow> 's \<Rightarrow> 's option) \<Rightarrow> 's \<Rightarrow> 's option" where
  "drain_items rd rel s = (case rd s of
      None \<Rightarrow> None
    | Some (res, item, s) \<Rightarrow>
        (case item of
           None \<Rightarrow> Some s
         | Some a \<Rightarrow>
             if res \<noteq> CLOG_SUCCESS \<or> a = NULL then Some s
             else (case rel a s of None \<Rightarrow> None | Some s \<Rightarrow> drain_items rd rel s)))"

fun free_tags :: "string option list \<Rightarrow> 'm mem_scheme \<Rightarrow> 'm mem_scheme" where
  "free_tags [] m = m"
| "free_tags (t # ts) m = free_tags ts (clog_free_opt t m)"

definition destroy_dispatcher ::
    "('c, 'd, 'r, 'p, 'f, 'x) iface \<Rightarrow> ('c, 'd, 'r, 'p, 'f, 'x) ctx \<times> ('p, 'f, 'x) world
     \<Rightarrow> (('c, 'd, 'r, 'p, 'f, 'x) ctx \<times> ('p, 'f, 'x) world) option" where
  "destroy_dispatcher i s = (case cx_dispatcher (fst s) of
      None \<Rightarrow> Some s
    | Some d \<Rightarrow>
        (case (case di_notify i d of None \<Rightarrow> None | Some f \<Rightarrow> f CLOG_DISPATCHER_EVENT_END s) of
           None \<Rightarrow> None
         | Some s \<Rightarrow>
             (case call (di_close i d) s of
                None \<Rightarrow> None
              | Some (cx, w) \<Rightarrow> Some (cx\<lparr>cx_dispatcher := None\<rparr>, di_free i d w))))"

definition destroy_channel ::
    "('c, 'd, 'r, 'p, 'f, 'x) iface \<Rightarrow> ('c, 'd, 'r, 'p, 'f, 'x) ctx \<times> ('p, 'f, 'x) world
     \<Rightarrow> (('c, 'd, 'r, 'p, 'f, 'x) ctx \<times> ('p, 'f, 'x) world) option" where
  "destroy_channel i s = (case cx_channel (fst s) of
      None \<Rightarrow> Some s
    | Some c \<Rightarrow>
        (case drain_items (call (ch_read i c)) release_in s of
           None \<Rightarrow> None
         | Some s \<Rightarrow>
             (case call (ch_close i c) s of
                None \<Rightarrow> None
              | Some (cx, w) \<Rightarrow> Some (cx\<lparr>cx_channel := None\<rparr>, ch_free i c w))))"

text \<open>What the context owns itself: maps, interpolator, tags, filters, pool, lock.\<close>

definition destroy_owned ::
    "('f \<Rightarrow> 'p \<Rightarrow> ('p, 'f) fheap \<Rightarrow> ('p, 'f) fheap) \<Rightarrow> ('c, 'd, 'r, 'p, 'f, 'x) ctx \<Rightarrow> ('p, 'f, 'x) world
     \<Rightarrow> ('p, 'f, 'x) world option" where
  "destroy_owned dealloc cx w =
     (let w = snd (clog_hashmap_destroy (cx_recorders cx) w) in
      case clog_interpolator_clear (cx_interpolator cx) w of
        None \<Rightarrow> None
      | Some w \<Rightarrow>
          (let w = snd (clog_interpolator_context_destroy (cx_interpolator_context cx) w);
               w = snd (clog_hashmap_destroy (cx_placeholders cx) w);
               w = free_tags (cx_tags cx) w
           in case clog_filter_free dealloc (cx_pre cx) (w_filters w) of
                None \<Rightarrow> None
              | Some fh \<Rightarrow>
                  (case clog_filter_free dealloc (cx_post cx) fh of
                     None \<Rightarrow> None
                   | Some fh \<Rightarrow>
                       (let w = snd (clog_hashmap_destroy (cx_modules cx) (w\<lparr>w_filters := fh\<rparr>)) in
                        case clog_buffer_pool_finalize (cx_pool cx) (w_items w) of
                          None \<Rightarrow> None
                        | Some (_, _, h) \<Rightarrow>
                            Some (clog_free (snd (clog_rwlock_destroy (cx_lock cx) (w\<lparr>w_items := h\<rparr>))))))))"

definition clog_context_destroy ::
    "('c, 'd, 'r, 'p, 'f, 'x) iface \<Rightarrow> ('f \<Rightarrow> 'p \<Rightarrow> ('p, 'f) fheap \<Rightarrow> ('p, 'f) fheap)
     \<Rightarrow> ('c, 'd, 'r, 'p, 'f, 'x) ctx option option \<Rightarrow> ('p, 'f, 'x) world \<Rightarrow> ('p, 'f, 'x) world option" where
  "clog_context_destroy i dealloc context w = (case context of
      None \<Rightarrow> Some w
    | Some None \<Rightarrow> Some w
    | Some (Some tmp) \<Rightarrow>
        (case destroy_dispatcher i (tmp\<lparr>cx_state := CLOG_STATE_STOPPING\<rparr>, w) of
           None \<Rightarrow> None
         | Some s \<Rightarrow>
             (case destroy_channel i s of
                None \<Rightarrow> None
              | Some (cx, w) \<Rightarrow> destroy_owned dealloc cx w)))"

subsection \<open>Creating a context\<close>

text \<open>
  The tags of the levels. When the copy at index \<open>i\<close> is refused, the loop over \<open>j\<close> frees
  \<open>tags[i]\<close>, which is NULL; \<open>clog_context_create\<close> then destroys the context, and the tags with it.
\<close>

definition default_tags :: "string list" where
  "default_tags = [''T'', ''D'', ''I'', ''W'', ''E'', ''F'']"

definition safe_free_tag :: "nat \<Rightarrow> string option list \<times> 'm mem_scheme \<Rightarrow> string option list \<times> 'm mem_scheme" where
  "safe_free_tag i tm = ((fst tm)[i := None], clog_free_opt (fst tm ! i) (snd tm))"

function init_tags_loop ::
    "nat \<Rightarrow> string option list \<Rightarrow> 'm mem_scheme \<Rightarrow> clog_res \<times> string option list \<times> 'm mem_scheme" where
  "init_tags_loop i tags m =
     (if i < CLOG_LEVEL_NUM then
        (case clog_strdup (Some (default_tags ! i)) m of
           (None, m) \<Rightarrow> (case (safe_free_tag i ^^ i) (tags[i := None], m) of (tags, m) \<Rightarrow> (CLOG_FAIL, tags, m))
         | (Some t, m) \<Rightarrow> init_tags_loop (i + 1) (tags[i := Some t]) m)
      else (CLOG_SUCCESS, tags, m))"
  by pat_completeness auto
termination by (relation "measure (\<lambda>(i, tags, m). CLOG_LEVEL_NUM - i)") auto

declare init_tags_loop.simps [simp del]

definition clog_init_level_tags ::
    "('c, 'd, 'r, 'm) clog_context \<Rightarrow> 'm mem_scheme \<Rightarrow> clog_res \<times> ('c, 'd, 'r, 'm) clog_context \<times> 'm mem_scheme" where
  "clog_init_level_tags cx m =
     (case init_tags_loop 0 (cx_tags cx) m of (r, tags, m) \<Rightarrow> (r, cx\<lparr>cx_tags := tags\<rparr>, m))"

definition zero_context :: "('c, 'd, 'r, 'm) clog_context" where
  "zero_context = \<lparr>cx_state = CLOG_STATE_CREATED, cx_lock = False, cx_pool = None, cx_process = [],
     cx_mask = 0, cx_modules = None, cx_placeholders = None, cx_interpolator_context = None,
     cx_interpolator = None, cx_tags = replicate CLOG_LEVEL_NUM None, cx_pre = NULL, cx_post = NULL,
     cx_channel = None, cx_dispatcher = None, cx_recorders = None\<rparr>"

text \<open>\<open>has_context\<close>: the result pointer is not NULL. A name that does not fit leaks the context.\<close>

definition clog_context_create ::
    "('c, 'd, 'r, 'p, 'f, 'x) iface \<Rightarrow> ('f \<Rightarrow> 'p \<Rightarrow> ('p, 'f) fheap \<Rightarrow> ('p, 'f) fheap) \<Rightarrow> bool
     \<Rightarrow> string option \<Rightarrow> bool \<Rightarrow> ('p, 'f, 'x) world
     \<Rightarrow> (clog_res \<times> ('c, 'd, 'r, 'p, 'f, 'x) ctx option \<times> ('p, 'f, 'x) world) option" where
  "clog_context_create i dealloc init_ok process has_context w = (case process of
      None \<Rightarrow> Some (CLOG_INVALID_PARAM, None, w)
    | Some pr \<Rightarrow>
        if \<not> has_context then Some (CLOG_INVALID_PARAM, None, w)
        else case clog_malloc sizeof_context w of
          (False, w) \<Rightarrow> Some (CLOG_NO_MEMORY, None, w)
        | (True, w) \<Rightarrow>
            (case clog_strcpy True CASCA_LOG_PROCESS_NAME_MAX_SIZE (Some pr) of
               (ret, out) \<Rightarrow>
                 if ret \<noteq> CLOG_SUCCESS then Some (ret, None, w)
                 else
                   (let tmp = zero_context\<lparr>cx_process := (case out of None \<Rightarrow> [] | Some t \<Rightarrow> t)\<rparr> in
                    case clog_rwlock_create init_ok w of
                      (False, w) \<Rightarrow> Some (CLOG_FAIL, None, clog_free w)
                    | (True, w) \<Rightarrow>
                        (case clog_init_level_tags (tmp\<lparr>cx_lock := True\<rparr>) w of
                           (ret, tmp, w) \<Rightarrow>
                             if ret \<noteq> CLOG_SUCCESS
                             then map_option (\<lambda>w. (ret, None, w))
                                    (clog_context_destroy i dealloc (Some (Some tmp)) w)
                             else Some (CLOG_SUCCESS,
                               Some (tmp\<lparr>cx_mask := CLOG_LEVEL_ALL, cx_state := CLOG_STATE_CREATED\<rparr>), w)))))"

subsection \<open>Configuring a context\<close>

text \<open>
  The checks every operation begins with: the context pointer, then
  \<open>CLOG_CONTEXT_SETUP_STATE_CHECK\<close>.
\<close>

definition in_setup ::
    "('k \<Rightarrow> 'w \<Rightarrow> (clog_res \<times> 'k \<times> 'w) option) \<Rightarrow> ('k \<Rightarrow> clog_state) \<Rightarrow> 'k option \<Rightarrow> 'w
     \<Rightarrow> (clog_res \<times> 'k option \<times> 'w) option" where
  "in_setup body state context w = (case context of
      None \<Rightarrow> Some (CLOG_INVALID_PARAM, None, w)
    | Some cx \<Rightarrow>
        if state cx \<noteq> CLOG_STATE_CREATED then Some (CLOG_ABNORMAL_STATE, context, w)
        else map_option (\<lambda>(r, cx, w). (r, Some cx, w)) (body cx w))"

definition clog_set_mask :: "('c, 'd, 'r, 'm) clog_context option \<Rightarrow> 32 word \<Rightarrow> ('c, 'd, 'r, 'm) clog_context option" where
  "clog_set_mask context new_mask = (case context of
      None \<Rightarrow> None
    | Some cx \<Rightarrow> if cx_state cx \<noteq> CLOG_STATE_CREATED then context else Some (cx\<lparr>cx_mask := new_mask\<rparr>))"

definition clog_set_buffer_pool ::
    "clog_item \<Rightarrow> bool \<Rightarrow> 64 word \<Rightarrow> 64 word \<Rightarrow> ('c, 'd, 'r, 'p, 'f, 'x) ctx option \<Rightarrow> ('p, 'f, 'x) world
     \<Rightarrow> (clog_res \<times> ('c, 'd, 'r, 'p, 'f, 'x) ctx option \<times> ('p, 'f, 'x) world) option" where
  "clog_set_buffer_pool junk auto_expand capacity threshold = in_setup (\<lambda>cx w.
     if threshold = 0 \<or> 100 < threshold then Some (CLOG_INVALID_PARAM, cx, w)
     else if cx_pool cx \<noteq> None then Some (CLOG_ALREADY_EXISTED, cx, w)
     else case clog_buffer_pool_initialize junk True sizeof_log_item capacity auto_expand (ucast threshold) (w_items w) of
         None \<Rightarrow> None
       | Some (ret, pool, h) \<Rightarrow>
           if ret \<noteq> CLOG_SUCCESS then Some (ret, cx, w\<lparr>w_items := h\<rparr>)
           else Some (CLOG_SUCCESS, cx\<lparr>cx_pool := pool\<rparr>, w\<lparr>w_items := h\<rparr>)) cx_state"

subsection \<open>Modules\<close>

text \<open>
  The recorders of a module in a configuration. The guard lets \<open>num\<close> be 4, and the store that
  follows is then outside of the array, which is \<open>None\<close>.
\<close>

fun module_recorders ::
    "'f config_item list \<Rightarrow> nat \<Rightarrow> 32 word list \<Rightarrow> (clog_res + nat \<times> 32 word list) option" where
  "module_recorders [] num rs = Some (Inr (num, rs))"
| "module_recorders (data # items) num rs =
     (case read_uint (item_value data) of
        None \<Rightarrow> Some (Inl CLOG_ERROR_FORMAT)
      | Some u \<Rightarrow>
          if num > CASCA_LOG_TARGET_RECORDER_MAX_NUM then Some (Inl CLOG_OVERSIZE)
          else if length rs \<le> num then None
          else module_recorders items (num + 1) (rs[num := u]))"

definition module_of_group ::
    "32 word \<Rightarrow> 'f config_group \<Rightarrow> (clog_res + clog_module) option" where
  "module_of_group value module =
     (let tmp = \<lparr>md_name = [], md_level = value, md_num = 0,
                 md_recorders = replicate CASCA_LOG_TARGET_RECORDER_MAX_NUM 0\<rparr>
      in case clog_config_find_item_in_group (Some module) (Some ''recorder'') of
           None \<Rightarrow> Some (Inr tmp)
         | Some recorders \<Rightarrow>
             (case read_array (item_value recorders) of
                None \<Rightarrow> Some (Inl CLOG_ERROR_FORMAT)
              | Some data \<Rightarrow>
                  map_option (map_sum (\<lambda>e. e) (\<lambda>(n, rs). tmp\<lparr>md_num := n, md_recorders := rs\<rparr>))
                    (module_recorders data 0 (md_recorders tmp))))"

definition clog_init_process_module ::
    "32 word \<Rightarrow> 'f config_group \<Rightarrow> (clog_module, 'm) clog_hashmap option \<Rightarrow> 'm mem_scheme
     \<Rightarrow> (clog_res \<times> (clog_module, 'm) clog_hashmap option \<times> 'm mem_scheme) option" where
  "clog_init_process_module default_mask module mp m =
     (case clog_config_item_get_enabled (Some module) True True of
        (ret, enabled) \<Rightarrow>
          if ret \<noteq> CLOG_SUCCESS then Some (ret, mp, m)
          else if \<not> enabled then Some (CLOG_SUCCESS, mp, m)
          else
            (case (case clog_config_find_item_in_group_uint (Some module) (Some ''level'') True of
                     Inl e \<Rightarrow> if e = CLOG_TARGET_NOT_FOUND then Inr default_mask else Inl e
                   | Inr v \<Rightarrow> Inr v) of
               Inl e \<Rightarrow> Some (e, mp, m)
             | Inr value \<Rightarrow>
                 if CLOG_LEVEL_ALL < value then Some (CLOG_INVALID_PARAM, mp, m)
                 else (case module_of_group value module of
                         None \<Rightarrow> None
                       | Some (Inl e) \<Rightarrow> Some (e, mp, m)
                       | Some (Inr tmp) \<Rightarrow>
                           Some (clog_hashmap_put mp (map_option cstr_bytes (group_name module)) (Some tmp) m))))"

fun init_modules_loop ::
    "32 word \<Rightarrow> 'f config_group list \<Rightarrow> (clog_module, 'm) clog_hashmap option \<Rightarrow> 'm mem_scheme
     \<Rightarrow> (clog_res \<times> (clog_module, 'm) clog_hashmap option \<times> 'm mem_scheme) option" where
  "init_modules_loop default_mask [] mp m = Some (CLOG_SUCCESS, mp, m)"
| "init_modules_loop default_mask (child # children) mp m =
     (case clog_init_process_module default_mask child mp m of
        None \<Rightarrow> None
      | Some (ret, mp, m) \<Rightarrow>
          if ret \<noteq> CLOG_SUCCESS then Some (ret, mp, m) else init_modules_loop default_mask children mp m)"

text \<open>The map of modules, created when there is none.\<close>

definition need_modules ::
    "('c, 'd, 'r, 'm) clog_context \<Rightarrow> 'm mem_scheme \<Rightarrow> bool \<times> ('c, 'd, 'r, 'm) clog_context \<times> 'm mem_scheme" where
  "need_modules cx m =
     (if cx_modules cx = None then
        (case string_create sizeof_module 0 m of
           (None, m) \<Rightarrow> (False, cx, m)
         | (Some hm, m) \<Rightarrow> (True, cx\<lparr>cx_modules := Some hm\<rparr>, m))
      else (True, cx, m))"

definition clog_init_modules ::
    "('c, 'd, 'r, 'm) clog_context \<Rightarrow> 'f config_group \<Rightarrow> 'm mem_scheme
     \<Rightarrow> (clog_res \<times> ('c, 'd, 'r, 'm) clog_context \<times> 'm mem_scheme) option" where
  "clog_init_modules cx root m =
     (case clog_config_find_group (Some root) (Some [Some ''Process'', Some (cx_process cx)]) 2 of
        Returns grp \<Rightarrow>
          (case need_modules cx m of
             (False, cx, m) \<Rightarrow> Some (CLOG_NO_MEMORY, cx, m)
           | (True, cx, m) \<Rightarrow>
               map_option (\<lambda>(r, mp, m). (r, cx\<lparr>cx_modules := mp\<rparr>, m))
                 (init_modules_loop (cx_mask cx) (group_children grp) (cx_modules cx) m))
      | Returns_NULL \<Rightarrow> Some (CLOG_TARGET_NOT_FOUND, cx, m)
      | _ \<Rightarrow> None)"

definition clog_set_modules ::
    "(string \<Rightarrow> 'f option) \<Rightarrow> string option \<Rightarrow> ('c, 'd, 'r, 'm) clog_context option \<Rightarrow> 'm mem_scheme
     \<Rightarrow> (clog_res \<times> ('c, 'd, 'r, 'm) clog_context option \<times> 'm mem_scheme) option" where
  "clog_set_modules strtod config = in_setup (\<lambda>cx m.
     if config = None then Some (CLOG_INVALID_PARAM, cx, m)
     else if cx_modules cx \<noteq> None then Some (CLOG_ALREADY_EXISTED, cx, m)
     else case clog_config_parse strtod config m of
         (Returns root, m) \<Rightarrow>
           (case clog_init_modules cx root m of
              None \<Rightarrow> None
            | Some (ret, cx, m) \<Rightarrow> Some (ret, cx, clog_config_destroy_group root m))
       | (Returns_NULL, m) \<Rightarrow> Some (CLOG_ERROR_FORMAT, cx, m)
       | _ \<Rightarrow> None) cx_state"

definition clog_add_module ::
    "clog_module option \<Rightarrow> ('c, 'd, 'r, 'm) clog_context option \<Rightarrow> 'm mem_scheme
     \<Rightarrow> (clog_res \<times> ('c, 'd, 'r, 'm) clog_context option \<times> 'm mem_scheme) option" where
  "clog_add_module module = in_setup (\<lambda>cx m. case module of
      None \<Rightarrow> Some (CLOG_INVALID_PARAM, cx, m)
    | Some md \<Rightarrow>
        (case need_modules cx m of
           (False, cx, m) \<Rightarrow> Some (CLOG_NO_MEMORY, cx, m)
         | (True, cx, m) \<Rightarrow>
             (let target = (if md_level md = CLOG_LEVEL_UNSPECIFIED then md\<lparr>md_level := cx_mask cx\<rparr> else md) in
              case clog_hashmap_put (cx_modules cx) (Some (cstr_bytes (md_name md))) (Some target) m of
                (ret, mp, m) \<Rightarrow> Some (ret, cx\<lparr>cx_modules := mp\<rparr>, m)))) cx_state"

fun remove_modules ::
    "clog_module list \<Rightarrow> (clog_module, 'm) clog_hashmap option \<Rightarrow> 'm mem_scheme
     \<Rightarrow> (clog_module, 'm) clog_hashmap option \<times> 'm mem_scheme" where
  "remove_modules [] mp m = (mp, m)"
| "remove_modules (md # mds) mp m =
     (case clog_hashmap_remove mp (cstr_bytes (md_name md)) m of (_, mp, m) \<Rightarrow> remove_modules mds mp m)"

text \<open>\<open>before\<close> are the modules already added. The array has \<open>num\<close> elements.\<close>

fun add_modules_loop ::
    "clog_module list \<Rightarrow> clog_module list \<Rightarrow> ('c, 'd, 'r, 'm) clog_context \<Rightarrow> 'm mem_scheme
     \<Rightarrow> (clog_res \<times> ('c, 'd, 'r, 'm) clog_context \<times> 'm mem_scheme) option" where
  "add_modules_loop before [] cx m = Some (CLOG_SUCCESS, cx, m)"
| "add_modules_loop before (md # mds) cx m =
     (case clog_add_module (Some md) (Some cx) m of
        Some (ret, Some cx, m) \<Rightarrow>
          if ret \<noteq> CLOG_SUCCESS then
            (case remove_modules before (cx_modules cx) m of
               (mp, m) \<Rightarrow> Some (ret, cx\<lparr>cx_modules := mp\<rparr>, m))
          else add_modules_loop (before @ [md]) mds cx m
      | _ \<Rightarrow> None)"

definition clog_add_modules ::
    "clog_module list option \<Rightarrow> ('c, 'd, 'r, 'm) clog_context option \<Rightarrow> 'm mem_scheme
     \<Rightarrow> (clog_res \<times> ('c, 'd, 'r, 'm) clog_context option \<times> 'm mem_scheme) option" where
  "clog_add_modules modules = in_setup (\<lambda>cx m. case modules of
      None \<Rightarrow> Some (CLOG_INVALID_PARAM, cx, m)
    | Some mds \<Rightarrow>
        if length mds = 0 then Some (CLOG_INVALID_PARAM, cx, m) else add_modules_loop [] mds cx m) cx_state"

end
