(* ===== verification/Core_Log.thy ===== *)
theory Core_Log
  imports Core
begin

unbundle bit_operations_syntax

text \<open>
  The second half of casca_log_core.c: log format, tags, filters, channel, dispatcher and
  recorders of a context, its start (\<open>clog_context_setup\<close>), and logging. The conventions are
  those of Core.
\<close>

subsection \<open>Formats and tags\<close>

definition share_placeholders ::
    "(clog_item_wrapper handler, 'm) clog_interpolator_context option \<Rightarrow> ('c, 'd, 'r, 'm) clog_context
     \<Rightarrow> ('c, 'd, 'r, 'm) clog_context" where
  "share_placeholders ic cx =
     cx\<lparr>cx_interpolator_context := ic,
        cx_placeholders := (case ic of None \<Rightarrow> cx_placeholders cx | Some c \<Rightarrow> Some (ic_map c))\<rparr>"

definition clog_init_log_format_interpolator_context ::
    "('c, 'd, 'r, 'm) clog_context \<Rightarrow> 'm mem_scheme \<Rightarrow> clog_res \<times> ('c, 'd, 'r, 'm) clog_context \<times> 'm mem_scheme" where
  "clog_init_log_format_interpolator_context cx m =
     (if cx_interpolator_context cx \<noteq> None then (CLOG_SUCCESS, cx, m)
      else
        (case (if cx_placeholders cx = None then clog_log_format_default_placeholder_map_create m
               else (cx_placeholders cx, m)) of
           (None, m) \<Rightarrow> (CLOG_FAIL, cx, m)
         | (Some hm, m) \<Rightarrow>
             (case clog_interpolator_context_create (Some hm) m of
                (ic, m) \<Rightarrow>
                  ((if ic = None then CLOG_FAIL else CLOG_SUCCESS),
                   cx\<lparr>cx_placeholders := Some hm, cx_interpolator_context := ic\<rparr>, m))))"

definition clog_register_log_format_placeholder ::
    "string option \<Rightarrow> clog_item_wrapper handler option \<Rightarrow> ('c, 'd, 'r, 'm) clog_context option \<Rightarrow> 'm mem_scheme
     \<Rightarrow> (clog_res \<times> ('c, 'd, 'r, 'm) clog_context option \<times> 'm mem_scheme) option" where
  "clog_register_log_format_placeholder name handler = in_setup (\<lambda>cx m.
     if name = None then Some (CLOG_INVALID_PARAM, cx, m)
     else if handler = None then Some (CLOG_INVALID_PARAM, cx, m)
     else case clog_init_log_format_interpolator_context cx m of
       (ret, cx, m) \<Rightarrow>
         if ret \<noteq> CLOG_SUCCESS then Some (ret, cx, m)
         else (case clog_interpolator_context_register (cx_interpolator_context cx) name handler m of
                 (ret, ic, m) \<Rightarrow> Some (ret, share_placeholders ic cx, m))) cx_state"

definition clog_set_log_format ::
    "string option \<Rightarrow> ('c, 'd, 'r, 'm) clog_context option \<Rightarrow> 'm mem_scheme
     \<Rightarrow> (clog_res \<times> ('c, 'd, 'r, 'm) clog_context option \<times> 'm mem_scheme) option" where
  "clog_set_log_format format = in_setup (\<lambda>cx m.
     if format = None then Some (CLOG_INVALID_PARAM, cx, m)
     else case clog_interpolator_clear (cx_interpolator cx) m of
       None \<Rightarrow> None
     | Some m \<Rightarrow>
         (case clog_init_log_format_interpolator_context (cx\<lparr>cx_interpolator := None\<rparr>) m of
            (ret, cx, m) \<Rightarrow>
              if ret \<noteq> CLOG_SUCCESS then Some (ret, cx, m)
              else map_option (\<lambda>(ret, ip, ic, m). (ret, (share_placeholders ic cx)\<lparr>cx_interpolator := ip\<rparr>, m))
                     (clog_interpolator_parse (cx_interpolator_context cx) format m))) cx_state"

definition clog_set_level_tags ::
    "clog_level \<Rightarrow> string option \<Rightarrow> ('c, 'd, 'r, 'm) clog_context option \<Rightarrow> 'm mem_scheme
     \<Rightarrow> (clog_res \<times> ('c, 'd, 'r, 'm) clog_context option \<times> 'm mem_scheme) option" where
  "clog_set_level_tags level tag = in_setup (\<lambda>cx m.
     if level = CLOG_LEVEL_OFF \<or> CLOG_LEVEL_FETAL < level then Some (CLOG_INVALID_PARAM, cx, m)
     else if tag = None then Some (CLOG_INVALID_PARAM, cx, m)
     else case clog_strdup tag m of
       (None, m) \<Rightarrow> Some (CLOG_NO_MEMORY, cx, m)
     | (Some tag_copy, m) \<Rightarrow>
         (let (tags, m) = safe_free_tag (level_code level - 1) (cx_tags cx, m) in
          Some (CLOG_SUCCESS, cx\<lparr>cx_tags := tags[level_code level - 1 := Some tag_copy]\<rparr>, m))) cx_state"

subsection \<open>Filters, channel, dispatcher, recorders\<close>

text \<open>A filter is its address, NULL or one in the heap of the filters.\<close>

definition clog_add_filter ::
    "addr \<Rightarrow> ('c, 'd, 'r, 'p, 'f, 'x) ctx option \<Rightarrow> ('p, 'f, 'x) world
     \<Rightarrow> (clog_res \<times> ('c, 'd, 'r, 'p, 'f, 'x) ctx option \<times> ('p, 'f, 'x) world) option" where
  "clog_add_filter filt = in_setup (\<lambda>cx w.
     if filt = NULL then Some (CLOG_INVALID_PARAM, cx, w)
     else case cells (w_filters w) filt of
       None \<Rightarrow> None
     | Some f \<Rightarrow>
         if fl_type f \<noteq> CLOG_FILTER_PRE \<and> fl_type f \<noteq> CLOG_FILTER_POST then Some (CLOG_INVALID_PARAM, cx, w)
         else if fl_filter f = None then Some (CLOG_INVALID_PARAM, cx, w)
         else if fl_next f \<noteq> NULL then Some (CLOG_INVALID_PARAM, cx, w)
         else if fl_type f = CLOG_FILTER_PRE then
           map_option (\<lambda>(a, h). (CLOG_SUCCESS, cx\<lparr>cx_pre := a\<rparr>, w\<lparr>w_filters := h\<rparr>))
             (clog_add_filter_to_chain (cx_pre cx) filt (w_filters w))
         else
           map_option (\<lambda>(a, h). (CLOG_SUCCESS, cx\<lparr>cx_post := a\<rparr>, w\<lparr>w_filters := h\<rparr>))
             (clog_add_filter_to_chain (cx_post cx) filt (w_filters w))) cx_state"

text \<open>
  A channel's and a dispatcher's \<open>context\<close> is the context that is passed to its functions.
\<close>

definition clog_set_channel ::
    "('c, 'd, 'r, 'p, 'f, 'x) iface \<Rightarrow> 'c option \<Rightarrow> ('c, 'd, 'r, 'p, 'f, 'x) ctx option \<Rightarrow> ('p, 'f, 'x) world
     \<Rightarrow> (clog_res \<times> ('c, 'd, 'r, 'p, 'f, 'x) ctx option \<times> ('p, 'f, 'x) world) option" where
  "clog_set_channel i channel = in_setup (\<lambda>cx w. case channel of
      None \<Rightarrow> Some (CLOG_INVALID_PARAM, cx, w)
    | Some c \<Rightarrow>
        if ch_open i c = None \<or> ch_write i c = None \<or> ch_read i c = None \<or> ch_close i c = None
        then Some (CLOG_INVALID_PARAM, cx, w)
        else map_option (\<lambda>(cx, w). (CLOG_SUCCESS, cx\<lparr>cx_channel := channel\<rparr>, w))
               (channel_destroy i (cx_channel cx) (cx, w))) cx_state"

definition clog_set_dispatcher ::
    "('c, 'd, 'r, 'p, 'f, 'x) iface \<Rightarrow> 'd option \<Rightarrow> ('c, 'd, 'r, 'p, 'f, 'x) ctx option \<Rightarrow> ('p, 'f, 'x) world
     \<Rightarrow> (clog_res \<times> ('c, 'd, 'r, 'p, 'f, 'x) ctx option \<times> ('p, 'f, 'x) world) option" where
  "clog_set_dispatcher i dispatcher = in_setup (\<lambda>cx w. case dispatcher of
      None \<Rightarrow> Some (CLOG_INVALID_PARAM, cx, w)
    | Some d \<Rightarrow>
        if di_channel i d w \<noteq> None then Some (CLOG_INVALID_PARAM, cx, w)
        else if di_open i d = None \<or> di_notify i d = None \<or> di_close i d = None
        then Some (CLOG_INVALID_PARAM, cx, w)
        else map_option (\<lambda>(cx, w). (CLOG_SUCCESS, cx\<lparr>cx_dispatcher := dispatcher\<rparr>, w))
               (clog_dispatcher_destroy i (cx_dispatcher cx) (cx, w))) cx_state"

definition clog_recoder_dup :: "'r \<Rightarrow> 'm mem_scheme \<Rightarrow> 'r option \<times> 'm mem_scheme" where
  "clog_recoder_dup r m = (Some r, m)"

definition clog_recoder_free :: "('c, 'd, 'r, 'k, 'w) interface \<Rightarrow> 'r \<Rightarrow> 'w \<Rightarrow> 'w" where
  "clog_recoder_free i r w = clog_recorder_destroy i r w"

abbreviation recorders_create ::
    "('c, 'd, 'r, 'k, 'm mem_scheme) interface \<Rightarrow> 'm mem_scheme \<Rightarrow> ('r, 'm) clog_hashmap option \<times> 'm mem_scheme" where
  "recorders_create i m \<equiv> clog_hashmap_create 4 0 None None (Some clog_recoder_dup)
     (Some (clog_recoder_free i)) None None 0 m"

definition clog_add_recorder ::
    "('c, 'd, 'r, 'p, 'f, 'x) iface \<Rightarrow> 'r option \<Rightarrow> ('c, 'd, 'r, 'p, 'f, 'x) ctx option \<Rightarrow> ('p, 'f, 'x) world
     \<Rightarrow> (clog_res \<times> ('c, 'd, 'r, 'p, 'f, 'x) ctx option \<times> ('p, 'f, 'x) world) option" where
  "clog_add_recorder i recorder = in_setup (\<lambda>cx w. case recorder of
      None \<Rightarrow> Some (CLOG_INVALID_PARAM, cx, w)
    | Some r \<Rightarrow>
        if re_open i r = None \<or> re_write i r = None \<or> re_flush i r = None \<or> re_close i r = None
        then Some (CLOG_INVALID_PARAM, cx, w)
        else case (if cx_recorders cx = None then recorders_create i w else (cx_recorders cx, w)) of
          (None, w) \<Rightarrow> Some (CLOG_NO_MEMORY, cx, w)
        | (Some hm, w) \<Rightarrow>
            (case clog_hashmap_put (Some hm) (Some (id_bytes (re_id i r))) (Some r) w of
               (ret, hm, w) \<Rightarrow> Some (ret, cx\<lparr>cx_recorders := hm\<rparr>, w))) cx_state"

subsection \<open>Setup\<close>

partial_function (option) open_recorders ::
    "('c, 'd, 'r, 'k, 'w) interface \<Rightarrow> ('r, 'm) clog_hashmap \<Rightarrow> 'r clog_hashmap_iterator \<Rightarrow> 'w
     \<Rightarrow> (clog_res \<times> 'w) option" where
  "open_recorders i hm it w = (case clog_hashmap_iterator_key (Some it) of
      None \<Rightarrow> Some (CLOG_SUCCESS, w)
    | Some k \<Rightarrow> (case clog_hashmap_iterator_value (Some it) of
          None \<Rightarrow> Some (CLOG_FAIL, w)
        | Some r \<Rightarrow> (case call (re_open i r) w of
              None \<Rightarrow> None
            | Some (ret, w) \<Rightarrow>
                if ret \<noteq> CLOG_SUCCESS then Some (ret, w)
                else if fst (clog_hashmap_iterator_next hm it)
                then open_recorders i hm (snd (clog_hashmap_iterator_next hm it)) w
                else Some (CLOG_SUCCESS, w))))"

definition start_recorders ::
    "('c, 'd, 'r, 'p, 'f, 'x) iface \<Rightarrow> ('c, 'd, 'r, 'p, 'f, 'x) ctx \<Rightarrow> ('p, 'f, 'x) world
     \<Rightarrow> (clog_res \<times> ('p, 'f, 'x) world) option" where
  "start_recorders i cx w = (case clog_hashmap_iterator_create (cx_recorders cx) w of
      (None, w) \<Rightarrow> Some (CLOG_FAIL, w)
    | (Some it, w) \<Rightarrow>
        (case cx_recorders cx of
           None \<Rightarrow> None
         | Some hm \<Rightarrow>
             map_option (\<lambda>(ret, w). (ret, snd (clog_hashmap_iterator_destroy (Some it) w)))
               (open_recorders i hm it w)))"

definition clog_context_setup ::
    "('c, 'd, 'r, 'p, 'f, 'x) iface \<Rightarrow> ('c, 'd, 'r, 'p, 'f, 'x) ctx option \<Rightarrow> ('p, 'f, 'x) world
     \<Rightarrow> (clog_res \<times> ('c, 'd, 'r, 'p, 'f, 'x) ctx option \<times> ('p, 'f, 'x) world) option" where
  "clog_context_setup i = in_setup (\<lambda>cx w.
     if cx_modules cx = None \<or> cx_interpolator cx = None then Some (CLOG_NOT_COMPLETED, cx, w)
     else case (cx_channel cx, cx_dispatcher cx) of
       (Some c, Some d) \<Rightarrow>
         (case call (ch_open i c) (cx, w) of
            None \<Rightarrow> None
          | Some (ret, cx, w) \<Rightarrow>
              if ret \<noteq> CLOG_SUCCESS then Some (ret, cx, w)
              else (case call (di_open i d) (cx, di_set_channel i d c w) of
                  None \<Rightarrow> None
                | Some (ret, cx, w) \<Rightarrow>
                    if ret \<noteq> CLOG_SUCCESS then Some (ret, cx, w)
                    else (case di_notify i d of
                        None \<Rightarrow> None
                      | Some notify \<Rightarrow> (case notify CLOG_DISPATCHER_EVENT_START (cx, w) of
                            None \<Rightarrow> None
                          | Some (cx, w) \<Rightarrow> (case start_recorders i cx w of
                                None \<Rightarrow> None
                              | Some (ret, w) \<Rightarrow>
                                  if ret \<noteq> CLOG_SUCCESS then Some (ret, cx, w)
                                  else
                                    (let w = snd (clog_interpolator_context_destroy (cx_interpolator_context cx) w);
                                         w = snd (clog_hashmap_destroy (cx_placeholders cx) w)
                                     in Some (CLOG_SUCCESS,
                                          cx\<lparr>cx_interpolator_context := None, cx_placeholders := None,
                                             cx_state := CLOG_STATE_RUNNING\<rparr>, w)))))))
     | _ \<Rightarrow> Some (CLOG_NOT_COMPLETED, cx, w)) cx_state"

subsection \<open>Logging\<close>

text \<open>
  What one call of \<open>clog_record_log\<close> or \<open>clog_module_log\<close> comes with besides the module: the
  macros' arguments, the text \<open>vsnprintf\<close> makes of the format, the clock, the thread, and what
  the item's memory held before. \<open>1 << (level - 1)\<close> is undefined for level 0.
\<close>

record log_call =
  lc_file :: string
  lc_function :: string
  lc_line :: "32 word"
  lc_level :: clog_level
  lc_text :: "string option"
  lc_now :: clog_datetime
  lc_tid :: "64 word"
  lc_junk :: clog_item
  lc_buffer :: string

definition level_bit :: "clog_level \<Rightarrow> 32 word option" where
  "level_bit level = (if level = CLOG_LEVEL_OFF then None else Some (push_bit (level_code level - 1) 1))"

fun find_recorder :: "32 word list \<Rightarrow> nat \<Rightarrow> nat \<Rightarrow> 32 word \<Rightarrow> bool option" where
  "find_recorder rs i 0 recorder = Some False"
| "find_recorder rs i (Suc n) recorder =
     (if length rs \<le> i then None
      else if rs ! i = recorder then Some True else find_recorder rs (Suc i) n recorder)"

definition clog_module_check :: "clog_module \<Rightarrow> clog_level \<Rightarrow> 32 word \<Rightarrow> bool option" where
  "clog_module_check info level recorder = (case level_bit level of
      None \<Rightarrow> None
    | Some b \<Rightarrow>
        if b AND md_level info = 0 then Some False
        else find_recorder (md_recorders info) 0 (md_num info) recorder)"

definition clog_item_init_datetime :: "clog_datetime \<Rightarrow> clog_item \<Rightarrow> clog_item option" where
  "clog_item_init_datetime time item =
     map_option (\<lambda>ts. item\<lparr>it_year := dt_year time, it_month := dt_month time, it_day := dt_day time,
         it_hour := dt_hour time, it_minute := dt_minute time, it_second := dt_second time,
         it_millisecond := dt_millisecond time, it_timestamp := ts\<rparr>)
       (clog_timestamp_of_datetime (Some time) 8 0)"

definition fresh_item :: "log_call \<Rightarrow> clog_item option" where
  "fresh_item lc =
     map_option (\<lambda>item. item\<lparr>it_tid := lc_tid lc, it_line := lc_line lc,
         it_level := of_nat (level_code (lc_level lc))\<rparr>)
       (clog_item_init_datetime (lc_now lc)
          ((lc_junk lc)\<lparr>it_magic := CASCA_LOG_MAGIC, it_version := CASCA_LOG_VERSION\<rparr>))"

text \<open>The address of the item and the wrapper; the wrapper's \<open>log\<close> is what the address holds.\<close>

definition clog_init_item_wrapper ::
    "string \<Rightarrow> log_call \<Rightarrow> ('c, 'd, 'r, 'p, 'f, 'x) ctx \<Rightarrow> ('p, 'f, 'x) world
     \<Rightarrow> (clog_res \<times> (addr \<times> clog_item_wrapper) option \<times> ('c, 'd, 'r, 'p, 'f, 'x) ctx \<times> ('p, 'f, 'x) world) option" where
  "clog_init_item_wrapper module lc cx w =
     (case clog_acquire_log_item (lc_junk lc) (Some cx) w of
        Some (a, Some cx, w) \<Rightarrow>
          if a = NULL then Some (CLOG_NO_MEMORY, None, cx, w)
          else if level_code (lc_level lc) = 0 \<or> length (cx_tags cx) < level_code (lc_level lc) then None
          else (case (cx_tags cx ! (level_code (lc_level lc) - 1), fresh_item lc) of
              (Some tag, Some item) \<Rightarrow>
                map_option (\<lambda>w. (CLOG_SUCCESS,
                    Some (a, \<lparr>wr_process = cx_process cx, wr_module = module, wr_filename = lc_file lc,
                              wr_function = lc_function lc, wr_tag = tag, wr_text = lc_text lc,
                              wr_log = item\<rparr>), cx, w))
                  (write_item a (\<lambda>_. item) w)
            | _ \<Rightarrow> None)
      | _ \<Rightarrow> None)"

text \<open>
  The array of recorders of an item: those given, padded with \<open>CLOG_RECORDER_ID_INVALID\<close>.
\<close>

definition item_recorders :: "32 word list \<Rightarrow> nat \<Rightarrow> 32 word list" where
  "item_recorders recorders num =
     map (\<lambda>i. if i < num then recorders ! i else CLOG_RECORDER_ID_INVALID) [0..<CASCA_LOG_TARGET_RECORDER_MAX_NUM]"

text \<open>The C string in the item's buffer.\<close>

definition content_of :: "string \<Rightarrow> string" where
  "content_of buf = takeWhile (\<lambda>c. c \<noteq> CHR 0x00) buf"

definition clog_log_internal ::
    "('c, 'd, 'r, 'p, 'f, 'x) iface \<Rightarrow> 32 word list \<Rightarrow> nat \<Rightarrow> addr \<Rightarrow> clog_item_wrapper \<Rightarrow> log_call
     \<Rightarrow> ('c, 'd, 'r, 'p, 'f, 'x) ctx \<Rightarrow> ('p, 'f, 'x) world
     \<Rightarrow> (clog_res \<times> ('c, 'd, 'r, 'p, 'f, 'x) ctx \<times> ('p, 'f, 'x) world) option" where
  "clog_log_internal i recorders num a wrapper lc cx w =
     (case clog_filter_log (w_filters w) (cx_pre cx) (Some wrapper) of
        None \<Rightarrow> None
      | Some pass \<Rightarrow>
          if \<not> pass then Some (CLOG_NOT_PERMITTED, cx, w)
          else case clog_format_log (cx_interpolator cx) (Some wrapper) (Some (lc_buffer lc))
                      CASCA_LOG_SINGLE_LOG_MAX_SIZE True of
            Some (ret, Some wrapper, Some buf, len) \<Rightarrow>
              (let item = (wr_log wrapper)\<lparr>it_content := content_of buf\<rparr> in
               case write_item a (\<lambda>_. item) w of
                 None \<Rightarrow> None
               | Some w \<Rightarrow>
                   if ret \<noteq> CLOG_SUCCESS then Some (ret, cx, w)
                   else
                     (let item = item\<lparr>it_length := of_nat (case len of None \<Rightarrow> 0 | Some n \<Rightarrow> n)\<rparr> in
                      case clog_filter_log (w_filters w) (cx_post cx) (Some (wrapper\<lparr>wr_log := item\<rparr>)) of
                        None \<Rightarrow> None
                      | Some pass \<Rightarrow>
                          if \<not> pass then Some (CLOG_NOT_PERMITTED, cx, w)
                          else
                            (case write_item a (\<lambda>_. item\<lparr>it_recorder := item_recorders recorders num\<rparr>) w of
                               None \<Rightarrow> None
                             | Some w \<Rightarrow>
                                 (case (cx_channel cx, cx_dispatcher cx) of
                                    (Some c, Some d) \<Rightarrow>
                                      (case ch_write i c of
                                         None \<Rightarrow> None
                                       | Some wr \<Rightarrow>
                                           (case wr a (cx, w) of
                                              None \<Rightarrow> None
                                            | Some (res, cx, w) \<Rightarrow>
                                                if res = CLOG_SUCCESS then
                                                  (case di_notify i d of
                                                     None \<Rightarrow> None
                                                   | Some notify \<Rightarrow>
                                                       map_option (Pair res) (notify CLOG_DISPATCHER_EVENT_DATA (cx, w)))
                                                else Some (res, cx, w)))
                                  | _ \<Rightarrow> None))))
          | _ \<Rightarrow> None)"

text \<open>
  The common end of the two internal functions (lines 612-617 and 648-653): the item, the log,
  and the release of the item after a failure.
\<close>

definition log_item ::
    "('c, 'd, 'r, 'p, 'f, 'x) iface \<Rightarrow> 32 word list \<Rightarrow> nat \<Rightarrow> string \<Rightarrow> log_call
     \<Rightarrow> ('c, 'd, 'r, 'p, 'f, 'x) ctx \<Rightarrow> ('p, 'f, 'x) world
     \<Rightarrow> (clog_res \<times> ('c, 'd, 'r, 'p, 'f, 'x) ctx \<times> ('p, 'f, 'x) world) option" where
  "log_item i recorders num module lc cx w =
     (case clog_init_item_wrapper module lc cx w of
        None \<Rightarrow> None
      | Some (ret, None, cx, w) \<Rightarrow> Some (ret, cx, w)
      | Some (ret, Some (a, wrapper), cx, w) \<Rightarrow>
          (case clog_log_internal i recorders num a wrapper lc cx w of
             None \<Rightarrow> None
           | Some (ret, cx, w) \<Rightarrow>
               if ret \<noteq> CLOG_SUCCESS then
                 map_option (\<lambda>(cx, w). (ret, cx, w)) (release_in a (cx, w))
               else Some (ret, cx, w)))"

definition clog_record_log_internal ::
    "('c, 'd, 'r, 'p, 'f, 'x) iface \<Rightarrow> string option \<Rightarrow> 32 word \<Rightarrow> log_call
     \<Rightarrow> ('c, 'd, 'r, 'p, 'f, 'x) ctx \<Rightarrow> ('p, 'f, 'x) world
     \<Rightarrow> (clog_res \<times> ('c, 'd, 'r, 'p, 'f, 'x) ctx \<times> ('p, 'f, 'x) world) option" where
  "clog_record_log_internal i module recorder lc cx w =
     (case clog_hashmap_get (cx_modules cx) (map_option cstr_bytes module) of
        (info, mp) \<Rightarrow>
          (let cx = cx\<lparr>cx_modules := mp\<rparr> in
           case (info, module) of
             (Some info, Some name) \<Rightarrow>
               (case clog_module_check info (lc_level lc) recorder of
                  None \<Rightarrow> None
                | Some False \<Rightarrow> Some (CLOG_NOT_PERMITTED, cx, w)
                | Some True \<Rightarrow> log_item i [recorder] 1 name lc cx w)
           | _ \<Rightarrow> Some (CLOG_TARGET_NOT_FOUND, cx, w)))"

definition clog_module_log_internal ::
    "('c, 'd, 'r, 'p, 'f, 'x) iface \<Rightarrow> string option \<Rightarrow> log_call
     \<Rightarrow> ('c, 'd, 'r, 'p, 'f, 'x) ctx \<Rightarrow> ('p, 'f, 'x) world
     \<Rightarrow> (clog_res \<times> ('c, 'd, 'r, 'p, 'f, 'x) ctx \<times> ('p, 'f, 'x) world) option" where
  "clog_module_log_internal i module lc cx w =
     (case clog_hashmap_get (cx_modules cx) (map_option cstr_bytes module) of
        (info, mp) \<Rightarrow>
          (let cx = cx\<lparr>cx_modules := mp\<rparr> in
           case (info, module) of
             (Some info, Some name) \<Rightarrow>
               (case level_bit (lc_level lc) of
                  None \<Rightarrow> None
                | Some b \<Rightarrow>
                    if b AND md_level info = 0 then Some (CLOG_NOT_PERMITTED, cx, w)
                    else if md_num info = 0 then Some (CLOG_TARGET_NOT_FOUND, cx, w)
                    else log_item i (md_recorders info) (md_num info) name lc cx w)
           | _ \<Rightarrow> Some (CLOG_TARGET_NOT_FOUND, cx, w)))"

text \<open>The checks of the two public functions, with \<open>CLOG_CONTEXT_LOG_STATE_CHECK\<close>.\<close>

definition in_running ::
    "('k \<Rightarrow> 'w \<Rightarrow> (clog_res \<times> 'k \<times> 'w) option) \<Rightarrow> ('k \<Rightarrow> clog_state) \<Rightarrow> 'k option \<Rightarrow> 'w
     \<Rightarrow> (clog_res \<times> 'k option \<times> 'w) option" where
  "in_running body state context w = (case context of
      None \<Rightarrow> Some (CLOG_INVALID_PARAM, None, w)
    | Some cx \<Rightarrow>
        if state cx \<noteq> CLOG_STATE_RUNNING then Some (CLOG_ABNORMAL_STATE, context, w)
        else map_option (\<lambda>(r, cx, w). (r, Some cx, w)) (body cx w))"

definition clog_record_log ::
    "('c, 'd, 'r, 'p, 'f, 'x) iface \<Rightarrow> string option \<Rightarrow> 32 word \<Rightarrow> log_call
     \<Rightarrow> ('c, 'd, 'r, 'p, 'f, 'x) ctx option \<Rightarrow> ('p, 'f, 'x) world
     \<Rightarrow> (clog_res \<times> ('c, 'd, 'r, 'p, 'f, 'x) ctx option \<times> ('p, 'f, 'x) world) option" where
  "clog_record_log i module recorder lc = in_running (clog_record_log_internal i module recorder lc) cx_state"

definition clog_module_log ::
    "('c, 'd, 'r, 'p, 'f, 'x) iface \<Rightarrow> string option \<Rightarrow> log_call
     \<Rightarrow> ('c, 'd, 'r, 'p, 'f, 'x) ctx option \<Rightarrow> ('p, 'f, 'x) world
     \<Rightarrow> (clog_res \<times> ('c, 'd, 'r, 'p, 'f, 'x) ctx option \<times> ('p, 'f, 'x) world) option" where
  "clog_module_log i module lc = in_running (clog_module_log_internal i module lc) cx_state"

end
