(* ===== verification/Core_Correct.thy ===== *)
theory Core_Correct
  imports Core_Log
begin

unbundle bit_operations_syntax

text \<open>
  The context as a state machine. \<open>api_step\<close> is one call of the public interface. The locale
  \<open>plugins\<close> is what the core relies on of channels and dispatchers: their functions leave the
  configuration of the context alone. From it follow the lifecycle of a context and that a
  running context keeps its configuration.
\<close>

subsection \<open>What stays\<close>

definition frozen where
  "frozen cx = (cx_state cx, cx_process cx, cx_mask cx, cx_interpolator cx, cx_tags cx, cx_pre cx,
     cx_post cx, cx_channel cx, cx_dispatcher cx)"

definition module_of :: "('c, 'd, 'r, 'm) clog_context \<Rightarrow> string \<Rightarrow> clog_module option" where
  "module_of cx name = (case cx_modules cx of None \<Rightarrow> None | Some hm \<Rightarrow> hm_abs cstr hm name)"

definition modules_ok :: "('c, 'd, 'r, 'm) clog_context \<Rightarrow> bool" where
  "modules_ok cx \<longleftrightarrow> (\<forall>hm. cx_modules cx = Some hm \<longrightarrow> string_inv hm)"

definition same_config :: "('c, 'd, 'r, 'm) clog_context \<Rightarrow> ('c, 'd, 'r, 'm) clog_context \<Rightarrow> bool" where
  "same_config cx cx' \<longleftrightarrow> frozen cx' = frozen cx \<and> cx_modules cx' = cx_modules cx"

lemma same_config_refl [simp]: "same_config cx cx"
  by (simp add: same_config_def)

lemma same_config_trans [trans]: "same_config a b \<Longrightarrow> same_config b c \<Longrightarrow> same_config a c"
  by (simp add: same_config_def)

lemma same_config_updates [simp]:
  "same_config cx (cx\<lparr>cx_pool := p\<rparr>)" "same_config cx (cx\<lparr>cx_recorders := rs\<rparr>)"
  by (simp_all add: same_config_def frozen_def)

lemma same_config_state: "same_config cx cx' \<Longrightarrow> cx_state cx' = cx_state cx"
  by (simp add: same_config_def frozen_def)

lemma same_config_parts:
  assumes "same_config cx cx'"
  shows "cx_modules cx' = cx_modules cx" "cx_interpolator cx' = cx_interpolator cx"
    "cx_channel cx' = cx_channel cx" "cx_dispatcher cx' = cx_dispatcher cx" "cx_pre cx' = cx_pre cx"
    "cx_post cx' = cx_post cx" "cx_process cx' = cx_process cx" "cx_tags cx' = cx_tags cx"
  using assms by (simp_all add: same_config_def frozen_def)

text \<open>The configuration as the caller sees it: the modules as a function of their names.\<close>

definition config_kept :: "('c, 'd, 'r, 'm) clog_context \<Rightarrow> ('c, 'd, 'r, 'm) clog_context \<Rightarrow> bool" where
  "config_kept cx cx' \<longleftrightarrow> frozen cx' = frozen cx \<and> module_of cx' = module_of cx \<and>
     (modules_ok cx \<longrightarrow> modules_ok cx')"

lemma config_kept_refl [simp]: "config_kept cx cx"
  by (simp add: config_kept_def)

lemma config_kept_trans [trans]: "config_kept a b \<Longrightarrow> config_kept b c \<Longrightarrow> config_kept a c"
  by (simp add: config_kept_def)

lemma same_config_kept: "same_config cx cx' \<Longrightarrow> config_kept cx cx'"
  by (simp add: same_config_def config_kept_def module_of_def [abs_def] modules_ok_def)

lemma get_module:
  assumes "modules_ok cx" and get: "clog_hashmap_get (cx_modules cx) (map_option cstr_bytes name) = (r, mp)"
  shows "r = (case name of None \<Rightarrow> None | Some n \<Rightarrow> module_of cx (cstr (cstr_bytes n))) \<and>
    config_kept cx (cx\<lparr>cx_modules := mp\<rparr>)"
proof (cases "cx_modules cx")
  case None
  with get show ?thesis
    by (cases name) (auto simp: clog_hashmap_get_def module_of_def [abs_def] config_kept_def frozen_def modules_ok_def)
next
  case (Some hm)
  show ?thesis
  proof (cases name)
    case None
    with get Some have "r = None" "mp = Some hm" by (simp_all add: clog_hashmap_get_def)
    with Some None have "cx\<lparr>cx_modules := mp\<rparr> = cx" by simp
    with None \<open>r = None\<close> show ?thesis by simp
  next
    case n: (Some n)
    obtain v hm' where g: "get_nn hm (cstr_bytes n) = (v, hm')" by (metis surj_pair)
    have inv: "string_inv hm" using assms(1) Some by (simp add: modules_ok_def)
    from string_keys.get_spec [OF inv g] have
      "v = hm_abs cstr hm (cstr (cstr_bytes n))" "string_inv hm'" "hm_abs cstr hm' = hm_abs cstr hm" by simp_all
    with get g Some n show ?thesis
      by (auto simp: clog_hashmap_get_def module_of_def [abs_def] config_kept_def frozen_def modules_ok_def)
  qed
qed

subsection \<open>The plugged-in parts\<close>

locale plugins =
  fixes i :: "('c, 'd, 'r, 'p, 'f, 'x) iface"
  assumes open_keeps: "ch_open i c = Some f \<Longrightarrow> f s = Some (r, s') \<Longrightarrow> same_config (fst s) (fst s')"
    and write_keeps: "ch_write i c = Some g \<Longrightarrow> g a s = Some (r, s') \<Longrightarrow> same_config (fst s) (fst s')"
    and read_keeps: "ch_read i c = Some h \<Longrightarrow> h s = Some (r, item, s') \<Longrightarrow> same_config (fst s) (fst s')"
    and close_keeps: "ch_close i c = Some k \<Longrightarrow> k s = Some s' \<Longrightarrow> same_config (fst s) (fst s')"
    and d_open_keeps: "di_open i d = Some f \<Longrightarrow> f s = Some (r, s') \<Longrightarrow> same_config (fst s) (fst s')"
    and notify_keeps: "di_notify i d = Some n \<Longrightarrow> n ev s = Some s' \<Longrightarrow> same_config (fst s) (fst s')"
    and d_close_keeps: "di_close i d = Some k \<Longrightarrow> k s = Some s' \<Longrightarrow> same_config (fst s) (fst s')"

lemma acquire_keeps:
  "clog_acquire_log_item junk (Some cx) w = Some (a, cxo, w') \<Longrightarrow> \<exists>cx'. cxo = Some cx' \<and> same_config cx cx'"
  by (auto simp: clog_acquire_log_item_def split: if_splits prod.splits)

lemma release_keeps:
  "clog_release_log_item (Some cx) a w = Some (cxo, w') \<Longrightarrow> \<exists>cx'. cxo = Some cx' \<and> same_config cx cx'"
  by (auto simp: clog_release_log_item_def split: if_splits option.splits)

lemma release_in_keeps: "release_in a (cx, w) = Some (cx', w') \<Longrightarrow> same_config cx cx'"
  by (auto simp: release_in_def split: option.splits dest: release_keeps)

lemma get_recoder_keeps:
  "clog_get_recoder (Some cx) v = (r, cxo) \<Longrightarrow> \<exists>cx'. cxo = Some cx' \<and> same_config cx cx'"
  by (auto simp: clog_get_recoder_def split: if_splits prod.splits)

lemma init_wrapper_keeps:
  "clog_init_item_wrapper name lc cx w = Some (r, x, cx', w') \<Longrightarrow> same_config cx cx'"
  by (auto simp: clog_init_item_wrapper_def split: option.splits prod.splits if_splits dest: acquire_keeps)

context plugins
begin

lemma log_internal_keeps:
  "clog_log_internal i rs n a wrapper lc cx w = Some (r, cx', w') \<Longrightarrow> same_config cx cx'"
  by (auto simp: clog_log_internal_def Let_def split: option.splits prod.splits if_splits
      dest!: write_keeps notify_keeps intro: same_config_trans)

lemma log_item_keeps:
  "log_item i rs n name lc cx w = Some (r, cx', w') \<Longrightarrow> same_config cx cx'"
  by (auto simp: log_item_def split: option.splits prod.splits if_splits
      dest!: init_wrapper_keeps log_internal_keeps release_in_keeps intro: same_config_trans)

lemma record_log_keeps:
  assumes "modules_ok cx" "clog_record_log_internal i name rid lc cx w = Some (r, cx', w')"
  shows "config_kept cx cx'"
proof -
  obtain info mp where g: "clog_hashmap_get (cx_modules cx) (map_option cstr_bytes name) = (info, mp)"
    by (metis surj_pair)
  from get_module [OF assms(1) g] have k: "config_kept cx (cx\<lparr>cx_modules := mp\<rparr>)" by simp
  from assms(2) g have "same_config (cx\<lparr>cx_modules := mp\<rparr>) cx'"
    by (auto simp: clog_record_log_internal_def Let_def split: option.splits bool.splits dest: log_item_keeps)
  from config_kept_trans [OF k same_config_kept [OF this]] show ?thesis .
qed

lemma module_log_keeps:
  assumes "modules_ok cx" "clog_module_log_internal i name lc cx w = Some (r, cx', w')"
  shows "config_kept cx cx'"
proof -
  obtain info mp where g: "clog_hashmap_get (cx_modules cx) (map_option cstr_bytes name) = (info, mp)"
    by (metis surj_pair)
  from get_module [OF assms(1) g] have k: "config_kept cx (cx\<lparr>cx_modules := mp\<rparr>)" by simp
  from assms(2) g have "same_config (cx\<lparr>cx_modules := mp\<rparr>) cx'"
    by (auto simp: clog_module_log_internal_def Let_def split: option.splits if_splits dest: log_item_keeps)
  from config_kept_trans [OF k same_config_kept [OF this]] show ?thesis .
qed

end

subsection \<open>The public interface\<close>

datatype ('c, 'd, 'r) api_call =
    Api_set_mask "32 word" | Api_set_buffer_pool clog_item bool "64 word" "64 word"
  | Api_set_modules "string option" | Api_add_module "clog_module option"
  | Api_add_modules "clog_module list option"
  | Api_register_placeholder "string option" "clog_item_wrapper handler option"
  | Api_set_log_format "string option" | Api_set_level_tags clog_level "string option"
  | Api_add_filter addr | Api_set_channel "'c option" | Api_set_dispatcher "'d option"
  | Api_add_recorder "'r option" | Api_setup
  | Api_acquire clog_item | Api_release addr | Api_get_recoder "32 word"
  | Api_record_log "string option" "32 word" log_call | Api_module_log "string option" log_call

text \<open>Functions without a result code count as successful.\<close>

definition api_step ::
    "('c, 'd, 'r, 'p, 'f, 'x) iface \<Rightarrow> (string \<Rightarrow> 'g option) \<Rightarrow> ('c, 'd, 'r) api_call
     \<Rightarrow> ('c, 'd, 'r, 'p, 'f, 'x) ctx option \<Rightarrow> ('p, 'f, 'x) world
     \<Rightarrow> (clog_res \<times> ('c, 'd, 'r, 'p, 'f, 'x) ctx option \<times> ('p, 'f, 'x) world) option" where
  "api_step i strtod c cx w = (case c of
      Api_set_mask v \<Rightarrow> Some (CLOG_SUCCESS, clog_set_mask cx v, w)
    | Api_set_buffer_pool junk auto cap thr \<Rightarrow> clog_set_buffer_pool junk auto cap thr cx w
    | Api_set_modules config \<Rightarrow> clog_set_modules strtod config cx w
    | Api_add_module md \<Rightarrow> clog_add_module md cx w
    | Api_add_modules mds \<Rightarrow> clog_add_modules mds cx w
    | Api_register_placeholder name handler \<Rightarrow> clog_register_log_format_placeholder name handler cx w
    | Api_set_log_format fmt \<Rightarrow> clog_set_log_format fmt cx w
    | Api_set_level_tags level tag \<Rightarrow> clog_set_level_tags level tag cx w
    | Api_add_filter a \<Rightarrow> clog_add_filter a cx w
    | Api_set_channel ch \<Rightarrow> clog_set_channel i ch cx w
    | Api_set_dispatcher d \<Rightarrow> clog_set_dispatcher i d cx w
    | Api_add_recorder r \<Rightarrow> clog_add_recorder i r cx w
    | Api_setup \<Rightarrow> clog_context_setup i cx w
    | Api_acquire junk \<Rightarrow> map_option (\<lambda>(a, cx, w). (CLOG_SUCCESS, cx, w)) (clog_acquire_log_item junk cx w)
    | Api_release a \<Rightarrow> map_option (\<lambda>(cx, w). (CLOG_SUCCESS, cx, w)) (clog_release_log_item cx a w)
    | Api_get_recoder v \<Rightarrow> Some (CLOG_SUCCESS, snd (clog_get_recoder cx v), w)
    | Api_record_log name rid lc \<Rightarrow> clog_record_log i name rid lc cx w
    | Api_module_log name lc \<Rightarrow> clog_module_log i name lc cx w)"

fun api_run ::
    "('c, 'd, 'r, 'p, 'f, 'x) iface \<Rightarrow> (string \<Rightarrow> 'g option) \<Rightarrow> ('c, 'd, 'r) api_call list
     \<Rightarrow> ('c, 'd, 'r, 'p, 'f, 'x) ctx option \<Rightarrow> ('p, 'f, 'x) world
     \<Rightarrow> (clog_res list \<times> ('c, 'd, 'r, 'p, 'f, 'x) ctx option \<times> ('p, 'f, 'x) world) option" where
  "api_run i strtod [] cx w = Some ([], cx, w)"
| "api_run i strtod (c # cs) cx w =
     (case api_step i strtod c cx w of
        None \<Rightarrow> None
      | Some (r, cx, w) \<Rightarrow> map_option (\<lambda>(rs, s). (r # rs, s)) (api_run i strtod cs cx w))"

definition configures :: "('c, 'd, 'r) api_call \<Rightarrow> bool" where
  "configures c \<longleftrightarrow> (case c of
      Api_acquire _ \<Rightarrow> False | Api_release _ \<Rightarrow> False | Api_get_recoder _ \<Rightarrow> False
    | Api_record_log _ _ _ \<Rightarrow> False | Api_module_log _ _ \<Rightarrow> False | _ \<Rightarrow> True)"

definition logs :: "('c, 'd, 'r) api_call \<Rightarrow> bool" where
  "logs c \<longleftrightarrow> (case c of Api_record_log _ _ _ \<Rightarrow> True | Api_module_log _ _ \<Rightarrow> True | _ \<Rightarrow> False)"

definition ready :: "('c, 'd, 'r, 'm) clog_context \<Rightarrow> bool" where
  "ready cx \<longleftrightarrow> cx_modules cx \<noteq> None \<and> cx_interpolator cx \<noteq> None \<and> cx_channel cx \<noteq> None \<and>
     cx_dispatcher cx \<noteq> None \<and> cx_recorders cx \<noteq> None"

lemma in_setup_cases:
  assumes "in_setup body cx_state (Some cx) w = Some (r, cxo, w')"
  obtains (refused) "cx_state cx \<noteq> CLOG_STATE_CREATED" "r = CLOG_ABNORMAL_STATE" "cxo = Some cx" "w' = w"
    | (ok) cx' where "cx_state cx = CLOG_STATE_CREATED" "body cx w = Some (r, cx', w')" "cxo = Some cx'"
  using assms by (auto simp: in_setup_def split: if_splits)

lemma in_running_cases:
  assumes "in_running body cx_state (Some cx) w = Some (r, cxo, w')"
  obtains (refused) "cx_state cx \<noteq> CLOG_STATE_RUNNING" "r = CLOG_ABNORMAL_STATE" "cxo = Some cx" "w' = w"
    | (ok) cx' where "cx_state cx = CLOG_STATE_RUNNING" "body cx w = Some (r, cx', w')" "cxo = Some cx'"
  using assms by (auto simp: in_running_def split: if_splits)

text \<open>Every configuring call but setup keeps the state.\<close>

definition keeps_state :: "('k \<Rightarrow> 'w \<Rightarrow> (clog_res \<times> 'k \<times> 'w) option) \<Rightarrow> ('k \<Rightarrow> clog_state) \<Rightarrow> bool" where
  "keeps_state body state \<longleftrightarrow> (\<forall>cx w r cx' w'. body cx w = Some (r, cx', w') \<longrightarrow> state cx' = state cx)"

definition guarded where
  "guarded cx w r cxo w' \<longleftrightarrow> (\<exists>cx'. cxo = Some cx' \<and> cx_state cx' = cx_state cx \<and>
     (cx_state cx \<noteq> CLOG_STATE_CREATED \<longrightarrow> r = CLOG_ABNORMAL_STATE \<and> cx' = cx \<and> w' = w))"

lemma in_setup_state:
  assumes "keeps_state body cx_state" "in_setup body cx_state (Some cx) w = Some (r, cxo, w')"
  shows "guarded cx w r cxo w'"
  using assms(2)
proof (cases rule: in_setup_cases)
  case (ok cx')
  with assms(1) have "cx_state cx' = cx_state cx" unfolding keeps_state_def by blast
  with ok show ?thesis by (simp add: guarded_def)
qed (simp add: guarded_def)

lemma need_modules_state: "need_modules cx m = (b, cx', m') \<Longrightarrow> cx_state cx' = cx_state cx"
  by (auto simp: need_modules_def split: if_splits prod.splits option.splits)

lemma init_modules_state: "clog_init_modules cx root m = Some (r, cx', m') \<Longrightarrow> cx_state cx' = cx_state cx"
  by (auto simp: clog_init_modules_def split: outcome.splits prod.splits bool.splits dest: need_modules_state)

lemma add_module_state:
  "clog_add_module md (Some cx) m = Some (r, cxo, m') \<Longrightarrow> \<exists>cx'. cxo = Some cx' \<and> cx_state cx' = cx_state cx"
  unfolding clog_add_module_def
  by (erule in_setup_cases)
    (auto simp: Let_def split: option.splits prod.splits bool.splits dest: need_modules_state)

lemma add_modules_loop_state:
  "add_modules_loop before mds cx m = Some (r, cx', m') \<Longrightarrow> cx_state cx' = cx_state cx"
proof (induction before mds cx m rule: add_modules_loop.induct)
  case (2 before md mds cx m)
  from "2.prems" obtain ret cx1 m1 where a: "clog_add_module (Some md) (Some cx) m = Some (ret, Some cx1, m1)"
    by (auto split: option.splits prod.splits)
  from add_module_state [OF a] have s: "cx_state cx1 = cx_state cx" by simp
  show ?case
  proof (cases "ret = CLOG_SUCCESS")
    case True
    with "2.prems" a have "add_modules_loop (before @ [md]) mds cx1 m1 = Some (r, cx', m')" by simp
    from "2.IH" [OF a refl refl refl _ this] True s show ?thesis by simp
  next
    case False
    with "2.prems" a s show ?thesis by (auto split: prod.splits)
  qed
qed simp

lemma init_format_state:
  "clog_init_log_format_interpolator_context cx m = (r, cx', m') \<Longrightarrow> cx_state cx' = cx_state cx"
  by (auto simp: clog_init_log_format_interpolator_context_def split: if_splits prod.splits option.splits)

lemma share_state [simp]: "cx_state (share_placeholders ic cx) = cx_state cx"
  by (simp add: share_placeholders_def)

text \<open>The bodies of the configuring calls, one by one.\<close>

lemma buffer_pool_state:
  "clog_set_buffer_pool junk auto cap thr (Some cx) w = Some (r, cxo, w') \<Longrightarrow> guarded cx w r cxo w'"
  unfolding clog_set_buffer_pool_def
  by (erule in_setup_state [rotated]) (auto simp: keeps_state_def split: if_splits option.splits)

lemma set_modules_state:
  "clog_set_modules strtod config (Some cx) m = Some (r, cxo, m') \<Longrightarrow> guarded cx m r cxo m'"
  unfolding clog_set_modules_def
  by (erule in_setup_state [rotated])
    (auto simp: keeps_state_def split: if_splits option.splits prod.splits outcome.splits dest: init_modules_state)

lemma module_state:
  "clog_add_module md (Some cx) m = Some (r, cxo, m') \<Longrightarrow> guarded cx m r cxo m'"
  unfolding clog_add_module_def
  by (erule in_setup_state [rotated])
    (auto simp: keeps_state_def Let_def split: option.splits prod.splits bool.splits dest: need_modules_state)

lemma modules_state:
  "clog_add_modules mds (Some cx) m = Some (r, cxo, m') \<Longrightarrow> guarded cx m r cxo m'"
  unfolding clog_add_modules_def
  by (erule in_setup_state [rotated])
    (auto simp: keeps_state_def split: option.splits if_splits dest: add_modules_loop_state)

lemma placeholder_state:
  "clog_register_log_format_placeholder name handler (Some cx) m = Some (r, cxo, m') \<Longrightarrow> guarded cx m r cxo m'"
  unfolding clog_register_log_format_placeholder_def
  by (erule in_setup_state [rotated])
    (auto simp: keeps_state_def split: if_splits prod.splits dest: init_format_state)

lemma format_state:
  "clog_set_log_format fmt (Some cx) m = Some (r, cxo, m') \<Longrightarrow> guarded cx m r cxo m'"
  unfolding clog_set_log_format_def
  by (erule in_setup_state [rotated])
    (auto simp: keeps_state_def split: if_splits prod.splits option.splits dest!: init_format_state)

lemma tags_state:
  "clog_set_level_tags level tag (Some cx) m = Some (r, cxo, m') \<Longrightarrow> guarded cx m r cxo m'"
  unfolding clog_set_level_tags_def
  by (erule in_setup_state [rotated]) (auto simp: keeps_state_def split: if_splits prod.splits option.splits)

lemma filter_state:
  "clog_add_filter a (Some cx) w = Some (r, cxo, w') \<Longrightarrow> guarded cx w r cxo w'"
  unfolding clog_add_filter_def
  by (erule in_setup_state [rotated]) (auto simp: keeps_state_def split: if_splits prod.splits option.splits)

lemma recorder_state:
  "clog_add_recorder i rc (Some cx) w = Some (r, cxo, w') \<Longrightarrow> guarded cx w r cxo w'"
  unfolding clog_add_recorder_def
  by (erule in_setup_state [rotated]) (auto simp: keeps_state_def split: if_splits prod.splits option.splits)

lemma mask_state: "\<exists>cx'. clog_set_mask (Some cx) v = Some cx' \<and> cx_state cx' = cx_state cx \<and>
    (cx_state cx \<noteq> CLOG_STATE_CREATED \<longrightarrow> cx' = cx)"
  by (simp add: clog_set_mask_def)

context plugins
begin

lemma channel_state:
  "clog_set_channel i ch (Some cx) w = Some (r, cxo, w') \<Longrightarrow> guarded cx w r cxo w'"
  unfolding clog_set_channel_def
  by (erule in_setup_state [rotated])
    (auto simp: keeps_state_def channel_destroy_def call_def split: if_splits prod.splits option.splits
      dest!: close_keeps same_config_state)

lemma dispatcher_state:
  "clog_set_dispatcher i d (Some cx) w = Some (r, cxo, w') \<Longrightarrow> guarded cx w r cxo w'"
  unfolding clog_set_dispatcher_def
  by (erule in_setup_state [rotated])
    (auto simp: keeps_state_def clog_dispatcher_destroy_def call_def split: if_splits prod.splits option.splits
      dest!: d_close_keeps same_config_state)

end

subsection \<open>Setup\<close>

lemma start_recorders_some:
  "start_recorders i cx w = Some (CLOG_SUCCESS, w') \<Longrightarrow> cx_recorders cx \<noteq> None"
  by (auto simp: start_recorders_def clog_hashmap_iterator_create_def split: option.splits prod.splits bool.splits)

context plugins
begin

lemma setup_state:
  assumes "clog_context_setup i (Some cx) w = Some (r, cxo, w')"
  shows "\<exists>cx'. cxo = Some cx' \<and>
    (cx_state cx \<noteq> CLOG_STATE_CREATED \<longrightarrow> r = CLOG_ABNORMAL_STATE \<and> cx' = cx \<and> w' = w) \<and>
    (cx_state cx = CLOG_STATE_CREATED \<longrightarrow>
       (if r = CLOG_SUCCESS then cx_state cx' = CLOG_STATE_RUNNING \<and> ready cx'
        else cx_state cx' = CLOG_STATE_CREATED))"
  using assms unfolding clog_context_setup_def
proof (cases rule: in_setup_cases)
  case (ok cx')
  show ?thesis
  proof (cases "\<exists>c d. cx_channel cx = Some c \<and> cx_dispatcher cx = Some d \<and> cx_modules cx \<noteq> None \<and>
      cx_interpolator cx \<noteq> None")
    case False
    with ok show ?thesis by (auto split: if_splits option.splits)
  next
    case True
    then obtain c d where cd: "cx_channel cx = Some c" "cx_dispatcher cx = Some d"
      "cx_modules cx \<noteq> None" "cx_interpolator cx \<noteq> None" by blast
    from ok(2) cd obtain r1 cx1 w1 where o: "call (ch_open i c) (cx, w) = Some (r1, cx1, w1)"
      by (auto split: option.splits)
    then have c1: "same_config cx cx1"
      using open_keeps by (fastforce simp: call_def split: option.splits)
    show ?thesis
    proof (cases "r1 = CLOG_SUCCESS")
      case False
      with ok cd o c1 show ?thesis by (auto dest: same_config_state)
    next
      case r1: True
      with ok(2) cd o obtain r2 cx2 w2 where o2: "call (di_open i d) (cx1, di_set_channel i d c w1) = Some (r2, cx2, w2)"
        by (auto split: option.splits)
      then have c2: "same_config cx cx2"
        using c1 d_open_keeps same_config_trans by (fastforce simp: call_def split: option.splits)
      show ?thesis
      proof (cases "r2 = CLOG_SUCCESS")
        case False
        with ok cd o r1 o2 c2 show ?thesis by (auto dest: same_config_state)
      next
        case r2: True
        with ok(2) cd o r1 o2 obtain n cx3 w3 where n: "di_notify i d = Some n"
          "n CLOG_DISPATCHER_EVENT_START (cx2, w2) = Some (cx3, w3)" by (auto split: option.splits)
        from notify_keeps [OF n] have c3: "same_config cx cx3" using same_config_trans [OF c2] by simp
        from ok(2) cd o r1 o2 r2 n obtain r4 w4 where s: "start_recorders i cx3 w3 = Some (r4, w4)"
          by (auto split: option.splits)
        show ?thesis
        proof (cases "r4 = CLOG_SUCCESS")
          case False
          with ok cd o r1 o2 r2 n s c3 show ?thesis by (auto dest: same_config_state)
        next
          case r4: True
          with s have "cx_recorders cx3 \<noteq> None" by (auto dest: start_recorders_some)
          with ok cd o r1 o2 r2 n s r4 same_config_parts [OF c3] show ?thesis
            by (auto simp: ready_def Let_def)
        qed
      qed
    qed
  qed
qed simp

subsection \<open>Every call\<close>

lemma guarded_obtain:
  assumes "guarded cx w r cxo w'"
  obtains cx' where "cxo = Some cx'" "cx_state cx' = cx_state cx"
    "cx_state cx \<noteq> CLOG_STATE_CREATED \<Longrightarrow> r = CLOG_ABNORMAL_STATE \<and> cx' = cx \<and> w' = w"
  using assms by (auto simp: guarded_def)

lemmas configuring_state = buffer_pool_state set_modules_state module_state modules_state placeholder_state
  format_state tags_state filter_state recorder_state channel_state dispatcher_state

lemma api_configures:
  assumes "configures c" "c \<noteq> Api_setup" "\<And>v. c \<noteq> Api_set_mask v"
    and "api_step i strtod c (Some cx) w = Some (r, cxo, w')"
  shows "guarded cx w r cxo w'"
  using assms by (cases c) (auto simp: api_step_def configures_def dest: configuring_state)

lemma api_uses:
  assumes "\<not> configures c" "modules_ok cx"
    and "api_step i strtod c (Some cx) w = Some (r, cxo, w')"
  shows "\<exists>cx'. cxo = Some cx' \<and> config_kept cx cx' \<and>
    (logs c \<and> cx_state cx \<noteq> CLOG_STATE_RUNNING \<longrightarrow> r = CLOG_ABNORMAL_STATE \<and> cx' = cx \<and> w' = w)"
proof (cases c)
  case (Api_acquire junk)
  with assms(3) show ?thesis by (auto simp: api_step_def logs_def dest!: acquire_keeps intro: same_config_kept)
next
  case (Api_release a)
  with assms(3) show ?thesis by (auto simp: api_step_def logs_def dest!: release_keeps intro: same_config_kept)
next
  case (Api_get_recoder v)
  obtain rc cxo1 where g: "clog_get_recoder (Some cx) v = (rc, cxo1)" by (metis surj_pair)
  from get_recoder_keeps [OF g] Api_get_recoder g assms(3) show ?thesis
    by (auto simp: api_step_def logs_def intro: same_config_kept)
next
  case (Api_record_log name rid lc)
  with assms(3) have "in_running (clog_record_log_internal i name rid lc) cx_state (Some cx) w = Some (r, cxo, w')"
    by (simp add: api_step_def clog_record_log_def)
  then show ?thesis by (cases rule: in_running_cases) (auto dest: record_log_keeps [OF assms(2)])
next
  case (Api_module_log name lc)
  with assms(3) have "in_running (clog_module_log_internal i name lc) cx_state (Some cx) w = Some (r, cxo, w')"
    by (simp add: api_step_def clog_module_log_def)
  then show ?thesis by (cases rule: in_running_cases) (auto dest: module_log_keeps [OF assms(2)])
qed (use assms(1) in \<open>simp_all add: configures_def\<close>)

lemma api_running:
  assumes "cx_state cx = CLOG_STATE_RUNNING" "modules_ok cx"
    and "api_step i strtod c (Some cx) w = Some (r, cxo, w')"
  shows "\<exists>cx'. cxo = Some cx' \<and> config_kept cx cx' \<and> (configures c \<longrightarrow> cx' = cx \<and> w' = w)"
proof (cases "configures c")
  case False
  from api_uses [OF this assms(2,3)] False show ?thesis by blast
next
  case True
  consider (start) "c = Api_setup" | (mask) v where "c = Api_set_mask v"
    | (other) "c \<noteq> Api_setup" "\<And>v. c \<noteq> Api_set_mask v" by blast
  then show ?thesis
  proof cases
    case start
    with assms(3) have "clog_context_setup i (Some cx) w = Some (r, cxo, w')" by (simp add: api_step_def)
    from setup_state [OF this] assms(1) show ?thesis by auto
  next
    case mask
    with assms show ?thesis by (auto simp: api_step_def clog_set_mask_def)
  next
    case other
    from api_configures [OF True other assms(3)] assms(1) show ?thesis by (auto simp: guarded_def)
  qed
qed

end

end
