(* ===== verification/Core_System.thy ===== *)
theory Core_System
  imports Core_Correct
begin

unbundle bit_operations_syntax

text \<open>
  A whole logger: a context with the channel over the linked queue and the direct dispatcher,
  from their own models, and any recorders. \<open>direct_system\<close> is the interface those give the
  core; what a channel or the dispatcher keeps in its struct is in \<open>w_ext\<close>, with the state
  the recorders act on. It satisfies the contract \<open>plugins\<close>, and a call of \<open>clog_record_log\<close> on it
  is described from the filters and the format down to the recorder's \<open>write\<close>.
\<close>

subsection \<open>The parts plugged together\<close>

record 'y parts =
  pa_channel :: unsafe_channel
  pa_bound :: bool
  pa_out :: 'y

text \<open>A recorder: its identifier and its functions on the recorders' state.\<close>

record 'y clog_recorder =
  rc_id :: "32 word"
  rc_open :: "'y \<Rightarrow> (clog_res \<times> 'y) option"
  rc_write :: "clog_item \<Rightarrow> 'y \<Rightarrow> (clog_res \<times> 'y) option"
  rc_flush :: "'y \<Rightarrow> (clog_res \<times> 'y) option"
  rc_close :: "'y \<Rightarrow> 'y"

type_synonym ('p, 'f, 'y) sys_ctx = "(unit, unit, 'y clog_recorder, 'p, 'f, 'y parts) ctx"
type_synonym ('p, 'f, 'y) sys_world = "('p, 'f, 'y parts) world"
type_synonym ('p, 'f, 'y) sys_iface = "(unit, unit, 'y clog_recorder, 'p, 'f, 'y parts) iface"

definition chan :: "('p, 'f, 'y) sys_world \<Rightarrow> unsafe_channel" where
  "chan w = pa_channel (w_ext w)"

definition put_chan :: "unsafe_channel \<Rightarrow> ('p, 'f, 'y) sys_world \<Rightarrow> ('p, 'f, 'y) sys_world" where
  "put_chan c w = w\<lparr>w_ext := (w_ext w)\<lparr>pa_channel := c\<rparr>\<rparr>"

definition out :: "('p, 'f, 'y) sys_world \<Rightarrow> 'y" where
  "out w = pa_out (w_ext w)"

definition put_out :: "'y \<Rightarrow> ('p, 'f, 'y) sys_world \<Rightarrow> ('p, 'f, 'y) sys_world" where
  "put_out y w = w\<lparr>w_ext := (w_ext w)\<lparr>pa_out := y\<rparr>\<rparr>"

definition on_out ::
    "('y \<Rightarrow> (clog_res \<times> 'y) option) \<Rightarrow> ('p, 'f, 'y) sys_world \<Rightarrow> (clog_res \<times> ('p, 'f, 'y) sys_world) option" where
  "on_out f w = map_option (\<lambda>(r, y). (r, put_out y w)) (f (out w))"

definition direct_env ::
    "('y clog_recorder, ('p, 'f, 'y) sys_ctx \<times> ('p, 'f, 'y) sys_world) dispatch_env" where
  "direct_env =
     \<lparr>de_recoder = (\<lambda>v (cx, w). case clog_get_recoder (Some cx) v of
          (r, None) \<Rightarrow> (r, (cx, w)) | (r, Some cx) \<Rightarrow> (r, (cx, w))),
      de_id = (\<lambda>r s. rc_id r),
      de_write = (\<lambda>r item (cx, w). map_option (\<lambda>(ret, w). (ret, (cx, w))) (on_out (rc_write r item) w)),
      de_flush = (\<lambda>r (cx, w). map_option (\<lambda>(ret, w). (ret, (cx, w))) (on_out (rc_flush r) w)),
      de_item = (\<lambda>a s. read_item a (snd s)),
      de_release = release_in\<rparr>"

definition direct_system :: "('p, 'f, 'y) sys_iface" where
  "direct_system =
     \<lparr>ch_open = (\<lambda>_. Some (\<lambda>(cx, w). case clog_unsafe_queue_channel_open (chan w) of
          (r, c) \<Rightarrow> Some (r, cx, put_chan c w))),
      ch_write = (\<lambda>_. Some (\<lambda>a (cx, w).
          map_option (\<lambda>(r, c). (r, cx, put_chan c w)) (clog_unsafe_queue_channel_write a (chan w)))),
      ch_read = (\<lambda>_. Some (\<lambda>(cx, w).
          map_option (\<lambda>(r, item, c). (r, item, cx, put_chan c w)) (clog_unsafe_queue_channel_read (chan w)))),
      ch_close = (\<lambda>_. Some (\<lambda>(cx, w).
          map_option (\<lambda>(c, cx, w). (cx, put_chan c w))
            (clog_unsafe_queue_channel_close release_in (chan w) (cx, w)))),
      ch_free = (\<lambda>_ w. put_chan ((chan w)\<lparr>uc_heap := clog_free (uc_heap (chan w))\<rparr>) w),
      di_channel = (\<lambda>_ w. if pa_bound (w_ext w) then Some () else None),
      di_set_channel = (\<lambda>_ _ w. w\<lparr>w_ext := (w_ext w)\<lparr>pa_bound := True\<rparr>\<rparr>),
      di_open = (\<lambda>_. Some (\<lambda>(cx, w). Some (clog_dispatcher_direct_open, cx, w))),
      di_notify = (\<lambda>_. Some (\<lambda>event (cx, w).
          map_option (\<lambda>(c, cx, w). (cx, put_chan c w))
            (clog_dispatcher_direct_notify direct_env clog_unsafe_queue_channel_read event (chan w) (cx, w)))),
      di_close = (\<lambda>_. Some (\<lambda>s. Some s)),
      di_free = (\<lambda>_ w. clog_free w),
      re_id = rc_id,
      re_open = (\<lambda>r. Some (on_out (rc_open r))),
      re_write = (\<lambda>r. Some (\<lambda>item. on_out (rc_write r item))),
      re_flush = (\<lambda>r. Some (on_out (rc_flush r))),
      re_close = (\<lambda>r. Some (\<lambda>w. put_out (rc_close r (out w)) w)),
      re_free = (\<lambda>r w. clog_free w)\<rparr>"

subsection \<open>The contract\<close>

lemma put_out_simps [simp]:
  "out (put_out y w) = y" "chan (put_out y w) = chan w" "put_out y (put_out z w) = put_out y w"
  "put_out (out w) w = w" "w_items (put_out y w) = w_items w" "w_filters (put_out y w) = w_filters w"
  by (simp_all add: out_def put_out_def chan_def)

lemma put_chan_simps [simp]:
  "chan (put_chan c w) = c" "out (put_chan c w) = out w" "w_items (put_chan c w) = w_items w"
  "w_filters (put_chan c w) = w_filters w" "chan (w\<lparr>w_items := h\<rparr>) = chan w" "out (w\<lparr>w_items := h\<rparr>) = out w"
  by (simp_all add: out_def put_chan_def chan_def)

text \<open>
  What an operation of the parts keeps: the configuration of the context, and which requests the
  allocators grant. \<open>keeping\<close> is that of an action on each item, along the loops.
\<close>

definition same_grants :: "('p, 'f, 'y) sys_world \<Rightarrow> ('p, 'f, 'y) sys_world \<Rightarrow> bool" where
  "same_grants w w' \<longleftrightarrow> grants (w_items w') = grants (w_items w) \<and>
     grants (uc_heap (chan w')) = grants (uc_heap (chan w))"

definition calm ::
    "('p, 'f, 'y) sys_ctx \<times> ('p, 'f, 'y) sys_world \<Rightarrow> ('p, 'f, 'y) sys_ctx \<times> ('p, 'f, 'y) sys_world \<Rightarrow> bool" where
  "calm s s' \<longleftrightarrow> same_config (fst s) (fst s') \<and> same_grants (snd s) (snd s')"

definition keeping where
  "keeping act \<longleftrightarrow> (\<forall>a s s'. act a s = Some s' \<longrightarrow> calm s s')"

lemma same_grants_refl [simp]: "same_grants w w"
  by (simp add: same_grants_def)

lemma same_grants_put [simp]:
  "same_grants w (put_out y w)" "same_grants w (put_chan c w) \<longleftrightarrow> grants (uc_heap c) = grants (uc_heap (chan w))"
  "same_grants w (w\<lparr>w_items := h\<rparr>) \<longleftrightarrow> grants h = grants (w_items w)"
  by (simp_all add: same_grants_def)

lemma same_grants_trans [trans]: "same_grants a b \<Longrightarrow> same_grants b c \<Longrightarrow> same_grants a c"
  by (simp add: same_grants_def)

lemma calm_pair [simp]: "calm (cx, w) (cx', w') \<longleftrightarrow> same_config cx cx' \<and> same_grants w w'"
  by (simp add: calm_def)

lemma calm_refl [simp]: "calm s s"
  by (simp add: calm_def)

lemma calm_trans [trans]: "calm a b \<Longrightarrow> calm b c \<Longrightarrow> calm a c"
  using same_config_trans same_grants_trans by (fastforce simp: calm_def)

lemma calm_config: "calm s s' \<Longrightarrow> same_config (fst s) (fst s')"
  by (simp add: calm_def)

lemma keepingD: "keeping act \<Longrightarrow> act a s = Some s' \<Longrightarrow> calm s s'"
  unfolding keeping_def by blast

lemma heap_grants:
  "halloc c h = (a, h') \<Longrightarrow> grants h' = grants h" "hfree a h = Some h' \<Longrightarrow> grants h' = grants h"
  "hupd a f h = Some h' \<Longrightarrow> grants h' = grants h" "set_next a nx k = Some k' \<Longrightarrow> grants k' = grants k"
  by (auto simp: halloc_def hfree_def hupd_def set_next_def mem_simps split: prod.splits bool.splits option.splits
      block.splits dest: grants_clog_mallocD)

lemma pool_grants:
  "clog_buffer_pool_acquire junk p h = Some (a, p', h') \<Longrightarrow> grants h' = grants h"
  "clog_buffer_pool_release p a h = Some (p', h') \<Longrightarrow> grants h' = grants h"
  by (auto simp: clog_buffer_pool_acquire_def clog_buffer_pool_release_def clog_buffer_pool_malloc_single_def
      push_buffer_def free_buffer_def mem_simps Let_def
      split: option.splits if_splits prod.splits block.splits dest!: heap_grants)

lemma channel_grants:
  "clog_unsafe_queue_channel_write a c = Some (r, c') \<Longrightarrow> grants (uc_heap c') = grants (uc_heap c)"
  "clog_unsafe_queue_channel_read c = Some (r, d, c') \<Longrightarrow> grants (uc_heap c') = grants (uc_heap c)"
  by (auto simp: clog_unsafe_queue_channel_write_def clog_unsafe_queue_channel_read_def clog_queue_enqueue_def
      clog_queue_node_create_def clog_queue_dequeue_def Let_def
      split: option.splits if_splits prod.splits dest!: heap_grants)

lemma item_grants:
  "clog_acquire_log_item junk (Some cx) w = Some (a, cxo, w') \<Longrightarrow> same_grants w w'"
  "release_in a (cx, w) = Some (cx', w') \<Longrightarrow> same_grants w w'"
  "write_item a f w = Some w' \<Longrightarrow> same_grants w w'"
  by (auto simp: clog_acquire_log_item_def release_in_def clog_release_log_item_def write_item_def
      split: option.splits if_splits prod.splits dest!: pool_grants heap_grants)

lemma drain_keeps:
  assumes "drain clog_unsafe_queue_channel_read act c s = Some y" "keeping act"
  shows "calm s (snd y)"
proof -
  have "keeping act \<longrightarrow> calm s (snd y)"
  proof (rule drain.raw_induct [where xa = "(((clog_unsafe_queue_channel_read, act), c), s)" and
        P = "\<lambda>rd act c s y. keeping act \<longrightarrow> calm s (snd y)",
        unfolded prod.case, OF _ assms(1)], intro impI)
    fix drain rd act c s y
    assume ih: "\<And>rd act s x y. drain rd act s x = Some y \<Longrightarrow> keeping act \<longrightarrow> calm x (snd y)"
      and eq: "(case rd c of None \<Rightarrow> None
        | Some (CLOG_SUCCESS, Some d, s') \<Rightarrow> (case act d s of None \<Rightarrow> None | Some x' \<Rightarrow> drain rd act s' x')
        | Some (_, _, s') \<Rightarrow> Some (s', s)) = Some y"
      and k: "keeping act"
    note loop = ih [rule_format]
    from eq k show "calm s (snd y)"
      by (auto split: option.splits prod.splits clog_res.splits dest!: keepingD [OF k] loop [OF _ k]
          intro: calm_trans)
  qed
  with assms(2) show ?thesis by blast
qed

lemma dispatch_keeps:
  assumes "dispatch_loop rd proc rel c s = Some y"
    "\<And>c r d c'. rd c = Some (r, d, c') \<Longrightarrow> grants (uc_heap c') = grants (uc_heap c)" "keeping proc" "keeping rel"
  shows "calm s (snd y) \<and> grants (uc_heap (fst y)) = grants (uc_heap c)"
proof -
  let ?keep = "\<lambda>rd. \<forall>c r d c'. rd c = Some (r, d, c') \<longrightarrow> grants (uc_heap c') = grants (uc_heap c)"
  have "?keep rd \<and> keeping proc \<and> keeping rel \<longrightarrow> calm s (snd y) \<and> grants (uc_heap (fst y)) = grants (uc_heap c)"
  proof (rule dispatch_loop.raw_induct [where xa = "((((rd, proc), rel), c), s)" and
        P = "\<lambda>rd proc rel c s y. ?keep rd \<and> keeping proc \<and> keeping rel \<longrightarrow>
          calm s (snd y) \<and> grants (uc_heap (fst y)) = grants (uc_heap c)",
        unfolded prod.case, OF _ assms(1)], intro impI)
    fix loop rd proc rel c s y
    assume ih: "\<And>rd proc rel c s y. loop rd proc rel c s = Some y \<Longrightarrow>
        ?keep rd \<and> keeping proc \<and> keeping rel \<longrightarrow> calm s (snd y) \<and> grants (uc_heap (fst y)) = grants (uc_heap c)"
      and eq: "(case rd c of None \<Rightarrow> None
        | Some (res, item, s') \<Rightarrow>
            (case item of None \<Rightarrow> Some (s', s)
             | Some a \<Rightarrow> if a = NULL then Some (s', s)
                 else if res = CLOG_SUCCESS then (case proc a s of None \<Rightarrow> None | Some x' \<Rightarrow> loop rd proc rel s' x')
                 else map_option (Pair s') (rel a s))) = Some y"
      and k: "?keep rd \<and> keeping proc \<and> keeping rel"
    from k have kp: "\<And>c r d c'. rd c = Some (r, d, c') \<Longrightarrow> grants (uc_heap c') = grants (uc_heap c)"
      "keeping proc" "keeping rel" by blast+
    note loop = ih [THEN mp, OF _ k]
    from eq show "calm s (snd y) \<and> grants (uc_heap (fst y)) = grants (uc_heap c)"
      by (auto split: option.splits prod.splits if_splits dest!: keepingD [OF kp(2)] keepingD [OF kp(3)] loop kp(1)
          intro: calm_trans)
  qed
  with assms(2-4) show ?thesis by blast
qed

lemma keeping_release: "keeping release_in"
  unfolding keeping_def calm_def
  using release_in_keeps item_grants(2) by (metis prod.collapse)

lemma env_keeps:
  "de_recoder direct_env v s = (r, s') \<Longrightarrow> calm s s'"
  "de_write direct_env rc item s = Some (ret, s') \<Longrightarrow> calm s s'"
  "de_flush direct_env rc s = Some (ret, s') \<Longrightarrow> calm s s'"
  by (auto simp: direct_env_def calm_def on_out_def split: prod.splits option.splits dest!: get_recoder_keeps)

lemma record_item_keeps: "record_item direct_env rc item s = Some s' \<Longrightarrow> calm s s'"
  by (auto simp: record_item_def split: option.splits prod.splits if_splits
      dest!: env_keeps intro: calm_trans)

lemma direct_deliver_keeps:
  "direct_deliver direct_env item rids s = Some s' \<Longrightarrow> calm s s'"
proof (induction rids arbitrary: s)
  case (Cons v rids)
  obtain r s1 where g: "de_recoder direct_env v s = (r, s1)" by (metis surj_pair)
  note k = env_keeps(1) [OF g]
  show ?case
  proof (cases "v = CLOG_RECORDER_ID_INVALID")
    case True
    with Cons.prems show ?thesis by simp
  next
    case False
    show ?thesis
    proof (cases r)
      case None
      with Cons.prems False g have "direct_deliver direct_env item rids s1 = Some s'" by simp
      from calm_trans [OF k Cons.IH [OF this]] show ?thesis .
    next
      case (Some rc)
      with Cons.prems False g obtain s2 where s2: "record_item direct_env rc item s1 = Some s2"
        "direct_deliver direct_env item rids s2 = Some s'" by (auto split: option.splits)
      from calm_trans [OF k calm_trans [OF record_item_keeps [OF s2(1)] Cons.IH [OF s2(2)]]]
      show ?thesis .
    qed
  qed
qed simp

lemma keeping_direct: "keeping (direct_item direct_env)"
  unfolding keeping_def
proof (intro allI impI)
  fix a and s s' :: "('p, 'f, 'y) sys_ctx \<times> ('p, 'f, 'y) sys_world"
  assume "direct_item direct_env a s = Some s'"
  then obtain item s1 where "direct_deliver direct_env item (it_recorder item) s = Some s1"
    "de_release direct_env a s1 = Some s'" by (auto simp: direct_item_def split: option.splits)
  then show "calm s s'"
    using calm_trans [OF direct_deliver_keeps [of item "it_recorder item" s s1]]
      keepingD [OF keeping_release, of a s1 s'] by (simp add: direct_env_def)
qed

lemma direct_notify_calm:
  assumes "di_notify direct_system d = Some n" "n ev s = Some s'"
  shows "calm s s'"
proof -
  obtain cx w where s: "s = (cx, w)" by (metis surj_pair)
  from assms s obtain c cx1 w1 where
    n: "clog_dispatcher_direct_notify direct_env clog_unsafe_queue_channel_read ev (chan w) (cx, w) = Some (c, cx1, w1)"
      "s' = (cx1, put_chan c w1)" by (auto simp: direct_system_def)
  show ?thesis
  proof (cases "ev = CLOG_DISPATCHER_EVENT_DATA")
    case True
    have rel: "keeping (de_release direct_env)" using keeping_release by (simp add: direct_env_def)
    from True n(1) have "dispatch_loop clog_unsafe_queue_channel_read (direct_item direct_env) (de_release direct_env)
        (chan w) (cx, w) = Some (c, cx1, w1)" by (simp add: clog_dispatcher_direct_notify_def)
    from dispatch_keeps [OF this channel_grants(2) keeping_direct rel] n(2) s show ?thesis
      by (auto simp: same_grants_def)
  next
    case False
    with n s show ?thesis by (auto simp: clog_dispatcher_direct_notify_def)
  qed
qed

lemma direct_write_calm: "ch_write direct_system c = Some g \<Longrightarrow> g a s = Some (r, s') \<Longrightarrow> calm s s'"
  by (auto simp: direct_system_def split: prod.splits dest!: channel_grants)

interpretation direct: plugins direct_system
proof
  fix s s' :: "('p, 'f, 'y) sys_ctx \<times> ('p, 'f, 'y) sys_world" and r item a ev and c d :: unit
    and f g h k n
  show "ch_open direct_system c = Some f \<Longrightarrow> f s = Some (r, s') \<Longrightarrow> same_config (fst s) (fst s')"
    by (auto simp: direct_system_def split: prod.splits)
  show "ch_write direct_system c = Some g \<Longrightarrow> g a s = Some (r, s') \<Longrightarrow> same_config (fst s) (fst s')"
    by (rule calm_config [OF direct_write_calm])
  show "ch_read direct_system c = Some h \<Longrightarrow> h s = Some (r, item, s') \<Longrightarrow> same_config (fst s) (fst s')"
    by (auto simp: direct_system_def split: prod.splits)
  show "ch_close direct_system c = Some k \<Longrightarrow> k s = Some s' \<Longrightarrow> same_config (fst s) (fst s')"
    by (auto simp: direct_system_def clog_unsafe_queue_channel_close_def split: prod.splits option.splits
        dest!: drain_keeps [OF _ keeping_release])
  show "di_open direct_system d = Some f \<Longrightarrow> f s = Some (r, s') \<Longrightarrow> same_config (fst s) (fst s')"
    by (auto simp: direct_system_def split: prod.splits)
  show "di_notify direct_system d = Some n \<Longrightarrow> n ev s = Some s' \<Longrightarrow> same_config (fst s) (fst s')"
    by (rule calm_config [OF direct_notify_calm])
  show "di_close direct_system d = Some k \<Longrightarrow> k s = Some s' \<Longrightarrow> same_config (fst s) (fst s')"
    by (auto simp: direct_system_def)
qed

text \<open>The functions of the core that log.\<close>

lemma log_internal_grants:
  "clog_log_internal direct_system rs n a wrapper lc cx w = Some (r, cx', w') \<Longrightarrow> same_grants w w'"
  by (auto simp: clog_log_internal_def Let_def split: option.splits prod.splits if_splits
      dest!: direct_write_calm direct_notify_calm item_grants(3)) (simp_all add: same_grants_def)

lemma log_item_grants:
  "log_item direct_system rs n name lc cx w = Some (r, cx', w') \<Longrightarrow> same_grants w w'"
  by (auto simp: log_item_def clog_init_item_wrapper_def split: option.splits prod.splits if_splits
      dest!: item_grants log_internal_grants) (simp_all add: same_grants_def)

subsection \<open>The recorders of a context\<close>

text \<open>The map of recorders: keys of four bytes, compared and hashed as such.\<close>

definition id_map :: "('r, 'm) clog_hashmap \<Rightarrow> bool" where
  "id_map hm \<longleftrightarrow> hm_key_size hm = 4 \<and> hm_key_dup hm = None \<and> hm_cmp hm = None \<and> hm_size_of hm = None \<and>
     hm_value_dup hm = Some clog_recoder_dup"

interpretation id_keys: key_contract id_map "\<lambda>k. True" "take 4"
proof unfold_locales
  fix hm hm' :: "('r, 'm) clog_hashmap" and a b k k' :: bytes and v v' and m m' :: "'m mem_scheme"
  show "same_ops hm hm' \<Longrightarrow> id_map hm \<Longrightarrow> id_map hm'"
    by (simp add: same_ops_def id_map_def)
  show "id_map hm \<Longrightarrow> clog_hashmap_cmp hm a b = (take 4 a = take 4 b)"
    by (simp add: id_map_def clog_hashmap_cmp_def)
  show "id_map hm \<Longrightarrow> take 4 a = take 4 b \<Longrightarrow> murmur3_32 hm a = murmur3_32 hm b"
    using murmur3_cong [of 4 a b "hm_seed hm"]
    by (simp add: id_map_def murmur3_32_def clog_hashmap_size_of_key_def)
  show "id_map hm \<Longrightarrow> clog_hashmap_dup_key hm k m = (Some k', m') \<Longrightarrow> take 4 k' = take 4 k"
    by (auto simp: id_map_def clog_hashmap_dup_key_def clog_memcpy_self split: prod.splits bool.splits)
  show "id_map hm \<Longrightarrow> clog_hashmap_dup_value hm v m = (Some v', m') \<Longrightarrow> v' = v"
    by (simp add: id_map_def clog_hashmap_dup_value_def clog_recoder_dup_def)
qed

definition recorder_of :: "('c, 'd, 'r, 'm) clog_context \<Rightarrow> 32 word \<Rightarrow> 'r option" where
  "recorder_of cx v = (case cx_recorders cx of None \<Rightarrow> None | Some hm \<Rightarrow> hm_abs (take 4) hm (id_bytes v))"

definition recorders_ok :: "('c, 'd, 'r, 'm) clog_context \<Rightarrow> bool" where
  "recorders_ok cx \<longleftrightarrow> (\<forall>hm. cx_recorders cx = Some hm \<longrightarrow> hm_inv id_map (take 4) hm)"

text \<open>A context that differs in the order of its recorders' chains only.\<close>

definition reordered :: "('c, 'd, 'r, 'm) clog_context \<Rightarrow> ('c, 'd, 'r, 'm) clog_context \<Rightarrow> bool" where
  "reordered cx cx' \<longleftrightarrow> cx' = cx\<lparr>cx_recorders := cx_recorders cx'\<rparr> \<and> recorder_of cx' = recorder_of cx \<and>
     (recorders_ok cx \<longrightarrow> recorders_ok cx')"

lemma reordered_refl [simp]: "reordered cx cx"
  by (simp add: reordered_def)

lemma reordered_trans [trans]: "reordered a b \<Longrightarrow> reordered b c \<Longrightarrow> reordered a c"
  unfolding reordered_def by (metis (no_types, lifting) clog_context.update_convs(15) clog_context.select_convs clog_context.surjective)

lemma get_recoder_spec:
  assumes "recorders_ok cx" "cx_state cx = CLOG_STATE_RUNNING"
  shows "\<exists>cx'. clog_get_recoder (Some cx) v = (recorder_of cx v, Some cx') \<and> reordered cx cx'"
proof (cases "cx_recorders cx")
  case None
  then have "reordered cx (cx\<lparr>cx_recorders := None\<rparr>)"
    by (simp add: reordered_def recorder_of_def [abs_def] recorders_ok_def)
  with None assms(2) show ?thesis
    by (simp add: clog_get_recoder_def clog_hashmap_get_def recorder_of_def)
next
  case (Some hm)
  obtain r hm' where g: "get_nn hm (id_bytes v) = (r, hm')" by (metis surj_pair)
  have inv: "hm_inv id_map (take 4) hm" using assms(1) Some by (simp add: recorders_ok_def)
  have "take 4 (id_bytes v) = id_bytes v" by (simp add: id_bytes_def)
  with id_keys.get_spec [OF inv g] have s: "r = hm_abs (take 4) hm (id_bytes v)"
    "hm_inv id_map (take 4) hm'" "hm_abs (take 4) hm' = hm_abs (take 4) hm" by simp_all
  have "reordered cx (cx\<lparr>cx_recorders := Some hm'\<rparr>)"
    using s Some by (simp add: reordered_def recorder_of_def [abs_def] recorders_ok_def)
  with g s(1) Some assms(2) show ?thesis
    by (auto simp: clog_get_recoder_def clog_hashmap_get_def recorder_of_def)
qed

subsection \<open>What a recorder gets\<close>

text \<open>
  The reference: an item goes to the known recorders of its array, up to the first unused entry;
  each writes it and is flushed when it asks for it.
\<close>

definition hand_over :: "'y clog_recorder \<Rightarrow> clog_item \<Rightarrow> 'y \<Rightarrow> 'y option" where
  "hand_over r item y = (case rc_write r item y of
      None \<Rightarrow> None
    | Some (ret, y) \<Rightarrow> if ret = CLOG_REQUEST_FLUSH then map_option snd (rc_flush r y) else Some y)"

fun deliver :: "(32 word \<Rightarrow> 'y clog_recorder option) \<Rightarrow> clog_item \<Rightarrow> 32 word list \<Rightarrow> 'y \<Rightarrow> 'y option" where
  "deliver known item [] y = Some y"
| "deliver known item (v # vs) y =
     (if v = CLOG_RECORDER_ID_INVALID then Some y
      else case known v of
          None \<Rightarrow> deliver known item vs y
        | Some r \<Rightarrow> (case hand_over r item y of None \<Rightarrow> None | Some y \<Rightarrow> deliver known item vs y))"

lemma record_item_direct:
  "hand_over r item (out w) = Some y \<Longrightarrow> record_item direct_env r item (cx, w) = Some (cx, put_out y w)"
  by (auto simp: hand_over_def record_item_def direct_env_def on_out_def split: option.splits if_splits)

lemma deliver_direct:
  "\<lbrakk>recorders_ok cx; cx_state cx = CLOG_STATE_RUNNING; deliver (recorder_of cx) item ids (out w) = Some y\<rbrakk>
   \<Longrightarrow> \<exists>cx'. direct_deliver direct_env item ids (cx, w) = Some (cx', put_out y w) \<and> reordered cx cx'"
proof (induction ids arbitrary: cx w)
  case (Cons v ids)
  show ?case
  proof (cases "v = CLOG_RECORDER_ID_INVALID")
    case False
    from get_recoder_spec [OF Cons.prems(1,2), of v] obtain cx1 where
      c: "clog_get_recoder (Some cx) v = (recorder_of cx v, Some cx1)" "reordered cx cx1" by blast
    then have d: "de_recoder direct_env v (cx, w) = (recorder_of cx v, (cx1, w))" by (simp add: direct_env_def)
    have r1: "recorders_ok cx1" "cx_state cx1 = CLOG_STATE_RUNNING" "recorder_of cx1 = recorder_of cx"
      using c(2) Cons.prems(1,2) by (auto simp: reordered_def) (metis clog_context.select_convs(1) clog_context.surjective clog_context.update_convs(15))
    show ?thesis
    proof (cases "recorder_of cx v")
      case None
      with Cons.prems(3) False r1(3) have "deliver (recorder_of cx1) item ids (out w) = Some y" by simp
      from Cons.IH [OF r1(1,2) this] d None False show ?thesis
        using reordered_trans [OF c(2)] by auto
    next
      case (Some r)
      with Cons.prems(3) False obtain y1 where y1: "hand_over r item (out w) = Some y1"
        "deliver (recorder_of cx) item ids y1 = Some y" by (auto split: option.splits)
      then have "deliver (recorder_of cx1) item ids (out (put_out y1 w)) = Some y" using r1(3) by simp
      from Cons.IH [OF r1(1,2) this] d Some False record_item_direct [OF y1(1), of cx1] show ?thesis
        using reordered_trans [OF c(2)] by auto
    qed
  qed (use Cons.prems in auto)
qed auto

subsection \<open>The state between two calls\<close>

text \<open>
  A running context between two calls: nothing is in the channel and every buffer is in the pool.
  \<open>n\<close> bounds the size of the free list, which an automatic pool may let grow with each call.
\<close>

definition pool_rest :: "int \<Rightarrow> nat \<Rightarrow> ('p, 'f, 'y) sys_ctx \<Rightarrow> ('p, 'f, 'y) sys_world \<Rightarrow> addr list \<Rightarrow> bool" where
  "pool_rest base n cx w held \<longleftrightarrow> (\<exists>p fs. cx_pool cx = Some p \<and> pool_inv base p (w_items w) fs held \<and>
     length fs + length held \<le> n)"

definition running :: "('p, 'f, 'y) sys_ctx \<Rightarrow> bool" where
  "running cx \<longleftrightarrow> cx_state cx = CLOG_STATE_RUNNING \<and> modules_ok cx \<and> recorders_ok cx \<and>
     cx_channel cx = Some () \<and> cx_dispatcher cx = Some ()"

definition at_rest :: "int \<Rightarrow> nat \<Rightarrow> ('p, 'f, 'y) sys_ctx \<Rightarrow> ('p, 'f, 'y) sys_world \<Rightarrow> bool" where
  "at_rest base n cx w \<longleftrightarrow> running cx \<and> pool_rest base n cx w [] \<and> uc_rep (chan w) []"

text \<open>What one operation of the core may change of a context: its pool and the order of its maps.\<close>

definition like :: "('c, 'd, 'r, 'm) clog_context \<Rightarrow> ('c, 'd, 'r, 'm) clog_context \<Rightarrow> bool" where
  "like cx cx' \<longleftrightarrow> config_kept cx cx' \<and> recorder_of cx' = recorder_of cx \<and> (recorders_ok cx \<longrightarrow> recorders_ok cx')"

lemma like_refl [simp]: "like cx cx"
  by (simp add: like_def)

lemma like_trans [trans]: "like a b \<Longrightarrow> like b c \<Longrightarrow> like a c"
  using config_kept_trans [of a b c] by (simp add: like_def)

lemma like_pool [simp]: "like cx (cx\<lparr>cx_pool := p\<rparr>)"
  by (simp add: like_def same_config_kept recorder_of_def [abs_def] recorders_ok_def)

lemma reordered_like: "reordered cx cx' \<Longrightarrow> like cx cx'"
  unfolding reordered_def like_def using same_config_kept [OF same_config_updates(2)] by metis

lemma running_like: "running cx \<Longrightarrow> like cx cx' \<Longrightarrow> running cx'"
  by (simp add: running_def like_def config_kept_def frozen_def)

lemma running_system:
  "running cx \<Longrightarrow> cx_state cx = CLOG_STATE_RUNNING"
  "running cx \<Longrightarrow> cx_channel cx = Some ()" "running cx \<Longrightarrow> cx_dispatcher cx = Some ()"
  "running cx \<Longrightarrow> recorders_ok cx" "running cx \<Longrightarrow> modules_ok cx"
  by (simp_all add: running_def)

lemma pool_rest_frame [simp]:
  "pool_rest base n cx (put_out y w) held = pool_rest base n cx w held"
  "pool_rest base n cx (put_chan c w) held = pool_rest base n cx w held"
  "pool_rest base n (cx\<lparr>cx_recorders := rs\<rparr>) w held = pool_rest base n cx w held"
  "pool_rest base n (cx\<lparr>cx_modules := ms\<rparr>) w held = pool_rest base n cx w held"
  by (simp_all add: pool_rest_def)

lemma reordered_pool: "reordered cx cx' \<Longrightarrow> pool_rest base n cx' w held = pool_rest base n cx w held"
  unfolding reordered_def by (metis pool_rest_frame(3))

text \<open>Some allocator refuses some request.\<close>

definition items_refuse :: "('p, 'f, 'y) sys_world \<Rightarrow> bool" where
  "items_refuse w \<longleftrightarrow> (\<exists>k. \<not> grants (w_items w) k)"

definition queue_refuses :: "('p, 'f, 'y) sys_world \<Rightarrow> bool" where
  "queue_refuses w \<longleftrightarrow> (\<exists>k. \<not> grants (uc_heap (chan w)) k)"

lemma queue_refuses_frame [simp]:
  "queue_refuses (w\<lparr>w_items := h\<rparr>) = queue_refuses w"
  by (simp add: queue_refuses_def)

lemma acquire_refused:
  assumes "pool_inv base p h fs held" "clog_buffer_pool_acquire junk (Some p) h = Some (NULL, po, h')"
  shows "\<exists>k. \<not> grants h k"
proof
  have ok: "0 < brk h" using assms(1) by (simp add: pool_inv_def heap_ok_def)
  show "\<not> grants h (tick h)"
  proof
    assume "grants h (tick h)"
    then have m: "fst (clog_buffer_pool_malloc_single junk t h) = brk h" for t
      by (simp add: clog_buffer_pool_malloc_single_def halloc_granted)
    then obtain h1 h2 where "clog_buffer_pool_malloc_single junk CLOG_BUFFER_TYPE_TMP h = (brk h, h1)"
      "clog_buffer_pool_malloc_single junk CLOG_BUFFER_TYPE_POOL h = (brk h, h2)"
      by (metis prod.collapse)
    with assms(2) ok show False
      by (auto simp: clog_buffer_pool_acquire_def split: if_splits option.splits)
  qed
qed

lemma write_refused:
  assumes "clog_unsafe_queue_channel_write a c = Some (CLOG_NO_MEMORY, c')" "heap_ok (uc_heap c)"
  shows "\<exists>k. \<not> grants (uc_heap c) k"
proof
  show "\<not> grants (uc_heap c) (tick (uc_heap c))"
  proof
    assume "grants (uc_heap c) (tick (uc_heap c))"
    with assms show False
      by (auto simp: clog_unsafe_queue_channel_write_def clog_queue_enqueue_def clog_queue_node_create_def
          halloc_granted heap_ok_def split: if_splits option.splits prod.splits)
  qed
qed

subsection \<open>Acquiring, writing and releasing an item\<close>

lemma acquire_item:
  assumes "running cx" "pool_rest base n cx w held"
  shows "\<exists>a cx' w'. clog_acquire_log_item junk (Some cx) w = Some (a, Some cx', w') \<and> like cx cx' \<and>
    w' = w\<lparr>w_items := w_items w'\<rparr> \<and>
    (if a = NULL then items_refuse w \<and> pool_rest base n cx' w' held else pool_rest base (Suc n) cx' w' (a # held))"
proof -
  obtain p fs where p: "cx_pool cx = Some p" "pool_inv base p (w_items w) fs held" "length fs + length held \<le> n"
    using assms(2) by (auto simp: pool_rest_def)
  from acquire_inv [OF p(2), of junk] obtain a p' h' fs' where
    a: "clog_buffer_pool_acquire junk (Some p) (w_items w) = Some (a, Some p', h')"
    "(a = NULL \<and> fs = [] \<and> pool_inv base p' h' fs' held \<and> length fs' = length fs) \<or>
     (a \<noteq> NULL \<and> a \<notin> set held \<and> pool_inv base p' h' fs' (a # held) \<and>
      length fs' + length (a # held) \<le> Suc (length fs + length held))" by blast
  have "clog_acquire_log_item junk (Some cx) w = Some (a, Some (cx\<lparr>cx_pool := Some p'\<rparr>), w\<lparr>w_items := h'\<rparr>)"
    using a(1) p(1) running_system(1) [OF assms(1)] by (simp add: clog_acquire_log_item_def)
  moreover have "if a = NULL then items_refuse w \<and> pool_rest base n (cx\<lparr>cx_pool := Some p'\<rparr>) (w\<lparr>w_items := h'\<rparr>) held
      else pool_rest base (Suc n) (cx\<lparr>cx_pool := Some p'\<rparr>) (w\<lparr>w_items := h'\<rparr>) (a # held)"
    using a p acquire_refused [OF p(2)] by (auto simp: pool_rest_def items_refuse_def)
  ultimately show ?thesis by fastforce
qed

lemma chain_update:
  "chain m a fs \<Longrightarrow> b \<notin> set fs \<Longrightarrow> chain (m(b \<mapsto> x)) a fs"
  by (simp add: chain_upd)

lemma write_item_inv:
  assumes "pool_rest base n cx w held" "a \<in> set held"
  shows "\<exists>h'. write_item a (\<lambda>_. item) w = Some (w\<lparr>w_items := h'\<rparr>) \<and>
    pool_rest base n cx (w\<lparr>w_items := h'\<rparr>) held \<and> read_item a (w\<lparr>w_items := h'\<rparr>) = Some item"
proof -
  let ?h = "w_items w"
  obtain p fs where p: "cx_pool cx = Some p" "pool_inv base p ?h fs held" "length fs + length held \<le> n"
    using assms(1) by (auto simp: pool_rest_def)
  from p(2) assms(2) obtain nx t e where c: "cells ?h a = Some (Buffer nx t e)"
    by (auto simp: pool_inv_def is_buffer_cell)
  define h' where "h' = ?h\<lparr>cells := (cells ?h)(a \<mapsto> Buffer nx t item)\<rparr>"
  have cells: "cells h' = (cells ?h)(a \<mapsto> Buffer nx t item)" "live h' = live ?h" "brk h' = brk ?h"
    by (simp_all add: h'_def)
  have fs: "a \<notin> set fs" using held_facts(3) [OF p(2) assms(2)] .
  have pooled: "is_pooled h' = is_pooled ?h"
    using c by (auto simp: is_pooled_def cells fun_eq_iff)
  have "pool_inv base p h' fs held"
    using p(2) chain_update [OF _ fs] c
    by (auto simp: pool_inv_def pooled cells heap_ok_def is_buffer_cell)
  moreover have "write_item a (\<lambda>_. item) w = Some (w\<lparr>w_items := h'\<rparr>)"
    using c by (simp add: write_item_def item_room_def hupd_def h'_def)
  moreover have "read_item a (w\<lparr>w_items := h'\<rparr>) = Some item" by (simp add: read_item_def cells)
  ultimately show ?thesis using p(1,3) by (auto simp: pool_rest_def)
qed

lemma release_item:
  assumes "running cx" "pool_rest base n cx w [a]" "n < 2 ^ 64"
  shows "\<exists>cx' w'. release_in a (cx, w) = Some (cx', w') \<and> like cx cx' \<and> w' = w\<lparr>w_items := w_items w'\<rparr> \<and>
    pool_rest base n cx' w' []"
proof -
  obtain p fs where p: "cx_pool cx = Some p" "pool_inv base p (w_items w) fs [a]" "length fs + length [a] \<le> n"
    using assms(2) by (auto simp: pool_rest_def)
  have "length fs + length [a] < 2 ^ 64" using p(3) assms(3) by simp
  from release_inv [OF p(2) _ this] obtain p' h' fs' where
    r: "clog_buffer_pool_release (Some p) a (w_items w) = Some (Some p', h')" "pool_inv base p' h' fs' []"
      "length fs' \<le> length fs + length [a]" by auto
  have "a \<noteq> NULL" using held_facts(1) [OF p(2)] by simp
  then have "release_in a (cx, w) = Some (cx\<lparr>cx_pool := Some p'\<rparr>, w\<lparr>w_items := h'\<rparr>)"
    using r(1) p(1) running_system(1) [OF assms(1)] by (simp add: release_in_def clog_release_log_item_def)
  moreover have "pool_rest base n (cx\<lparr>cx_pool := Some p'\<rparr>) (w\<lparr>w_items := h'\<rparr>) []"
    using r(2,3) p(3) by (auto simp: pool_rest_def)
  ultimately show ?thesis by fastforce
qed

subsection \<open>Sending an item\<close>

lemma read_item_frame [simp]:
  "read_item a (put_chan c w) = read_item a w" "read_item a (put_out y w) = read_item a w"
  by (simp_all add: read_item_def)

lemma dispatch_one:
  assumes "running cx" "pool_rest base n cx w [a]" "n < 2 ^ 64" "read_item a w = Some item"
    and "deliver (recorder_of cx) item (it_recorder item) (out w) = Some y"
  shows "\<exists>cx' w'. direct_item direct_env a (cx, w) = Some (cx', w') \<and> like cx cx' \<and>
    pool_rest base n cx' w' [] \<and> out w' = y \<and> w_filters w' = w_filters w"
proof -
  from deliver_direct [OF running_system(4,1) [OF assms(1)] assms(5)] obtain cx1 where
    d: "direct_deliver direct_env item (it_recorder item) (cx, w) = Some (cx1, put_out y w)" "reordered cx cx1"
    using running_system [OF assms(1)] by blast
  have l: "like cx cx1" using reordered_like [OF d(2)] .
  have "pool_rest base n cx1 (put_out y w) [a]" using assms(2) reordered_pool [OF d(2)] by simp
  from release_item [OF running_like [OF assms(1) l] this assms(3)] obtain cx2 w2 where
    r: "release_in a (cx1, put_out y w) = Some (cx2, w2)" "like cx1 cx2" "w2 = (put_out y w)\<lparr>w_items := w_items w2\<rparr>"
      "pool_rest base n cx2 w2 []" by blast
  have "direct_item direct_env a (cx, w) = Some (cx2, w2)"
    using d(1) r(1) assms(4) by (simp add: direct_item_def direct_env_def)
  moreover have "out w2 = y" "w_filters w2 = w_filters w" by (subst r(3), simp)+
  ultimately show ?thesis using like_trans [OF l r(2)] r(4) by blast
qed

lemma send_item:
  assumes "running cx" "pool_rest base n cx w [a]" "n < 2 ^ 64" "read_item a w = Some item" "uc_rep (chan w) []"
    and "deliver (recorder_of cx) item (it_recorder item) (out w) = Some y"
  obtains (sent) c cx' w' where
      "the (ch_write direct_system ()) a (cx, w) = Some (CLOG_SUCCESS, cx, put_chan c w)"
      "the (di_notify direct_system ()) CLOG_DISPATCHER_EVENT_DATA (cx, put_chan c w) = Some (cx', w')"
      "like cx cx'" "pool_rest base n cx' w' []" "uc_rep (chan w') []" "out w' = y" "w_filters w' = w_filters w"
    | (full) c where "the (ch_write direct_system ()) a (cx, w) = Some (CLOG_NO_MEMORY, cx, put_chan c w)"
      "uc_rep c []" "queue_refuses w"
proof -
  from unsafe_channel.enq_law [OF assms(5), of a] obtain r c where
    wr: "clog_unsafe_queue_channel_write a (chan w) = Some (r, c)"
      "r = CLOG_SUCCESS \<and> uc_rep c [a] \<or> r = CLOG_NO_MEMORY \<and> uc_rep c []" by auto
  show ?thesis
  proof (cases "r = CLOG_SUCCESS")
    case True
    have pr: "pool_rest base n cx (put_chan c w) [a]" using assms(2) by simp
    have ri: "read_item a (put_chan c w) = Some item" using assms(4) by simp
    have dl: "deliver (recorder_of cx) item (it_recorder item) (out (put_chan c w)) = Some y" using assms(6) by simp
    from dispatch_one [OF assms(1) pr assms(3) ri dl] obtain cx' w' where
      d: "direct_item direct_env a (cx, put_chan c w) = Some (cx', w')" "like cx cx'" "pool_rest base n cx' w' []"
        "out w' = y" "w_filters w' = w_filters w" by auto
    from wr(2) True have rep: "uc_rep c [a]" by auto
    have nn: "NULL \<notin> set [a]" using assms(2) held_facts(1) by (fastforce simp: pool_rest_def)
    have "fold_act (direct_item direct_env) [a] (cx, put_chan c w) = Some (cx', w')" using d(1) by simp
    from unsafe_channel.dispatch_loop_spec [OF rep nn this] obtain c' where
      "dispatch_loop clog_unsafe_queue_channel_read (direct_item direct_env) (de_release direct_env) c (cx, put_chan c w) =
        Some (c', cx', w')" "uc_rep c' []" by blast
    then have "the (di_notify direct_system ()) CLOG_DISPATCHER_EVENT_DATA (cx, put_chan c w) = Some (cx', put_chan c' w')"
      by (simp add: direct_system_def clog_dispatcher_direct_notify_def)
    moreover have "the (ch_write direct_system ()) a (cx, w) = Some (CLOG_SUCCESS, cx, put_chan c w)"
      using wr(1) True by (simp add: direct_system_def)
    ultimately show ?thesis
      using d \<open>uc_rep c' []\<close> by (intro sent [of c cx' "put_chan c' w'"]) simp_all
  next
    case False
    have "heap_ok (uc_heap (chan w))" using assms(5) by (auto simp: uc_rep_def queue_rep_def queue_nodes_def)
    with False wr have "queue_refuses w" using write_refused by (auto simp: queue_refuses_def)
    with False wr show ?thesis by (intro full [of c]) (auto simp: direct_system_def)
  qed
qed

subsection \<open>One call\<close>

text \<open>
  The reference for a call: which of the module's checks it fails, and otherwise what the filters
  and the format make of it: a code, or the item the recorders get. No memory, queue or pool is
  involved; undefined behaviour is \<open>None\<close>.
\<close>

definition wrapper_for :: "string \<Rightarrow> log_call \<Rightarrow> ('c, 'd, 'r, 'm) clog_context \<Rightarrow> clog_item_wrapper option" where
  "wrapper_for name lc cx =
     (if level_code (lc_level lc) = 0 \<or> length (cx_tags cx) < level_code (lc_level lc) then None
      else case (cx_tags cx ! (level_code (lc_level lc) - 1), fresh_item lc) of
        (Some tag, Some item) \<Rightarrow>
          Some \<lparr>wr_process = cx_process cx, wr_module = name, wr_filename = lc_file lc,
                wr_function = lc_function lc, wr_tag = tag, wr_text = lc_text lc, wr_log = item\<rparr>
      | _ \<Rightarrow> None)"

definition passes :: "('p, 'f) fheap \<Rightarrow> addr \<Rightarrow> clog_item_wrapper \<Rightarrow> (clog_res + unit) option" where
  "passes fh filters wrapper =
     map_option (\<lambda>b. if b then Inr () else Inl CLOG_NOT_PERMITTED) (clog_filter_log fh filters (Some wrapper))"

definition formatted :: "('c, 'd, 'r, 'm) clog_context \<Rightarrow> clog_item_wrapper \<Rightarrow> log_call \<Rightarrow> (clog_res + clog_item_wrapper) option" where
  "formatted cx wrapper lc =
     (case clog_format_log (cx_interpolator cx) (Some wrapper) (Some (lc_buffer lc)) CASCA_LOG_SINGLE_LOG_MAX_SIZE True of
        Some (ret, Some wr, Some buf, len) \<Rightarrow>
          Some (if ret \<noteq> CLOG_SUCCESS then Inl ret
                else Inr (wr\<lparr>wr_log := (wr_log wr)\<lparr>it_content := content_of buf,
                       it_length := of_nat (case len of None \<Rightarrow> 0 | Some n \<Rightarrow> n)\<rparr>\<rparr>))
      | _ \<Rightarrow> None)"

definition item_for ::
    "('p, 'f) fheap \<Rightarrow> ('c, 'd, 'r, 'm) clog_context \<Rightarrow> 32 word list \<Rightarrow> nat \<Rightarrow> string \<Rightarrow> log_call
     \<Rightarrow> (clog_res + clog_item) option" where
  "item_for fh cx recorders num name lc = (case wrapper_for name lc cx of
      None \<Rightarrow> None
    | Some wrapper \<Rightarrow> (case passes fh (cx_pre cx) wrapper of
          None \<Rightarrow> None
        | Some (Inl e) \<Rightarrow> Some (Inl e)
        | Some (Inr _) \<Rightarrow> (case formatted cx wrapper lc of
              None \<Rightarrow> None
            | Some (Inl e) \<Rightarrow> Some (Inl e)
            | Some (Inr wr) \<Rightarrow> (case passes fh (cx_post cx) wr of
                  None \<Rightarrow> None
                | Some (Inl e) \<Rightarrow> Some (Inl e)
                | Some (Inr _) \<Rightarrow> Some (Inr ((wr_log wr)\<lparr>it_recorder := item_recorders recorders num\<rparr>))))))"

text \<open>What becomes of a call whose outcome is \<open>x\<close>.\<close>

definition outcome ::
    "(clog_res + clog_item) \<Rightarrow> ('p, 'f, 'y) sys_ctx \<Rightarrow> ('p, 'f, 'y) sys_world \<Rightarrow> clog_res \<Rightarrow> ('p, 'f, 'y) sys_world \<Rightarrow> bool" where
  "outcome x cx w r w' \<longleftrightarrow> (case x of
      Inl e \<Rightarrow> (r = e \<or> r = CLOG_NO_MEMORY \<and> items_refuse w) \<and> out w' = out w
    | Inr item \<Rightarrow>
        r = CLOG_SUCCESS \<and> deliver (recorder_of cx) item (it_recorder item) (out w) = Some (out w') \<or>
        r = CLOG_NO_MEMORY \<and> (items_refuse w \<or> queue_refuses w) \<and> out w' = out w)"

definition recorders_defined ::
    "(clog_res + clog_item) \<Rightarrow> ('p, 'f, 'y) sys_ctx \<Rightarrow> ('p, 'f, 'y) sys_world \<Rightarrow> bool" where
  "recorders_defined x cx w \<longleftrightarrow> (case x of
      Inl _ \<Rightarrow> True | Inr item \<Rightarrow> deliver (recorder_of cx) item (it_recorder item) (out w) \<noteq> None)"

lemma like_parts:
  assumes "like cx cx'"
  shows "cx_tags cx' = cx_tags cx" "cx_process cx' = cx_process cx" "cx_pre cx' = cx_pre cx"
    "cx_post cx' = cx_post cx" "cx_interpolator cx' = cx_interpolator cx" "recorder_of cx' = recorder_of cx"
  using assms by (simp_all add: like_def config_kept_def frozen_def)

lemma item_for_cong:
  assumes "cx_tags cx' = cx_tags cx" "cx_process cx' = cx_process cx" "cx_pre cx' = cx_pre cx"
    "cx_post cx' = cx_post cx" "cx_interpolator cx' = cx_interpolator cx"
  shows "item_for fh cx' = item_for fh cx"
proof (intro ext)
  fix rs num name lc
  have "wrapper_for name lc cx' = wrapper_for name lc cx" by (simp only: wrapper_for_def assms)
  moreover have "formatted cx' = formatted cx" by (intro ext) (simp only: formatted_def assms)
  ultimately show "item_for fh cx' rs num name lc = item_for fh cx rs num name lc"
    by (simp only: item_for_def assms)
qed

lemma item_for_like: "like cx cx' \<Longrightarrow> item_for fh cx' = item_for fh cx"
  by (rule item_for_cong) (simp_all add: like_parts)

lemma pool_rest_mono: "pool_rest base n cx w held \<Longrightarrow> n \<le> k \<Longrightarrow> pool_rest base k cx w held"
  unfolding pool_rest_def by (meson le_trans)

lemma filters_frame [simp]:
  "w_filters (w\<lparr>w_items := h\<rparr>) = w_filters w" "chan (w\<lparr>w_items := h\<rparr>) = chan w" "out (w\<lparr>w_items := h\<rparr>) = out w"
  by simp_all

text \<open>The part behind the filters and the format.\<close>

lemma direct_calls:
  "(case ch_write direct_system () of None \<Rightarrow> x | Some f \<Rightarrow> g f) = g (the (ch_write direct_system ()))"
  "(case di_notify direct_system () of None \<Rightarrow> y | Some f \<Rightarrow> h f) = h (the (di_notify direct_system ()))"
  by (simp_all add: direct_system_def)

lemma log_internal_spec:
  assumes run: "running cx" and pool: "pool_rest base n cx w [a]" and n: "n < 2 ^ 64" and ch: "uc_rep (chan w) []"
    and pre: "passes (w_filters w) (cx_pre cx) wrapper = Some p1"
    and fmt: "p1 = Inr () \<Longrightarrow> formatted cx wrapper lc = Some p2"
    and post: "\<And>wr. p1 = Inr () \<Longrightarrow> p2 = Inr wr \<Longrightarrow> passes (w_filters w) (cx_post cx) wr = Some p3"
    and rec: "\<And>wr. p1 = Inr () \<Longrightarrow> p2 = Inr wr \<Longrightarrow> p3 = Inr () \<Longrightarrow>
      deliver (recorder_of cx) ((wr_log wr)\<lparr>it_recorder := item_recorders rs num\<rparr>) (item_recorders rs num) (out w) = Some y"
  shows "\<exists>r cx' w'. clog_log_internal direct_system rs num a wrapper lc cx w = Some (r, cx', w') \<and> like cx cx' \<and>
    w_filters w' = w_filters w \<and> uc_rep (chan w') [] \<and>
    (if r = CLOG_SUCCESS then pool_rest base n cx' w' [] else pool_rest base n cx' w' [a]) \<and>
    (case p1 of Inl e \<Rightarrow> r = e \<and> e \<noteq> CLOG_SUCCESS \<and> out w' = out w | Inr _ \<Rightarrow>
       (case p2 of Inl e \<Rightarrow> r = e \<and> e \<noteq> CLOG_SUCCESS \<and> out w' = out w | Inr wr \<Rightarrow>
          (case p3 of Inl e \<Rightarrow> r = e \<and> e \<noteq> CLOG_SUCCESS \<and> out w' = out w | Inr _ \<Rightarrow>
             r = CLOG_SUCCESS \<and> out w' = y \<or> r = CLOG_NO_MEMORY \<and> out w' = out w \<and> queue_refuses w)))"
proof -
  from pre obtain b1 where b1: "clog_filter_log (w_filters w) (cx_pre cx) (Some wrapper) = Some b1"
    "p1 = (if b1 then Inr () else Inl CLOG_NOT_PERMITTED)" by (auto simp: passes_def)
  show ?thesis
  proof (cases b1)
    case False
    with b1 pool ch show ?thesis by (simp add: clog_log_internal_def)
  next
    case t1: True
    then have p1: "p1 = Inr ()" using b1(2) by simp
    from fmt [OF p1] obtain ret wr buf len where f: "clog_format_log (cx_interpolator cx) (Some wrapper)
        (Some (lc_buffer lc)) CASCA_LOG_SINGLE_LOG_MAX_SIZE True = Some (ret, Some wr, Some buf, len)"
      "p2 = (if ret \<noteq> CLOG_SUCCESS then Inl ret else Inr (wr\<lparr>wr_log := (wr_log wr)\<lparr>it_content := content_of buf,
         it_length := of_nat (case len of None \<Rightarrow> 0 | Some n \<Rightarrow> n)\<rparr>\<rparr>))"
      by (auto simp: formatted_def split: option.splits prod.splits)
    have a: "a \<in> set [a]" by simp
    from write_item_inv [OF pool a, of "(wr_log wr)\<lparr>it_content := content_of buf\<rparr>"] obtain h1 where
      w1: "write_item a (\<lambda>_. (wr_log wr)\<lparr>it_content := content_of buf\<rparr>) w = Some (w\<lparr>w_items := h1\<rparr>)"
        "pool_rest base n cx (w\<lparr>w_items := h1\<rparr>) [a]" by blast
    show ?thesis
    proof (cases "ret = CLOG_SUCCESS")
      case False
      with b1(1) t1 p1 f w1 ch show ?thesis by (simp add: clog_log_internal_def Let_def)
    next
      case r: True
      define it where "it = (wr_log wr)\<lparr>it_content := content_of buf,
        it_length := of_nat (case len of None \<Rightarrow> 0 | Some n \<Rightarrow> n)\<rparr>"
      have p2: "p2 = Inr (wr\<lparr>wr_log := it\<rparr>)" using f(2) r by (simp add: it_def)
      from post [OF p1 p2] obtain b3 where b3: "clog_filter_log (w_filters w) (cx_post cx) (Some (wr\<lparr>wr_log := it\<rparr>)) = Some b3"
        "p3 = (if b3 then Inr () else Inl CLOG_NOT_PERMITTED)" by (auto simp: passes_def)
      show ?thesis
      proof (cases b3)
        case False
        with b1(1) t1 p1 p2 f(1) r w1 b3 ch show ?thesis
          by (simp add: clog_log_internal_def Let_def it_def)
      next
        case t3: True
        define item where "item = it\<lparr>it_recorder := item_recorders rs num\<rparr>"
        from write_item_inv [OF w1(2) a, of item] obtain h2 where
          w2: "write_item a (\<lambda>_. item) (w\<lparr>w_items := h1\<rparr>) = Some (w\<lparr>w_items := h2\<rparr>)"
            "pool_rest base n cx (w\<lparr>w_items := h2\<rparr>) [a]" "read_item a (w\<lparr>w_items := h2\<rparr>) = Some item" by auto
        have "deliver (recorder_of cx) item (it_recorder item) (out (w\<lparr>w_items := h2\<rparr>)) = Some y"
          using rec [OF p1 p2] b3(2) t3 by (simp add: item_def)
        note send = send_item [OF run w2(2) n w2(3) _ this]
        have eq: "clog_log_internal direct_system rs num a wrapper lc cx w =
            (case the (ch_write direct_system ()) a (cx, w\<lparr>w_items := h2\<rparr>) of
               None \<Rightarrow> None
             | Some (res, cx, w) \<Rightarrow>
                 if res = CLOG_SUCCESS then
                   (case di_notify direct_system () of None \<Rightarrow> None
                    | Some notify \<Rightarrow> map_option (Pair res) (notify CLOG_DISPATCHER_EVENT_DATA (cx, w)))
                 else Some (res, cx, w))"
          using b1(1) t1 f(1) r w1(1) b3(1) t3 w2(1) running_system(2,3) [OF run]
          by (simp add: clog_log_internal_def Let_def it_def item_def direct_calls)
        from ch have "uc_rep (chan (w\<lparr>w_items := h2\<rparr>)) []" by simp
        then show ?thesis
        proof (cases rule: send [consumes 1, case_names sent full])
          case (sent c cx' w')
          then have "clog_log_internal direct_system rs num a wrapper lc cx w = Some (CLOG_SUCCESS, cx', w')"
            by (simp add: eq direct_calls)
          with sent p1 p2 b3(2) t3 show ?thesis by simp
        next
          case (full c)
          then have "clog_log_internal direct_system rs num a wrapper lc cx w =
              Some (CLOG_NO_MEMORY, cx, put_chan c (w\<lparr>w_items := h2\<rparr>))" by (simp add: eq direct_calls)
          with full p1 p2 b3(2) t3 w2(2) show ?thesis by simp
        qed
      qed
    qed
  qed
qed

text \<open>From the acquisition of the item to its end.\<close>

lemma init_wrapper_spec:
  assumes "at_rest base n cx w" "wrapper_for name lc cx = Some wrapper"
  obtains (none) cx' w' where "clog_init_item_wrapper name lc cx w = Some (CLOG_NO_MEMORY, None, cx', w')"
      "items_refuse w" "like cx cx'" "w' = w\<lparr>w_items := w_items w'\<rparr>" "pool_rest base n cx' w' []"
    | (got) a cx' w' where "clog_init_item_wrapper name lc cx w = Some (CLOG_SUCCESS, Some (a, wrapper), cx', w')"
      "like cx cx'" "w' = w\<lparr>w_items := w_items w'\<rparr>" "pool_rest base (Suc n) cx' w' [a]"
proof -
  have run: "running cx" and pool: "pool_rest base n cx w []" using assms(1) by (simp_all add: at_rest_def)
  from acquire_item [OF run pool, of "lc_junk lc"] obtain a cx1 w1 where
    a: "clog_acquire_log_item (lc_junk lc) (Some cx) w = Some (a, Some cx1, w1)" "like cx cx1"
      "w1 = w\<lparr>w_items := w_items w1\<rparr>"
      "if a = NULL then items_refuse w \<and> pool_rest base n cx1 w1 [] else pool_rest base (Suc n) cx1 w1 [a]" by blast
  show ?thesis
  proof (cases "a = NULL")
    case True
    with a show ?thesis by (intro none [of cx1 w1]) (auto simp: clog_init_item_wrapper_def)
  next
    case False
    from assms(2) obtain tag item where t: "\<not> (level_code (lc_level lc) = 0 \<or> length (cx_tags cx) < level_code (lc_level lc))"
      "cx_tags cx ! (level_code (lc_level lc) - 1) = Some tag" "fresh_item lc = Some item"
      "wrapper = \<lparr>wr_process = cx_process cx, wr_module = name, wr_filename = lc_file lc,
         wr_function = lc_function lc, wr_tag = tag, wr_text = lc_text lc, wr_log = item\<rparr>"
      by (auto simp: wrapper_for_def split: if_splits option.splits)
    from False a(4) have "pool_rest base (Suc n) cx1 w1 [a]" by simp
    from write_item_inv [OF this, of a item] obtain h where
      h: "write_item a (\<lambda>_. item) w1 = Some (w1\<lparr>w_items := h\<rparr>)" "pool_rest base (Suc n) cx1 (w1\<lparr>w_items := h\<rparr>) [a]"
      by auto
    have "clog_init_item_wrapper name lc cx w = Some (CLOG_SUCCESS, Some (a, wrapper), cx1, w1\<lparr>w_items := h\<rparr>)"
      using a(1) False t h(1) like_parts [OF a(2)] by (simp add: clog_init_item_wrapper_def)
    moreover have "w1\<lparr>w_items := h\<rparr> = w\<lparr>w_items := w_items (w1\<lparr>w_items := h\<rparr>)\<rparr>" by (subst a(3)) simp
    ultimately show ?thesis using a(2) h(2) by (intro got [of a cx1 "w1\<lparr>w_items := h\<rparr>"]) simp_all
  qed
qed

lemma log_item_spec:
  assumes rest: "at_rest base n cx w" and n: "Suc n < 2 ^ 64"
    and x: "item_for (w_filters w) cx rs num name lc = Some x" "recorders_defined x cx w"
  shows "\<exists>r cx' w'. log_item direct_system rs num name lc cx w = Some (r, cx', w') \<and> like cx cx' \<and>
    at_rest base (Suc n) cx' w' \<and> w_filters w' = w_filters w \<and> outcome x cx w r w'"
proof -
  have run: "running cx" and ch: "uc_rep (chan w) []" using rest by (simp_all add: at_rest_def)
  from x(1) obtain wrapper p1 where wr: "wrapper_for name lc cx = Some wrapper"
    and pre: "passes (w_filters w) (cx_pre cx) wrapper = Some p1"
    by (auto simp: item_for_def split: option.splits)
  from rest wr show ?thesis
  proof (cases rule: init_wrapper_spec)
    case (none cx1 w1)
    have same: "chan w1 = chan w" "w_filters w1 = w_filters w" "out w1 = out w" by (subst none(4), simp)+
    have "at_rest base (Suc n) cx1 w1"
      using running_like [OF run none(3)] pool_rest_mono [OF none(5)] ch same by (simp add: at_rest_def)
    moreover have "outcome x cx w CLOG_NO_MEMORY w1"
      using none(2) same by (simp add: outcome_def split: sum.split)
    ultimately show ?thesis using none(1,3) same by (simp add: log_item_def)
  next
    case (got a cx1 w1)
    have same: "chan w1 = chan w" "w_filters w1 = w_filters w" "out w1 = out w" by (subst got(3), simp)+
    note parts = like_parts [OF got(2)]
    have run1: "running cx1" by (rule running_like [OF run got(2)])
    define p2 where "p2 = (case formatted cx wrapper lc of Some q \<Rightarrow> q | None \<Rightarrow> Inl CLOG_FAIL)"
    define p3 where "p3 = (case p2 of Inr wr \<Rightarrow> (case passes (w_filters w) (cx_post cx) wr of Some q \<Rightarrow> q | None \<Rightarrow> Inl CLOG_FAIL)
      | Inl _ \<Rightarrow> Inl CLOG_FAIL)"
    define item where "item = (case p2 of Inr wr \<Rightarrow> (wr_log wr)\<lparr>it_recorder := item_recorders rs num\<rparr> | Inl _ \<Rightarrow> lc_junk lc)"
    define y where "y = the (deliver (recorder_of cx) item (it_recorder item) (out w))"
    have fmt: "formatted cx wrapper lc = Some p2" if "p1 = Inr ()"
      using x(1) wr pre that by (auto simp: item_for_def p2_def split: option.splits)
    have fm1: "formatted cx1 wrapper lc = Some p2" if "p1 = Inr ()"
      using fmt [OF that] by (simp only: formatted_def parts)
    have post: "passes (w_filters w) (cx_post cx) v = Some p3" if "p1 = Inr ()" "p2 = Inr v" for v
      using x(1) wr pre that fmt [OF that(1)] by (auto simp: item_for_def p3_def split: option.splits)
    have x_eq: "x = (case p1 of Inl e \<Rightarrow> Inl e | Inr _ \<Rightarrow> (case p2 of Inl e \<Rightarrow> Inl e | Inr v \<Rightarrow>
        (case p3 of Inl e \<Rightarrow> Inl e | Inr _ \<Rightarrow> Inr item)))"
      using x(1) wr pre fmt post by (cases p1; cases p2; cases p3) (auto simp: item_for_def item_def)
    have rec: "deliver (recorder_of cx1) ((wr_log v)\<lparr>it_recorder := item_recorders rs num\<rparr>) (item_recorders rs num) (out w1) = Some y"
      if "p1 = Inr ()" "p2 = Inr v" "p3 = Inr ()" for v
      using x(2) x_eq that by (auto simp: recorders_defined_def item_def y_def parts same)
    have "passes (w_filters w1) (cx_pre cx1) wrapper = Some p1" using pre by (simp add: same parts)
    moreover have "uc_rep (chan w1) []" using ch same by simp
    moreover have "passes (w_filters w1) (cx_post cx1) v = Some p3" if "p1 = Inr ()" "p2 = Inr v" for v
      using post [OF that] by (simp add: same parts)
    ultimately obtain r cx2 w2 where l: "clog_log_internal direct_system rs num a wrapper lc cx1 w1 = Some (r, cx2, w2)"
      "like cx1 cx2" "w_filters w2 = w_filters w1" "uc_rep (chan w2) []"
      "if r = CLOG_SUCCESS then pool_rest base (Suc n) cx2 w2 [] else pool_rest base (Suc n) cx2 w2 [a]"
      "case p1 of Inl e \<Rightarrow> r = e \<and> e \<noteq> CLOG_SUCCESS \<and> out w2 = out w1 | Inr _ \<Rightarrow>
         (case p2 of Inl e \<Rightarrow> r = e \<and> e \<noteq> CLOG_SUCCESS \<and> out w2 = out w1 | Inr wr \<Rightarrow>
            (case p3 of Inl e \<Rightarrow> r = e \<and> e \<noteq> CLOG_SUCCESS \<and> out w2 = out w1 | Inr _ \<Rightarrow>
               r = CLOG_SUCCESS \<and> out w2 = y \<or> r = CLOG_NO_MEMORY \<and> out w2 = out w1 \<and> queue_refuses w1))"
      using log_internal_spec [OF run1 got(4) n, of wrapper p1 lc p2 p3 rs num y] fm1 rec by blast
    have like2: "like cx cx2" by (rule like_trans [OF got(2) l(2)])
    have oc: "outcome x cx w r w3" if "out w3 = out w2" for w3
    proof -
      have "deliver (recorder_of cx) item (it_recorder item) (out w) = Some y" if "p1 = Inr ()" "p2 = Inr v" "p3 = Inr ()" for v
        using rec [OF that] that(2) by (simp add: item_def parts same)
      with l(6) that same show ?thesis
        by (cases p1; cases p2; cases p3) (auto simp: x_eq outcome_def queue_refuses_def)
    qed
    show ?thesis
    proof (cases "r = CLOG_SUCCESS")
      case True
      with l have "at_rest base (Suc n) cx2 w2" using running_like [OF run like2] by (simp add: at_rest_def)
      with True got(1) l(1,3) like2 same oc [OF refl] show ?thesis by (simp add: log_item_def)
    next
      case False
      with l(5) have "pool_rest base (Suc n) cx2 w2 [a]" by simp
      from release_item [OF running_like [OF run like2] this n] obtain cx3 w3 where
        rl: "release_in a (cx2, w2) = Some (cx3, w3)" "like cx2 cx3" "w3 = w2\<lparr>w_items := w_items w3\<rparr>"
          "pool_rest base (Suc n) cx3 w3 []" by blast
      have same3: "chan w3 = chan w2" "w_filters w3 = w_filters w2" "out w3 = out w2" by (subst rl(3), simp)+
      have like3: "like cx cx3" by (rule like_trans [OF like2 rl(2)])
      have "at_rest base (Suc n) cx3 w3"
        using running_like [OF run like3] rl(4) l(4) same3 by (simp add: at_rest_def)
      with False got(1) l(1,3) rl(1) like3 same same3 oc [OF same3(3)] show ?thesis
        by (simp add: log_item_def)
    qed
  qed
qed

end
