(* ===== verification/Core_Modules.thy ===== *)
theory Core_Modules
  imports Core_Correct
begin

text \<open>
  The modules of a context: what the configuration calls store, and that every module a context
  knows has an array of recorders its number fits, which the log calls rely on.
\<close>

subsection \<open>Modules that fit their array\<close>

definition fits :: "clog_module \<Rightarrow> bool" where
  "fits md \<longleftrightarrow> length (md_recorders md) = CASCA_LOG_TARGET_RECORDER_MAX_NUM \<and>
     md_num md \<le> CASCA_LOG_TARGET_RECORDER_MAX_NUM"

definition map_fits :: "(clog_module, 'm) clog_hashmap option \<Rightarrow> bool" where
  "map_fits mp \<longleftrightarrow> (\<forall>hm. mp = Some hm \<longrightarrow> string_inv hm \<and> (\<forall>name md. hm_abs cstr hm name = Some md \<longrightarrow> fits md))"

definition modules_wf :: "('c, 'd, 'r, 'm) clog_context \<Rightarrow> bool" where
  "modules_wf cx \<longleftrightarrow> map_fits (cx_modules cx)"

lemma modules_wf_iff: "modules_wf cx \<longleftrightarrow> modules_ok cx \<and> (\<forall>name md. module_of cx name = Some md \<longrightarrow> fits md)"
  by (cases "cx_modules cx") (auto simp: modules_wf_def map_fits_def modules_ok_def module_of_def)

lemma map_fits_None [simp]: "map_fits None"
  by (simp add: map_fits_def)

lemma put_fits:
  assumes "map_fits mp" "clog_hashmap_put mp k (Some md) m = (r, mp', m')" "fits md"
  shows "map_fits mp'"
proof (cases mp)
  case None
  with assms(1,2) show ?thesis by (auto simp: clog_hashmap_put_def)
next
  case (Some hm)
  show ?thesis
  proof (cases k)
    case None
    with assms(1,2) Some show ?thesis by (auto simp: clog_hashmap_put_def)
  next
    case k: (Some key)
    obtain r1 hm1 m1 where p: "put_nn hm key md m = (r1, hm1, m1)" by (metis surj_pair)
    from assms(1) Some have inv: "string_inv hm" "\<forall>name md. hm_abs cstr hm name = Some md \<longrightarrow> fits md" by (simp_all add: map_fits_def)
    from assms(2) Some k p have "mp' = Some hm1" by (auto simp: clog_hashmap_put_def)
    with string_keys.put_spec [OF inv(1) _ p] inv(2) assms(3) show ?thesis
      by (auto simp: map_fits_def split: if_splits)
  qed
qed

lemma remove_fits:
  assumes "map_fits mp" "clog_hashmap_remove mp k m = (r, mp', m')"
  shows "map_fits mp'"
proof (cases mp)
  case None
  with assms show ?thesis by (simp add: clog_hashmap_remove_def)
next
  case (Some hm)
  obtain r1 hm1 m1 where p: "remove_nn hm k m = (r1, hm1, m1)" by (metis surj_pair)
  from assms(1) Some have inv: "string_inv hm" "\<forall>name md. hm_abs cstr hm name = Some md \<longrightarrow> fits md" by (simp_all add: map_fits_def)
  from assms(2) Some p have "mp' = Some hm1" by (simp add: clog_hashmap_remove_def)
  with string_keys.remove_spec(1) [OF inv(1) p] inv(2) show ?thesis
    by (auto simp: map_fits_def split: if_splits)
qed

lemma remove_modules_fits: "map_fits mp \<Longrightarrow> remove_modules mds mp m = (mp', m') \<Longrightarrow> map_fits mp'"
  by (induction mds mp m rule: remove_modules.induct) (auto split: prod.splits dest: remove_fits)

subsection \<open>Modules of a configuration\<close>

lemma module_recorders_spec:
  assumes "map (\<lambda>item. read_uint (item_value item)) data = map Some us" "length rs = 4" "num \<le> 4"
  shows "module_recorders data num rs =
    (if num + length us \<le> 4 then Some (Inr (num + length us, take num rs @ us @ drop (num + length us) rs)) else None)"
  using assms
proof (induction data num rs arbitrary: us rule: module_recorders.induct)
  case (2 d items num rs)
  from "2.prems"(1) obtain u us' where u: "us = u # us'" "read_uint (item_value d) = Some u"
    "map (\<lambda>item. read_uint (item_value item)) items = map Some us'" by (cases us) auto
  show ?case
  proof (cases "num < 4")
    case True
    then have "num + 1 \<le> 4" by simp
    from "2.IH" [OF u(2) _ _ u(3) _ this] True "2.prems"(2) u show ?thesis
      by (auto simp: CASCA_LOG_TARGET_RECORDER_MAX_NUM_def take_Suc_conv_app_nth)
  next
    case False
    with "2.prems"(2,3) u show ?thesis by (simp add: CASCA_LOG_TARGET_RECORDER_MAX_NUM_def)
  qed
qed auto

lemma module_recorders_fits:
  "module_recorders data num rs = Some (Inr (n, rs')) \<Longrightarrow> num \<le> length rs \<Longrightarrow> n \<le> length rs' \<and> length rs' = length rs"
  by (induction data num rs rule: module_recorders.induct) (auto split: option.splits if_splits)

lemma module_of_group_fits: "module_of_group v g = Some (Inr md) \<Longrightarrow> fits md"
proof -
  assume g: "module_of_group v g = Some (Inr md)"
  show "fits md"
  proof (cases "clog_config_find_item_in_group (Some g) (Some ''recorder'')")
    case None
    with g show ?thesis by (auto simp: module_of_group_def fits_def)
  next
    case (Some it)
    with g obtain data x where "read_array (item_value it) = Some data" and d: "module_recorders data 0 (replicate CASCA_LOG_TARGET_RECORDER_MAX_NUM 0) = Some x"
      "map_sum (\<lambda>e. e) (\<lambda>(n, rs). \<lparr>md_name = [], md_level = v, md_num = n, md_recorders = rs\<rparr>) x = Inr md"
      by (auto simp: module_of_group_def Let_def split: option.splits)
    then obtain n rs where "x = Inr (n, rs)" "md = \<lparr>md_name = [], md_level = v, md_num = n, md_recorders = rs\<rparr>"
      by (cases x) auto
    with d(1) module_recorders_fits [of data 0 "replicate CASCA_LOG_TARGET_RECORDER_MAX_NUM 0" n rs]
    show ?thesis by (simp add: fits_def)
  qed
qed

lemma process_module_fits:
  "map_fits mp \<Longrightarrow> clog_init_process_module dm g mp m = Some (r, mp', m') \<Longrightarrow> map_fits mp'"
  by (auto simp: clog_init_process_module_def split: prod.splits if_splits sum.splits option.splits
      dest!: module_of_group_fits dest: put_fits)

lemma modules_loop_fits:
  "map_fits mp \<Longrightarrow> init_modules_loop dm gs mp m = Some (r, mp', m') \<Longrightarrow> map_fits mp'"
  by (induction dm gs mp m rule: init_modules_loop.induct)
    (auto split: option.splits prod.splits if_splits dest: process_module_fits)

lemma need_modules_fits:
  fixes cx :: "('c, 'd, 'r, 'm) clog_context"
  assumes "modules_wf cx" "need_modules cx m = (b, cx', m')"
  shows "modules_wf cx'"
proof (cases "cx_modules cx")
  case None
  obtain h m1 where c: "(string_create sizeof_module 0 m :: (clog_module, 'm) clog_hashmap option \<times> 'm mem_scheme) = (h, m1)" by (metis surj_pair)
  show ?thesis
  proof (cases h)
    case (Some hm)
    with c string_create_inv [of sizeof_module 0 m hm m1] have "string_inv hm" "hm_abs cstr hm = Map.empty"
      by (simp_all add: sizeof_module_def)
    with None Some c assms show ?thesis by (auto simp: need_modules_def modules_wf_def map_fits_def)
  qed (use None c assms in \<open>auto simp: need_modules_def\<close>)
qed (use assms in \<open>auto simp: need_modules_def\<close>)

lemma init_modules_fits:
  assumes "modules_wf cx" "clog_init_modules cx root m = Some (r, cx', m')"
  shows "modules_wf cx'"
proof (cases "clog_config_find_group (Some root) (Some [Some ''Process'', Some (cx_process cx)]) 2")
  case (Returns grp)
  obtain b cx1 m1 where n: "need_modules cx m = (b, cx1, m1)" by (metis surj_pair)
  from need_modules_fits [OF assms(1) n] have "modules_wf cx1" .
  with assms(2) Returns n show ?thesis
    by (auto simp: clog_init_modules_def modules_wf_def split: bool.splits dest: modules_loop_fits)
qed (use assms in \<open>auto simp: clog_init_modules_def\<close>)

lemma set_modules_fits:
  assumes "modules_wf cx" "clog_set_modules strtod config (Some cx) m = Some (r, cxo, m')"
  shows "\<exists>cx'. cxo = Some cx' \<and> modules_wf cx'"
  using assms(2) unfolding clog_set_modules_def
  by (rule in_setup_cases)
    (use assms(1) in \<open>auto split: if_splits prod.splits outcome.splits option.splits dest: init_modules_fits\<close>)

lemma add_module_fits:
  assumes "modules_wf cx" "clog_add_module md (Some cx) m = Some (r, cxo, m')" "\<forall>x. md = Some x \<longrightarrow> fits x"
  shows "\<exists>cx'. cxo = Some cx' \<and> modules_wf cx'"
  using assms(2) unfolding clog_add_module_def
proof (cases rule: in_setup_cases)
  case refused
  with assms(1) show ?thesis by simp
next
  case (ok cx')
  show ?thesis
  proof (cases md)
    case None
    with ok assms(1) show ?thesis by simp
  next
    case (Some x)
    obtain b cx1 m1 where n: "need_modules cx m = (b, cx1, m1)" by (metis surj_pair)
    from need_modules_fits [OF assms(1) n] have w: "modules_wf cx1" .
    have "fits (if md_level x = CLOG_LEVEL_UNSPECIFIED then x\<lparr>md_level := cx_mask cx1\<rparr> else x)"
      using assms(3) Some by (simp add: fits_def)
    with ok Some n w show ?thesis
      by (cases b) (auto simp: modules_wf_def Let_def split: prod.splits dest: put_fits)
  qed
qed

lemma add_modules_loop_fits:
  "\<lbrakk>modules_wf cx; \<forall>x \<in> set mds. fits x; add_modules_loop before mds cx m = Some (r, cx', m')\<rbrakk> \<Longrightarrow> modules_wf cx'"
proof (induction before mds cx m rule: add_modules_loop.induct)
  case (2 before md mds cx m)
  from "2.prems"(3) obtain ret cx1 m1 where a: "clog_add_module (Some md) (Some cx) m = Some (ret, Some cx1, m1)"
    by (auto split: option.splits prod.splits)
  from add_module_fits [OF "2.prems"(1) a] "2.prems"(2) have s: "modules_wf cx1" by simp
  show ?case
  proof (cases "ret = CLOG_SUCCESS")
    case True
    with "2.prems"(3) a have "add_modules_loop (before @ [md]) mds cx1 m1 = Some (r, cx', m')" by simp
    from "2.IH" [OF a refl refl refl _ s _ this] True "2.prems"(2) show ?thesis by simp
  next
    case False
    with "2.prems"(3) a s show ?thesis
      by (auto simp: modules_wf_def split: prod.splits dest: remove_modules_fits)
  qed
qed simp

lemma add_modules_fits:
  assumes "modules_wf cx" "clog_add_modules mds (Some cx) m = Some (r, cxo, m')" "\<forall>xs. mds = Some xs \<longrightarrow> (\<forall>x \<in> set xs. fits x)"
  shows "\<exists>cx'. cxo = Some cx' \<and> modules_wf cx'"
  using assms(2) unfolding clog_add_modules_def
  by (rule in_setup_cases)
    (use assms(1,3) in \<open>auto split: option.splits if_splits dest: add_modules_loop_fits\<close>)

subsection \<open>Properties\<close>

text \<open>
  The recorders of a module in a configuration file: with an array of at most four unsigned
  integers the module enters the map under the group's name, with the level of the file or the
  default mask, exactly these recorders and the rest of its array 0, unless memory is refused,
  which leaves the modules as they were; with five or more the fifth is written behind the array.
\<close>

theorem process_module_recorders:
  assumes inv: "string_inv hm" and nm: "group_name g = Some nm"
    and en: "clog_config_item_get_enabled (Some g) True True = (CLOG_SUCCESS, True)"
    and lv: "(case clog_config_find_item_in_group_uint (Some g) (Some ''level'') True of
        Inl e \<Rightarrow> e = CLOG_TARGET_NOT_FOUND \<and> v = default_mask | Inr u \<Rightarrow> v = u)" "v \<le> CLOG_LEVEL_ALL"
    and rs: "clog_config_find_item_in_group (Some g) (Some ''recorder'') = Some (Item k (V_ARRAY data))"
      "map (\<lambda>item. read_uint (item_value item)) data = map Some us"
  shows "case clog_init_process_module default_mask g (Some hm) m of
      None \<Rightarrow> 4 < length us
    | Some (r, mp, m') \<Rightarrow> length us \<le> 4 \<and> (\<exists>hm'. mp = Some hm' \<and> string_inv hm' \<and>
        (r = CLOG_SUCCESS \<and> hm_abs cstr hm' = (hm_abs cstr hm)(cstr (cstr_bytes nm) \<mapsto>
           \<lparr>md_name = [], md_level = v, md_num = length us, md_recorders = us @ replicate (4 - length us) 0\<rparr>) \<or>
         r = CLOG_NO_MEMORY \<and> hm_abs cstr hm' = hm_abs cstr hm))"
proof -
  have lvl: "(case clog_config_find_item_in_group_uint (Some g) (Some ''level'') True of
      Inl e \<Rightarrow> if e = CLOG_TARGET_NOT_FOUND then Inr default_mask else Inl e | Inr v \<Rightarrow> Inr v) = Inr v"
    using lv(1) by (simp split: sum.splits)
  have low: "\<not> CLOG_LEVEL_ALL < v" using lv(2) by simp
  have grp: "module_of_group v g = map_option (map_sum (\<lambda>e. e)
      (\<lambda>(n, rs). \<lparr>md_name = [], md_level = v, md_num = n, md_recorders = rs\<rparr>)) (module_recorders data 0 (replicate 4 0))"
    using rs(1) by (simp add: module_of_group_def Let_def CASCA_LOG_TARGET_RECORDER_MAX_NUM_def)
  have recs: "module_recorders data 0 (replicate 4 0) =
      (if length us \<le> 4 then Some (Inr (length us, us @ replicate (4 - length us) 0)) else None)"
    using module_recorders_spec [OF rs(2), of "replicate 4 0" 0] by simp
  show ?thesis
  proof (cases "length us \<le> 4")
    case False
    with en lvl low grp recs show ?thesis by (simp add: clog_init_process_module_def)
  next
    case True
    let ?md = "\<lparr>md_name = [], md_level = v, md_num = length us, md_recorders = us @ replicate (4 - length us) 0\<rparr>"
    obtain r hm' m' where p: "put_nn hm (cstr_bytes nm) ?md m = (r, hm', m')" by (metis surj_pair)
    have "clog_init_process_module default_mask g (Some hm) m = Some (r, Some hm', m')"
      using True en lvl low grp recs nm p by (simp add: clog_init_process_module_def clog_hashmap_put_def)
    with string_keys.put_spec [OF inv _ p] True show ?thesis by auto
  qed
qed

lemma replicate_two: "replicate 2 x = [x, x]"
  by (simp add: numeral_2_eq_2)

definition ex_group :: "nat \<Rightarrow> nat config_group" where
  "ex_group n = Group (Some ''net'') [Item (Some ''level'') (V_UINT 5),
     Item (Some ''recorder'') (V_ARRAY (map (\<lambda>u. Item None (V_UINT u)) (take n [7, 8, 9, 10, 11])))] []"

lemma process_module_recorders_witness:
  "clog_init_process_module 63 (ex_group 5) (Some (the (fst (string_create 88 0 mem_ok)))) mem_ok = None \<and>
   (\<exists>r hm m. clog_init_process_module 63 (ex_group 2) (Some (the (fst (string_create 88 0 mem_ok)))) mem_ok = Some (r, Some hm, m) \<and>
     (r = CLOG_SUCCESS \<longrightarrow> hm_abs cstr hm ''net'' =
        Some \<lparr>md_name = [], md_level = 5, md_num = 2, md_recorders = [7, 8, 0, 0]\<rparr>))"
proof -
  let ?hm = "the (fst (string_create 88 0 mem_ok)) :: (clog_module, unit) clog_hashmap"
  have "string_create 88 0 mem_ok = (Some ?hm, snd (string_create 88 0 mem_ok :: (clog_module, unit) clog_hashmap option \<times> mem))"
    by (simp add: ex_create_defs)
  from string_create_inv [OF this] have inv: "string_inv ?hm" by simp
  have find: "clog_config_find_item_in_group (Some (ex_group n)) (Some ''recorder'') =
      Some (Item (Some ''recorder'') (V_ARRAY (map (\<lambda>u. Item None (V_UINT u)) (take n [7, 8, 9, 10, 11]))))"
    "clog_config_find_item_in_group_uint (Some (ex_group n)) (Some ''level'') True = Inr 5"
    "clog_config_item_get_enabled (Some (ex_group n)) True True = (CLOG_SUCCESS, True)" "group_name (ex_group n) = Some ''net''" for n
    by (simp_all add: ex_group_def clog_config_find_item_in_group_def clog_config_find_item_in_group_uint_def
        clog_config_item_get_enabled_def clog_config_find_item_in_group_bool_def CLOG_DECLARE_FIND_ITEM_FUNC_def)
  have low: "(5 :: 32 word) \<le> CLOG_LEVEL_ALL" by (simp add: CLOG_LEVEL_ALL_def)
  have pad: "[7, 8 :: 32 word] @ replicate (4 - length [7, 8 :: 32 word]) 0 = [7, 8, 0, 0]" "length [7, 8 :: 32 word] = 2"
    by (simp_all add: numeral_eq_Suc)
  note app = process_module_recorders [OF inv find(4,3) _ low find(1), where default_mask = 63 and m = mem_ok]
  have "clog_init_process_module 63 (ex_group 5) (Some ?hm) mem_ok = None"
    using app [of 5 "[7, 8, 9, 10, 11]"] by (simp add: find(2) split: option.splits)
  moreover have "case clog_init_process_module 63 (ex_group 2) (Some ?hm) mem_ok of None \<Rightarrow> False
      | Some (r, mp, m') \<Rightarrow> \<exists>hm'. mp = Some hm' \<and> (r = CLOG_SUCCESS \<longrightarrow> hm_abs cstr hm' ''net'' =
        Some \<lparr>md_name = [], md_level = 5, md_num = 2, md_recorders = [7, 8, 0, 0]\<rparr>)"
    using app [of 2 "[7, 8]", unfolded pad] by (auto simp: find(2) cstr_cstr_bytes replicate_two split: option.splits)
  ultimately show ?thesis by (auto split: option.splits)
qed

text \<open>The modules a caller passes in.\<close>

definition given_modules :: "('c, 'd, 'r) api_call \<Rightarrow> clog_module list" where
  "given_modules c = (case c of
      Api_add_module (Some md) \<Rightarrow> [md] | Api_add_modules (Some mds) \<Rightarrow> mds | _ \<Rightarrow> [])"

lemma config_kept_wf: "config_kept cx cx' \<Longrightarrow> modules_wf cx \<Longrightarrow> modules_wf cx'"
  by (simp add: modules_wf_iff config_kept_def)

lemma same_modules_wf: "cx_modules cx' = cx_modules cx \<Longrightarrow> modules_wf cx' = modules_wf cx"
  by (simp add: modules_wf_def)

text \<open>Every other configuring call keeps the map of modules itself.\<close>

lemma init_format_modules:
  "clog_init_log_format_interpolator_context cx m = (r, cx', m') \<Longrightarrow> cx_modules cx' = cx_modules cx"
  by (auto simp: clog_init_log_format_interpolator_context_def split: if_splits prod.splits option.splits)

lemma share_modules [simp]: "cx_modules (share_placeholders ic cx) = cx_modules cx"
  by (simp add: share_placeholders_def)

lemma in_setup_modules:
  assumes "\<And>cx w r cx' w'. body cx w = Some (r, cx', w') \<Longrightarrow> cx_modules cx' = cx_modules cx"
    and "in_setup body cx_state (Some cx) w = Some (r, cxo, w')" "modules_wf cx"
  shows "\<exists>cx'. cxo = Some cx' \<and> modules_wf cx'"
  using assms(2)
proof (cases rule: in_setup_cases)
  case (ok cx')
  with assms(1) [OF ok(2)] assms(3) show ?thesis by (simp add: modules_wf_def)
qed (use assms(3) in simp)

lemma other_calls_wf:
  assumes "modules_wf cx"
  shows "clog_set_buffer_pool junk auto cap thr (Some cx) w = Some (r, cxo, w') \<Longrightarrow> \<exists>cx'. cxo = Some cx' \<and> modules_wf cx'"
    "clog_register_log_format_placeholder name handler (Some cx) w = Some (r, cxo, w') \<Longrightarrow> \<exists>cx'. cxo = Some cx' \<and> modules_wf cx'"
    "clog_set_log_format fmt (Some cx) w = Some (r, cxo, w') \<Longrightarrow> \<exists>cx'. cxo = Some cx' \<and> modules_wf cx'"
    "clog_set_level_tags level tag (Some cx) w = Some (r, cxo, w') \<Longrightarrow> \<exists>cx'. cxo = Some cx' \<and> modules_wf cx'"
    "clog_add_filter a (Some cx) w = Some (r, cxo, w') \<Longrightarrow> \<exists>cx'. cxo = Some cx' \<and> modules_wf cx'"
    "clog_add_recorder i rc (Some cx) w = Some (r, cxo, w') \<Longrightarrow> \<exists>cx'. cxo = Some cx' \<and> modules_wf cx'"
  unfolding clog_set_buffer_pool_def clog_register_log_format_placeholder_def clog_set_log_format_def
    clog_set_level_tags_def clog_add_filter_def clog_add_recorder_def
  by (erule in_setup_modules [rotated, OF _ assms];
      auto split: if_splits prod.splits option.splits dest!: init_format_modules)+

context plugins
begin

lemma call_keeps:
  "call (ch_open i c) s = Some (r, s') \<Longrightarrow> same_config (fst s) (fst s')"
  "call (ch_close i c) s = Some s' \<Longrightarrow> same_config (fst s) (fst s')"
  "call (di_open i d) s = Some (r, s') \<Longrightarrow> same_config (fst s) (fst s')"
  "call (di_close i d) s = Some s' \<Longrightarrow> same_config (fst s) (fst s')"
  by (auto simp: call_def split: option.splits dest: open_keeps close_keeps d_open_keeps d_close_keeps)

lemma channel_wf:
  assumes "modules_wf cx"
  shows "clog_set_channel i ch (Some cx) w = Some (r, cxo, w') \<Longrightarrow> \<exists>cx'. cxo = Some cx' \<and> modules_wf cx'"
    "clog_set_dispatcher i d (Some cx) w = Some (r, cxo, w') \<Longrightarrow> \<exists>cx'. cxo = Some cx' \<and> modules_wf cx'"
  unfolding clog_set_channel_def clog_set_dispatcher_def
  by (erule in_setup_modules [rotated, OF _ assms];
      auto simp: channel_destroy_def clog_dispatcher_destroy_def split: if_splits prod.splits option.splits
        dest!: call_keeps same_config_parts(1))+

lemma setup_wf:
  assumes "modules_wf cx"
  shows "clog_context_setup i (Some cx) w = Some (r, cxo, w') \<Longrightarrow> \<exists>cx'. cxo = Some cx' \<and> modules_wf cx'"
  unfolding clog_context_setup_def
  by (erule in_setup_modules [rotated, OF _ assms])
    (auto split: if_splits prod.splits option.splits dest!: call_keeps notify_keeps same_config_parts(1) simp: Let_def)

lemma api_wf:
  assumes "modules_wf cx" "\<forall>md \<in> set (given_modules c). fits md"
    and "api_step i strtod c (Some cx) w = Some (r, cxo, w')"
  shows "\<exists>cx'. cxo = Some cx' \<and> modules_wf cx'"
proof (cases "configures c")
  case False
  have "modules_ok cx" using assms(1) by (simp add: modules_wf_iff)
  from api_uses [OF False this assms(3)] show ?thesis using config_kept_wf [OF _ assms(1)] by blast
next
  case True
  show ?thesis
  proof (cases c)
    case (Api_set_mask v)
    with assms(1,3) show ?thesis by (auto simp: api_step_def clog_set_mask_def modules_wf_def)
  next
    case (Api_add_module md)
    with assms(2) have "\<forall>x. md = Some x \<longrightarrow> fits x" by (simp add: given_modules_def)
    with Api_add_module assms(1,3) show ?thesis by (auto simp: api_step_def dest: add_module_fits)
  next
    case (Api_add_modules mds)
    with assms(2) have "\<forall>xs. mds = Some xs \<longrightarrow> (\<forall>x \<in> set xs. fits x)" by (auto simp: given_modules_def)
    with Api_add_modules assms(1,3) show ?thesis by (auto simp: api_step_def dest: add_modules_fits)
  qed (use assms(1,3) True in \<open>auto simp: api_step_def configures_def
      dest: other_calls_wf channel_wf setup_wf set_modules_fits\<close>)
qed

end

end
