(* ===== verification/Logger.thy ===== *)
theory Logger
  imports Core_System Core_Modules
begin

unbundle bit_operations_syntax

text \<open>
  The logger as its callers see it: the lifecycle of a context, whatever is plugged in, and what
  the recorders get from a sequence of log calls on a context with the linked queue and the
  direct dispatcher.
\<close>

subsection \<open>Lifecycle\<close>

text \<open>
  C3. The lifecycle of a context, for any channels, dispatchers and recorders that leave the
  configuration alone. Every call returns the context. Outside of CREATED a configuring call
  changes nothing and reports the abnormal state (setting the mask reports nothing); outside of
  RUNNING a log call changes nothing and reports it. Only a successful setup moves the state, from
  CREATED to RUNNING, and then nothing the log calls use is missing. A running context keeps its
  modules, mask, format, tags, filters, channel and dispatcher through every call.
\<close>

theorem context_lifecycle:
  assumes p: "plugins i" and ok: "modules_ok cx"
    and st: "api_step i strtod c (Some cx) w = Some (r, cxo, w')"
  shows "\<exists>cx'. cxo = Some cx' \<and>
    (configures c \<and> cx_state cx \<noteq> CLOG_STATE_CREATED \<longrightarrow>
       cx' = cx \<and> w' = w \<and> (r = CLOG_ABNORMAL_STATE \<or> (\<exists>v. c = Api_set_mask v))) \<and>
    (logs c \<and> cx_state cx \<noteq> CLOG_STATE_RUNNING \<longrightarrow> cx' = cx \<and> w' = w \<and> r = CLOG_ABNORMAL_STATE) \<and>
    (if c = Api_setup \<and> cx_state cx = CLOG_STATE_CREATED \<and> r = CLOG_SUCCESS
     then cx_state cx' = CLOG_STATE_RUNNING \<and> ready cx' else cx_state cx' = cx_state cx) \<and>
    (cx_state cx = CLOG_STATE_RUNNING \<longrightarrow> config_kept cx cx')"
proof -
  note run = plugins.api_running [OF p _ ok st]
  consider (start) "c = Api_setup" | (mask) v where "c = Api_set_mask v"
    | (other) "configures c" "c \<noteq> Api_setup" "\<And>v. c \<noteq> Api_set_mask v" | (use) "\<not> configures c" by blast
  then show ?thesis
  proof cases
    case start
    with st have "clog_context_setup i (Some cx) w = Some (r, cxo, w')" by (simp add: api_step_def)
    from plugins.setup_state [OF p this] start show ?thesis
      by (cases "cx_state cx = CLOG_STATE_CREATED") (auto simp: logs_def split: if_splits)
  next
    case mask
    with st run show ?thesis by (auto simp: api_step_def clog_set_mask_def logs_def)
  next
    case other
    from plugins.api_configures [OF p other st] have g: "guarded cx w r cxo w'" .
    have "\<not> logs c" using other(1) by (cases c) (simp_all add: logs_def configures_def)
    with g other run show ?thesis by (auto simp: guarded_def)
  next
    case use
    then have "c \<noteq> Api_setup" by (auto simp: configures_def)
    with plugins.api_uses [OF p use ok st] use show ?thesis by (auto simp: config_kept_def frozen_def)
  qed
qed

subsection \<open>A context that is ready\<close>

text \<open>What a configured context has before its setup, with a channel that was just created.\<close>

definition prepared :: "int \<Rightarrow> nat \<Rightarrow> ('p, 'f, 'y) sys_ctx \<Rightarrow> ('p, 'f, 'y) sys_world \<Rightarrow> bool" where
  "prepared base n cx w \<longleftrightarrow> cx_state cx = CLOG_STATE_CREATED \<and> modules_ok cx \<and> recorders_ok cx \<and>
     pool_rest base n cx w [] \<and>
     (\<forall>hm. cx_placeholders cx = Some hm \<longrightarrow> string_map hm) \<and>
     (\<forall>ic. cx_interpolator_context cx = Some ic \<longrightarrow> string_map (ic_map ic)) \<and>
     (\<exists>orc h. clog_unsafe_queue_channel_create (heap_empty orc) = (Some (chan w), h))"

definition same_parts :: "('p, 'f, 'y) sys_world \<Rightarrow> ('p, 'f, 'y) sys_world \<Rightarrow> bool" where
  "same_parts w w' \<longleftrightarrow> w_items w' = w_items w \<and> w_filters w' = w_filters w \<and> chan w' = chan w"

lemma same_parts_refl [simp]: "same_parts w w"
  by (simp add: same_parts_def)

lemma same_parts_trans [trans]: "same_parts a b \<Longrightarrow> same_parts b c \<Longrightarrow> same_parts a c"
  by (simp add: same_parts_def)

lemma same_parts_put [simp]: "same_parts w (put_out y w)"
  by (simp add: same_parts_def)

lemma same_parts_mem:
  "same_parts w (clog_free w)" "same_parts w (clog_free_opt p w)" "clog_malloc n w = (b, w') \<Longrightarrow> same_parts w w'"
  by (cases w; auto simp: same_parts_def clog_free_def clog_free_opt_def clog_malloc_def chan_def split: option.split if_splits)+

lemma same_parts_chain: "string_map hm \<Longrightarrow> same_parts w (Hashmap.free_chain hm es w)"
proof (induction es arbitrary: w)
  case (Cons e es)
  have "same_parts w (clog_hashmap_free_entry hm e w)"
    using Cons.prems same_parts_trans [OF same_parts_trans [OF same_parts_mem(1) same_parts_mem(1)] same_parts_mem(1)]
    by (simp add: string_map_def clog_hashmap_free_entry_def clog_hashmap_free_value_def clog_hashmap_free_key_def
        clog_hashmap_string_free_def)
  with Cons.IH [OF Cons.prems] show ?case by (auto intro: same_parts_trans)
qed simp

lemma same_parts_destroy:
  "\<forall>h. hm = Some h \<longrightarrow> string_map h \<Longrightarrow> same_parts w (snd (clog_hashmap_destroy hm w))"
  using same_parts_trans [OF same_parts_trans [OF same_parts_chain same_parts_mem(1)] same_parts_mem(1)]
  by (auto simp: clog_hashmap_destroy_def clog_hashmap_free_buckets_def split: option.split)

lemma same_parts_ic:
  "\<forall>c. ic = Some c \<longrightarrow> string_map (ic_map c) \<Longrightarrow> same_parts w (snd (clog_interpolator_context_destroy ic w))"
  using same_parts_trans [OF same_parts_destroy [of "Some (ic_map (the ic))"] same_parts_mem(1)] same_parts_mem(1)
  by (auto simp: clog_interpolator_context_destroy_def split: option.split)

lemma open_recorders_parts:
  assumes "open_recorders direct_system hm it w = Some y"
  shows "same_parts w (snd y)"
proof -
  have "i = direct_system \<longrightarrow> same_parts w (snd y)" if "open_recorders i hm it w = Some y" for i
  proof (rule open_recorders.raw_induct [where P = "\<lambda>i hm it w y. i = direct_system \<longrightarrow> same_parts w (snd y)",
        OF _ that], intro impI)
    fix rec i hm it w y
    assume ih: "\<And>i hm it w y. rec i hm it w = Some y \<Longrightarrow> i = direct_system \<longrightarrow> same_parts w (snd y)"
      and eq: "(case clog_hashmap_iterator_key (Some it) of
      None \<Rightarrow> Some (CLOG_SUCCESS, w)
    | Some k \<Rightarrow> (case clog_hashmap_iterator_value (Some it) of
          None \<Rightarrow> Some (CLOG_FAIL, w)
        | Some r \<Rightarrow> (case call (re_open i r) w of
              None \<Rightarrow> None
            | Some (ret, w) \<Rightarrow>
                if ret \<noteq> CLOG_SUCCESS then Some (ret, w)
                else if fst (clog_hashmap_iterator_next hm it)
                then rec i hm (snd (clog_hashmap_iterator_next hm it)) w
                else Some (CLOG_SUCCESS, w)))) = Some y"
      and i: "i = direct_system"
    note loop = ih [rule_format, OF _ i]
    have "same_parts w w1" if "call (re_open i r) w = Some (ret, w1)" for r ret w1
      using that i by (auto simp: call_def direct_system_def on_out_def)
    with eq show "same_parts w (snd y)"
      by (auto split: option.splits prod.splits if_splits dest!: loop intro: same_parts_trans)
  qed
  with assms show ?thesis by blast
qed

lemma start_recorders_parts:
  "start_recorders direct_system cx w = Some (r, w') \<Longrightarrow> same_parts w w'"
  by (auto simp: start_recorders_def clog_hashmap_iterator_create_def clog_hashmap_iterator_destroy_def
     split: option.splits prod.splits bool.splits dest!: open_recorders_parts same_parts_mem(3)
     intro: same_parts_trans [OF _ same_parts_trans [OF _ same_parts_mem(2)]])

definition opens :: "(bytes \<times> 'y clog_recorder) list \<Rightarrow> bool" where
  "opens es \<longleftrightarrow> (\<forall>r \<in> snd ` set es. \<forall>y. rc_open r y \<noteq> None)"

definition open_returns :: "(bytes \<times> 'y clog_recorder) list \<Rightarrow> clog_res \<Rightarrow> bool" where
  "open_returns es r \<longleftrightarrow> (\<exists>rc \<in> snd ` set es. \<exists>y y'. rc_open rc y = Some (r, y'))"

lemma open_returns_Cons:
  "open_returns (e # es) r \<longleftrightarrow> (\<exists>y y'. rc_open (snd e) y = Some (r, y')) \<or> open_returns es r"
  by (simp add: open_returns_def)

lemma opens_Cons: "opens (e # es) \<longleftrightarrow> (\<forall>y. rc_open (snd e) y \<noteq> None) \<and> opens es"
  by (simp add: opens_def)

lemma open_recorders_total:
  assumes "length (hm_buckets hm) = hm_buckets_size hm"
    and "hi_current it = [] \<longrightarrow> iter_rest hm it = []"
    and "opens (iter_rest hm it)"
  shows "\<exists>r w'. open_recorders direct_system hm it w = Some (r, w') \<and>
    (r \<noteq> CLOG_SUCCESS \<longrightarrow> open_returns (iter_rest hm it) r)"
  using assms(2,3)
proof (induction "length (iter_rest hm it)" arbitrary: it w)
  case 0
  then have "hi_current it = []" by (simp add: iter_rest_def)
  then show ?case
    by (subst open_recorders.simps) (simp add: clog_hashmap_iterator_key_def clog_hashmap_iterator_entry_def)
next
  case (Suc n)
  from Suc.hyps(2) Suc.prems(1) obtain e es where c: "hi_current it = e # es" by (cases "hi_current it") auto
  define it' where "it' = snd (clog_hashmap_iterator_next hm it)"
  have next_it: "iter_rest hm it = e # iter_rest hm it' \<and> (hi_current it' = [] \<longrightarrow> iter_rest hm it' = []) \<and>
      (fst (clog_hashmap_iterator_next hm it) \<longleftrightarrow> hi_current it' \<noteq> [])"
  proof (cases "es = []")
    case True
    with c iterator_scan_rest [OF assms(1), of "Suc (hi_bucket_index it)"] show ?thesis
      by (simp add: it'_def clog_hashmap_iterator_next_def Let_def iter_rest_def)
  next
    case False
    with c show ?thesis by (simp add: it'_def clog_hashmap_iterator_next_def iter_rest_def)
  qed
  then have op: "\<forall>y. rc_open (snd e) y \<noteq> None" "opens (iter_rest hm it')" using Suc.prems(2) by (simp_all add: opens_Cons)
  from op(1) obtain r y where o: "rc_open (snd e) (out w) = Some (r, y)" by (metis option.exhaust surj_pair)
  have step: "open_recorders direct_system hm it w =
      (if r \<noteq> CLOG_SUCCESS then Some (r, put_out y w)
       else if hi_current it' \<noteq> [] then open_recorders direct_system hm it' (put_out y w)
       else Some (CLOG_SUCCESS, put_out y w))"
    using c o next_it
    by (subst open_recorders.simps)
      (simp add: clog_hashmap_iterator_key_def clog_hashmap_iterator_value_def clog_hashmap_iterator_entry_def
        call_def direct_system_def on_out_def it'_def)
  have "\<exists>r w'. open_recorders direct_system hm it' (put_out y w) = Some (r, w') \<and>
      (r \<noteq> CLOG_SUCCESS \<longrightarrow> open_returns (iter_rest hm it') r)"
    by (rule Suc.hyps(1)) (use Suc.hyps(2) op next_it in auto)
  with step o next_it show ?case by (cases "r = CLOG_SUCCESS") (auto simp: open_returns_Cons)
qed

text \<open>Nothing is missing, and every recorder's \<open>open\<close> is defined.\<close>

definition complete :: "('p, 'f, 'y) sys_ctx \<Rightarrow> bool" where
  "complete cx \<longleftrightarrow> cx_modules cx \<noteq> None \<and> cx_interpolator cx \<noteq> None \<and> cx_channel cx = Some () \<and>
     cx_dispatcher cx = Some () \<and>
     (\<exists>hm. cx_recorders cx = Some hm \<and> opens (entries hm))"

definition some_recorder_returns :: "('p, 'f, 'y) sys_ctx \<Rightarrow> clog_res \<Rightarrow> bool" where
  "some_recorder_returns cx r \<longleftrightarrow>
     (\<exists>hm. cx_recorders cx = Some hm \<and> open_returns (entries hm) r)"

lemma start_recorders_total:
  assumes "complete cx" "recorders_ok cx"
  shows "\<exists>r w'. start_recorders direct_system cx w = Some (r, w') \<and> same_parts w w' \<and>
    (r \<noteq> CLOG_SUCCESS \<longrightarrow> some_recorder_returns cx r \<or> \<not> grants w (tick w))"
proof -
  obtain hm where hm: "cx_recorders cx = Some hm" "opens (entries hm)"
    using assms(1) by (auto simp: complete_def)
  have l: "length (hm_buckets hm) = hm_buckets_size hm"
    using assms(2) hm(1) by (simp add: recorders_ok_def hm_inv_def hm_shape_def)
  show ?thesis
  proof (cases "grants w (tick w)")
    case False
    with hm(1) show ?thesis
      by (auto simp: start_recorders_def clog_hashmap_iterator_create_def clog_malloc_def sizeof_iterator_def
          intro: same_parts_mem(3) [of sizeof_iterator w False])
  next
    case True
    obtain w1 where m: "clog_malloc sizeof_iterator w = (True, w1)"
      using True by (simp add: clog_malloc_def sizeof_iterator_def)
    note scan = iterator_scan_rest [OF l, of 0]
    then have "iter_rest hm (iterator_scan hm 0) = entries hm" by (simp add: entries_def)
    with open_recorders_total [OF l, of "iterator_scan hm 0" w1] scan hm(2) obtain r w2 where
      o: "open_recorders direct_system hm (iterator_scan hm 0) w1 = Some (r, w2)"
        "r \<noteq> CLOG_SUCCESS \<longrightarrow> open_returns (entries hm) r" by auto
    have "start_recorders direct_system cx w =
        Some (r, snd (clog_hashmap_iterator_destroy (Some (iterator_scan hm 0)) w2))"
      using hm(1) m o(1) by (simp add: start_recorders_def clog_hashmap_iterator_create_def)
    with start_recorders_parts [OF this] o(2) hm(1) show ?thesis
      by (auto simp: some_recorder_returns_def)
  qed
qed

text \<open>
  C2. Setup makes a complete configuration a logger that is ready. It always returns. When it
  returns success the context is running, the queue is empty, every buffer is in the pool and
  the configuration the log calls see is as it was prepared; otherwise the context stays in
  CREATED, and some allocator refused a request or some recorder's \<open>open\<close> returned that code.
\<close>

theorem setup_ready:
  assumes "prepared base n cx w" "complete cx"
  shows "\<exists>r cx' w'. clog_context_setup direct_system (Some cx) w = Some (r, Some cx', w') \<and>
    (if r = CLOG_SUCCESS
     then at_rest base n cx' w' \<and> module_of cx' = module_of cx \<and> recorder_of cx' = recorder_of cx \<and>
       item_for (w_filters w') cx' = item_for (w_filters w) cx
     else cx_state cx' = CLOG_STATE_CREATED \<and>
       (queue_refuses w \<or> (\<exists>k. \<not> grants w k) \<or> some_recorder_returns cx r))"
proof -
  have st: "cx_state cx = CLOG_STATE_CREATED" "recorders_ok cx" using assms(1) by (simp_all add: prepared_def)
  from assms(2) obtain md ip where parts: "cx_channel cx = Some ()" "cx_dispatcher cx = Some ()"
    "cx_modules cx = Some md" "cx_interpolator cx = Some ip" by (auto simp: complete_def)
  obtain r c where o: "clog_unsafe_queue_channel_open (chan w) = (r, c)" by (metis surj_pair)
  show ?thesis
  proof (cases "r = CLOG_SUCCESS")
    case False
    with o have "queue_refuses w"
      by (auto simp: clog_unsafe_queue_channel_open_def clog_queue_create_def clog_malloc_def queue_refuses_def sizeof_queue_def
          split: if_splits prod.splits)
    with False st parts o show ?thesis
      by (simp add: clog_context_setup_def in_setup_def direct_system_def call_def)
  next
    case True
    define w1 where "w1 = (put_chan c w)\<lparr>w_ext := (w_ext (put_chan c w))\<lparr>pa_bound := True\<rparr>\<rparr>"
    define w2 where "w2 = put_chan (chan w1) w1"
    have g: "grants w2 = grants w" by (simp add: w2_def w1_def put_chan_def)
    from start_recorders_total [OF assms(2) st(2), of w2] obtain r3 w3 where
      s: "start_recorders direct_system cx w2 = Some (r3, w3)" "same_parts w2 w3"
        "r3 \<noteq> CLOG_SUCCESS \<longrightarrow> some_recorder_returns cx r3 \<or> (\<exists>k. \<not> grants w k)" using g by auto
    define w4 where "w4 = snd (clog_hashmap_destroy (cx_placeholders cx)
        (snd (clog_interpolator_context_destroy (cx_interpolator_context cx) w3)))"
    define cx1 where "cx1 = cx\<lparr>cx_interpolator_context := None, cx_placeholders := None, cx_state := CLOG_STATE_RUNNING\<rparr>"
    have run: "clog_context_setup direct_system (Some cx) w =
        (if r3 = CLOG_SUCCESS then Some (CLOG_SUCCESS, Some cx1, w4) else Some (r3, Some cx, w3))"
      using st parts o True s(1)
      by (simp add: clog_context_setup_def in_setup_def direct_system_def [THEN arg_cong [where f = ch_open]]
          direct_system_def [THEN arg_cong [where f = di_open]] direct_system_def [THEN arg_cong [where f = di_notify]]
          direct_system_def [THEN arg_cong [where f = di_set_channel]]
          call_def clog_dispatcher_direct_notify_def
          clog_dispatcher_direct_open_def w1_def [symmetric] w2_def [symmetric] w4_def cx1_def Let_def)
    show ?thesis
    proof (cases "r3 = CLOG_SUCCESS")
      case False
      with run s(3) st(1) show ?thesis by auto
    next
      case r3: True
      have "same_parts w3 w4"
        using same_parts_trans [OF same_parts_ic [of "cx_interpolator_context cx" w3] same_parts_destroy [of "cx_placeholders cx"]]
          assms(1) by (simp add: w4_def prepared_def)
      with s(2) have "same_parts w2 w4" by (rule same_parts_trans)
      then have w4: "w_items w4 = w_items w" "w_filters w4 = w_filters w" "chan w4 = c"
        by (simp_all add: same_parts_def w2_def w1_def put_chan_def chan_def)
      have same: "module_of cx1 = module_of cx" "recorder_of cx1 = recorder_of cx"
        by (simp_all add: cx1_def module_of_def recorder_of_def fun_eq_iff)
      have "item_for fh cx1 = item_for fh cx" for fh
        by (rule item_for_cong) (simp_all add: cx1_def)
      moreover have "uc_rep c []" using assms(1) o True uc_open_rep by (auto simp: prepared_def)
      moreover have "running cx1" using assms(1) parts by (simp add: prepared_def running_def cx1_def modules_ok_def recorders_ok_def)
      moreover have "pool_rest base n cx1 w4 []" using assms(1) w4 by (simp add: prepared_def pool_rest_def cx1_def)
      ultimately show ?thesis using run r3 same w4 by (simp add: at_rest_def)
    qed
  qed
qed

subsection \<open>A log call on the whole system\<close>

text \<open>The recorders a call is for, or why the module refuses it.\<close>

definition request_of :: "('c, 'd, 'r) api_call \<Rightarrow> (string option \<times> 32 word option \<times> log_call) option" where
  "request_of c = (case c of
      Api_record_log name rid lc \<Rightarrow> Some (name, Some rid, lc)
    | Api_module_log name lc \<Rightarrow> Some (name, None, lc)
    | _ \<Rightarrow> None)"

definition targets ::
    "('c, 'd, 'r, 'm) clog_context \<Rightarrow> string \<Rightarrow> 32 word option \<Rightarrow> clog_level \<Rightarrow> clog_res + 32 word list" where
  "targets cx name wanted level = (case module_of cx (cstr (cstr_bytes name)) of
      None \<Rightarrow> Inl CLOG_TARGET_NOT_FOUND
    | Some md \<Rightarrow>
        (let ids = take (md_num md) (md_recorders md) in
         if \<not> bit (md_level md) (level_code level - 1) then Inl CLOG_NOT_PERMITTED
         else case wanted of
             Some rid \<Rightarrow> if rid \<in> set ids then Inr [rid] else Inl CLOG_NOT_PERMITTED
           | None \<Rightarrow> if ids = [] then Inl CLOG_TARGET_NOT_FOUND else Inr ids))"

definition log_result ::
    "('p, 'f) fheap \<Rightarrow> ('c, 'd, 'r, 'm) clog_context \<Rightarrow> ('c, 'd, 'r) api_call \<Rightarrow> (clog_res + clog_item) option" where
  "log_result fh cx c = (case request_of c of
      None \<Rightarrow> None
    | Some (None, wanted, lc) \<Rightarrow> Some (Inl CLOG_TARGET_NOT_FOUND)
    | Some (Some name, wanted, lc) \<Rightarrow>
        if lc_level lc = CLOG_LEVEL_OFF then None
        else (case targets cx name wanted (lc_level lc) of
                Inl e \<Rightarrow> Some (Inl e)
              | Inr ids \<Rightarrow> item_for fh cx ids (length ids) name lc))"

definition modules_fit :: "('c, 'd, 'r, 'm) clog_context \<Rightarrow> bool" where
  "modules_fit cx \<longleftrightarrow> (\<forall>name md. module_of cx name = Some md \<longrightarrow> md_num md \<le> length (md_recorders md))"

lemma find_recorder_set:
  "i + n \<le> length rs \<Longrightarrow> find_recorder rs i n v = Some (v \<in> set (take n (drop i rs)))"
proof (induction n arbitrary: i)
  case (Suc n)
  then have "drop i rs = rs ! i # drop (Suc i) rs" by (simp add: Cons_nth_drop_Suc)
  with Suc show ?case by auto
qed simp

lemma and_push_bit_one: "(push_bit k 1 AND (v :: 'a :: len word)) = 0 \<longleftrightarrow> \<not> bit v k"
proof -
  have "bit (push_bit k (1 :: 'a word) AND v) n \<longleftrightarrow> n = k \<and> bit v k" for n
    by (auto simp: bit_simps dest: bit_imp_le_length)
  then show ?thesis by (metis bit_0_eq bot_fun_def bot_bool_def bit_eqI)
qed

lemma level_bit_and:
  "level \<noteq> CLOG_LEVEL_OFF \<Longrightarrow> \<exists>b. level_bit level = Some b \<and> (b AND v = 0 \<longleftrightarrow> \<not> bit v (level_code level - 1))"
  using and_push_bit_one [of "level_code level - 1" v] by (simp add: level_bit_def)

lemma item_recorders_take: "n \<le> length rs \<Longrightarrow> item_recorders rs n = item_recorders (take n rs) (length (take n rs))"
  by (simp add: item_recorders_def min_def)

lemma item_for_take:
  "n \<le> length rs \<Longrightarrow> item_for fh cx (take n rs) (length (take n rs)) name lc = item_for fh cx rs n name lc"
  using item_recorders_take [of n rs] by (simp only: item_for_def)

lemma recorder_of_modules [simp]: "recorder_of (cx\<lparr>cx_modules := mp\<rparr>) = recorder_of cx"
  by (simp add: recorder_of_def fun_eq_iff)

lemma outcome_frame:
  "outcome x (cx\<lparr>cx_modules := mp\<rparr>) w r w' = outcome x cx w r w'"
  "recorders_defined x (cx\<lparr>cx_modules := mp\<rparr>) w = recorders_defined x cx w"
  by (simp_all add: outcome_def recorders_defined_def split: sum.split)

lemma refused_outcome: "outcome (Inl e) cx w e w"
  by (simp add: outcome_def)

lemma log_call_spec:
  assumes rest: "at_rest base n cx w" and fit: "modules_fit cx" and n: "Suc n < 2 ^ 64"
    and x: "log_result (w_filters w) cx c = Some x" "recorders_defined x cx w"
  shows "\<exists>r cx' w'. api_step direct_system strtod c (Some cx) w = Some (r, Some cx', w') \<and> like cx cx' \<and>
    at_rest base (Suc n) cx' w' \<and> w_filters w' = w_filters w \<and> outcome x cx w r w' \<and> same_grants w w'"
proof -
  from x(1) obtain name wanted lc where rq: "request_of c = Some (name, wanted, lc)"
    by (auto simp: log_result_def split: option.splits)
  have run: "cx_state cx = CLOG_STATE_RUNNING" "modules_ok cx" "recorders_ok cx"
    using rest by (simp_all add: at_rest_def running_def)
  obtain info mp where g: "clog_hashmap_get (cx_modules cx) (map_option cstr_bytes name) = (info, mp)"
    by (metis surj_pair)
  define cx1 where "cx1 = cx\<lparr>cx_modules := mp\<rparr>"
  from get_module [OF run(2) g] have info: "info = (case name of None \<Rightarrow> None | Some n \<Rightarrow> module_of cx (cstr (cstr_bytes n)))"
    and kept: "config_kept cx cx1" by (auto simp: cx1_def)
  have l1: "like cx cx1" using kept by (simp add: like_def cx1_def recorder_of_def [abs_def] recorders_ok_def)
  have rest0: "at_rest base n cx1 w"
    using rest running_like [OF _ l1] by (simp add: at_rest_def cx1_def)
  then have rest1: "at_rest base (Suc n) cx1 w" using pool_rest_mono [of base n cx1 w "[]"] by (simp add: at_rest_def)
  have step: "api_step direct_system strtod c (Some cx) w =
      map_option (\<lambda>(r, cx, w). (r, Some cx, w))
        (case wanted of None \<Rightarrow> clog_module_log_internal direct_system name lc cx w
         | Some rid \<Rightarrow> clog_record_log_internal direct_system name rid lc cx w)"
    using rq run(1)
    by (cases c) (auto simp: request_of_def api_step_def clog_record_log_def clog_module_log_def in_running_def)
  have refused: ?thesis if "x = Inl e"
      "(case wanted of None \<Rightarrow> clog_module_log_internal direct_system name lc cx w
         | Some rid \<Rightarrow> clog_record_log_internal direct_system name rid lc cx w) = Some (e, cx1, w)" for e
    using that step l1 rest1 refused_outcome by fastforce
  show ?thesis
  proof (cases "\<exists>nm md. name = Some nm \<and> info = Some md")
    case False
    then have "x = Inl CLOG_TARGET_NOT_FOUND"
      using x(1) rq info by (auto simp: log_result_def targets_def split: option.splits if_splits)
    moreover from False g have "(case wanted of None \<Rightarrow> clog_module_log_internal direct_system name lc cx w
         | Some rid \<Rightarrow> clog_record_log_internal direct_system name rid lc cx w) = Some (CLOG_TARGET_NOT_FOUND, cx1, w)"
      by (auto simp: clog_module_log_internal_def clog_record_log_internal_def cx1_def Let_def split: option.splits)
    ultimately show ?thesis by (rule refused)
  next
    case True
    then obtain nm md where nm: "name = Some nm" "info = Some md" "module_of cx (cstr (cstr_bytes nm)) = Some md"
      using info by auto
    have fits: "md_num md \<le> length (md_recorders md)" using fit nm(3) by (simp add: modules_fit_def)
    have lv: "lc_level lc \<noteq> CLOG_LEVEL_OFF" using x(1) rq nm(1) by (auto simp: log_result_def split: if_splits)
    from level_bit_and [OF lv, of "md_level md"] obtain b where b: "level_bit (lc_level lc) = Some b"
      "(b AND md_level md = 0) = (\<not> bit (md_level md) (level_code (lc_level lc) - 1))" by blast
    define ids where "ids = take (md_num md) (md_recorders md)"
    have fr: "find_recorder (md_recorders md) 0 (md_num md) v = Some (v \<in> set ids)" for v
      using find_recorder_set [of 0 "md_num md" "md_recorders md" v] fits by (simp add: ids_def)
    show ?thesis
    proof (cases "targets cx nm wanted (lc_level lc)")
      case (Inl e)
      then have "x = Inl e" using x(1) rq nm lv by (simp add: log_result_def)
      moreover from Inl have "(case wanted of None \<Rightarrow> clog_module_log_internal direct_system name lc cx w
         | Some rid \<Rightarrow> clog_record_log_internal direct_system name rid lc cx w) = Some (e, cx1, w)"
      proof (cases wanted)
        case None
        with Inl nm b fits have "e = (if b AND md_level md = 0 then CLOG_NOT_PERMITTED else CLOG_TARGET_NOT_FOUND)"
          "b AND md_level md = 0 \<or> md_num md = 0" by (auto simp: targets_def Let_def split: if_splits)
        with None g nm b(1) show ?thesis by (auto simp: clog_module_log_internal_def cx1_def Let_def)
      next
        case (Some v)
        with Inl nm b have "e = CLOG_NOT_PERMITTED" "b AND md_level md = 0 \<or> v \<notin> set ids"
          by (auto simp: targets_def ids_def Let_def split: if_splits)
        with Some g nm b(1) fr show ?thesis
          by (cases "b AND md_level md = 0") (simp_all add: clog_record_log_internal_def cx1_def Let_def clog_module_check_def)
      qed
      ultimately show ?thesis by (rule refused)
    next
      case (Inr us)
      have item: "item_for (w_filters w) cx us (length us) nm lc = Some x"
        using x(1) rq nm lv Inr by (simp add: log_result_def)
      have go: "\<exists>rs num. (case wanted of None \<Rightarrow> clog_module_log_internal direct_system name lc cx w
            | Some rid \<Rightarrow> clog_record_log_internal direct_system name rid lc cx w) = log_item direct_system rs num nm lc cx1 w \<and>
          item_for (w_filters w) cx rs num nm lc = Some x"
      proof (cases wanted)
        case None
        with Inr g nm b fits item have "us = ids" "ids \<noteq> []" "md_num md \<noteq> 0" "b AND md_level md \<noteq> 0"
          by (auto simp: targets_def ids_def Let_def split: if_splits)
        moreover have "item_for (w_filters w) cx (md_recorders md) (md_num md) nm lc = Some x"
          using item item_for_take [OF fits, of "w_filters w" cx nm lc] \<open>us = ids\<close> by (simp only: ids_def)
        ultimately show ?thesis using None g nm b(1)
          by (intro exI [of _ "md_recorders md"] exI [of _ "md_num md"])
            (simp add: clog_module_log_internal_def cx1_def Let_def)
      next
        case (Some v)
        with Inr nm b have "us = [v]" "v \<in> set ids" "b AND md_level md \<noteq> 0"
          by (auto simp: targets_def ids_def Let_def split: if_splits)
        with Some g nm b item fr show ?thesis
          by (intro exI [of _ "[v]"] exI [of _ 1])
            (simp add: clog_record_log_internal_def cx1_def Let_def clog_module_check_def)
      qed
      then obtain rs num where go: "(case wanted of None \<Rightarrow> clog_module_log_internal direct_system name lc cx w
            | Some rid \<Rightarrow> clog_record_log_internal direct_system name rid lc cx w) = log_item direct_system rs num nm lc cx1 w"
          "item_for (w_filters w) cx rs num nm lc = Some x" by blast
      have "item_for (w_filters w) cx1 rs num nm lc = Some x" using go(2) by (simp only: item_for_like [OF l1])
      moreover have "recorders_defined x cx1 w" using x(2) by (simp add: cx1_def outcome_frame)
      ultimately obtain r cx' w' where "log_item direct_system rs num nm lc cx1 w = Some (r, cx', w')" "like cx1 cx'"
        "at_rest base (Suc n) cx' w'" "w_filters w' = w_filters w" "outcome x cx1 w r w'"
        using log_item_spec [OF rest0 n] by blast
      moreover from this(1) have "same_grants w w'" by (rule log_item_grants)
      ultimately show ?thesis using go(1) step like_trans [OF l1] by (fastforce simp: cx1_def outcome_frame)
    qed
  qed
qed

subsection \<open>Any sequence of log calls\<close>

text \<open>The items of the calls that succeeded, and the recorders' state once they all got theirs.\<close>

fun accepted :: "('c \<Rightarrow> (clog_res + clog_item) option) \<Rightarrow> 'c list \<Rightarrow> clog_res list \<Rightarrow> clog_item list" where
  "accepted result (c # cs) (r # rs) =
     (case result c of Some (Inr item) \<Rightarrow> if r = CLOG_SUCCESS then [item] else [] | _ \<Rightarrow> []) @
     accepted result cs rs"
| "accepted result _ _ = []"

fun deliver_all :: "(32 word \<Rightarrow> 'y clog_recorder option) \<Rightarrow> clog_item list \<Rightarrow> 'y \<Rightarrow> 'y option" where
  "deliver_all known [] y = Some y"
| "deliver_all known (item # items) y =
     (case deliver known item (it_recorder item) y of None \<Rightarrow> None | Some y \<Rightarrow> deliver_all known items y)"

text \<open>What a call may return when its outcome is \<open>x\<close> and some memory is \<open>refused\<close>.\<close>

definition answers :: "bool \<Rightarrow> (clog_res + clog_item) option \<Rightarrow> clog_res \<Rightarrow> bool" where
  "answers refused x r \<longleftrightarrow> refused \<and> r = CLOG_NO_MEMORY \<or> (case x of
      None \<Rightarrow> False
    | Some (Inl e) \<Rightarrow> r = e
    | Some (Inr _) \<Rightarrow> r = CLOG_SUCCESS)"

definition refuses :: "('p, 'f, 'y) sys_world \<Rightarrow> bool" where
  "refuses w \<longleftrightarrow> items_refuse w \<or> queue_refuses w"

lemma refuses_same: "same_grants w w' \<Longrightarrow> refuses w' = refuses w"
  by (simp add: refuses_def items_refuse_def queue_refuses_def same_grants_def)

text \<open>Recorders whose functions are always defined.\<close>

definition recorders_total :: "(32 word \<Rightarrow> 'y clog_recorder option) \<Rightarrow> bool" where
  "recorders_total known \<longleftrightarrow>
     (\<forall>v r. known v = Some r \<longrightarrow> (\<forall>item y. rc_write r item y \<noteq> None \<and> rc_flush r y \<noteq> None))"

lemma deliver_total: "recorders_total known \<Longrightarrow> deliver known item ids y \<noteq> None"
proof (induction ids arbitrary: y)
  case (Cons v ids)
  have "hand_over r item y \<noteq> None" if "known v = Some r" for r
  proof -
    from Cons.prems that have t: "rc_write r item y \<noteq> None" "\<And>z. rc_flush r z \<noteq> None"
      unfolding recorders_total_def by blast+
    then obtain ret z where "rc_write r item y = Some (ret, z)" by fastforce
    moreover from t(2) [of z] obtain r2 z2 where "rc_flush r z = Some (r2, z2)" by fastforce
    ultimately show ?thesis by (simp add: hand_over_def)
  qed
  with Cons show ?case by (auto split: option.split)
qed simp

lemma log_result_like:
  assumes "like cx cx'"
  shows "log_result fh cx' = log_result fh cx"
proof
  fix c
  have "module_of cx' = module_of cx" using assms by (simp add: like_def config_kept_def)
  then have "targets cx' = targets cx" by (intro ext) (simp only: targets_def)
  moreover have "item_for fh cx' = item_for fh cx" by (rule item_for_like [OF assms])
  ultimately show "log_result fh cx' c = log_result fh cx c" by (simp only: log_result_def)
qed

lemma log_run_spec:
  assumes "at_rest base n cx w" "modules_fit cx" "n + length cs < 2 ^ 64" "recorders_total (recorder_of cx)"
    and "\<forall>c \<in> set cs. log_result (w_filters w) cx c \<noteq> None"
  shows "\<exists>rs cx' w'. api_run direct_system strtod cs (Some cx) w = Some (rs, Some cx', w') \<and> like cx cx' \<and>
    at_rest base (n + length cs) cx' w' \<and> list_all2 (\<lambda>c. answers (refuses w) (log_result (w_filters w) cx c)) cs rs \<and>
    deliver_all (recorder_of cx) (accepted (log_result (w_filters w) cx) cs rs) (out w) = Some (out w')"
  using assms
proof (induction cs arbitrary: n cx w)
  case (Cons c cs)
  from Cons.prems(5) obtain x where x: "log_result (w_filters w) cx c = Some x" by auto
  have "recorders_defined x cx w"
    using deliver_total [OF Cons.prems(4)] by (simp add: recorders_defined_def split: sum.split)
  with log_call_spec [OF Cons.prems(1,2) _ x, of strtod] Cons.prems(3) obtain r cx1 w1 where
    s: "api_step direct_system strtod c (Some cx) w = Some (r, Some cx1, w1)" "like cx cx1"
      "at_rest base (Suc n) cx1 w1" "w_filters w1 = w_filters w" "outcome x cx w r w1" "same_grants w w1" by auto
  have same: "module_of cx1 = module_of cx" "recorder_of cx1 = recorder_of cx"
    using s(2) by (simp_all add: like_def config_kept_def)
  note lr = log_result_like [OF s(2), of "w_filters w"]
  have "modules_fit cx1" using Cons.prems(2) same(1) by (simp add: modules_fit_def)
  with Cons.IH [OF s(3)] Cons.prems(3-5) same(2) s(4) lr refuses_same [OF s(6)] obtain rs cx' w' where
    run: "api_run direct_system strtod cs (Some cx1) w1 = Some (rs, Some cx', w')" "like cx1 cx'"
      "at_rest base (Suc n + length cs) cx' w'" "list_all2 (\<lambda>c. answers (refuses w) (log_result (w_filters w) cx c)) cs rs"
      "deliver_all (recorder_of cx) (accepted (log_result (w_filters w) cx) cs rs) (out w1) = Some (out w')"
    by auto
  have "answers (refuses w) (log_result (w_filters w) cx c) r"
    using s(5) x by (auto simp: answers_def outcome_def refuses_def split: sum.splits)
  moreover have "deliver_all (recorder_of cx) (accepted (log_result (w_filters w) cx) (c # cs) (r # rs)) (out w) = Some (out w')"
    using s(5) x run(5) by (auto simp: outcome_def split: sum.splits)
  ultimately show ?case using s(1) run like_trans [OF s(2) run(2)] by (intro exI [of _ "r # rs"] exI conjI) auto
qed auto


text \<open>
  A logger: one module for all levels with recorder 7, whose output is the list of the contents
  it was given, the format \<open>> {_content}\<close>, and a pool of two buffers.
\<close>

type_synonym ex_ctx = "(unit, unit, clog_item list) sys_ctx"
type_synonym ex_world = "(unit, unit, clog_item list) sys_world"

definition ex_recorder :: "clog_item list clog_recorder" where
  "ex_recorder = \<lparr>rc_id = 7, rc_open = (\<lambda>y. Some (CLOG_SUCCESS, y)),
     rc_write = (\<lambda>item y. Some (CLOG_SUCCESS, y @ [item])), rc_flush = (\<lambda>y. Some (CLOG_SUCCESS, y)),
     rc_close = (\<lambda>y. y)\<rparr>"

definition ex_module :: clog_module where
  "ex_module = \<lparr>md_name = ''m'', md_level = 0x3E, md_num = 1, md_recorders = [7, 0, 0, 0]\<rparr>"

definition ex_pool_init where
  "ex_pool_init = the (clog_buffer_pool_initialize ex_item True sizeof_log_item 2 True 50 (heap_empty (\<lambda>_. True)))"

definition ex_sys_world :: ex_world where
  "ex_sys_world = \<lparr>grants = (\<lambda>_. True), tick = 0, live = 0, w_items = snd (snd ex_pool_init),
     w_filters = heap_empty (\<lambda>_. True),
     w_ext = \<lparr>pa_channel = snd (clog_unsafe_queue_channel_open
         (the (fst (clog_unsafe_queue_channel_create (heap_empty (\<lambda>_. True)))))), pa_bound = True, pa_out = []\<rparr>\<rparr>"

definition ex_modules where
  "ex_modules = fst (snd (put_nn (the (fst (string_create sizeof_module 0 ex_sys_world))) (cstr_bytes ''m'') ex_module ex_sys_world))"

definition ex_recorders where
  "ex_recorders = fst (snd (put_nn (the (fst (recorders_create (direct_system :: (unit, unit, clog_item list) sys_iface) ex_sys_world)))
     (id_bytes 7) ex_recorder ex_sys_world))"

definition ex_logger :: ex_ctx where
  "ex_logger = zero_context\<lparr>cx_state := CLOG_STATE_RUNNING, cx_pool := fst (snd ex_pool_init), cx_process := ''p'',
     cx_modules := Some ex_modules, cx_tags := map Some default_tags,
     cx_interpolator := Some (root_next [Pure ''> '', Handle clog_placeholder_content]),
     cx_channel := Some (), cx_dispatcher := Some (), cx_recorders := Some ex_recorders\<rparr>"

definition ex_buffer :: string where "ex_buffer = replicate 256 CHR ''?''"

definition ex_call :: "clog_level \<Rightarrow> string \<Rightarrow> log_call" where
  "ex_call level t = \<lparr>lc_file = ''f.c'', lc_function = ''g'', lc_line = 12, lc_level = level, lc_text = Some t,
     lc_now = \<lparr>dt_year = 1970, dt_month = 1, dt_day = 4, dt_hour = 5, dt_minute = 6, dt_second = 7, dt_millisecond = 89\<rparr>,
     lc_tid = 1, lc_junk = ex_item, lc_buffer = ex_buffer\<rparr>"

definition ex_calls :: "(unit, unit, clog_item list clog_recorder) api_call list" where
  "ex_calls = [Api_module_log (Some ''m'') (ex_call CLOG_LEVEL_INFO ''one''),
     Api_module_log (Some ''m'') (ex_call CLOG_LEVEL_TRACE ''two''),
     Api_record_log (Some ''x'') 7 (ex_call CLOG_LEVEL_INFO ''three''),
     Api_record_log (Some ''m'') 7 (ex_call CLOG_LEVEL_ERROR ''four'')]"

lemma ex_logger_simps [simp]:
  "cx_state ex_logger = CLOG_STATE_RUNNING" "cx_pool ex_logger = fst (snd ex_pool_init)"
  "cx_process ex_logger = ''p''" "cx_modules ex_logger = Some ex_modules" "cx_pre ex_logger = NULL"
  "cx_tags ex_logger = map Some default_tags" "cx_post ex_logger = NULL"
  "cx_interpolator ex_logger = Some (root_next [Pure ''> '', Handle clog_placeholder_content])"
  "cx_channel ex_logger = Some ()" "cx_dispatcher ex_logger = Some ()" "cx_recorders ex_logger = Some ex_recorders"
  by (simp_all add: ex_logger_def zero_context_def)

lemma ex_call_simps [simp]:
  "lc_level (ex_call level t) = level" "lc_text (ex_call level t) = Some t"
  "lc_buffer (ex_call level t) = ex_buffer"
  by (simp_all add: ex_call_def)

lemma ex_fresh: "\<exists>item. fresh_item (ex_call level t) = Some item"
  by (simp add: fresh_item_def clog_item_init_datetime_def ex_call_def clog_timestamp_of_datetime_def
      month_loop.simps)

lemma content_of_prefix:
  assumes "take (length s) b = s" "b ! length s = CHR 0x00" "length s < length b" "CHR 0x00 \<notin> set s"
  shows "content_of b = s"
proof -
  have "b = take (length s) b @ b ! length s # drop (Suc (length s)) b" by (rule id_take_nth_drop [OF assms(3)])
  then have "b = s @ CHR 0x00 # drop (Suc (length s)) b" using assms(1,2) by simp
  then have "content_of b = content_of (s @ CHR 0x00 # drop (Suc (length s)) b)" by simp
  also have "\<dots> = s" using assms(4) by (auto simp: content_of_def takeWhile_append)
  finally show ?thesis .
qed

lemma ex_formatted:
  assumes "wr_text wr = Some t" "t \<noteq> []" "CHR 0x00 \<notin> set t" "length t < 250"
  shows "\<exists>wr'. formatted ex_logger wr (ex_call level t) = Some (Inr wr') \<and> it_content (wr_log wr') = ''> '' @ t"
proof -
  have wt: "wr_text (copy_names wr) = Some t" using assms(1) by (simp add: copy_names_def Let_def)
  have "length (strcpy_bytes 254 t) \<le> 254" "take (length t) (strcpy_bytes 254 t) = t" "length t \<le> length (strcpy_bytes 254 t)"
    using assms(4) strcpy_bytes_length [of 254 t] by (auto simp: strcpy_bytes_def snprintf_out_def)
  with wt assms(2,4) have "segments_out [Pure ''> '', Handle clog_placeholder_content] (copy_names wr) 256 = Some (''> '' @ t)"
    by (simp add: clog_placeholder_content_def)
  from interpolate_segments [OF this, of ex_buffer] obtain b where
    b: "clog_interpolator_interpolate (Some (root_next [Pure ''> '', Handle clog_placeholder_content])) (copy_names wr)
        (Some ex_buffer) 256 = Some (CLOG_SUCCESS, Some b, Some (length (''> '' @ t)))"
      "length b = 256" "take (length (''> '' @ t)) b = ''> '' @ t" "b ! length (''> '' @ t) = CHR 0x00"
    by (auto simp: ex_buffer_def)
  have "content_of b = ''> '' @ t" by (rule content_of_prefix [OF b(3,4)]) (use b(2) assms(3,4) in auto)
  then show ?thesis
    using b(1) by (simp add: formatted_def clog_format_log_def Let_def CASCA_LOG_SINGLE_LOG_MAX_SIZE_def)
qed

lemma ex_world_grants: "grants ex_sys_world = (\<lambda>_. True)"
  by (simp add: ex_sys_world_def)

lemma ex_modules_abs: "string_inv ex_modules \<and> hm_abs cstr ex_modules = [''m'' \<mapsto> ex_module]"
proof -
  obtain hm :: "(clog_module, (unit, unit, clog_item list parts) rest) clog_hashmap" and m
    where c: "string_create sizeof_module 0 ex_sys_world = (Some hm, m)"
    by (auto simp: clog_hashmap_create_def clog_hashmap_create_empty_buckets_def clog_malloc_def
        ex_world_grants sizeof_hashmap_def sizeof_entry_def)
  from string_create_inv [OF this] have i: "string_inv hm" "hm_abs cstr hm = Map.empty"
    by (simp_all add: sizeof_module_def)
  obtain r hm' m' where p: "put_nn hm (cstr_bytes ''m'') ex_module ex_sys_world = (r, hm', m')" by (metis surj_pair)
  have "r = CLOG_SUCCESS"
    using string_put_granted [OF _ _ p] i(1) by (simp add: hm_inv_def ex_world_grants)
  with string_keys.put_spec [OF i(1) _ p] i(2) c p show ?thesis
    by (simp add: ex_modules_def cstr_cstr_bytes)
qed

lemma ex_module_of: "module_of ex_logger name = (if name = ''m'' then Some ex_module else None)"
  using ex_modules_abs by (simp add: module_of_def)

lemma ex_recorders_abs: "hm_inv id_map (take 4) ex_recorders \<and> hm_abs (take 4) ex_recorders = [id_bytes 7 \<mapsto> ex_recorder]"
proof -
  obtain hm m where c: "recorders_create (direct_system :: (unit, unit, clog_item list) sys_iface) ex_sys_world = (Some hm, m)"
    by (auto simp: clog_hashmap_create_def clog_hashmap_create_empty_buckets_def clog_malloc_def
        ex_world_grants sizeof_hashmap_def sizeof_entry_def)
  from create_empty [OF this] have i: "hm_inv id_map (take 4) hm" "hm_abs (take 4) hm = Map.empty"
    by (simp_all add: hm_inv_def hm_abs_def id_map_def)
  obtain r hm' m' where p: "put_nn hm (id_bytes 7) ex_recorder ex_sys_world = (r, hm', m')" by (metis surj_pair)
  have "take 4 (id_bytes 7) = id_bytes 7" by (simp add: id_bytes_def)
  moreover have "r = CLOG_SUCCESS"
  proof -
    have e: "hm_buckets hm ! clog_hashmap_get_index hm k = []" for k
      using create_empty [OF c] hm_shape_index [of hm k] by (auto simp: entries_def)
    have s: "hm_data_size hm = 0" "hm_buckets_size hm \<noteq> 0"
      using create_empty [OF c] by (auto simp: hm_shape_def entries_def)
    from i(1) have k: "hm_key_size hm = 4" "hm_key_dup hm = None" "hm_value_dup hm = Some clog_recoder_dup"
      by (simp_all add: hm_inv_def id_map_def)
    have "clog_memcpy (Some (replicate 4 0)) 4 (Some (id_bytes 7)) 4 = (CLOG_SUCCESS, Some (id_bytes 7))"
      by (simp add: clog_memcpy_def id_bytes_def)
    with p show ?thesis
      by (auto simp: put_nn_def clog_hashmap_dup_key_def clog_hashmap_dup_value_def k s e clog_recoder_dup_def
          clog_hashmap_put_internal_def clog_malloc_total ex_world_grants sizeof_entry_def Let_def split: if_splits)
  qed
  ultimately show ?thesis using id_keys.put_spec [OF i(1) _ p] i(2) c p
    by (simp add: ex_recorders_def)
qed

lemma id_bytes_inj: "id_bytes u = id_bytes v \<longleftrightarrow> u = v"
proof
  assume e: "id_bytes u = id_bytes v"
  show "u = v"
  proof (rule bit_word_eqI)
    fix n assume n: "n < LENGTH(32)"
    have b: "\<forall>k < 8. bit u k = bit v k" "\<forall>k < 8. bit u (8 + k) = bit v (8 + k)"
      "\<forall>k < 8. bit u (16 + k) = bit v (16 + k)" "\<forall>k < 8. bit u (24 + k) = bit v (24 + k)"
      using e by (auto simp: id_bytes_def bit_eq_iff [where 'a = "8 word"] bit_simps)
    have "n = n mod 8 \<or> n = 8 + n mod 8 \<or> n = 16 + n mod 8 \<or> n = 24 + n mod 8" using n by simp presburger
    with b show "bit u n = bit v n" by (metis mod_less_divisor zero_less_numeral)
  qed
qed simp

lemma ex_recorder_of: "recorder_of ex_logger v = (if v = 7 then Some ex_recorder else None)"
proof -
  have "id_bytes v = id_bytes 7 \<longleftrightarrow> v = 7" by (rule id_bytes_inj)
  with ex_recorders_abs show ?thesis by (simp add: recorder_of_def)
qed

lemma ex_pool: "\<exists>p h. ex_pool_init = (CLOG_SUCCESS, Some p, h) \<and> (\<exists>fs. pool_inv 0 p h fs [] \<and> length fs = 2)"
proof -
  have "map_option fst (clog_buffer_pool_initialize ex_item True sizeof_log_item 2 True 50 (heap_empty (\<lambda>_. True))) =
      Some CLOG_SUCCESS" by code_simp
  then obtain po h where i: "clog_buffer_pool_initialize ex_item True sizeof_log_item 2 True 50 (heap_empty (\<lambda>_. True)) =
      Some (CLOG_SUCCESS, po, h)" by (auto simp: map_option_eq_Some)
  then have e: "ex_pool_init = (CLOG_SUCCESS, po, h)" by (simp only: ex_pool_init_def option.sel)
  from initialize_inv [OF heap_ok_empty i] e show ?thesis
    by (cases po) (auto simp: heap_empty_def)
qed

lemma ex_at_rest: "at_rest 0 2 ex_logger ex_sys_world"
proof -
  obtain p h fs where p: "ex_pool_init = (CLOG_SUCCESS, Some p, h)" "pool_inv 0 p h fs []" "length fs = 2"
    using ex_pool by blast
  have "fst (snd ex_pool_init) = Some p" "w_items ex_sys_world = h"
    by (simp_all add: ex_sys_world_def p(1))
  then have "pool_rest 0 2 ex_logger ex_sys_world []"
    using p(2,3) unfolding pool_rest_def by (intro exI [of _ p] exI [of _ fs]) simp
  moreover have "running ex_logger"
    using ex_modules_abs ex_recorders_abs by (simp add: running_def modules_ok_def recorders_ok_def)
  moreover have "uc_rep (chan ex_sys_world) []"
  proof -
    let ?c0 = "the (fst (clog_unsafe_queue_channel_create (heap_empty (\<lambda>_. True))))"
    have "clog_unsafe_queue_channel_create (heap_empty (\<lambda>_. True)) =
        (Some ?c0, snd (clog_unsafe_queue_channel_create (heap_empty (\<lambda>_. True))))"
      by (simp add: clog_unsafe_queue_channel_create_def clog_malloc_def heap_empty_def sizeof_channel_def)
    moreover have "clog_unsafe_queue_channel_open ?c0 = (CLOG_SUCCESS, snd (clog_unsafe_queue_channel_open ?c0))"
      by (simp add: clog_unsafe_queue_channel_create_def clog_unsafe_queue_channel_open_def clog_malloc_def
          heap_empty_def sizeof_channel_def clog_queue_create_def sizeof_queue_def)
    ultimately show ?thesis using uc_open_rep by (simp add: chan_def ex_sys_world_def)
  qed
  ultimately show ?thesis by (simp add: at_rest_def)
qed

lemma ex_no_refusal: "\<not> refuses ex_sys_world"
proof -
  have "grants (snd (snd ex_pool_init)) k" for k by code_simp
  moreover have "grants (uc_heap (chan ex_sys_world)) k" for k
    by (simp add: ex_sys_world_def chan_def clog_unsafe_queue_channel_create_def clog_unsafe_queue_channel_open_def
        clog_malloc_def heap_empty_def sizeof_channel_def clog_queue_create_def sizeof_queue_def)
  ultimately show ?thesis
    by (simp add: refuses_def items_refuse_def queue_refuses_def ex_sys_world_def)
qed

lemma ex_accepts:
  assumes "request_of c = Some (Some ''m'', wanted, ex_call level t)" "wanted = None \<or> wanted = Some 7"
    and "level \<in> {CLOG_LEVEL_INFO, CLOG_LEVEL_ERROR}" "t \<noteq> []" "CHR 0x00 \<notin> set t" "length t < 250"
  shows "\<exists>item. log_result (w_filters ex_sys_world) ex_logger c = Some (Inr item) \<and> it_content item = ''> '' @ t \<and>
    it_recorder item = [7, CLOG_RECORDER_ID_INVALID, CLOG_RECORDER_ID_INVALID, CLOG_RECORDER_ID_INVALID]"
proof -
  have "targets ex_logger ''m'' wanted level = Inr [7]"
    using assms(2,3) by (auto simp: targets_def ex_module_of cstr_cstr_bytes ex_module_def bit_simps)
  moreover obtain wr where "wrapper_for ''m'' (ex_call level t) ex_logger = Some wr" "wr_text wr = Some t"
    using assms(3) ex_fresh [of level t] by (auto simp: wrapper_for_def default_tags_def)
  moreover from ex_formatted [OF this(2) assms(4-6)] obtain wr' where
    "formatted ex_logger wr (ex_call level t) = Some (Inr wr')" "it_content (wr_log wr') = ''> '' @ t" by blast
  moreover have "passes (w_filters ex_sys_world) NULL v = Some (Inr ())" for v
    by (simp add: passes_def clog_filter_log_def filter_log_loop.simps)
  moreover have "item_recorders [7] 1 =
      [7, CLOG_RECORDER_ID_INVALID, CLOG_RECORDER_ID_INVALID, CLOG_RECORDER_ID_INVALID]"
    by (simp add: item_recorders_def CASCA_LOG_TARGET_RECORDER_MAX_NUM_def upt_rec)
  ultimately show ?thesis using assms(1,3) by (auto simp: log_result_def item_for_def)
qed


lemma context_lifecycle_witness:
  "\<exists>r w'. api_step direct_system (\<lambda>_. None :: nat option) (Api_set_level_tags CLOG_LEVEL_INFO (Some ''i''))
      (Some ex_logger) ex_sys_world = Some (r, Some ex_logger, w') \<and> w' = ex_sys_world \<and> r = CLOG_ABNORMAL_STATE"
proof -
  have ok: "modules_ok ex_logger" using ex_modules_abs by (simp add: modules_ok_def)
  have "\<exists>r cxo w'. api_step direct_system (\<lambda>_. None :: nat option) (Api_set_level_tags CLOG_LEVEL_INFO (Some ''i''))
      (Some ex_logger) ex_sys_world = Some (r, cxo, w')"
    by (simp add: api_step_def clog_set_level_tags_def in_setup_def)
  then obtain r cxo w' where st: "api_step direct_system (\<lambda>_. None :: nat option)
      (Api_set_level_tags CLOG_LEVEL_INFO (Some ''i'')) (Some ex_logger) ex_sys_world = Some (r, cxo, w')" by blast
  from context_lifecycle [OF direct.plugins_axioms ok st] st show ?thesis by (auto simp: configures_def)
qed

definition ex_unready :: ex_ctx where
  "ex_unready = ex_logger\<lparr>cx_state := CLOG_STATE_CREATED\<rparr>"

definition ex_start_world :: ex_world where
  "ex_start_world = ex_sys_world\<lparr>w_ext := \<lparr>pa_channel = the (fst (clog_unsafe_queue_channel_create (heap_empty (\<lambda>_. True)))),
     pa_bound = False, pa_out = []\<rparr>\<rparr>"

lemma entry_abs:
  assumes "hm_inv ok canon hm" "e \<in> set (entries hm)"
  shows "hm_abs canon hm (canon (fst e)) = Some (snd e)"
  using assms by (auto simp: hm_inv_def hm_abs_def map_fst_cmap set_cmap intro!: map_of_is_SomeI)

lemma setup_ready_witness:
  "\<exists>cx' w'. clog_context_setup direct_system (Some ex_unready) ex_start_world = Some (CLOG_SUCCESS, Some cx', w') \<and>
     at_rest 0 2 cx' w' \<and> module_of cx' ''m'' = Some ex_module"
proof -
  obtain p h fs where p: "ex_pool_init = (CLOG_SUCCESS, Some p, h)" "pool_inv 0 p h fs []" "length fs = 2"
    using ex_pool by blast
  have "fst (snd ex_pool_init) = Some p" "w_items ex_start_world = h"
    by (simp_all add: ex_start_world_def ex_sys_world_def p(1))
  then have "pool_rest 0 2 ex_unready ex_start_world []"
    using p(2,3) unfolding pool_rest_def by (intro exI [of _ p] exI [of _ fs]) (simp add: ex_unready_def)
  moreover have "clog_unsafe_queue_channel_create (heap_empty (\<lambda>_. True)) =
      (Some (chan ex_start_world), snd (clog_unsafe_queue_channel_create (heap_empty (\<lambda>_. True))))"
    by (simp add: clog_unsafe_queue_channel_create_def clog_malloc_def heap_empty_def sizeof_channel_def
        chan_def ex_start_world_def)
  moreover have "recorders_ok ex_unready" "modules_ok ex_unready"
    using ex_modules_abs ex_recorders_abs by (simp_all add: recorders_ok_def modules_ok_def ex_unready_def)
  moreover have "cx_placeholders ex_unready = None" "cx_interpolator_context ex_unready = None"
    by (simp_all add: ex_unready_def ex_logger_def zero_context_def)
  ultimately have prep: "prepared 0 2 ex_unready ex_start_world"
    unfolding prepared_def by (intro conjI) (auto simp: ex_unready_def)
  have "rc = ex_recorder" if "rc \<in> snd ` set (entries ex_recorders)" for rc
    using that ex_recorders_abs entry_abs [of id_map "take 4" ex_recorders] by (fastforce split: if_splits)
  note only = this
  have succ: "rc_open ex_recorder y = Some (CLOG_SUCCESS, y)" for y by (simp add: ex_recorder_def)
  have o: "opens (entries ex_recorders)"
    unfolding opens_def
  proof (intro ballI allI)
    fix r y assume "r \<in> snd ` set (entries ex_recorders)"
    from only [OF this] succ [of y] show "rc_open r y \<noteq> None" by simp
  qed
  have o2: "r = CLOG_SUCCESS" if "open_returns (entries ex_recorders) r" for r
  proof -
    from that obtain rc y y' where "rc \<in> snd ` set (entries ex_recorders)" "rc_open rc y = Some (r, y')"
      unfolding open_returns_def by blast
    with only [OF this(1)] succ [of y] show ?thesis by simp
  qed
  have comp: "complete ex_unready" using o by (simp add: complete_def ex_unready_def)
  have none: "\<not> queue_refuses ex_start_world" "\<And>k. grants ex_start_world k"
    by (simp_all add: queue_refuses_def chan_def ex_start_world_def ex_sys_world_def
        clog_unsafe_queue_channel_create_def clog_malloc_def heap_empty_def sizeof_channel_def)
  from setup_ready [OF prep comp] obtain r cx' w' where
    s: "clog_context_setup direct_system (Some ex_unready) ex_start_world = Some (r, Some cx', w')"
      "if r = CLOG_SUCCESS then at_rest 0 2 cx' w' \<and> module_of cx' = module_of ex_unready
       else queue_refuses ex_start_world \<or> (\<exists>k. \<not> grants ex_start_world k) \<or> some_recorder_returns ex_unready r"
    by (metis (no_types, lifting))
  have "r = CLOG_SUCCESS"
    using s(2) none o2 by (auto simp: some_recorder_returns_def ex_unready_def split: if_splits)
  moreover have "module_of ex_unready ''m'' = Some ex_module"
    using ex_module_of by (simp add: module_of_def ex_unready_def)
  ultimately show ?thesis using s by auto
qed

subsection \<open>The modules of every context\<close>

lemma create_modules:
  "clog_context_create i dealloc init_ok process has w = Some (CLOG_SUCCESS, Some cx, w') \<Longrightarrow> cx_modules cx = None"
  by (auto simp: clog_context_create_def clog_init_level_tags_def zero_context_def Let_def
      split: option.splits if_splits prod.splits bool.splits)

lemma run_wf:
  assumes "plugins i"
  shows "\<lbrakk>modules_wf cx; \<forall>c \<in> set cs. \<forall>md \<in> set (given_modules c). fits md;
      api_run i strtod cs (Some cx) w = Some (rs, cxo, w')\<rbrakk> \<Longrightarrow> \<exists>cx'. cxo = Some cx' \<and> modules_wf cx'"
proof (induction cs arbitrary: cx w rs)
  case (Cons c cs)
  from Cons.prems(3) obtain r co1 w1 rs1 where s: "api_step i strtod c (Some cx) w = Some (r, co1, w1)"
    "api_run i strtod cs co1 w1 = Some (rs1, cxo, w')" by (auto split: option.splits prod.splits)
  from plugins.api_wf [OF assms Cons.prems(1) _ s(1)] Cons.prems(2) obtain cx1 where "co1 = Some cx1" "modules_wf cx1"
    by auto
  with Cons.IH [of cx1 w1 rs1] s(2) Cons.prems(2) show ?case by simp
qed auto


definition ex_created where
  "ex_created = the (clog_context_create (direct_system :: (unit, unit, clog_item list) sys_iface) (\<lambda>_ _ h. h) True
     (Some ''p'') True ex_start_world)"

lemma ex_create_state:
  "map_option (\<lambda>(r, cx, w). (r, map_option cx_state cx))
     (clog_context_create (direct_system :: (unit, unit, clog_item list) sys_iface) (\<lambda>_ _ h. h) True
        (Some ''p'') True ex_start_world) = Some (CLOG_SUCCESS, Some CLOG_STATE_CREATED)"
  by (simp add: clog_context_create_def clog_malloc_def ex_start_world_def ex_world_grants sizeof_context_def
      clog_strcpy_def snprintf_out_def CASCA_LOG_PROCESS_NAME_MAX_SIZE_def clog_rwlock_create_def sizeof_rwlock_def
      clog_init_level_tags_def init_tags_loop.simps CLOG_LEVEL_NUM_def clog_strdup_def zero_context_def Let_def)


end
