(* ===== verification/Std_Recorder.thy ===== *)
theory Std_Recorder
  imports Logger
begin

text \<open>
  The recorders that print (recorder/clog_recorder_stdout.c) and that write to the system log
  (recorder/clog_recorder_syslog.c). What reaches the standard output, and the system log, is
  part of the world the recorders act on, next to the memory.
\<close>

record printer = mem +
  stdout_text :: string
  syslog_lines :: "(nat \<times> string) list"
  syslog_open :: bool

type_synonym printer_recorder = "printer clog_recorder"

subsection \<open>Colours\<close>

definition CLOG_COLOR_OF :: "32 word \<Rightarrow> 32 word \<Rightarrow> 32 word \<Rightarrow> 32 word" where
  "CLOG_COLOR_OF r g b = push_bit 16 (r AND 0xFF) OR push_bit 8 (g AND 0xFF) OR (b AND 0xFF)"

definition CLOG_COLOR_GET_R :: "32 word \<Rightarrow> 8 word" where
  "CLOG_COLOR_GET_R v = ucast (drop_bit 16 (v AND 0xFFFFFF) AND 0xFF)"

definition CLOG_COLOR_GET_G :: "32 word \<Rightarrow> 8 word" where
  "CLOG_COLOR_GET_G v = ucast (drop_bit 8 (v AND 0xFFFF) AND 0xFF)"

definition CLOG_COLOR_GET_B :: "32 word \<Rightarrow> 8 word" where
  "CLOG_COLOR_GET_B v = ucast (v AND 0xFF)"

definition CLOG_COLOR_UNSPECIFIED :: "32 word" where "CLOG_COLOR_UNSPECIFIED = 0xFF000000"

datatype clog_stdout_color_mode =
    CLOG_RECORDER_STDOUT_COLOR_OFF | CLOG_RECORDER_STDOUT_COLOR_BASIC
  | CLOG_RECORDER_STDOUT_COLOR_BASIC_ENHANCED | CLOG_RECORDER_STDOUT_COLOR_256
  | CLOG_RECORDER_STDOUT_COLOR_TRUE | CLOG_RECORDER_STDOUT_COLOR_MAX

record clog_recorder_stdout_color_value =
  foreground_color :: "32 word"
  background_color :: "32 word"

record clog_recorder_stdout_attr =
  sa_mode :: clog_stdout_color_mode
  sa_colors :: "clog_recorder_stdout_color_value list"

definition clog_stdout_check_basic_color :: "32 word \<Rightarrow> bool \<Rightarrow> bool \<Rightarrow> bool" where
  "clog_stdout_check_basic_color v is_enhanced is_background =
     (if \<not> is_background then
        (if is_enhanced then (v \<ge> 30 \<and> v \<le> 37) \<or> (v \<ge> 90 \<and> v \<le> 97) else v \<ge> 30 \<and> v \<le> 37)
      else if is_enhanced then (v \<ge> 40 \<and> v \<le> 47) \<or> (v \<ge> 100 \<and> v \<le> 107)
      else v \<ge> 40 \<and> v \<le> 47)"

text \<open>
  The sequences are written to an array of 64 characters, \<open>snprintf\<close> at an offset into it: the
  array holds a C string, and the offset grows by what \<open>snprintf\<close> returns, the length of the
  whole text, which is not 0.
\<close>

definition color_buffer :: nat where "color_buffer = 64"

definition put_sequence :: "string \<Rightarrow> string \<times> nat \<Rightarrow> string \<times> nat" where
  "put_sequence text x = (case x of (tmp, off) \<Rightarrow>
     (take off tmp @ (case snprintf_out (room color_buffer off) text of None \<Rightarrow> drop off tmp | Some t \<Rightarrow> t),
      off + length text))"

definition ESC :: char where "ESC = CHR 0x1B"

definition basic_sequence :: "32 word \<Rightarrow> string" where
  "basic_sequence v = ESC # ''['' @ show_nat (unat v) @ ''m''"

definition palette_sequence :: "string \<Rightarrow> 32 word \<Rightarrow> string" where
  "palette_sequence ground v = ESC # ''['' @ ground @ '';5;'' @ show_nat (unat v) @ ''m''"

definition true_sequence :: "string \<Rightarrow> 32 word \<Rightarrow> string" where
  "true_sequence ground v = ESC # ''['' @ ground @ '';2;'' @ show_nat (unat (CLOG_COLOR_GET_R v)) @ '';''
     @ show_nat (unat (CLOG_COLOR_GET_G v)) @ '';'' @ show_nat (unat (CLOG_COLOR_GET_B v)) @ ''m''"

definition dup_color :: "string \<Rightarrow> 'm mem_scheme \<Rightarrow> clog_res \<times> string option \<times> 'm mem_scheme" where
  "dup_color tmp m = (case clog_strdup (Some tmp) m of
      (None, m) \<Rightarrow> (CLOG_NO_MEMORY, None, m)
    | (Some c, m) \<Rightarrow> (CLOG_SUCCESS, Some c, m))"

definition clog_stdout_parse_color_basic ::
    "clog_recorder_stdout_color_value \<Rightarrow> bool \<Rightarrow> 'm mem_scheme \<Rightarrow> clog_res \<times> string option \<times> 'm mem_scheme" where
  "clog_stdout_parse_color_basic value is_enhanced m =
     (let fg = foreground_color value; bg = background_color value in
      if fg \<noteq> CLOG_COLOR_UNSPECIFIED \<and> \<not> clog_stdout_check_basic_color fg is_enhanced False
      then (CLOG_INVALID_PARAM, None, m)
      else
        (let x = (if fg \<noteq> CLOG_COLOR_UNSPECIFIED then put_sequence (basic_sequence fg) ([], 0) else ([], 0)) in
         if bg \<noteq> CLOG_COLOR_UNSPECIFIED \<and> \<not> clog_stdout_check_basic_color bg is_enhanced True
         then (CLOG_INVALID_PARAM, None, m)
         else
           (let x = (if bg \<noteq> CLOG_COLOR_UNSPECIFIED then put_sequence (basic_sequence bg) x else x) in
            dup_color (fst x) m)))"

definition clog_stdout_parse_color_256 ::
    "clog_recorder_stdout_color_value \<Rightarrow> 'm mem_scheme \<Rightarrow> clog_res \<times> string option \<times> 'm mem_scheme" where
  "clog_stdout_parse_color_256 value m =
     (let fg = foreground_color value; bg = background_color value;
          x = (if fg \<noteq> CLOG_COLOR_UNSPECIFIED then put_sequence (palette_sequence ''38'' fg) ([], 0) else ([], 0));
          x = (if bg \<noteq> CLOG_COLOR_UNSPECIFIED then put_sequence (palette_sequence ''48'' bg) x else x)
      in dup_color (fst x) m)"

definition clog_stdout_parse_color_true ::
    "clog_recorder_stdout_color_value \<Rightarrow> 'm mem_scheme \<Rightarrow> clog_res \<times> string option \<times> 'm mem_scheme" where
  "clog_stdout_parse_color_true value m =
     (let fg = foreground_color value; bg = background_color value;
          x = (if fg \<noteq> CLOG_COLOR_UNSPECIFIED then put_sequence (true_sequence ''38'' fg) ([], 0) else ([], 0));
          x = (if bg \<noteq> CLOG_COLOR_UNSPECIFIED then put_sequence (true_sequence ''48'' bg) x else x)
      in dup_color (fst x) m)"

definition clog_recorder_stdout_parse_color ::
    "clog_stdout_color_mode \<Rightarrow> clog_recorder_stdout_color_value \<Rightarrow> 'm mem_scheme
     \<Rightarrow> clog_res \<times> string option \<times> 'm mem_scheme" where
  "clog_recorder_stdout_parse_color mode value m =
     (if mode = CLOG_RECORDER_STDOUT_COLOR_BASIC then clog_stdout_parse_color_basic value False m
      else if mode = CLOG_RECORDER_STDOUT_COLOR_BASIC_ENHANCED then clog_stdout_parse_color_basic value True m
      else if mode = CLOG_RECORDER_STDOUT_COLOR_256 then clog_stdout_parse_color_256 value m
      else if mode = CLOG_RECORDER_STDOUT_COLOR_TRUE then clog_stdout_parse_color_true value m
      else (CLOG_INVALID_PARAM, None, m))"

subsection \<open>The stdout recorder\<close>

text \<open>\<open>param->colors\<close>, an array of \<open>CLOG_LEVEL_NUM\<close> pointers.\<close>

type_synonym clog_recorder_stdout_param = "string option list"

definition sizeof_stdout_param :: nat where "sizeof_stdout_param = 48"
definition sizeof_recorder :: nat where "sizeof_recorder = 48"

definition clog_recorder_stdout_open :: "printer \<Rightarrow> (clog_res \<times> printer) option" where
  "clog_recorder_stdout_open w = Some (CLOG_SUCCESS, w)"

definition print_text :: "string \<Rightarrow> printer \<Rightarrow> printer" where
  "print_text s w = w\<lparr>stdout_text := stdout_text w @ s\<rparr>"

text \<open>The index is computed in 32 bits; outside of the array reading it is undefined.\<close>

definition clog_recorder_stdout_write ::
    "clog_recorder_stdout_param option \<Rightarrow> clog_item \<Rightarrow> printer \<Rightarrow> (clog_res \<times> printer) option" where
  "clog_recorder_stdout_write param log w = (case param of
      None \<Rightarrow> Some (CLOG_SUCCESS, print_text (it_content log) w)
    | Some colors \<Rightarrow>
        (let i = unat (it_level log - 1) in
         if length colors \<le> i then None
         else case colors ! i of
             Some c \<Rightarrow> Some (CLOG_SUCCESS, print_text (c @ it_content log @ ESC # ''[0m'') w)
           | None \<Rightarrow> Some (CLOG_SUCCESS, print_text (it_content log) w)))"

fun free_colors :: "string option list \<Rightarrow> 'm mem_scheme \<Rightarrow> 'm mem_scheme" where
  "free_colors [] m = m"
| "free_colors (c # cs) m = free_colors cs (clog_free_opt c m)"

definition clog_recorder_stdout_close :: "clog_recorder_stdout_param option \<Rightarrow> 'm mem_scheme \<Rightarrow> 'm mem_scheme" where
  "clog_recorder_stdout_close param w = (case param of
      None \<Rightarrow> w
    | Some colors \<Rightarrow> clog_free (free_colors colors w))"

text \<open>\<open>acc\<close> is \<open>param->colors\<close> up to the index of the loop.\<close>

fun parse_colors ::
    "clog_stdout_color_mode \<Rightarrow> clog_recorder_stdout_color_value list \<Rightarrow> string option list \<Rightarrow> 'm mem_scheme
     \<Rightarrow> clog_recorder_stdout_param option \<times> 'm mem_scheme" where
  "parse_colors mode [] acc m = (Some acc, m)"
| "parse_colors mode (v # vs) acc m =
     (case clog_recorder_stdout_parse_color mode v m of
        (ret, c, m) \<Rightarrow>
          if ret \<noteq> CLOG_SUCCESS then (None, clog_free (free_colors acc m))
          else parse_colors mode vs (acc @ [c]) m)"

definition clog_recorder_stdout_attr_parse ::
    "clog_recorder_stdout_attr \<Rightarrow> 'm mem_scheme \<Rightarrow> clog_recorder_stdout_param option \<times> 'm mem_scheme" where
  "clog_recorder_stdout_attr_parse attr m =
     (case clog_malloc sizeof_stdout_param m of
        (False, m) \<Rightarrow> (None, m)
      | (True, m) \<Rightarrow>
          if sa_mode attr = CLOG_RECORDER_STDOUT_COLOR_OFF then (Some (replicate CLOG_LEVEL_NUM None), m)
          else parse_colors (sa_mode attr) (sa_colors attr) [] m)"

definition CLOG_RECORDER_ID_STDOUT :: "32 word" where "CLOG_RECORDER_ID_STDOUT = 1"
definition CLOG_RECORDER_ID_SYSLOG :: "32 word" where "CLOG_RECORDER_ID_SYSLOG = 3"

definition clog_recorder_empty_open :: "printer \<Rightarrow> (clog_res \<times> printer) option" where
  "clog_recorder_empty_open w = Some (CLOG_SUCCESS, w)"

definition clog_recorder_empty_flush :: "printer \<Rightarrow> (clog_res \<times> printer) option" where
  "clog_recorder_empty_flush w = Some (CLOG_SUCCESS, w)"

text \<open>The recorder with its \<open>extra\<close>.\<close>

definition stdout_recorder :: "clog_recorder_stdout_param option \<Rightarrow> printer_recorder" where
  "stdout_recorder extra =
     \<lparr>rc_id = CLOG_RECORDER_ID_STDOUT, rc_open = clog_recorder_stdout_open,
      rc_write = clog_recorder_stdout_write extra, rc_flush = clog_recorder_empty_flush,
      rc_close = clog_recorder_stdout_close extra\<rparr>"

definition clog_recorder_stdout_create ::
    "clog_recorder_stdout_attr option \<Rightarrow> 'm mem_scheme \<Rightarrow> printer_recorder option \<times> 'm mem_scheme" where
  "clog_recorder_stdout_create attr m =
     (if attr \<noteq> None \<and> sa_mode (the attr) = CLOG_RECORDER_STDOUT_COLOR_MAX then (None, m)
      else case clog_malloc sizeof_recorder m of
          (False, m) \<Rightarrow> (None, m)
        | (True, m) \<Rightarrow>
            if attr = None \<or> sa_mode (the attr) = CLOG_RECORDER_STDOUT_COLOR_OFF then (Some (stdout_recorder None), m)
            else (case clog_recorder_stdout_attr_parse (the attr) m of
                (None, m) \<Rightarrow> (None, clog_free m)
              | (Some p, m) \<Rightarrow> (Some (stdout_recorder (Some p)), m)))"

subsection \<open>The syslog recorder\<close>

text \<open>
  The priorities are the numbers of \<open>syslog.h\<close>: \<open>LOG_DEBUG\<close> 7, \<open>LOG_INFO\<close> 6, \<open>LOG_NOTICE\<close> 5,
  \<open>LOG_WARNING\<close> 4, \<open>LOG_ERR\<close> 3, \<open>LOG_CRIT\<close> 2.
\<close>

definition LOG_LEVEL_MAP :: "nat list" where "LOG_LEVEL_MAP = [7, 6, 5, 4, 3, 2]"

definition clog_recorder_syslog_write :: "clog_item \<Rightarrow> printer \<Rightarrow> (clog_res \<times> printer) option" where
  "clog_recorder_syslog_write log w =
     (let i = unat (it_level log - 1) in
      if length LOG_LEVEL_MAP \<le> i then None
      else Some (CLOG_SUCCESS, w\<lparr>syslog_lines := syslog_lines w @ [(LOG_LEVEL_MAP ! i, it_content log)]\<rparr>))"

definition clog_recorder_syslog_close :: "printer \<Rightarrow> printer" where
  "clog_recorder_syslog_close w = w\<lparr>syslog_open := False\<rparr>"

definition syslog_recorder :: printer_recorder where
  "syslog_recorder =
     \<lparr>rc_id = CLOG_RECORDER_ID_SYSLOG, rc_open = clog_recorder_empty_open, rc_write = clog_recorder_syslog_write,
      rc_flush = clog_recorder_empty_flush, rc_close = clog_recorder_syslog_close\<rparr>"

definition clog_recorder_syslog_create :: "printer \<Rightarrow> printer_recorder option \<times> printer" where
  "clog_recorder_syslog_create w =
     (case clog_malloc sizeof_recorder w of
        (False, w) \<Rightarrow> (None, w)
      | (True, w) \<Rightarrow> (Some syslog_recorder, w\<lparr>syslog_open := True\<rparr>))"


subsection \<open>The text of a colour\<close>

lemma room_less: "off \<le> n \<Longrightarrow> n < 2 ^ 64 \<Longrightarrow> room n off = n - off"
  by (simp add: room_def unat_sub_if_size word_size unat_of_nat unsigned_of_nat take_bit_nat_eq_self word_le_nat_alt
      flip: of_nat_diff)

lemma put_sequence_fits:
  assumes "length tmp + length text < color_buffer"
  shows "put_sequence text (tmp, length tmp) = (tmp @ text, length tmp + length text)"
  using assms by (simp add: put_sequence_def room_less color_buffer_def snprintf_out_def)

text \<open>The sequence for one colour, and the colours a mode takes.\<close>

definition color_sequence :: "clog_stdout_color_mode \<Rightarrow> bool \<Rightarrow> 32 word \<Rightarrow> string" where
  "color_sequence mode bg v =
     (if v = CLOG_COLOR_UNSPECIFIED then []
      else if mode = CLOG_RECORDER_STDOUT_COLOR_256 then palette_sequence (if bg then ''48'' else ''38'') v
      else if mode = CLOG_RECORDER_STDOUT_COLOR_TRUE then true_sequence (if bg then ''48'' else ''38'') v
      else basic_sequence v)"

definition color_valid :: "clog_stdout_color_mode \<Rightarrow> bool \<Rightarrow> 32 word \<Rightarrow> bool" where
  "color_valid mode bg v \<longleftrightarrow> v = CLOG_COLOR_UNSPECIFIED \<or>
     (mode = CLOG_RECORDER_STDOUT_COLOR_BASIC \<longrightarrow> clog_stdout_check_basic_color v False bg) \<and>
     (mode = CLOG_RECORDER_STDOUT_COLOR_BASIC_ENHANCED \<longrightarrow> clog_stdout_check_basic_color v True bg)"

lemma show_word_length: "length (show_nat (unat (v :: 32 word))) \<le> 10"
  using unsigned_less [of v, where 'a = nat] by (intro show_nat_length) simp_all

lemma show_byte_length: "length (show_nat (unat (v :: 8 word))) \<le> 3"
  using unsigned_less [of v, where 'a = nat] by (intro show_nat_length) simp_all

lemma color_sequence_length: "length (color_sequence mode bg v) \<le> 20"
  using show_word_length [of v] show_byte_length [of "CLOG_COLOR_GET_R v"] show_byte_length [of "CLOG_COLOR_GET_G v"]
    show_byte_length [of "CLOG_COLOR_GET_B v"]
  by (simp add: color_sequence_def basic_sequence_def palette_sequence_def true_sequence_def)

lemma put_color:
  assumes "length tmp \<le> 20"
  shows "(if v \<noteq> CLOG_COLOR_UNSPECIFIED then put_sequence (color_sequence mode bg v) (tmp, length tmp) else (tmp, length tmp)) =
    (tmp @ color_sequence mode bg v, length tmp + length (color_sequence mode bg v))"
proof (cases "v = CLOG_COLOR_UNSPECIFIED")
  case False
  have "length tmp + length (color_sequence mode bg v) < color_buffer"
    using assms color_sequence_length [of mode bg v] by (simp add: color_buffer_def)
  then show ?thesis using False put_sequence_fits by simp
qed (simp add: color_sequence_def)

definition color_modes :: "clog_stdout_color_mode set" where
  "color_modes = {CLOG_RECORDER_STDOUT_COLOR_BASIC, CLOG_RECORDER_STDOUT_COLOR_BASIC_ENHANCED,
     CLOG_RECORDER_STDOUT_COLOR_256, CLOG_RECORDER_STDOUT_COLOR_TRUE}"

lemma parse_color_value:
  assumes "mode \<in> color_modes"
  shows "clog_recorder_stdout_parse_color mode v m =
    (if color_valid mode False (foreground_color v) \<and> color_valid mode True (background_color v)
     then dup_color (color_sequence mode False (foreground_color v) @ color_sequence mode True (background_color v)) m
     else (CLOG_INVALID_PARAM, None, m))"
proof -
  let ?fg = "foreground_color v" and ?bg = "background_color v"
  have fg: "(if ?fg \<noteq> CLOG_COLOR_UNSPECIFIED then put_sequence (color_sequence mode False ?fg) ([], 0) else ([], 0)) =
      (color_sequence mode False ?fg, length (color_sequence mode False ?fg))"
    using put_color [of "[]" ?fg mode False] by (simp only: list.size append_Nil add_0 simp_thms le0)
  note bg = put_color [OF color_sequence_length, of ?bg mode True mode False ?fg]
  have seq: "color_sequence mode g x = (if mode = CLOG_RECORDER_STDOUT_COLOR_256 then palette_sequence (if g then ''48'' else ''38'') x
      else if mode = CLOG_RECORDER_STDOUT_COLOR_TRUE then true_sequence (if g then ''48'' else ''38'') x
      else basic_sequence x)" if "x \<noteq> CLOG_COLOR_UNSPECIFIED" for g x
    using that by (simp add: color_sequence_def)
  show ?thesis
    using assms fg bg seq [of ?fg False] seq [of ?bg True]
    unfolding color_modes_def
    by (elim insertE emptyE; clarsimp simp: clog_recorder_stdout_parse_color_def clog_stdout_parse_color_basic_def
        clog_stdout_parse_color_256_def clog_stdout_parse_color_true_def color_valid_def Let_def color_sequence_def split: if_splits)
qed


lemma live_dup_color: "dup_color tmp m = (r, c, m') \<Longrightarrow>
    live m' = live m + (if c = None then 0 else 1) \<and> (c \<noteq> None \<longleftrightarrow> r = CLOG_SUCCESS) \<and> (c \<noteq> None \<longrightarrow> c = Some tmp) \<and>
    (c = None \<longrightarrow> r = CLOG_NO_MEMORY)"
  by (auto simp: dup_color_def split: option.splits prod.splits dest: live_clog_strdup clog_strdup_Some)

lemma parse_color_live:
  assumes "clog_recorder_stdout_parse_color mode v m = (r, c, m')"
  shows "live m' = live m + (if c = None then 0 else 1) \<and> (c \<noteq> None \<longleftrightarrow> r = CLOG_SUCCESS)"
proof (cases "mode \<in> color_modes")
  case True
  with assms parse_color_value [OF True, of v m] show ?thesis by (auto split: if_splits dest: live_dup_color)
next
  case False
  with assms show ?thesis by (auto simp: clog_recorder_stdout_parse_color_def color_modes_def)
qed


lemma color_get_of:
  "CLOG_COLOR_GET_R (CLOG_COLOR_OF r g b) = ucast r" "CLOG_COLOR_GET_G (CLOG_COLOR_OF r g b) = ucast g"
  "CLOG_COLOR_GET_B (CLOG_COLOR_OF r g b) = ucast b"
  by (rule bit_word_eqI; simp add: CLOG_COLOR_GET_R_def CLOG_COLOR_GET_G_def CLOG_COLOR_GET_B_def CLOG_COLOR_OF_def
      bit_simps; auto simp: less_Suc_eq numeral_eq_Suc)+

lemma live_free_colors:
  "None \<notin> set cs \<Longrightarrow> live (free_colors cs m) = live m - int (length cs)"
proof (induction cs arbitrary: m)
  case (Cons c cs)
  then show ?case by (cases c) (auto simp: mem_simps)
qed simp

lemma parse_colors_live:
  "\<lbrakk>parse_colors mode vs acc m = (r, m'); None \<notin> set acc\<rbrakk> \<Longrightarrow>
   (case r of None \<Rightarrow> live m' = live m - int (length acc) - 1
    | Some cs \<Rightarrow> None \<notin> set cs \<and> length cs = length acc + length vs \<and> live m' = live m + int (length vs))"
proof (induction vs arbitrary: acc m)
  case (Cons v vs)
  obtain ret c m1 where p: "clog_recorder_stdout_parse_color mode v m = (ret, c, m1)" by (metis surj_pair)
  note pl = parse_color_live [OF p]
  show ?case
  proof (cases "ret = CLOG_SUCCESS")
    case True
    with pl obtain t where "c = Some t" "live m1 = live m + 1" by auto
    with Cons.IH [of "acc @ [c]" m1] Cons.prems p True show ?thesis by (auto split: option.splits)
  next
    case False
    with pl Cons.prems p show ?thesis by (auto simp: live_free_colors mem_simps)
  qed
qed (use live_clog_malloc in auto)

lemma live_recorder_close:
  "None \<notin> set cs \<Longrightarrow> live (clog_recorder_stdout_close (Some cs) w) = live w - int (length cs) - 1"
  by (simp add: clog_recorder_stdout_close_def live_free_colors mem_simps)

subsection \<open>What the recorder prints\<close>

definition level_ok :: "clog_item \<Rightarrow> bool" where
  "level_ok item \<longleftrightarrow> unat (it_level item - 1) < CLOG_LEVEL_NUM"

definition colored :: "clog_recorder_stdout_param option \<Rightarrow> clog_item \<Rightarrow> string" where
  "colored param item = (case param of
      None \<Rightarrow> it_content item
    | Some colors \<Rightarrow> (case colors ! unat (it_level item - 1) of
        None \<Rightarrow> it_content item
      | Some c \<Rightarrow> c @ it_content item @ ESC # ''[0m''))"

definition printed :: "clog_recorder_stdout_param option \<Rightarrow> clog_item \<Rightarrow> string" where
  "printed param item = concat (List.map (\<lambda>v. if v = CLOG_RECORDER_ID_STDOUT then colored param item else [])
     (takeWhile (\<lambda>v. v \<noteq> CLOG_RECORDER_ID_INVALID) (it_recorder item)))"

definition only_stdout :: "clog_recorder_stdout_param option \<Rightarrow> 32 word \<Rightarrow> printer_recorder option" where
  "only_stdout param v = (if v = CLOG_RECORDER_ID_STDOUT then Some (stdout_recorder param) else None)"

lemma print_text_append: "print_text t (print_text s w) = print_text (s @ t) w"
  by (simp add: print_text_def)

lemma print_nothing: "print_text [] w = w"
  by (simp add: print_text_def)

lemma stdout_write_text:
  assumes "param = None \<or> length (the param) = CLOG_LEVEL_NUM \<and> level_ok item"
  shows "clog_recorder_stdout_write param item w = Some (CLOG_SUCCESS, print_text (colored param item) w)"
  using assms by (auto simp: clog_recorder_stdout_write_def colored_def level_ok_def Let_def split: option.splits)

lemma deliver_stdout:
  assumes "param = None \<or> length (the param) = CLOG_LEVEL_NUM \<and> level_ok item"
  shows "deliver (only_stdout param) item ids w = Some (print_text
    (concat (List.map (\<lambda>v. if v = CLOG_RECORDER_ID_STDOUT then colored param item else [])
       (takeWhile (\<lambda>v. v \<noteq> CLOG_RECORDER_ID_INVALID) ids))) w)"
  by (induction ids arbitrary: w)
    (auto simp: only_stdout_def hand_over_def stdout_recorder_def stdout_write_text [OF assms] print_text_append print_nothing)

lemma deliver_all_stdout:
  "param = None \<or> length (the param) = CLOG_LEVEL_NUM \<and> (\<forall>item \<in> set items. level_ok item) \<Longrightarrow>
   deliver_all (only_stdout param) items w = Some (print_text (concat (List.map (printed param) items)) w)"
  by (induction items arbitrary: w) (auto simp: deliver_stdout printed_def [symmetric] print_text_append print_nothing)

subsection \<open>Properties\<close>

text \<open>
  The colours of a level become the two escape sequences of the mode, foreground first,
  nothing for a colour that is not set: never cut off by the array of 64 characters. A basic
  colour outside of its range is refused, and only that or memory can fail.
\<close>

theorem stdout_color_text:
  assumes "mode \<in> color_modes" "clog_recorder_stdout_parse_color mode v m = (r, c, m')"
  shows "(r = CLOG_INVALID_PARAM \<longleftrightarrow>
      \<not> (color_valid mode False (foreground_color v) \<and> color_valid mode True (background_color v))) \<and>
    (c \<noteq> None \<longleftrightarrow> r = CLOG_SUCCESS) \<and> r \<in> {CLOG_SUCCESS, CLOG_INVALID_PARAM, CLOG_NO_MEMORY} \<and>
    (\<forall>t. c = Some t \<longrightarrow> length t < color_buffer \<and>
      t = color_sequence mode False (foreground_color v) @ color_sequence mode True (background_color v))"
proof -
  have "length (color_sequence mode False (foreground_color v) @ color_sequence mode True (background_color v)) < color_buffer"
    using color_sequence_length [of mode False "foreground_color v"] color_sequence_length [of mode True "background_color v"]
    by (simp add: color_buffer_def)
  with assms(2) parse_color_value [OF assms(1), of v m] show ?thesis
    by (auto split: if_splits dest: live_dup_color)
qed

lemma stdout_color_text_witness:
  "fst (snd (clog_recorder_stdout_parse_color CLOG_RECORDER_STDOUT_COLOR_BASIC
      \<lparr>foreground_color = 31, background_color = CLOG_COLOR_UNSPECIFIED\<rparr> mem_ok)) = Some (ESC # ''[31m'')"
proof -
  let ?v = "\<lparr>foreground_color = 31, background_color = CLOG_COLOR_UNSPECIFIED\<rparr>"
  obtain r c m' where p: "clog_recorder_stdout_parse_color CLOG_RECORDER_STDOUT_COLOR_BASIC ?v mem_ok = (r, c, m')"
    by (metis surj_pair)
  have "fst (clog_recorder_stdout_parse_color CLOG_RECORDER_STDOUT_COLOR_BASIC ?v mem_ok) = CLOG_SUCCESS"
    by code_simp
  moreover have "color_sequence CLOG_RECORDER_STDOUT_COLOR_BASIC False 31 = ESC # ''[31m''" by code_simp
  ultimately show ?thesis
    using stdout_color_text [OF _ p] p by (auto simp: color_modes_def color_sequence_def [of _ _ CLOG_COLOR_UNSPECIFIED])
qed

text \<open>
  Creating the recorder leaks nothing when it fails, in the middle of the colours or
  elsewhere; when it succeeds, closing it and freeing it, as \<open>clog_recorder_destroy\<close> does, gives
  back exactly the blocks it took.
\<close>

theorem stdout_create_close:
  "case clog_recorder_stdout_create attr m of
     (None, m') \<Rightarrow> live m' = live m
   | (Some rc, m') \<Rightarrow> live m < live m' \<and> live (clog_free (rc_close rc w)) = live w - (live m' - live m)"
proof (cases "attr \<noteq> None \<and> sa_mode (the attr) = CLOG_RECORDER_STDOUT_COLOR_MAX")
  case False
  obtain b m1 where b: "clog_malloc sizeof_recorder m = (b, m1)" by (metis surj_pair)
  note lb = live_clog_mallocD [OF b]
  show ?thesis
  proof (cases "b \<and> attr \<noteq> None \<and> sa_mode (the attr) \<noteq> CLOG_RECORDER_STDOUT_COLOR_OFF")
    case nontrivial: True
    obtain a m2 where a: "clog_malloc sizeof_stdout_param m1 = (a, m2)" by (metis surj_pair)
    note la = live_clog_mallocD [OF a]
    obtain x m3 where x: "parse_colors (sa_mode (the attr)) (sa_colors (the attr)) [] m2 = (x, m3)" by (metis surj_pair)
    have create: "clog_recorder_stdout_create attr m = (if a then (case x of None \<Rightarrow> (None, clog_free m3)
        | Some p \<Rightarrow> (Some (stdout_recorder (Some p)), m3)) else (None, clog_free m2))"
      using False nontrivial b a x
      by (auto simp: clog_recorder_stdout_create_def clog_recorder_stdout_attr_parse_def split: option.splits)
    show ?thesis
    proof (cases a)
      case True
      with la lb nontrivial parse_colors_live [OF x] show ?thesis
        by (auto simp: create mem_simps stdout_recorder_def live_recorder_close split: option.splits)
    qed (use la lb nontrivial in \<open>simp add: create mem_simps\<close>)
  next
    case trivial: False
    with lb b False show ?thesis
      by (auto simp: clog_recorder_stdout_create_def stdout_recorder_def clog_recorder_stdout_close_def mem_simps
          split: bool.splits prod.splits)
  qed
qed (auto simp: clog_recorder_stdout_create_def)

text \<open>
  C19. Where the recorder a context knows is the one for the standard output, delivering items
  prints, for every entry of an item's recorder array up to the first unused one that names it,
  the content, between the sequence of the item's level and the reset sequence when there are
  colours; nothing else is printed.
\<close>

theorem stdout_prints_items:
  assumes "param = None \<or> length (the param) = CLOG_LEVEL_NUM \<and> (\<forall>item \<in> set items. level_ok item)"
  shows "\<exists>w'. deliver_all (only_stdout param) items w = Some w' \<and>
    stdout_text w' = stdout_text w @ concat (List.map (printed param) items) \<and> live w' = live w"
  using deliver_all_stdout [OF assms, of w] by (simp add: print_text_def)

definition ex_printer :: printer where
  "ex_printer = \<lparr>grants = (\<lambda>_. True), tick = 0, live = 0, stdout_text = [], syslog_lines = [], syslog_open = False\<rparr>"

definition ex_print_item :: clog_item where
  "ex_print_item = ex_item\<lparr>it_recorder := [1, 7, 0, 1], it_level := 5, it_content := ''no''\<rparr>"

lemma stdout_prints_items_witness:
  "\<exists>w'. deliver_all (only_stdout (Some (replicate 6 (Some ''<'')))) [ex_print_item] ex_printer = Some w' \<and>
    stdout_text w' = ''<no'' @ ESC # ''[0m''"
proof -
  have "printed (Some (replicate 6 (Some ''<''))) ex_print_item = ''<no'' @ ESC # ''[0m''"
    by (simp add: printed_def ex_print_item_def colored_def CLOG_RECORDER_ID_STDOUT_def CLOG_RECORDER_ID_INVALID_def)
  moreover have "level_ok ex_print_item" by (simp add: level_ok_def ex_print_item_def CLOG_LEVEL_NUM_def)
  ultimately show ?thesis
    using stdout_prints_items [of "Some (replicate 6 (Some ''<''))" "[ex_print_item]" ex_printer]
    by (simp del: deliver_all.simps add: CLOG_LEVEL_NUM_def) (auto simp: ex_printer_def)
qed

end
