(* ===== verification/File_Path.thy ===== *)
theory File_Path
  imports Secure_Func
begin

text \<open>
  Paths (utils/clog_file_system.c, the POSIX branch): normalising a path, its file name and its
  directory. The reference for normalising works on the list of a path's segments.

  A path is a C string, a \<open>string\<close> without its terminator. \<open>cwd\<close> is what \<open>getcwd\<close> writes to the
  buffer of \<open>CASCA_LOG_FILEPATH_MAX_SIZE\<close> bytes, \<open>None\<close> when it returns NULL.
\<close>

subsection \<open>Normalising a path\<close>

definition sizeof_path_node :: nat where "sizeof_path_node = 32"

definition path_at :: "string \<Rightarrow> nat \<Rightarrow> char" where
  "path_at s i = (if i < length s then s ! i else CHR 0x00)"

definition clog_cwd :: "bool \<Rightarrow> nat \<Rightarrow> string option \<Rightarrow> clog_res \<times> string option" where
  "clog_cwd has_path sz cwd =
     (if \<not> has_path then (CLOG_INVALID_PARAM, None)
      else if sz = 0 then (CLOG_INVALID_PARAM, None)
      else if cwd = None then (CLOG_FAIL, None)
      else (CLOG_SUCCESS, cwd))"

text \<open>
  The nodes are the list of their names, the current node first; the head node, which has no
  name, is not in it. \<open>last\<close> and \<open>cur\<close> are the indices of the two pointers into the path.
\<close>

definition free_node :: "'m mem_scheme \<Rightarrow> 'm mem_scheme" where
  "free_node m = clog_free (clog_free m)"

definition clog_create_path_node ::
    "string \<Rightarrow> string list \<Rightarrow> nat \<Rightarrow> nat \<Rightarrow> 'm mem_scheme
     \<Rightarrow> clog_res \<times> string list \<times> nat \<times> nat \<times> 'm mem_scheme" where
  "clog_create_path_node s nodes lst cur m =
     (if lst + 1 = cur then (CLOG_SUCCESS, nodes, cur, cur + 1, m)
      else if path_at s (lst + 1) = CHR ''.'' \<and> lst + 2 = cur then (CLOG_SUCCESS, nodes, cur, cur + 1, m)
      else if path_at s (lst + 1) = CHR ''.'' \<and> path_at s (lst + 2) = CHR ''.'' \<and> lst + 3 = cur then
        (case nodes of
           [] \<Rightarrow> (CLOG_ERROR_FORMAT, nodes, lst, cur, m)
         | _ # pre \<Rightarrow> (CLOG_SUCCESS, pre, cur, cur + 1, free_node m))
      else case clog_malloc sizeof_path_node m of
          (False, m) \<Rightarrow> (CLOG_NO_MEMORY, nodes, lst, cur, m)
        | (True, m) \<Rightarrow>
            (case clog_strndup (drop (lst + 1) s) (cur - lst - 1) m of
               (None, m) \<Rightarrow> (CLOG_NO_MEMORY, nodes, lst, cur, clog_free m)
             | (Some name, m) \<Rightarrow> (CLOG_SUCCESS, name # nodes, cur, cur + 1, m)))"

definition clog_get_unnormalized_abs_path ::
    "string option \<Rightarrow> string \<Rightarrow> 'm mem_scheme \<Rightarrow> clog_res \<times> string option \<times> 'm mem_scheme" where
  "clog_get_unnormalized_abs_path cwd path m =
     (case (if path_at path 0 \<noteq> CHR ''/'' then
              (case clog_cwd True CASCA_LOG_FILEPATH_MAX_SIZE cwd of
                 (res, c) \<Rightarrow>
                   if res \<noteq> CLOG_SUCCESS then (res, None, m)
                   else
                     (let c = the c; len = length c + length path + 2 in
                      case clog_malloc len m of
                        (False, m) \<Rightarrow> (CLOG_NO_MEMORY, None, m)
                      | (True, m) \<Rightarrow>
                          (case clog_strcpy True len (Some c) of
                             (res, _) \<Rightarrow>
                               if res \<noteq> CLOG_SUCCESS then (res, None, clog_free m)
                               else (case clog_strcpy True (len - length c - 1) (Some path) of
                                  (res, p) \<Rightarrow>
                                    if res \<noteq> CLOG_SUCCESS then (res, None, clog_free m)
                                    else (CLOG_SUCCESS, Some (c @ ''/'' @ the p), m)))))
            else (case clog_strdup (Some path) m of
                    (None, m) \<Rightarrow> (CLOG_NO_MEMORY, None, m)
                  | (Some b, m) \<Rightarrow> (CLOG_SUCCESS, Some b, m)))
      of (res, buffer, m) \<Rightarrow>
        (case buffer of
           None \<Rightarrow> (res, None, m)
         | Some b \<Rightarrow>
             if path_at b 0 \<noteq> CHR ''/'' then (CLOG_INVALID_PARAM, None, clog_free m)
             else (CLOG_SUCCESS, Some b, m)))"

text \<open>The loop over the separators.\<close>

function separators_loop ::
    "string \<Rightarrow> string list \<Rightarrow> nat \<Rightarrow> nat \<Rightarrow> 'm mem_scheme
     \<Rightarrow> clog_res \<times> string list \<times> nat \<times> nat \<times> 'm mem_scheme" where
  "separators_loop s nodes lst cur m =
     (if cur < length s \<and> path_at s cur \<noteq> CHR 0x00 then
        (if path_at s cur \<noteq> CHR ''/'' then separators_loop s nodes lst (cur + 1) m
         else case clog_create_path_node s nodes lst cur m of
             (res, nodes', lst', cur', m') \<Rightarrow>
               if res \<noteq> CLOG_SUCCESS then (res, nodes', lst', cur', m')
               else separators_loop s nodes' lst' cur' m')
      else (CLOG_SUCCESS, nodes, lst, cur, m))"
  by pat_completeness auto
termination
  by (relation "measure (\<lambda>(s, nodes, lst, cur, m). length s - cur)")
    (auto simp: clog_create_path_node_def split: if_splits list.splits prod.splits bool.splits option.splits)

declare separators_loop.simps [simp del]

text \<open>
  Writing the names, the first one first: \<open>out\<close> is what the buffer holds before the offset. The
  offset is never more than \<open>sz - 2\<close>, so that no subtraction of the code wraps.
\<close>

fun write_names :: "nat \<Rightarrow> string list \<Rightarrow> string \<Rightarrow> clog_res \<times> string" where
  "write_names sz [] out = (CLOG_SUCCESS, out)"
| "write_names sz (name # names) out =
     (case clog_strcpy True (sz - 1 - length out) (Some name) of
        (res, _) \<Rightarrow>
          if res \<noteq> CLOG_SUCCESS then (res, out)
          else (let out = out @ name in
                if names \<noteq> [] then
                  (if length out + 2 \<ge> sz then (CLOG_NO_MEMORY, out)
                   else write_names sz names (out @ ''/''))
                else (CLOG_SUCCESS, out)))"

fun free_nodes :: "string list \<Rightarrow> 'm mem_scheme \<Rightarrow> 'm mem_scheme" where
  "free_nodes [] m = clog_free m"
| "free_nodes (name # names) m = free_nodes names (free_node m)"

text \<open>The text in the buffer after success.\<close>

definition clog_normalize ::
    "string option \<Rightarrow> string option \<Rightarrow> bool \<Rightarrow> nat \<Rightarrow> 'm mem_scheme \<Rightarrow> clog_res \<times> string option \<times> 'm mem_scheme" where
  "clog_normalize cwd path has_buf sz m = (case path of
      None \<Rightarrow> (CLOG_INVALID_PARAM, None, m)
    | Some p \<Rightarrow>
        if \<not> has_buf then (CLOG_INVALID_PARAM, None, m)
        else if sz < 2 then (CLOG_INVALID_PARAM, None, m)
        else case clog_get_unnormalized_abs_path cwd p m of
          (res, None, m) \<Rightarrow> (res, None, m)
        | (res, Some s, m) \<Rightarrow>
            (case clog_malloc sizeof_path_node m of
               (False, m) \<Rightarrow> (CLOG_NO_MEMORY, None, clog_free m)
             | (True, m) \<Rightarrow>
                 (case separators_loop s [] 0 1 m of
                    (res, nodes, lst, cur, m) \<Rightarrow>
                      if res \<noteq> CLOG_SUCCESS then (res, None, clog_free (free_nodes nodes m))
                      else case (if cur \<noteq> lst + 1 then clog_create_path_node s nodes lst cur m
                                 else (CLOG_SUCCESS, nodes, lst, cur, m)) of
                        (res, nodes, lst, cur, m) \<Rightarrow>
                          if res \<noteq> CLOG_SUCCESS then (res, None, clog_free (free_nodes nodes m))
                          else (case write_names sz (rev nodes) ''/'' of
                            (res, out) \<Rightarrow>
                              (res, (if res = CLOG_SUCCESS then Some out else None),
                               clog_free (free_nodes nodes m))))))"

subsection \<open>File name and directory\<close>

text \<open>\<open>strrchr (fullpath, '/')\<close>: the index of the last separator.\<close>

fun last_separator :: "string \<Rightarrow> nat option" where
  "last_separator [] = None"
| "last_separator (c # cs) = (case last_separator cs of
      Some i \<Rightarrow> Some (Suc i) | None \<Rightarrow> if c = CHR ''/'' then Some 0 else None)"

definition clog_file_get_name :: "string option \<Rightarrow> bool \<Rightarrow> nat \<Rightarrow> clog_res \<times> string option" where
  "clog_file_get_name fullpath has_file sz = (case fullpath of
      None \<Rightarrow> (CLOG_INVALID_PARAM, None)
    | Some p \<Rightarrow>
        if \<not> has_file then (CLOG_INVALID_PARAM, None)
        else case last_separator p of
          None \<Rightarrow> (CLOG_INVALID_PARAM, None)
        | Some i \<Rightarrow> clog_strcpy True sz (Some (drop (i + 1) p)))"

text \<open>\<open>dir\<close> is the buffer; the terminator is stored at index \<open>num\<close> before the copy.\<close>

definition clog_file_get_dir :: "string option \<Rightarrow> string option \<Rightarrow> nat \<Rightarrow> (clog_res \<times> string option) option" where
  "clog_file_get_dir fullpath dir sz = (case (fullpath, dir) of
      (Some p, Some d) \<Rightarrow>
        (case last_separator p of
           None \<Rightarrow> Some (CLOG_INVALID_PARAM, dir)
         | Some i \<Rightarrow>
             (let num = i + 1 in
              if num > sz then Some (CLOG_INVALID_PARAM, dir)
              else if length d \<le> num then None
              else Some (clog_memcpy (Some (d[num := CHR 0x00])) sz (Some p) num)))
    | _ \<Rightarrow> Some (CLOG_INVALID_PARAM, dir))"

subsection \<open>The reference\<close>

text \<open>
  The segments of a path are what stands between its separators. Empty ones and \<open>.\<close> say
  nothing, \<open>..\<close> takes back the one before it and is an error when there is none.
\<close>

fun segments :: "string \<Rightarrow> string list" where
  "segments [] = [[]]"
| "segments (c # cs) = (if c = CHR ''/'' then [] # segments cs
     else (c # hd (segments cs)) # tl (segments cs))"

fun resolve :: "string list \<Rightarrow> string list \<Rightarrow> string list option" where
  "resolve [] nodes = Some nodes"
| "resolve (seg # segs) nodes =
     (if seg = [] \<or> seg = ''.'' then resolve segs nodes
      else if seg = ''..'' then (case nodes of [] \<Rightarrow> None | _ # pre \<Rightarrow> resolve segs pre)
      else resolve segs (seg # nodes))"

fun joined :: "string list \<Rightarrow> string" where
  "joined [] = []"
| "joined (name # names) = (if names = [] then name else name @ CHR ''/'' # joined names)"

definition path_of :: "string list \<Rightarrow> string" where
  "path_of names = CHR ''/'' # joined names"

lemma segments_Cons_hd: "segments cs = hd (segments cs) # tl (segments cs)"
  by (induction cs) auto

lemma segments_no_sep: "\<forall>c \<in> set xs. c \<noteq> CHR ''/'' \<Longrightarrow> segments (xs @ ys) = (xs @ hd (segments ys)) # tl (segments ys)"
  by (induction xs) (use segments_Cons_hd in auto)

subsection \<open>The loop is the reference with memory\<close>

definition node_step :: "string \<Rightarrow> string list \<Rightarrow> 'm mem_scheme \<Rightarrow> clog_res \<times> string list \<times> 'm mem_scheme" where
  "node_step seg nodes m =
     (if seg = [] \<or> seg = ''.'' then (CLOG_SUCCESS, nodes, m)
      else if seg = ''..'' then
        (case nodes of [] \<Rightarrow> (CLOG_ERROR_FORMAT, nodes, m) | _ # pre \<Rightarrow> (CLOG_SUCCESS, pre, free_node m))
      else case clog_malloc sizeof_path_node m of
          (False, m) \<Rightarrow> (CLOG_NO_MEMORY, nodes, m)
        | (True, m) \<Rightarrow>
            (case clog_strndup seg (length seg) m of
               (None, m) \<Rightarrow> (CLOG_NO_MEMORY, nodes, clog_free m)
             | (Some name, m) \<Rightarrow> (CLOG_SUCCESS, name # nodes, m)))"

fun walk :: "string list \<Rightarrow> string list \<Rightarrow> 'm mem_scheme \<Rightarrow> clog_res \<times> string list \<times> 'm mem_scheme" where
  "walk [] nodes m = (CLOG_SUCCESS, nodes, m)"
| "walk (seg # segs) nodes m = (case node_step seg nodes m of
      (res, nodes, m) \<Rightarrow> if res \<noteq> CLOG_SUCCESS then (res, nodes, m) else walk segs nodes m)"

lemma create_node:
  assumes "lst < cur" "cur \<le> length s"
  shows "clog_create_path_node s nodes lst cur m =
    (case node_step (take (cur - lst - 1) (drop (lst + 1) s)) nodes m of
       (res, nodes, m) \<Rightarrow> if res = CLOG_SUCCESS then (res, nodes, cur, cur + 1, m) else (res, nodes, lst, cur, m))"
proof -
  define seg where "seg = take (cur - lst - 1) (drop (lst + 1) s)"
  have len: "length seg = cur - lst - 1" using assms by (simp add: seg_def)
  have at0: "path_at s (lst + 1) = seg ! 0" if "0 < length seg" using that assms len by (simp add: path_at_def seg_def)
  have at1: "path_at s (lst + 2) = seg ! 1" if "1 < length seg"
  proof -
    have "lst + 2 < length s" using that len assms(2) by linarith
    then show ?thesis using that len by (simp add: path_at_def seg_def)
  qed
  have e0: "lst + 1 = cur \<longleftrightarrow> seg = []" using assms(1) len by (simp only: length_0_conv [symmetric]) linarith
  have e1: "path_at s (lst + 1) = CHR ''.'' \<and> lst + 2 = cur \<longleftrightarrow> seg = ''.''"
  proof (cases "length seg = 1")
    case True
    then obtain a where "seg = [a]" by (cases seg) auto
    with at0 len assms(1) show ?thesis by auto
  qed (use len assms(1) in auto)
  have e2: "path_at s (lst + 1) = CHR ''.'' \<and> path_at s (lst + 2) = CHR ''.'' \<and> lst + 3 = cur \<longleftrightarrow> seg = ''..''"
  proof (cases "length seg = 2")
    case True
    then obtain a b where "seg = [a, b]" by (auto simp: numeral_2_eq_2 length_Suc_conv)
    with at0 at1 len assms(1) show ?thesis by auto
  qed (use len assms(1) in auto)
  have dup: "clog_strndup (drop (lst + 1) s) (cur - lst - 1) m = clog_strndup seg (length seg) m" for m :: "'b mem_scheme"
    using len by (simp only: clog_strndup_def seg_def take_take len [unfolded seg_def] min.idem)
  show ?thesis
    unfolding clog_create_path_node_def node_step_def seg_def [symmetric] e0 e1 e2 dup
    by (auto split: list.splits prod.splits bool.splits option.splits)
qed

definition finish where
  "finish s x = (case x of (res, nodes, lst, cur, m) \<Rightarrow>
     if res \<noteq> CLOG_SUCCESS then (res, nodes, m)
     else case (if cur \<noteq> lst + 1 then clog_create_path_node s nodes lst cur m
                else (CLOG_SUCCESS, nodes, lst, cur, m)) of (res, nodes, lst, cur, m) \<Rightarrow> (res, nodes, m))"

lemma finish_walk:
  assumes "CHR 0x00 \<notin> set s"
  shows "\<lbrakk>lst < cur; cur \<le> length s; \<forall>c \<in> set (take (cur - lst - 1) (drop (lst + 1) s)). c \<noteq> CHR ''/''\<rbrakk> \<Longrightarrow>
    finish s (separators_loop s nodes lst cur m) = walk (segments (drop (lst + 1) s)) nodes m"
  using assms
proof (induction s nodes lst cur m rule: separators_loop.induct)
  case (1 s nodes lst cur m)
  define seg where "seg = take (cur - lst - 1) (drop (lst + 1) s)"
  have rest: "drop (lst + 1) s = seg @ drop cur s"
    using "1.prems"(1,2) by (metis (no_types, opaque_lifting) Suc_eq_plus1 Suc_leI add_diff_cancel_left' append_take_drop_id diff_diff_left drop_drop le_add_diff_inverse seg_def add.commute)
  have segs: "segments (drop (lst + 1) s) = (seg @ hd (segments (drop cur s))) # tl (segments (drop cur s))"
    unfolding rest using "1.prems"(3) by (intro segments_no_sep) (simp add: seg_def)
  note cn = create_node [OF "1.prems"(1,2), of nodes m, folded seg_def]
  show ?case
  proof (cases "cur < length s")
    case False
    then have e: "cur = length s" using "1.prems"(2) by simp
    then have loop: "separators_loop s nodes lst cur m = (CLOG_SUCCESS, nodes, lst, cur, m)"
      by (subst separators_loop.simps) simp
    have "walk (segments (drop (lst + 1) s)) nodes m = node_step seg nodes m"
      unfolding segs using e by (auto split: prod.splits if_splits)
    moreover have "finish s (separators_loop s nodes lst cur m) = node_step seg nodes m"
    proof (cases "cur = lst + 1")
      case True
      then have "seg = []" by (simp add: seg_def)
      with True loop show ?thesis by (simp add: finish_def node_step_def)
    next
      case False
      with loop cn show ?thesis by (simp add: finish_def split: prod.splits)
    qed
    ultimately show ?thesis by simp
  next
    case True
    then have at: "path_at s cur = s ! cur" "path_at s cur \<noteq> CHR 0x00"
      using "1.prems"(4) by (auto simp: path_at_def) (metis nth_mem)
    have drop: "drop cur s = s ! cur # drop (cur + 1) s" using True by (simp add: Cons_nth_drop_Suc)
    show ?thesis
    proof (cases "s ! cur = CHR ''/''")
      case False
      have "length seg = cur - lst - 1" using "1.prems"(1,2) by (simp add: seg_def)
      then have "take (cur + 1 - lst - 1) (drop (lst + 1) s) = seg @ [s ! cur]"
        unfolding rest drop using "1.prems"(1) by (simp add: take_append Suc_diff_le)
      then have "\<forall>c \<in> set (take (cur + 1 - lst - 1) (drop (lst + 1) s)). c \<noteq> CHR ''/''"
        using "1.prems"(3) False by (auto simp: seg_def)
      from "1.IH"(1) [OF _ _ _ _ this "1.prems"(4)] True False at "1.prems"(1) show ?thesis
        by (subst separators_loop.simps) simp
    next
      case sep: True
      have segs': "segments (drop (lst + 1) s) = seg # segments (drop (cur + 1) s)"
        unfolding segs drop using sep by simp
      obtain r nodes' m' where st: "node_step seg nodes m = (r, nodes', m')" by (metis surj_pair)
      show ?thesis
      proof (cases "r = CLOG_SUCCESS")
        case False
        with cn st True sep at segs' show ?thesis
          by (subst separators_loop.simps) (simp add: finish_def)
      next
        case ok: True
        with cn st have cr: "clog_create_path_node s nodes lst cur m = (CLOG_SUCCESS, nodes', cur, cur + 1, m')" by simp
        with True sep at have "separators_loop s nodes lst cur m = separators_loop s nodes' cur (cur + 1) m'"
          by (subst separators_loop.simps) simp
        moreover have "finish s (separators_loop s nodes' cur (cur + 1) m') = walk (segments (drop (cur + 1) s)) nodes' m'"
          by (rule "1.IH"(2) [OF _ _ cr [symmetric] refl refl refl _ _ _ _ "1.prems"(4)])
            (use True at sep in auto)
        ultimately show ?thesis using segs' st ok by simp
      qed
    qed
  qed
qed


subsection \<open>Normalising is the reference\<close>

lemma segments_clean: "\<forall>seg \<in> set (segments s). CHR ''/'' \<notin> set seg"
proof (induction s)
  case (Cons c cs)
  then show ?case by (cases "segments cs") (use segments_Cons_hd [of cs] in auto)
qed simp

lemma more_clog_free [simp]: "mem.more (clog_free m) = mem.more m"
  by (simp add: clog_free_def)

lemma more_free_nodes [simp]: "mem.more (free_nodes ns m) = mem.more m"
  by (induction ns arbitrary: m) (auto simp: free_node_def)

lemma grants_free_nodes [simp]: "grants (free_nodes ns m) = grants m"
  by (induction ns arbitrary: m) (auto simp: free_node_def mem_simps)

lemma malloc_resultD: "clog_malloc n m = (b, m') \<Longrightarrow> live m' = live m + (if b then 1 else 0) \<and> grants m' = grants m \<and>
    mem.more m' = mem.more m \<and>
    (\<not> b \<longrightarrow> n = 0 \<or> \<not> grants m (tick m))"
  by (auto simp: clog_malloc_def split: if_splits)

lemma node_step_result:
  assumes "node_step seg nodes m = (r, nodes', m')"
  shows "live m' + 2 * int (length nodes) = live m + 2 * int (length nodes')"
    "grants m' = grants m \<and> mem.more m' = mem.more m"
    "r = CLOG_SUCCESS \<Longrightarrow> resolve (seg # segs) nodes = resolve segs nodes'"
    "r = CLOG_ERROR_FORMAT \<Longrightarrow> resolve (seg # segs) nodes = None"
    "r \<in> {CLOG_SUCCESS, CLOG_ERROR_FORMAT, CLOG_NO_MEMORY}"
    "(\<forall>n. grants m n) \<Longrightarrow> r \<noteq> CLOG_NO_MEMORY"
  using assms
  by (auto simp: node_step_def free_node_def clog_strndup_def mem_simps clog_malloc_total sizeof_path_node_def
      split: if_splits list.splits prod.splits bool.splits option.splits
      dest!: malloc_resultD)

lemma walk_resolve:
  "walk segs nodes m = (r, nodes', m') \<Longrightarrow>
   live m' + 2 * int (length nodes) = live m + 2 * int (length nodes') \<and> grants m' = grants m \<and> mem.more m' = mem.more m \<and>
   (r = CLOG_SUCCESS \<longrightarrow> resolve segs nodes = Some nodes') \<and>
   (r = CLOG_ERROR_FORMAT \<longrightarrow> resolve segs nodes = None) \<and>
   r \<in> {CLOG_SUCCESS, CLOG_ERROR_FORMAT, CLOG_NO_MEMORY} \<and>
   ((\<forall>n. grants m n) \<longrightarrow> r \<noteq> CLOG_NO_MEMORY)"
proof (induction segs arbitrary: nodes m)
  case (Cons seg segs)
  obtain r1 n1 m1 where st: "node_step seg nodes m = (r1, n1, m1)" by (metis surj_pair)
  note step = node_step_result [OF st]
  show ?case
  proof (cases "r1 = CLOG_SUCCESS")
    case True
    with Cons.prems st have "walk segs n1 m1 = (r, nodes', m')" by simp
    from Cons.IH [OF this] step(1,2) step(3) [OF True, of segs] show ?thesis by auto
  next
    case False
    with Cons.prems st have "r = r1" "nodes' = n1" "m' = m1" by auto
    with False step(1,2,5,6) step(4) [of segs] show ?thesis by auto
  qed
qed simp

lemma live_free_nodes: "live (free_nodes ns m) = live m - 2 * int (length ns) - 1"
  by (induction ns arbitrary: m) (auto simp: free_node_def mem_simps)

lemma resolve_names:
  "\<lbrakk>resolve segs ns = Some ns'; \<forall>x \<in> set ns. P x \<and> x \<notin> {[], ''.'', ''..''}; \<forall>x \<in> set segs. P x\<rbrakk>
   \<Longrightarrow> \<forall>x \<in> set ns'. P x \<and> x \<notin> {[], ''.'', ''..''}"
proof (induction segs arbitrary: ns)
  case (Cons seg segs)
  have P: "P seg" "\<forall>x \<in> set segs. P x" using Cons.prems(3) by auto
  show ?case
  proof (cases "seg = [] \<or> seg = ''.''")
    case True
    then have "resolve segs ns = Some ns'" using Cons.prems(1) by (simp only: resolve.simps if_True)
    then show ?thesis by (rule Cons.IH [OF _ Cons.prems(2) P(2)])
  next
    case plain: False
    show ?thesis
    proof (cases "seg = ''..''")
      case True
      then obtain n pre where ns: "ns = n # pre" using Cons.prems(1) by (cases ns) simp_all
      with True Cons.prems(1) have "resolve segs pre = Some ns'" by simp
      moreover have "\<forall>x \<in> set pre. P x \<and> x \<notin> {[], ''.'', ''..''}" using Cons.prems(2) unfolding ns by auto
      ultimately show ?thesis by (rule Cons.IH [OF _ _ P(2)])
    next
      case False
      with plain Cons.prems(1) have "resolve segs (seg # ns) = Some ns'" by (simp only: resolve.simps if_False)
      moreover have "\<forall>x \<in> set (seg # ns). P x \<and> x \<notin> {[], ''.'', ''..''}"
        using Cons.prems(2) P(1) plain False by (metis empty_iff insert_iff set_ConsD)
      ultimately show ?thesis by (rule Cons.IH [OF _ _ P(2)])
    qed
  qed
qed simp

lemma resolve_plain:
  "\<forall>x \<in> set segs. x \<notin> {[], ''.'', ''..''} \<Longrightarrow> resolve segs ns = Some (rev segs @ ns)"
  by (induction segs arbitrary: ns) auto

lemma segments_joined:
  "\<lbrakk>names \<noteq> []; \<forall>x \<in> set names. CHR ''/'' \<notin> set x\<rbrakk> \<Longrightarrow> segments (joined names) = names"
proof (induction names)
  case (Cons x xs)
  have x: "\<forall>c \<in> set x. c \<noteq> CHR ''/''" using Cons.prems(2) by auto
  show ?case
  proof (cases "xs = []")
    case True
    then show ?thesis using segments_no_sep [OF x, of "[]"] by simp
  next
    case False
    with Cons segments_no_sep [OF x, of "CHR ''/'' # joined xs"] show ?thesis by simp
  qed
qed simp

lemma write_names_result:
  assumes "\<forall>x \<in> set names. x \<noteq> []" "names \<noteq> []" "length out + 1 \<le> sz"
  shows "fst (write_names sz names out) \<in> {CLOG_SUCCESS, CLOG_FAIL, CLOG_NO_MEMORY} \<and>
    (fst (write_names sz names out) = CLOG_SUCCESS \<longleftrightarrow> length out + length (joined names) + 1 < sz) \<and>
    (fst (write_names sz names out) = CLOG_SUCCESS \<longrightarrow> snd (write_names sz names out) = out @ joined names)"
  using assms
proof (induction sz names out rule: write_names.induct)
  case (2 sz name names out)
  have cp: "clog_strcpy True (sz - 1 - length out) (Some name) =
     (if length name < sz - 1 - length out then CLOG_SUCCESS else CLOG_FAIL,
      snprintf_out (sz - 1 - length out) name)"
    using "2.prems"(1) by (auto simp: clog_strcpy_def)
  show ?case
  proof (cases "names = [] \<or> length name \<ge> sz - 1 - length out \<or> length (out @ name) + 2 \<ge> sz")
    case True
    moreover have "names \<noteq> [] \<Longrightarrow> 0 < length (joined names)"
      using "2.prems"(1) by (cases names) auto
    ultimately show ?thesis using cp by (auto simp: Let_def)
  next
    case False
    then have "fst (write_names sz names ((out @ name) @ ''/'')) \<in> {CLOG_SUCCESS, CLOG_FAIL, CLOG_NO_MEMORY} \<and>
      (fst (write_names sz names ((out @ name) @ ''/'')) = CLOG_SUCCESS \<longleftrightarrow>
        length ((out @ name) @ ''/'') + length (joined names) + 1 < sz) \<and>
      (fst (write_names sz names ((out @ name) @ ''/'')) = CLOG_SUCCESS \<longrightarrow>
        snd (write_names sz names ((out @ name) @ ''/'')) = ((out @ name) @ ''/'') @ joined names)"
      by (intro "2.IH" [OF cp [symmetric]]) (use "2.prems" in auto)
    with False cp show ?thesis by (auto simp: Let_def)
  qed
qed simp


definition normal_path :: "string \<Rightarrow> string option" where
  "normal_path s = map_option (\<lambda>ns. path_of (rev ns)) (resolve (segments s) [])"

definition absolute :: "string option \<Rightarrow> string \<Rightarrow> string" where
  "absolute cwd p = (if path_at p 0 = CHR ''/'' then p else the cwd @ CHR ''/'' # p)"

lemma joined_Nil: "\<forall>x \<in> set names. x \<noteq> [] \<Longrightarrow> joined names = [] \<longleftrightarrow> names = []"
  by (cases names) auto

lemma normal_path_idem:
  assumes "normal_path s = Some t"
  shows "normal_path t = Some t"
proof -
  obtain ns where ns: "resolve (segments s) [] = Some ns" and t: "t = path_of (rev ns)"
    using assms by (auto simp: normal_path_def)
  have "\<forall>x \<in> set ns. CHR ''/'' \<notin> set x \<and> x \<notin> {[], ''.'', ''..''}"
    using resolve_names [OF ns, of "\<lambda>x. CHR ''/'' \<notin> set x"] segments_clean [of s] by simp
  then have names: "\<forall>x \<in> set (rev ns). CHR ''/'' \<notin> set x \<and> x \<notin> {[], ''.'', ''..''}" by simp
  show ?thesis
  proof (cases "ns = []")
    case True
    then show ?thesis by (simp add: t normal_path_def path_of_def)
  next
    case False
    with names have "segments t = [] # rev ns" by (simp add: t path_of_def segments_joined)
    with names resolve_plain [of "rev ns" "[]"] t show ?thesis by (simp add: normal_path_def)
  qed
qed

lemma get_abs_path:
  assumes "p \<noteq> []" "path_at p 0 \<noteq> CHR ''/'' \<Longrightarrow> \<exists>c. cwd = Some c \<and> path_at c 0 = CHR ''/''"
    "clog_get_unnormalized_abs_path cwd p m = (r, b, m')"
  shows "live m' = live m + (if b = None then 0 else 1) \<and> grants m' = grants m \<and> mem.more m' = mem.more m \<and>
    (b \<noteq> None \<longrightarrow> b = Some (absolute cwd p)) \<and> (b = None \<longrightarrow> r = CLOG_NO_MEMORY) \<and>
    ((\<forall>n. grants m n) \<longrightarrow> b \<noteq> None)"
proof (cases "path_at p 0 = CHR ''/''")
  case True
  with assms(1,3) show ?thesis
    by (auto simp: clog_get_unnormalized_abs_path_def clog_strdup_def absolute_def clog_malloc_total
        split: prod.splits bool.splits option.splits dest!: malloc_resultD)
next
  case False
  with assms(2) obtain c where c: "cwd = Some c" "path_at c 0 = CHR ''/''" by blast
  then have ne: "c \<noteq> []" by (auto simp: path_at_def)
  then have a0: "path_at (c @ x) 0 = CHR ''/''" for x using c(2) ne by (simp add: path_at_def nth_append)
  have cp: "clog_strcpy True (length c + length p + 2) (Some c) = (CLOG_SUCCESS, Some c)"
    "clog_strcpy True (length c + length p + 2 - length c - 1) (Some p) = (CLOG_SUCCESS, Some p)"
    using ne assms(1) by (simp_all add: clog_strcpy_success)
  have w: "clog_cwd True CASCA_LOG_FILEPATH_MAX_SIZE cwd = (CLOG_SUCCESS, cwd)"
    using c by (simp add: clog_cwd_def CASCA_LOG_FILEPATH_MAX_SIZE_def)
  show ?thesis using False assms(3) a0 c(1)
    unfolding clog_get_unnormalized_abs_path_def w prod.case
    by (auto simp: cp [simplified] Let_def absolute_def clog_malloc_total
        split: prod.splits bool.splits dest!: malloc_resultD)
qed


lemma clog_normalize_walk:
  assumes "CHR 0x00 \<notin> set (absolute cwd p)" "path_at (absolute cwd p) 0 = CHR ''/''" "2 \<le> sz"
    "clog_get_unnormalized_abs_path cwd p m = (r, Some (absolute cwd p), m1)"
    "clog_malloc sizeof_path_node m1 = (True, m2)"
    "walk (segments (drop 1 (absolute cwd p))) [] m2 = (res, nodes, m3)"
  shows "clog_normalize cwd (Some p) True sz m =
    (if res \<noteq> CLOG_SUCCESS then (res, None, clog_free (free_nodes nodes m3))
     else case write_names sz (rev nodes) ''/'' of (res, out) \<Rightarrow>
       (res, (if res = CLOG_SUCCESS then Some out else None), clog_free (free_nodes nodes m3)))"
proof -
  let ?s = "absolute cwd p"
  have "0 < length ?s" using assms(2) by (auto simp: path_at_def split: if_splits)
  then have f: "finish ?s (separators_loop ?s [] 0 1 m2) = (res, nodes, m3)"
    using finish_walk [OF assms(1), of 0 1 "[]" m2] assms(6) Suc_leI [of 0 "length (absolute cwd p)"] by simp
  show ?thesis
    using f assms(3-5) unfolding clog_normalize_def finish_def
    by (auto split: prod.splits if_splits)
qed

lemma segments_drop_slash: "path_at s 0 = CHR ''/'' \<Longrightarrow> resolve (segments s) ns = resolve (segments (drop 1 s)) ns"
  by (cases s) (auto simp: path_at_def)

definition fits :: "string \<Rightarrow> nat \<Rightarrow> bool" where
  "fits t sz = (t = ''/'' \<or> length t + 1 < sz)"

lemma write_names_fits:
  assumes "\<forall>x \<in> set names. x \<noteq> []" "2 \<le> sz"
  shows "fst (write_names sz names ''/'') \<in> {CLOG_SUCCESS, CLOG_FAIL, CLOG_NO_MEMORY} \<and>
    (fst (write_names sz names ''/'') = CLOG_SUCCESS \<longleftrightarrow> fits (path_of names) sz) \<and>
    (fst (write_names sz names ''/'') = CLOG_SUCCESS \<longrightarrow> snd (write_names sz names ''/'') = path_of names)"
proof (cases "names = []")
  case True
  then show ?thesis by (simp add: fits_def path_of_def)
next
  case False
  with joined_Nil assms(1) have "path_of names \<noteq> ''/''" by (simp add: path_of_def)
  with write_names_result [OF assms(1) False, of "''/''" sz] assms(2) show ?thesis
    by (auto simp: fits_def path_of_def)
qed

definition normalize_ok where
  "normalize_ok a sz granted = (\<lambda>(r, out). case normal_path a of
      None \<Rightarrow> r \<in> {CLOG_ERROR_FORMAT, CLOG_NO_MEMORY} \<and> out = None \<and> (granted \<longrightarrow> r = CLOG_ERROR_FORMAT)
    | Some t \<Rightarrow>
        (if fits t sz then (r, out) = (CLOG_SUCCESS, Some t) \<or> (\<not> granted \<and> (r, out) = (CLOG_NO_MEMORY, None))
         else r \<in> {CLOG_FAIL, CLOG_NO_MEMORY} \<and> out = None))"

lemma normalize_result:
  assumes "CHR 0x00 \<notin> set (absolute cwd p)" "p \<noteq> []" "2 \<le> sz"
    "path_at p 0 \<noteq> CHR ''/'' \<Longrightarrow> \<exists>c. cwd = Some c \<and> path_at c 0 = CHR ''/''"
    "clog_normalize cwd (Some p) True sz m = (r, out, m')"
  shows "live m' = live m \<and> mem.more m' = mem.more m \<and> grants m' = grants m \<and> normalize_ok (absolute cwd p) sz (\<forall>n. grants m n) (r, out)"
proof -
  let ?s = "absolute cwd p"
  have at: "path_at ?s 0 = CHR ''/''"
    using assms(4) by (auto simp: absolute_def path_at_def nth_append split: if_splits)
  have nomem: "normalize_ok ?s sz (\<forall>n. grants m n) (CLOG_NO_MEMORY, None)" if "\<not> grants m x" for x
    using that by (auto simp: normalize_ok_def split: option.splits)
  obtain r1 b m1 where g: "clog_get_unnormalized_abs_path cwd p m = (r1, b, m1)" by (metis surj_pair)
  note ab = get_abs_path [OF assms(2,4) g]
  show ?thesis
  proof (cases b)
    case None
    with g assms(3,5) ab nomem show ?thesis by (auto simp: clog_normalize_def)
  next
    case (Some b')
    with ab g have g: "clog_get_unnormalized_abs_path cwd p m = (r1, Some ?s, m1)" by simp
    obtain ok m2 where mm: "clog_malloc sizeof_path_node m1 = (ok, m2)" by (metis surj_pair)
    note mmr = malloc_resultD [OF mm]
    show ?thesis
    proof (cases ok)
      case False
      with g mm mmr assms(3,5) ab Some nomem show ?thesis
        by (auto simp: clog_normalize_def mem_simps sizeof_path_node_def)
    next
      case True
      with mm have mm: "clog_malloc sizeof_path_node m1 = (True, m2)" by simp
      obtain r3 nodes m3 where w: "walk (segments (drop 1 ?s)) [] m2 = (r3, nodes, m3)" by (metis surj_pair)
      note eq = clog_normalize_walk [OF assms(1) at assms(3) g mm w, unfolded assms(5)]
      note wr = walk_resolve [OF w, folded segments_drop_slash [OF at]]
      have lv: "live m' = live m \<and> mem.more m' = mem.more m \<and> grants m' = grants m"
        using eq wr mmr ab Some True by (auto simp: mem_simps live_free_nodes split: if_splits prod.splits)
      show ?thesis
      proof (cases "r3 = CLOG_SUCCESS")
        case False
        with eq wr mmr ab have "r = r3" "out = None" "r3 = CLOG_ERROR_FORMAT \<and> normal_path ?s = None \<or> r3 = CLOG_NO_MEMORY \<and> \<not> (\<forall>n. grants m n)"
          by (auto simp: normal_path_def)
        then consider "r = CLOG_ERROR_FORMAT" "normal_path ?s = None" | x where "r = CLOG_NO_MEMORY" "\<not> grants m x"
          by auto
        then show ?thesis
        proof cases
          case 1
          with lv \<open>out = None\<close> show ?thesis by (simp add: normalize_ok_def)
        next
          case 2
          with lv \<open>out = None\<close> nomem [of x] show ?thesis by blast
        qed
      next
        case ok: True
        with wr have rs: "resolve (segments ?s) [] = Some nodes" by simp
        have "\<forall>x \<in> set (rev nodes). x \<noteq> []" using resolve_names [OF rs, of "\<lambda>_. True"] by simp
        note wn = write_names_fits [OF this assms(3)]
        have "normal_path ?s = Some (path_of (rev nodes))" by (simp add: normal_path_def rs)
        with eq ok wn lv show ?thesis by (auto simp: normalize_ok_def split: prod.splits)
      qed
    qed
  qed
qed


lemma clean_segments: "CHR 0x00 \<notin> set s \<Longrightarrow> \<forall>seg \<in> set (segments s). CHR 0x00 \<notin> set seg"
proof (induction s)
  case (Cons c cs)
  then show ?case by (cases "segments cs") (use segments_Cons_hd [of cs] in auto)
qed simp

lemma clean_joined: "\<forall>x \<in> set names. CHR 0x00 \<notin> set x \<Longrightarrow> CHR 0x00 \<notin> set (joined names)"
  by (induction names) auto

lemma normal_path_shape:
  assumes "normal_path s = Some t" "CHR 0x00 \<notin> set s"
  shows "CHR 0x00 \<notin> set t \<and> t \<noteq> [] \<and> path_at t 0 = CHR ''/''"
proof -
  obtain ns where ns: "resolve (segments s) [] = Some ns" and t: "t = path_of (rev ns)"
    using assms(1) by (auto simp: normal_path_def)
  have "\<forall>x \<in> set (rev ns). CHR 0x00 \<notin> set x"
    using resolve_names [OF ns, of "\<lambda>x. CHR 0x00 \<notin> set x"] clean_segments [OF assms(2)] by simp
  then show ?thesis using clean_joined t by (simp add: path_of_def path_at_def)
qed

subsection \<open>Properties\<close>

text \<open>
  C20. \<open>clog_normalize\<close> computes the reference: a nonempty path, taken from the working directory
  when it is relative, becomes the absolute path of its segments without empty ones, \<open>.\<close> and
  \<open>..\<close>. It is a format error exactly when a \<open>..\<close> leaves the root, and fails for room exactly when
  the text is not shorter than the buffer by two bytes. Every block it took is released.
\<close>

theorem normalize_correct:
  assumes "CHR 0x00 \<notin> set (absolute cwd p)" "p \<noteq> []" "2 \<le> sz"
    "path_at p 0 \<noteq> CHR ''/'' \<longrightarrow> (\<exists>c. cwd = Some c \<and> path_at c 0 = CHR ''/'')"
    "clog_normalize cwd (Some p) True sz m = (r, out, m')"
  shows "live m' = live m \<and> (out \<noteq> None \<longleftrightarrow> r = CLOG_SUCCESS) \<and>
    (r = CLOG_SUCCESS \<longrightarrow> normal_path (absolute cwd p) = out) \<and>
    ((\<forall>n. grants m n) \<longrightarrow>
      (r = CLOG_SUCCESS \<longleftrightarrow> (\<exists>t. normal_path (absolute cwd p) = Some t \<and> (t = ''/'' \<or> length t + 1 < sz))) \<and>
      (r = CLOG_ERROR_FORMAT \<longleftrightarrow> normal_path (absolute cwd p) = None))"
  using normalize_result [OF assms(1,2,3) _ assms(5)] assms(4)
  by (auto simp: normalize_ok_def fits_def split: option.splits if_splits)

lemma ex_normalize_value:
  "fst (clog_normalize (Some ''/w'') (Some ''a/./b/../c'') True 256 mem_ok) = CLOG_SUCCESS \<and>
   fst (snd (clog_normalize (Some ''/w'') (Some ''a/./b/../c'') True 256 mem_ok)) = Some ''/w/a/c''"
  by code_simp

lemma ex_normalize:
  "clog_normalize (Some ''/w'') (Some ''a/./b/../c'') True 256 mem_ok =
   (CLOG_SUCCESS, Some ''/w/a/c'', snd (snd (clog_normalize (Some ''/w'') (Some ''a/./b/../c'') True 256 mem_ok)))"
  using ex_normalize_value by (metis prod.collapse)

lemma normalize_correct_witness:
  "normal_path (absolute (Some ''/w'') ''a/./b/../c'') = Some ''/w/a/c''"
  using normalize_correct [OF _ _ _ _ ex_normalize] by (simp add: absolute_def path_at_def)

text \<open>
  Normalising is idempotent: a path that \<open>clog_normalize\<close> wrote is its own normal form,
  whatever the working directory.
\<close>

theorem normalize_idempotent:
  assumes "CHR 0x00 \<notin> set (absolute cwd p)" "p \<noteq> []" "2 \<le> sz"
    "path_at p 0 \<noteq> CHR ''/'' \<longrightarrow> (\<exists>c. cwd = Some c \<and> path_at c 0 = CHR ''/'')"
    "clog_normalize cwd (Some p) True sz m = (CLOG_SUCCESS, Some t, m1)"
    "\<forall>n. grants m2 n"
  shows "\<exists>m3. clog_normalize cwd' (Some t) True sz m2 = (CLOG_SUCCESS, Some t, m3) \<and> live m3 = live m2"
proof -
  have n: "normal_path (absolute cwd p) = Some t" "fits t sz"
    using normalize_result [OF assms(1,2,3) _ assms(5)] assms(4)
    by (auto simp: normalize_ok_def split: option.splits if_splits)
  note shape = normal_path_shape [OF n(1) assms(1)]
  obtain r out m3 where c: "clog_normalize cwd' (Some t) True sz m2 = (r, out, m3)" by (metis surj_pair)
  have "absolute cwd' t = t" using shape by (simp add: absolute_def)
  then show ?thesis
    using normalize_result [OF _ _ assms(3) _ c] shape n(2) normal_path_idem [OF n(1)] assms(6) c
    by (auto simp: normalize_ok_def split: if_splits)
qed

lemma normalize_idempotent_witness:
  "\<exists>m3. clog_normalize None (Some ''/w/a/c'') True 256 mem_ok = (CLOG_SUCCESS, Some ''/w/a/c'', m3) \<and> live m3 = 0"
  using normalize_idempotent [OF _ _ _ _ ex_normalize, of mem_ok None] by (simp add: absolute_def path_at_def mem_ok_def)

end
