(* ===== verification/File_System.thy ===== *)
theory File_System
  imports File_Path Datetime
begin

text \<open>
  Files and directories (utils/clog_file_system.c, the POSIX branch). The system calls are not the
  program's: they are the fields of \<open>posix\<close>, functions on a system state of any type. A
  descriptor is an \<open>int\<close>, negative when \<open>open\<close> failed. The functions that allocate or call the
  system work on a memory state with the system state added to it.
\<close>

subsection \<open>The system calls\<close>

datatype oflag = O_RDONLY | O_WRONLY | O_RDWR | O_CREAT | O_TRUNC | O_APPEND | O_DIRECT | O_SYNC

datatype mkdir_result = Mk_done | Mk_exists | Mk_failed

record 'w posix =
  px_open :: "string \<Rightarrow> oflag list \<Rightarrow> 32 word \<Rightarrow> 'w \<Rightarrow> int \<times> 'w"
  px_flock :: "int \<Rightarrow> 'w \<Rightarrow> 'w"
  px_write :: "int \<Rightarrow> string \<Rightarrow> 'w \<Rightarrow> int \<times> 'w"
  px_read :: "int \<Rightarrow> nat \<Rightarrow> 'w \<Rightarrow> int \<times> string \<times> 'w"
  px_lseek :: "int \<Rightarrow> int \<Rightarrow> nat \<Rightarrow> 'w \<Rightarrow> int \<times> 'w"
  px_close :: "int \<Rightarrow> 'w \<Rightarrow> 'w"
  px_getcwd :: "'w \<Rightarrow> string option"
  px_stat :: "string \<Rightarrow> 'w \<Rightarrow> bool option"
  px_mkdir :: "string \<Rightarrow> 32 word \<Rightarrow> 'w \<Rightarrow> mkdir_result \<times> 'w"
  px_timeval :: "'w \<Rightarrow> int \<times> int"
  px_localtime :: "'w \<Rightarrow> tm_info"

record 'w host = mem +
  sys :: 'w

lemma sys_more: "mem.more h' = mem.more h \<Longrightarrow> sys h' = sys (h :: 'w host)"
  by (cases h; cases h') simp

subsection \<open>Files\<close>

definition CLOG_FILE_NONE :: "64 word" where "CLOG_FILE_NONE = 0"
definition CLOG_FILE_WRITE :: "64 word" where "CLOG_FILE_WRITE = 1"
definition CLOG_FILE_READ :: "64 word" where "CLOG_FILE_READ = 2"
definition CLOG_FILE_CREATE :: "64 word" where "CLOG_FILE_CREATE = 4"
definition CLOG_FILE_EXIST :: "64 word" where "CLOG_FILE_EXIST = 8"
definition CLOG_FILE_TRUNCATE :: "64 word" where "CLOG_FILE_TRUNCATE = 16"
definition CLOG_FILE_SHARED :: "64 word" where "CLOG_FILE_SHARED = 32"
definition CLOG_FILE_DIRECT :: "64 word" where "CLOG_FILE_DIRECT = 64"
definition CLOG_FILE_SYNC :: "64 word" where "CLOG_FILE_SYNC = 128"

lemmas file_flags = CLOG_FILE_NONE_def CLOG_FILE_WRITE_def CLOG_FILE_READ_def CLOG_FILE_CREATE_def
  CLOG_FILE_EXIST_def CLOG_FILE_TRUNCATE_def CLOG_FILE_SHARED_def CLOG_FILE_DIRECT_def CLOG_FILE_SYNC_def

definition CLOG_FILE_CHECK_FLAG :: "64 word \<Rightarrow> 64 word \<Rightarrow> bool" where
  "CLOG_FILE_CHECK_FLAG flags target = (and flags target \<noteq> 0)"

datatype clog_file_seek = CLOG_FILE_SEEK_SET | CLOG_FILE_SEEK_CUR | CLOG_FILE_SEEK_END | CLOG_FILE_SEEK_OTHER

record clog_file =
  cf_flags :: "64 word"
  cf_fd :: int

definition sizeof_file :: nat where "sizeof_file = 16"

definition open_flags :: "64 word \<Rightarrow> oflag list" where
  "open_flags flags =
     (let has = CLOG_FILE_CHECK_FLAG flags; wr = has CLOG_FILE_WRITE; rd = has CLOG_FILE_READ in
      (if wr \<and> rd then [O_RDWR] else if wr then [O_WRONLY] else if rd then [O_RDONLY] else []) @
      (if has CLOG_FILE_CREATE then O_CREAT # (if \<not> has CLOG_FILE_EXIST then [O_TRUNC] else []) else []) @
      (if has CLOG_FILE_TRUNCATE then [O_TRUNC] else [O_APPEND]) @
      (if has CLOG_FILE_DIRECT then [O_DIRECT] else []) @
      (if has CLOG_FILE_SYNC then [O_SYNC] else []))"

definition clog_file_open ::
    "'w posix \<Rightarrow> string option \<Rightarrow> 64 word \<Rightarrow> 64 word \<Rightarrow> 'w host \<Rightarrow> clog_file option \<times> 'w host" where
  "clog_file_open os path flags modes h = (case path of
      None \<Rightarrow> (None, h)
    | Some p \<Rightarrow>
        if flags = CLOG_FILE_NONE then (None, h)
        else (case px_open os p (open_flags flags) (ucast modes) (sys h) of
          (fd, w) \<Rightarrow>
            (let h = h\<lparr>sys := w\<rparr> in
             if fd < 0 then (None, h)
             else
               (let h = (if CLOG_FILE_CHECK_FLAG flags CLOG_FILE_WRITE \<and>
                            \<not> CLOG_FILE_CHECK_FLAG flags CLOG_FILE_SHARED
                         then h\<lparr>sys := px_flock os fd (sys h)\<rparr> else h) in
                case clog_malloc sizeof_file h of
                  (False, h) \<Rightarrow> (None, h\<lparr>sys := px_close os fd (sys h)\<rparr>)
                | (True, h) \<Rightarrow> (Some \<lparr>cf_flags = flags, cf_fd = fd\<rparr>, h)))))"

definition clog_file_write ::
    "'w posix \<Rightarrow> clog_file option \<Rightarrow> string option \<Rightarrow> nat \<Rightarrow> 'w host \<Rightarrow> clog_res \<times> 'w host" where
  "clog_file_write os file buf n h = (case (file, buf) of
      (Some f, Some b) \<Rightarrow>
        if n = 0 then (CLOG_INVALID_PARAM, h)
        else if \<not> CLOG_FILE_CHECK_FLAG (cf_flags f) CLOG_FILE_WRITE then (CLOG_NOT_SUPPORTED, h)
        else if cf_fd f < 0 then (CLOG_INVALID_PARAM, h)
        else (case px_write os (cf_fd f) (take n b) (sys h) of
          (ret, w) \<Rightarrow> ((if ret < 0 then CLOG_FAIL else CLOG_SUCCESS), h\<lparr>sys := w\<rparr>))
    | _ \<Rightarrow> (CLOG_INVALID_PARAM, h))"

text \<open>The second component is what was read, which is at the start of the buffer now.\<close>

definition clog_file_read ::
    "'w posix \<Rightarrow> clog_file option \<Rightarrow> bool \<Rightarrow> nat \<Rightarrow> 'w host \<Rightarrow> clog_res \<times> string \<times> 'w host" where
  "clog_file_read os file has_buf n h = (case file of
      None \<Rightarrow> (CLOG_INVALID_PARAM, [], h)
    | Some f \<Rightarrow>
        if \<not> has_buf then (CLOG_INVALID_PARAM, [], h)
        else if n = 0 then (CLOG_INVALID_PARAM, [], h)
        else if \<not> CLOG_FILE_CHECK_FLAG (cf_flags f) CLOG_FILE_READ then (CLOG_NOT_SUPPORTED, [], h)
        else if cf_fd f < 0 then (CLOG_INVALID_PARAM, [], h)
        else (case px_read os (cf_fd f) n (sys h) of
          (ret, data, w) \<Rightarrow>
            if ret < 0 then (CLOG_FAIL, [], h\<lparr>sys := w\<rparr>)
            else (CLOG_SUCCESS, take (nat ret) data, h\<lparr>sys := w\<rparr>)))"

definition clog_file_seek ::
    "'w posix \<Rightarrow> clog_file option \<Rightarrow> clog_file_seek \<Rightarrow> int \<Rightarrow> 'w host \<Rightarrow> clog_res \<times> int option \<times> 'w host" where
  "clog_file_seek os file whence offset h = (case file of
      None \<Rightarrow> (CLOG_INVALID_PARAM, None, h)
    | Some f \<Rightarrow>
        if whence = CLOG_FILE_SEEK_OTHER then (CLOG_INVALID_PARAM, None, h)
        else
          (let move = (if whence = CLOG_FILE_SEEK_SET then 0 else if whence = CLOG_FILE_SEEK_CUR then 1 else 2) in
           case px_lseek os (cf_fd f) offset move (sys h) of
             (ret, w) \<Rightarrow>
               if ret = -1 then (CLOG_FAIL, None, h\<lparr>sys := w\<rparr>)
               else (CLOG_SUCCESS, Some ret, h\<lparr>sys := w\<rparr>)))"

text \<open>The argument is \<open>*file\<close>; the caller's pointer is NULL afterwards.\<close>

definition clog_file_close :: "'w posix \<Rightarrow> clog_file option \<Rightarrow> 'w host \<Rightarrow> 'w host" where
  "clog_file_close os file h = (case file of
      None \<Rightarrow> h
    | Some f \<Rightarrow> clog_free (h\<lparr>sys := px_close os (cf_fd f) (sys h)\<rparr>))"

subsection \<open>Directories\<close>

text \<open>One directory: the result, and whether \<open>clog_dir_create\<close> goes on after it.\<close>

definition dir_step :: "'w posix \<Rightarrow> string \<Rightarrow> 64 word \<Rightarrow> 'w host \<Rightarrow> clog_res \<times> 'w host" where
  "dir_step os path flags h = (case px_stat os path (sys h) of
      None \<Rightarrow>
        (case px_mkdir os path (ucast flags) (sys h) of
           (Mk_done, w) \<Rightarrow> (CLOG_SUCCESS, h\<lparr>sys := w\<rparr>)
         | (Mk_exists, w) \<Rightarrow> (CLOG_ALREADY_EXISTED, h\<lparr>sys := w\<rparr>)
         | (Mk_failed, w) \<Rightarrow> (CLOG_FAIL, h\<lparr>sys := w\<rparr>))
    | Some is_dir \<Rightarrow> ((if is_dir then CLOG_ALREADY_EXISTED else CLOG_BUSY), h))"

fun dir_loop :: "'w posix \<Rightarrow> 64 word \<Rightarrow> string \<Rightarrow> string \<Rightarrow> 'w host \<Rightarrow> clog_res \<times> 'w host" where
  "dir_loop os flags done_part [] h = dir_step os done_part flags h"
| "dir_loop os flags done_part (c # cs) h =
     (if c = CHR ''/'' then
        (case dir_step os done_part flags h of
           (res, h) \<Rightarrow>
             if res = CLOG_FAIL \<or> res = CLOG_BUSY then (res, h)
             else dir_loop os flags (done_part @ [c]) cs h)
      else dir_loop os flags (done_part @ [c]) cs h)"

definition clog_dir_create ::
    "'w posix \<Rightarrow> string option \<Rightarrow> 64 word \<Rightarrow> 'w host \<Rightarrow> clog_res \<times> 'w host" where
  "clog_dir_create os path flags h = (case path of
      None \<Rightarrow> (CLOG_INVALID_PARAM, h)
    | Some p \<Rightarrow>
        (case clog_normalize (px_getcwd os (sys h)) (Some p) True CASCA_LOG_FILEPATH_MAX_SIZE h of
           (res, out, h) \<Rightarrow>
             if res \<noteq> CLOG_SUCCESS then (res, h)
             else case out of
               None \<Rightarrow> (res, h)
             | Some s \<Rightarrow>
                 if s = ''/'' then (CLOG_ALREADY_EXISTED, h)
                 else dir_loop os flags (take 1 s) (drop 1 s) h))"


subsection \<open>What \<open>clog_dir_create\<close> leaves behind\<close>

text \<open>
  What the code relies on: \<open>mkdir\<close> makes a directory, its \<open>EEXIST\<close> says there is one (no other
  process puts a file in its place in between), and it removes none.
\<close>

definition is_dir :: "'w posix \<Rightarrow> string \<Rightarrow> 'w \<Rightarrow> bool" where
  "is_dir os p w \<longleftrightarrow> px_stat os p w = Some True"

definition mkdir_laws :: "'w posix \<Rightarrow> bool" where
  "mkdir_laws os \<longleftrightarrow> (\<forall>p f w r w'. px_mkdir os p f w = (r, w') \<longrightarrow>
     (r \<noteq> Mk_failed \<longrightarrow> is_dir os p w') \<and> (\<forall>q. is_dir os q w \<longrightarrow> is_dir os q w'))"

lemma mkdir_lawsD:
  assumes "mkdir_laws os" "px_mkdir os p f w = (r, w')"
  shows "r \<noteq> Mk_failed \<Longrightarrow> is_dir os p w'" "is_dir os q w \<Longrightarrow> is_dir os q w'"
  using assms unfolding mkdir_laws_def by blast+

lemma dir_step_result:
  assumes "mkdir_laws os" "dir_step os p f h = (r, h')"
  shows "live h' = live h" "is_dir os q (sys h) \<Longrightarrow> is_dir os q (sys h')"
    "r \<in> {CLOG_SUCCESS, CLOG_ALREADY_EXISTED} \<Longrightarrow> is_dir os p (sys h')"
    "r \<in> {CLOG_SUCCESS, CLOG_ALREADY_EXISTED, CLOG_FAIL, CLOG_BUSY}"
  using assms(2) mkdir_lawsD [OF assms(1)]
  by (auto simp: dir_step_def is_dir_def split: option.splits prod.splits mkdir_result.splits if_splits)

lemma dir_loop_result:
  assumes "mkdir_laws os" "dir_loop os f d cs h = (r, h')"
  shows "live h' = live h \<and> (\<forall>q. is_dir os q (sys h) \<longrightarrow> is_dir os q (sys h')) \<and>
    (r \<in> {CLOG_SUCCESS, CLOG_ALREADY_EXISTED} \<longrightarrow>
      (\<forall>k \<le> length cs. k = length cs \<or> cs ! k = CHR ''/'' \<longrightarrow> is_dir os (d @ take k cs) (sys h')))"
  using assms(2)
proof (induction cs arbitrary: d h)
  case Nil
  then show ?case using dir_step_result [OF assms(1)] by auto
next
  case (Cons c cs)
  have later: "live h' = live h1 \<and> (\<forall>q. is_dir os q (sys h1) \<longrightarrow> is_dir os q (sys h')) \<and>
      (r \<in> {CLOG_SUCCESS, CLOG_ALREADY_EXISTED} \<longrightarrow> (\<forall>k \<le> length (c # cs). 0 < k \<and>
        (k = length (c # cs) \<or> (c # cs) ! k = CHR ''/'') \<longrightarrow> is_dir os (d @ take k (c # cs)) (sys h')))"
    if "dir_loop os f (d @ [c]) cs h1 = (r, h')" for h1
  proof -
    note ih = Cons.IH [OF that]
    have "is_dir os (d @ take k (c # cs)) (sys h')"
      if ok: "r \<in> {CLOG_SUCCESS, CLOG_ALREADY_EXISTED}" and k: "k \<le> length (c # cs)" "0 < k"
        "k = length (c # cs) \<or> (c # cs) ! k = CHR ''/''" for k
    proof -
      obtain j where j: "k = Suc j" using k(2) by (cases k) auto
      then have "is_dir os ((d @ [c]) @ take j cs) (sys h')" using ih ok k(1,3) by auto
      with j show ?thesis by simp
    qed
    with ih show ?thesis by blast
  qed
  show ?case
  proof (cases "c = CHR ''/''")
    case False
    with Cons.prems have "dir_loop os f (d @ [c]) cs h = (r, h')" by simp
    from later [OF this] False show ?thesis by (auto simp: nth_Cons split: nat.splits)
  next
    case True
    obtain r1 h1 where st: "dir_step os d f h = (r1, h1)" by (metis surj_pair)
    note step = dir_step_result [OF assms(1) st]
    show ?thesis
    proof (cases "r1 = CLOG_FAIL \<or> r1 = CLOG_BUSY")
      case True
      with st Cons.prems \<open>c = CHR ''/''\<close> step(1,2) show ?thesis by auto
    next
      case False
      with st Cons.prems True have "dir_loop os f (d @ [c]) cs h1 = (r, h')" by auto
      note l = later [OF this]
      have d: "is_dir os d (sys h')" using l step(3,4) False by auto
      have "is_dir os (d @ take k (c # cs)) (sys h')"
        if "r \<in> {CLOG_SUCCESS, CLOG_ALREADY_EXISTED}" "k \<le> length (c # cs)"
          "k = length (c # cs) \<or> (c # cs) ! k = CHR ''/''" for k
        using that l d by (cases k) auto
      with l step(1,2) show ?thesis by auto
    qed
  qed
qed


definition ex_posix :: "string list posix" where
  "ex_posix = \<lparr>px_open = (\<lambda>p f n w. (3, w)), px_flock = (\<lambda>fd w. w), px_write = (\<lambda>fd s w. (int (length s), w)),
     px_read = (\<lambda>fd n w. (0, [], w)), px_lseek = (\<lambda>fd off wh w. (0, w)), px_close = (\<lambda>fd w. w),
     px_getcwd = (\<lambda>w. Some ''/''), px_stat = (\<lambda>p w. if p \<in> set w then Some True else None),
     px_mkdir = (\<lambda>p f w. (Mk_done, p # w)), px_timeval = (\<lambda>w. (0, 0)),
     px_localtime = (\<lambda>w. \<lparr>tm_year = 0, tm_mon = 0, tm_mday = 1, tm_hour = 0, tm_min = 0, tm_sec = 0\<rparr>)\<rparr>"

definition ex_host :: "string list host" where
  "ex_host = \<lparr>grants = (\<lambda>_. True), tick = 0, live = 0, sys = []\<rparr>"

lemma ex_dir_create:
  "fst (clog_dir_create ex_posix (Some ''/a/b'') 448 ex_host) = CLOG_SUCCESS"
  by code_simp


end
