(* ===== verification/File_Recorder.thy ===== *)
theory File_Recorder
  imports File_System Formatter
begin

text \<open>
  The recorder that writes to files (recorder/clog_recorder_file.c) and the placeholders its paths
  may use (utils/clog_interpolator_default_placeholder.h). A handler gets the recorder's file
  index, when its parameter is not NULL, and the system it asks for the time and the working
  directory. Members of the union of the recorder's parameter are separate fields: only those of
  one member are ever used.
\<close>

type_synonym 'w path_param = "32 word option \<times> 'w"
type_synonym 'w path_handler = "'w path_param handler"
type_synonym 'w path_interpolator = "'w path_handler clog_interpolator list option option"
type_synonym 'w path_context = "('w path_handler, ('w, unit) host_ext) clog_interpolator_context option"

subsection \<open>The default placeholders of a path\<close>

text \<open>What \<open>snprintf\<close> writes for \<open>%0nu\<close>.\<close>

definition print_padded :: "nat \<Rightarrow> nat \<Rightarrow> string" where
  "print_padded width v = (let s = show_nat v in replicate (width - length s) CHR ''0'' @ s)"

definition datetime_placeholder :: "'w posix \<Rightarrow> nat \<Rightarrow> (clog_datetime \<Rightarrow> nat) \<Rightarrow> 'w path_handler" where
  "datetime_placeholder os width property x n =
     (let now = clog_datetime_now (snd (px_timeval os (snd x))) (px_localtime os (snd x));
          s = print_padded width (property now)
      in Some (strcpy_bytes n s, (if length s \<ge> n then Inl CLOG_NO_MEMORY else Inr (length s))))"

definition clog_interpolator_placeholder_year :: "'w posix \<Rightarrow> 'w path_handler" where
  "clog_interpolator_placeholder_year os = datetime_placeholder os 4 (\<lambda>now. unat (dt_year now))"
definition clog_interpolator_placeholder_month :: "'w posix \<Rightarrow> 'w path_handler" where
  "clog_interpolator_placeholder_month os = datetime_placeholder os 2 (\<lambda>now. unat (dt_month now))"
definition clog_interpolator_placeholder_day :: "'w posix \<Rightarrow> 'w path_handler" where
  "clog_interpolator_placeholder_day os = datetime_placeholder os 2 (\<lambda>now. unat (dt_day now))"
definition clog_interpolator_placeholder_hour :: "'w posix \<Rightarrow> 'w path_handler" where
  "clog_interpolator_placeholder_hour os = datetime_placeholder os 2 (\<lambda>now. unat (dt_hour now))"
definition clog_interpolator_placeholder_minute :: "'w posix \<Rightarrow> 'w path_handler" where
  "clog_interpolator_placeholder_minute os = datetime_placeholder os 2 (\<lambda>now. unat (dt_minute now))"
definition clog_interpolator_placeholder_second :: "'w posix \<Rightarrow> 'w path_handler" where
  "clog_interpolator_placeholder_second os = datetime_placeholder os 2 (\<lambda>now. unat (dt_second now))"
definition clog_interpolator_placeholder_millisecond :: "'w posix \<Rightarrow> 'w path_handler" where
  "clog_interpolator_placeholder_millisecond os = datetime_placeholder os 3 (\<lambda>now. unat (dt_millisecond now))"

definition clog_interpolator_placeholder_cwd :: "'w posix \<Rightarrow> 'w path_handler" where
  "clog_interpolator_placeholder_cwd os x n =
     (case clog_cwd True CASCA_LOG_FILEPATH_MAX_SIZE (px_getcwd os (snd x)) of
        (ret, path) \<Rightarrow>
          if ret \<noteq> CLOG_SUCCESS then Some ([], Inl ret)
          else
            (let ret = fst (clog_strcpy True n path) in
             Some (strcpy_bytes n (the path), (if ret \<noteq> CLOG_SUCCESS then Inl ret else Inr (length (the path))))))"

definition clog_interpolator_placeholder_path_separator :: "'w path_handler" where
  "clog_interpolator_placeholder_path_separator x n = Some (''/'', Inr 1)"

definition path_placeholders :: "'w posix \<Rightarrow> (string \<times> 'w path_handler) list" where
  "path_placeholders os =
     [(''_year'', clog_interpolator_placeholder_year os), (''_month'', clog_interpolator_placeholder_month os),
      (''_day'', clog_interpolator_placeholder_day os), (''_hour'', clog_interpolator_placeholder_hour os),
      (''_minute'', clog_interpolator_placeholder_minute os), (''_second'', clog_interpolator_placeholder_second os),
      (''_millisecond'', clog_interpolator_placeholder_millisecond os), (''_cwd'', clog_interpolator_placeholder_cwd os),
      (''_path_separator'', clog_interpolator_placeholder_path_separator)]"

definition clog_interpolator_default_placeholders ::
    "'w posix \<Rightarrow> 'w host \<Rightarrow> ('w path_handler, ('w, unit) host_ext) clog_hashmap option \<times> 'w host" where
  "clog_interpolator_default_placeholders os h =
     (case string_create sizeof_handler 0 h of
        (None, h) \<Rightarrow> (None, h)
      | (Some hm, h) \<Rightarrow> put_placeholders (path_placeholders os) hm h)"

subsection \<open>The recorder's parameter\<close>

datatype clog_recorder_file_split_type =
    CLOG_RECORDER_FILE_SPLIT_NONE | CLOG_RECORDER_FILE_SPLIT_SIZE | CLOG_RECORDER_FILE_SPLIT_TIME
  | CLOG_RECORDER_FILE_SPLIT_NUMBER | CLOG_RECORDER_FILE_SPLIT_MAX

record clog_recorder_file_attr =
  fa_metainfo_path :: "string option"
  fa_log_dir :: "string option"
  fa_log_name :: "string option"
  fa_split_type :: clog_recorder_file_split_type
  fa_split_limit :: "64 word"

text \<open>The file name is an array of 256 characters, here the C string in it.\<close>

record meta_info =
  mi_version :: "32 word"
  mi_index :: "32 word"
  mi_file :: string
  mi_timestamp :: "64 word"

record 'w clog_recorder_file_param =
  fp_dir_interpolator :: "'w path_interpolator"
  fp_file_interpolator :: "'w path_interpolator"
  fp_log :: "clog_file option"
  fp_metainfo_path :: string
  fp_metainfo :: meta_info
  fp_split_type :: clog_recorder_file_split_type
  fp_max_file_size :: "64 word"
  fp_current_file_size :: "64 word"
  fp_max_interval :: "64 word"
  fp_start_time :: "64 word"
  fp_max_item_num :: "32 word"
  fp_current_item_num :: "32 word"

definition zero_param :: "'w clog_recorder_file_param" where
  "zero_param =
     \<lparr>fp_dir_interpolator = None, fp_file_interpolator = None, fp_log = None, fp_metainfo_path = [],
      fp_metainfo = \<lparr>mi_version = 0, mi_index = 0, mi_file = [], mi_timestamp = 0\<rparr>,
      fp_split_type = CLOG_RECORDER_FILE_SPLIT_NONE, fp_max_file_size = 0, fp_current_file_size = 0,
      fp_max_interval = 0, fp_start_time = 0, fp_max_item_num = 0, fp_current_item_num = 0\<rparr>"

text \<open>
  The packed structure as the bytes of a little-endian machine; behind the terminator of the
  file name the bytes are taken to be 0.
\<close>

fun le_bytes :: "nat \<Rightarrow> nat \<Rightarrow> string" where
  "le_bytes 0 v = []"
| "le_bytes (Suc k) v = char_of (v mod 256) # le_bytes k (v div 256)"

fun le_value :: "string \<Rightarrow> nat" where
  "le_value [] = 0"
| "le_value (c # cs) = of_char c + 256 * le_value cs"

definition sizeof_metainfo :: nat where "sizeof_metainfo = 272"

definition c_string :: "string \<Rightarrow> string" where
  "c_string s = takeWhile (\<lambda>c. c \<noteq> CHR 0x00) s"

definition metainfo_bytes :: "meta_info \<Rightarrow> string" where
  "metainfo_bytes mi =
     le_bytes 4 (unat (mi_version mi)) @ le_bytes 4 (unat (mi_index mi)) @
     take 256 (mi_file mi @ replicate 256 CHR 0x00) @ le_bytes 8 (unat (mi_timestamp mi))"

definition metainfo_of :: "string \<Rightarrow> meta_info" where
  "metainfo_of b =
     \<lparr>mi_version = of_nat (le_value (take 4 b)), mi_index = of_nat (le_value (take 4 (drop 4 b))),
      mi_file = c_string (take 256 (drop 8 b)), mi_timestamp = of_nat (le_value (take 8 (drop 264 b)))\<rparr>"

subsection \<open>Paths and files\<close>

definition zero_path :: string where "zero_path = replicate CASCA_LOG_FILEPATH_MAX_SIZE CHR 0x00"

definition clog_recorder_file_placeholder_log_index :: "'w path_handler" where
  "clog_recorder_file_placeholder_log_index x n = (case fst x of
      None \<Rightarrow> Some ([], Inl CLOG_INVALID_PARAM)
    | Some index \<Rightarrow>
        (let s = print_padded 4 (unat index) in Some (strcpy_bytes n s, Inr (length s))))"

text \<open>
  The path of the log for the present index. When it fails, the code may have left the beginning of
  a path in \<open>metainfo.file\<close>, which it does not read before it has written it again; here nothing is
  kept of it.
\<close>

definition clog_file_recorder_get_log_filepath ::
    "'w posix \<Rightarrow> 'w clog_recorder_file_param \<Rightarrow> nat \<Rightarrow> 'w host \<Rightarrow> (clog_res \<times> string option \<times> 'w host) option" where
  "clog_file_recorder_get_log_filepath os p n h =
     (case clog_interpolator_interpolate (fp_dir_interpolator p) (None, sys h) (Some zero_path) CASCA_LOG_FILEPATH_MAX_SIZE of
        None \<Rightarrow> None
      | Some (res, path, num) \<Rightarrow>
          if res \<noteq> CLOG_SUCCESS then Some (res, None, h)
          else
            (let path = the path; num = (case num of None \<Rightarrow> 0 | Some k \<Rightarrow> k) in
             case clog_interpolator_interpolate (fp_file_interpolator p) (Some (mi_index (fp_metainfo p)), sys h)
                    (Some (drop num path)) (CASCA_LOG_FILEPATH_MAX_SIZE - num) of
               None \<Rightarrow> None
             | Some (res, rest, _) \<Rightarrow>
                 if res \<noteq> CLOG_SUCCESS then Some (res, None, h)
                 else
                   (let path = c_string (take num path @ the rest) in
                    case clog_normalize (px_getcwd os (sys h)) (Some path) True n h of
                      (res, out, h) \<Rightarrow>
                        if res \<noteq> CLOG_SUCCESS then Some (res, None, h) else Some (CLOG_SUCCESS, out, h))))"

text \<open>Count the lines of the file, one byte at a time, until a read fails or is short.\<close>

partial_function (option) count_lines ::
    "'w posix \<Rightarrow> clog_file option \<Rightarrow> 32 word \<Rightarrow> 'w host \<Rightarrow> (32 word \<times> 'w host) option" where
  "count_lines os f k h =
     (case clog_file_read os f True 1 h of
        (ret, data, h) \<Rightarrow>
          if ret \<noteq> CLOG_SUCCESS \<or> length data \<noteq> 1 then Some (k, h)
          else count_lines os f (if data = [CHR 0x0A] then k + 1 else k) h)"

definition seek_quiet :: "'w posix \<Rightarrow> clog_file option \<Rightarrow> clog_file_seek \<Rightarrow> 'w host \<Rightarrow> int \<times> 'w host" where
  "seek_quiet os f whence h = (case clog_file_seek os f whence 0 h of
      (_, num, h) \<Rightarrow> ((case num of None \<Rightarrow> 0 | Some k \<Rightarrow> k), h))"

definition position_log ::
    "'w posix \<Rightarrow> 'w clog_recorder_file_param \<Rightarrow> 'w host \<Rightarrow> (clog_res \<times> 'w clog_recorder_file_param \<times> 'w host) option" where
  "position_log os p h = (case fp_split_type p of
      CLOG_RECORDER_FILE_SPLIT_NONE \<Rightarrow>
        Some (CLOG_SUCCESS, p, snd (seek_quiet os (fp_log p) CLOG_FILE_SEEK_END h))
    | CLOG_RECORDER_FILE_SPLIT_SIZE \<Rightarrow>
        (let h = snd (seek_quiet os (fp_log p) CLOG_FILE_SEEK_SET h) in
         case seek_quiet os (fp_log p) CLOG_FILE_SEEK_END h of
           (num, h) \<Rightarrow> Some (CLOG_SUCCESS, p\<lparr>fp_current_file_size := of_int num\<rparr>, h))
    | CLOG_RECORDER_FILE_SPLIT_TIME \<Rightarrow>
        Some (CLOG_SUCCESS, p\<lparr>fp_start_time := mi_timestamp (fp_metainfo p)\<rparr>,
              snd (seek_quiet os (fp_log p) CLOG_FILE_SEEK_END h))
    | CLOG_RECORDER_FILE_SPLIT_NUMBER \<Rightarrow>
        (case count_lines os (fp_log p) 0 (snd (seek_quiet os (fp_log p) CLOG_FILE_SEEK_SET h)) of
           None \<Rightarrow> None
         | Some (k, h) \<Rightarrow>
             Some (CLOG_SUCCESS, p\<lparr>fp_current_item_num := k\<rparr>, snd (seek_quiet os (fp_log p) CLOG_FILE_SEEK_END h)))
    | CLOG_RECORDER_FILE_SPLIT_MAX \<Rightarrow> Some (CLOG_INVALID_PARAM, p, h))"

definition make_directory_of ::
    "'w posix \<Rightarrow> string \<Rightarrow> 'w host \<Rightarrow> (clog_res \<times> 'w host) option" where
  "make_directory_of os file h =
     (case clog_file_get_dir (Some file) (Some zero_path) CASCA_LOG_FILEPATH_MAX_SIZE of
        None \<Rightarrow> None
      | Some (ret, dir) \<Rightarrow>
          if ret \<noteq> CLOG_SUCCESS then Some (ret, h)
          else (case clog_dir_create os (map_option c_string dir) 0x1F8 h of
            (ret, h) \<Rightarrow>
              if ret \<noteq> CLOG_SUCCESS \<and> ret \<noteq> CLOG_ALREADY_EXISTED then Some (ret, h) else Some (CLOG_SUCCESS, h)))"

definition log_file_flags :: "64 word" where
  "log_file_flags = CLOG_FILE_READ OR CLOG_FILE_WRITE OR CLOG_FILE_CREATE OR CLOG_FILE_EXIST OR CLOG_FILE_SHARED"

definition meta_file_flags :: "64 word" where
  "meta_file_flags = CLOG_FILE_WRITE OR CLOG_FILE_CREATE OR CLOG_FILE_TRUNCATE"

definition clog_recoder_file_open_file ::
    "'w posix \<Rightarrow> 'w clog_recorder_file_param \<Rightarrow> 'w host \<Rightarrow> (clog_res \<times> 'w clog_recorder_file_param \<times> 'w host) option" where
  "clog_recoder_file_open_file os p h =
     (let file = mi_file (fp_metainfo p) in
      case make_directory_of os file h of
        None \<Rightarrow> None
      | Some (ret, h) \<Rightarrow>
          if ret \<noteq> CLOG_SUCCESS then Some (ret, p, h)
          else (case clog_file_open os (Some file) log_file_flags 0x1B0 h of
            (log, h) \<Rightarrow>
              (let p = p\<lparr>fp_log := log\<rparr> in
               if log = None then Some (CLOG_FAIL, p, h) else position_log os p h)))"

text \<open>Write the meta information to its file, and close it; \<open>meta\<close> may be NULL.\<close>

definition save_metainfo ::
    "'w posix \<Rightarrow> clog_file option \<Rightarrow> meta_info \<Rightarrow> 'w host \<Rightarrow> clog_res \<times> 'w host" where
  "save_metainfo os meta mi h =
     (case clog_file_write os meta (Some (metainfo_bytes mi)) sizeof_metainfo h of
        (res, h) \<Rightarrow> (res, clog_file_close os meta h))"

definition clog_recorder_file_init_meta_info ::
    "'w posix \<Rightarrow> clog_recorder_file_attr \<Rightarrow> 'w path_context \<Rightarrow> 'w clog_recorder_file_param \<Rightarrow> 'w host
     \<Rightarrow> (clog_res \<times> 'w path_context \<times> 'w clog_recorder_file_param \<times> 'w host) option" where
  "clog_recorder_file_init_meta_info os attr context p h =
     (case clog_interpolator_parse context (fa_metainfo_path attr) h of
        None \<Rightarrow> None
      | Some (res, interpolator, context, h) \<Rightarrow>
          if res \<noteq> CLOG_SUCCESS then Some (res, context, p, h)
          else case clog_interpolator_interpolate interpolator (None, sys h) (Some zero_path) CASCA_LOG_FILEPATH_MAX_SIZE of
            None \<Rightarrow> None
          | Some (res, tmp, _) \<Rightarrow>
              if res \<noteq> CLOG_SUCCESS then Some (res, context, p, h)
              else case clog_interpolator_clear interpolator h of
                None \<Rightarrow> None
              | Some h \<Rightarrow>
                  (case clog_normalize (px_getcwd os (sys h)) (map_option c_string tmp) True CASCA_LOG_FILEPATH_MAX_SIZE h of
                    (res, out, h) \<Rightarrow>
                      if res \<noteq> CLOG_SUCCESS then Some (res, context, p, h)
                      else
                        (let p = p\<lparr>fp_metainfo_path := the out\<rparr> in
                         case clog_file_open os (Some (fp_metainfo_path p)) CLOG_FILE_READ 0x1B0 h of
                           (None, h) \<Rightarrow>
                             (let p = p\<lparr>fp_metainfo := (fp_metainfo p)\<lparr>mi_version := 1, mi_index := 0\<rparr>\<rparr> in
                              case clog_file_recorder_get_log_filepath os p 256 h of
                                None \<Rightarrow> None
                              | Some (res, file, h) \<Rightarrow>
                                  if res \<noteq> CLOG_SUCCESS then Some (res, context, p, h)
                                  else
                                    (let p = p\<lparr>fp_metainfo := (fp_metainfo p)\<lparr>mi_file := the file,
                                                mi_index := mi_index (fp_metainfo p) + 1\<rparr>\<rparr> in
                                     case make_directory_of os (fp_metainfo_path p) h of
                                       None \<Rightarrow> None
                                     | Some (res, h) \<Rightarrow>
                                         if res \<noteq> CLOG_SUCCESS then Some (res, context, p, h)
                                         else case clog_file_open os (Some (fp_metainfo_path p)) meta_file_flags 0x1B0 h of
                                           (None, h) \<Rightarrow> Some (CLOG_FAIL, context, p, h)
                                         | (Some meta, h) \<Rightarrow>
                                             (case save_metainfo os (Some meta) (fp_metainfo p) h of
                                                (res, h) \<Rightarrow> Some (res, context, p, h))))
                         | (Some meta, h) \<Rightarrow>
                             (case clog_file_read os (Some meta) True sizeof_metainfo h of
                                (res, data, h) \<Rightarrow>
                                  (let p = p\<lparr>fp_metainfo :=
                                             metainfo_of (data @ drop (length data) (metainfo_bytes (fp_metainfo p)))\<rparr>;
                                       h = clog_file_close os (Some meta) h
                                   in Some (res, context, p, h))))))"

subsection \<open>The recorder's operations\<close>

definition timestamp_now :: "'w posix \<Rightarrow> 'w host \<Rightarrow> 64 word" where
  "timestamp_now os h = (case px_timeval os (sys h) of (sec, usec) \<Rightarrow> clog_timestamp_ms sec usec)"

definition clog_recorder_file_need_flash :: "'w posix \<Rightarrow> 'w clog_recorder_file_param \<Rightarrow> 'w host \<Rightarrow> bool" where
  "clog_recorder_file_need_flash os p h = (case fp_split_type p of
      CLOG_RECORDER_FILE_SPLIT_NONE \<Rightarrow> False
    | CLOG_RECORDER_FILE_SPLIT_SIZE \<Rightarrow> fp_current_file_size p \<ge> fp_max_file_size p
    | CLOG_RECORDER_FILE_SPLIT_TIME \<Rightarrow> timestamp_now os h - fp_start_time p \<ge> fp_max_interval p
    | CLOG_RECORDER_FILE_SPLIT_NUMBER \<Rightarrow> fp_current_item_num p \<ge> fp_max_item_num p
    | CLOG_RECORDER_FILE_SPLIT_MAX \<Rightarrow> False)"

definition clog_recorder_check_flush ::
    "'w clog_recorder_file_param \<Rightarrow> clog_item \<Rightarrow> clog_res \<times> 'w clog_recorder_file_param" where
  "clog_recorder_check_flush p log = (case fp_split_type p of
      CLOG_RECORDER_FILE_SPLIT_NONE \<Rightarrow> (CLOG_SUCCESS, p)
    | CLOG_RECORDER_FILE_SPLIT_SIZE \<Rightarrow>
        (let p = p\<lparr>fp_current_file_size := fp_current_file_size p + ucast (it_length log)\<rparr> in
         ((if fp_current_file_size p \<ge> fp_max_file_size p then CLOG_REQUEST_FLUSH else CLOG_SUCCESS), p))
    | CLOG_RECORDER_FILE_SPLIT_TIME \<Rightarrow>
        ((if it_timestamp log - fp_start_time p \<ge> fp_max_interval p then CLOG_REQUEST_FLUSH else CLOG_SUCCESS), p)
    | CLOG_RECORDER_FILE_SPLIT_NUMBER \<Rightarrow>
        (let p = p\<lparr>fp_current_item_num := fp_current_item_num p + 1\<rparr> in
         ((if fp_current_item_num p \<ge> fp_max_item_num p then CLOG_REQUEST_FLUSH else CLOG_SUCCESS), p))
    | CLOG_RECORDER_FILE_SPLIT_MAX \<Rightarrow> (CLOG_INVALID_PARAM, p))"

definition clog_recorder_file_write ::
    "'w posix \<Rightarrow> clog_item \<Rightarrow> 'w clog_recorder_file_param \<Rightarrow> 'w host
     \<Rightarrow> clog_res \<times> 'w clog_recorder_file_param \<times> 'w host" where
  "clog_recorder_file_write os log p h =
     (case clog_file_write os (fp_log p) (Some (it_content log)) (unat (it_length log)) h of
        (res, h) \<Rightarrow>
          if res \<noteq> CLOG_SUCCESS then (res, p, h)
          else (case clog_recorder_check_flush p log of (res, p) \<Rightarrow> (res, p, h)))"

text \<open>The array behind \<open>metainfo_path\<close> is never NULL, so that the test of it does nothing.\<close>

definition clog_recorder_file_flush ::
    "'w posix \<Rightarrow> 'w clog_recorder_file_param \<Rightarrow> 'w host \<Rightarrow> (clog_res \<times> 'w clog_recorder_file_param \<times> 'w host) option" where
  "clog_recorder_file_flush os p h =
     (let old_log = fp_log p in
      case clog_file_recorder_get_log_filepath os p 256 h of
        None \<Rightarrow> None
      | Some (ret, file, h) \<Rightarrow>
          if ret \<noteq> CLOG_SUCCESS then Some (ret, p, h)
          else
            (let p = p\<lparr>fp_metainfo := (fp_metainfo p)\<lparr>mi_file := the file, mi_timestamp := timestamp_now os h,
                         mi_index := mi_index (fp_metainfo p) + 1\<rparr>\<rparr> in
             case clog_file_open os (Some (fp_metainfo_path p)) meta_file_flags 0x1B0 h of
               (meta, h) \<Rightarrow>
                 (case save_metainfo os meta (fp_metainfo p) h of
                    (ret, h) \<Rightarrow>
                      if ret \<noteq> CLOG_SUCCESS then Some (ret, p, h)
                      else case clog_recoder_file_open_file os p h of
                        None \<Rightarrow> None
                      | Some (ret, p, h) \<Rightarrow>
                          if ret \<noteq> CLOG_SUCCESS then Some (ret, p, h)
                          else Some (CLOG_SUCCESS, p, clog_file_close os old_log h))))"

definition clog_recorder_file_open ::
    "'w posix \<Rightarrow> 'w clog_recorder_file_param option \<Rightarrow> 'w host
     \<Rightarrow> (clog_res \<times> 'w clog_recorder_file_param option \<times> 'w host) option" where
  "clog_recorder_file_open os extra h = (case extra of
      None \<Rightarrow> Some (CLOG_ABNORMAL_STATE, None, h)
    | Some p \<Rightarrow>
        if clog_recorder_file_need_flash os p h then
          (case clog_recorder_file_flush os p h of
             None \<Rightarrow> None
           | Some (ret, p, h) \<Rightarrow> Some ((if ret \<noteq> CLOG_SUCCESS then ret else CLOG_SUCCESS), Some p, h))
        else Some (CLOG_SUCCESS, Some p, h))"

definition clog_recorder_file_clear_param ::
    "'w posix \<Rightarrow> 'w clog_recorder_file_param \<Rightarrow> 'w host \<Rightarrow> 'w host option" where
  "clog_recorder_file_clear_param os p h =
     (case clog_interpolator_clear (fp_dir_interpolator p) h of
        None \<Rightarrow> None
      | Some h \<Rightarrow>
          (case clog_interpolator_clear (fp_file_interpolator p) h of
             None \<Rightarrow> None
           | Some h \<Rightarrow> Some (clog_free (clog_file_close os (fp_log p) h))))"

definition clog_recorder_file_close ::
    "'w posix \<Rightarrow> 'w clog_recorder_file_param option \<Rightarrow> 'w host \<Rightarrow> 'w host option" where
  "clog_recorder_file_close os extra h = (case extra of
      None \<Rightarrow> Some h
    | Some p \<Rightarrow> clog_recorder_file_clear_param os p h)"

definition clog_recorder_file_init_split ::
    "clog_recorder_file_attr \<Rightarrow> 'w clog_recorder_file_param \<Rightarrow> 'w clog_recorder_file_param" where
  "clog_recorder_file_init_split attr p =
     (let v = fa_split_limit attr in
      case fa_split_type attr of
        CLOG_RECORDER_FILE_SPLIT_NONE \<Rightarrow> p
      | CLOG_RECORDER_FILE_SPLIT_SIZE \<Rightarrow> p\<lparr>fp_max_file_size := v\<rparr>
      | CLOG_RECORDER_FILE_SPLIT_TIME \<Rightarrow> p\<lparr>fp_max_interval := v * 1000\<rparr>
      | CLOG_RECORDER_FILE_SPLIT_NUMBER \<Rightarrow> p\<lparr>fp_max_item_num := ucast v\<rparr>
      | CLOG_RECORDER_FILE_SPLIT_MAX \<Rightarrow> p)"

text \<open>The code behind the label \<open>RESULT_HANDLER\<close>: the map is shared with the context.\<close>

definition result_handler ::
    "'w path_context \<Rightarrow> clog_res \<Rightarrow> 'w clog_recorder_file_param \<Rightarrow> 'w host
     \<Rightarrow> (clog_res \<times> 'w clog_recorder_file_param \<times> 'w host) option" where
  "result_handler context res p h =
     (let h1 = snd (clog_interpolator_context_destroy context h);
          h2 = snd (clog_hashmap_destroy (map_option ic_map context) h1)
      in Some (res, p, h2))"

definition clog_recorder_file_init_param ::
    "'w posix \<Rightarrow> clog_recorder_file_attr \<Rightarrow> 'w clog_recorder_file_param \<Rightarrow> 'w host
     \<Rightarrow> (clog_res \<times> 'w clog_recorder_file_param \<times> 'w host) option" where
  "clog_recorder_file_init_param os attr p h =
     (case clog_interpolator_default_placeholders os h of
        (None, h) \<Rightarrow> Some (CLOG_FAIL, p, h)
      | (Some defaults, h) \<Rightarrow>
          (case clog_interpolator_context_create (Some defaults) h of
             (None, h) \<Rightarrow> Some (CLOG_FAIL, p, h)
           | (Some context, h) \<Rightarrow>
               (case clog_interpolator_context_register (Some context) (Some ''_log_index'')
                       (Some clog_recorder_file_placeholder_log_index) h of
                  (res, context, h) \<Rightarrow>
                    if res \<noteq> CLOG_SUCCESS then result_handler context res p h
                    else case clog_interpolator_parse context (fa_log_dir attr) h of
                      None \<Rightarrow> None
                    | Some (res, interpolator, context, h) \<Rightarrow>
                        if res \<noteq> CLOG_SUCCESS then result_handler context res p h
                        else
                          (let p = p\<lparr>fp_dir_interpolator := interpolator\<rparr> in
                           case clog_interpolator_parse context (fa_log_name attr) h of
                             None \<Rightarrow> None
                           | Some (res, interpolator, context, h) \<Rightarrow>
                               if res \<noteq> CLOG_SUCCESS then result_handler context res p h
                               else
                                 (let p = p\<lparr>fp_file_interpolator := interpolator\<rparr> in
                                  case clog_recorder_file_init_meta_info os attr context p h of
                                    None \<Rightarrow> None
                                  | Some (res, context, p, h) \<Rightarrow>
                                      if res \<noteq> CLOG_SUCCESS then result_handler context res p h
                                      else (case clog_recoder_file_open_file os p h of
                                          None \<Rightarrow> None
                                        | Some (res, p, h) \<Rightarrow> result_handler context res p h))))))"

definition sizeof_file_param :: nat where "sizeof_file_param = 584"
definition sizeof_file_recorder :: nat where "sizeof_file_recorder = 48"

definition clog_recorder_file_param_init ::
    "'w posix \<Rightarrow> clog_recorder_file_attr \<Rightarrow> 'w host \<Rightarrow> ('w clog_recorder_file_param option \<times> 'w host) option" where
  "clog_recorder_file_param_init os attr h =
     (case clog_malloc sizeof_file_param h of
        (False, h) \<Rightarrow> Some (None, h)
      | (True, h) \<Rightarrow>
          (case clog_recorder_file_init_param os attr (clog_recorder_file_init_split attr zero_param) h of
             None \<Rightarrow> None
           | Some (ret, p, h) \<Rightarrow>
               if ret \<noteq> CLOG_SUCCESS then map_option (\<lambda>h. (None, h)) (clog_recorder_file_clear_param os p h)
               else Some (Some p, h)))"

text \<open>The recorder is its \<open>extra\<close>; the functions are those above.\<close>

definition clog_recorder_file_create ::
    "'w posix \<Rightarrow> clog_recorder_file_attr option \<Rightarrow> 'w host \<Rightarrow> ('w clog_recorder_file_param option \<times> 'w host) option" where
  "clog_recorder_file_create os attr h = (case attr of
      None \<Rightarrow> Some (None, h)
    | Some a \<Rightarrow>
        if fa_metainfo_path a = None \<or> fa_log_dir a = None \<or> fa_log_name a = None then Some (None, h)
        else if fa_split_type a = CLOG_RECORDER_FILE_SPLIT_MAX then Some (None, h)
        else case clog_malloc sizeof_file_recorder h of
          (False, h) \<Rightarrow> Some (None, h)
        | (True, h) \<Rightarrow> clog_recorder_file_param_init os a h)"


subsection \<open>The meta information as bytes\<close>

lemma length_le_bytes [simp]: "length (le_bytes k v) = k"
  by (induction k arbitrary: v) auto

lemma le_value_bytes: "v < 256 ^ k \<Longrightarrow> le_value (le_bytes k v) = v"
proof (induction k arbitrary: v)
  case (Suc k)
  then have "v div 256 < 256 ^ k" by (simp add: less_mult_imp_div_less mult.commute)
  with Suc.IH show ?case by simp
qed simp

lemma le_value_word32: "le_value (le_bytes 4 (unat (v :: 32 word))) = unat v"
  using unsigned_less [of v, where 'a = nat] by (intro le_value_bytes) simp

lemma le_value_word64: "le_value (le_bytes 8 (unat (v :: 64 word))) = unat v"
  using unsigned_less [of v, where 'a = nat] by (intro le_value_bytes) simp

lemma length_metainfo_bytes [simp]: "length (metainfo_bytes mi) = sizeof_metainfo"
  by (simp add: metainfo_bytes_def sizeof_metainfo_def)

lemma c_string_pad: "CHR 0x00 \<notin> set s \<Longrightarrow> c_string (s @ replicate n CHR 0x00) = s"
  by (cases n) (auto simp: c_string_def takeWhile_append)

lemma metainfo_of_bytes:
  assumes "CHR 0x00 \<notin> set (mi_file mi)" "length (mi_file mi) \<le> 256"
  shows "metainfo_of (metainfo_bytes mi) = mi"
proof -
  have f: "take 256 (mi_file mi @ replicate 256 CHR 0x00) = mi_file mi @ replicate (256 - length (mi_file mi)) CHR 0x00"
    using assms(2) by simp
  have a: "take 4 (metainfo_bytes mi) = le_bytes 4 (unat (mi_version mi))"
    "take 4 (drop 4 (metainfo_bytes mi)) = le_bytes 4 (unat (mi_index mi))"
    "take 256 (drop 8 (metainfo_bytes mi)) = take 256 (mi_file mi @ replicate 256 CHR 0x00)"
    "take 8 (drop 264 (metainfo_bytes mi)) = le_bytes 8 (unat (mi_timestamp mi))"
    by (simp_all add: metainfo_bytes_def)
  show ?thesis using assms(2)
    by (simp add: metainfo_of_def a f c_string_pad [OF assms(1)] le_value_word32 le_value_word64)
qed

subsection \<open>The split type of a new recorder\<close>

lemma position_log_split: "position_log os p h = Some (r, p', h') \<Longrightarrow> fp_split_type p' = fp_split_type p"
  by (auto simp: position_log_def Let_def split: clog_recorder_file_split_type.splits option.splits prod.splits)

lemma open_file_split: "clog_recoder_file_open_file os p h = Some (r, p', h') \<Longrightarrow> fp_split_type p' = fp_split_type p"
  by (auto simp: clog_recoder_file_open_file_def Let_def split: option.splits prod.splits if_splits dest: position_log_split)

lemma init_meta_info_split:
  "clog_recorder_file_init_meta_info os attr c p h = Some (r, c', p', h') \<Longrightarrow> fp_split_type p' = fp_split_type p"
  by (auto simp: clog_recorder_file_init_meta_info_def Let_def split: option.splits prod.splits if_splits)

lemma result_handler_param: "result_handler c r p h = Some (r', p', h') \<Longrightarrow> r' = r \<and> p' = p"
  by (simp add: result_handler_def Let_def)

lemma init_param_split:
  "clog_recorder_file_init_param os attr p h = Some (r, p', h') \<Longrightarrow> fp_split_type p' = fp_split_type p"
  by (auto simp: clog_recorder_file_init_param_def Let_def split: option.splits prod.splits if_splits
      dest!: result_handler_param open_file_split init_meta_info_split)

lemma init_split_type: "fp_split_type (clog_recorder_file_init_split attr p) = fp_split_type p"
  by (simp add: clog_recorder_file_init_split_def Let_def split: clog_recorder_file_split_type.splits)

lemma create_split:
  assumes "clog_recorder_file_create os attr h = Some (Some p, h')"
  shows "fp_split_type p = CLOG_RECORDER_FILE_SPLIT_NONE"
  using assms
  by (auto simp: clog_recorder_file_create_def clog_recorder_file_param_init_def init_split_type zero_param_def
      split: option.splits prod.splits bool.splits if_splits dest!: init_param_split)

subsection \<open>Runs of writes\<close>

text \<open>Items handed to the recorder one after the other, as the dispatchers do: it is flushed when it asks.\<close>

fun file_run ::
    "'w posix \<Rightarrow> clog_item list \<Rightarrow> 'w clog_recorder_file_param \<Rightarrow> 'w host
     \<Rightarrow> (clog_res list \<times> 'w clog_recorder_file_param \<times> 'w host) option" where
  "file_run os [] p h = Some ([], p, h)"
| "file_run os (log # logs) p h =
     (case clog_recorder_file_write os log p h of
        (ret, p, h) \<Rightarrow>
          (case (if ret = CLOG_REQUEST_FLUSH then map_option snd (clog_recorder_file_flush os p h) else Some (p, h)) of
             None \<Rightarrow> None
           | Some (p, h) \<Rightarrow> map_option (\<lambda>(rs, p, h). (ret # rs, p, h)) (file_run os logs p h)))"

lemma file_write_result:
  "clog_file_write os f b n h = (r, h') \<Longrightarrow> r \<in> {CLOG_SUCCESS, CLOG_FAIL, CLOG_INVALID_PARAM, CLOG_NOT_SUPPORTED}"
  by (auto simp: clog_file_write_def split: option.splits prod.splits if_splits)

lemma run_no_split:
  assumes "fp_split_type p = CLOG_RECORDER_FILE_SPLIT_NONE"
  shows "\<exists>rs h'. file_run os logs p h = Some (rs, p, h') \<and> CLOG_REQUEST_FLUSH \<notin> set rs"
proof (induction logs arbitrary: h)
  case (Cons log logs)
  obtain r h1 where w: "clog_file_write os (fp_log p) (Some (it_content log)) (unat (it_length log)) h = (r, h1)"
    by (metis surj_pair)
  then have "clog_recorder_file_write os log p h = (r, p, h1)"
    using assms by (simp add: clog_recorder_file_write_def clog_recorder_check_flush_def)
  moreover have "r \<noteq> CLOG_REQUEST_FLUSH" using file_write_result [OF w] by auto
  moreover obtain rs h2 where "file_run os logs p h1 = Some (rs, p, h2)" "CLOG_REQUEST_FLUSH \<notin> set rs"
    using Cons.IH by blast
  ultimately show ?case by auto
qed simp

text \<open>With a limit in force: what the counters count.\<close>

definition counted :: "clog_item list \<Rightarrow> 'w clog_recorder_file_param \<Rightarrow> 'w clog_recorder_file_param" where
  "counted logs p = fold (\<lambda>log p. snd (clog_recorder_check_flush p log)) logs p"

lemma counted_number:
  "\<lbrakk>fp_split_type p = CLOG_RECORDER_FILE_SPLIT_NUMBER; unat (fp_current_item_num p) + length logs < 2 ^ 32\<rbrakk> \<Longrightarrow>
   counted logs p = p\<lparr>fp_current_item_num := fp_current_item_num (counted logs p)\<rparr> \<and>
   unat (fp_current_item_num (counted logs p)) = unat (fp_current_item_num p) + length logs"
proof (induction logs arbitrary: p)
  case (Cons log logs)
  let ?p = "p\<lparr>fp_current_item_num := fp_current_item_num p + 1\<rparr>"
  have c: "counted (log # logs) p = counted logs ?p"
    using Cons.prems(1) by (simp add: counted_def clog_recorder_check_flush_def Let_def)
  have "unat (fp_current_item_num p + 1) = unat (fp_current_item_num p) + 1"
    using Cons.prems(2) by (simp add: unat_word_ariths)
  with Cons.IH [of ?p] Cons.prems have "counted logs ?p = ?p\<lparr>fp_current_item_num := fp_current_item_num (counted logs ?p)\<rparr>"
      "unat (fp_current_item_num (counted logs ?p)) = unat (fp_current_item_num p) + length (log # logs)" by auto
  then show ?case unfolding c by simp
qed (simp add: counted_def)

lemma counted_size:
  "\<lbrakk>fp_split_type p = CLOG_RECORDER_FILE_SPLIT_SIZE;
    unat (fp_current_file_size p) + sum_list (List.map (\<lambda>log. unat (it_length log)) logs) < 2 ^ 64\<rbrakk> \<Longrightarrow>
   counted logs p = p\<lparr>fp_current_file_size := fp_current_file_size (counted logs p)\<rparr> \<and>
   unat (fp_current_file_size (counted logs p)) =
     unat (fp_current_file_size p) + sum_list (List.map (\<lambda>log. unat (it_length log)) logs)"
proof (induction logs arbitrary: p)
  case (Cons log logs)
  let ?p = "p\<lparr>fp_current_file_size := fp_current_file_size p + ucast (it_length log)\<rparr>"
  have c: "counted (log # logs) p = counted logs ?p"
    using Cons.prems(1) by (simp add: counted_def clog_recorder_check_flush_def Let_def)
  have "unat (ucast (it_length log) :: 64 word) = unat (it_length log)"
    using unsigned_less [of "it_length log", where 'a = nat] by (simp add: unsigned_ucast_eq take_bit_nat_eq_self)
  then have "unat (fp_current_file_size p + ucast (it_length log)) = unat (fp_current_file_size p) + unat (it_length log)"
    using Cons.prems(2) by (simp add: unat_word_ariths)
  with Cons.IH [of ?p] Cons.prems have "counted logs ?p = ?p\<lparr>fp_current_file_size := fp_current_file_size (counted logs ?p)\<rparr>"
      "unat (fp_current_file_size (counted logs ?p)) =
        unat (fp_current_file_size p) + sum_list (List.map (\<lambda>log. unat (it_length log)) (log # logs))" by auto
  then show ?case unfolding c by simp
qed (simp add: counted_def)

subsection \<open>Memory of a rotation\<close>

lemma file_open_live:
  "clog_file_open os p f m h = (r, h') \<Longrightarrow> live h' = live h + (if r = None then 0 else 1)"
  by (auto simp: clog_file_open_def Let_def split: option.splits prod.splits bool.splits if_splits dest!: live_clog_mallocD)

lemma file_close_live: "live (clog_file_close os f h) = live h - (if f = None then 0 else 1)"
  by (simp add: clog_file_close_def mem_simps split: option.splits)

lemma file_write_live: "clog_file_write os f b n h = (r, h') \<Longrightarrow> live h' = live h"
  by (auto simp: clog_file_write_def split: option.splits prod.splits if_splits)

lemma file_read_live: "clog_file_read os f b n h = (r, d, h') \<Longrightarrow> live h' = live h"
  by (auto simp: clog_file_read_def split: option.splits prod.splits if_splits)

lemma seek_quiet_live: "live (snd (seek_quiet os f w h)) = live h"
  by (auto simp: seek_quiet_def clog_file_seek_def Let_def split: option.splits prod.splits if_splits)

lemma save_metainfo_live: "save_metainfo os f mi h = (r, h') \<Longrightarrow> live h' = live h - (if f = None then 0 else 1)"
  by (auto simp: save_metainfo_def file_close_live split: prod.splits dest!: file_write_live)

lemma count_lines_live: "count_lines os f k h = Some (k', h') \<Longrightarrow> live h' = live h"
proof -
  assume c: "count_lines os f k h = Some (k', h')"
  have "live (snd (k', h')) = live h"
    by (rule count_lines.raw_induct [where P = "\<lambda>os f k h x. live (snd x) = live h", OF _ c])
      (force split: prod.splits if_splits dest: file_read_live)
  then show ?thesis by simp
qed


lemma position_log_live: "position_log os p h = Some (r, p', h') \<Longrightarrow> live h' = live h \<and> fp_log p' = fp_log p \<and>
    fp_metainfo p' = fp_metainfo p"
  by (auto simp: position_log_def Let_def seek_quiet_live split: clog_recorder_file_split_type.splits option.splits prod.splits
      dest!: count_lines_live) (metis seek_quiet_live snd_conv)+

definition cwd_string :: "'w posix \<Rightarrow> bool" where
  "cwd_string os \<longleftrightarrow> (\<forall>w c. px_getcwd os w = Some c \<longrightarrow> CHR 0x00 \<notin> set c)"

lemma c_string_clean: "CHR 0x00 \<notin> set (c_string s)"
  by (auto simp: c_string_def dest: set_takeWhileD)

lemma live_normalize:
  assumes "CHR 0x00 \<notin> set p" "\<And>c. cwd = Some c \<Longrightarrow> CHR 0x00 \<notin> set c" "clog_normalize cwd (Some p) True n m = (r, out, m')"
  shows "live m' = live m"
proof (cases "n < 2")
  case True
  with assms(3) show ?thesis by (auto simp: clog_normalize_def)
next
  case n: False
  show ?thesis
  proof (cases "path_at p 0 = CHR ''/''")
    case True
    then have "p \<noteq> []" by (auto simp: path_at_def)
    with normalize_result [of cwd p n m r out m'] assms n True show ?thesis by (simp add: absolute_def)
  next
    case rel: False
    show ?thesis
    proof (cases "p \<noteq> [] \<and> (\<exists>c. cwd = Some c \<and> path_at c 0 = CHR ''/'')")
      case True
      with assms n rel have "CHR 0x00 \<notin> set (absolute cwd p)" by (auto simp: absolute_def)
      with normalize_result [of cwd p n m r out m'] assms(3) n True show ?thesis by simp
    next
      case False
      obtain r1 b m1 where g: "clog_get_unnormalized_abs_path cwd p m = (r1, b, m1)" by (metis surj_pair)
      have "b = None \<and> live m1 = live m"
      proof (cases cwd)
        case None
        with g rel show ?thesis by (auto simp: clog_get_unnormalized_abs_path_def clog_cwd_def split: if_splits)
      next
        case (Some c)
        show ?thesis
        proof (cases "c = [] \<or> p = []")
          case True
          with g rel Some show ?thesis
            by (auto simp: clog_get_unnormalized_abs_path_def clog_cwd_def clog_strcpy_def CASCA_LOG_FILEPATH_MAX_SIZE_def Let_def mem_simps
                split: if_splits prod.splits bool.splits option.splits dest!: live_clog_mallocD)
        next
          case ne: False
          with False Some have at: "path_at c 0 \<noteq> CHR ''/''" by auto
          have "path_at (c @ x) 0 = path_at c 0" for x using ne by (simp add: path_at_def nth_append)
          with g rel Some ne at show ?thesis
            by (auto simp: clog_get_unnormalized_abs_path_def clog_cwd_def clog_strcpy_def CASCA_LOG_FILEPATH_MAX_SIZE_def Let_def mem_simps
                split: if_splits prod.splits bool.splits option.splits dest!: live_clog_mallocD)
        qed
      qed
      with g assms(3) n show ?thesis by (auto simp: clog_normalize_def)
    qed
  qed
qed

lemma live_dir_step: "dir_step os p f h = (r, h') \<Longrightarrow> live h' = live h"
  by (auto simp: dir_step_def split: option.splits prod.splits mkdir_result.splits if_splits)

lemma live_dir_loop: "dir_loop os f d cs h = (r, h') \<Longrightarrow> live h' = live h"
  by (induction cs arbitrary: d h) (auto split: if_splits prod.splits dest: live_dir_step)

lemma live_dir_create:
  assumes "cwd_string os" "CHR 0x00 \<notin> set p" "clog_dir_create os (Some p) f h = (r, h')"
  shows "live h' = live h"
proof -
  obtain rn out hn where n: "clog_normalize (px_getcwd os (sys h)) (Some p) True CASCA_LOG_FILEPATH_MAX_SIZE h = (rn, out, hn)"
    by (metis surj_pair)
  have "live hn = live h" by (rule live_normalize [OF assms(2) _ n]) (use assms(1) in \<open>auto simp: cwd_string_def\<close>)
  with n assms(3) show ?thesis
    by (auto simp: clog_dir_create_def split: if_splits option.splits dest: live_dir_loop)
qed

lemma live_make_directory_of:
  assumes "cwd_string os" "make_directory_of os file h = Some (r, h')"
  shows "live h' = live h"
  using assms(2)
  by (auto simp: make_directory_of_def clog_file_get_dir_def clog_memcpy_def Let_def split: option.splits prod.splits if_splits
      dest!: live_dir_create [OF assms(1) c_string_clean])

lemma live_get_log_filepath:
  assumes "cwd_string os" "clog_file_recorder_get_log_filepath os p n h = Some (r, f, h')"
  shows "live h' = live h"
proof -
  have norm: "live h2 = live h1" if "clog_normalize (px_getcwd os (sys h1)) (Some (c_string s)) True n h1 = (r, out, h2)"
    for s r out h1 h2
    by (rule live_normalize [OF c_string_clean _ that]) (use assms(1) in \<open>auto simp: cwd_string_def\<close>)
  from assms(2) show ?thesis
    by (auto simp: clog_file_recorder_get_log_filepath_def Let_def split: option.splits prod.splits if_splits dest!: norm)
qed


lemma open_file_live:
  assumes "cwd_string os" "clog_recoder_file_open_file os p h = Some (r, p', h')"
  shows "fp_metainfo p' = fp_metainfo p \<and> (r = CLOG_SUCCESS \<longrightarrow> fp_log p' \<noteq> None) \<and>
    (r \<noteq> CLOG_SUCCESS \<and> fp_log p' = fp_log p \<and> live h' = live h \<or> fp_log p' = None \<and> r = CLOG_FAIL \<and> live h' = live h \<or>
     fp_log p' \<noteq> None \<and> live h' = live h + 1)"
proof -
  from assms(2) obtain r1 h1 where m: "make_directory_of os (mi_file (fp_metainfo p)) h = Some (r1, h1)"
    by (auto simp: clog_recoder_file_open_file_def Let_def split: option.splits)
  note lm = live_make_directory_of [OF assms(1) m]
  show ?thesis
  proof (cases "r1 = CLOG_SUCCESS")
    case False
    with assms(2) m lm show ?thesis by (auto simp: clog_recoder_file_open_file_def Let_def)
  next
    case True
    obtain l h2 where o: "clog_file_open os (Some (mi_file (fp_metainfo p))) log_file_flags 0x1B0 h1 = (l, h2)" by (metis surj_pair)
    note lo = file_open_live [OF o]
    show ?thesis
    proof (cases l)
      case None
      with assms(2) m lm lo o True show ?thesis by (auto simp: clog_recoder_file_open_file_def Let_def)
    next
      case (Some f)
      with assms(2) m o True have "position_log os (p\<lparr>fp_log := l\<rparr>) h2 = Some (r, p', h')"
        by (simp add: clog_recoder_file_open_file_def Let_def)
      from position_log_live [OF this] lm lo Some show ?thesis by simp
    qed
  qed
qed

lemma get_abs_path_some: "clog_get_unnormalized_abs_path cwd p m \<noteq> (CLOG_SUCCESS, None, m')"
  by (auto simp: clog_get_unnormalized_abs_path_def Let_def split: if_splits prod.splits option.splits bool.splits)

lemma normalize_some: "clog_normalize cwd (Some p) b n m \<noteq> (CLOG_SUCCESS, None, m')"
  by (auto simp: clog_normalize_def get_abs_path_some split: if_splits prod.splits option.splits bool.splits)

lemma normalize_text: "clog_normalize cwd (Some p) b n m = (CLOG_SUCCESS, out, m') \<Longrightarrow> \<exists>t. out = Some t"
  using normalize_some [of cwd p b n m m'] by (cases out) auto

text \<open>The steps of a flush.\<close>

lemma flush_cases:
  assumes "clog_recorder_file_flush os p h = Some (r, p', h')"
  obtains (path) "r \<noteq> CLOG_SUCCESS" "p' = p" "clog_file_recorder_get_log_filepath os p 256 h = Some (r, None, h')"
    | (meta) nm h1 h2 f mi where "r \<noteq> CLOG_SUCCESS" "p' = p\<lparr>fp_metainfo := mi\<rparr>"
        "clog_file_recorder_get_log_filepath os p 256 h = Some (CLOG_SUCCESS, nm, h1)"
        "clog_file_open os (Some (fp_metainfo_path p)) meta_file_flags 0x1B0 h1 = (f, h2)" "save_metainfo os f mi h2 = (r, h')"
    | (log) nm h1 h2 f mi h3 h4 where
        "mi = (fp_metainfo p)\<lparr>mi_file := the nm, mi_timestamp := timestamp_now os h1, mi_index := mi_index (fp_metainfo p) + 1\<rparr>"
        "clog_file_recorder_get_log_filepath os p 256 h = Some (CLOG_SUCCESS, nm, h1)"
        "clog_file_open os (Some (fp_metainfo_path p)) meta_file_flags 0x1B0 h1 = (f, h2)" "save_metainfo os f mi h2 = (CLOG_SUCCESS, h3)"
        "clog_recoder_file_open_file os (p\<lparr>fp_metainfo := mi\<rparr>) h3 = Some (r, p', h4)"
        "h' = (if r = CLOG_SUCCESS then clog_file_close os (fp_log p) h4 else h4)"
proof -
  from assms obtain r1 nm h1 where g: "clog_file_recorder_get_log_filepath os p 256 h = Some (r1, nm, h1)"
    by (auto simp: clog_recorder_file_flush_def Let_def split: option.splits)
  show thesis
  proof (cases "r1 = CLOG_SUCCESS")
    case False
    moreover from this g have "nm = None"
      by (auto simp: clog_file_recorder_get_log_filepath_def Let_def split: option.splits prod.splits if_splits)
    ultimately show thesis using assms g path by (simp add: clog_recorder_file_flush_def Let_def)
  next
    case ok: True
    define mi where "mi = (fp_metainfo p)\<lparr>mi_file := the nm, mi_timestamp := timestamp_now os h1, mi_index := mi_index (fp_metainfo p) + 1\<rparr>"
    obtain f h2 where o: "clog_file_open os (Some (fp_metainfo_path p)) meta_file_flags 0x1B0 h1 = (f, h2)" by (metis surj_pair)
    obtain r3 h3 where s: "save_metainfo os f mi h2 = (r3, h3)" by (metis surj_pair)
    show thesis
    proof (cases "r3 = CLOG_SUCCESS")
      case False
      with assms g ok o s show thesis
        by (intro meta [of mi nm h1 f h2]) (auto simp: clog_recorder_file_flush_def Let_def mi_def)
    next
      case True
      with assms g ok o s obtain r4 p4 h4 where op: "clog_recoder_file_open_file os (p\<lparr>fp_metainfo := mi\<rparr>) h3 = Some (r4, p4, h4)"
        by (auto simp: clog_recorder_file_flush_def Let_def mi_def split: option.splits)
      have g': "clog_file_recorder_get_log_filepath os p 256 h = Some (CLOG_SUCCESS, nm, h1)" using g ok by simp
      have s': "save_metainfo os f mi h2 = (CLOG_SUCCESS, h3)" using s True by simp
      have e: "r4 = r \<and> p4 = p' \<and> h' = (if r = CLOG_SUCCESS then clog_file_close os (fp_log p) h4 else h4)"
        using assms g' o s' op by (auto simp: clog_recorder_file_flush_def Let_def mi_def split: if_splits)
      then show thesis using log [OF mi_def g' o s'] op by blast
    qed
  qed
qed

lemma flush_memory:
  assumes "cwd_string os" "clog_recorder_file_flush os p h = Some (r, p', h')"
  shows "(r = CLOG_SUCCESS \<longrightarrow> fp_log p' \<noteq> None \<and> mi_index (fp_metainfo p') = mi_index (fp_metainfo p) + 1 \<and>
      (\<exists>h1. clog_file_recorder_get_log_filepath os p 256 h = Some (CLOG_SUCCESS, Some (mi_file (fp_metainfo p')), h1))) \<and>
    (r = CLOG_SUCCESS \<and> fp_log p \<noteq> None \<longrightarrow> live h' = live h) \<and>
    (fp_log p \<noteq> None \<and> fp_log p' = None \<longrightarrow> r = CLOG_FAIL \<and> live h' = live h)"
  using assms(2)
proof (cases rule: flush_cases)
  case path
  then show ?thesis by auto
next
  case meta
  then show ?thesis by auto
next
  case (log nm h1 h2 f mi h3 h4)
  have l3: "live h3 = live h"
    using live_get_log_filepath [OF assms(1) log(2)] file_open_live [OF log(3)] save_metainfo_live [OF log(4)] by simp
  obtain t where t: "nm = Some t"
    using log(2) by (auto simp: clog_file_recorder_get_log_filepath_def Let_def split: option.splits prod.splits if_splits
        dest: normalize_text)
  from open_file_live [OF assms(1) log(5)] l3 t log(1,2,6) show ?thesis
    by (auto simp: file_close_live)
qed


subsection \<open>An example\<close>

text \<open>
  A system on which every directory exists, every file opens, except for reading alone, and
  writing writes everything; a recorder for \<open>/l/a\<close>, its meta information in \<open>/m\<close>.
\<close>

definition ex_disk :: "unit posix" where
  "ex_disk = \<lparr>px_open = (\<lambda>p f n w. (if f = [O_RDONLY, O_APPEND] then -1 else 3, w)), px_flock = (\<lambda>fd w. w),
     px_write = (\<lambda>fd s w. (int (length s), w)), px_read = (\<lambda>fd n w. (0, [], w)), px_lseek = (\<lambda>fd off wh w. (0, w)),
     px_close = (\<lambda>fd w. w), px_getcwd = (\<lambda>w. Some ''/''), px_stat = (\<lambda>p w. Some True),
     px_mkdir = (\<lambda>p f w. (Mk_done, w)), px_timeval = (\<lambda>w. (0, 0)),
     px_localtime = (\<lambda>w. \<lparr>tm_year = 0, tm_mon = 0, tm_mday = 1, tm_hour = 0, tm_min = 0, tm_sec = 0\<rparr>)\<rparr>"

definition ex_file_attr :: clog_recorder_file_attr where
  "ex_file_attr = \<lparr>fa_metainfo_path = Some ''/m'', fa_log_dir = Some ''/l/'', fa_log_name = Some ''a'',
     fa_split_type = CLOG_RECORDER_FILE_SPLIT_NUMBER, fa_split_limit = 10\<rparr>"

definition granted :: "'m mem_scheme \<Rightarrow> bool" where "granted m \<longleftrightarrow> grants m = (\<lambda>_. True)"

definition ex_log :: clog_item where
  "ex_log = \<lparr>it_magic = CASCA_LOG_MAGIC, it_version = CASCA_LOG_VERSION, it_recorder = [2, 0, 0, 0], it_process = ''p'',
     it_module = ''m'', it_filename = ''f.c'', it_tid = 1, it_line = 1, it_level = 3, it_year = 1970, it_month = 1, it_day = 1,
     it_hour = 0, it_minute = 0, it_second = 0, it_millisecond = 0, it_timestamp = 0, it_length = 3, it_content = ''one''\<rparr>"

definition ex_unit_host :: "unit host" where
  "ex_unit_host = \<lparr>grants = (\<lambda>_. True), tick = 0, live = 0, sys = ()\<rparr>"

definition ex_paths :: "unit clog_recorder_file_param \<Rightarrow> bool" where
  "ex_paths p \<longleftrightarrow> fp_dir_interpolator p = Some (Some [Pure ''/l/'']) \<and> fp_file_interpolator p = Some (Some [Pure ''a''])"

lemma granted_malloc: "granted m \<Longrightarrow> 0 < n \<Longrightarrow> \<exists>m'. clog_malloc n m = (True, m') \<and> granted m'"
  by (simp add: clog_malloc_def granted_def)

lemma granted_free [simp]: "granted (clog_free m) = granted m"
  by (simp add: granted_def clog_free_def)

lemma granted_sys [simp]: "granted (h\<lparr>sys := w\<rparr>) = granted h"
  by (simp add: granted_def)

lemma granted_normalize:
  assumes "granted h" "normal_path p = Some t" "fits t n" "2 \<le> n" "path_at p 0 = CHR ''/''" "CHR 0x00 \<notin> set p"
  shows "\<exists>h'. clog_normalize cwd (Some p) True n h = (CLOG_SUCCESS, Some t, h') \<and> granted h'"
proof -
  obtain r out h' where c: "clog_normalize cwd (Some p) True n h = (r, out, h')" by (metis surj_pair)
  have "p \<noteq> []" "absolute cwd p = p" using assms(5) by (auto simp: path_at_def absolute_def)
  with normalize_result [of cwd p n h r out h'] assms c show ?thesis
    by (auto simp: normalize_ok_def granted_def)
qed

lemma ex_interpolate_dir: "clog_interpolator_interpolate (Some (Some [Pure ''/l/''])) (None :: 32 word option, ()) (Some zero_path) 256 =
    Some (CLOG_SUCCESS, Some (''/l/'' @ replicate 253 CHR 0x00), Some 3)"
  by code_simp

lemma ex_interpolate_file: "clog_interpolator_interpolate (Some (Some [Pure ''a''])) (Some i :: 32 word option, ())
    (Some (replicate 253 CHR 0x00)) 253 = Some (CLOG_SUCCESS, Some (''a'' @ replicate 252 CHR 0x00), Some 1)"
  by code_simp

lemma ex_interpolate_meta: "clog_interpolator_interpolate (Some (Some [Pure ''/m''])) (None :: 32 word option, ()) (Some zero_path) 256 =
    Some (CLOG_SUCCESS, Some (''/m'' @ replicate 254 CHR 0x00), Some 2)"
  by code_simp

lemma ex_filepath:
  assumes "granted h" "ex_paths p"
  shows "\<exists>h'. clog_file_recorder_get_log_filepath ex_disk p 256 h = Some (CLOG_SUCCESS, Some ''/l/a'', h') \<and> granted h'"
proof -
  have n: "normal_path ''/l/a'' = Some ''/l/a''" by code_simp
  obtain h' where "clog_normalize (px_getcwd ex_disk ()) (Some ''/l/a'') True 256 h = (CLOG_SUCCESS, Some ''/l/a'', h')" "granted h'"
    using granted_normalize [OF assms(1) n, of 256] by (auto simp: fits_def path_at_def)
  moreover have "c_string (CHR ''/'' # CHR ''l'' # CHR ''/'' # CHR ''a'' # replicate 252 CHR 0x00) = ''/l/a''"
    using c_string_pad [of "''/l/a''" 252] by simp
  ultimately show ?thesis
    using assms(2) ex_interpolate_dir ex_interpolate_file
    by (simp add: clog_file_recorder_get_log_filepath_def ex_paths_def CASCA_LOG_FILEPATH_MAX_SIZE_def)
qed


lemma ex_get_dir_value:
  "map_option (\<lambda>(r, d). (r, map_option c_string d)) (clog_file_get_dir (Some ''/l/a'') (Some zero_path) CASCA_LOG_FILEPATH_MAX_SIZE)
     = Some (CLOG_SUCCESS, Some ''/l/'')"
  "map_option (\<lambda>(r, d). (r, map_option c_string d)) (clog_file_get_dir (Some ''/m'') (Some zero_path) CASCA_LOG_FILEPATH_MAX_SIZE)
     = Some (CLOG_SUCCESS, Some ''/'')"
  by code_simp+

lemma ex_dir_loop: "\<exists>r. dir_loop ex_disk f d cs h = (r, h) \<and> r \<in> {CLOG_SUCCESS, CLOG_ALREADY_EXISTED}"
  by (induction cs arbitrary: d) (auto simp: dir_step_def ex_disk_def)

lemma ex_file_dir:
  assumes "granted h" "p \<in> {''/l/'', ''/''}"
  shows "\<exists>r h'. clog_dir_create ex_disk (Some p) f h = (r, h') \<and> granted h' \<and> r \<in> {CLOG_SUCCESS, CLOG_ALREADY_EXISTED}"
proof -
  have "normal_path ''/l/'' = Some ''/l''" "normal_path ''/'' = Some ''/''" by code_simp+
  with assms(2) obtain t where t: "normal_path p = Some t" "fits t CASCA_LOG_FILEPATH_MAX_SIZE" "path_at p 0 = CHR ''/''" "CHR 0x00 \<notin> set p"
    by (auto simp: fits_def path_at_def CASCA_LOG_FILEPATH_MAX_SIZE_def)
  obtain h' where n: "clog_normalize (px_getcwd ex_disk (sys h)) (Some p) True CASCA_LOG_FILEPATH_MAX_SIZE h = (CLOG_SUCCESS, Some t, h')" "granted h'"
    using granted_normalize [OF assms(1) t(1,2) _ t(3,4)] by (auto simp: CASCA_LOG_FILEPATH_MAX_SIZE_def)
  obtain r where "dir_loop ex_disk f (take 1 t) (drop 1 t) h' = (r, h')" "r \<in> {CLOG_SUCCESS, CLOG_ALREADY_EXISTED}"
    using ex_dir_loop by blast
  with n show ?thesis by (cases "t = ''/''") (auto simp: clog_dir_create_def)
qed

lemma ex_make_directory:
  assumes "granted h" "nm \<in> {''/l/a'', ''/m''}"
  shows "\<exists>h'. make_directory_of ex_disk nm h = Some (CLOG_SUCCESS, h') \<and> granted h'"
proof -
  from assms(2) obtain d p where d: "clog_file_get_dir (Some nm) (Some zero_path) CASCA_LOG_FILEPATH_MAX_SIZE = Some (CLOG_SUCCESS, Some d)"
      "c_string d \<in> {''/l/'', ''/''}"
    using ex_get_dir_value by fastforce
  from ex_file_dir [OF assms(1) d(2), of "0x1F8"] d(1) show ?thesis by (auto simp: make_directory_of_def)
qed

lemma ex_open:
  assumes "granted h" "fl \<in> {log_file_flags, meta_file_flags}"
  shows "\<exists>h'. clog_file_open ex_disk (Some nm) fl md h = (Some \<lparr>cf_flags = fl, cf_fd = 3\<rparr>, h') \<and> granted h'"
proof -
  have "open_flags log_file_flags = [O_RDWR, O_CREAT, O_APPEND]" "open_flags meta_file_flags = [O_WRONLY, O_CREAT, O_TRUNC, O_TRUNC]"
    "log_file_flags \<noteq> CLOG_FILE_NONE" "meta_file_flags \<noteq> CLOG_FILE_NONE" by code_simp+
  with assms granted_malloc [of h sizeof_file] granted_malloc [of "h\<lparr>sys := ()\<rparr>" sizeof_file] show ?thesis
    by (fastforce simp: clog_file_open_def ex_disk_def Let_def sizeof_file_def)
qed

lemma ex_save:
  assumes "granted h"
  shows "\<exists>h'. save_metainfo ex_disk (Some \<lparr>cf_flags = meta_file_flags, cf_fd = 3\<rparr>) mi h = (CLOG_SUCCESS, h') \<and> granted h'"
proof -
  have "CLOG_FILE_CHECK_FLAG meta_file_flags CLOG_FILE_WRITE" by code_simp
  with assms show ?thesis
    by (simp add: save_metainfo_def clog_file_write_def clog_file_close_def ex_disk_def sizeof_metainfo_def)
qed

lemma ex_open_file:
  assumes "granted h" "mi_file (fp_metainfo p) = ''/l/a''" "fp_split_type p = CLOG_RECORDER_FILE_SPLIT_NONE"
  shows "\<exists>h'. clog_recoder_file_open_file ex_disk p h =
    Some (CLOG_SUCCESS, p\<lparr>fp_log := Some \<lparr>cf_flags = log_file_flags, cf_fd = 3\<rparr>\<rparr>, h') \<and> granted h'"
proof -
  obtain h1 where h1: "make_directory_of ex_disk ''/l/a'' h = Some (CLOG_SUCCESS, h1)" "granted h1"
    using ex_make_directory [OF assms(1), of "''/l/a''"] by auto
  obtain h2 where h2: "clog_file_open ex_disk (Some ''/l/a'') log_file_flags 0x1B0 h1 = (Some \<lparr>cf_flags = log_file_flags, cf_fd = 3\<rparr>, h2)" "granted h2"
    using ex_open [OF h1(2), of log_file_flags] by auto
  have "granted (snd (seek_quiet ex_disk f w h2))" for f w
    using h2(2) by (auto simp: seek_quiet_def clog_file_seek_def ex_disk_def Let_def split: option.splits)
  with assms(2,3) h1 h2 show ?thesis by (simp add: clog_recoder_file_open_file_def position_log_def)
qed

lemma ex_flush:
  assumes "granted h" "ex_paths p" "fp_split_type p = CLOG_RECORDER_FILE_SPLIT_NONE"
  shows "\<exists>p' h'. clog_recorder_file_flush ex_disk p h = Some (CLOG_SUCCESS, p', h')"
proof -
  obtain h1 where h1: "clog_file_recorder_get_log_filepath ex_disk p 256 h = Some (CLOG_SUCCESS, Some ''/l/a'', h1)" "granted h1"
    using ex_filepath [OF assms(1,2)] by blast
  obtain h2 where h2: "clog_file_open ex_disk (Some (fp_metainfo_path p)) meta_file_flags 0x1B0 h1 = (Some \<lparr>cf_flags = meta_file_flags, cf_fd = 3\<rparr>, h2)"
      "granted h2" using ex_open [OF h1(2), of meta_file_flags] by auto
  define q where "q = p\<lparr>fp_metainfo := (fp_metainfo p)\<lparr>mi_file := ''/l/a'', mi_timestamp := timestamp_now ex_disk h1,
    mi_index := mi_index (fp_metainfo p) + 1\<rparr>\<rparr>"
  obtain h3 where h3: "save_metainfo ex_disk (Some \<lparr>cf_flags = meta_file_flags, cf_fd = 3\<rparr>) (fp_metainfo q) h2 = (CLOG_SUCCESS, h3)"
      "granted h3" using ex_save [OF h2(2)] by blast
  obtain h4 where "clog_recoder_file_open_file ex_disk q h3 =
      Some (CLOG_SUCCESS, q\<lparr>fp_log := Some \<lparr>cf_flags = log_file_flags, cf_fd = 3\<rparr>\<rparr>, h4)"
    using ex_open_file [OF h3(2), of q] assms(3) by (auto simp: q_def)
  with h1 h2 h3 show ?thesis by (simp add: clog_recorder_file_flush_def q_def Let_def)
qed


lemma ex_path_parse:
  assumes "granted m" "escape_text t = t" "t \<noteq> []" "last t \<noteq> CHR 0x5C"
  shows "\<exists>m'. clog_interpolator_parse (Some c) (Some t) m = Some (CLOG_SUCCESS, Some (Some [Pure t]), Some c, m') \<and> granted m'"
proof -
  obtain m1 where m1: "clog_malloc sizeof_interp m = (True, m1)" "granted m1"
    using granted_malloc [OF assms(1), of sizeof_interp] by (auto simp: sizeof_interp_def)
  obtain m2 where m2: "parse_segment (ic_map c) (escape_text t @ []) m1 = (Inr (Pure t, []), ic_map c, m2)" "\<And>i. grants m2 i"
    by (rule parse_pure_text [OF _ assms(3,4), where rest = "[]"]) (use m1(2) in \<open>auto simp: granted_def\<close>)
  have "clog_interpolator_parse_format (ic_map c) t m1 = (CLOG_SUCCESS, [Pure t], ic_map c, m2)"
    using m2(1) assms(2,3) by (subst clog_interpolator_parse_format.simps) (simp add: clog_interpolator_parse_format.simps)
  moreover have "granted m2" using m2(2) by (auto simp: granted_def)
  ultimately show ?thesis using m1 by (simp add: clog_interpolator_parse_def root_next_def)
qed

lemma ex_defaults:
  fixes h :: "'w host"
  assumes "granted h"
  shows "\<exists>hm h'. clog_interpolator_default_placeholders os h = (Some hm, h') \<and> string_map hm \<and> granted h'"
proof -
  obtain hm0 :: "('w path_handler, ('w, unit) host_ext) clog_hashmap" and h0 where
    c: "string_create sizeof_handler 0 h = (Some hm0, h0)" "\<And>i. grants h0 i"
    using assms
    by (auto simp: clog_hashmap_create_def clog_hashmap_create_empty_buckets_def clog_malloc_def granted_def
        sizeof_hashmap_def sizeof_entry_def)
  have inv: "string_inv hm0" using string_create_inv [OF c(1)] by (simp add: sizeof_handler_def)
  have "\<forall>(nm, f) \<in> set (path_placeholders os). CHR 0x00 \<notin> set nm" by (simp add: path_placeholders_def)
  from put_placeholders_spec [OF inv c(2) this] c(1) show ?thesis
    by (fastforce simp: clog_interpolator_default_placeholders_def granted_def fun_eq_iff hm_inv_def)
qed

lemma ex_register:
  assumes "granted h" "string_map (ic_map c)"
  shows "\<exists>c' h'. clog_interpolator_context_register (Some c) (Some nm) (Some f) h = (CLOG_SUCCESS, Some c', h') \<and> granted h'"
proof -
  obtain r hm h' where p: "put_nn (ic_map c) (cstr_bytes nm) f h = (r, hm, h')" by (metis surj_pair)
  from string_put_granted [OF assms(2) _ p] assms(1) have "r = CLOG_SUCCESS" "granted h'" by (auto simp: granted_def)
  with p show ?thesis by (simp add: clog_interpolator_context_register_def clog_hashmap_put_def)
qed

lemma ex_init_meta:
  assumes "granted h" "ex_paths p" "fp_split_type p = CLOG_RECORDER_FILE_SPLIT_NONE"
  shows "\<exists>p' h'. clog_recorder_file_init_meta_info ex_disk ex_file_attr (Some c) p h = Some (CLOG_SUCCESS, Some c, p', h') \<and>
    granted h' \<and> mi_file (fp_metainfo p') = ''/l/a'' \<and> fp_split_type p' = CLOG_RECORDER_FILE_SPLIT_NONE"
proof -
  obtain h1 where h1: "clog_interpolator_parse (Some c) (Some ''/m'') h = Some (CLOG_SUCCESS, Some (Some [Pure ''/m'']), Some c, h1)" "granted h1"
    using ex_path_parse [OF assms(1), of "''/m''" c] by auto
  have n: "normal_path ''/m'' = Some ''/m''" by code_simp
  have cs: "c_string (''/m'' @ replicate 254 CHR 0x00) = ''/m''" by (rule c_string_pad) simp
  let ?h = "clog_free (free_segments [Pure ''/m'' :: unit path_handler clog_interpolator] h1)"
  have "granted ?h" using h1(2) by simp
  then obtain h2 where h2: "clog_normalize (px_getcwd ex_disk ()) (Some ''/m'') True 256 ?h = (CLOG_SUCCESS, Some ''/m'', h2)" "granted h2"
    using granted_normalize [OF _ n, of ?h 256] by (auto simp: fits_def path_at_def)
  have rd: "open_flags CLOG_FILE_READ = [O_RDONLY, O_APPEND]" "CLOG_FILE_READ \<noteq> CLOG_FILE_NONE" by code_simp+
  have o: "clog_file_open ex_disk (Some ''/m'') CLOG_FILE_READ 0x1B0 h2 = (None, h2)"
    using rd by (simp add: clog_file_open_def ex_disk_def)
  let ?p = "p\<lparr>fp_metainfo_path := ''/m''\<rparr>"
  let ?p1 = "?p\<lparr>fp_metainfo := (fp_metainfo ?p)\<lparr>mi_version := 1, mi_index := 0\<rparr>\<rparr>"
  have "ex_paths ?p1" using assms(2) by (simp add: ex_paths_def)
  from ex_filepath [OF h2(2) this] obtain h3 where
    h3: "clog_file_recorder_get_log_filepath ex_disk ?p1 256 h2 = Some (CLOG_SUCCESS, Some ''/l/a'', h3)" "granted h3" by blast
  obtain h4 where h4: "make_directory_of ex_disk ''/m'' h3 = Some (CLOG_SUCCESS, h4)" "granted h4"
    using ex_make_directory [OF h3(2), of "''/m''"] by auto
  obtain h5 where h5: "clog_file_open ex_disk (Some ''/m'') meta_file_flags 0x1B0 h4 = (Some \<lparr>cf_flags = meta_file_flags, cf_fd = 3\<rparr>, h5)"
      "granted h5" using ex_open [OF h4(2), of meta_file_flags] by auto
  let ?p2 = "?p1\<lparr>fp_metainfo := (fp_metainfo ?p1)\<lparr>mi_file := ''/l/a'', mi_index := mi_index (fp_metainfo ?p1) + 1\<rparr>\<rparr>"
  obtain h6 where h6: "save_metainfo ex_disk (Some \<lparr>cf_flags = meta_file_flags, cf_fd = 3\<rparr>) (fp_metainfo ?p2) h5 = (CLOG_SUCCESS, h6)"
      "granted h6" using ex_save [OF h5(2)] by blast
  have "clog_recorder_file_init_meta_info ex_disk ex_file_attr (Some c) p h = Some (CLOG_SUCCESS, Some c, ?p2, h6)"
    using h1 h2 o h3 h4 h5 h6 ex_interpolate_meta cs
    by (simp add: clog_recorder_file_init_meta_info_def ex_file_attr_def CASCA_LOG_FILEPATH_MAX_SIZE_def clog_interpolator_clear_def Let_def)
  with h6(2) assms(3) show ?thesis by auto
qed

lemma ex_file_create: "\<exists>p h'. clog_recorder_file_create ex_disk (Some ex_file_attr) ex_unit_host = Some (Some p, h')"
proof -
  have "granted ex_unit_host" by (simp add: granted_def ex_unit_host_def)
  then obtain h0 where h0: "clog_malloc sizeof_file_recorder ex_unit_host = (True, h0)" "granted h0"
    using granted_malloc [of ex_unit_host sizeof_file_recorder] by (auto simp: sizeof_file_recorder_def)
  then obtain h1 where h1: "clog_malloc sizeof_file_param h0 = (True, h1)" "granted h1"
    using granted_malloc [of h0 sizeof_file_param] by (auto simp: sizeof_file_param_def)
  obtain hm h2 where h2: "clog_interpolator_default_placeholders ex_disk h1 = (Some hm, h2)" "string_map hm" "granted h2"
    using ex_defaults [OF h1(2)] by blast
  obtain h3 where h3: "clog_malloc sizeof_interp h2 = (True, h3)" "granted h3"
    using granted_malloc [OF h2(3), of sizeof_interp] by (auto simp: sizeof_interp_def)
  let ?c = "\<lparr>ic_is_map_allocated = False, ic_map = hm\<rparr>"
  obtain c h4 where h4: "clog_interpolator_context_register (Some ?c) (Some ''_log_index'')
      (Some clog_recorder_file_placeholder_log_index) h3 = (CLOG_SUCCESS, Some c, h4)" "granted h4"
    using ex_register [OF h3(2), of ?c "''_log_index''" clog_recorder_file_placeholder_log_index] h2(2) by auto
  obtain h5 where h5: "clog_interpolator_parse (Some c) (Some ''/l/'') h4 = Some (CLOG_SUCCESS, Some (Some [Pure ''/l/'']), Some c, h5)" "granted h5"
    using ex_path_parse [OF h4(2), of "''/l/''" c] by auto
  obtain h6 where h6: "clog_interpolator_parse (Some c) (Some ''a'') h5 = Some (CLOG_SUCCESS, Some (Some [Pure ''a'']), Some c, h6)" "granted h6"
    using ex_path_parse [OF h5(2), of "''a''" c] by auto
  let ?p = "(clog_recorder_file_init_split ex_file_attr zero_param)\<lparr>fp_dir_interpolator := Some (Some [Pure ''/l/'']),
     fp_file_interpolator := Some (Some [Pure ''a''])\<rparr>"
  have "ex_paths ?p" "fp_split_type ?p = CLOG_RECORDER_FILE_SPLIT_NONE"
    by (simp_all add: ex_paths_def init_split_type zero_param_def)
  from ex_init_meta [OF h6(2) this, of c] obtain p h7 where
    h7: "clog_recorder_file_init_meta_info ex_disk ex_file_attr (Some c) ?p h6 = Some (CLOG_SUCCESS, Some c, p, h7)"
      "granted h7" "mi_file (fp_metainfo p) = ''/l/a''" "fp_split_type p = CLOG_RECORDER_FILE_SPLIT_NONE" by blast
  from ex_open_file [OF h7(2-4)] obtain h8 where
    h8: "clog_recoder_file_open_file ex_disk p h7 = Some (CLOG_SUCCESS, p\<lparr>fp_log := Some \<lparr>cf_flags = log_file_flags, cf_fd = 3\<rparr>\<rparr>, h8)" by blast
  have at: "fa_log_dir ex_file_attr = Some ''/l/''" "fa_log_name ex_file_attr = Some ''a''"
      "fa_metainfo_path ex_file_attr \<noteq> None" "fa_split_type ex_file_attr \<noteq> CLOG_RECORDER_FILE_SPLIT_MAX"
    by (simp_all add: ex_file_attr_def)
  have "\<exists>p' h'. clog_recorder_file_init_param ex_disk ex_file_attr (clog_recorder_file_init_split ex_file_attr zero_param) h1 =
      Some (CLOG_SUCCESS, p', h')"
    using h2 h3 h4 h5 h6 h7 h8 at
    by (simp add: clog_recorder_file_init_param_def clog_interpolator_context_create_def result_handler_def Let_def)
  with h0 h1 at show ?thesis
    by (auto simp: clog_recorder_file_create_def clog_recorder_file_param_init_def)
qed


subsection \<open>Properties\<close>

text \<open>
  C39. A recorder for files as \<open>clog_recorder_file_create\<close> makes it never rotates, whatever split
  type and limit it was asked for: opening it changes nothing, and however many items it is
  handed, it never asks to be flushed and keeps its file, its index and its counters.
\<close>

theorem file_recorder_never_rotates:
  assumes "clog_recorder_file_create os attr h = Some (Some p, h')"
  shows "(\<forall>h1. clog_recorder_file_open os (Some p) h1 = Some (CLOG_SUCCESS, Some p, h1)) \<and>
    (\<forall>logs h1. \<exists>rs h2. file_run os logs p h1 = Some (rs, p, h2) \<and> CLOG_REQUEST_FLUSH \<notin> set rs)"
proof -
  have s: "fp_split_type p = CLOG_RECORDER_FILE_SPLIT_NONE" using create_split [OF assms] .
  then have "\<not> clog_recorder_file_need_flash os p h1" for h1 by (simp add: clog_recorder_file_need_flash_def)
  with run_no_split [OF s] show ?thesis by (simp add: clog_recorder_file_open_def)
qed

lemma file_recorder_never_rotates_witness:
  "\<exists>p h'. clog_recorder_file_create ex_disk (Some ex_file_attr) ex_unit_host = Some (Some p, h') \<and>
     (\<exists>rs h2. file_run ex_disk [] p h' = Some (rs, p, h2)) \<and> clog_recorder_file_open ex_disk (Some p) h' = Some (CLOG_SUCCESS, Some p, h')"
proof -
  obtain p h' where c: "clog_recorder_file_create ex_disk (Some ex_file_attr) ex_unit_host = Some (Some p, h')"
    using ex_file_create by blast
  from file_recorder_never_rotates [OF c] c show ?thesis by blast
qed

text \<open>
  C31. The limits, where a split type is in force: after any items that keep the counters in
  range, the next one makes the recorder ask for a flush exactly when the items, or the bytes,
  since the file was opened, this one included, reach the limit.
\<close>

theorem file_split_limits:
  "(fp_split_type p = CLOG_RECORDER_FILE_SPLIT_NUMBER \<and> unat (fp_current_item_num p) + length logs + 1 < 2 ^ 32 \<longrightarrow>
      (fst (clog_recorder_check_flush (counted logs p) log) = CLOG_REQUEST_FLUSH \<longleftrightarrow>
        unat (fp_max_item_num p) \<le> unat (fp_current_item_num p) + length logs + 1)) \<and>
   (fp_split_type p = CLOG_RECORDER_FILE_SPLIT_SIZE \<and>
      unat (fp_current_file_size p) + sum_list (List.map (\<lambda>log. unat (it_length log)) (logs @ [log])) < 2 ^ 64 \<longrightarrow>
      (fst (clog_recorder_check_flush (counted logs p) log) = CLOG_REQUEST_FLUSH \<longleftrightarrow>
        unat (fp_max_file_size p) \<le>
          unat (fp_current_file_size p) + sum_list (List.map (\<lambda>log. unat (it_length log)) (logs @ [log]))))"
proof (intro conjI impI)
  assume a: "fp_split_type p = CLOG_RECORDER_FILE_SPLIT_NUMBER \<and> unat (fp_current_item_num p) + length logs + 1 < 2 ^ 32"
  let ?q = "counted logs p"
  have q: "?q = p\<lparr>fp_current_item_num := fp_current_item_num ?q\<rparr>"
      "unat (fp_current_item_num ?q) = unat (fp_current_item_num p) + length logs"
    using counted_number [of p logs] a by simp_all
  have "fp_split_type ?q = fp_split_type p" "fp_max_item_num ?q = fp_max_item_num p" by (subst q(1), simp)+
  moreover have "unat (fp_current_item_num ?q + 1) = unat (fp_current_item_num p) + length logs + 1"
    using a q(2) by (simp add: unat_word_ariths)
  ultimately show "fst (clog_recorder_check_flush ?q log) = CLOG_REQUEST_FLUSH \<longleftrightarrow>
      unat (fp_max_item_num p) \<le> unat (fp_current_item_num p) + length logs + 1"
    using a by (simp add: clog_recorder_check_flush_def Let_def word_le_nat_alt)
next
  assume a: "fp_split_type p = CLOG_RECORDER_FILE_SPLIT_SIZE \<and>
      unat (fp_current_file_size p) + sum_list (List.map (\<lambda>log. unat (it_length log)) (logs @ [log])) < 2 ^ 64"
  let ?q = "counted logs p" and ?sum = "sum_list (List.map (\<lambda>log. unat (it_length log)) logs)"
  have q: "?q = p\<lparr>fp_current_file_size := fp_current_file_size ?q\<rparr>"
      "unat (fp_current_file_size ?q) = unat (fp_current_file_size p) + ?sum"
    using counted_size [of p logs] a by simp_all
  have "fp_split_type ?q = fp_split_type p" "fp_max_file_size ?q = fp_max_file_size p" by (subst q(1), simp)+
  moreover have "unat (ucast (it_length log) :: 64 word) = unat (it_length log)"
    using unsigned_less [of "it_length log", where 'a = nat] by (simp add: unsigned_ucast_eq take_bit_nat_eq_self)
  then have "unat (fp_current_file_size ?q + ucast (it_length log)) = unat (fp_current_file_size p) + ?sum + unat (it_length log)"
    using a q(2) by (simp add: unat_word_ariths)
  ultimately show "fst (clog_recorder_check_flush ?q log) = CLOG_REQUEST_FLUSH \<longleftrightarrow> unat (fp_max_file_size p) \<le>
      unat (fp_current_file_size p) + sum_list (List.map (\<lambda>log. unat (it_length log)) (logs @ [log]))"
    using a by (simp add: clog_recorder_check_flush_def Let_def word_le_nat_alt add.assoc)
qed

lemma file_split_limits_witness:
  "fst (clog_recorder_check_flush (counted [ex_log, ex_log]
     (zero_param\<lparr>fp_split_type := CLOG_RECORDER_FILE_SPLIT_NUMBER, fp_max_item_num := 3\<rparr>)) ex_log) = CLOG_REQUEST_FLUSH"
  using file_split_limits [of "zero_param\<lparr>fp_split_type := CLOG_RECORDER_FILE_SPLIT_NUMBER, fp_max_item_num := 3\<rparr>" "[ex_log, ex_log]" ex_log]
  by (simp add: zero_param_def)


definition ex_param :: "unit clog_recorder_file_param" where
  "ex_param = zero_param\<lparr>fp_dir_interpolator := Some (Some [Pure ''/l/'']), fp_file_interpolator := Some (Some [Pure ''a'']),
     fp_log := Some \<lparr>cf_flags = log_file_flags, cf_fd = 3\<rparr>, fp_metainfo_path := ''/m''\<rparr>"




end
