(* ===== verification/Mem_Pool.thy ===== *)
theory Mem_Pool
  imports Base
begin

text \<open>
  The memory pool (utils/clog_mem_pool.c): seven heaps of free blocks, of 8 to 512 bytes, each a
  linked list with a head and a tail. A pointer handed out is the address of its block, the
  header in front of the data. Reading or freeing a block that is not allocated is \<open>None\<close>, and
  so is a loop over a list that does not end. \<open>mb_room\<close> is the size of \<open>data\<close>, which the code
  does not store.
\<close>

subsection \<open>Blocks and heaps\<close>

datatype mem_where = CLOG_MEM_BLOCK_HEAP | CLOG_MEM_BLOCK_SYSTEM

record mem_block =
  mb_where :: mem_where
  mb_type :: nat
  mb_next :: addr
  mb_room :: nat

datatype clog_heap_state =
    CLOG_MP_HEAP_STATE_NOT_INIT | CLOG_MP_HEAP_STATE_RUNNING
  | CLOG_MP_HEAP_STATE_STOPPING | CLOG_MP_HEAP_STATE_TERMINATED

record mem_heap =
  mh_type :: nat
  mh_state :: clog_heap_state
  mh_used :: "32 word"
  mh_allocated :: "32 word"
  mh_head :: addr
  mh_tail :: addr

definition CLOG_MP_HEAP_TYPE_MAX :: nat where "CLOG_MP_HEAP_TYPE_MAX = 7"

definition CLOG_GET_HEAP_SIZE :: "nat \<Rightarrow> nat" where "CLOG_GET_HEAP_SIZE type = 2 ^ (type + 3)"

text \<open>The static array, as the program starts.\<close>

definition g_mem_heap :: "mem_heap list" where
  "g_mem_heap = replicate CLOG_MP_HEAP_TYPE_MAX
     \<lparr>mh_type = 0, mh_state = CLOG_MP_HEAP_STATE_NOT_INIT, mh_used = 0, mh_allocated = 0,
      mh_head = NULL, mh_tail = NULL\<rparr>"

subsection \<open>Operations\<close>

definition clog_mp_malloc_block :: "mem_where \<Rightarrow> nat \<Rightarrow> nat \<Rightarrow> mem_block heap \<Rightarrow> addr \<times> mem_block heap" where
  "clog_mp_malloc_block wh type n h =
     halloc \<lparr>mb_where = wh, mb_type = type, mb_next = NULL, mb_room = n\<rparr> h"

definition clog_malloc_system_block :: "nat \<Rightarrow> mem_block heap \<Rightarrow> addr \<times> mem_block heap" where
  "clog_malloc_system_block n h = clog_mp_malloc_block CLOG_MEM_BLOCK_SYSTEM CLOG_MP_HEAP_TYPE_MAX n h"

definition clog_malloc_heap_block :: "nat \<Rightarrow> mem_block heap \<Rightarrow> addr \<times> mem_block heap" where
  "clog_malloc_heap_block type h = clog_mp_malloc_block CLOG_MEM_BLOCK_HEAP type (CLOG_GET_HEAP_SIZE type) h"

text \<open>Put a block behind the tail.\<close>

definition append_block :: "addr \<Rightarrow> mem_heap \<Rightarrow> mem_block heap \<Rightarrow> (mem_heap \<times> mem_block heap) option" where
  "append_block b hp h =
     map_option (\<lambda>h. (hp\<lparr>mh_tail := b\<rparr>, h)) (hupd (mh_tail hp) (\<lambda>c. c\<lparr>mb_next := b\<rparr>) h)"

fun clog_mp_pre_allocated :: "nat \<Rightarrow> mem_heap \<Rightarrow> mem_block heap \<Rightarrow> (mem_heap \<times> mem_block heap) option" where
  "clog_mp_pre_allocated 0 hp h = Some (hp, h)"
| "clog_mp_pre_allocated (Suc n) hp h =
     (case clog_malloc_heap_block (mh_type hp) h of
        (b, h) \<Rightarrow>
          if b = NULL then Some (hp, h)
          else (case (if mh_head hp = NULL then Some (hp\<lparr>mh_head := b, mh_tail := b\<rparr>, h) else append_block b hp h) of
              None \<Rightarrow> None
            | Some (hp, h) \<Rightarrow> clog_mp_pre_allocated n (hp\<lparr>mh_allocated := mh_allocated hp + 1\<rparr>) h))"

definition init_heap :: "nat \<Rightarrow> mem_heap" where
  "init_heap i = \<lparr>mh_type = i, mh_state = CLOG_MP_HEAP_STATE_RUNNING, mh_used = 0, mh_allocated = 0,
     mh_head = NULL, mh_tail = NULL\<rparr>"

text \<open>The heaps and the number of blocks each level fills them with.\<close>

definition pre_allocated_list :: "nat \<Rightarrow> (nat \<times> nat) list" where
  "pre_allocated_list level =
     (if 1 \<le> level then [(0, 16), (1, 16), (2, 16)] else []) @
     (if 2 \<le> level then [(3, 8), (4, 8), (5, 8)] else []) @
     (if 3 \<le> level then [(6, 4)] else [])"

fun pre_allocate_all ::
    "(nat \<times> nat) list \<Rightarrow> mem_heap list \<Rightarrow> mem_block heap \<Rightarrow> (mem_heap list \<times> mem_block heap) option" where
  "pre_allocate_all [] hs h = Some (hs, h)"
| "pre_allocate_all ((i, n) # xs) hs h =
     (case clog_mp_pre_allocated n (hs ! i) h of
        None \<Rightarrow> None
      | Some (hp, h) \<Rightarrow> pre_allocate_all xs (hs[i := hp]) h)"

definition clog_mp_init :: "nat \<Rightarrow> mem_block heap \<Rightarrow> (mem_heap list \<times> mem_block heap) option" where
  "clog_mp_init level h =
     pre_allocate_all (pre_allocated_list level) (List.map init_heap [0..<CLOG_MP_HEAP_TYPE_MAX]) h"

definition clog_get_mem_heap :: "nat \<Rightarrow> nat option" where
  "clog_get_mem_heap n = List.find (\<lambda>i. n \<le> CLOG_GET_HEAP_SIZE i) [0..<CLOG_MP_HEAP_TYPE_MAX]"

definition clog_mp_acquire ::
    "nat \<Rightarrow> mem_heap list \<Rightarrow> mem_block heap \<Rightarrow> (addr \<times> mem_heap list \<times> mem_block heap) option" where
  "clog_mp_acquire n hs h =
     (if n = 0 then Some (NULL, hs, h)
      else
        (let system = (case clog_malloc_system_block n h of (b, h) \<Rightarrow> Some (b, hs, h)) in
         case clog_get_mem_heap n of
           None \<Rightarrow> system
         | Some i \<Rightarrow>
             (let hp = hs ! i in
              if mh_state hp \<noteq> CLOG_MP_HEAP_STATE_RUNNING then system
              else if mh_head hp = NULL then
                (case clog_malloc_heap_block (mh_type hp) h of
                   (b, h) \<Rightarrow>
                     if b = NULL then Some (NULL, hs, h)
                     else Some (b, hs[i := hp\<lparr>mh_allocated := mh_allocated hp + 1, mh_used := mh_used hp + 1\<rparr>], h))
              else
                (case cells h (mh_head hp) of
                   None \<Rightarrow> None
                 | Some c \<Rightarrow>
                     (let hp' = hp\<lparr>mh_used := mh_used hp + 1, mh_head := mb_next c\<rparr>;
                          hp' = (if mb_next c = NULL then hp'\<lparr>mh_tail := NULL\<rparr> else hp') in
                      Some (mh_head hp, hs[i := hp'], h))))))"

definition clog_mp_release ::
    "addr \<Rightarrow> mem_heap list \<Rightarrow> mem_block heap \<Rightarrow> (mem_heap list \<times> mem_block heap) option" where
  "clog_mp_release p hs h =
     (if p = NULL then Some (hs, h)
      else case cells h p of
          None \<Rightarrow> None
        | Some c \<Rightarrow>
            if mb_where c = CLOG_MEM_BLOCK_SYSTEM then map_option (\<lambda>h. (hs, h)) (hfree p h)
            else
              (let i = mb_type c; hp = hs ! i in
               if mh_state hp \<noteq> CLOG_MP_HEAP_STATE_RUNNING then
                 (let hp' =
                    (if mh_used hp = 0 then hp\<lparr>mh_state := CLOG_MP_HEAP_STATE_TERMINATED\<rparr>
                     else if mh_state hp = CLOG_MP_HEAP_STATE_STOPPING
                       then hp\<lparr>mh_used := mh_used hp - 1, mh_allocated := mh_allocated hp - 1\<rparr>
                     else hp)
                  in map_option (\<lambda>h. (hs[i := hp'], h)) (hfree p h))
               else if mh_tail hp = NULL then
                 Some (hs[i := hp\<lparr>mh_head := p, mh_tail := p, mh_used := mh_used hp - 1\<rparr>], h)
               else map_option (\<lambda>(hp, h). (hs[i := hp\<lparr>mh_used := mh_used hp - 1\<rparr>], h)) (append_block p hp h)))"

definition clog_mp_get_allocated_size :: "mem_heap list \<Rightarrow> nat" where
  "clog_mp_get_allocated_size hs =
     (if mh_state (hs ! 0) \<noteq> CLOG_MP_HEAP_STATE_RUNNING then 0
      else sum_list (List.map (\<lambda>hp. unat (mh_allocated hp)) hs))"

text \<open>The loop of \<open>clog_mp_clear\<close>: the number of blocks freed, and the memory.\<close>

partial_function (option) clear_loop :: "addr \<Rightarrow> 32 word \<Rightarrow> mem_block heap \<Rightarrow> (32 word \<times> mem_block heap) option" where
  "clear_loop b allocated h =
     (if b = NULL then Some (allocated, h)
      else case cells h b of
          None \<Rightarrow> None
        | Some c \<Rightarrow> (case hfree b h of None \<Rightarrow> None | Some h \<Rightarrow> clear_loop (mb_next c) (allocated - 1) h))"

definition clog_mp_clear :: "mem_heap \<Rightarrow> mem_block heap \<Rightarrow> (mem_heap \<times> mem_block heap) option" where
  "clog_mp_clear hp h =
     map_option (\<lambda>(allocated, h).
       (hp\<lparr>mh_allocated := allocated,
           mh_state := (if mh_used hp = 0 then CLOG_MP_HEAP_STATE_TERMINATED else CLOG_MP_HEAP_STATE_STOPPING)\<rparr>, h))
     (clear_loop (mh_head hp) (mh_allocated hp) h)"

fun clog_mp_finalize :: "mem_heap list \<Rightarrow> mem_block heap \<Rightarrow> (mem_heap list \<times> mem_block heap) option" where
  "clog_mp_finalize [] h = Some ([], h)"
| "clog_mp_finalize (hp # hs) h =
     (case clog_mp_clear hp h of
        None \<Rightarrow> None
      | Some (hp, h) \<Rightarrow> map_option (\<lambda>(hs, h). (hp # hs, h)) (clog_mp_finalize hs h))"


subsection \<open>Free lists\<close>

text \<open>
  \<open>chain C a bs e\<close>: following the pointers from \<open>a\<close> visits the blocks \<open>bs\<close> and ends at \<open>e\<close>.
  A free list is a chain to NULL of distinct blocks of the heap's size, the last one the tail.
\<close>

fun chain :: "(addr \<rightharpoonup> mem_block) \<Rightarrow> addr \<Rightarrow> addr list \<Rightarrow> addr \<Rightarrow> bool" where
  "chain C a [] e \<longleftrightarrow> a = e"
| "chain C a (b # bs) e \<longleftrightarrow> a = b \<and> b \<noteq> NULL \<and> (\<exists>c. C b = Some c \<and> chain C (mb_next c) bs e)"

definition free_block :: "nat \<Rightarrow> mem_block \<Rightarrow> bool" where
  "free_block i c \<longleftrightarrow> mb_where c = CLOG_MEM_BLOCK_HEAP \<and> mb_type c = i \<and> mb_room c = CLOG_GET_HEAP_SIZE i"

definition free_list :: "mem_block heap \<Rightarrow> mem_heap \<Rightarrow> addr list \<Rightarrow> bool" where
  "free_list h hp xs \<longleftrightarrow> chain (cells h) (mh_head hp) xs NULL \<and>
     mh_tail hp = (if xs = [] then NULL else last xs) \<and> distinct xs \<and>
     (\<forall>b \<in> set xs. \<exists>c. cells h b = Some c \<and> free_block (mh_type hp) c)"

definition pool_ok :: "(nat \<Rightarrow> addr list) \<Rightarrow> mem_heap list \<Rightarrow> mem_block heap \<Rightarrow> bool" where
  "pool_ok F hs h \<longleftrightarrow> heap_ok h \<and> length hs = CLOG_MP_HEAP_TYPE_MAX \<and>
     (\<forall>i < CLOG_MP_HEAP_TYPE_MAX. mh_type (hs ! i) = i \<and> mh_state (hs ! i) = CLOG_MP_HEAP_STATE_RUNNING \<and>
       free_list h (hs ! i) (F i))"

lemma block_chain_cong: "\<forall>b \<in> set bs. C' b = C b \<Longrightarrow> chain C' a bs e = chain C a bs e"
  by (induction bs arbitrary: a) auto

lemma chain_append: "chain C a (xs @ ys) e \<longleftrightarrow> (\<exists>b. chain C a xs b \<and> chain C b ys e)"
  by (induction xs arbitrary: a) auto

lemma chain_snoc_upd:
  assumes "chain C a (xs @ [b]) e" "distinct (xs @ [b])" "C b = Some c"
  shows "chain (C(b \<mapsto> c\<lparr>mb_next := d\<rparr>)) a (xs @ [b]) d"
  using assms block_chain_cong [of xs "C(b \<mapsto> c\<lparr>mb_next := d\<rparr>)" C a b] by (auto simp: chain_append)

lemma chain_last_upd:
  assumes "chain C a xs e" "xs \<noteq> []" "distinct xs" "C (last xs) = Some c"
  shows "chain (C(last xs \<mapsto> c\<lparr>mb_next := d\<rparr>)) a xs d"
  using chain_snoc_upd [of C a "butlast xs" "last xs" e c d] assms by simp

lemma free_list_head: "free_list h hp xs \<Longrightarrow> mh_head hp = NULL \<longleftrightarrow> xs = []"
  by (cases xs) (auto simp: free_list_def)

lemma free_list_cells:
  assumes "free_list h hp xs" "\<forall>b \<in> set xs. cells h' b = cells h b"
  shows "free_list h' hp xs"
  using assms block_chain_cong [OF assms(2)] by (auto simp: free_list_def)

lemma free_list_fresh: "free_list h hp xs \<Longrightarrow> cells h b = None \<Longrightarrow> b \<notin> set xs"
  by (auto simp: free_list_def)

lemma free_list_fields:
  "mh_head hp' = mh_head hp \<Longrightarrow> mh_tail hp' = mh_tail hp \<Longrightarrow> mh_type hp' = mh_type hp \<Longrightarrow>
   free_list h hp' xs = free_list h hp xs"
  by (simp add: free_list_def)

text \<open>A block whose own pointer is NULL is appended; the rest of the memory is as before.\<close>

lemma free_list_append:
  assumes "free_list h hp xs" "xs \<noteq> []" "b \<notin> set xs" "b \<noteq> NULL"
    "cells h b = Some c" "mb_next c = NULL" "free_block (mh_type hp) c"
  obtains d where "append_block b hp h =
      Some (hp\<lparr>mh_tail := b\<rparr>, h\<lparr>cells := (cells h)(last xs \<mapsto> d\<lparr>mb_next := b\<rparr>)\<rparr>)" "cells h (last xs) = Some d"
    "free_list (h\<lparr>cells := (cells h)(last xs \<mapsto> d\<lparr>mb_next := b\<rparr>)\<rparr>) (hp\<lparr>mh_tail := b\<rparr>) (xs @ [b])"
proof -
  obtain d where d: "cells h (last xs) = Some d" "free_block (mh_type hp) d"
    using assms(1) last_in_set [OF assms(2)] unfolding free_list_def by blast
  let ?C = "(cells h)(last xs \<mapsto> d\<lparr>mb_next := b\<rparr>)"
  have "chain ?C (mh_head hp) xs b"
    using chain_last_upd [of "cells h" "mh_head hp" xs NULL d b] assms(1,2) d
    by (simp add: free_list_def)
  moreover have "b \<noteq> last xs" using assms(2,3) last_in_set by metis
  ultimately have "chain ?C (mh_head hp) (xs @ [b]) NULL" using assms(4-6) by (auto simp: chain_append)
  moreover have "\<forall>x \<in> set (xs @ [b]). \<exists>c. ?C x = Some c \<and> free_block (mh_type hp) c"
    using assms(1,5,7) d(2) by (auto simp: free_list_def free_block_def)
  ultimately have "free_list (h\<lparr>cells := ?C\<rparr>) (hp\<lparr>mh_tail := b\<rparr>) (xs @ [b])"
    using assms(1,3) by (simp add: free_list_def)
  moreover have "append_block b hp h = Some (hp\<lparr>mh_tail := b\<rparr>, h\<lparr>cells := ?C\<rparr>)"
    using assms(1,2) d(1) by (simp add: append_block_def free_list_def hupd_Some)
  ultimately show ?thesis using that d(1) by blast
qed

text \<open>Filling a heap appends new blocks.\<close>

lemma pre_allocated_spec:
  assumes "heap_ok h" "free_list h hp xs"
  shows "\<exists>hp' h' ys. clog_mp_pre_allocated n hp h = Some (hp', h') \<and> heap_ok h' \<and> free_list h' hp' (xs @ ys) \<and>
    mh_type hp' = mh_type hp \<and> mh_state hp' = mh_state hp \<and> mh_used hp' = mh_used hp \<and> live h' = live h + int (length ys) \<and>
    (\<forall>b. cells h b \<noteq> None \<and> b \<notin> set xs \<longrightarrow> cells h' b = cells h b)"
  using assms
proof (induction n arbitrary: hp h xs)
  case 0
  then show ?case by (intro exI [of _ hp] exI [of _ h] exI [of _ "[]"]) simp
next
  case (Suc n)
  let ?c = "\<lparr>mb_where = CLOG_MEM_BLOCK_HEAP, mb_type = mh_type hp, mb_next = NULL, mb_room = CLOG_GET_HEAP_SIZE (mh_type hp)\<rparr>"
  obtain b h1 where a: "halloc ?c h = (b, h1)" by (metis surj_pair)
  have blk: "clog_malloc_heap_block (mh_type hp) h = (b, h1)"
    using a by (simp add: clog_malloc_heap_block_def clog_mp_malloc_block_def)
  from a show ?case
  proof (cases rule: halloc_cases)
    case fail
    with blk Suc.prems heap_ok_halloc [OF Suc.prems(1) a] free_list_cells [OF Suc.prems(2), of h1] show ?thesis
      by (intro exI [of _ hp] exI [of _ h1] exI [of _ "[]"]) simp
  next
    case ok
    have b: "b \<noteq> NULL" "cells h b = None" using Suc.prems(1) ok(1) heap_ok_brk by (auto simp: heap_ok_def)
    then have new: "b \<notin> set xs" using free_list_fresh [OF Suc.prems(2)] by blast
    have cb: "cells h1 b = Some ?c" using ok by simp
    have l1: "free_list h1 hp xs"
      by (rule free_list_cells [OF Suc.prems(2)]) (use ok new in \<open>auto simp: fun_upd_apply\<close>)
    have h1: "heap_ok h1" using heap_ok_halloc [OF Suc.prems(1) a] .
    obtain hp2 h2 where st: "(if mh_head hp = NULL then Some (hp\<lparr>mh_head := b, mh_tail := b\<rparr>, h1) else append_block b hp h1)
        = Some (hp2, h2)" "free_list h2 hp2 (xs @ [b])" "heap_ok h2" "mh_type hp2 = mh_type hp" "mh_state hp2 = mh_state hp" "mh_used hp2 = mh_used hp"
        "live h2 = live h1" "\<forall>x. x \<notin> set xs \<longrightarrow> cells h2 x = cells h1 x"
    proof (cases "xs = []")
      case True
      with l1 cb b(1) h1 that [of "hp\<lparr>mh_head := b, mh_tail := b\<rparr>" h1] show ?thesis
        by (auto simp: free_list_def free_block_def)
    next
      case False
      from free_list_append [OF l1 False new b(1) cb] obtain d where d:
        "append_block b hp h1 = Some (hp\<lparr>mh_tail := b\<rparr>, h1\<lparr>cells := (cells h1)(last xs \<mapsto> d\<lparr>mb_next := b\<rparr>)\<rparr>)"
        "cells h1 (last xs) = Some d"
        "free_list (h1\<lparr>cells := (cells h1)(last xs \<mapsto> d\<lparr>mb_next := b\<rparr>)\<rparr>) (hp\<lparr>mh_tail := b\<rparr>) (xs @ [b])"
        by (auto simp: free_block_def)
      moreover have "heap_ok (h1\<lparr>cells := (cells h1)(last xs \<mapsto> d\<lparr>mb_next := b\<rparr>)\<rparr>)"
        using h1 d(2) by (auto simp: heap_ok_def)
      ultimately show ?thesis
        using that [of "hp\<lparr>mh_tail := b\<rparr>" "h1\<lparr>cells := (cells h1)(last xs \<mapsto> d\<lparr>mb_next := b\<rparr>)\<rparr>"] False
          free_list_head [OF l1] by (auto simp: fun_upd_apply)
    qed
    let ?hp = "hp2\<lparr>mh_allocated := mh_allocated hp2 + 1\<rparr>"
    from Suc.IH [OF st(3), of ?hp "xs @ [b]"] st(2) free_list_fields [of ?hp hp2]
    obtain hp' h' ys where r: "clog_mp_pre_allocated n ?hp h2 = Some (hp', h')" "heap_ok h'" "free_list h' hp' ((xs @ [b]) @ ys)"
      "mh_type hp' = mh_type ?hp" "mh_state hp' = mh_state ?hp \<and> mh_used hp' = mh_used ?hp" "live h' = live h2 + int (length ys)"
      "\<forall>x. cells h2 x \<noteq> None \<and> x \<notin> set (xs @ [b]) \<longrightarrow> cells h' x = cells h2 x" by auto
    have keep: "cells h' x = cells h x" if "cells h x \<noteq> None" "x \<notin> set xs" for x
    proof -
      have "x \<noteq> b" using that(1) b(2) by auto
      then have "cells h1 x = cells h x" using ok(1,2) by simp
      then have "cells h2 x = cells h x" using st(8) that(2) by simp
      then show ?thesis using r(7) that \<open>x \<noteq> b\<close> by simp
    qed
    from r st blk b(1) ok(4) keep show ?thesis
      by (intro exI [of _ hp'] exI [of _ h'] exI [of _ "b # ys"]) simp
  qed
qed


lemma pool_ok_list:
  "pool_ok F hs h \<Longrightarrow> i < CLOG_MP_HEAP_TYPE_MAX \<Longrightarrow> mh_type (hs ! i) = i \<and>
   mh_state (hs ! i) = CLOG_MP_HEAP_STATE_RUNNING \<and> free_list h (hs ! i) (F i) \<and> i < length hs"
  by (simp add: pool_ok_def)

lemma pool_ok_nonnull:
  assumes "pool_ok F hs h" "i < CLOG_MP_HEAP_TYPE_MAX"
  shows "NULL \<notin> set (F i)"
proof
  assume "NULL \<in> set (F i)"
  then have "cells h NULL \<noteq> None" using pool_ok_list [OF assms] by (auto simp: free_list_def)
  with assms(1) heap_ok_null [of h] show False by (auto simp: pool_ok_def)
qed

text \<open>The free lists of different heaps have no block in common.\<close>

lemma pool_ok_disjoint:
  assumes "pool_ok F hs h" "i < CLOG_MP_HEAP_TYPE_MAX" "j < CLOG_MP_HEAP_TYPE_MAX" "i \<noteq> j" "b \<in> set (F i)"
  shows "b \<notin> set (F j)"
  using assms pool_ok_list [OF assms(1,2)] pool_ok_list [OF assms(1,3)]
  by (fastforce simp: free_list_def free_block_def)

lemma pool_ok_update:
  assumes "pool_ok F hs h" "i < CLOG_MP_HEAP_TYPE_MAX" "heap_ok h'" "mh_type hp = i"
    "mh_state hp = CLOG_MP_HEAP_STATE_RUNNING" "free_list h' hp ys"
    "\<forall>b. cells h b \<noteq> None \<and> b \<notin> set (F i) \<longrightarrow> cells h' b = cells h b"
  shows "pool_ok (F(i := ys)) (hs[i := hp]) h'"
proof -
  have "free_list h' (hs ! j) (F j)" if j: "j < CLOG_MP_HEAP_TYPE_MAX" "j \<noteq> i" for j
  proof (rule free_list_cells)
    show fl: "free_list h (hs ! j) (F j)" using pool_ok_list [OF assms(1) j(1)] by simp
    show "\<forall>b \<in> set (F j). cells h' b = cells h b"
    proof
      fix b assume "b \<in> set (F j)"
      moreover from this have "b \<notin> set (F i)" using pool_ok_disjoint [OF assms(1) j(1) assms(2) j(2)] by blast
      moreover have "cells h b \<noteq> None" using fl \<open>b \<in> set (F j)\<close> by (auto simp: free_list_def)
      ultimately show "cells h' b = cells h b" using assms(7) by blast
    qed
  qed
  with assms show ?thesis by (auto simp: pool_ok_def nth_list_update)
qed

definition free_count :: "(nat \<Rightarrow> addr list) \<Rightarrow> int" where
  "free_count F = int (sum_list (List.map (\<lambda>i. length (F i)) [0..<CLOG_MP_HEAP_TYPE_MAX]))"

lemma free_count_update:
  "i < CLOG_MP_HEAP_TYPE_MAX \<Longrightarrow> free_count (F(i := xs)) = free_count F - int (length (F i)) + int (length xs)"
  by (auto simp: free_count_def CLOG_MP_HEAP_TYPE_MAX_def less_Suc_eq upt_rec eval_nat_numeral)

definition unused :: "mem_heap list \<Rightarrow> bool" where
  "unused hs \<longleftrightarrow> (\<forall>hp \<in> set hs. mh_used hp = 0)"

lemma pre_allocate_all_spec:
  assumes "pool_ok F hs h" "unused hs" "\<forall>(i, n) \<in> set xs. i < CLOG_MP_HEAP_TYPE_MAX"
  shows "\<exists>F' hs' h'. pre_allocate_all xs hs h = Some (hs', h') \<and> pool_ok F' hs' h' \<and> unused hs' \<and>
    live h' - free_count F' = live h - free_count F"
  using assms
proof (induction xs arbitrary: F hs h)
  case (Cons x xs)
  obtain i n where x: "x = (i, n)" by (cases x)
  with Cons.prems have i: "i < CLOG_MP_HEAP_TYPE_MAX" by simp
  note pl = pool_ok_list [OF Cons.prems(1) i]
  then have u: "mh_used (hs ! i) = 0" using Cons.prems(2) nth_mem [of i hs] by (simp add: unused_def)
  have "heap_ok h" using Cons.prems(1) by (simp add: pool_ok_def)
  from pre_allocated_spec [OF this, of "hs ! i" "F i" n] pl u obtain hp' h' ys where r:
    "clog_mp_pre_allocated n (hs ! i) h = Some (hp', h')" "heap_ok h'" "free_list h' hp' (F i @ ys)"
    "mh_type hp' = i" "mh_state hp' = CLOG_MP_HEAP_STATE_RUNNING" "live h' = live h + int (length ys)"
    "\<forall>b. cells h b \<noteq> None \<and> b \<notin> set (F i) \<longrightarrow> cells h' b = cells h b" "mh_used hp' = 0" by auto
  have "pool_ok (F(i := F i @ ys)) (hs[i := hp']) h'"
    by (rule pool_ok_update [OF Cons.prems(1) i r(2,4,5,3,7)])
  moreover have "unused (hs[i := hp'])"
    using Cons.prems(2) r(8) set_update_subset_insert [of hs i hp'] by (auto simp: unused_def)
  moreover have "\<forall>(i, n) \<in> set xs. i < CLOG_MP_HEAP_TYPE_MAX" using Cons.prems(3) by simp
  ultimately obtain F'' hs'' h'' where "pre_allocate_all xs (hs[i := hp']) h' = Some (hs'', h'')" "pool_ok F'' hs'' h''"
      "unused hs''" "live h'' - free_count F'' = live h' - free_count (F(i := F i @ ys))"
    using Cons.IH [of "F(i := F i @ ys)" "hs[i := hp']" h'] by blast
  with x r(1,6) show ?case by (auto simp: free_count_update [OF i])
qed auto

lemma init_pool:
  assumes "heap_ok h"
  shows "pool_ok (\<lambda>_. []) (List.map init_heap [0..<CLOG_MP_HEAP_TYPE_MAX]) h"
    "unused (List.map init_heap [0..<CLOG_MP_HEAP_TYPE_MAX])"
  using assms by (simp_all add: pool_ok_def init_heap_def free_list_def unused_def)

lemma mp_init_spec:
  assumes "heap_ok h"
  shows "\<exists>F hs h'. clog_mp_init level h = Some (hs, h') \<and> pool_ok F hs h' \<and> unused hs \<and> live h' = live h + free_count F"
  using pre_allocate_all_spec [OF init_pool [OF assms], of "pre_allocated_list level"]
  by (fastforce simp: clog_mp_init_def pre_allocated_list_def CLOG_MP_HEAP_TYPE_MAX_def free_count_def)

lemma get_mem_heap:
  "clog_get_mem_heap n = Some i \<Longrightarrow> i < CLOG_MP_HEAP_TYPE_MAX \<and> n \<le> CLOG_GET_HEAP_SIZE i \<and> (\<forall>j < i. CLOG_GET_HEAP_SIZE j < n)"
  by (auto simp: clog_get_mem_heap_def find_Some_iff CLOG_MP_HEAP_TYPE_MAX_def not_le)

text \<open>One acquisition from a sound pool.\<close>

lemma mp_acquire_spec:
  assumes "pool_ok F hs h"
  shows "\<exists>p hs' h' F'. clog_mp_acquire n hs h = Some (p, hs', h') \<and> pool_ok F' hs' h' \<and>
    (p = NULL \<longrightarrow> n = 0 \<or> (\<exists>t. \<not> grants h t)) \<and>
    (p \<noteq> NULL \<longrightarrow> n \<noteq> 0 \<and> (\<exists>c. cells h' p = Some c \<and> n \<le> mb_room c) \<and>
      (cells h p = None \<or> (\<exists>i < CLOG_MP_HEAP_TYPE_MAX. p \<in> set (F i)))) \<and>
    (\<forall>i < CLOG_MP_HEAP_TYPE_MAX. set (F' i) \<subseteq> set (F i) \<and> p \<notin> set (F' i)) \<and>
    (\<forall>b. cells h b \<noteq> None \<longrightarrow> cells h' b = cells h b) \<and> grants h' = grants h"
proof -
  have hok: "heap_ok h" using assms by (simp add: pool_ok_def)
  have nul: "NULL \<notin> set (F i)" if "i < CLOG_MP_HEAP_TYPE_MAX" for i
    by (rule pool_ok_nonnull [OF assms that])
  show ?thesis
  proof (cases "n = 0")
    case True
    then show ?thesis using assms nul by (auto simp: clog_mp_acquire_def)
  next
    case n: False
    have fresh: "\<exists>p h'. clog_mp_malloc_block wh type room h = (p, h') \<and> heap_ok h' \<and>
        (p = NULL \<longrightarrow> (\<exists>t. \<not> grants h t)) \<and>
        (p \<noteq> NULL \<longrightarrow> cells h p = None \<and> (\<exists>c. cells h' p = Some c \<and> k \<le> mb_room c)) \<and>
        (\<forall>b. cells h b \<noteq> None \<longrightarrow> cells h' b = cells h b) \<and> grants h' = grants h" if "k \<le> room" for wh type room k
    proof (cases "grants h (tick h)")
      case True
      moreover have "brk h \<noteq> NULL" using hok by (simp add: heap_ok_def)
      ultimately show ?thesis using that heap_ok_halloc [OF hok] heap_ok_brk [OF hok]
        by (auto simp: clog_mp_malloc_block_def halloc_granted)
    next
      case False
      with hok heap_ok_halloc [OF hok] show ?thesis by (auto simp: clog_mp_malloc_block_def halloc_refused)
    qed
    have keep: "pool_ok F hs h'" if "heap_ok h'" "\<forall>b. cells h b \<noteq> None \<longrightarrow> cells h' b = cells h b" for h'
    proof -
      have "free_list h' (hs ! i) (F i)" if "i < CLOG_MP_HEAP_TYPE_MAX" for i
      proof -
        have fl: "free_list h (hs ! i) (F i)" using pool_ok_list [OF assms that] by simp
        then have "\<forall>b \<in> set (F i). cells h b \<noteq> None" by (auto simp: free_list_def)
        then have "\<forall>b \<in> set (F i). cells h' b = cells h b"
          using \<open>\<forall>b. cells h b \<noteq> None \<longrightarrow> cells h' b = cells h b\<close> by blast
        with fl show ?thesis by (rule free_list_cells)
      qed
      with assms that(1) show ?thesis by (simp add: pool_ok_def)
    qed
    have out: "p \<notin> set (F i)" if "cells h p = None" "i < CLOG_MP_HEAP_TYPE_MAX" for p i
      using free_list_fresh pool_ok_list [OF assms that(2)] that(1) by blast
    show ?thesis
    proof (cases "clog_get_mem_heap n")
      case None
      from fresh [of n n CLOG_MEM_BLOCK_SYSTEM CLOG_MP_HEAP_TYPE_MAX] obtain p h' where sys:
        "clog_malloc_system_block n h = (p, h')" "heap_ok h'" "p = NULL \<longrightarrow> (\<exists>t. \<not> grants h t)"
        "p \<noteq> NULL \<longrightarrow> cells h p = None \<and> (\<exists>c. cells h' p = Some c \<and> n \<le> mb_room c)"
        "\<forall>b. cells h b \<noteq> None \<longrightarrow> cells h' b = cells h b" "grants h' = grants h"
        unfolding clog_malloc_system_block_def by blast
      have "clog_mp_acquire n hs h = Some (p, hs, h')" using n None sys(1) by (simp add: clog_mp_acquire_def)
      with keep [OF sys(2,5)] sys n nul out show ?thesis by (intro exI [of _ p] exI [of _ hs] exI [of _ h'] exI [of _ F]) auto
    next
      case (Some i)
      note gi = get_mem_heap [OF Some]
      then have i: "i < CLOG_MP_HEAP_TYPE_MAX" by simp
      note pl = pool_ok_list [OF assms i]
      show ?thesis
      proof (cases "F i")
        case Nil
        then have hd0: "mh_head (hs ! i) = NULL" using pl free_list_head by auto
        have "n \<le> CLOG_GET_HEAP_SIZE i" using gi by simp
        from fresh [OF this, of CLOG_MEM_BLOCK_HEAP i] obtain p h' where b:
          "clog_malloc_heap_block i h = (p, h')" "heap_ok h'" "p = NULL \<longrightarrow> (\<exists>t. \<not> grants h t)"
          "p \<noteq> NULL \<longrightarrow> cells h p = None \<and> (\<exists>c. cells h' p = Some c \<and> n \<le> mb_room c)"
          "\<forall>b. cells h b \<noteq> None \<longrightarrow> cells h' b = cells h b" "grants h' = grants h"
          unfolding clog_malloc_heap_block_def by blast
        let ?hp = "(hs ! i)\<lparr>mh_allocated := mh_allocated (hs ! i) + 1, mh_used := mh_used (hs ! i) + 1\<rparr>"
        have k: "pool_ok F hs h'" by (rule keep [OF b(2,5)])
        have "pool_ok (F(i := F i)) (hs[i := ?hp]) h'"
          by (rule pool_ok_update [OF k i b(2)])
            (use pool_ok_list [OF k i] free_list_fields [of ?hp "hs ! i"] in auto)
        then have "pool_ok F (hs[i := ?hp]) h'" by simp
        moreover have "clog_mp_acquire n hs h = Some (p, (if p = NULL then hs else hs[i := ?hp]), h')"
          using n Some pl hd0 b(1) by (simp add: clog_mp_acquire_def Let_def)
        ultimately show ?thesis using k b n nul out
          by (intro exI [of _ p] exI [of _ "if p = NULL then hs else hs[i := ?hp]"] exI [of _ h'] exI [of _ F]) auto
      next
        case (Cons b bs)
        then obtain c where c: "cells h b = Some c" "free_block i c" "mh_head (hs ! i) = b" "b \<noteq> NULL"
            "chain (cells h) (mb_next c) bs NULL"
          using pl by (auto simp: free_list_def)
        let ?hp = "let hp = (hs ! i)\<lparr>mh_used := mh_used (hs ! i) + 1, mh_head := mb_next c\<rparr>
                   in if mb_next c = NULL then hp\<lparr>mh_tail := NULL\<rparr> else hp"
        have nx: "mb_next c = NULL \<longleftrightarrow> bs = []" using c(5) by (cases bs) auto
        have fl: "free_list h ?hp bs" using pl Cons c nx by (auto simp: free_list_def Let_def)
        have p: "pool_ok (F(i := bs)) (hs[i := ?hp]) h"
          by (rule pool_ok_update [OF assms i hok]) (use pl fl in \<open>auto simp: Let_def\<close>)
        have nin: "b \<notin> set bs" "\<And>j. j < CLOG_MP_HEAP_TYPE_MAX \<Longrightarrow> j \<noteq> i \<Longrightarrow> b \<notin> set (F j)"
          using pl Cons pool_ok_disjoint [OF assms i, of _ b] by (auto simp: free_list_def)
        have "clog_mp_acquire n hs h = Some (b, hs[i := ?hp], h)"
          using n Some pl c by (simp add: clog_mp_acquire_def Let_def)
        with p nin c gi Cons n i show ?thesis
          by (intro exI [of _ b] exI [of _ "hs[i := ?hp]"] exI [of _ h] exI [of _ "F(i := bs)"])
            (auto simp: free_block_def)
      qed
    qed
  qed
qed


subsection \<open>Sequences of acquisitions\<close>

fun acquire_all ::
    "nat list \<Rightarrow> mem_heap list \<Rightarrow> mem_block heap \<Rightarrow> (addr list \<times> mem_heap list \<times> mem_block heap) option" where
  "acquire_all [] hs h = Some ([], hs, h)"
| "acquire_all (n # ns) hs h =
     (case clog_mp_acquire n hs h of
        None \<Rightarrow> None
      | Some (p, hs, h) \<Rightarrow> map_option (\<lambda>(ps, hs, h). (p # ps, hs, h)) (acquire_all ns hs h))"

lemma acquire_all_spec:
  assumes "pool_ok F hs h" "\<forall>u \<in> U. cells h u \<noteq> None \<and> (\<forall>i < CLOG_MP_HEAP_TYPE_MAX. u \<notin> set (F i))"
  shows "\<exists>ps hs' h' F'. acquire_all ns hs h = Some (ps, hs', h') \<and> pool_ok F' hs' h' \<and>
    distinct (filter (\<lambda>p. p \<noteq> NULL) ps) \<and> set (filter (\<lambda>p. p \<noteq> NULL) ps) \<inter> U = {} \<and>
    list_all2 (\<lambda>n p. p \<noteq> NULL \<longrightarrow> (\<exists>c. cells h' p = Some c \<and> n \<le> mb_room c)) ns ps \<and>
    ((\<forall>t. grants h t) \<and> 0 \<notin> set ns \<longrightarrow> NULL \<notin> set ps) \<and> (\<forall>b. cells h b \<noteq> None \<longrightarrow> cells h' b = cells h b)"
  using assms
proof (induction ns arbitrary: F hs h U)
  case Nil
  then show ?case by auto
next
  case (Cons n ns)
  from mp_acquire_spec [OF Cons.prems(1), of n] obtain p hs1 h1 F1 where a:
    "clog_mp_acquire n hs h = Some (p, hs1, h1)" "pool_ok F1 hs1 h1" "p = NULL \<longrightarrow> n = 0 \<or> (\<exists>t. \<not> grants h t)"
    "p \<noteq> NULL \<longrightarrow> (\<exists>c. cells h1 p = Some c \<and> n \<le> mb_room c) \<and>
      (cells h p = None \<or> (\<exists>i < CLOG_MP_HEAP_TYPE_MAX. p \<in> set (F i)))"
    "\<forall>i < CLOG_MP_HEAP_TYPE_MAX. set (F1 i) \<subseteq> set (F i) \<and> p \<notin> set (F1 i)"
    "\<forall>b. cells h b \<noteq> None \<longrightarrow> cells h1 b = cells h b" "grants h1 = grants h" by blast
  let ?U = "U \<union> (if p = NULL then {} else {p})"
  have "\<forall>u \<in> ?U. cells h1 u \<noteq> None \<and> (\<forall>i < CLOG_MP_HEAP_TYPE_MAX. u \<notin> set (F1 i))"
    using Cons.prems(2) a(4,5,6) by (auto split: if_splits)
  from Cons.IH [OF a(2) this] obtain ps hs2 h2 F2 where r:
    "acquire_all ns hs1 h1 = Some (ps, hs2, h2)" "pool_ok F2 hs2 h2" "distinct (filter (\<lambda>p. p \<noteq> NULL) ps)"
    "set (filter (\<lambda>p. p \<noteq> NULL) ps) \<inter> ?U = {}"
    "list_all2 (\<lambda>n p. p \<noteq> NULL \<longrightarrow> (\<exists>c. cells h2 p = Some c \<and> n \<le> mb_room c)) ns ps"
    "(\<forall>t. grants h1 t) \<and> 0 \<notin> set ns \<longrightarrow> NULL \<notin> set ps" "\<forall>b. cells h1 b \<noteq> None \<longrightarrow> cells h2 b = cells h1 b" by blast
  have "p \<noteq> NULL \<longrightarrow> p \<notin> U" using a(4) Cons.prems(2) by auto
  moreover have "p \<noteq> NULL \<longrightarrow> (\<exists>c. cells h2 p = Some c \<and> n \<le> mb_room c)" using a(4) r(7) by force
  moreover have "\<forall>b. cells h b \<noteq> None \<longrightarrow> cells h2 b = cells h b" using a(6) r(7) by fastforce
  moreover have "(\<forall>t. grants h t) \<and> 0 \<notin> set (n # ns) \<longrightarrow> NULL \<notin> set (p # ps)" using a(3,7) r(6) by auto
  moreover have "acquire_all (n # ns) hs h = Some (p # ps, hs2, h2)" using a(1) r(1) by simp
  moreover have "distinct (filter (\<lambda>p. p \<noteq> NULL) (p # ps))" "p \<noteq> NULL \<longrightarrow> p \<notin> set ps"
    using r(3,4) by (auto split: if_splits)
  moreover have "set (filter (\<lambda>p. p \<noteq> NULL) (p # ps)) \<inter> U = {}" using r(4) calculation(1) by auto
  ultimately show ?case using r(2,5)
    by (intro exI [of _ "p # ps"] exI [of _ hs2] exI [of _ h2] exI [of _ F2]) auto
qed

subsection \<open>Giving everything back\<close>

lemma clear_loop_spec:
  "\<lbrakk>chain (cells h) a xs NULL; distinct xs\<rbrakk> \<Longrightarrow>
   \<exists>h'. clear_loop a n h = Some (n - of_nat (length xs), h') \<and> live h' = live h - int (length xs) \<and>
     cells h' = (cells h) |` (- set xs)"
proof (induction xs arbitrary: a n h)
  case Nil
  then show ?case by (subst clear_loop.simps) (simp add: restrict_map_def)
next
  case (Cons b xs)
  then obtain c where c: "a = b" "b \<noteq> NULL" "cells h b = Some c" "chain (cells h) (mb_next c) xs NULL" by auto
  let ?h = "(clog_free h)\<lparr>cells := (cells h)(b := None)\<rparr>"
  have "chain (cells ?h) (mb_next c) xs NULL"
    using c(4) block_chain_cong [of xs "cells ?h" "cells h"] Cons.prems(2) by auto
  moreover have "distinct xs" using Cons.prems(2) by simp
  ultimately obtain h' where
    "clear_loop (mb_next c) (n - 1) ?h = Some (n - 1 - of_nat (length xs), h')"
    "live h' = live ?h - int (length xs)" "cells h' = cells ?h |` (- set xs)"
    using Cons.IH by blast
  then show ?case using c
    by (subst clear_loop.simps)
      (auto simp: hfree_Some clog_free_def fun_eq_iff restrict_map_def algebra_simps)
qed

lemma finalize_spec:
  assumes "\<forall>i < length hs. free_list h (hs ! i) (G i)"
    "\<forall>i < length hs. \<forall>j < length hs. i \<noteq> j \<longrightarrow> set (G i) \<inter> set (G j) = {}"
  shows "\<exists>hs' h'. clog_mp_finalize hs h = Some (hs', h') \<and>
    live h' = live h - int (sum_list (List.map (\<lambda>i. length (G i)) [0..<length hs])) \<and>
    list_all2 (\<lambda>hp hp'. mh_state hp' = (if mh_used hp = 0 then CLOG_MP_HEAP_STATE_TERMINATED else CLOG_MP_HEAP_STATE_STOPPING)) hs hs' \<and>
    (\<forall>b. cells h b \<noteq> None \<and> (\<forall>i < length hs. b \<notin> set (G i)) \<longrightarrow> cells h' b = cells h b)"
  using assms
proof (induction hs arbitrary: h G)
  case (Cons hp hs)
  have fl: "free_list h hp (G 0)" using Cons.prems(1) by force
  then obtain h1 where h1: "clear_loop (mh_head hp) (mh_allocated hp) h = Some (mh_allocated hp - of_nat (length (G 0)), h1)"
      "live h1 = live h - int (length (G 0))" "cells h1 = cells h |` (- set (G 0))"
    using clear_loop_spec [of h "mh_head hp" "G 0" "mh_allocated hp"] by (auto simp: free_list_def)
  have other: "free_list h (hs ! i) (G (Suc i)) \<and> set (G 0) \<inter> set (G (Suc i)) = {}" if "i < length hs" for i
    using that Cons.prems(1) [rule_format, of "Suc i"] Cons.prems(2) [rule_format, of 0 "Suc i"] by simp
  have "\<forall>i < length hs. free_list h1 (hs ! i) (G (Suc i))"
  proof (intro allI impI)
    fix i assume "i < length hs"
    with other have "free_list h (hs ! i) (G (Suc i))" "set (G 0) \<inter> set (G (Suc i)) = {}" by auto
    moreover from this(2) have "\<forall>b \<in> set (G (Suc i)). cells h1 b = cells h b"
      unfolding h1(3) by (auto simp: restrict_map_def)
    ultimately show "free_list h1 (hs ! i) (G (Suc i))" using free_list_cells by blast
  qed
  moreover have "\<forall>i < length hs. \<forall>j < length hs. i \<noteq> j \<longrightarrow> set (G (Suc i)) \<inter> set (G (Suc j)) = {}"
    using Cons.prems(2) by auto
  ultimately obtain hs' h' where r: "clog_mp_finalize hs h1 = Some (hs', h')"
      "live h' = live h1 - int (sum_list (List.map (\<lambda>i. length (G (Suc i))) [0..<length hs]))"
      "list_all2 (\<lambda>hp hp'. mh_state hp' = (if mh_used hp = 0 then CLOG_MP_HEAP_STATE_TERMINATED else CLOG_MP_HEAP_STATE_STOPPING)) hs hs'"
      "\<forall>b. cells h1 b \<noteq> None \<and> (\<forall>i < length hs. b \<notin> set (G (Suc i))) \<longrightarrow> cells h' b = cells h1 b"
    using Cons.IH [of h1 "\<lambda>i. G (Suc i)"] by blast
  have sum: "sum_list (List.map (\<lambda>i. length (G i)) [0..<length (hp # hs)]) =
      length (G 0) + sum_list (List.map (\<lambda>i. length (G (Suc i))) [0..<length hs])"
    by (simp only: list.size One_nat_def add_Suc_right add_0_right map_upt_Suc list.map sum_list.Cons)
  have "cells h' b = cells h b" if "cells h b \<noteq> None" "\<forall>i < length (hp # hs). b \<notin> set (G i)" for b
  proof -
    have "b \<notin> set (G 0)" "\<forall>i < length hs. b \<notin> set (G (Suc i))" using that(2) by force+
    then show ?thesis using r(4) h1(3) that(1) by simp
  qed
  moreover have "\<exists>hp'. clog_mp_finalize (hp # hs) h = Some (hp' # hs', h') \<and>
      mh_state hp' = (if mh_used hp = 0 then CLOG_MP_HEAP_STATE_TERMINATED else CLOG_MP_HEAP_STATE_STOPPING)"
    using h1(1) r(1) by (simp add: clog_mp_clear_def)
  ultimately show ?case using r(2,3) h1(2) sum by fastforce
qed simp


subsection \<open>Releasing\<close>

text \<open>Popping the blocks of a chain, wherever it ends.\<close>

lemma acquire_chain:
  assumes "clog_get_mem_heap n = Some i" "n \<noteq> 0"
  shows "\<lbrakk>i < length hs; mh_state (hs ! i) = CLOG_MP_HEAP_STATE_RUNNING; chain (cells h) (mh_head (hs ! i)) xs e\<rbrakk> \<Longrightarrow>
    \<exists>hs'. acquire_all (replicate (length xs) n) hs h = Some (xs, hs', h)"
proof (induction xs arbitrary: hs)
  case (Cons b xs)
  then obtain c where c: "mh_head (hs ! i) = b" "b \<noteq> NULL" "cells h b = Some c" "chain (cells h) (mb_next c) xs e" by auto
  obtain hs' where a: "clog_mp_acquire n hs h = Some (b, hs', h)" "length hs' = length hs"
      "mh_state (hs' ! i) = CLOG_MP_HEAP_STATE_RUNNING" "mh_head (hs' ! i) = mb_next c"
    using assms Cons.prems(1,2) c(1-3) by (auto simp: clog_mp_acquire_def Let_def)
  with Cons.IH [of hs'] Cons.prems(1) c(4) show ?case by auto
qed simp

lemma release_cycle:
  assumes "pool_ok F hs h" "clog_get_mem_heap n = Some i" "n \<noteq> 0" "F i = b # c # rest"
  shows "\<exists>hs1 hs2 h2 hs3. clog_mp_acquire n hs h = Some (b, hs1, h) \<and>
    clog_mp_release b hs1 h = Some (hs2, h2) \<and>
    acquire_all (replicate (length rest + 3) n) hs2 h2 = Some (c # rest @ [b, c], hs3, h2)"
proof -
  have i: "i < CLOG_MP_HEAP_TYPE_MAX" using get_mem_heap [OF assms(2)] by simp
  note pl = pool_ok_list [OF assms(1) i]
  then obtain cb where cb: "mh_head (hs ! i) = b" "b \<noteq> NULL" "cells h b = Some cb" "free_block i cb"
      "chain (cells h) (mb_next cb) (c # rest) NULL" "mh_tail (hs ! i) = last (c # rest)" "distinct (b # c # rest)"
    using assms(4) by (auto simp: free_list_def)
  then have nx: "mb_next cb = c" "c \<noteq> NULL" by auto
  let ?l = "last (c # rest)"
  have "?l \<in> set (F i)" using assms(4) by simp
  then obtain d where d: "cells h ?l = Some d" using pl by (auto simp: free_list_def)
  have lb: "?l \<noteq> b" using cb(7) last_in_set [of "c # rest"] by (metis distinct.simps(2) list.distinct(1))
  have "?l \<noteq> NULL" using \<open>?l \<in> set (F i)\<close> pool_ok_nonnull [OF assms(1) i] by metis
  define hp1 where "hp1 = (hs ! i)\<lparr>mh_used := mh_used (hs ! i) + 1, mh_head := c\<rparr>"
  define hs1 where "hs1 = hs[i := hp1]"
  have a: "clog_mp_acquire n hs h = Some (b, hs1, h)"
    using assms(2,3) pl cb nx by (simp add: clog_mp_acquire_def Let_def hs1_def hp1_def)
  define C where "C = (cells h)(?l \<mapsto> d\<lparr>mb_next := b\<rparr>)"
  define hs2 where "hs2 = hs1[i := hp1\<lparr>mh_tail := b, mh_used := mh_used hp1 - 1\<rparr>]"
  have r: "clog_mp_release b hs1 h = Some (hs2, h\<lparr>cells := C\<rparr>)"
    using cb pl \<open>?l \<noteq> NULL\<close> d
    by (simp add: clog_mp_release_def Let_def free_block_def append_block_def hupd_Some hs1_def hs2_def C_def hp1_def)
  have "chain C c (c # rest) b"
    unfolding C_def by (rule chain_last_upd [of _ _ _ NULL]) (use cb(5,7) nx d in auto)
  moreover have "C b = Some cb" using lb cb(3) by (simp add: C_def)
  moreover obtain x where "C c = Some x" using \<open>chain C c (c # rest) b\<close> by auto
  ultimately have "chain C b [b, c] (mb_next x)" using nx cb(2) by simp
  with \<open>chain C c (c # rest) b\<close> have ch: "chain C c ((c # rest) @ [b, c]) (mb_next x)"
    unfolding chain_append by blast
  have "i < length hs2" "mh_state (hs2 ! i) = CLOG_MP_HEAP_STATE_RUNNING" "mh_head (hs2 ! i) = c"
    using pl by (simp_all add: hs2_def hs1_def hp1_def)
  with acquire_chain [OF assms(2,3), of hs2 "h\<lparr>cells := C\<rparr>" "(c # rest) @ [b, c]" "mb_next x"] ch
  obtain hs3 where "acquire_all (replicate (length ((c # rest) @ [b, c])) n) hs2 (h\<lparr>cells := C\<rparr>) =
      Some ((c # rest) @ [b, c], hs3, h\<lparr>cells := C\<rparr>)" by auto
  moreover have "length ((c # rest) @ [b, c]) = length rest + 3" by simp
  ultimately show ?thesis using a r by (metis append_Cons)
qed

text \<open>A block that is the only free one, or that was never on a list, goes back properly.\<close>

lemma release_clean:
  assumes "pool_ok F hs h" "cells h p = Some c" "free_block i c" "mb_next c = NULL" "i < CLOG_MP_HEAP_TYPE_MAX" "p \<notin> set (F i)"
  shows "\<exists>hs' h'. clog_mp_release p hs h = Some (hs', h') \<and> pool_ok (F(i := F i @ [p])) hs' h'"
proof -
  note pl = pool_ok_list [OF assms(1,5)]
  have hok: "heap_ok h" using assms(1) by (simp add: pool_ok_def)
  then have p: "p \<noteq> NULL" using assms(2) heap_ok_null [OF hok] by (cases "p = NULL") auto
  show ?thesis
  proof (cases "F i = []")
    case True
    let ?hp = "(hs ! i)\<lparr>mh_head := p, mh_tail := p, mh_used := mh_used (hs ! i) - 1\<rparr>"
    have "pool_ok (F(i := [p])) (hs[i := ?hp]) h"
      by (rule pool_ok_update [OF assms(1,5) hok]) (use pl assms p in \<open>auto simp: free_list_def\<close>)
    moreover have "clog_mp_release p hs h = Some (hs[i := ?hp], h)"
      using assms(2,3) p pl True by (simp add: clog_mp_release_def free_block_def free_list_def Let_def)
    ultimately show ?thesis using True by auto
  next
    case False
    have fl: "free_list h (hs ! i) (F i)" using pl by simp
    from free_list_append [OF fl False assms(6) p assms(2,4)] assms(3) pl obtain d where d:
      "append_block p (hs ! i) h = Some ((hs ! i)\<lparr>mh_tail := p\<rparr>, h\<lparr>cells := (cells h)(last (F i) \<mapsto> d\<lparr>mb_next := p\<rparr>)\<rparr>)"
      "cells h (last (F i)) = Some d"
      "free_list (h\<lparr>cells := (cells h)(last (F i) \<mapsto> d\<lparr>mb_next := p\<rparr>)\<rparr>) ((hs ! i)\<lparr>mh_tail := p\<rparr>) (F i @ [p])" by metis
    let ?h = "h\<lparr>cells := (cells h)(last (F i) \<mapsto> d\<lparr>mb_next := p\<rparr>)\<rparr>"
    let ?hp = "(hs ! i)\<lparr>mh_tail := p, mh_used := mh_used (hs ! i) - 1\<rparr>"
    have "heap_ok ?h" using hok d(2) by (auto simp: heap_ok_def)
    then have "pool_ok (F(i := F i @ [p])) (hs[i := ?hp]) ?h"
      by (rule pool_ok_update [OF assms(1,5)])
        (use pl d(3) free_list_fields [of ?hp "(hs ! i)\<lparr>mh_tail := p\<rparr>"] last_in_set [OF False] in auto)
    moreover have "last (F i) \<noteq> NULL" using last_in_set [OF False] pool_ok_nonnull [OF assms(1,5)] by metis
    then have "mh_tail (hs ! i) \<noteq> NULL" using fl False by (simp add: free_list_def)
    then have "clog_mp_release p hs h = Some (hs[i := ?hp], ?h)"
      using assms(2,3) p pl d(1) by (simp add: clog_mp_release_def free_block_def Let_def)
    ultimately show ?thesis by blast
  qed
qed


subsection \<open>Properties\<close>



text \<open>
  Finalizing a pool of which nothing was acquired ends, frees every block it was filled with,
  none twice, and leaves every heap terminated.
\<close>

theorem mp_init_finalize:
  assumes "heap_ok h"
  shows "\<exists>hs h1 hs2 h2. clog_mp_init level h = Some (hs, h1) \<and> clog_mp_finalize hs h1 = Some (hs2, h2) \<and>
    live h2 = live h \<and> (\<forall>hp \<in> set hs2. mh_state hp = CLOG_MP_HEAP_STATE_TERMINATED)"
proof -
  obtain F hs h1 where i: "clog_mp_init level h = Some (hs, h1)" "pool_ok F hs h1" "unused hs" "live h1 = live h + free_count F"
    using mp_init_spec [OF assms] by blast
  then have len: "length hs = CLOG_MP_HEAP_TYPE_MAX" by (simp add: pool_ok_def)
  have "\<forall>k < length hs. free_list h1 (hs ! k) (F k)" using pool_ok_list [OF i(2)] len by simp
  moreover have "\<forall>k < length hs. \<forall>j < length hs. k \<noteq> j \<longrightarrow> set (F k) \<inter> set (F j) = {}"
    using pool_ok_disjoint [OF i(2)] len by (auto simp: disjoint_iff)
  ultimately obtain hs2 h2 where f: "clog_mp_finalize hs h1 = Some (hs2, h2)" "live h2 = live h1 - free_count F"
      "list_all2 (\<lambda>hp hp'. mh_state hp' = (if mh_used hp = 0 then CLOG_MP_HEAP_STATE_TERMINATED else CLOG_MP_HEAP_STATE_STOPPING)) hs hs2"
    using finalize_spec [of hs h1 F] len by (auto simp: free_count_def)
  from f(3) i(3) have "\<forall>hp \<in> set hs2. mh_state hp = CLOG_MP_HEAP_STATE_TERMINATED"
    unfolding unused_def list_all2_conv_all_nth by (metis in_set_conv_nth)
  with i(1,4) f(1,2) show ?thesis by auto
qed

lemma mp_init_finalize_witness:
  "\<exists>hs h1 hs2 h2. clog_mp_init 3 (heap_empty (\<lambda>_. True)) = Some (hs, h1) \<and>
     clog_mp_finalize hs h1 = Some (hs2, h2) \<and> live h2 = 0"
proof -
  have "live (heap_empty (\<lambda>_. True) :: mem_block heap) = 0" by (simp add: heap_empty_def)
  then show ?thesis using mp_init_finalize [OF heap_ok_empty, of 3 "\<lambda>_. True"] by force
qed

text \<open>
  A released block keeps the pointer to the block that followed it: when a heap has two free
  blocks or more, acquiring one and releasing it makes the free list a cycle, and the
  acquisitions after that hand the same block out twice while it is in use.
\<close>

theorem mp_release_hands_out_twice:
  assumes "pool_ok F hs h" "clog_get_mem_heap n = Some i" "n \<noteq> 0" "F i = b # c # rest"
  shows "\<exists>hs1 hs2 h2 hs3. clog_mp_acquire n hs h = Some (b, hs1, h) \<and> clog_mp_release b hs1 h = Some (hs2, h2) \<and>
    acquire_all (replicate (length rest + 3) n) hs2 h2 = Some (c # rest @ [b, c], hs3, h2)"
  by (rule release_cycle [OF assms])

definition ex_mp_block :: "addr \<Rightarrow> mem_block" where
  "ex_mp_block next = \<lparr>mb_where = CLOG_MEM_BLOCK_HEAP, mb_type = 0, mb_next = next, mb_room = 8\<rparr>"

definition ex_mp_mem :: "mem_block heap" where
  "ex_mp_mem = \<lparr>grants = (\<lambda>_. True), tick = 2, live = 2, cells = [1 \<mapsto> ex_mp_block 2, 2 \<mapsto> ex_mp_block NULL], brk = 3\<rparr>"

definition ex_mp_heaps :: "mem_heap list" where
  "ex_mp_heaps = (List.map init_heap [0..<CLOG_MP_HEAP_TYPE_MAX])[0 := (init_heap 0)\<lparr>mh_allocated := 2, mh_head := 1, mh_tail := 2\<rparr>]"

lemma mp_release_hands_out_twice_witness:
  "\<exists>hs1 hs2 h2 hs3. clog_mp_acquire 8 ex_mp_heaps ex_mp_mem = Some (1, hs1, ex_mp_mem) \<and>
     clog_mp_release 1 hs1 ex_mp_mem = Some (hs2, h2) \<and> acquire_all [8, 8, 8] hs2 h2 = Some ([2, 1, 2], hs3, h2)"
proof -
  have "pool_ok ((\<lambda>_. [])(0 := [1, 2])) ex_mp_heaps ex_mp_mem"
    by (auto simp: pool_ok_def ex_mp_heaps_def ex_mp_mem_def ex_mp_block_def heap_ok_def init_heap_def free_list_def
        free_block_def CLOG_MP_HEAP_TYPE_MAX_def CLOG_GET_HEAP_SIZE_def nth_list_update)
  moreover have "clog_get_mem_heap 8 = Some 0" by code_simp
  ultimately show ?thesis
    using mp_release_hands_out_twice [of "(\<lambda>_. [])(0 := [1, 2])" ex_mp_heaps ex_mp_mem 8 0 1 2 "[]"]
    by (simp add: numeral_3_eq_3 del: acquire_all.simps)
qed

end
