(* ===== verification/Ebr.thy ===== *)
theory Ebr
  imports Base
begin

text \<open>
  Epoch-based reclamation (utils/clog_ebr.c): memory that other threads may still read is retired,
  and released when no thread that was in a critical section at that time is left there.

  The operations come twice. As functions they are calls no other thread interferes with; as
  steps, one for every access to shared memory, they interleave freely, with sequentially
  consistent atomics. Both work on the record \<open>clog_ebr_global\<close>. A thread is a number, which
  stands for the address of its structure; the structures are the function \<open>eg_local\<close>, and
  \<open>eg_threads\<close> is the list of those that are registered. A list of retired entries is the list
  of their pointers, the newest first.

  In the steps, what the threads do with the memory is part of the state: \<open>es_shared\<close> are the
  pointers a thread can find, \<open>es_refs\<close> those each thread holds, \<open>es_freed\<close> those released, and
  \<open>es_used\<close> all there ever were.
\<close>

subsection \<open>State\<close>

datatype clog_ebr_local_state =
    CLOG_EBR_LOCAL_STATE_UNKNOWN | CLOG_EBR_LOCAL_STATE_ACTIVE
  | CLOG_EBR_LOCAL_STATE_INACTIVE | CLOG_EBR_LOCAL_STATE_RELEASED

datatype clog_ebr_global_state =
    CLOG_EBR_GLOBAL_STATE_UNKNOWN | CLOG_EBR_GLOBAL_STATE_ACTIVE_NORMAL
  | CLOG_EBR_GLOBAL_STATE_ACTIVE_GC | CLOG_EBR_GLOBAL_STATE_INACTIVE

record clog_ebr_thread_local =
  tl_epoch :: "64 word"
  tl_state :: clog_ebr_local_state

record 'p clog_ebr_global =
  eg_state :: clog_ebr_global_state
  eg_epoch :: "64 word"
  eg_threads :: "nat list"
  eg_local :: "nat \<Rightarrow> clog_ebr_thread_local"
  eg_memory :: "nat \<Rightarrow> 'p list"

definition CLOG_EBR_NUM_EPOCHS :: "64 word" where "CLOG_EBR_NUM_EPOCHS = 3"

definition sizeof_ebr_global :: nat where "sizeof_ebr_global = 384"
definition sizeof_ebr_local :: nat where "sizeof_ebr_local = 256"
definition sizeof_ebr_node :: nat where "sizeof_ebr_node = 16"

text \<open>The list that entries retired in an epoch go to, and the list released in an epoch.\<close>

definition retire_index :: "64 word \<Rightarrow> nat" where
  "retire_index e = unat (e mod CLOG_EBR_NUM_EPOCHS)"

definition release_index :: "64 word \<Rightarrow> nat" where
  "release_index e = unat ((e - 2 + CLOG_EBR_NUM_EPOCHS) mod CLOG_EBR_NUM_EPOCHS)"

definition next_epoch :: "64 word \<Rightarrow> 64 word" where
  "next_epoch e = (e + 1) mod CLOG_EBR_NUM_EPOCHS"

definition local_state :: "nat \<Rightarrow> ('p, 'z) clog_ebr_global_scheme \<Rightarrow> clog_ebr_local_state" where
  "local_state t g = tl_state (eg_local g t)"

definition set_local_state ::
    "nat \<Rightarrow> clog_ebr_local_state \<Rightarrow> ('p, 'z) clog_ebr_global_scheme \<Rightarrow> ('p, 'z) clog_ebr_global_scheme" where
  "set_local_state t st g = g\<lparr>eg_local := (eg_local g)(t := (eg_local g t)\<lparr>tl_state := st\<rparr>)\<rparr>"

definition set_local_epoch :: "nat \<Rightarrow> ('p, 'z) clog_ebr_global_scheme \<Rightarrow> ('p, 'z) clog_ebr_global_scheme" where
  "set_local_epoch t g = g\<lparr>eg_local := (eg_local g)(t := (eg_local g t)\<lparr>tl_epoch := eg_epoch g\<rparr>)\<rparr>"

definition set_memory ::
    "nat \<Rightarrow> 'p list \<Rightarrow> ('p, 'z) clog_ebr_global_scheme \<Rightarrow> ('p, 'z) clog_ebr_global_scheme" where
  "set_memory i ps g = g\<lparr>eg_memory := (eg_memory g)(i := ps)\<rparr>"

definition link_local :: "nat \<Rightarrow> ('p, 'z) clog_ebr_global_scheme \<Rightarrow> ('p, 'z) clog_ebr_global_scheme" where
  "link_local t g =
     g\<lparr>eg_local := (eg_local g)(t := \<lparr>tl_epoch = eg_epoch g, tl_state = CLOG_EBR_LOCAL_STATE_INACTIVE\<rparr>),
       eg_threads := t # eg_threads g\<rparr>"

subsection \<open>Calls that are not disturbed\<close>

text \<open>
  \<open>init\<close> and \<open>lock\<close> are what \<open>clog_mutex_init\<close> and \<open>clog_mutex_lock\<close> return, \<open>dealloc\<close> is the
  deallocator, \<open>t\<close> the address of a thread's structure.
\<close>

definition clog_ebr_create ::
    "bool \<Rightarrow> bool \<Rightarrow> clog_res \<Rightarrow> 'm mem_scheme \<Rightarrow> clog_res \<times> 'p clog_ebr_global option \<times> 'm mem_scheme" where
  "clog_ebr_create has_global has_free init m =
     (if \<not> has_global then (CLOG_INVALID_PARAM, None, m)
      else if \<not> has_free then (CLOG_INVALID_PARAM, None, m)
      else case clog_malloc sizeof_ebr_global m of
        (False, m) \<Rightarrow> (CLOG_NO_MEMORY, None, m)
      | (True, m) \<Rightarrow>
          if init \<noteq> CLOG_SUCCESS then (init, None, clog_free m)
          else (CLOG_SUCCESS,
            Some \<lparr>eg_state = CLOG_EBR_GLOBAL_STATE_ACTIVE_NORMAL, eg_epoch = 0, eg_threads = [],
                  eg_local = (\<lambda>_. \<lparr>tl_epoch = 0, tl_state = CLOG_EBR_LOCAL_STATE_UNKNOWN\<rparr>),
                  eg_memory = (\<lambda>_. [])\<rparr>, m))"

definition clog_ebr_get_global_state :: "('p, 'z) clog_ebr_global_scheme option \<Rightarrow> clog_ebr_global_state" where
  "clog_ebr_get_global_state global = (case global of
      None \<Rightarrow> CLOG_EBR_GLOBAL_STATE_UNKNOWN | Some g \<Rightarrow> eg_state g)"

definition clog_ebr_get_local_state ::
    "nat option \<Rightarrow> ('p, 'z) clog_ebr_global_scheme \<Rightarrow> clog_ebr_local_state" where
  "clog_ebr_get_local_state loc g = (case loc of
      None \<Rightarrow> CLOG_EBR_LOCAL_STATE_UNKNOWN | Some t \<Rightarrow> local_state t g)"

definition clog_ebr_register ::
    "clog_res \<Rightarrow> nat \<Rightarrow> bool \<Rightarrow> ('p, 'z) clog_ebr_global_scheme option \<Rightarrow> 'm mem_scheme
     \<Rightarrow> clog_res \<times> ('p, 'z) clog_ebr_global_scheme option \<times> 'm mem_scheme" where
  "clog_ebr_register lock t has_local global m = (case global of
      None \<Rightarrow> (CLOG_INVALID_PARAM, None, m)
    | Some g \<Rightarrow>
        if \<not> has_local then (CLOG_INVALID_PARAM, Some g, m)
        else if lock \<noteq> CLOG_SUCCESS then (lock, Some g, m)
        else case clog_malloc sizeof_ebr_local m of
          (False, m) \<Rightarrow> (CLOG_NO_MEMORY, Some g, m)
        | (True, m) \<Rightarrow> (CLOG_SUCCESS, Some (link_local t g), m))"

text \<open>Release every entry of a list: the pointer, then the entry.\<close>

fun release_list :: "('p \<Rightarrow> 'm mem_scheme \<Rightarrow> 'm mem_scheme) \<Rightarrow> 'p list \<Rightarrow> 'm mem_scheme \<Rightarrow> 'm mem_scheme" where
  "release_list dealloc [] m = m"
| "release_list dealloc (p # ps) m = release_list dealloc ps (clog_free (dealloc p m))"

fun free_locals :: "nat list \<Rightarrow> 'm mem_scheme \<Rightarrow> 'm mem_scheme" where
  "free_locals [] m = m"
| "free_locals (t # ts) m = free_locals ts (clog_free m)"

definition clog_ebr_try_destroy ::
    "clog_res \<Rightarrow> ('p \<Rightarrow> 'm mem_scheme \<Rightarrow> 'm mem_scheme) \<Rightarrow> ('p, 'z) clog_ebr_global_scheme \<Rightarrow> 'm mem_scheme
     \<Rightarrow> clog_res \<times> ('p, 'z) clog_ebr_global_scheme option \<times> 'm mem_scheme" where
  "clog_ebr_try_destroy lock dealloc g m =
     (if eg_state g = CLOG_EBR_GLOBAL_STATE_ACTIVE_NORMAL \<or> eg_state g = CLOG_EBR_GLOBAL_STATE_ACTIVE_GC
        then (CLOG_ABNORMAL_STATE, Some g, m)
      else if lock \<noteq> CLOG_SUCCESS then (lock, Some g, m)
      else if \<exists>t \<in> set (eg_threads g). local_state t g \<noteq> CLOG_EBR_LOCAL_STATE_RELEASED
        then (CLOG_NOT_COMPLETED, Some g, m)
      else
        (let m = release_list dealloc (eg_memory g 0) m;
             m = release_list dealloc (eg_memory g 1) m;
             m = release_list dealloc (eg_memory g 2) m
         in (CLOG_SUCCESS, None, clog_free (free_locals (eg_threads g) m))))"

definition clog_ebr_unregister ::
    "clog_res \<Rightarrow> ('p \<Rightarrow> 'm mem_scheme \<Rightarrow> 'm mem_scheme) \<Rightarrow> nat option \<Rightarrow> ('p, 'z) clog_ebr_global_scheme
     \<Rightarrow> 'm mem_scheme \<Rightarrow> ('p, 'z) clog_ebr_global_scheme option \<times> 'm mem_scheme" where
  "clog_ebr_unregister lock dealloc loc g m = (case loc of
      None \<Rightarrow> (Some g, m)
    | Some t \<Rightarrow>
        (case clog_ebr_try_destroy lock dealloc (set_local_state t CLOG_EBR_LOCAL_STATE_RELEASED g) m of
           (_, global, m) \<Rightarrow> (global, m)))"

definition enter_allowed :: "('p, 'z) clog_ebr_global_scheme \<Rightarrow> bool" where
  "enter_allowed g \<longleftrightarrow>
     eg_state g = CLOG_EBR_GLOBAL_STATE_ACTIVE_NORMAL \<or> eg_state g = CLOG_EBR_GLOBAL_STATE_ACTIVE_GC"

definition clog_ebr_enter ::
    "nat option \<Rightarrow> ('p, 'z) clog_ebr_global_scheme \<Rightarrow> clog_res \<times> ('p, 'z) clog_ebr_global_scheme" where
  "clog_ebr_enter loc g = (case loc of
      None \<Rightarrow> (CLOG_INVALID_PARAM, g)
    | Some t \<Rightarrow>
        (let g = set_local_epoch t g in
         if local_state t g = CLOG_EBR_LOCAL_STATE_ACTIVE then (CLOG_ALREADY_EXISTED, g)
         else if \<not> enter_allowed g then (CLOG_ABNORMAL_STATE, g)
         else (CLOG_SUCCESS, set_local_state t CLOG_EBR_LOCAL_STATE_ACTIVE g)))"

definition clog_ebr_exit ::
    "nat option \<Rightarrow> ('p, 'z) clog_ebr_global_scheme \<Rightarrow> ('p, 'z) clog_ebr_global_scheme" where
  "clog_ebr_exit loc g = (case loc of
      None \<Rightarrow> g | Some t \<Rightarrow> set_local_state t CLOG_EBR_LOCAL_STATE_INACTIVE g)"

definition push_retired :: "nat \<Rightarrow> 'p \<Rightarrow> ('p, 'z) clog_ebr_global_scheme \<Rightarrow> ('p, 'z) clog_ebr_global_scheme" where
  "push_retired i p g = set_memory i (p # eg_memory g i) g"

definition clog_ebr_defer_release_global ::
    "('p \<Rightarrow> 'm mem_scheme \<Rightarrow> 'm mem_scheme) \<Rightarrow> ('p, 'z) clog_ebr_global_scheme option \<Rightarrow> 'p option \<Rightarrow> 'm mem_scheme
     \<Rightarrow> ('p, 'z) clog_ebr_global_scheme option \<times> 'm mem_scheme" where
  "clog_ebr_defer_release_global dealloc global ptr m = (case (global, ptr) of
      (Some g, Some p) \<Rightarrow>
        (case clog_malloc sizeof_ebr_node m of
           (False, m) \<Rightarrow> (Some g, dealloc p m)
         | (True, m) \<Rightarrow> (Some (push_retired (retire_index (eg_epoch g)) p g), m))
    | _ \<Rightarrow> (global, m))"

definition clog_ebr_poll ::
    "clog_res \<Rightarrow> ('p \<Rightarrow> 'm mem_scheme \<Rightarrow> 'm mem_scheme) \<Rightarrow> ('p, 'z) clog_ebr_global_scheme option \<Rightarrow> 'm mem_scheme
     \<Rightarrow> ('p, 'z) clog_ebr_global_scheme option \<times> 'm mem_scheme" where
  "clog_ebr_poll lock dealloc global m = (case global of
      None \<Rightarrow> (None, m)
    | Some g \<Rightarrow>
        if eg_state g \<noteq> CLOG_EBR_GLOBAL_STATE_ACTIVE_NORMAL then (Some g, m)
        else
          (let g = g\<lparr>eg_state := CLOG_EBR_GLOBAL_STATE_ACTIVE_GC\<rparr>;
               e = eg_epoch g;
               m = release_list dealloc (eg_memory g (release_index e)) m;
               g = set_memory (release_index e) [] g
           in if lock \<noteq> CLOG_SUCCESS then (Some g, m)
              else if eg_threads g = [] then (Some (g\<lparr>eg_state := CLOG_EBR_GLOBAL_STATE_ACTIVE_NORMAL\<rparr>), m)
              else if \<exists>t \<in> set (eg_threads g). local_state t g = CLOG_EBR_LOCAL_STATE_ACTIVE
                then (Some (g\<lparr>eg_state := CLOG_EBR_GLOBAL_STATE_ACTIVE_NORMAL\<rparr>), m)
              else (Some (g\<lparr>eg_epoch := next_epoch e, eg_state := CLOG_EBR_GLOBAL_STATE_ACTIVE_NORMAL\<rparr>), m)))"

text \<open>The same through the structure of a thread.\<close>

definition clog_ebr_defer_release_local ::
    "('p \<Rightarrow> 'm mem_scheme \<Rightarrow> 'm mem_scheme) \<Rightarrow> nat option \<Rightarrow> ('p, 'z) clog_ebr_global_scheme option \<Rightarrow> 'p option
     \<Rightarrow> 'm mem_scheme \<Rightarrow> ('p, 'z) clog_ebr_global_scheme option \<times> 'm mem_scheme" where
  "clog_ebr_defer_release_local dealloc loc global ptr m =
     (if loc = None then (global, m) else clog_ebr_defer_release_global dealloc global ptr m)"

definition clog_ebr_local_poll ::
    "clog_res \<Rightarrow> ('p \<Rightarrow> 'm mem_scheme \<Rightarrow> 'm mem_scheme) \<Rightarrow> nat option \<Rightarrow> ('p, 'z) clog_ebr_global_scheme option
     \<Rightarrow> 'm mem_scheme \<Rightarrow> ('p, 'z) clog_ebr_global_scheme option \<times> 'm mem_scheme" where
  "clog_ebr_local_poll lock dealloc loc global m =
     (if loc = None then (global, m) else clog_ebr_poll lock dealloc global m)"

text \<open>
  The loop of \<open>clog_ebr_destroy\<close>: where no other thread ends the collection it waits for, it
  does not end.
\<close>

partial_function (option) clog_ebr_destroy ::
    "clog_res \<Rightarrow> ('p \<Rightarrow> 'm mem_scheme \<Rightarrow> 'm mem_scheme) \<Rightarrow> ('p, 'z) clog_ebr_global_scheme option \<Rightarrow> 'm mem_scheme
     \<Rightarrow> (clog_res \<times> ('p, 'z) clog_ebr_global_scheme option \<times> 'm mem_scheme) option" where
  "clog_ebr_destroy lock dealloc global m = (case global of
      None \<Rightarrow> Some (CLOG_INVALID_PARAM, None, m)
    | Some g \<Rightarrow>
        if eg_state g = CLOG_EBR_GLOBAL_STATE_INACTIVE then Some (CLOG_ALREADY_EXISTED, Some g, m)
        else if eg_state g = CLOG_EBR_GLOBAL_STATE_ACTIVE_NORMAL
          then Some (clog_ebr_try_destroy lock dealloc (g\<lparr>eg_state := CLOG_EBR_GLOBAL_STATE_INACTIVE\<rparr>) m)
        else clog_ebr_destroy lock dealloc global m)"

subsection \<open>Steps\<close>

text \<open>
  Where a thread is. \<open>E\<close>: in \<open>clog_ebr_enter\<close>, after storing its epoch and after looking at the
  global state. \<open>R\<close>: in \<open>clog_ebr_defer_release_global\<close>, before it has an entry, before it loads
  the epoch, and before it links the entry. \<open>P\<close>: in \<open>clog_ebr_poll\<close>, at each access in turn.
\<close>

datatype 'p ebr_pc =
    E_idle | E_check | E_activate
  | R_entry 'p | R_epoch 'p | R_push 'p nat
  | P_epoch | P_list "64 word" | P_free "64 word" "'p list" | P_lock "64 word"
  | P_scan "64 word" "nat list" | P_advance "64 word" | P_reset | P_unlock

record 'p ebr_sys = "'p clog_ebr_global" +
  es_mutex :: "nat option"
  es_pc :: "nat \<Rightarrow> 'p ebr_pc"
  es_shared :: "'p set"
  es_refs :: "nat \<Rightarrow> 'p set"
  es_used :: "'p set"
  es_freed :: "'p list"

definition goto :: "nat \<Rightarrow> 'p ebr_pc \<Rightarrow> 'p ebr_sys \<Rightarrow> 'p ebr_sys" where
  "goto t pc s = s\<lparr>es_pc := (es_pc s)(t := pc)\<rparr>"

definition enter_step :: "nat \<Rightarrow> 'p ebr_sys \<Rightarrow> 'p ebr_sys" where
  "enter_step t s =
     (if local_state t s = CLOG_EBR_LOCAL_STATE_ACTIVE \<or> \<not> enter_allowed s then goto t E_idle s
      else goto t E_activate s)"

definition release_step :: "nat \<Rightarrow> 64 word \<Rightarrow> 'p list \<Rightarrow> 'p ebr_sys \<Rightarrow> 'p ebr_sys" where
  "release_step t e ps s = (case ps of
      [] \<Rightarrow> goto t (P_lock e) (set_memory (release_index e) [] s)
    | p # ps \<Rightarrow> goto t (P_free e ps) (s\<lparr>es_freed := es_freed s @ [p]\<rparr>))"

definition scan_step :: "nat \<Rightarrow> 64 word \<Rightarrow> nat list \<Rightarrow> 'p ebr_sys \<Rightarrow> 'p ebr_sys" where
  "scan_step t e ts s = (case ts of
      [] \<Rightarrow> goto t (P_advance e) s
    | u # us \<Rightarrow>
        if local_state u s = CLOG_EBR_LOCAL_STATE_ACTIVE then goto t P_reset s else goto t (P_scan e us) s)"

text \<open>The next step of a thread that is inside a call, when it is not waiting for the mutex.\<close>

definition run_step :: "nat \<Rightarrow> 'p ebr_sys \<Rightarrow> 'p ebr_sys option" where
  "run_step t s = (case es_pc s t of
      E_check \<Rightarrow> Some (enter_step t s)
    | E_activate \<Rightarrow> Some (goto t E_idle (set_local_state t CLOG_EBR_LOCAL_STATE_ACTIVE s))
    | R_epoch p \<Rightarrow> Some (goto t (R_push p (retire_index (eg_epoch s))) s)
    | R_push p i \<Rightarrow> Some (goto t E_idle (push_retired i p s))
    | P_epoch \<Rightarrow> Some (goto t (P_list (eg_epoch s)) s)
    | P_list e \<Rightarrow> Some (goto t (P_free e (eg_memory s (release_index e))) s)
    | P_free e ps \<Rightarrow> Some (release_step t e ps s)
    | P_lock e \<Rightarrow>
        if es_mutex s \<noteq> None then None
        else Some (goto t (if eg_threads s = [] then P_reset else P_scan e (eg_threads s)) (s\<lparr>es_mutex := Some t\<rparr>))
    | P_scan e ts \<Rightarrow> Some (scan_step t e ts s)
    | P_advance e \<Rightarrow> Some (goto t P_reset (s\<lparr>eg_epoch := next_epoch e\<rparr>))
    | P_reset \<Rightarrow> Some (goto t P_unlock (s\<lparr>eg_state := CLOG_EBR_GLOBAL_STATE_ACTIVE_NORMAL\<rparr>))
    | P_unlock \<Rightarrow> Some (goto t E_idle (s\<lparr>es_mutex := None\<rparr>))
    | _ \<Rightarrow> None)"

text \<open>
  What can happen: a thread registers (its critical section is one step), starts a call, goes on
  with it, fails an exchange of the list head and starts over; and the client publishes a pointer
  that was never used, gets hold of a shared one, or takes one out of the structure and retires
  it. \<open>Act_entry t ok\<close>: the allocation of the entry, \<open>ok\<close> when it is granted.
\<close>

datatype 'p ebr_action =
    Act_register nat | Act_enter nat | Act_exit nat | Act_unregister nat | Act_poll nat
  | Act_run nat | Act_again nat | Act_entry nat bool
  | Act_publish 'p | Act_acquire nat 'p | Act_retire nat 'p

definition inside :: "nat \<Rightarrow> 'p ebr_sys \<Rightarrow> bool" where
  "inside t s \<longleftrightarrow> local_state t s = CLOG_EBR_LOCAL_STATE_ACTIVE"

fun ebr_step :: "'p ebr_action \<Rightarrow> 'p ebr_sys \<Rightarrow> 'p ebr_sys option" where
  "ebr_step (Act_register t) s =
     (if es_mutex s = None \<and> t \<notin> set (eg_threads s) \<and> es_pc s t = E_idle then Some (link_local t s) else None)"
| "ebr_step (Act_enter t) s =
     (if es_pc s t = E_idle \<and> t \<in> set (eg_threads s) \<and> local_state t s \<noteq> CLOG_EBR_LOCAL_STATE_RELEASED
      then Some (goto t E_check (set_local_epoch t s)) else None)"
| "ebr_step (Act_exit t) s =
     (if es_pc s t = E_idle \<and> inside t s
      then Some ((set_local_state t CLOG_EBR_LOCAL_STATE_INACTIVE s)\<lparr>es_refs := (es_refs s)(t := {})\<rparr>) else None)"
| "ebr_step (Act_unregister t) s =
     (if es_pc s t = E_idle \<and> t \<in> set (eg_threads s) \<and> \<not> inside t s
      then Some (set_local_state t CLOG_EBR_LOCAL_STATE_RELEASED s) else None)"
| "ebr_step (Act_poll t) s =
     (if es_pc s t = E_idle
      then Some (if eg_state s = CLOG_EBR_GLOBAL_STATE_ACTIVE_NORMAL
                 then goto t P_epoch (s\<lparr>eg_state := CLOG_EBR_GLOBAL_STATE_ACTIVE_GC\<rparr>) else s)
      else None)"
| "ebr_step (Act_run t) s = run_step t s"
| "ebr_step (Act_again t) s = (case es_pc s t of R_push p i \<Rightarrow> Some (goto t (R_epoch p) s) | _ \<Rightarrow> None)"
| "ebr_step (Act_entry t ok) s = (case es_pc s t of
      R_entry p \<Rightarrow> Some (if ok then goto t (R_epoch p) s else goto t E_idle (s\<lparr>es_freed := es_freed s @ [p]\<rparr>))
    | _ \<Rightarrow> None)"
| "ebr_step (Act_publish p) s =
     (if p \<notin> es_used s then Some (s\<lparr>es_shared := insert p (es_shared s), es_used := insert p (es_used s)\<rparr>) else None)"
| "ebr_step (Act_acquire t p) s =
     (if inside t s \<and> p \<in> es_shared s then Some (s\<lparr>es_refs := (es_refs s)(t := insert p (es_refs s t))\<rparr>) else None)"
| "ebr_step (Act_retire t p) s =
     (if es_pc s t = E_idle \<and> inside t s \<and> p \<in> es_shared s
      then Some (goto t (R_entry p) (s\<lparr>es_shared := es_shared s - {p}\<rparr>)) else None)"

definition ebr_start :: "'p clog_ebr_global \<Rightarrow> 'p ebr_sys" where
  "ebr_start g = clog_ebr_global.extend g
     \<lparr>es_mutex = None, es_pc = (\<lambda>_. E_idle), es_shared = {}, es_refs = (\<lambda>_. {}), es_used = {}, es_freed = []\<rparr>"

definition granted_entry :: "'p ebr_action \<Rightarrow> bool" where
  "granted_entry a = (case a of Act_entry t ok \<Rightarrow> ok | _ \<Rightarrow> True)"

text \<open>The states that can be reached; with \<open>refuse\<close> also when the allocation of an entry fails.\<close>

inductive ebr_reach :: "bool \<Rightarrow> 'p ebr_sys \<Rightarrow> bool" for refuse where
  ebr_init: "clog_ebr_create True True CLOG_SUCCESS (m :: mem) = (CLOG_SUCCESS, Some g, m') \<Longrightarrow> ebr_reach refuse (ebr_start g)"
| ebr_next: "ebr_reach refuse s \<Longrightarrow> refuse \<or> granted_entry a \<Longrightarrow> ebr_step a s = Some s' \<Longrightarrow> ebr_reach refuse s'"

end
