(* ===== verification/Ebr_Correct.thy ===== *)
theory Ebr_Correct
  imports Ebr
begin

text \<open>
  What the reclamation guarantees: the invariant of all interleavings, from which no thread that
  is inside a critical section holds released memory; the balance of blocks over any sequence of
  calls; and the three collections after which nothing retired is left.
\<close>

subsection \<open>The invariant\<close>

text \<open>
  \<open>c\<close> counts how often the epoch was advanced, \<open>since t\<close> is the count when thread \<open>t\<close> entered its
  critical section, \<open>tag p\<close> the count when the epoch was read for retiring \<open>p\<close>. The epoch is
  advanced at most once past a thread that is inside, so \<open>p\<close>, released two advances after its
  tag at the earliest, is not one that a thread inside can hold.
\<close>

text \<open>
  What the threads are at, as relations: \<open>view r pc\<close> pairs a thread with the members of \<open>r\<close> at its
  place.
\<close>

definition view :: "('p ebr_pc \<Rightarrow> 'v set) \<Rightarrow> (nat \<Rightarrow> 'p ebr_pc) \<Rightarrow> (nat \<times> 'v) set" where
  "view r pc = {(t, v). v \<in> r (pc t)}"

fun polling :: "'p ebr_pc \<Rightarrow> unit set" where
  "polling P_epoch = {()}" | "polling (P_list e) = {()}" | "polling (P_free e ps) = {()}"
| "polling (P_lock e) = {()}" | "polling (P_scan e ts) = {()}" | "polling (P_advance e) = {()}"
| "polling P_reset = {()}" | "polling _ = {}"

fun polled_epoch :: "'p ebr_pc \<Rightarrow> 64 word set" where
  "polled_epoch (P_list e) = {e}" | "polled_epoch (P_free e ps) = {e}" | "polled_epoch (P_lock e) = {e}"
| "polled_epoch (P_scan e ts) = {e}" | "polled_epoch (P_advance e) = {e}" | "polled_epoch _ = {}"

fun locking :: "'p ebr_pc \<Rightarrow> unit set" where
  "locking (P_scan e ts) = {()}" | "locking (P_advance e) = {()}" | "locking P_reset = {()}"
| "locking P_unlock = {()}" | "locking _ = {}"

fun scanning :: "'p ebr_pc \<Rightarrow> nat list set" where
  "scanning (P_scan e ts) = {ts}" | "scanning _ = {}"

fun advancing :: "'p ebr_pc \<Rightarrow> unit set" where
  "advancing (P_advance e) = {()}" | "advancing _ = {}"

fun freeing :: "'p ebr_pc \<Rightarrow> (nat \<times> 'p list) set" where
  "freeing (P_free e ps) = {(release_index e, ps)}" | "freeing _ = {}"

fun retiring :: "'p ebr_pc \<Rightarrow> 'p set" where
  "retiring (R_entry p) = {p}" | "retiring (R_epoch p) = {p}" | "retiring (R_push p i) = {p}"
| "retiring _ = {}"

fun pushing :: "'p ebr_pc \<Rightarrow> ('p \<times> nat) set" where
  "pushing (R_push p i) = {(p, i)}" | "pushing _ = {}"

fun activating :: "'p ebr_pc \<Rightarrow> unit set" where
  "activating E_activate = {()}" | "activating _ = {}"

fun entering :: "'p ebr_pc \<Rightarrow> unit set" where
  "entering E_activate = {()}" | "entering E_check = {()}" | "entering _ = {}"

definition insiders :: "(nat \<Rightarrow> clog_ebr_thread_local) \<Rightarrow> nat set" where
  "insiders loc = {t. tl_state (loc t) = CLOG_EBR_LOCAL_STATE_ACTIVE}"

definition entries :: "(nat \<Rightarrow> 'p list) \<Rightarrow> (nat \<times> 'p) set" where
  "entries mem = {(i, p). p \<in> set (mem i)}"

definition clock_ok :: "nat \<Rightarrow> (nat \<Rightarrow> nat) \<Rightarrow> 'p ebr_sys \<Rightarrow> bool" where
  "clock_ok c since s \<longleftrightarrow> eg_epoch s = of_nat (c mod 3) \<and>
     (\<forall>t \<in> insiders (eg_local s). t \<in> set (eg_threads s) \<and> since t \<le> c \<and> c \<le> since t + 1) \<and>
     (\<forall>(t, _) \<in> view activating (es_pc s). t \<notin> insiders (eg_local s)) \<and>
     (\<forall>(t, _) \<in> view entering (es_pc s). t \<in> set (eg_threads s))"

definition poller_ok :: "'p ebr_sys \<Rightarrow> bool" where
  "poller_ok s \<longleftrightarrow>
     eg_state s = (if view polling (es_pc s) = {} then CLOG_EBR_GLOBAL_STATE_ACTIVE_NORMAL
                   else CLOG_EBR_GLOBAL_STATE_ACTIVE_GC) \<and>
     (\<forall>(t, _) \<in> view polling (es_pc s). \<forall>(u, _) \<in> view polling (es_pc s). t = u) \<and>
     (\<forall>(_, e) \<in> view polled_epoch (es_pc s). e = eg_epoch s) \<and>
     view locking (es_pc s) = (case es_mutex s of None \<Rightarrow> {} | Some t \<Rightarrow> {(t, ())})"

definition scan_ok :: "nat \<Rightarrow> (nat \<Rightarrow> nat) \<Rightarrow> 'p ebr_sys \<Rightarrow> bool" where
  "scan_ok c since s \<longleftrightarrow>
     (\<forall>(t, us) \<in> view scanning (es_pc s). \<forall>u \<in> insiders (eg_local s). since u = c \<or> u \<in> set us) \<and>
     (\<forall>(t, _) \<in> view advancing (es_pc s). \<forall>u \<in> insiders (eg_local s). since u = c)"

definition lists_ok :: "nat \<Rightarrow> ('p \<Rightarrow> nat) \<Rightarrow> 'p ebr_sys \<Rightarrow> bool" where
  "lists_ok c tag s \<longleftrightarrow>
     (\<forall>i. distinct (eg_memory s i)) \<and>
     (\<forall>(i, p) \<in> entries (eg_memory s). tag p mod 3 = i \<and> tag p \<le> c \<and> p \<notin> es_shared s) \<and>
     (\<forall>(i, p) \<in> entries (eg_memory s). p \<in> set (es_freed s) \<longrightarrow>
        (\<exists>(t, j, ps) \<in> view freeing (es_pc s). j = i \<and> p \<notin> set ps)) \<and>
     (\<forall>(t, i, ps) \<in> view freeing (es_pc s). distinct ps \<and>
        (\<forall>p. p \<in> set ps \<longrightarrow> p \<notin> set (es_freed s) \<and> (i, p) \<in> entries (eg_memory s)) \<and>
        (\<forall>p. (i, p) \<in> entries (eg_memory s) \<longrightarrow> p \<in> set ps \<or> p \<in> set (es_freed s)))"

definition pending_ok :: "nat \<Rightarrow> (nat \<Rightarrow> nat) \<Rightarrow> ('p \<Rightarrow> nat) \<Rightarrow> 'p ebr_sys \<Rightarrow> bool" where
  "pending_ok c since tag s \<longleftrightarrow>
     (\<forall>(t, p) \<in> view retiring (es_pc s). t \<in> insiders (eg_local s) \<and>
        p \<notin> es_shared s \<and> p \<notin> set (es_freed s) \<and> (\<forall>i. (i, p) \<notin> entries (eg_memory s))) \<and>
     (\<forall>(t, p) \<in> view retiring (es_pc s). \<forall>(u, q) \<in> view retiring (es_pc s). p = q \<longrightarrow> t = u) \<and>
     (\<forall>(t, p, i) \<in> view pushing (es_pc s). i = tag p mod 3 \<and> tag p \<le> c \<and> since t \<le> tag p)"

definition tagged :: "'p ebr_sys \<Rightarrow> 'p set" where
  "tagged s = {p. \<exists>i. (i, p) \<in> entries (eg_memory s)} \<union> {p. \<exists>t i. (t, p, i) \<in> view pushing (es_pc s)}"

definition owners_ok :: "(nat \<Rightarrow> nat) \<Rightarrow> ('p \<Rightarrow> nat) \<Rightarrow> 'p ebr_sys \<Rightarrow> bool" where
  "owners_ok since tag s \<longleftrightarrow>
     (\<forall>p. p \<in> es_shared s \<longrightarrow> p \<notin> set (es_freed s)) \<and> distinct (es_freed s) \<and>
     (\<forall>p. p \<in> es_used s \<longleftrightarrow> p \<in> es_shared s \<or> (\<exists>t. (t, p) \<in> view retiring (es_pc s)) \<or>
        (\<exists>i. (i, p) \<in> entries (eg_memory s)) \<or> p \<in> set (es_freed s)) \<and>
     (\<forall>t p. p \<in> es_refs s t \<longrightarrow> t \<in> insiders (eg_local s) \<and> p \<in> es_used s \<and> p \<notin> set (es_freed s) \<and>
        (p \<in> tagged s \<longrightarrow> since t \<le> tag p))"

definition ebr_inv :: "nat \<Rightarrow> (nat \<Rightarrow> nat) \<Rightarrow> ('p \<Rightarrow> nat) \<Rightarrow> 'p ebr_sys \<Rightarrow> bool" where
  "ebr_inv c since tag s \<longleftrightarrow> clock_ok c since s \<and> poller_ok s \<and> scan_ok c since s \<and> lists_ok c tag s \<and>
     pending_ok c since tag s \<and> owners_ok since tag s"

lemma view_same: "r x = r (pc t) \<Longrightarrow> view r (pc(t := x)) = view r pc"
  by (auto simp: view_def split: if_splits)

lemma view_upd: "view r (pc(t := x)) = {(u, v) \<in> view r pc. u \<noteq> t} \<union> Pair t ` r x"
  by (auto simp: view_def split: if_splits)

lemma view_none: "r (pc t) = {} \<Longrightarrow> {(u, v) \<in> view r pc. u \<noteq> t} = view r pc"
  by (auto simp: view_def)

lemma view_in: "v \<in> r (pc t) \<Longrightarrow> (t, v) \<in> view r pc"
  by (simp add: view_def)

lemma insiders_upd: "insiders (loc(t := l)) =
    (if tl_state l = CLOG_EBR_LOCAL_STATE_ACTIVE then insert t (insiders loc) else insiders loc - {t})"
  by (auto simp: insiders_def)

lemma entries_upd: "entries (mem(i := ps)) = {(j, p) \<in> entries mem. j \<noteq> i} \<union> Pair i ` set ps"
  by (auto simp: entries_def split: if_splits)

lemma inside_insiders: "inside t s \<longleftrightarrow> t \<in> insiders (eg_local s)"
  by (simp add: inside_def insiders_def local_state_def)

lemmas inv_parts = clock_ok_def poller_ok_def scan_ok_def lists_ok_def pending_ok_def owners_ok_def

lemmas state_defs = goto_def set_local_state_def set_local_epoch_def set_memory_def link_local_def push_retired_def


subsection \<open>Epochs\<close>

lemma epoch_unat: "unat (of_nat (c mod 3) :: 64 word) = c mod 3"
  by (simp add: unat_of_nat)

lemma retire_index_mod: "retire_index (of_nat (c mod 3)) = c mod 3"
  by (simp add: retire_index_def CLOG_EBR_NUM_EPOCHS_def unat_mod epoch_unat)

lemma next_epoch_mod: "next_epoch (of_nat (c mod 3)) = of_nat (Suc c mod 3)"
proof -
  have "unat (of_nat (c mod 3) + 1 :: 64 word) = c mod 3 + 1"
    by (subst unat_add_lem [THEN iffD1]) (simp_all add: epoch_unat)
  then have "unat (next_epoch (of_nat (c mod 3))) = Suc c mod 3"
    by (simp add: next_epoch_def CLOG_EBR_NUM_EPOCHS_def unat_mod mod_Suc_eq)
  then show ?thesis by (simp add: word_unat_eq_iff epoch_unat)
qed

lemma release_index_mod: "release_index (of_nat (c mod 3)) = Suc c mod 3"
proof -
  have "(of_nat (c mod 3) - 2 + 3 :: 64 word) = of_nat (c mod 3) + 1" by simp
  then have "release_index (of_nat (c mod 3)) = unat (next_epoch (of_nat (c mod 3)))"
    by (simp only: release_index_def next_epoch_def CLOG_EBR_NUM_EPOCHS_def)
  then show ?thesis by (simp add: next_epoch_mod epoch_unat add.commute)
qed

text \<open>What is released in epoch \<open>c\<close> was tagged at least two epochs before.\<close>

lemma old_tag: "(k :: nat) mod 3 = Suc c mod 3 \<Longrightarrow> k \<le> c \<Longrightarrow> k + 2 \<le> c"
  by presburger

subsection \<open>Every step keeps the invariant\<close>

lemma pushing_retiring: "(t, p, i) \<in> view pushing pc \<Longrightarrow> (t, p) \<in> view retiring pc"
  by (cases "pc t") (auto simp: view_def)

lemma tagged_pending: "p \<in> tagged s \<Longrightarrow>
    (\<exists>i. (i, p) \<in> entries (eg_memory s)) \<or> (\<exists>t. (t, p) \<in> view retiring (es_pc s))"
  by (auto simp: tagged_def dest: pushing_retiring)

lemma tagged_not_shared:
  "lists_ok c tag s \<Longrightarrow> pending_ok c since tag s \<Longrightarrow> p \<in> es_shared s \<Longrightarrow> p \<notin> tagged s"
  by (auto simp: lists_ok_def pending_ok_def dest!: tagged_pending)

lemma clock_cong: "eg_epoch s' = eg_epoch s \<Longrightarrow> insiders (eg_local s') = insiders (eg_local s) \<Longrightarrow>
    eg_threads s' = eg_threads s \<Longrightarrow> view activating (es_pc s') = view activating (es_pc s) \<Longrightarrow>
    view entering (es_pc s') = view entering (es_pc s) \<Longrightarrow> clock_ok c since s' = clock_ok c since s"
  by (simp add: clock_ok_def)

lemma poller_cong: "eg_epoch s' = eg_epoch s \<Longrightarrow> eg_state s' = eg_state s \<Longrightarrow> es_mutex s' = es_mutex s \<Longrightarrow>
    view polling (es_pc s') = view polling (es_pc s) \<Longrightarrow> view polled_epoch (es_pc s') = view polled_epoch (es_pc s) \<Longrightarrow>
    view locking (es_pc s') = view locking (es_pc s) \<Longrightarrow> poller_ok s' = poller_ok s"
  by (simp add: poller_ok_def)

lemma scan_cong: "insiders (eg_local s') = insiders (eg_local s) \<Longrightarrow>
    view scanning (es_pc s') = view scanning (es_pc s) \<Longrightarrow> view advancing (es_pc s') = view advancing (es_pc s) \<Longrightarrow>
    scan_ok c since s' = scan_ok c since s"
  by (simp add: scan_ok_def)

lemma lists_cong: "eg_memory s' = eg_memory s \<Longrightarrow> es_shared s' = es_shared s \<Longrightarrow> es_freed s' = es_freed s \<Longrightarrow>
    view freeing (es_pc s') = view freeing (es_pc s) \<Longrightarrow> lists_ok c tag s' = lists_ok c tag s"
  by (simp add: lists_ok_def)

lemma pending_cong: "eg_memory s' = eg_memory s \<Longrightarrow> es_shared s' = es_shared s \<Longrightarrow> es_freed s' = es_freed s \<Longrightarrow>
    insiders (eg_local s') = insiders (eg_local s) \<Longrightarrow>
    view retiring (es_pc s') = view retiring (es_pc s) \<Longrightarrow> view pushing (es_pc s') = view pushing (es_pc s) \<Longrightarrow>
    pending_ok c since tag s' = pending_ok c since tag s"
  by (simp add: pending_ok_def)

lemma owners_cong: "eg_memory s' = eg_memory s \<Longrightarrow> es_shared s' = es_shared s \<Longrightarrow> es_freed s' = es_freed s \<Longrightarrow>
    es_used s' = es_used s \<Longrightarrow> es_refs s' = es_refs s \<Longrightarrow> insiders (eg_local s') = insiders (eg_local s) \<Longrightarrow>
    view retiring (es_pc s') = view retiring (es_pc s) \<Longrightarrow> view pushing (es_pc s') = view pushing (es_pc s) \<Longrightarrow>
    owners_ok since tag s' = owners_ok since tag s"
  by (simp add: owners_ok_def tagged_def)

lemma owners_intro:
  assumes "\<And>p. p \<in> es_shared s \<Longrightarrow> p \<notin> set (es_freed s)" and "distinct (es_freed s)"
    and "\<And>p. p \<in> es_used s \<longleftrightarrow> p \<in> es_shared s \<or> (\<exists>t. (t, p) \<in> view retiring (es_pc s)) \<or>
        (\<exists>i. (i, p) \<in> entries (eg_memory s)) \<or> p \<in> set (es_freed s)"
    and "\<And>t p. p \<in> es_refs s t \<Longrightarrow> t \<in> insiders (eg_local s) \<and> p \<in> es_used s \<and> p \<notin> set (es_freed s) \<and>
        (p \<in> tagged s \<longrightarrow> since t \<le> tag p)"
  shows "owners_ok since tag s"
  unfolding owners_ok_def using assms by blast

lemma ownersD:
  assumes "ebr_inv c since tag s"
  shows "p \<in> es_shared s \<Longrightarrow> p \<notin> set (es_freed s)" and "distinct (es_freed s)"
    and "p \<in> es_used s \<longleftrightarrow> p \<in> es_shared s \<or> (\<exists>t. (t, p) \<in> view retiring (es_pc s)) \<or>
        (\<exists>i. (i, p) \<in> entries (eg_memory s)) \<or> p \<in> set (es_freed s)"
    and "p \<in> es_refs s t \<Longrightarrow> t \<in> insiders (eg_local s) \<and> p \<in> es_used s \<and> p \<notin> set (es_freed s) \<and>
        (p \<in> tagged s \<longrightarrow> since t \<le> tag p)"
  using assms unfolding ebr_inv_def owners_ok_def by blast+

lemmas part_congs = clock_cong poller_cong scan_cong lists_cong pending_cong owners_cong

lemma inv_start:
  assumes "clog_ebr_create True True CLOG_SUCCESS (m :: mem) = (CLOG_SUCCESS, Some g, m')"
  shows "ebr_inv 0 (\<lambda>_. 0) (\<lambda>_. 0) (ebr_start g)"
  using assms
  by (auto simp: clog_ebr_create_def ebr_start_def clog_ebr_global.defs ebr_inv_def inv_parts view_def insiders_def
      entries_def split: prod.splits bool.splits)

lemma inv_acquire:
  assumes inv: "ebr_inv c since tag s" and st: "ebr_step (Act_acquire t p) s = Some s'"
  shows "ebr_inv c since tag s'"
proof -
  from st have p: "t \<in> insiders (eg_local s)" "p \<in> es_shared s"
    and s': "s' = s\<lparr>es_refs := (es_refs s)(t := insert p (es_refs s t))\<rparr>"
    by (auto simp: inside_insiders split: if_splits)
  from inv p(2) have "p \<notin> tagged s" by (auto simp: ebr_inv_def dest: tagged_not_shared)
  moreover have "tagged s' = tagged s" by (simp add: s' tagged_def)
  ultimately have "owners_ok since tag s'" using inv p by (auto simp: ebr_inv_def owners_ok_def s')
  with inv show ?thesis unfolding ebr_inv_def s' by (simp cong: part_congs)
qed

lemma inv_publish:
  assumes inv: "ebr_inv c since tag s" and st: "ebr_step (Act_publish p) s = Some s'"
  shows "ebr_inv c since tag s'"
proof -
  from st have p: "p \<notin> es_used s"
    and s': "s' = s\<lparr>es_shared := insert p (es_shared s), es_used := insert p (es_used s)\<rparr>"
    by (auto split: if_splits)
  have tg: "tagged s' = tagged s" by (simp add: s' tagged_def)
  from inv p have new: "p \<notin> set (es_freed s)" "(t, p) \<notin> view retiring (es_pc s)" "(i, p) \<notin> entries (eg_memory s)" for t i
    by (auto simp: ebr_inv_def owners_ok_def)
  from inv new tg have "owners_ok since tag s'" "lists_ok c tag s'" "pending_ok c since tag s'"
    subgoal by (auto simp: ebr_inv_def owners_ok_def s')
    subgoal using inv new by (auto simp: ebr_inv_def lists_ok_def s')
    subgoal using inv new by (auto simp: ebr_inv_def pending_ok_def s')
    done
  with inv show ?thesis unfolding ebr_inv_def s' by (simp cong: part_congs)
qed

lemma view_idle [simp]: "pc t = E_idle \<Longrightarrow> (t, v) \<notin> view retiring pc"
  by (simp add: view_def)

lemma inv_retire:
  assumes inv: "ebr_inv c since tag s" and st: "ebr_step (Act_retire t p) s = Some s'"
  shows "ebr_inv c since tag s'"
proof -
  from st have t: "es_pc s t = E_idle" "t \<in> insiders (eg_local s)" "p \<in> es_shared s"
    and s': "s' = s\<lparr>es_shared := es_shared s - {p}, es_pc := (es_pc s)(t := R_entry p)\<rparr>"
    by (auto simp: inside_insiders goto_def split: if_splits)
  from inv t(3) have p: "p \<notin> set (es_freed s)" "p \<in> es_used s" "(i, p) \<notin> entries (eg_memory s)"
      "(u, p) \<notin> view retiring (es_pc s)" for i u
    by (auto simp: ebr_inv_def owners_ok_def lists_ok_def pending_ok_def)
  have rt: "view retiring (es_pc s') = insert (t, p) (view retiring (es_pc s))"
    using t(1) by (simp add: s' view_upd view_none)
  have same: "view r (es_pc s') = view r (es_pc s)" if "r (R_entry p) = r E_idle" for r :: "'a ebr_pc \<Rightarrow> 'v set"
    using t(1) that by (simp add: s' view_same)
  have tg: "tagged s' = tagged s" by (simp add: tagged_def same) (simp add: s')
  have "owners_ok since tag s'" using inv t p rt tg by (auto simp: ebr_inv_def owners_ok_def s')
  moreover have "lists_ok c tag s'" using inv by (auto simp: ebr_inv_def lists_ok_def same) (auto simp: s')
  moreover have "pending_ok c since tag s'"
    using inv t p rt by (auto simp: ebr_inv_def pending_ok_def same) (auto simp: s')
  ultimately show ?thesis using inv t(1) unfolding ebr_inv_def s' by (simp add: view_same cong: part_congs)
qed

lemma inv_entry:
  assumes inv: "ebr_inv c since tag s" and st: "ebr_step (Act_entry t True) s = Some s'"
  shows "ebr_inv c since tag s'"
proof -
  from st obtain p where t: "es_pc s t = R_entry p" and s': "s' = s\<lparr>es_pc := (es_pc s)(t := R_epoch p)\<rparr>"
    by (auto simp: goto_def split: ebr_pc.splits)
  then show ?thesis using inv unfolding ebr_inv_def s' by (simp add: view_same cong: part_congs)
qed

lemma inv_again:
  assumes inv: "ebr_inv c since tag s" and st: "ebr_step (Act_again t) s = Some s'"
  shows "ebr_inv c since tag s'"
proof -
  from st obtain p i where t: "es_pc s t = R_push p i" and s': "s' = s\<lparr>es_pc := (es_pc s)(t := R_epoch p)\<rparr>"
    by (auto simp: goto_def split: ebr_pc.splits)
  have pu: "view pushing (es_pc s') \<subseteq> view pushing (es_pc s)" by (auto simp: s' view_upd)
  have same: "view r (es_pc s') = view r (es_pc s)" if "r (R_epoch p) = r (R_push p i)" for r :: "'a ebr_pc \<Rightarrow> 'v set"
    using t that by (simp add: s' view_same)
  have tg: "tagged s' \<subseteq> tagged s" using pu by (auto simp: tagged_def) (auto simp: s')
  have "owners_ok since tag s'" using inv tg by (auto simp: ebr_inv_def owners_ok_def same) (auto simp: s')
  moreover have "pending_ok c since tag s'"
    using inv pu by (auto simp: ebr_inv_def pending_ok_def same) (auto simp: s')
  ultimately show ?thesis using inv t unfolding ebr_inv_def s' by (simp add: view_same cong: part_congs)
qed

lemma inv_exit:
  assumes inv: "ebr_inv c since tag s" and st: "ebr_step (Act_exit t) s = Some s'"
  shows "ebr_inv c since tag s'"
proof -
  from st have t: "es_pc s t = E_idle"
    and s': "s' = (set_local_state t CLOG_EBR_LOCAL_STATE_INACTIVE s)\<lparr>es_refs := (es_refs s)(t := {})\<rparr>"
    by (auto split: if_splits)
  have i: "insiders (eg_local s') = insiders (eg_local s) - {t}" by (simp add: s' set_local_state_def insiders_upd)
  have tg: "tagged s' = tagged s" by (simp add: tagged_def s' set_local_state_def)
  have "clock_ok c since s'" using inv by (auto simp: ebr_inv_def clock_ok_def i) (auto simp: s' set_local_state_def)
  moreover have "scan_ok c since s'" using inv by (auto simp: ebr_inv_def scan_ok_def i) (auto simp: s' set_local_state_def)
  moreover have "pending_ok c since tag s'"
    using inv t by (auto simp: ebr_inv_def pending_ok_def i) (auto simp: s' set_local_state_def view_def)
  moreover have "owners_ok since tag s'"
    using inv tg by (auto simp: ebr_inv_def owners_ok_def i) (auto simp: s' set_local_state_def split: if_splits)
  ultimately show ?thesis using inv unfolding ebr_inv_def s' set_local_state_def by (simp cong: part_congs)
qed

lemma inv_enter:
  assumes inv: "ebr_inv c since tag s" and st: "ebr_step (Act_enter t) s = Some s'"
  shows "ebr_inv c since tag s'"
proof -
  from st have t: "es_pc s t = E_idle" "t \<in> set (eg_threads s)" and s': "s' = goto t E_check (set_local_epoch t s)"
    by (auto split: if_splits)
  have i: "insiders (eg_local s') = insiders (eg_local s)"
    by (auto simp: s' goto_def set_local_epoch_def insiders_def)
  have "clock_ok c since s'" using inv t
    by (auto simp: ebr_inv_def clock_ok_def i) (auto simp: s' goto_def set_local_epoch_def view_upd)
  with inv i t(1) show ?thesis unfolding ebr_inv_def s' goto_def set_local_epoch_def
    by (simp add: view_same cong: part_congs)
qed

lemma inv_register:
  assumes inv: "ebr_inv c since tag s" and st: "ebr_step (Act_register t) s = Some s'"
  shows "ebr_inv c since tag s'"
proof -
  from st have t: "t \<notin> set (eg_threads s)" and s': "s' = link_local t s" by (auto split: if_splits)
  have "t \<notin> insiders (eg_local s)" using inv t by (auto simp: ebr_inv_def clock_ok_def)
  then have i: "insiders (eg_local s') = insiders (eg_local s)" by (simp add: s' link_local_def insiders_upd)
  have "clock_ok c since s'" using inv t
    by (auto simp: ebr_inv_def clock_ok_def i) (auto simp: s' link_local_def)
  with inv i show ?thesis unfolding ebr_inv_def s' link_local_def by (simp cong: part_congs)
qed

lemma inv_unregister:
  assumes inv: "ebr_inv c since tag s" and st: "ebr_step (Act_unregister t) s = Some s'"
  shows "ebr_inv c since tag s'"
proof -
  from st have t: "t \<notin> insiders (eg_local s)" and s': "s' = set_local_state t CLOG_EBR_LOCAL_STATE_RELEASED s"
    by (auto simp: inside_insiders split: if_splits)
  then have i: "insiders (eg_local s') = insiders (eg_local s)" by (simp add: set_local_state_def insiders_upd)
  with inv show ?thesis unfolding ebr_inv_def s' set_local_state_def by (simp cong: part_congs)
qed

lemma inv_poll:
  assumes inv: "ebr_inv c since tag s" and st: "ebr_step (Act_poll t) s = Some s'"
  shows "ebr_inv c since tag s'"
proof (cases "eg_state s = CLOG_EBR_GLOBAL_STATE_ACTIVE_NORMAL")
  case True
  with st have t: "es_pc s t = E_idle"
    and s': "s' = s\<lparr>eg_state := CLOG_EBR_GLOBAL_STATE_ACTIVE_GC, es_pc := (es_pc s)(t := P_epoch)\<rparr>"
    by (auto simp: goto_def split: if_splits)
  have "view polling (es_pc s) = {}" using inv True by (auto simp: ebr_inv_def poller_ok_def split: if_splits)
  then have "view polling (es_pc s') = {(t, ())}" by (simp add: s' view_upd)
  moreover have same: "view r (es_pc s') = view r (es_pc s)" if "r P_epoch = r E_idle" for r :: "'a ebr_pc \<Rightarrow> 'v set"
    using t that by (simp add: s' view_same)
  ultimately have "poller_ok s'" using inv by (auto simp: ebr_inv_def poller_ok_def same) (auto simp: s')
  with inv t show ?thesis unfolding ebr_inv_def s' by (simp add: view_same cong: part_congs)
next
  case False
  with inv st show ?thesis by (auto split: if_splits)
qed

subsection \<open>Steps inside a call\<close>

lemma inv_check:
  assumes inv: "ebr_inv c since tag s" and t: "es_pc s t = E_check" and s': "s' = enter_step t s"
  shows "ebr_inv c since tag s'"
proof -
  have th: "t \<in> set (eg_threads s)"
    using inv t by (auto simp: ebr_inv_def clock_ok_def view_def dest: spec [of _ t])
  show ?thesis
  proof (cases "local_state t s = CLOG_EBR_LOCAL_STATE_ACTIVE \<or> \<not> enter_allowed s")
    case True
    then have s2: "s' = s\<lparr>es_pc := (es_pc s)(t := E_idle)\<rparr>" by (simp add: s' enter_step_def goto_def)
    have "clock_ok c since s'" using inv t by (auto simp: ebr_inv_def clock_ok_def s2 view_upd)
    with inv t show ?thesis unfolding ebr_inv_def s2 by (simp add: view_same cong: part_congs)
  next
    case False
    then have s2: "s' = s\<lparr>es_pc := (es_pc s)(t := E_activate)\<rparr>" and "t \<notin> insiders (eg_local s)"
      by (simp_all add: s' enter_step_def goto_def insiders_def local_state_def)
    then have "clock_ok c since s'" using inv t th by (auto simp: ebr_inv_def clock_ok_def s2 view_upd)
    with inv t show ?thesis unfolding ebr_inv_def s2 by (simp add: view_same cong: part_congs)
  qed
qed

lemma inv_activate:
  assumes inv: "ebr_inv c since tag s" and t: "es_pc s t = E_activate"
    and s': "s' = goto t E_idle (set_local_state t CLOG_EBR_LOCAL_STATE_ACTIVE s)"
  shows "ebr_inv c (since(t := c)) tag s'"
proof -
  have th: "t \<in> set (eg_threads s)" "t \<notin> insiders (eg_local s)"
    using inv t by (auto simp: ebr_inv_def clock_ok_def view_def)
  have i: "insiders (eg_local s') = insert t (insiders (eg_local s))"
    by (simp add: s' goto_def set_local_state_def insiders_upd)
  have same: "view r (es_pc s') = view r (es_pc s)" if "r E_activate = r E_idle" for r :: "'a ebr_pc \<Rightarrow> 'v set"
    using t that by (simp add: s' view_same goto_def set_local_state_def)
  have act: "view activating (es_pc s') \<subseteq> view activating (es_pc s) - {(t, ())}"
      "view entering (es_pc s') \<subseteq> view entering (es_pc s)"
    by (auto simp: s' goto_def set_local_state_def view_upd)
  have rest: "eg_epoch s' = eg_epoch s" "eg_threads s' = eg_threads s" "eg_memory s' = eg_memory s"
      "es_shared s' = es_shared s" "es_freed s' = es_freed s" "es_used s' = es_used s" "es_refs s' = es_refs s"
    by (simp_all add: s' goto_def set_local_state_def)
  have tg: "tagged s' = tagged s" by (simp add: tagged_def same rest)
  have nopu: "(t, p, k) \<notin> view pushing (es_pc s)" for p k using t by (simp add: view_def)
  have "clock_ok c (since(t := c)) s'" using inv th act by (auto simp: ebr_inv_def clock_ok_def i rest)
  moreover have "scan_ok c (since(t := c)) s'" using inv by (auto simp: ebr_inv_def scan_ok_def i same)
  moreover have "pending_ok c (since(t := c)) tag s'"
    using inv nopu by (auto simp: ebr_inv_def pending_ok_def i same rest)
  moreover have "owners_ok (since(t := c)) tag s'" using inv th by (auto simp: ebr_inv_def owners_ok_def i same tg rest)
  ultimately show ?thesis using inv t unfolding ebr_inv_def s' goto_def set_local_state_def
    by (simp add: view_same cong: part_congs)
qed

lemma inv_epoch:
  assumes inv: "ebr_inv c since tag s" and t: "es_pc s t = R_epoch p"
    and s': "s' = goto t (R_push p (retire_index (eg_epoch s))) s"
  shows "ebr_inv c since (tag(p := c)) s'"
proof -
  have tp: "(t, p) \<in> view retiring (es_pc s)" using t by (simp add: view_def)
  with inv have p: "t \<in> insiders (eg_local s)" "p \<notin> set (es_freed s)" "(i, p) \<notin> entries (eg_memory s)" for i
    by (auto simp: ebr_inv_def pending_ok_def)
  have uniq: "u = t" if "(u, p) \<in> view retiring (es_pc s)" for u
    using inv tp that by (auto simp: ebr_inv_def pending_ok_def)
  have idx: "retire_index (eg_epoch s) = c mod 3" using inv by (simp add: ebr_inv_def clock_ok_def retire_index_mod)
  have s2: "s' = s\<lparr>es_pc := (es_pc s)(t := R_push p (c mod 3))\<rparr>" by (simp add: s' goto_def idx)
  have same: "view r (es_pc s') = view r (es_pc s)" if "r (R_epoch p) = r (R_push p (c mod 3))"
    for r :: "'a ebr_pc \<Rightarrow> 'v set"
    using t that by (simp add: s2 view_same)
  have pu: "view pushing (es_pc s') = insert (t, p, c mod 3) (view pushing (es_pc s))"
    using t by (simp add: s2 view_upd view_none)
  have nopu: "(u, p, i) \<notin> view pushing (es_pc s)" for u i
  proof
    assume x: "(u, p, i) \<in> view pushing (es_pc s)"
    then have "u = t" by (rule uniq [OF pushing_retiring])
    with x t show False by (simp add: view_def)
  qed
  have tg: "tagged s' = insert p (tagged s)" by (auto simp: tagged_def pu) (auto simp: s2)
  have sc: "since u \<le> c" if "u \<in> insiders (eg_local s)" for u using inv that by (auto simp: ebr_inv_def clock_ok_def)
  have "lists_ok c (tag(p := c)) s'" using inv p by (auto simp: ebr_inv_def lists_ok_def same) (auto simp: s2)
  moreover have "pending_ok c since (tag(p := c)) s'"
    using inv p sc nopu by (auto simp: ebr_inv_def pending_ok_def same pu) (auto simp: s2)
  moreover have "owners_ok since (tag(p := c)) s'"
    using inv p sc tp by (auto simp: ebr_inv_def owners_ok_def same tg) (auto simp: s2)
  ultimately show ?thesis using inv t unfolding ebr_inv_def s2 by (simp add: view_same cong: part_congs)
qed

lemma recent_push:
  assumes "ebr_inv c since tag s" and "(t, p, i) \<in> view pushing (es_pc s)"
  shows "i = tag p mod 3 \<and> tag p \<le> c \<and> c \<le> tag p + 1"
proof -
  from assms have "i = tag p mod 3 \<and> tag p \<le> c \<and> since t \<le> tag p" by (auto simp: ebr_inv_def pending_ok_def)
  moreover from assms pushing_retiring [OF assms(2)] have "t \<in> insiders (eg_local s)"
    by (auto simp: ebr_inv_def pending_ok_def)
  with assms(1) have "c \<le> since t + 1" by (simp add: ebr_inv_def clock_ok_def)
  ultimately show ?thesis by linarith
qed

lemma freeing_polled: "(t, i, ps) \<in> view freeing pc \<Longrightarrow> \<exists>e. (t, e) \<in> view polled_epoch pc \<and> i = release_index e"
  by (cases "pc t") (auto simp: view_def)

lemma freeing_index:
  assumes "ebr_inv c since tag s" and "(t, i, ps) \<in> view freeing (es_pc s)"
  shows "i = Suc c mod 3"
  using assms(1) freeing_polled [OF assms(2)]
  by (auto simp: ebr_inv_def poller_ok_def clock_ok_def release_index_mod)

lemma inv_push:
  assumes inv: "ebr_inv c since tag s" and t: "es_pc s t = R_push p i" and s': "s' = goto t E_idle (push_retired i p s)"
  shows "ebr_inv c since tag s'"
proof -
  have pu: "(t, p, i) \<in> view pushing (es_pc s)" and tp: "(t, p) \<in> view retiring (es_pc s)"
    using t by (simp_all add: view_def)
  from inv tp have p: "t \<in> insiders (eg_local s)" "p \<notin> es_shared s" "p \<notin> set (es_freed s)"
      "(j, p) \<notin> entries (eg_memory s)" for j
    by (auto simp: ebr_inv_def pending_ok_def)
  have uniq: "u = t" if "(u, p) \<in> view retiring (es_pc s)" for u
    using inv tp that by (auto simp: ebr_inv_def pending_ok_def)
  have tag: "i = tag p mod 3" "tag p \<le> c" "c \<le> tag p + 1" using recent_push [OF inv pu] by simp_all
  have nofree: "(u, i, ps) \<notin> view freeing (es_pc s)" for u ps
  proof
    assume "(u, i, ps) \<in> view freeing (es_pc s)"
    from freeing_index [OF inv this] tag old_tag [of "tag p" c] show False by simp
  qed
  have s2: "s' = s\<lparr>eg_memory := (eg_memory s)(i := p # eg_memory s i), es_pc := (es_pc s)(t := E_idle)\<rparr>"
    by (simp add: s' goto_def push_retired_def set_memory_def)
  have en: "entries (eg_memory s') = insert (i, p) (entries (eg_memory s))"
    by (auto simp: s2 entries_def split: if_splits)
  have rt: "view retiring (es_pc s') = view retiring (es_pc s) - {(t, p)}" using t
    by (auto simp: s2 view_def split: if_splits)
  have pus: "view pushing (es_pc s') = view pushing (es_pc s) - {(t, p, i)}" using t
    by (auto simp: s2 view_def split: if_splits)
  have same: "view r (es_pc s') = view r (es_pc s)" if "r (R_push p i) = r E_idle" for r :: "'a ebr_pc \<Rightarrow> 'v set"
    using t that by (simp add: s2 view_same)
  have tg: "tagged s' = tagged s" using pu by (auto simp: tagged_def pus en)
  have rest: "eg_local s' = eg_local s" "es_shared s' = es_shared s" "es_freed s' = es_freed s" "es_used s' = es_used s"
      "es_refs s' = es_refs s"
    by (simp_all add: s2)
  have "p \<notin> set (eg_memory s i)" using p(4) [of i] by (simp add: entries_def)
  then have "distinct (eg_memory s' j)" for j using inv by (simp add: s2 ebr_inv_def lists_ok_def)
  with inv p tag nofree have "lists_ok c tag s'" by (auto simp: ebr_inv_def lists_ok_def same en rest)
  moreover have "pending_ok c since tag s'"
    using inv uniq by (auto simp: ebr_inv_def pending_ok_def rt pus en rest)
  moreover have "owners_ok since tag s'"
  proof (rule owners_intro)
    fix q show "q \<in> es_used s' \<longleftrightarrow> q \<in> es_shared s' \<or> (\<exists>u. (u, q) \<in> view retiring (es_pc s')) \<or>
        (\<exists>j. (j, q) \<in> entries (eg_memory s')) \<or> q \<in> set (es_freed s')"
      unfolding rest ownersD(3) [OF inv] using tp by (cases "q = p") (auto simp: rt en)
  next
    fix q show "q \<in> es_shared s' \<Longrightarrow> q \<notin> set (es_freed s')" unfolding rest by (rule ownersD(1) [OF inv])
  next
    show "distinct (es_freed s')" unfolding rest by (rule ownersD(2) [OF inv])
  next
    fix u q show "q \<in> es_refs s' u \<Longrightarrow> u \<in> insiders (eg_local s') \<and> q \<in> es_used s' \<and> q \<notin> set (es_freed s') \<and>
        (q \<in> tagged s' \<longrightarrow> since u \<le> tag q)"
      unfolding rest tg by (rule ownersD(4) [OF inv])
  qed
  ultimately show ?thesis using inv t unfolding ebr_inv_def s2 by (simp add: view_same cong: part_congs)
qed

lemma inv_run_poll:
  assumes inv: "ebr_inv c since tag s" and t: "es_pc s t = P_epoch" and s': "s' = goto t (P_list (eg_epoch s)) s"
  shows "ebr_inv c since tag s'"
proof -
  have s2: "s' = s\<lparr>es_pc := (es_pc s)(t := P_list (eg_epoch s))\<rparr>" by (simp add: s' goto_def)
  have same: "view r (es_pc s') = view r (es_pc s)" if "r (P_list (eg_epoch s)) = r P_epoch" for r :: "'a ebr_pc \<Rightarrow> 'v set"
    using t that by (simp add: s2 view_same)
  have "poller_ok s'" using inv by (auto simp: ebr_inv_def poller_ok_def same) (auto simp: s2 view_upd)
  with inv t show ?thesis unfolding ebr_inv_def s2 by (simp add: view_same cong: part_congs)
qed

lemma inv_list:
  assumes inv: "ebr_inv c since tag s" and t: "es_pc s t = P_list e"
    and s': "s' = goto t (P_free e (eg_memory s (release_index e))) s"
  shows "ebr_inv c since tag s'"
proof -
  define ps where "ps = eg_memory s (release_index e)"
  have s2: "s' = s\<lparr>es_pc := (es_pc s)(t := P_free e ps)\<rparr>" by (simp add: s' goto_def ps_def)
  have "u = t" if "(u, ()) \<in> view polling (es_pc s)" for u
    using inv that t by (auto simp: ebr_inv_def poller_ok_def view_def)
  moreover have "(u, i, qs) \<in> view freeing (es_pc s) \<Longrightarrow> (u, ()) \<in> view polling (es_pc s)" for u i qs
    by (cases "es_pc s u") (auto simp: view_def)
  moreover have "(t, i, qs) \<notin> view freeing (es_pc s)" for i qs using t by (simp add: view_def)
  ultimately have none: "view freeing (es_pc s) = {}" by fastforce
  have fr: "view freeing (es_pc s') = {(t, release_index e, ps)}" by (simp add: s2 view_upd none)
  have "lists_ok c tag s'" using inv none
    by (auto simp: ebr_inv_def lists_ok_def fr) (auto simp: s2 ps_def entries_def)
  with inv t show ?thesis unfolding ebr_inv_def s2 by (simp add: view_same cong: part_congs)
qed

lemma inv_release:
  assumes inv: "ebr_inv c since tag s" and t: "es_pc s t = P_free e ps" and s': "s' = release_step t e ps s"
  shows "ebr_inv c since tag s'"
proof -
  define i where "i = release_index e"
  have ft: "(t, i, ps) \<in> view freeing (es_pc s)" using t by (simp add: view_def i_def)
  have only: "(u, j, qs) \<in> view freeing (es_pc s) \<Longrightarrow> u = t \<and> j = i \<and> qs = ps" for u j qs
  proof -
    assume x: "(u, j, qs) \<in> view freeing (es_pc s)"
    then have "(u, ()) \<in> view polling (es_pc s)" by (cases "es_pc s u") (auto simp: view_def)
    moreover have "(t, ()) \<in> view polling (es_pc s)" using t by (simp add: view_def)
    ultimately have "u = t" using inv by (auto simp: ebr_inv_def poller_ok_def)
    with x t show ?thesis by (auto simp: view_def i_def)
  qed
  from inv ft have l: "distinct ps" "\<And>p. p \<in> set ps \<Longrightarrow> p \<notin> set (es_freed s) \<and> (i, p) \<in> entries (eg_memory s)"
      "\<And>p. (i, p) \<in> entries (eg_memory s) \<Longrightarrow> p \<in> set ps \<or> p \<in> set (es_freed s)"
    by (auto simp: ebr_inv_def lists_ok_def)
  have ci: "i = Suc c mod 3" by (rule freeing_index [OF inv ft])
  show ?thesis
  proof (cases ps)
    case Nil
    have s2: "s' = s\<lparr>eg_memory := (eg_memory s)(i := []), es_pc := (es_pc s)(t := P_lock e)\<rparr>"
      by (simp add: s' Nil release_step_def goto_def set_memory_def i_def)
    have en: "entries (eg_memory s') = {(j, p) \<in> entries (eg_memory s). j \<noteq> i}" by (simp add: s2 entries_upd)
    have fr: "view freeing (es_pc s') = {}" using only by (auto simp: s2 view_upd)
    have same: "view r (es_pc s') = view r (es_pc s)" if "r (P_lock e) = r (P_free e ps)" for r :: "'a ebr_pc \<Rightarrow> 'v set"
      using t that by (simp add: s2 view_same)
    have rest: "eg_local s' = eg_local s" "es_shared s' = es_shared s" "es_freed s' = es_freed s" "es_used s' = es_used s"
      "es_refs s' = es_refs s"
      by (simp_all add: s2)
    have dist: "distinct (eg_memory s' j)" for j using inv by (simp add: s2 ebr_inv_def lists_ok_def)
    have gone: "(j, p) \<in> entries (eg_memory s) \<Longrightarrow> (j, p) \<in> entries (eg_memory s') \<or> p \<in> set (es_freed s)" for j p
      using l(3) by (auto simp: en Nil)
    have "lists_ok c tag s'" using inv dist only by (auto simp: ebr_inv_def lists_ok_def fr en rest)
    moreover have "pending_ok c since tag s'" using inv by (auto simp: ebr_inv_def pending_ok_def same en rest)
    moreover have "tagged s' \<subseteq> tagged s" by (auto simp: tagged_def same en)
    then have "owners_ok since tag s'" using inv gone
      by (auto simp: ebr_inv_def owners_ok_def same rest) (auto simp: en)
    ultimately show ?thesis using inv t unfolding ebr_inv_def s2 by (simp add: view_same cong: part_congs)
  next
    case (Cons p qs)
    have s2: "s' = s\<lparr>es_freed := es_freed s @ [p], es_pc := (es_pc s)(t := P_free e qs)\<rparr>"
      by (simp add: s' Cons release_step_def goto_def)
    have fr: "view freeing (es_pc s') = {(t, i, qs)}" using only by (auto simp: s2 view_upd i_def)
    have same: "view r (es_pc s') = view r (es_pc s)" if "r (P_free e qs) = r (P_free e ps)" for r :: "'a ebr_pc \<Rightarrow> 'v set"
      using t that by (simp add: s2 view_same)
    have rest: "eg_local s' = eg_local s" "es_shared s' = es_shared s" "es_freed s' = es_freed s @ [p]" "es_used s' = es_used s"
      "es_refs s' = es_refs s" "eg_memory s' = eg_memory s"
      by (simp_all add: s2)
    have p: "(i, p) \<in> entries (eg_memory s)" "p \<notin> set (es_freed s)" "p \<notin> set qs" using l Cons by auto
    have old: "tag p mod 3 = Suc c mod 3" "tag p \<le> c" "p \<notin> es_shared s"
      using inv p(1) ci by (auto simp: ebr_inv_def lists_ok_def)
    have tp: "p \<in> tagged s" using p(1) by (auto simp: tagged_def)
    have noref: "p \<notin> es_refs s u" for u
    proof
      assume "p \<in> es_refs s u"
      with inv tp have "since u \<le> tag p" "u \<in> insiders (eg_local s)" by (auto simp: ebr_inv_def owners_ok_def)
      moreover from this inv have "c \<le> since u + 1" by (auto simp: ebr_inv_def clock_ok_def)
      ultimately show False using old_tag [OF old(1,2)] by simp
    qed
    have nort: "(u, p) \<notin> view retiring (es_pc s)" for u
      using inv p(1) by (auto simp: ebr_inv_def pending_ok_def)
    have tg: "tagged s' = tagged s" by (simp add: tagged_def same rest)
    have iq: "j = i" if "(j, p) \<in> entries (eg_memory s)" for j
      using inv that old ci by (auto simp: ebr_inv_def lists_ok_def)
    have old_freed: "j = i \<and> q \<notin> set ps" if "(j, q) \<in> entries (eg_memory s)" "q \<in> set (es_freed s)" for j q
    proof -
      from inv that obtain u qs' where "(u, j, qs') \<in> view freeing (es_pc s)" "q \<notin> set qs'"
        by (fastforce simp: ebr_inv_def lists_ok_def)
      with only show ?thesis by blast
    qed
    have f12: "\<forall>j. distinct (eg_memory s j)" "\<forall>(j, q) \<in> entries (eg_memory s). tag q mod 3 = j \<and> tag q \<le> c \<and> q \<notin> es_shared s"
      using inv by (simp_all add: ebr_inv_def lists_ok_def)
    have f3: "i = j \<and> q \<notin> set qs" if "(j, q) \<in> entries (eg_memory s)" "q \<in> set (es_freed s @ [p])" for j q
      using that old_freed [of j q] iq [of j] p(3) Cons by auto
    have f4: "distinct qs" "r \<in> set qs \<Longrightarrow> r \<notin> set (es_freed s @ [p]) \<and> (i, r) \<in> entries (eg_memory s)"
      "(i, r) \<in> entries (eg_memory s) \<Longrightarrow> r \<in> set qs \<or> r \<in> set (es_freed s @ [p])" for r
      using l(1) l(2) [of r] l(3) [of r] p(3) by (auto simp: Cons)
    have "lists_ok c tag s'" unfolding lists_ok_def fr rest
    proof (intro conjI, goal_cases)
      case 1 show ?case by (rule f12)
    next
      case 2 show ?case by (rule f12)
    next
      case 3 show ?case using f3 by simp blast
    next
      case 4 show ?case using f4 by simp
    qed
    moreover have "pending_ok c since tag s'" using inv nort by (auto simp: ebr_inv_def pending_ok_def same rest)
    moreover have "owners_ok since tag s'"
    proof (rule owners_intro)
      fix q show "q \<in> es_used s' \<longleftrightarrow> q \<in> es_shared s' \<or> (\<exists>u. (u, q) \<in> view retiring (es_pc s')) \<or>
          (\<exists>j. (j, q) \<in> entries (eg_memory s')) \<or> q \<in> set (es_freed s')"
        unfolding rest ownersD(3) [OF inv] using p(1) by (cases "q = p") (auto simp: same)
    next
      fix u q assume q: "q \<in> es_refs s' u"
      then have "q \<noteq> p" using noref by (auto simp: rest)
      with ownersD(4) [OF inv, of q u] q show "u \<in> insiders (eg_local s') \<and> q \<in> es_used s' \<and>
          q \<notin> set (es_freed s') \<and> (q \<in> tagged s' \<longrightarrow> since u \<le> tag q)"
        unfolding rest tg by simp
    next
      fix q assume q: "q \<in> es_shared s'"
      then have "q \<noteq> p" using old(3) by (auto simp: rest)
      with ownersD(1) [OF inv, of q] q show "q \<notin> set (es_freed s')" by (simp add: rest)
    next
      show "distinct (es_freed s')" using ownersD(2) [OF inv] p(2) by (simp add: rest)
    qed
    ultimately show ?thesis using inv t unfolding ebr_inv_def s2 by (simp add: view_same cong: part_congs)
  qed
qed

lemma polling_locked:
  assumes "ebr_inv c since tag s" and "es_mutex s = None"
  shows "view locking (es_pc s) = {}"
  using assms by (simp add: ebr_inv_def poller_ok_def)

lemma only_poller:
  assumes "ebr_inv c since tag s" and "(t, ()) \<in> view polling (es_pc s)" and "(u, ()) \<in> view polling (es_pc s)"
  shows "u = t"
  using assms by (auto simp: ebr_inv_def poller_ok_def)

lemma polled_now:
  assumes "ebr_inv c since tag s" and "e \<in> polled_epoch (es_pc s t)"
  shows "e = eg_epoch s"
  using assms(1) view_in [of e polled_epoch "es_pc s" t, OF assms(2)] by (auto simp: ebr_inv_def poller_ok_def)

lemma inv_lock:
  assumes inv: "ebr_inv c since tag s" and t: "es_pc s t = P_lock e" and m: "es_mutex s = None"
    and s': "s' = goto t (if eg_threads s = [] then P_reset else P_scan e (eg_threads s)) (s\<lparr>es_mutex := Some t\<rparr>)"
  shows "ebr_inv c since tag s'"
proof -
  define x :: "'a ebr_pc" where "x = (if eg_threads s = [] then P_reset else P_scan e (eg_threads s))"
  have s2: "s' = s\<lparr>es_mutex := Some t, es_pc := (es_pc s)(t := x)\<rparr>" by (simp add: s' goto_def x_def)
  have lk: "view locking (es_pc s') = {(t, ())}"
    using polling_locked [OF inv m] by (simp add: s2 view_upd x_def)
  have e: "e = eg_epoch s" using polled_now [OF inv, of e t] t by simp
  have pe: "view polled_epoch (es_pc s') \<subseteq> view polled_epoch (es_pc s) \<union> {(t, e)}" by (auto simp: s2 view_upd x_def)
  have same: "view r (es_pc s') = view r (es_pc s)" if "r x = r (P_lock e)" for r :: "'a ebr_pc \<Rightarrow> 'v set"
    using t that by (simp add: s2 view_same)
  have po: "polling x = polling (P_lock e)" by (simp add: x_def)
  have "poller_ok s'" using inv pe e
    by (auto simp: ebr_inv_def poller_ok_def same [OF po] lk) (auto simp: s2)
  moreover have "scan_ok c since s'"
  proof -
    have "view scanning (es_pc s') \<subseteq> view scanning (es_pc s) \<union> {(t, eg_threads s)}"
      "view advancing (es_pc s') \<subseteq> view advancing (es_pc s)"
      by (auto simp: s2 view_upd x_def)
    moreover have "\<forall>u \<in> insiders (eg_local s). u \<in> set (eg_threads s)" using inv by (simp add: ebr_inv_def clock_ok_def)
    ultimately show ?thesis using inv unfolding ebr_inv_def scan_ok_def s2 by fastforce
  qed
  ultimately show ?thesis using inv t unfolding ebr_inv_def s2 x_def by (simp add: view_same cong: part_congs)
qed

lemma inv_scan:
  assumes inv: "ebr_inv c since tag s" and t: "es_pc s t = P_scan e us" and s': "s' = scan_step t e us s"
  shows "ebr_inv c since tag s'"
proof -
  have ts: "(t, us) \<in> view scanning (es_pc s)" using t by (simp add: view_def)
  with inv have sc: "\<forall>u \<in> insiders (eg_local s). since u = c \<or> u \<in> set us" by (auto simp: ebr_inv_def scan_ok_def)
  obtain x where s2: "s' = s\<lparr>es_pc := (es_pc s)(t := x)\<rparr>" and x: "polling x = {()}" "locking x = {()}"
      "polled_epoch x \<subseteq> {e}" "retiring x = {}" "pushing x = {}" "freeing x = {}" "activating x = {}" "entering x = {}"
      "\<forall>vs \<in> scanning x. \<forall>u \<in> insiders (eg_local s). since u = c \<or> u \<in> set vs"
      "advancing x \<noteq> {} \<longrightarrow> (\<forall>u \<in> insiders (eg_local s). since u = c)"
  proof (cases us)
    case Nil
    with that [of "P_advance e"] sc show ?thesis by (simp add: s' scan_step_def goto_def)
  next
    case (Cons v vs)
    show ?thesis
    proof (cases "local_state v s = CLOG_EBR_LOCAL_STATE_ACTIVE")
      case True
      with that [of P_reset] Cons show ?thesis by (simp add: s' scan_step_def goto_def)
    next
      case False
      then have "v \<notin> insiders (eg_local s)" by (simp add: insiders_def local_state_def)
      with that [of "P_scan e vs"] Cons sc False show ?thesis by (auto simp: s' scan_step_def goto_def)
    qed
  qed
  have e: "e = eg_epoch s" using polled_now [OF inv, of e t] t by simp
  have same: "view r (es_pc s') = view r (es_pc s)" if "r x = r (P_scan e us)" for r :: "'a ebr_pc \<Rightarrow> 'v set"
    using t that by (simp add: s2 view_same)
  have pe: "view polled_epoch (es_pc s') \<subseteq> view polled_epoch (es_pc s) \<union> {(t, e)}" using x(3) by (auto simp: s2 view_upd)
  have "poller_ok s'" using inv pe e x(1,2)
    by (auto simp: ebr_inv_def poller_ok_def same) (auto simp: s2)
  moreover have "view scanning (es_pc s') \<subseteq> view scanning (es_pc s) \<union> Pair t ` scanning x"
      "view advancing (es_pc s') \<subseteq> view advancing (es_pc s) \<union> Pair t ` advancing x"
    by (auto simp: s2 view_upd)
  with inv x(9,10) have "scan_ok c since s'" unfolding ebr_inv_def scan_ok_def s2 by fastforce
  ultimately show ?thesis using inv t x unfolding ebr_inv_def s2 by (simp add: view_same cong: part_congs)
qed

lemma inv_advance:
  assumes inv: "ebr_inv c since tag s" and t: "es_pc s t = P_advance e"
    and s': "s' = goto t P_reset (s\<lparr>eg_epoch := next_epoch e\<rparr>)"
  shows "ebr_inv (Suc c) since tag s'"
proof -
  have s2: "s' = s\<lparr>eg_epoch := next_epoch e, es_pc := (es_pc s)(t := P_reset)\<rparr>" by (simp add: s' goto_def)
  have e: "e = of_nat (c mod 3)" using polled_now [OF inv, of e t] t inv by (simp add: ebr_inv_def clock_ok_def)
  have all: "\<forall>u \<in> insiders (eg_local s). since u = c"
  proof -
    have "(t, ()) \<in> view advancing (es_pc s)" using t by (simp add: view_def)
    with inv show ?thesis by (auto simp: ebr_inv_def scan_ok_def)
  qed
  have same: "view r (es_pc s') = view r (es_pc s)" if "r P_reset = r (P_advance e)" for r :: "'a ebr_pc \<Rightarrow> 'v set"
    using t that by (simp add: s2 view_same)
  have tp: "(t, ()) \<in> view polling (es_pc s)" using t by (simp add: view_def)
  have "(u, ()) \<in> view polling pc" if "(u, e) \<in> view polled_epoch pc" for u e and pc :: "nat \<Rightarrow> 'a ebr_pc"
    using that by (cases "pc u") (auto simp: view_def)
  moreover have pe: "view polled_epoch (es_pc s') = {(u, e) \<in> view polled_epoch (es_pc s). u \<noteq> t}" by (simp add: s2 view_upd)
  ultimately have none: "view polled_epoch (es_pc s') = {}" using only_poller [OF inv tp] by fastforce
  have "(u, ()) \<in> view polling pc" if "(u, v) \<in> view scanning pc \<or> (u, w) \<in> view advancing pc"
    for u v w and pc :: "nat \<Rightarrow> 'a ebr_pc"
    using that by (cases "pc u") (auto simp: view_def)
  with only_poller [OF inv tp] have "(u, v) \<in> view scanning (es_pc s) \<Longrightarrow> u = t" "(u, w) \<in> view advancing (es_pc s) \<Longrightarrow> u = t"
    for u v w by blast+
  then have nosc: "view scanning (es_pc s') = {}" "view advancing (es_pc s') = {}" by (auto simp: s2 view_upd)
  have "poller_ok s'" using inv by (simp add: ebr_inv_def poller_ok_def same none) (simp add: s2)
  moreover have "scan_ok (Suc c) since s'" by (simp add: scan_ok_def nosc)
  moreover have "clock_ok (Suc c) since s'" using inv all
    by (auto simp: ebr_inv_def clock_ok_def same) (auto simp: s2 e next_epoch_mod)
  moreover have "lists_ok (Suc c) tag s'" using inv by (auto simp: ebr_inv_def lists_ok_def same) (auto simp: s2)
  moreover have "pending_ok (Suc c) since tag s'" using inv by (auto simp: ebr_inv_def pending_ok_def same) (auto simp: s2)
  ultimately show ?thesis using inv t unfolding ebr_inv_def s2 by (simp add: view_same cong: part_congs)
qed

lemma inv_reset:
  assumes inv: "ebr_inv c since tag s" and t: "es_pc s t = P_reset"
    and s': "s' = goto t P_unlock (s\<lparr>eg_state := CLOG_EBR_GLOBAL_STATE_ACTIVE_NORMAL\<rparr>)"
  shows "ebr_inv c since tag s'"
proof -
  have s2: "s' = s\<lparr>eg_state := CLOG_EBR_GLOBAL_STATE_ACTIVE_NORMAL, es_pc := (es_pc s)(t := P_unlock)\<rparr>"
    by (simp add: s' goto_def)
  have tp: "(t, ()) \<in> view polling (es_pc s)" using t by (simp add: view_def)
  have "view polling (es_pc s') = {(u, v) \<in> view polling (es_pc s). u \<noteq> t}" by (simp add: s2 view_upd)
  with only_poller [OF inv tp] have none: "view polling (es_pc s') = {}" by auto
  have same: "view r (es_pc s') = view r (es_pc s)" if "r P_unlock = r P_reset" for r :: "'a ebr_pc \<Rightarrow> 'v set"
    using t that by (simp add: s2 view_same)
  have "poller_ok s'" using inv by (simp add: ebr_inv_def poller_ok_def same none) (simp add: s2)
  then show ?thesis using inv t unfolding ebr_inv_def s2 by (simp add: view_same cong: part_congs)
qed

lemma inv_unlock:
  assumes inv: "ebr_inv c since tag s" and t: "es_pc s t = P_unlock" and s': "s' = goto t E_idle (s\<lparr>es_mutex := None\<rparr>)"
  shows "ebr_inv c since tag s'"
proof -
  have s2: "s' = s\<lparr>es_mutex := None, es_pc := (es_pc s)(t := E_idle)\<rparr>" by (simp add: s' goto_def)
  have "(t, ()) \<in> view locking (es_pc s)" using t by (simp add: view_def)
  with inv have lk: "view locking (es_pc s) = {(t, ())}" by (auto simp: ebr_inv_def poller_ok_def split: option.splits)
  then have none: "view locking (es_pc s') = {}" by (auto simp: s2 view_upd)
  have same: "view r (es_pc s') = view r (es_pc s)" if "r E_idle = r P_unlock" for r :: "'a ebr_pc \<Rightarrow> 'v set"
    using t that by (simp add: s2 view_same)
  have "poller_ok s'" using inv by (simp add: ebr_inv_def poller_ok_def same none) (simp add: s2)
  then show ?thesis using inv t unfolding ebr_inv_def s2 by (simp add: view_same cong: part_congs)
qed

lemma inv_run:
  assumes inv: "ebr_inv c since tag s" and st: "run_step t s = Some s'"
  shows "\<exists>c since tag. ebr_inv c since tag s'"
proof (cases "es_pc s t")
  case E_activate
  with st inv_activate [OF inv E_activate] show ?thesis by (auto simp: run_step_def)
next
  case (R_epoch p)
  with st inv_epoch [OF inv R_epoch] show ?thesis by (auto simp: run_step_def)
next
  case (P_advance e)
  with st inv_advance [OF inv P_advance] show ?thesis by (auto simp: run_step_def)
next
  case (P_lock e)
  with st inv_lock [OF inv P_lock] show ?thesis by (auto simp: run_step_def split: if_splits)
next
  case E_check
  with st inv_check [OF inv E_check] show ?thesis by (auto simp: run_step_def)
next
  case (R_push p i)
  with st inv_push [OF inv R_push] show ?thesis by (auto simp: run_step_def)
next
  case P_epoch
  with st inv_run_poll [OF inv P_epoch] show ?thesis by (auto simp: run_step_def)
next
  case (P_list e)
  with st inv_list [OF inv P_list] show ?thesis by (auto simp: run_step_def)
next
  case (P_free e ps)
  with st inv_release [OF inv P_free] show ?thesis by (auto simp: run_step_def)
next
  case (P_scan e us)
  with st inv_scan [OF inv P_scan] show ?thesis by (auto simp: run_step_def)
next
  case P_reset
  with st inv_reset [OF inv P_reset] show ?thesis by (auto simp: run_step_def)
next
  case P_unlock
  with st inv_unlock [OF inv P_unlock] show ?thesis by (auto simp: run_step_def)
qed (use st in \<open>simp_all add: run_step_def\<close>)

lemma inv_step:
  assumes "ebr_inv c since tag s" and "granted_entry a" and "ebr_step a s = Some s'"
  shows "\<exists>c since tag. ebr_inv c since tag s'"
proof (cases a)
  case (Act_run t)
  with inv_run [OF assms(1)] assms(3) show ?thesis by simp
next
  case (Act_entry t ok)
  with assms(2) have "ok" by (simp add: granted_entry_def)
  with inv_entry [OF assms(1), of t s'] Act_entry assms(3) show ?thesis by auto
qed (use assms(3) in \<open>blast intro: inv_register [OF assms(1)] inv_enter [OF assms(1)] inv_exit [OF assms(1)]
  inv_unregister [OF assms(1)] inv_poll [OF assms(1)] inv_again [OF assms(1)] inv_publish [OF assms(1)]
  inv_acquire [OF assms(1)] inv_retire [OF assms(1)]\<close>)+

lemma reach_inv: "ebr_reach False s \<Longrightarrow> \<exists>c since tag. ebr_inv c since tag s"
  by (induction rule: ebr_reach.induct) (blast intro: inv_start inv_step)+

subsection \<open>Calls one after the other\<close>

datatype 'p ebr_call =
  Call_register nat | Call_enter nat | Call_exit nat | Call_unregister nat | Call_retire 'p | Call_poll

fun ebr_do ::
    "('p \<Rightarrow> 'm mem_scheme \<Rightarrow> 'm mem_scheme) \<Rightarrow> 'p ebr_call \<Rightarrow> 'p clog_ebr_global option \<times> 'm mem_scheme
     \<Rightarrow> 'p clog_ebr_global option \<times> 'm mem_scheme" where
  "ebr_do dealloc (Call_register t) (g, m) = snd (clog_ebr_register CLOG_SUCCESS t True g m)"
| "ebr_do dealloc (Call_enter t) (g, m) = (map_option (\<lambda>g. snd (clog_ebr_enter (Some t) g)) g, m)"
| "ebr_do dealloc (Call_exit t) (g, m) = (map_option (clog_ebr_exit (Some t)) g, m)"
| "ebr_do dealloc (Call_unregister t) (g, m) = (case g of
      None \<Rightarrow> (None, m) | Some g \<Rightarrow> clog_ebr_unregister CLOG_SUCCESS dealloc (Some t) g m)"
| "ebr_do dealloc (Call_retire p) (g, m) = clog_ebr_defer_release_global dealloc g (Some p) m"
| "ebr_do dealloc Call_poll (g, m) = clog_ebr_poll CLOG_SUCCESS dealloc g m"

definition retired_by :: "'p ebr_call list \<Rightarrow> 'p list" where
  "retired_by cs = List.map_filter (\<lambda>c. case c of Call_retire p \<Rightarrow> Some p | _ \<Rightarrow> None) cs"

definition waiting :: "('p, 'z) clog_ebr_global_scheme \<Rightarrow> nat" where
  "waiting g = length (eg_memory g 0) + length (eg_memory g 1) + length (eg_memory g 2)"

lemma live_release_list:
  "(\<And>p m. live (dealloc p m) = live m - 1) \<Longrightarrow> live (release_list dealloc ps m) = live m - 2 * int (length ps)"
  by (induction ps arbitrary: m) (simp_all add: mem_simps)

lemma live_free_locals: "live (free_locals ts m) = live m - int (length ts)"
  by (induction ts arbitrary: m) (simp_all add: mem_simps)

lemma waiting_set:
  "i < 3 \<Longrightarrow> int (waiting (set_memory i ps g)) = int (waiting g) - int (length (eg_memory g i)) + int (length ps)"
  by (auto simp: waiting_def set_memory_def less_Suc_eq numeral_3_eq_3)

lemma retire_index_less: "retire_index e < 3" "release_index e < 3"
  by (simp_all add: retire_index_def release_index_def CLOG_EBR_NUM_EPOCHS_def unat_mod)

definition books :: "int \<Rightarrow> 'p clog_ebr_global option \<times> 'm mem_scheme \<Rightarrow> bool" where
  "books k gm \<longleftrightarrow> (\<exists>g. fst gm = Some g \<and> eg_state g = CLOG_EBR_GLOBAL_STATE_ACTIVE_NORMAL \<and>
     live (snd gm) = k + 1 + int (length (eg_threads g)) + 2 * int (waiting g))"

lemma ebr_do_books:
  assumes "books k gm" and law: "\<And>p m. live (dealloc p m) = live m - 1"
  shows "books (k - int (length (retired_by [c]))) (ebr_do dealloc c gm)"
proof -
  from assms(1) obtain g m where gm: "gm = (Some g, m)" and st: "eg_state g = CLOG_EBR_GLOBAL_STATE_ACTIVE_NORMAL"
    and lv: "live m = k + 1 + int (length (eg_threads g)) + 2 * int (waiting g)"
    by (cases gm) (auto simp: books_def)
  show ?thesis
  proof (cases c)
    case (Call_register t)
    with gm st lv show ?thesis
      by (auto simp: books_def retired_by_def map_filter_simps clog_ebr_register_def link_local_def waiting_def
          dest!: live_clog_mallocD split: prod.splits bool.splits)
  next
    case (Call_enter t)
    with gm st lv show ?thesis
      by (auto simp: books_def retired_by_def map_filter_simps clog_ebr_enter_def set_local_epoch_def set_local_state_def
          waiting_def Let_def)
  next
    case (Call_exit t)
    with gm st lv show ?thesis
      by (auto simp: books_def retired_by_def map_filter_simps clog_ebr_exit_def set_local_state_def waiting_def)
  next
    case (Call_unregister t)
    with gm st lv show ?thesis
      by (auto simp: books_def retired_by_def map_filter_simps clog_ebr_unregister_def clog_ebr_try_destroy_def
          set_local_state_def waiting_def)
  next
    case (Call_retire p)
    obtain b m' where ma: "clog_malloc sizeof_ebr_node m = (b, m')" by fastforce
    have w: "int (waiting (push_retired (retire_index (eg_epoch g)) p g)) = int (waiting g) + 1"
      using waiting_set [OF retire_index_less(1), of _ "p # eg_memory g (retire_index (eg_epoch g))" g] by (simp add: push_retired_def)
    show ?thesis
    proof (cases b)
      case True
      with gm st lv Call_retire ma live_clog_mallocD [OF ma] w show ?thesis
        by (simp add: books_def retired_by_def map_filter_simps clog_ebr_defer_release_global_def)
          (simp add: push_retired_def set_memory_def)
    next
      case False
      with gm st lv Call_retire ma live_clog_mallocD [OF ma] law [of p m'] show ?thesis
        by (simp add: books_def retired_by_def map_filter_simps clog_ebr_defer_release_global_def)
    qed
  next
    case Call_poll
    define i where "i = release_index (eg_epoch g)"
    define g' where "g' = set_memory i [] (g\<lparr>eg_state := CLOG_EBR_GLOBAL_STATE_ACTIVE_GC\<rparr>)"
    have "int (waiting g') = int (waiting (g\<lparr>eg_state := CLOG_EBR_GLOBAL_STATE_ACTIVE_GC\<rparr>)) - int (length (eg_memory g i))"
      using waiting_set [OF retire_index_less(2), of _ "[]" "g\<lparr>eg_state := CLOG_EBR_GLOBAL_STATE_ACTIVE_GC\<rparr>"]
      by (simp add: g'_def i_def)
    then have w: "int (waiting g') = int (waiting g) - int (length (eg_memory g i))" by (simp add: waiting_def)
    have m': "live (release_list dealloc (eg_memory g i) m) = k + 1 + int (length (eg_threads g')) + 2 * int (waiting g')"
      using lv w live_release_list [of dealloc "eg_memory g i" m, OF law] by (simp add: g'_def set_memory_def)
    have "ebr_do dealloc c gm =
      (Some (g'\<lparr>eg_epoch := (if eg_threads g' = [] \<or> (\<exists>t \<in> set (eg_threads g'). local_state t g' = CLOG_EBR_LOCAL_STATE_ACTIVE)
          then eg_epoch g' else next_epoch (eg_epoch g)), eg_state := CLOG_EBR_GLOBAL_STATE_ACTIVE_NORMAL\<rparr>),
       release_list dealloc (eg_memory g i) m)"
      using st by (auto simp: Call_poll gm clog_ebr_poll_def Let_def i_def [symmetric] g'_def set_memory_def)
    with m' show ?thesis by (simp add: books_def Call_poll retired_by_def map_filter_simps waiting_def)
  qed
qed

lemma ebr_calls_books:
  assumes law: "\<And>p m. live (dealloc p m) = live m - 1"
  shows "books k gm \<Longrightarrow> books (k - int (length (retired_by cs))) (fold (ebr_do dealloc) cs gm)"
proof (induction cs arbitrary: k gm)
  case (Cons c cs)
  have "length (retired_by (c # cs)) = length (retired_by [c]) + length (retired_by cs)"
    by (simp add: retired_by_def map_filter_simps split: option.splits)
  with Cons.IH [OF ebr_do_books [OF Cons.prems law, of c]] show ?case by (simp add: algebra_simps)
qed (simp add: retired_by_def map_filter_simps)

lemma try_destroy_books:
  assumes law: "\<And>p m. live (dealloc p m) = live m - 1"
    and lv: "live m = k + 1 + int (length (eg_threads g)) + 2 * int (waiting g)"
    and rel: "\<forall>t \<in> set (eg_threads g). local_state t g = CLOG_EBR_LOCAL_STATE_RELEASED"
    and st: "eg_state g = CLOG_EBR_GLOBAL_STATE_INACTIVE"
  shows "\<exists>m'. clog_ebr_try_destroy CLOG_SUCCESS dealloc g m = (CLOG_SUCCESS, None, m') \<and> live m' = k"
  using assms by (auto simp: clog_ebr_try_destroy_def Let_def live_free_locals mem_simps live_release_list [OF law]
      waiting_def)

lemma create_books:
  "clog_ebr_create True True CLOG_SUCCESS m = (CLOG_SUCCESS, Some g, m') \<Longrightarrow> books (live m) (Some g, m')"
  by (auto simp: clog_ebr_create_def books_def waiting_def dest!: live_clog_mallocD split: prod.splits bool.splits)

subsection \<open>Three collections\<close>

definition quiet :: "'p clog_ebr_global \<Rightarrow> bool" where
  "quiet g \<longleftrightarrow> eg_state g = CLOG_EBR_GLOBAL_STATE_ACTIVE_NORMAL \<and> eg_threads g \<noteq> [] \<and>
     (\<forall>t \<in> set (eg_threads g). local_state t g \<noteq> CLOG_EBR_LOCAL_STATE_ACTIVE)"

lemma poll_quiet:
  assumes "quiet g"
  shows "clog_ebr_poll CLOG_SUCCESS dealloc (Some g) m =
    (Some ((set_memory (release_index (eg_epoch g)) [] g)\<lparr>eg_epoch := next_epoch (eg_epoch g)\<rparr>),
     release_list dealloc (eg_memory g (release_index (eg_epoch g))) m)"
proof -
  have "\<not> (\<exists>t \<in> set (eg_threads g). local_state t (set_memory i [] (g\<lparr>eg_state := x\<rparr>)) = CLOG_EBR_LOCAL_STATE_ACTIVE)"
    for i x using assms by (simp add: quiet_def local_state_def set_memory_def)
  with assms show ?thesis
    by (simp add: clog_ebr_poll_def quiet_def Let_def) (simp add: set_memory_def quiet_def)
qed

lemma quiet_poll: "quiet g \<Longrightarrow> quiet ((set_memory i [] g)\<lparr>eg_epoch := e\<rparr>)"
  by (simp add: quiet_def set_memory_def local_state_def)

definition poll3 where
  "poll3 dealloc g m =
     (case clog_ebr_poll CLOG_SUCCESS dealloc g m of (g, m) \<Rightarrow>
        (case clog_ebr_poll CLOG_SUCCESS dealloc g m of (g, m) \<Rightarrow> clog_ebr_poll CLOG_SUCCESS dealloc g m))"

lemma release_list_append: "release_list dealloc (ps @ qs) m = release_list dealloc qs (release_list dealloc ps m)"
  by (induction ps arbitrary: m) simp_all

lemma poll3_quiet:
  assumes q: "quiet g" and e: "eg_epoch g = of_nat (c mod 3)"
  shows "\<exists>g'. poll3 dealloc (Some g) m =
      (Some g', release_list dealloc (eg_memory g (Suc c mod 3) @ eg_memory g (Suc (Suc c) mod 3) @ eg_memory g (c mod 3)) m) \<and>
    eg_memory g' (c mod 3) = [] \<and> eg_memory g' (Suc c mod 3) = [] \<and> eg_memory g' (Suc (Suc c) mod 3) = [] \<and>
    eg_epoch g' = eg_epoch g \<and> eg_threads g' = eg_threads g \<and> eg_local g' = eg_local g"
proof -
  define g1 where "g1 = (set_memory (Suc c mod 3) [] g)\<lparr>eg_epoch := of_nat (Suc c mod 3)\<rparr>"
  define g2 where "g2 = (set_memory (Suc (Suc c) mod 3) [] g1)\<lparr>eg_epoch := of_nat (Suc (Suc c) mod 3)\<rparr>"
  define g3 where "g3 = (set_memory (Suc (Suc (Suc c)) mod 3) [] g2)\<lparr>eg_epoch := of_nat (Suc (Suc (Suc c)) mod 3)\<rparr>"
  have q1: "quiet g1" unfolding g1_def by (rule quiet_poll [OF q])
  have q2: "quiet g2" unfolding g2_def by (rule quiet_poll [OF q1])
  have e1: "eg_epoch g1 = of_nat (Suc c mod 3)" by (simp add: g1_def)
  have e2: "eg_epoch g2 = of_nat (Suc (Suc c) mod 3)" by (simp add: g2_def)
  have p: "clog_ebr_poll CLOG_SUCCESS dealloc (Some g) m = (Some g1, release_list dealloc (eg_memory g (Suc c mod 3)) m)" for m
    by (simp add: poll_quiet [OF q] e release_index_mod next_epoch_mod g1_def)
  have p1: "clog_ebr_poll CLOG_SUCCESS dealloc (Some g1) m = (Some g2, release_list dealloc (eg_memory g1 (Suc (Suc c) mod 3)) m)" for m
    by (simp add: poll_quiet [OF q1] e1 release_index_mod next_epoch_mod g2_def)
  have p2: "clog_ebr_poll CLOG_SUCCESS dealloc (Some g2) m = (Some g3, release_list dealloc (eg_memory g2 (Suc (Suc (Suc c)) mod 3)) m)" for m
    by (simp add: poll_quiet [OF q2] e2 release_index_mod next_epoch_mod g3_def)
  have 3: "Suc (Suc (Suc c)) mod 3 = c mod 3" by presburger
  have ne: "Suc c mod 3 \<noteq> c mod 3" "Suc (Suc c) mod 3 \<noteq> c mod 3" "Suc (Suc c) mod 3 \<noteq> Suc c mod 3" by presburger+
  have "poll3 dealloc (Some g) m = (Some g3, release_list dealloc
      (eg_memory g (Suc c mod 3) @ eg_memory g1 (Suc (Suc c) mod 3) @ eg_memory g2 (c mod 3)) m)"
    by (simp add: poll3_def p p1 p2 release_list_append 3)
  moreover have "eg_memory g1 (Suc (Suc c) mod 3) = eg_memory g (Suc (Suc c) mod 3)" "eg_memory g2 (c mod 3) = eg_memory g (c mod 3)"
    using ne by (simp_all add: g1_def g2_def set_memory_def)
  moreover have "eg_memory g3 (c mod 3) = []" "eg_memory g3 (Suc c mod 3) = []" "eg_memory g3 (Suc (Suc c) mod 3) = []"
      "eg_epoch g3 = eg_epoch g" "eg_threads g3 = eg_threads g" "eg_local g3 = eg_local g"
    using ne by (simp_all add: g1_def g2_def g3_def set_memory_def 3 e)
  ultimately show ?thesis by auto
qed

subsection \<open>Properties\<close>

text \<open>
  C10. No thread can read memory that was released: in every interleaving of any number of threads
  that register, enter and leave critical sections, publish, find and retire pointers, and
  collect, a pointer that is shared or that a thread inside holds has not been released, none is
  released twice, and every pointer there ever was is shared, about to be retired, in a list of
  retired ones, or released. This is so as long as no entry for a retired pointer is refused.
\<close>
theorem ebr_safe:
  assumes "ebr_reach False s"
  shows "(\<forall>t. es_refs s t \<inter> set (es_freed s) = {}) \<and> es_shared s \<inter> set (es_freed s) = {} \<and> distinct (es_freed s) \<and>
    es_used s = es_shared s \<union> {p. \<exists>t. p \<in> retiring (es_pc s t)} \<union> {p. \<exists>i. p \<in> set (eg_memory s i)} \<union> set (es_freed s)"
proof -
  obtain c since tag where inv: "ebr_inv c since tag s" using reach_inv [OF assms] by blast
  have "es_used s = es_shared s \<union> {p. \<exists>t. p \<in> retiring (es_pc s t)} \<union> {p. \<exists>i. p \<in> set (eg_memory s i)} \<union> set (es_freed s)"
    using ownersD(3) [OF inv] by (auto simp: view_def entries_def)
  then show ?thesis using ownersD(1,2,4) [OF inv] by blast
qed

fun ebr_run :: "'p ebr_action list \<Rightarrow> 'p ebr_sys \<Rightarrow> 'p ebr_sys option" where
  "ebr_run [] s = Some s"
| "ebr_run (a # as) s = (case ebr_step a s of None \<Rightarrow> None | Some s' \<Rightarrow> ebr_run as s')"

lemma reach_run:
  "ebr_reach refuse s \<Longrightarrow> refuse \<or> (\<forall>a \<in> set as. granted_entry a) \<Longrightarrow> ebr_run as s = Some s' \<Longrightarrow> ebr_reach refuse s'"
  by (induction as arbitrary: s) (auto split: option.splits intro: ebr_next)

definition ex_ebr :: "nat clog_ebr_global" where
  "ex_ebr = \<lparr>eg_state = CLOG_EBR_GLOBAL_STATE_ACTIVE_NORMAL, eg_epoch = 0, eg_threads = [],
     eg_local = (\<lambda>_. \<lparr>tl_epoch = 0, tl_state = CLOG_EBR_LOCAL_STATE_UNKNOWN\<rparr>), eg_memory = (\<lambda>_. [])\<rparr>"

lemma ex_ebr_reach: "ebr_reach refuse (ebr_start ex_ebr)"
  by (rule ebr_init [of mem_ok _ "snd (clog_malloc sizeof_ebr_global mem_ok)"])
    (simp add: clog_ebr_create_def ex_ebr_def mem_ok_def clog_malloc_def sizeof_ebr_global_def)

definition ex_inside :: "nat ebr_action list" where
  "ex_inside = [Act_publish 7, Act_register 0, Act_register 1, Act_enter 0, Act_run 0, Act_run 0, Act_enter 1, Act_run 1, Act_run 1,
     Act_acquire 1 7, Act_retire 0 7]"

definition ex_collect :: "nat \<Rightarrow> nat ebr_action list" where
  "ex_collect k = Act_poll 2 # replicate (10 + k) (Act_run 2)"

definition ex_schedule :: "nat ebr_action list" where
  "ex_schedule = ex_inside @ [Act_entry 0 True, Act_run 0, Act_run 0, Act_exit 0, Act_exit 1] @
     ex_collect 0 @ ex_collect 0 @ ex_collect 1"

lemma ex_schedule_run: "map_option es_freed (ebr_run ex_schedule (ebr_start ex_ebr)) = Some [7]"
  by code_simp

lemma ebr_safe_witness:
  "\<exists>s. ebr_run ex_schedule (ebr_start ex_ebr) = Some s \<and> es_freed s = [7] \<and> (\<forall>t. 7 \<notin> es_refs s t) \<and> 7 \<notin> es_shared s"
proof -
  obtain s where s: "ebr_run ex_schedule (ebr_start ex_ebr) = Some s" "es_freed s = [7]"
    using ex_schedule_run by auto
  have "\<forall>a \<in> set ex_schedule. granted_entry a"
    by (simp add: ex_schedule_def ex_inside_def ex_collect_def granted_entry_def)
  then have "ebr_reach False s" by (intro reach_run [OF ex_ebr_reach _ s(1)]) simp
  from ebr_safe [OF this] s show ?thesis by fastforce
qed

text \<open>
  When an entry is refused the pointer is released at once: then a thread inside can hold memory
  that was released.
\<close>

lemma ebr_refused_entry:
  "\<exists>s :: nat ebr_sys. ebr_reach True s \<and> 7 \<in> es_refs s 1 \<and> 7 \<in> set (es_freed s)"
proof -
  define as where "as = ex_inside @ [Act_entry 0 False]"
  have "map_option (\<lambda>s. (7 \<in> es_refs s 1, es_freed s)) (ebr_run as (ebr_start ex_ebr)) = Some (True, [7])"
    unfolding as_def by code_simp
  then obtain s where s: "ebr_run as (ebr_start ex_ebr) = Some s" "7 \<in> es_refs s 1" "es_freed s = [7]" by auto
  have "ebr_reach True s" by (rule reach_run [OF ex_ebr_reach _ s(1)]) simp
  with s show ?thesis by auto
qed

text \<open>
  C23. After any calls on a fresh state and the unregistration of every thread, destroying it
  releases all it allocated and every retired pointer once: the balance of blocks is what it was,
  less those pointers. Refused allocations change nothing of this.
\<close>
theorem ebr_releases_everything:
  fixes m :: "'m mem_scheme"
  assumes law: "\<And>p m. live (dealloc p m) = live (m :: 'm mem_scheme) - 1"
    and cr: "clog_ebr_create True True CLOG_SUCCESS m = (CLOG_SUCCESS, Some g, m1)"
    and run: "fold (ebr_do dealloc) cs (Some g, m1) = (Some g2, m2)"
    and rel: "\<forall>t \<in> set (eg_threads g2). local_state t g2 = CLOG_EBR_LOCAL_STATE_RELEASED"
  shows "\<exists>m3. clog_ebr_destroy CLOG_SUCCESS dealloc (Some g2) m2 = Some (CLOG_SUCCESS, None, m3) \<and>
    live m3 = live m - int (length (retired_by cs))"
proof -
  have "books (live m - int (length (retired_by cs))) (Some g2, m2)"
    using ebr_calls_books [where dealloc = dealloc and cs = cs, OF law create_books [OF cr]] run by simp
  then have st: "eg_state g2 = CLOG_EBR_GLOBAL_STATE_ACTIVE_NORMAL"
    and lv: "live m2 = live m - int (length (retired_by cs)) + 1 + int (length (eg_threads g2)) + 2 * int (waiting g2)"
    by (simp_all add: books_def)
  define g3 where "g3 = g2\<lparr>eg_state := CLOG_EBR_GLOBAL_STATE_INACTIVE\<rparr>"
  have "\<exists>m3. clog_ebr_try_destroy CLOG_SUCCESS dealloc g3 m2 = (CLOG_SUCCESS, None, m3) \<and>
      live m3 = live m - int (length (retired_by cs))"
    by (rule try_destroy_books [OF law]) (use lv rel in \<open>simp_all add: g3_def waiting_def local_state_def\<close>)
  with st show ?thesis by (subst clog_ebr_destroy.simps) (simp add: g3_def)
qed

definition ex_calls :: "nat ebr_call list" where
  "ex_calls = [Call_register 0, Call_enter 0, Call_retire 7, Call_poll, Call_exit 0, Call_poll, Call_retire 8, Call_unregister 0]"

lemma ebr_releases_everything_witness:
  "\<exists>g m1 g2 m2 m3. clog_ebr_create True True CLOG_SUCCESS mem_ok = (CLOG_SUCCESS, Some g, m1) \<and>
    fold (ebr_do (\<lambda>p. clog_free)) ex_calls (Some g, m1) = (Some g2, m2) \<and>
    clog_ebr_destroy CLOG_SUCCESS (\<lambda>p. clog_free) (Some g2) m2 = Some (CLOG_SUCCESS, None, m3) \<and> live m3 = - 2"
proof -
  define m1 where "m1 = snd (clog_malloc sizeof_ebr_global mem_ok)"
  define r where "r = fold (ebr_do (\<lambda>p. clog_free)) ex_calls (Some ex_ebr, m1)"
  have cr: "clog_ebr_create True True CLOG_SUCCESS mem_ok = (CLOG_SUCCESS, Some ex_ebr, m1)"
    by (simp add: clog_ebr_create_def ex_ebr_def mem_ok_def clog_malloc_def sizeof_ebr_global_def m1_def)
  have "map_option (\<lambda>g. (eg_threads g, local_state 0 g)) (fst r) = Some ([0], CLOG_EBR_LOCAL_STATE_RELEASED)"
    unfolding r_def m1_def by code_simp
  then obtain g2 m2 where g2: "r = (Some g2, m2)" "eg_threads g2 = [0]" "local_state 0 g2 = CLOG_EBR_LOCAL_STATE_RELEASED"
    by (cases r) auto
  have "\<exists>m3. clog_ebr_destroy CLOG_SUCCESS (\<lambda>p. clog_free) (Some g2) m2 = Some (CLOG_SUCCESS, None, m3) \<and>
      live m3 = live mem_ok - int (length (retired_by ex_calls))"
    by (rule ebr_releases_everything [where cs = ex_calls, OF _ cr]) (use g2 in \<open>simp_all add: mem_simps r_def\<close>)
  moreover have "live mem_ok - int (length (retired_by ex_calls)) = - 2"
    by (simp add: ex_calls_def retired_by_def map_filter_simps mem_ok_def)
  ultimately show ?thesis using cr g2(1) by (auto simp: r_def)
qed

text \<open>
  Nothing retired stays behind: when no registered thread is inside, three collections in a
  row release every pointer that was retired, those of the oldest epoch first, and leave the
  epoch as it was.
\<close>
theorem ebr_three_polls:
  fixes m :: "'m mem_scheme"
  assumes "quiet g" and "eg_epoch g = of_nat (c mod 3)"
  shows "\<exists>g'. poll3 dealloc (Some g) m =
      (Some g', release_list dealloc (eg_memory g (Suc c mod 3) @ eg_memory g (Suc (Suc c) mod 3) @ eg_memory g (c mod 3)) m) \<and>
    eg_memory g' (c mod 3) = [] \<and> eg_memory g' (Suc c mod 3) = [] \<and> eg_memory g' (Suc (Suc c) mod 3) = [] \<and>
    eg_epoch g' = eg_epoch g \<and> eg_threads g' = eg_threads g \<and> eg_local g' = eg_local g"
  by (rule poll3_quiet [OF assms])

lemma ebr_three_polls_witness:
  "\<exists>g'. poll3 (\<lambda>p. clog_free) (Some (ex_ebr\<lparr>eg_threads := [0], eg_memory := (\<lambda>_. [])(0 := [7], 2 := [8, 9])\<rparr>)) mem_ok =
      (Some g', release_list (\<lambda>p. clog_free) [8, 9, 7] mem_ok) \<and> eg_memory g' 0 = [] \<and> eg_memory g' 2 = []"
proof -
  have q: "quiet (ex_ebr\<lparr>eg_threads := [0], eg_memory := (\<lambda>_. [])(0 := [7], 2 := [8, 9])\<rparr>)"
    by (simp add: quiet_def ex_ebr_def local_state_def)
  have "eg_epoch (ex_ebr\<lparr>eg_threads := [0], eg_memory := (\<lambda>_. [])(0 := [7], 2 := [8, 9])\<rparr>) = of_nat (0 mod 3)"
    by (simp add: ex_ebr_def)
  from ebr_three_polls [OF q this, of "\<lambda>p. clog_free" mem_ok] show ?thesis
    by (auto simp: numeral_2_eq_2)
qed

end
