(* ===== verification/Atomic_Queue.thy ===== *)
theory Atomic_Queue
  imports Queue Ebr_Correct "HOL-Library.Multiset"
begin

text \<open>
  The queue for several producers and consumers (utils/clog_atomic_queue.c): a linked list with a
  dummy node in front, whose nodes are retired to the reclamation of \<open>Ebr\<close> when they are taken
  off.

  Here are the operations as calls that no other thread interferes with: a handle is the thread
  whose structure the reclamation knows, with its bias; a loop that does not end, and an access
  to a node that is not allocated, are \<open>None\<close>. The accesses to shared memory as single steps of any
  number of threads are in \<open>Atomic_Queue_Steps\<close>.
\<close>

subsection \<open>State\<close>

record 'd atomic_node =
  an_next :: addr
  an_data :: 'd

datatype clog_atomic_queue_state = CLOG_ATOMIC_QUEUE_RUNNING | CLOG_ATOMIC_QUEUE_FINALIZING

datatype clog_atomic_queue_bias =
    CLOG_ATOMIC_QUEUE_BIASED_ANY | CLOG_ATOMIC_QUEUE_BIASED_ENQUEUE
  | CLOG_ATOMIC_QUEUE_BIASED_DEQUEUE | CLOG_ATOMIC_QUEUE_BIASED_NONE

record clog_atomic_queue =
  aq_head :: addr
  aq_tail :: addr
  aq_state :: clog_atomic_queue_state
  aq_release_num :: "64 word"
  aq_global :: "addr clog_ebr_global option"

record clog_atomic_queue_handle =
  ah_bias :: clog_atomic_queue_bias
  ah_local :: nat

definition sizeof_atomic_queue :: nat where "sizeof_atomic_queue = 48"
definition sizeof_atomic_handle :: nat where "sizeof_atomic_handle = 24"

subsection \<open>Calls that are not disturbed\<close>

text \<open>
  The deallocator the reclamation gets. It is only given nodes that are allocated, see
  \<open>retired_nodes\<close> below.
\<close>

definition clog_atomic_queue_node_free :: "addr \<Rightarrow> 'd atomic_node heap \<Rightarrow> 'd atomic_node heap" where
  "clog_atomic_queue_node_free p h = (clog_free h)\<lparr>cells := (cells h)(p := None)\<rparr>"

text \<open>\<open>init\<close> and \<open>lock\<close>: what the calls of the mutex return. A new node's data is indeterminate, here 0.\<close>

definition clog_atomic_queue_create ::
    "bool \<Rightarrow> bool \<Rightarrow> clog_res \<Rightarrow> ('d::zero) atomic_node heap
     \<Rightarrow> clog_res \<times> clog_atomic_queue option \<times> 'd atomic_node heap" where
  "clog_atomic_queue_create has_queue has_dealloc init h =
     (if \<not> has_queue then (CLOG_INVALID_PARAM, None, h)
      else if \<not> has_dealloc then (CLOG_INVALID_PARAM, None, h)
      else case clog_malloc sizeof_atomic_queue h of
        (False, h) \<Rightarrow> (CLOG_NO_MEMORY, None, h)
      | (True, h) \<Rightarrow>
          (case halloc \<lparr>an_next = NULL, an_data = 0\<rparr> h of
             (dummy, h) \<Rightarrow>
               if dummy = NULL then (CLOG_NO_MEMORY, None, clog_free h)
               else (case clog_ebr_create True True init h of
                 (ret, global, h) \<Rightarrow>
                   if ret = CLOG_SUCCESS
                   then (ret, Some \<lparr>aq_head = dummy, aq_tail = dummy, aq_state = CLOG_ATOMIC_QUEUE_RUNNING,
                                    aq_release_num = 0, aq_global = global\<rparr>, h)
                   else (ret, None, clog_free ((clog_free h)\<lparr>cells := (cells h)(dummy := None)\<rparr>)))))"

definition clog_atomic_queue_attach ::
    "clog_res \<Rightarrow> nat \<Rightarrow> clog_atomic_queue option \<Rightarrow> clog_atomic_queue_bias \<Rightarrow> 'd atomic_node heap
     \<Rightarrow> clog_atomic_queue_handle option \<times> clog_atomic_queue option \<times> 'd atomic_node heap" where
  "clog_atomic_queue_attach lock t queue bias h = (case queue of
      None \<Rightarrow> (None, None, h)
    | Some q \<Rightarrow>
        (case clog_malloc sizeof_atomic_handle h of
           (False, h) \<Rightarrow> (None, Some q, h)
         | (True, h) \<Rightarrow>
             (case clog_ebr_register lock t True (aq_global q) h of
                (ret, global, h) \<Rightarrow>
                  if ret \<noteq> CLOG_SUCCESS then (None, Some (q\<lparr>aq_global := global\<rparr>), clog_free h)
                  else (Some \<lparr>ah_bias = bias, ah_local = t\<rparr>, Some (q\<lparr>aq_global := global\<rparr>), h))))"

definition gc_now ::
    "clog_res \<Rightarrow> clog_atomic_queue \<Rightarrow> 'd atomic_node heap \<Rightarrow> clog_atomic_queue \<times> 'd atomic_node heap" where
  "gc_now lock q h = (case clog_ebr_poll lock clog_atomic_queue_node_free (aq_global q) h of
      (global, h) \<Rightarrow> (q\<lparr>aq_global := global, aq_release_num := 0\<rparr>, h))"

definition clog_atomic_queue_gc ::
    "clog_res \<Rightarrow> clog_atomic_queue_handle \<Rightarrow> bool \<Rightarrow> clog_atomic_queue \<Rightarrow> 'd atomic_node heap
     \<Rightarrow> clog_atomic_queue \<times> 'd atomic_node heap" where
  "clog_atomic_queue_gc lock handle is_enqueue q h =
     (if aq_release_num q \<le> 128 then (q, h)
      else case ah_bias handle of
        CLOG_ATOMIC_QUEUE_BIASED_ANY \<Rightarrow> gc_now lock q h
      | CLOG_ATOMIC_QUEUE_BIASED_ENQUEUE \<Rightarrow> if is_enqueue then gc_now lock q h else (q, h)
      | CLOG_ATOMIC_QUEUE_BIASED_DEQUEUE \<Rightarrow> if \<not> is_enqueue then gc_now lock q h else (q, h)
      | CLOG_ATOMIC_QUEUE_BIASED_NONE \<Rightarrow> (q, h))"

definition ebr_enter :: "nat \<Rightarrow> clog_atomic_queue \<Rightarrow> clog_atomic_queue" where
  "ebr_enter t q = q\<lparr>aq_global := map_option (\<lambda>g. snd (clog_ebr_enter (Some t) g)) (aq_global q)\<rparr>"

definition ebr_exit :: "nat \<Rightarrow> clog_atomic_queue \<Rightarrow> clog_atomic_queue" where
  "ebr_exit t q = q\<lparr>aq_global := map_option (clog_ebr_exit (Some t)) (aq_global q)\<rparr>"

text \<open>
  The loop of \<open>clog_atomic_queue_enqueue\<close>. Undisturbed, an exchange succeeds, and the tail that is
  loaded again is the same. Where the queue is not running the thread returns inside its critical
  section.
\<close>

partial_function (option) enqueue_loop ::
    "nat \<Rightarrow> addr \<Rightarrow> clog_atomic_queue \<Rightarrow> 'd atomic_node heap \<Rightarrow> (clog_res \<times> clog_atomic_queue \<times> 'd atomic_node heap) option" where
  "enqueue_loop t node q h = (case cells h (aq_tail q) of
      None \<Rightarrow> None
    | Some c \<Rightarrow>
        if an_next c \<noteq> NULL then enqueue_loop t node (q\<lparr>aq_tail := an_next c\<rparr>) h
        else if aq_state q \<noteq> CLOG_ATOMIC_QUEUE_RUNNING
          then map_option (\<lambda>h. (CLOG_ABNORMAL_STATE, q, h)) (hfree node h)
        else map_option (\<lambda>h. (CLOG_SUCCESS, ebr_exit t (q\<lparr>aq_tail := node\<rparr>), h))
               (hupd (aq_tail q) (\<lambda>c. c\<lparr>an_next := node\<rparr>) h))"

definition clog_atomic_queue_enqueue ::
    "clog_res \<Rightarrow> clog_atomic_queue_handle option \<Rightarrow> 'd \<Rightarrow> clog_atomic_queue \<Rightarrow> 'd atomic_node heap
     \<Rightarrow> (clog_res \<times> clog_atomic_queue \<times> 'd atomic_node heap) option" where
  "clog_atomic_queue_enqueue lock handle ptr q h = (case handle of
      None \<Rightarrow> Some (CLOG_INVALID_PARAM, q, h)
    | Some hdl \<Rightarrow>
        (case clog_atomic_queue_gc lock hdl True q h of
           (q, h) \<Rightarrow>
             if aq_state q \<noteq> CLOG_ATOMIC_QUEUE_RUNNING then Some (CLOG_ABNORMAL_STATE, q, h)
             else (case halloc \<lparr>an_next = NULL, an_data = ptr\<rparr> h of
               (node, h) \<Rightarrow>
                 if node = NULL then Some (CLOG_NO_MEMORY, q, h)
                 else enqueue_loop (ah_local hdl) node (ebr_enter (ah_local hdl) q) h)))"

partial_function (option) clog_atomic_queue_dequeue_internal ::
    "bool \<Rightarrow> clog_atomic_queue \<Rightarrow> ('d::zero) atomic_node heap
     \<Rightarrow> (clog_res \<times> 'd option \<times> clog_atomic_queue \<times> 'd atomic_node heap) option" where
  "clog_atomic_queue_dequeue_internal need_check q h = (case cells h (aq_head q) of
      None \<Rightarrow> None
    | Some c \<Rightarrow>
        if need_check \<and> aq_state q \<noteq> CLOG_ATOMIC_QUEUE_RUNNING then Some (CLOG_ABNORMAL_STATE, None, q, h)
        else if aq_head q = aq_tail q \<and> an_next c = NULL then Some (CLOG_TARGET_NOT_FOUND, None, q, h)
        else if aq_head q = aq_tail q
          then clog_atomic_queue_dequeue_internal need_check (q\<lparr>aq_tail := an_next c\<rparr>) h
        else if an_next c \<noteq> NULL then
          (case cells h (an_next c) of
             None \<Rightarrow> None
           | Some n \<Rightarrow>
               (case hupd (an_next c) (\<lambda>n. n\<lparr>an_data := 0\<rparr>) h of
                  None \<Rightarrow> None
                | Some h \<Rightarrow>
                    (case clog_ebr_defer_release_global clog_atomic_queue_node_free (aq_global q) (Some (aq_head q)) h of
                       (global, h) \<Rightarrow>
                         Some (CLOG_SUCCESS, Some (an_data n), q\<lparr>aq_head := an_next c, aq_global := global\<rparr>, h))))
        else clog_atomic_queue_dequeue_internal need_check q h)"

definition clog_atomic_queue_dequeue ::
    "clog_res \<Rightarrow> clog_atomic_queue_handle option \<Rightarrow> bool \<Rightarrow> clog_atomic_queue \<Rightarrow> ('d::zero) atomic_node heap
     \<Rightarrow> (clog_res \<times> 'd option \<times> clog_atomic_queue \<times> 'd atomic_node heap) option" where
  "clog_atomic_queue_dequeue lock handle has_data q h = (case handle of
      None \<Rightarrow> Some (CLOG_INVALID_PARAM, None, q, h)
    | Some hdl \<Rightarrow>
        if \<not> has_data then Some (CLOG_INVALID_PARAM, None, q, h)
        else if aq_state q \<noteq> CLOG_ATOMIC_QUEUE_RUNNING then Some (CLOG_ABNORMAL_STATE, None, q, h)
        else (case clog_atomic_queue_gc lock hdl False q h of
          (q, h) \<Rightarrow>
            (case clog_atomic_queue_dequeue_internal True (ebr_enter (ah_local hdl) q) h of
               None \<Rightarrow> None
             | Some (ret, data, q, h) \<Rightarrow>
                 (let q = ebr_exit (ah_local hdl) q;
                      q = (if ret = CLOG_SUCCESS then q\<lparr>aq_release_num := aq_release_num q AND 1\<rparr> else q)
                  in Some (ret, data, q, h)))))"

definition clog_atomic_queue_is_empty ::
    "clog_atomic_queue_handle option \<Rightarrow> clog_atomic_queue \<Rightarrow> 'd atomic_node heap \<Rightarrow> bool option" where
  "clog_atomic_queue_is_empty handle q h = (case handle of
      None \<Rightarrow> Some True
    | Some _ \<Rightarrow> map_option (\<lambda>c. aq_head q = aq_tail q \<and> an_next c = NULL) (cells h (aq_head q)))"

text \<open>The reclamation may have been destroyed before; then unregistering destroys its structure.\<close>

definition clog_atomic_queue_detach ::
    "clog_res \<Rightarrow> clog_atomic_queue_handle option \<Rightarrow> clog_atomic_queue \<Rightarrow> 'd atomic_node heap
     \<Rightarrow> clog_atomic_queue \<times> 'd atomic_node heap" where
  "clog_atomic_queue_detach lock handle q h = (case (handle, aq_global q) of
      (Some hdl, Some g) \<Rightarrow>
        (case clog_ebr_unregister lock clog_atomic_queue_node_free (Some (ah_local hdl)) g h of
           (global, h) \<Rightarrow> (q\<lparr>aq_global := global\<rparr>, clog_free h))
    | _ \<Rightarrow> (q, h))"

text \<open>
  The loop of \<open>clog_atomic_queue_destroy\<close>: \<open>tmp\<close> is the variable the elements are read to, \<open>outs\<close>
  what the deallocator has been given.
\<close>

partial_function (option) atomic_clear_loop ::
    "clog_res \<Rightarrow> 'd \<Rightarrow> 'd list \<Rightarrow> clog_atomic_queue \<Rightarrow> ('d::zero) atomic_node heap
     \<Rightarrow> ('d list \<times> clog_atomic_queue \<times> 'd atomic_node heap) option" where
  "atomic_clear_loop ret tmp outs q h =
     (if ret \<noteq> CLOG_SUCCESS then Some (outs, q, h)
      else case clog_atomic_queue_dequeue_internal False q h of
        None \<Rightarrow> None
      | Some (ret, data, q, h) \<Rightarrow>
          (let tmp = (case data of None \<Rightarrow> tmp | Some d \<Rightarrow> d)
           in atomic_clear_loop ret tmp (outs @ [tmp]) q h))"

definition clog_atomic_queue_destroy ::
    "clog_res \<Rightarrow> clog_atomic_queue option \<Rightarrow> ('d::zero) atomic_node heap
     \<Rightarrow> (clog_res \<times> 'd list \<times> addr clog_ebr_global option \<times> 'd atomic_node heap) option" where
  "clog_atomic_queue_destroy lock queue h = (case queue of
      None \<Rightarrow> Some (CLOG_INVALID_PARAM, [], None, h)
    | Some q \<Rightarrow>
        (case atomic_clear_loop CLOG_SUCCESS 0 [] (q\<lparr>aq_state := CLOG_ATOMIC_QUEUE_FINALIZING\<rparr>) h of
           None \<Rightarrow> None
         | Some (outs, q, h) \<Rightarrow>
             (case clog_ebr_defer_release_global clog_atomic_queue_node_free (aq_global q)
                     (if aq_head q = NULL then None else Some (aq_head q)) h of
                (global, h) \<Rightarrow>
                  (case clog_ebr_poll lock clog_atomic_queue_node_free global h of
                     (global, h) \<Rightarrow>
                       (case clog_ebr_destroy lock clog_atomic_queue_node_free global h of
                          None \<Rightarrow> None
                        | Some (_, global, h) \<Rightarrow> Some (CLOG_SUCCESS, outs, global, clog_free h))))))"

subsection \<open>The queue as a list\<close>

text \<open>
  \<open>atomic_rep base hdl s ds\<close>: the nodes from the head are linked, the last one the tail, their data
  without the dummy's are \<open>ds\<close>; the nodes waiting in the reclamation are the other ones that are
  allocated, all different. Beyond \<open>base\<close> there are the queue's block, the handle's, the nodes from
  the head, and what the reclamation holds.
\<close>

fun node_path :: "(addr \<rightharpoonup> 'd atomic_node) \<Rightarrow> addr \<Rightarrow> addr list \<Rightarrow> 'd list \<Rightarrow> bool" where
  "node_path C a [] ds \<longleftrightarrow> ds = [] \<and> (\<exists>c. C a = Some c \<and> an_next c = NULL)"
| "node_path C a (b # bs) ds \<longleftrightarrow> b \<noteq> NULL \<and> (\<exists>c. C a = Some c \<and> an_next c = b) \<and>
     (\<exists>c d ds'. C b = Some c \<and> an_data c = d \<and> ds = d # ds' \<and> node_path C b bs ds')"

definition retired_nodes :: "clog_atomic_queue \<Rightarrow> addr list" where
  "retired_nodes q = (case aq_global q of None \<Rightarrow> []
    | Some g \<Rightarrow> eg_memory g 0 @ eg_memory g 1 @ eg_memory g 2)"

definition ebr_ready :: "nat \<Rightarrow> clog_atomic_queue \<Rightarrow> bool" where
  "ebr_ready t q \<longleftrightarrow> (\<exists>g. aq_global q = Some g \<and> eg_state g = CLOG_EBR_GLOBAL_STATE_ACTIVE_NORMAL \<and> eg_threads g = [t])"

definition atomic_nodes :: "clog_atomic_queue \<Rightarrow> ('d::zero) atomic_node heap \<Rightarrow> addr list \<Rightarrow> 'd list \<Rightarrow> bool" where
  "atomic_nodes q h bs ds \<longleftrightarrow> heap_ok h \<and> node_path (cells h) (aq_head q) bs ds \<and>
     aq_tail q = last (aq_head q # bs) \<and> distinct (aq_head q # bs @ retired_nodes q) \<and>
     dom (cells h) = set (aq_head q # bs @ retired_nodes q)"

definition atomic_rep ::
    "int \<Rightarrow> clog_atomic_queue_handle \<Rightarrow> clog_atomic_queue \<times> ('d::zero) atomic_node heap \<Rightarrow> 'd list \<Rightarrow> bool" where
  "atomic_rep base hdl s ds \<longleftrightarrow> (case s of (q, h) \<Rightarrow>
     aq_state q = CLOG_ATOMIC_QUEUE_RUNNING \<and> aq_release_num q = 0 \<and> ebr_ready (ah_local hdl) q \<and>
     (\<exists>bs. atomic_nodes q h bs ds \<and>
        live h = base + 4 + int (Suc (length bs)) + 2 * int (length (retired_nodes q))))"

lemma node_path_cong: "\<forall>x \<in> set (a # bs). C' x = C x \<Longrightarrow> node_path C' a bs ds = node_path C a bs ds"
  by (induction bs arbitrary: a ds) auto

lemma node_path_length: "node_path C a bs ds \<Longrightarrow> length bs = length ds"
  by (induction bs arbitrary: a ds) auto

lemma node_path_last: "node_path C a bs ds \<Longrightarrow> \<exists>c. C (last (a # bs)) = Some c \<and> an_next c = NULL"
  by (induction bs arbitrary: a ds) auto

lemma node_path_snoc:
  assumes "node_path C a bs ds" and "distinct (a # bs)" and "n \<notin> set (a # bs)" and "n \<noteq> NULL"
    and "C (last (a # bs)) = Some c"
  shows "node_path (C(last (a # bs) \<mapsto> c\<lparr>an_next := n\<rparr>, n \<mapsto> \<lparr>an_next = NULL, an_data = d\<rparr>)) a (bs @ [n]) (ds @ [d])"
  using assms
proof (induction bs arbitrary: a ds)
  case (Cons b bs)
  from Cons.prems(1) obtain c0 c1 d0 ds' where b: "b \<noteq> NULL" "C a = Some c0" "an_next c0 = b" "C b = Some c1" "an_data c1 = d0"
    "ds = d0 # ds'" "node_path C b bs ds'" by auto
  define C' where "C' = C(last (b # bs) \<mapsto> c\<lparr>an_next := n\<rparr>, n \<mapsto> \<lparr>an_next = NULL, an_data = d\<rparr>)"
  have ih: "node_path C' b (bs @ [n]) (ds' @ [d])"
    unfolding C'_def by (rule Cons.IH) (use Cons.prems b in auto)
  have "a \<noteq> last (b # bs)" using Cons.prems(2) by (metis distinct.simps(2) last_in_set list.distinct(1))
  then have "C' a = Some c0" using b(2) Cons.prems(3) by (auto simp: C'_def)
  moreover have "\<exists>c2. C' b = Some c2 \<and> an_data c2 = d0"
    using b Cons.prems(3,5) by (cases bs) (auto simp: C'_def)
  moreover have "C(last (a # b # bs) \<mapsto> c\<lparr>an_next := n\<rparr>, n \<mapsto> \<lparr>an_next = NULL, an_data = d\<rparr>) = C'"
    by (simp add: C'_def)
  ultimately show ?case using ih b(1,3,6) by (simp only: append_Cons node_path.simps) blast
qed auto

lemma enter_frame:
  "eg_state (snd (clog_ebr_enter loc g)) = eg_state g" "eg_threads (snd (clog_ebr_enter loc g)) = eg_threads g"
  "eg_memory (snd (clog_ebr_enter loc g)) = eg_memory g" "eg_epoch (snd (clog_ebr_enter loc g)) = eg_epoch g"
  by (simp_all add: clog_ebr_enter_def set_local_epoch_def set_local_state_def Let_def split: option.split)

lemma exit_frame:
  "eg_state (clog_ebr_exit loc g) = eg_state g" "eg_threads (clog_ebr_exit loc g) = eg_threads g"
  "eg_memory (clog_ebr_exit loc g) = eg_memory g" "eg_epoch (clog_ebr_exit loc g) = eg_epoch g"
  by (simp_all add: clog_ebr_exit_def set_local_state_def split: option.split)

lemma ready_enter [simp]:
  "retired_nodes (ebr_enter t q) = retired_nodes q" "ebr_ready u (ebr_enter t q) = ebr_ready u q"
  "aq_head (ebr_enter t q) = aq_head q" "aq_tail (ebr_enter t q) = aq_tail q" "aq_state (ebr_enter t q) = aq_state q"
  "aq_release_num (ebr_enter t q) = aq_release_num q"
  by (cases "aq_global q"; simp add: ebr_enter_def retired_nodes_def ebr_ready_def enter_frame)+

lemma ready_exit [simp]:
  "retired_nodes (ebr_exit t q) = retired_nodes q" "ebr_ready u (ebr_exit t q) = ebr_ready u q"
  "aq_head (ebr_exit t q) = aq_head q" "aq_tail (ebr_exit t q) = aq_tail q" "aq_state (ebr_exit t q) = aq_state q"
  "aq_release_num (ebr_exit t q) = aq_release_num q"
  by (cases "aq_global q"; simp add: ebr_exit_def retired_nodes_def ebr_ready_def exit_frame)+

lemma ready_upd [simp]:
  "retired_nodes (q\<lparr>aq_tail := a\<rparr>) = retired_nodes q" "ebr_ready u (q\<lparr>aq_tail := a\<rparr>) = ebr_ready u q"
  "retired_nodes (q\<lparr>aq_release_num := n\<rparr>) = retired_nodes q" "ebr_ready u (q\<lparr>aq_release_num := n\<rparr>) = ebr_ready u q"
  "retired_nodes (q\<lparr>aq_state := st\<rparr>) = retired_nodes q" "ebr_ready u (q\<lparr>aq_state := st\<rparr>) = ebr_ready u q"
  "retired_nodes (q\<lparr>aq_head := a\<rparr>) = retired_nodes q" "ebr_ready u (q\<lparr>aq_head := a\<rparr>) = ebr_ready u q"
  by (simp_all add: retired_nodes_def ebr_ready_def)

lemma atomic_enq_law:
  assumes rep: "atomic_rep base hdl (q, h) ds"
  shows "\<exists>r q' h'. clog_atomic_queue_enqueue CLOG_SUCCESS (Some hdl) d q h = Some (r, q', h') \<and>
    (r = CLOG_SUCCESS \<and> atomic_rep base hdl (q', h') (ds @ [d]) \<or> r = CLOG_NO_MEMORY \<and> atomic_rep base hdl (q', h') ds)"
proof -
  obtain bs where q: "aq_state q = CLOG_ATOMIC_QUEUE_RUNNING" "aq_release_num q = 0" "ebr_ready (ah_local hdl) q"
    and n: "atomic_nodes q h bs ds" and lv: "live h = base + 4 + int (Suc (length bs)) + 2 * int (length (retired_nodes q))"
    using rep by (auto simp: atomic_rep_def)
  from n have ok: "heap_ok h" and path: "node_path (cells h) (aq_head q) bs ds" and tl: "aq_tail q = last (aq_head q # bs)"
    and dist: "distinct (aq_head q # bs @ retired_nodes q)" and dm: "dom (cells h) = set (aq_head q # bs @ retired_nodes q)"
    by (auto simp: atomic_nodes_def)
  obtain a h1 where al: "halloc \<lparr>an_next = NULL, an_data = d\<rparr> h = (a, h1)" by fastforce
  have gc: "clog_atomic_queue_gc CLOG_SUCCESS hdl True q h = (q, h)" by (simp add: clog_atomic_queue_gc_def q)
  have ok1: "heap_ok h1" by (rule heap_ok_halloc [OF ok al])
  from al show ?thesis
  proof (cases rule: halloc_cases)
    case fail
    have "clog_atomic_queue_enqueue CLOG_SUCCESS (Some hdl) d q h = Some (CLOG_NO_MEMORY, q, h1)"
      by (simp add: clog_atomic_queue_enqueue_def gc q al fail)
    moreover have "atomic_rep base hdl (q, h1) ds" using q n lv fail ok1
      by (auto simp: atomic_rep_def atomic_nodes_def)
    ultimately show ?thesis by blast
  next
    case ok
    have a0: "a \<noteq> NULL" "cells h a = None" using \<open>heap_ok h\<close> heap_ok_brk [OF \<open>heap_ok h\<close>] by (auto simp: heap_ok_def ok)
    then have new: "a \<notin> set (aq_head q # bs @ retired_nodes q)" using dm by (metis domIff)
    obtain c where c: "cells h (aq_tail q) = Some c" "an_next c = NULL" using node_path_last [OF path] tl by auto
    have ta: "aq_tail q \<noteq> a" using a0 c by auto
    define q1 where "q1 = ebr_enter (ah_local hdl) q"
    define q2 where "q2 = ebr_exit (ah_local hdl) (q1\<lparr>aq_tail := a\<rparr>)"
    define h2 where "h2 = h1\<lparr>cells := (cells h1)(aq_tail q \<mapsto> c\<lparr>an_next := a\<rparr>)\<rparr>"
    have c1: "cells h1 (aq_tail q) = Some c" using c ta ok by auto
    have "enqueue_loop (ah_local hdl) a q1 h1 = Some (CLOG_SUCCESS, q2, h2)"
      by (subst enqueue_loop.simps) (simp add: q1_def q2_def h2_def ebr_enter_def c1 c(2) q hupd_Some)
    then have call: "clog_atomic_queue_enqueue CLOG_SUCCESS (Some hdl) d q h = Some (CLOG_SUCCESS, q2, h2)"
      using a0 by (simp add: clog_atomic_queue_enqueue_def gc q al q1_def)
    have q2: "aq_head q2 = aq_head q" "aq_tail q2 = a" "aq_state q2 = CLOG_ATOMIC_QUEUE_RUNNING" "aq_release_num q2 = 0"
      "retired_nodes q2 = retired_nodes q" "ebr_ready (ah_local hdl) q2"
      using q by (simp_all add: q2_def q1_def)
    have cells2: "cells h2 = (cells h)(last (aq_head q # bs) \<mapsto> c\<lparr>an_next := a\<rparr>, a \<mapsto> \<lparr>an_next = NULL, an_data = d\<rparr>)"
      using ta tl ok by (auto simp: h2_def fun_upd_twist)
    have "node_path (cells h2) (aq_head q) (bs @ [a]) (ds @ [d])" unfolding cells2
      by (rule node_path_snoc [OF path]) (use dist new a0 c tl in auto)
    moreover have "heap_ok h2" using ok1 c1 by (auto simp: heap_ok_def h2_def)
    moreover have "dom (cells h2) = set (aq_head q # (bs @ [a]) @ retired_nodes q)"
      using dm tl c(1) by (auto simp: cells2)
    moreover have "live h2 = live h + 1" using ok by (simp add: h2_def)
    ultimately have "atomic_rep base hdl (q2, h2) (ds @ [d])"
      using q2 dist new lv unfolding atomic_rep_def atomic_nodes_def prod.case
      by (intro conjI exI [of _ "bs @ [a]"]) auto
    with call show ?thesis by blast
  qed
qed

definition same_threads :: "clog_atomic_queue \<Rightarrow> clog_atomic_queue \<Rightarrow> bool" where
  "same_threads q q' \<longleftrightarrow> (\<exists>g g'. aq_global q = Some g \<and> aq_global q' = Some g' \<and> eg_threads g' = eg_threads g \<and>
     eg_local g' = eg_local g \<and> eg_state g' = eg_state g)"

definition atomic_core :: "int \<Rightarrow> clog_atomic_queue \<Rightarrow> ('d::zero) atomic_node heap \<Rightarrow> 'd list \<Rightarrow> bool" where
  "atomic_core k q h ds \<longleftrightarrow> aq_global q \<noteq> None \<and>
     (\<exists>bs. atomic_nodes q h bs ds \<and> live h = k + int (Suc (length bs)) + 2 * int (length (retired_nodes q)))"

lemma atomic_rep_core: "atomic_rep base hdl (q, h) ds \<longleftrightarrow> aq_state q = CLOG_ATOMIC_QUEUE_RUNNING \<and> aq_release_num q = 0 \<and>
    ebr_ready (ah_local hdl) q \<and> atomic_core (base + 4) q h ds"
  by (auto simp: atomic_rep_def atomic_core_def ebr_ready_def)

lemma node_path_data:
  "a \<notin> set bs \<Longrightarrow> C a = Some c \<Longrightarrow> node_path (C(a \<mapsto> c\<lparr>an_data := x\<rparr>)) a bs ds = node_path C a bs ds"
proof (cases bs)
  case (Cons b bs')
  assume a: "a \<notin> set bs" and c: "C a = Some c"
  have "node_path (C(a \<mapsto> c\<lparr>an_data := x\<rparr>)) b bs' ds' = node_path C b bs' ds'" for ds'
    by (rule node_path_cong) (use a Cons in auto)
  with a c Cons show ?thesis by auto
qed auto

lemma retired_push:
  assumes "aq_global q = Some g"
  shows "mset (retired_nodes (q\<lparr>aq_global := Some (push_retired (retire_index e) p g)\<rparr>)) = add_mset p (mset (retired_nodes q))"
  using retire_index_less(1) [of e] assms
  by (auto simp: retired_nodes_def push_retired_def set_memory_def numeral_3_eq_3 less_Suc_eq)

text \<open>
  Retiring the old head, whether the entry is granted (the node waits) or not (it is released at
  once).
\<close>

lemma defer_release_cases:
  fixes h :: "'d atomic_node heap"
  assumes "aq_global q = Some g" and "clog_ebr_defer_release_global clog_atomic_queue_node_free (aq_global q) (Some p) h = (global, h')"
  obtains (waits) "same_threads q (q\<lparr>aq_global := global\<rparr>)" "cells h' = cells h" "brk h' = brk h" "live h' = live h + 1"
      "mset (retired_nodes (q\<lparr>aq_global := global\<rparr>)) = add_mset p (mset (retired_nodes q))"
    | (freed) "global = aq_global q" "cells h' = (cells h)(p := None)" "brk h' = brk h" "live h' = live h - 1"
proof -
  obtain b h1 where ma: "clog_malloc sizeof_ebr_node h = (b, h1)" by fastforce
  note facts = clog_malloc_heap [OF ma] live_clog_mallocD [OF ma]
  show thesis
  proof (cases b)
    case True
    with assms ma have g: "global = Some (push_retired (retire_index (eg_epoch g)) p g)" "h' = h1"
      by (auto simp: clog_ebr_defer_release_global_def)
    show thesis
      by (rule waits) (use facts True g retired_push [OF assms(1), of "eg_epoch g" p] assms(1) in
        \<open>auto simp: same_threads_def push_retired_def set_memory_def\<close>)
  next
    case False
    with assms ma have "global = Some g" "h' = clog_atomic_queue_node_free p h1"
      by (auto simp: clog_ebr_defer_release_global_def)
    with facts False assms(1) show thesis
      by (intro freed) (simp_all add: clog_atomic_queue_node_free_def clog_free_def)
  qed
qed

lemma dequeue_internal_nil:
  assumes "atomic_core k q h []" and "need_check \<longrightarrow> aq_state q = CLOG_ATOMIC_QUEUE_RUNNING"
  shows "clog_atomic_queue_dequeue_internal need_check q h = Some (CLOG_TARGET_NOT_FOUND, None, q, h)"
proof -
  from assms(1) obtain c where "cells h (aq_head q) = Some c" "an_next c = NULL" "aq_tail q = aq_head q"
    by (auto simp: atomic_core_def atomic_nodes_def dest: node_path_length elim!: node_path.elims)
  with assms(2) show ?thesis by (subst clog_atomic_queue_dequeue_internal.simps) auto
qed

lemma dequeue_internal_cons:
  assumes core: "atomic_core k q h (d # ds)" and run: "need_check \<longrightarrow> aq_state q = CLOG_ATOMIC_QUEUE_RUNNING"
  shows "\<exists>q' h'. clog_atomic_queue_dequeue_internal need_check q h = Some (CLOG_SUCCESS, Some d, q', h') \<and>
    atomic_core k q' h' ds \<and> same_threads q q' \<and> aq_state q' = aq_state q \<and> aq_release_num q' = aq_release_num q"
proof -
  from core obtain bs0 g where n: "atomic_nodes q h bs0 (d # ds)" and g: "aq_global q = Some g"
    and lv: "live h = k + int (Suc (length bs0)) + 2 * int (length (retired_nodes q))"
    by (auto simp: atomic_core_def)
  from n obtain b bs where bs: "bs0 = b # bs" by (cases bs0) (auto simp: atomic_nodes_def)
  define a where "a = aq_head q"
  from n bs obtain c cb where path: "b \<noteq> NULL" "cells h a = Some c" "an_next c = b" "cells h b = Some cb" "an_data cb = d"
      "node_path (cells h) b bs ds"
    by (auto simp: atomic_nodes_def a_def)
  from n bs have ok: "heap_ok h" and tl: "aq_tail q = last (b # bs)" and dist: "distinct (a # b # bs @ retired_nodes q)"
    and dm: "dom (cells h) = set (a # b # bs @ retired_nodes q)"
    by (auto simp: atomic_nodes_def a_def)
  have ht: "aq_head q \<noteq> aq_tail q" using dist tl by (metis a_def distinct.simps(2) last_in_set list.distinct(1) append_Cons Un_iff set_append)
  define h1 where "h1 = h\<lparr>cells := (cells h)(b \<mapsto> cb\<lparr>an_data := 0\<rparr>)\<rparr>"
  obtain global h2 where de: "clog_ebr_defer_release_global clog_atomic_queue_node_free (aq_global q) (Some a) h1 = (global, h2)"
    by fastforce
  define q' where "q' = q\<lparr>aq_head := b, aq_global := global\<rparr>"
  have call: "clog_atomic_queue_dequeue_internal need_check q h = Some (CLOG_SUCCESS, Some d, q', h2)"
    using run path de ht
    by (subst clog_atomic_queue_dequeue_internal.simps) (auto simp: a_def hupd_Some h1_def q'_def)
  have p1: "node_path (cells h1) b bs ds" using node_path_data [of b bs "cells h" cb] dist path by (simp add: h1_def)
  have ok1: "heap_ok h1" using ok path(4) by (auto simp: heap_ok_def h1_def)
  have dm1: "dom (cells h1) = set (a # b # bs @ retired_nodes q)" using dm path(4) by (auto simp: h1_def)
  have rn: "retired_nodes q' = retired_nodes (q\<lparr>aq_global := global\<rparr>)" by (simp add: q'_def retired_nodes_def)
  have "atomic_core k q' h2 ds \<and> same_threads q q'"
  proof (rule defer_release_cases [OF g de], goal_cases)
    case waits: 1
    have st: "set (retired_nodes q') = insert a (set (retired_nodes q))" "length (retired_nodes q') = Suc (length (retired_nodes q))"
      unfolding rn using mset_eq_setD [of "retired_nodes (q\<lparr>aq_global := global\<rparr>)" "a # retired_nodes q"]
        mset_eq_length [of "retired_nodes (q\<lparr>aq_global := global\<rparr>)" "a # retired_nodes q"] waits(5) by simp_all
    have ds': "distinct (retired_nodes q')" unfolding rn
      using mset_eq_imp_distinct_iff [of "retired_nodes (q\<lparr>aq_global := global\<rparr>)" "a # retired_nodes q"] waits(5) dist by simp
    have "atomic_nodes q' h2 bs ds" unfolding atomic_nodes_def
      using waits(2,3) p1 ok1 dm1 dist st(1) ds' tl by (auto simp: q'_def heap_ok_def)
    moreover have "same_threads q q'" using waits(1) by (simp add: same_threads_def q'_def)
    moreover have "live h2 = k + int (Suc (length bs)) + 2 * int (length (retired_nodes q'))"
      using lv waits(4) st(2) bs by (simp add: h1_def)
    moreover have "aq_global q' \<noteq> None" using waits(1) by (auto simp: same_threads_def q'_def)
    ultimately show ?thesis unfolding atomic_core_def by blast
  next
    case freed: 2
    have q2: "retired_nodes q' = retired_nodes q" "aq_global q' = Some g" by (simp_all add: rn freed g q'_def retired_nodes_def)
    have "node_path (cells h2) b bs ds = node_path (cells h1) b bs ds"
      by (rule node_path_cong) (use dist freed(2) in auto)
    then have "atomic_nodes q' h2 bs ds" unfolding atomic_nodes_def q2
      using freed(2,3) p1 ok1 dm1 dist tl by (auto simp: q'_def heap_ok_def)
    moreover have "live h2 = k + int (Suc (length bs)) + 2 * int (length (retired_nodes q'))"
      using lv freed(4) bs by (simp add: h1_def q2)
    ultimately show ?thesis using q2 g by (auto simp: atomic_core_def same_threads_def)
  qed
  with call show ?thesis by (auto simp: q'_def)
qed

lemma ready_same: "same_threads q q' \<Longrightarrow> ebr_ready t q \<Longrightarrow> ebr_ready t q'"
  by (auto simp: same_threads_def ebr_ready_def)

lemma core_enter [simp]: "atomic_core k (ebr_enter t q) h ds = atomic_core k q h ds"
  by (simp add: atomic_core_def atomic_nodes_def) (simp add: ebr_enter_def)

lemma core_exit [simp]: "atomic_core k (ebr_exit t q) h ds = atomic_core k q h ds"
  by (simp add: atomic_core_def atomic_nodes_def) (simp add: ebr_exit_def)

lemma core_upd [simp]: "atomic_core k (q\<lparr>aq_release_num := n\<rparr>) h ds = atomic_core k q h ds"
  "atomic_core k (q\<lparr>aq_state := st\<rparr>) h ds = atomic_core k q h ds"
  by (simp_all add: atomic_core_def atomic_nodes_def)

lemma atomic_deq_nil:
  assumes "atomic_rep base hdl (q, h) []"
  shows "\<exists>q' h'. clog_atomic_queue_dequeue CLOG_SUCCESS (Some hdl) True q h = Some (CLOG_TARGET_NOT_FOUND, None, q', h') \<and>
    atomic_rep base hdl (q', h') []"
proof -
  define q1 where "q1 = ebr_enter (ah_local hdl) q"
  from assms have q: "aq_state q = CLOG_ATOMIC_QUEUE_RUNNING" "aq_release_num q = 0" "ebr_ready (ah_local hdl) q"
    "atomic_core (base + 4) q h []" by (simp_all add: atomic_rep_core)
  have "clog_atomic_queue_dequeue_internal True q1 h = Some (CLOG_TARGET_NOT_FOUND, None, q1, h)"
    by (rule dequeue_internal_nil [of "base + 4"]) (use q in \<open>simp_all add: q1_def\<close>)
  then have "clog_atomic_queue_dequeue CLOG_SUCCESS (Some hdl) True q h =
      Some (CLOG_TARGET_NOT_FOUND, None, ebr_exit (ah_local hdl) q1, h)"
    using q(1,2) by (simp add: clog_atomic_queue_dequeue_def clog_atomic_queue_gc_def q1_def)
  moreover have "atomic_rep base hdl (ebr_exit (ah_local hdl) q1, h) []" using q by (simp add: atomic_rep_core q1_def)
  ultimately show ?thesis by blast
qed

lemma atomic_deq_cons:
  assumes "atomic_rep base hdl (q, h) (d # ds)"
  shows "\<exists>q' h'. clog_atomic_queue_dequeue CLOG_SUCCESS (Some hdl) True q h = Some (CLOG_SUCCESS, Some d, q', h') \<and>
    atomic_rep base hdl (q', h') ds"
proof -
  define q1 where "q1 = ebr_enter (ah_local hdl) q"
  from assms have q: "aq_state q = CLOG_ATOMIC_QUEUE_RUNNING" "aq_release_num q = 0" "ebr_ready (ah_local hdl) q"
    "atomic_core (base + 4) q h (d # ds)" by (simp_all add: atomic_rep_core)
  then have "atomic_core (base + 4) q1 h (d # ds)" "aq_state q1 = CLOG_ATOMIC_QUEUE_RUNNING" by (simp_all add: q1_def)
  from dequeue_internal_cons [OF this(1), of True] this(2) obtain q2 h2 where
    d: "clog_atomic_queue_dequeue_internal True q1 h = Some (CLOG_SUCCESS, Some d, q2, h2)"
    "atomic_core (base + 4) q2 h2 ds" "same_threads q1 q2" "aq_state q2 = aq_state q1" "aq_release_num q2 = aq_release_num q1"
    by blast
  define q3 where "q3 = (ebr_exit (ah_local hdl) q2)\<lparr>aq_release_num := aq_release_num (ebr_exit (ah_local hdl) q2) AND 1\<rparr>"
  have "clog_atomic_queue_dequeue CLOG_SUCCESS (Some hdl) True q h = Some (CLOG_SUCCESS, Some d, q3, h2)"
    using q(1,2) d(1) by (simp add: clog_atomic_queue_dequeue_def clog_atomic_queue_gc_def q1_def q3_def)
  moreover have "ebr_ready (ah_local hdl) q2" by (rule ready_same [OF d(3)]) (simp add: q1_def q(3))
  then have "atomic_rep base hdl (q3, h2) ds" using q d(2,4,5) by (simp add: atomic_rep_core q3_def q1_def)
  ultimately show ?thesis by blast
qed

definition atomic_enq where
  "atomic_enq hdl d s = map_option (\<lambda>(r, q, h). (r, q, h)) (clog_atomic_queue_enqueue CLOG_SUCCESS (Some hdl) d (fst s) (snd s))"

definition atomic_deq where
  "atomic_deq hdl s = map_option (\<lambda>(r, d, q, h). (r, d, q, h)) (clog_atomic_queue_dequeue CLOG_SUCCESS (Some hdl) True (fst s) (snd s))"

interpretation atomic_fifo: fifo_queue "atomic_rep base hdl" "atomic_enq hdl" "atomic_deq hdl" for base hdl
proof (unfold_locales, goal_cases)
  case (1 s ds d)
  then show ?case using atomic_enq_law [of base hdl "fst s" "snd s" ds d] by (fastforce simp: atomic_enq_def)
next
  case (2 s)
  then show ?case using atomic_deq_nil [of base hdl "fst s" "snd s"] by (fastforce simp: atomic_deq_def)
next
  case (3 s d ds)
  then show ?case using atomic_deq_cons [of base hdl "fst s" "snd s" d ds] by (fastforce simp: atomic_deq_def)
qed

subsection \<open>From creating to destroying\<close>

lemma core_shift:
  assumes "atomic_core k q h ds" and "cells h' = cells h" "brk h' = brk h" "live h' = live h + (k' - k)"
    and "aq_head q' = aq_head q" "aq_tail q' = aq_tail q" "retired_nodes q' = retired_nodes q" "aq_global q' \<noteq> None"
  shows "atomic_core k' q' h' ds"
proof -
  from assms(1) obtain bs where "atomic_nodes q h bs ds" "live h = k + int (Suc (length bs)) + 2 * int (length (retired_nodes q))"
    by (auto simp: atomic_core_def)
  moreover from this(1) assms have "atomic_nodes q' h' bs ds" by (simp add: atomic_nodes_def heap_ok_def)
  ultimately show ?thesis using assms unfolding atomic_core_def by (intro conjI exI [of _ bs]) simp_all
qed

lemma create_core:
  assumes "heap_ok h" and "cells h = Map.empty"
    and "clog_atomic_queue_create True True CLOG_SUCCESS h = (CLOG_SUCCESS, Some q, h1)"
  shows "atomic_core (live h + 2) q h1 [] \<and> aq_state q = CLOG_ATOMIC_QUEUE_RUNNING \<and> aq_release_num q = 0 \<and>
    (\<exists>g. aq_global q = Some g \<and> eg_state g = CLOG_EBR_GLOBAL_STATE_ACTIVE_NORMAL \<and> eg_threads g = [] \<and>
      (\<forall>i. eg_memory g i = []))"
proof -
  from assms(3) obtain ha where m: "clog_malloc sizeof_atomic_queue h = (True, ha)"
    by (auto simp: clog_atomic_queue_create_def split: prod.splits bool.splits)
  obtain a hb where al: "halloc \<lparr>an_next = NULL, an_data = 0 :: 'a\<rparr> ha = (a, hb)" by fastforce
  with assms(3) m have a: "a \<noteq> NULL" by (auto simp: clog_atomic_queue_create_def split: if_splits)
  obtain ret and global :: "addr clog_ebr_global option" and hc where
    cr: "clog_ebr_create True True CLOG_SUCCESS hb = (ret, global, hc)"
    using prod_cases3 by blast
  from assms(3) m al a cr have ret: "ret = CLOG_SUCCESS" and h1: "h1 = hc"
    and q: "q = \<lparr>aq_head = a, aq_tail = a, aq_state = CLOG_ATOMIC_QUEUE_RUNNING, aq_release_num = 0, aq_global = global\<rparr>"
    by (auto simp: clog_atomic_queue_create_def split: if_splits)
  from cr ret have b: "clog_malloc sizeof_ebr_global hb = (True, hc)" and g: "\<exists>g. global = Some g \<and>
      eg_state g = CLOG_EBR_GLOBAL_STATE_ACTIVE_NORMAL \<and> eg_threads g = [] \<and> (\<forall>i. eg_memory g i = [])"
    by (auto simp: clog_ebr_create_def split: prod.splits bool.splits)
  have ok: "heap_ok ha" using assms(1) clog_malloc_heap [OF m] by (simp add: heap_ok_def)
  have hb: "cells hb = [a \<mapsto> \<lparr>an_next = NULL, an_data = 0\<rparr>]" "live hb = live h + 2"
    using a assms(2) clog_malloc_heap [OF m] live_clog_mallocD [OF m] by (cases rule: halloc_cases [OF al]; simp)+
  have "heap_ok hb" by (rule heap_ok_halloc [OF ok al])
  with hb clog_malloc_heap [OF b] live_clog_mallocD [OF b] g show ?thesis unfolding h1 q
    by (auto simp: atomic_core_def atomic_nodes_def retired_nodes_def heap_ok_def intro!: exI [of _ "[]"])
qed

lemma attach_rep:
  assumes core: "atomic_core (base + 2) q h []" and q: "aq_state q = CLOG_ATOMIC_QUEUE_RUNNING" "aq_release_num q = 0"
    and g: "aq_global q = Some g" "eg_state g = CLOG_EBR_GLOBAL_STATE_ACTIVE_NORMAL" "eg_threads g = []"
    and at: "clog_atomic_queue_attach CLOG_SUCCESS t (Some q) bias h = (Some hdl, Some q1, h1)"
  shows "atomic_rep base hdl (q1, h1) [] \<and> ah_local hdl = t"
proof -
  from at obtain ha where m: "clog_malloc sizeof_atomic_handle h = (True, ha)"
    by (auto simp: clog_atomic_queue_attach_def split: prod.splits bool.splits)
  obtain b hb where ma: "clog_malloc sizeof_ebr_local ha = (b, hb)" by fastforce
  have reg: "clog_ebr_register CLOG_SUCCESS t True (aq_global q) ha =
      (if b then (CLOG_SUCCESS, Some (link_local t g), hb) else (CLOG_NO_MEMORY, Some g, hb))"
    by (simp add: g(1) clog_ebr_register_def ma split: bool.split)
  have b: "b" and r: "hdl = \<lparr>ah_bias = bias, ah_local = t\<rparr>" "h1 = hb" "q1 = q\<lparr>aq_global := Some (link_local t g)\<rparr>"
    using at by (simp_all add: clog_atomic_queue_attach_def m reg split: if_splits)
  have rn: "retired_nodes q1 = retired_nodes q" by (simp add: r g retired_nodes_def link_local_def)
  have "live h1 = live h + 2" "cells h1 = cells h" "brk h1 = brk h"
    using live_clog_mallocD [OF m] live_clog_mallocD [OF ma] clog_malloc_heap [OF m] clog_malloc_heap [OF ma] b r by simp_all
  then have "atomic_core (base + 4) q1 h1 []" by (intro core_shift [OF core]) (simp_all add: rn, simp_all add: r)
  then show ?thesis using q g by (simp add: atomic_rep_core r ebr_ready_def link_local_def)
qed

lemma detach_core:
  assumes "atomic_rep base hdl (q, h) ds"
  shows "\<exists>q' h'. clog_atomic_queue_detach CLOG_SUCCESS (Some hdl) q h = (q', h') \<and> atomic_core (base + 3) q' h' ds \<and>
    (\<exists>g. aq_global q' = Some g \<and> eg_state g = CLOG_EBR_GLOBAL_STATE_ACTIVE_NORMAL \<and> eg_threads g = [ah_local hdl] \<and>
      local_state (ah_local hdl) g = CLOG_EBR_LOCAL_STATE_RELEASED)"
proof -
  from assms obtain g where g: "aq_global q = Some g" "eg_state g = CLOG_EBR_GLOBAL_STATE_ACTIVE_NORMAL" "eg_threads g = [ah_local hdl]"
    and core: "atomic_core (base + 4) q h ds"
    by (auto simp: atomic_rep_core ebr_ready_def)
  define g' where "g' = set_local_state (ah_local hdl) CLOG_EBR_LOCAL_STATE_RELEASED g"
  define q' where "q' = q\<lparr>aq_global := Some g'\<rparr>"
  have "clog_atomic_queue_detach CLOG_SUCCESS (Some hdl) q h = (q', clog_free h)"
    using g by (simp add: clog_atomic_queue_detach_def clog_ebr_unregister_def clog_ebr_try_destroy_def g'_def q'_def
        set_local_state_def)
  moreover have "retired_nodes q' = retired_nodes q" by (simp add: retired_nodes_def q'_def g'_def g set_local_state_def)
  then have "atomic_core (base + 3) q' (clog_free h) ds"
    by (intro core_shift [OF core]) (simp_all add: clog_free_def, simp_all add: q'_def)
  ultimately show ?thesis using g by (simp add: q'_def g'_def set_local_state_def local_state_def)
qed

lemma clear_loop_core:
  "atomic_core k q h ds \<Longrightarrow> \<exists>q' h'. atomic_clear_loop CLOG_SUCCESS tmp outs q h = Some (outs @ ds @ [last (tmp # ds)], q', h') \<and>
     atomic_core k q' h' [] \<and> same_threads q q'"
proof (induction ds arbitrary: q h tmp outs)
  case Nil
  have "clog_atomic_queue_dequeue_internal False q h = Some (CLOG_TARGET_NOT_FOUND, None, q, h)"
    by (rule dequeue_internal_nil [OF Nil]) simp
  moreover have "atomic_clear_loop CLOG_TARGET_NOT_FOUND tmp os q h = Some (os, q, h)" for os
    by (subst atomic_clear_loop.simps) simp
  ultimately have "atomic_clear_loop CLOG_SUCCESS tmp outs q h = Some (outs @ [tmp], q, h)"
    by (subst atomic_clear_loop.simps) simp
  moreover have "same_threads q q" using Nil by (auto simp: same_threads_def atomic_core_def)
  ultimately show ?case using Nil by simp
next
  case (Cons d ds)
  from dequeue_internal_cons [OF Cons.prems, of False] obtain q1 h1 where
    d: "clog_atomic_queue_dequeue_internal False q h = Some (CLOG_SUCCESS, Some d, q1, h1)" "atomic_core k q1 h1 ds" "same_threads q q1"
    by auto
  from Cons.IH [OF d(2), of d "outs @ [d]"] obtain q' h' where
    "atomic_clear_loop CLOG_SUCCESS d (outs @ [d]) q1 h1 = Some ((outs @ [d]) @ ds @ [last (d # ds)], q', h')"
    "atomic_core k q' h' []" "same_threads q1 q'" by blast
  moreover from this(3) d(3) have "same_threads q q'" by (auto simp: same_threads_def)
  ultimately show ?case using d(1) by (subst atomic_clear_loop.simps) simp
qed

lemma release_list_nodes:
  "cells (release_list clog_atomic_queue_node_free ps h) = (cells h) |` (- set ps) \<and>
   live (release_list clog_atomic_queue_node_free ps h) = live h - 2 * int (length ps)"
proof (induction ps arbitrary: h)
  case (Cons p ps)
  show ?case
    using Cons [of "clog_free (clog_atomic_queue_node_free p h)"]
    by (auto simp: clog_atomic_queue_node_free_def clog_free_def restrict_map_def fun_eq_iff)
qed (simp add: restrict_map_def)

lemma cells_free_locals: "cells (free_locals ts h) = cells h"
  by (induction ts arbitrary: h) (simp_all add: clog_free_def)

lemma poll_destroy:
  fixes g :: "addr clog_ebr_global"
  assumes g: "eg_state g = CLOG_EBR_GLOBAL_STATE_ACTIVE_NORMAL" "eg_threads g = [t]" "local_state t g = CLOG_EBR_LOCAL_STATE_RELEASED"
    and dm: "dom (cells h) \<subseteq> set (eg_memory g 0 @ eg_memory g 1 @ eg_memory g 2)"
  shows "\<exists>g' h1 h2. clog_ebr_poll CLOG_SUCCESS clog_atomic_queue_node_free (Some g) h = (Some g', h1) \<and>
    clog_ebr_destroy CLOG_SUCCESS clog_atomic_queue_node_free (Some g') h1 = Some (CLOG_SUCCESS, None, h2) \<and>
    cells h2 = Map.empty \<and> live h2 = live h - 2 * int (length (eg_memory g 0 @ eg_memory g 1 @ eg_memory g 2)) - 2"
proof -
  define i where "i = release_index (eg_epoch g)"
  define g1 where "g1 = (set_memory i [] g)\<lparr>eg_epoch := next_epoch (eg_epoch g)\<rparr>"
  define h1 where "h1 = release_list clog_atomic_queue_node_free (eg_memory g i) h"
  have "quiet g" using g by (simp add: quiet_def)
  then have p: "clog_ebr_poll CLOG_SUCCESS clog_atomic_queue_node_free (Some g) h = (Some g1, h1)"
    by (simp add: poll_quiet g1_def h1_def i_def)
  define h2 where "h2 = clog_free (free_locals [t] (release_list clog_atomic_queue_node_free (eg_memory g1 2)
    (release_list clog_atomic_queue_node_free (eg_memory g1 1) (release_list clog_atomic_queue_node_free (eg_memory g1 0) h1))))"
  have "clog_ebr_destroy CLOG_SUCCESS clog_atomic_queue_node_free (Some g1) h1 = Some (CLOG_SUCCESS, None, h2)"
    using g by (subst clog_ebr_destroy.simps)
      (simp add: clog_ebr_try_destroy_def g1_def set_memory_def local_state_def Let_def h2_def)
  moreover have i3: "i = 0 \<or> i = 1 \<or> i = 2" using retire_index_less(2) [of "eg_epoch g"] by (auto simp: i_def)
  then have "cells h2 = Map.empty" using dm
    by (auto simp: h2_def clog_free_def cells_free_locals release_list_nodes h1_def g1_def set_memory_def
        restrict_map_def fun_eq_iff dom_def)
  moreover have "live h2 = live h - 2 * int (length (eg_memory g 0 @ eg_memory g 1 @ eg_memory g 2)) - 2" using i3
    by (auto simp: h2_def mem_simps release_list_nodes h1_def g1_def set_memory_def)
  ultimately show ?thesis using p by blast
qed

lemma destroy_core:
  assumes core: "atomic_core (base + 3) q h ds"
    and g: "aq_global q = Some g" "eg_state g = CLOG_EBR_GLOBAL_STATE_ACTIVE_NORMAL" "eg_threads g = [t]"
      "local_state t g = CLOG_EBR_LOCAL_STATE_RELEASED"
  shows "\<exists>h'. clog_atomic_queue_destroy CLOG_SUCCESS (Some q) h = Some (CLOG_SUCCESS, ds @ [last (0 # ds)], None, h') \<and>
    cells h' = Map.empty \<and> live h' = base"
proof -
  define q0 where "q0 = q\<lparr>aq_state := CLOG_ATOMIC_QUEUE_FINALIZING\<rparr>"
  have "atomic_core (base + 3) q0 h ds" using core by (simp add: q0_def)
  from clear_loop_core [OF this, of 0 "[]"] obtain q1 h1 where
    cl: "atomic_clear_loop CLOG_SUCCESS 0 [] q0 h = Some (ds @ [last (0 # ds)], q1, h1)"
    and c1: "atomic_core (base + 3) q1 h1 []" and same: "same_threads q0 q1" by auto
  from same g obtain g1 where g1: "aq_global q1 = Some g1" "eg_state g1 = CLOG_EBR_GLOBAL_STATE_ACTIVE_NORMAL" "eg_threads g1 = [t]"
    "local_state t g1 = CLOG_EBR_LOCAL_STATE_RELEASED"
    by (auto simp: same_threads_def q0_def local_state_def)
  define a where "a = aq_head q1"
  from c1 have n: "heap_ok h1" "dom (cells h1) = set (a # retired_nodes q1)" "distinct (a # retired_nodes q1)"
    and lv: "live h1 = base + 4 + 2 * int (length (retired_nodes q1))"
    by (auto simp: atomic_core_def atomic_nodes_def a_def dest!: node_path_length)
  have a0: "a \<noteq> NULL" using n(1,2) by (metis heap_ok_null domIff insertI1 list.simps(15))
  obtain global h2 where de: "clog_ebr_defer_release_global clog_atomic_queue_node_free (aq_global q1) (Some a) h1 = (global, h2)"
    by fastforce
  have "\<exists>g2. global = Some g2 \<and> eg_state g2 = CLOG_EBR_GLOBAL_STATE_ACTIVE_NORMAL \<and> eg_threads g2 = [t] \<and>
      local_state t g2 = CLOG_EBR_LOCAL_STATE_RELEASED \<and> dom (cells h2) \<subseteq> set (eg_memory g2 0 @ eg_memory g2 1 @ eg_memory g2 2) \<and>
      live h2 = base + 3 + 2 * int (length (eg_memory g2 0 @ eg_memory g2 1 @ eg_memory g2 2))"
  proof (rule defer_release_cases [OF g1(1) de], goal_cases)
    case waits: 1
    then obtain g2 where g2: "global = Some g2" "eg_threads g2 = [t]" "eg_local g2 = eg_local g1" "eg_state g2 = eg_state g1"
      using g1 by (auto simp: same_threads_def)
    have "mset (eg_memory g2 0 @ eg_memory g2 1 @ eg_memory g2 2) = mset (a # retired_nodes q1)"
      using waits(5) g2(1) by (simp add: retired_nodes_def)
    from mset_eq_setD [OF this] mset_eq_length [OF this] show ?case using g2 g1 waits(2,4) n lv
      by (auto simp: local_state_def)
  next
    case freed: 2
    with g1 n lv show ?case by (auto simp: retired_nodes_def)
  qed
  then obtain g2 where g2: "global = Some g2" "eg_state g2 = CLOG_EBR_GLOBAL_STATE_ACTIVE_NORMAL" "eg_threads g2 = [t]"
      "local_state t g2 = CLOG_EBR_LOCAL_STATE_RELEASED" "dom (cells h2) \<subseteq> set (eg_memory g2 0 @ eg_memory g2 1 @ eg_memory g2 2)"
    and lv2: "live h2 = base + 3 + 2 * int (length (eg_memory g2 0 @ eg_memory g2 1 @ eg_memory g2 2))" by blast
  from poll_destroy [OF g2(2-5)] obtain g3 h3 h4 where
    pd: "clog_ebr_poll CLOG_SUCCESS clog_atomic_queue_node_free (Some g2) h2 = (Some g3, h3)"
    "clog_ebr_destroy CLOG_SUCCESS clog_atomic_queue_node_free (Some g3) h3 = Some (CLOG_SUCCESS, None, h4)"
    "cells h4 = Map.empty" "live h4 = live h2 - 2 * int (length (eg_memory g2 0 @ eg_memory g2 1 @ eg_memory g2 2)) - 2" by blast
  have "clog_atomic_queue_destroy CLOG_SUCCESS (Some q) h = Some (CLOG_SUCCESS, ds @ [last (0 # ds)], None, clog_free h4)"
    using cl de a0 g2(1) pd(1,2) by (simp add: clog_atomic_queue_destroy_def q0_def a_def)
  moreover have "cells (clog_free h4) = Map.empty" using pd(3) by (simp add: clog_free_def)
  moreover have "live (clog_free h4) = base" using pd(4) lv2 by (simp add: mem_simps)
  ultimately show ?thesis by blast
qed

subsection \<open>Properties\<close>

text \<open>
  C16. The queue from creating to destroying, one thread at a time: any sequence of insertions and
  removals through a handle gives the results of a list, whichever allocations are refused;
  after detaching the handle, destroying the queue releases every node and every other block it
  allocated. The deallocator gets what was left in the queue in order, and then, because the
  variable it is read to keeps its value, the last element a second time (0 when nothing was left).
\<close>
theorem atomic_queue_lifecycle:
  assumes "heap_ok h" and "cells h = Map.empty"
    and "clog_atomic_queue_create True True CLOG_SUCCESS h = (CLOG_SUCCESS, Some q, h1)"
    and "clog_atomic_queue_attach CLOG_SUCCESS t (Some q) bias h1 = (Some hdl, Some q1, h2)"
  shows "\<exists>outs q2 h3 ds q3 h4 h5. fifo_exec (atomic_enq hdl) (atomic_deq hdl) cs (q1, h2) = Some (outs, q2, h3) \<and>
    fifo_spec cs outs [] = Some ds \<and> clog_atomic_queue_detach CLOG_SUCCESS (Some hdl) q2 h3 = (q3, h4) \<and>
    clog_atomic_queue_destroy CLOG_SUCCESS (Some q3) h4 = Some (CLOG_SUCCESS, ds @ [last (0 # ds)], None, h5) \<and>
    cells h5 = Map.empty \<and> live h5 = live h"
proof -
  from create_core [OF assms(1-3)] obtain g where core: "atomic_core (live h + 2) q h1 []"
    and q: "aq_state q = CLOG_ATOMIC_QUEUE_RUNNING" "aq_release_num q = 0"
    and g: "aq_global q = Some g" "eg_state g = CLOG_EBR_GLOBAL_STATE_ACTIVE_NORMAL" "eg_threads g = []" by blast
  from attach_rep [OF core q g assms(4)] have rep: "atomic_rep (live h) hdl (q1, h2) []" by simp
  from atomic_fifo.exec_spec [OF rep, of cs] obtain outs q2 h3 ds where
    x: "fifo_exec (atomic_enq hdl) (atomic_deq hdl) cs (q1, h2) = Some (outs, q2, h3)" "fifo_spec cs outs [] = Some ds"
    "atomic_rep (live h) hdl (q2, h3) ds" by fastforce
  from detach_core [OF x(3)] obtain q3 h4 g3 where
    d: "clog_atomic_queue_detach CLOG_SUCCESS (Some hdl) q2 h3 = (q3, h4)" "atomic_core (live h + 3) q3 h4 ds"
    and g3: "aq_global q3 = Some g3" "eg_state g3 = CLOG_EBR_GLOBAL_STATE_ACTIVE_NORMAL" "eg_threads g3 = [ah_local hdl]"
      "local_state (ah_local hdl) g3 = CLOG_EBR_LOCAL_STATE_RELEASED" by blast
  from destroy_core [OF d(2) g3] x(1,2) d(1) show ?thesis by blast
qed

lemma atomic_queue_lifecycle_witness:
  "\<exists>q h1 hdl q1 h2 outs q2 h3 ds q3 h4 h5.
    clog_atomic_queue_create True True CLOG_SUCCESS (heap_empty (\<lambda>_. True) :: nat atomic_node heap) = (CLOG_SUCCESS, Some q, h1) \<and>
    clog_atomic_queue_attach CLOG_SUCCESS 0 (Some q) CLOG_ATOMIC_QUEUE_BIASED_ANY h1 = (Some hdl, Some q1, h2) \<and>
    fifo_exec (atomic_enq hdl) (atomic_deq hdl) [F_enq 7, F_enq 8, F_deq] (q1, h2) = Some (outs, q2, h3) \<and>
    fifo_spec [F_enq 7, F_enq 8, F_deq] outs [] = Some ds \<and>
    clog_atomic_queue_detach CLOG_SUCCESS (Some hdl) q2 h3 = (q3, h4) \<and>
    clog_atomic_queue_destroy CLOG_SUCCESS (Some q3) h4 = Some (CLOG_SUCCESS, ds @ [last (0 # ds)], None, h5) \<and> live h5 = 0"
proof -
  have "\<exists>q h1 hdl q1 h2.
    clog_atomic_queue_create True True CLOG_SUCCESS (heap_empty (\<lambda>_. True) :: nat atomic_node heap) = (CLOG_SUCCESS, Some q, h1) \<and>
    clog_atomic_queue_attach CLOG_SUCCESS 0 (Some q) CLOG_ATOMIC_QUEUE_BIASED_ANY h1 = (Some hdl, Some q1, h2)"
    by (simp add: clog_atomic_queue_create_def clog_atomic_queue_attach_def clog_malloc_def halloc_def heap_empty_def
        clog_ebr_create_def clog_ebr_register_def sizeof_atomic_queue_def sizeof_atomic_handle_def sizeof_ebr_global_def
        sizeof_ebr_local_def)
  then obtain q h1 hdl q1 h2 where
    cr: "clog_atomic_queue_create True True CLOG_SUCCESS (heap_empty (\<lambda>_. True) :: nat atomic_node heap) = (CLOG_SUCCESS, Some q, h1)"
    and at: "clog_atomic_queue_attach CLOG_SUCCESS 0 (Some q) CLOG_ATOMIC_QUEUE_BIASED_ANY h1 = (Some hdl, Some q1, h2)" by blast
  have "cells (heap_empty (\<lambda>_. True) :: nat atomic_node heap) = Map.empty" "live (heap_empty (\<lambda>_. True) :: nat atomic_node heap) = 0"
    by (simp_all add: heap_empty_def)
  with atomic_queue_lifecycle [OF heap_ok_empty _ cr at, of "[F_enq 7, F_enq 8, F_deq]"] cr at show ?thesis by fastforce
qed

end
