(* ===== verification/Atomic_Queue_Steps.thy ===== *)
theory Atomic_Queue_Steps
  imports Atomic_Queue
begin

text \<open>
  The queue of utils/clog_atomic_queue.c used by any number of threads: every access to shared
  memory is one step, atomics are sequentially consistent. A step that accesses a node that is
  not allocated is \<open>Some None\<close>, a step whose thread is elsewhere is \<open>None\<close>.

  A node that is taken off is given to the reclamation and stays allocated: a collection is due
  only when \<open>release_num\<close> exceeds 128, and it never does (\<open>no_collection\<close>). What else makes memory
  go, an entry for a retired node that is refused, is the subject of \<open>Ebr\<close>.

  Four fields record the history, and no step reads them: \<open>as_order\<close> the data in the order their
  nodes were linked, \<open>as_out\<close> the data in the order the head moved past them, with the thread that
  moved it, \<open>as_rets\<close> what each thread's calls returned, \<open>as_retired\<close> the nodes retired.
\<close>

subsection \<open>State and steps\<close>

text \<open>
  \<open>N\<close>: in \<open>clog_atomic_queue_enqueue\<close>, with the data, then the node, then the tail it loaded and
  that node's link. \<open>D\<close>: in \<open>clog_atomic_queue_dequeue\<close>, with the head, the tail and the link.
\<close>

datatype 'd aq_pc =
    Q_idle
  | N_alloc 'd | N_tail addr | N_next addr addr | N_help addr addr addr | N_again addr addr | N_state addr addr
  | N_link addr addr | N_swing addr addr
  | D_head | D_tail addr | D_next addr addr | D_state addr addr addr | D_help addr addr | D_again addr addr addr
  | D_swing addr addr | D_read addr addr | D_clear addr addr 'd | D_retire addr 'd | D_count 'd

record 'd aq_sys =
  as_heap :: "'d atomic_node heap"
  as_head :: addr
  as_tail :: addr
  as_state :: clog_atomic_queue_state
  as_release_num :: "64 word"
  as_pc :: "nat \<Rightarrow> 'd aq_pc"
  as_order :: "'d list"
  as_out :: "(nat \<times> 'd) list"
  as_rets :: "nat \<Rightarrow> 'd list"
  as_retired :: "addr list"

definition go :: "nat \<Rightarrow> 'd aq_pc \<Rightarrow> 'd aq_sys \<Rightarrow> 'd aq_sys" where
  "go t pc s = s\<lparr>as_pc := (as_pc s)(t := pc)\<rparr>"

definition link_of :: "addr \<Rightarrow> 'd aq_sys \<Rightarrow> addr option" where
  "link_of a s = map_option an_next (cells (as_heap s) a)"

text \<open>Move the tail from \<open>a\<close> to \<open>b\<close>, if it is \<open>a\<close>.\<close>

definition swing_tail :: "addr \<Rightarrow> addr \<Rightarrow> 'd aq_sys \<Rightarrow> 'd aq_sys" where
  "swing_tail a b s = (if as_tail s = a then s\<lparr>as_tail := b\<rparr> else s)"

definition n_alloc :: "nat \<Rightarrow> 'd \<Rightarrow> 'd aq_sys \<Rightarrow> 'd aq_sys" where
  "n_alloc t d s = (case halloc \<lparr>an_next = NULL, an_data = d\<rparr> (as_heap s) of
      (a, h) \<Rightarrow> go t (if a = NULL then Q_idle else N_tail a) (s\<lparr>as_heap := h\<rparr>))"

definition n_next :: "nat \<Rightarrow> addr \<Rightarrow> addr \<Rightarrow> 'd aq_sys \<Rightarrow> 'd aq_sys option" where
  "n_next t n a s = map_option (\<lambda>x. go t (if x \<noteq> NULL then N_help n a x else N_again n a) s) (link_of a s)"

definition n_state :: "nat \<Rightarrow> addr \<Rightarrow> addr \<Rightarrow> 'd aq_sys \<Rightarrow> 'd aq_sys option" where
  "n_state t n a s =
     (if as_state s \<noteq> CLOG_ATOMIC_QUEUE_RUNNING
      then map_option (\<lambda>h. go t Q_idle (s\<lparr>as_heap := h\<rparr>)) (hfree n (as_heap s))
      else Some (go t (N_link n a) s))"

text \<open>The exchange of the last node's link, from NULL to the new node.\<close>

definition n_link :: "nat \<Rightarrow> addr \<Rightarrow> addr \<Rightarrow> 'd aq_sys \<Rightarrow> 'd aq_sys option" where
  "n_link t n a s = (case (link_of a s, cells (as_heap s) n) of
      (Some x, Some c) \<Rightarrow>
        if x = NULL
        then map_option (\<lambda>h. go t (N_swing n a) (s\<lparr>as_heap := h, as_order := as_order s @ [an_data c]\<rparr>))
               (hupd a (\<lambda>c. c\<lparr>an_next := n\<rparr>) (as_heap s))
        else Some (go t (N_tail n) s)
    | _ \<Rightarrow> None)"

definition d_next :: "nat \<Rightarrow> addr \<Rightarrow> addr \<Rightarrow> 'd aq_sys \<Rightarrow> 'd aq_sys option" where
  "d_next t a b s = map_option (\<lambda>x. go t (D_state a b x) s) (link_of a s)"

definition d_state :: "nat \<Rightarrow> addr \<Rightarrow> addr \<Rightarrow> addr \<Rightarrow> 'd aq_sys \<Rightarrow> 'd aq_sys" where
  "d_state t a b x s =
     (if as_state s \<noteq> CLOG_ATOMIC_QUEUE_RUNNING then go t Q_idle s
      else if a = b \<and> x = NULL then go t Q_idle s
      else if a = b then go t (D_help b x) s
      else go t (D_again a b x) s)"

definition d_again :: "nat \<Rightarrow> addr \<Rightarrow> addr \<Rightarrow> addr \<Rightarrow> 'd aq_sys \<Rightarrow> 'd aq_sys" where
  "d_again t a b x s = (if b \<noteq> as_tail s then go t D_head s else if x \<noteq> NULL then go t (D_swing a x) s else go t D_head s)"

text \<open>The exchange of the head; the datum it passes is recorded.\<close>

definition d_swing :: "nat \<Rightarrow> addr \<Rightarrow> addr \<Rightarrow> 'd aq_sys \<Rightarrow> 'd aq_sys option" where
  "d_swing t a x s =
     (if as_head s = a
      then map_option (\<lambda>c. go t (D_read a x) (s\<lparr>as_head := x, as_out := as_out s @ [(t, an_data c)]\<rparr>)) (cells (as_heap s) x)
      else Some (go t D_head s))"

definition d_read :: "nat \<Rightarrow> addr \<Rightarrow> addr \<Rightarrow> 'd aq_sys \<Rightarrow> 'd aq_sys option" where
  "d_read t a x s = map_option (\<lambda>c. go t (D_clear a x (an_data c)) s) (cells (as_heap s) x)"

definition d_clear :: "nat \<Rightarrow> addr \<Rightarrow> addr \<Rightarrow> 'd \<Rightarrow> ('d::zero) aq_sys \<Rightarrow> 'd aq_sys option" where
  "d_clear t a x d s =
     map_option (\<lambda>h. go t (D_retire a d) (s\<lparr>as_heap := h\<rparr>)) (hupd x (\<lambda>c. c\<lparr>an_data := 0\<rparr>) (as_heap s))"

definition d_retire :: "nat \<Rightarrow> addr \<Rightarrow> 'd \<Rightarrow> 'd aq_sys \<Rightarrow> 'd aq_sys" where
  "d_retire t a d s = go t (D_count d) (s\<lparr>as_retired := as_retired s @ [a]\<rparr>)"

definition d_count :: "nat \<Rightarrow> 'd \<Rightarrow> 'd aq_sys \<Rightarrow> 'd aq_sys" where
  "d_count t d s = go t Q_idle
     (s\<lparr>as_release_num := as_release_num s AND 1, as_rets := (as_rets s)(t := as_rets s t @ [d])\<rparr>)"

definition thread_step :: "nat \<Rightarrow> ('d::zero) aq_sys \<Rightarrow> 'd aq_sys option option" where
  "thread_step t s = (case as_pc s t of
      Q_idle \<Rightarrow> None
    | N_alloc d \<Rightarrow> Some (Some (n_alloc t d s))
    | N_tail n \<Rightarrow> Some (Some (go t (N_next n (as_tail s)) s))
    | N_next n a \<Rightarrow> Some (n_next t n a s)
    | N_help n a x \<Rightarrow> Some (Some (go t (N_tail n) (swing_tail a x s)))
    | N_again n a \<Rightarrow> Some (Some (go t (if a = as_tail s then N_state n a else N_tail n) s))
    | N_state n a \<Rightarrow> Some (n_state t n a s)
    | N_link n a \<Rightarrow> Some (n_link t n a s)
    | N_swing n a \<Rightarrow> Some (Some (go t Q_idle (swing_tail a n s)))
    | D_head \<Rightarrow> Some (Some (go t (D_tail (as_head s)) s))
    | D_tail a \<Rightarrow> Some (Some (go t (D_next a (as_tail s)) s))
    | D_next a b \<Rightarrow> Some (d_next t a b s)
    | D_state a b x \<Rightarrow> Some (Some (d_state t a b x s))
    | D_help a x \<Rightarrow> Some (Some (go t D_head (swing_tail a x s)))
    | D_again a b x \<Rightarrow> Some (Some (d_again t a b x s))
    | D_swing a x \<Rightarrow> Some (d_swing t a x s)
    | D_read a x \<Rightarrow> Some (d_read t a x s)
    | D_clear a x d \<Rightarrow> Some (d_clear t a x d s)
    | D_retire a d \<Rightarrow> Some (Some (d_retire t a d s))
    | D_count d \<Rightarrow> Some (Some (d_count t d s)))"

text \<open>
  What can happen: a call begins (and ends at once when the queue is not running), a thread goes
  on, and \<open>clog_atomic_queue_destroy\<close> begins with changing the state. A call that would collect
  does not begin; there is none.
\<close>

datatype 'd aq_action = Begin_enqueue nat 'd | Begin_dequeue nat | Go_on nat | Finalize

definition collection_due :: "'d aq_sys \<Rightarrow> bool" where
  "collection_due s \<longleftrightarrow> \<not> as_release_num s \<le> 128"

definition begin_call :: "nat \<Rightarrow> 'd aq_pc \<Rightarrow> 'd aq_sys \<Rightarrow> 'd aq_sys" where
  "begin_call t pc s = (if as_state s \<noteq> CLOG_ATOMIC_QUEUE_RUNNING then s else go t pc s)"

fun aq_step :: "'d aq_action \<Rightarrow> ('d::zero) aq_sys \<Rightarrow> 'd aq_sys option option" where
  "aq_step (Begin_enqueue t d) s =
     (if as_pc s t = Q_idle \<and> \<not> collection_due s then Some (Some (begin_call t (N_alloc d) s)) else None)"
| "aq_step (Begin_dequeue t) s =
     (if as_pc s t = Q_idle \<and> \<not> collection_due s then Some (Some (begin_call t D_head s)) else None)"
| "aq_step (Go_on t) s = thread_step t s"
| "aq_step Finalize s = Some (Some (s\<lparr>as_state := CLOG_ATOMIC_QUEUE_FINALIZING\<rparr>))"

definition aq_start :: "clog_atomic_queue \<Rightarrow> 'd atomic_node heap \<Rightarrow> 'd aq_sys" where
  "aq_start q h = \<lparr>as_heap = h, as_head = aq_head q, as_tail = aq_tail q, as_state = aq_state q,
     as_release_num = aq_release_num q, as_pc = (\<lambda>_. Q_idle), as_order = [], as_out = [], as_rets = (\<lambda>_. []), as_retired = []\<rparr>"

inductive aq_reach :: "('d::zero) aq_sys \<Rightarrow> bool" where
  aq_init: "heap_ok h \<Longrightarrow> cells h = Map.empty \<Longrightarrow>
     clog_atomic_queue_create True True CLOG_SUCCESS h = (CLOG_SUCCESS, Some q, h') \<Longrightarrow> aq_reach (aq_start q h')"
| aq_next: "aq_reach s \<Longrightarrow> aq_step a s = Some (Some s') \<Longrightarrow> aq_reach s'"

subsection \<open>The invariant\<close>

text \<open>
  \<open>ns\<close> are all nodes that were ever linked, in order; the head is the one at \<open>i\<close>, the tail the one at
  \<open>j\<close>. \<open>pos_ok\<close>: where the nodes a thread remembers are in that list; this is stable, since the
  list only grows and the head and the tail only move on. \<open>own_nodes\<close>: a node that is not linked
  yet. \<open>passed\<close>: a node the thread has moved the head away from and not yet retired. \<open>pending\<close>: the
  datum the thread is going to return.
\<close>

definition nth_is :: "addr list \<Rightarrow> nat \<Rightarrow> addr \<Rightarrow> bool" where
  "nth_is ns k a \<longleftrightarrow> k < length ns \<and> ns ! k = a"

definition linked :: "addr list \<Rightarrow> addr \<Rightarrow> addr \<Rightarrow> bool" where
  "linked ns a b \<longleftrightarrow> (\<exists>k. nth_is ns k a \<and> nth_is ns (Suc k) b)"

fun pos_ok :: "addr list \<Rightarrow> nat \<Rightarrow> nat \<Rightarrow> 'd aq_pc \<Rightarrow> bool" where
  "pos_ok ns i j (N_next n a) \<longleftrightarrow> a \<in> set ns"
| "pos_ok ns i j (N_help n a x) \<longleftrightarrow> linked ns a x"
| "pos_ok ns i j (N_again n a) \<longleftrightarrow> a \<in> set ns"
| "pos_ok ns i j (N_state n a) \<longleftrightarrow> a \<in> set ns"
| "pos_ok ns i j (N_link n a) \<longleftrightarrow> a \<in> set ns"
| "pos_ok ns i j (N_swing n a) \<longleftrightarrow> linked ns a n"
| "pos_ok ns i j (D_tail a) \<longleftrightarrow> (\<exists>k \<le> i. nth_is ns k a)"
| "pos_ok ns i j (D_next a b) \<longleftrightarrow> (\<exists>k \<le> i. nth_is ns k a \<and> (\<exists>l \<le> j. nth_is ns l b \<and> k \<le> l))"
| "pos_ok ns i j (D_state a b x) \<longleftrightarrow>
     (\<exists>k \<le> i. nth_is ns k a \<and> (\<exists>l \<le> j. nth_is ns l b \<and> k \<le> l)) \<and> (x \<noteq> NULL \<longrightarrow> linked ns a x)"
| "pos_ok ns i j (D_help a x) \<longleftrightarrow> linked ns a x"
| "pos_ok ns i j (D_again a b x) \<longleftrightarrow>
     (\<exists>k \<le> i. nth_is ns k a \<and> (\<exists>l \<le> j. nth_is ns l b \<and> k < l)) \<and> (x \<noteq> NULL \<longrightarrow> linked ns a x)"
| "pos_ok ns i j (D_swing a x) \<longleftrightarrow> (\<exists>k < j. nth_is ns k a) \<and> linked ns a x"
| "pos_ok ns i j (D_read a x) \<longleftrightarrow> linked ns a x"
| "pos_ok ns i j (D_clear a x d) \<longleftrightarrow> linked ns a x"
| "pos_ok ns i j _ \<longleftrightarrow> True"

fun own_nodes :: "'d aq_pc \<Rightarrow> addr set" where
  "own_nodes (N_tail n) = {n}"
| "own_nodes (N_next n a) = {n}"
| "own_nodes (N_help n a x) = {n}"
| "own_nodes (N_again n a) = {n}"
| "own_nodes (N_state n a) = {n}"
| "own_nodes (N_link n a) = {n}"
| "own_nodes _ = {}"

fun passed :: "'d aq_pc \<Rightarrow> addr set" where
  "passed (D_read a x) = {a}"
| "passed (D_clear a x d) = {a}"
| "passed (D_retire a d) = {a}"
| "passed _ = {}"

fun pending :: "(addr \<rightharpoonup> 'd atomic_node) \<Rightarrow> 'd aq_pc \<Rightarrow> 'd list" where
  "pending C (D_read a x) = [an_data (the (C x))]"
| "pending C (D_clear a x d) = [d]"
| "pending C (D_retire a d) = [d]"
| "pending C (D_count d) = [d]"
| "pending C _ = []"

definition chain_ok :: "(addr \<rightharpoonup> 'd atomic_node) \<Rightarrow> addr list \<Rightarrow> nat \<Rightarrow> 'd list \<Rightarrow> bool" where
  "chain_ok C ns i order \<longleftrightarrow> distinct ns \<and> NULL \<notin> set ns \<and> length ns = Suc (length order) \<and>
     (\<forall>k < length ns. \<exists>c. C (ns ! k) = Some c \<and> an_next c = (if Suc k < length ns then ns ! Suc k else NULL) \<and>
        (i < k \<longrightarrow> an_data c = order ! (k - 1)))"

definition ends_ok :: "addr list \<Rightarrow> nat \<Rightarrow> nat \<Rightarrow> addr \<Rightarrow> addr \<Rightarrow> bool" where
  "ends_ok ns i j hd_node tl_node \<longleftrightarrow> i \<le> j \<and> nth_is ns i hd_node \<and> nth_is ns j tl_node"

definition own_ok :: "(addr \<rightharpoonup> 'd atomic_node) \<Rightarrow> addr list \<Rightarrow> (nat \<Rightarrow> 'd aq_pc) \<Rightarrow> bool" where
  "own_ok C ns pcs \<longleftrightarrow>
     (\<forall>t. \<forall>n \<in> own_nodes (pcs t). n \<notin> set ns \<and> (\<exists>c. C n = Some c \<and> an_next c = NULL)) \<and>
     (\<forall>t u. t \<noteq> u \<longrightarrow> own_nodes (pcs t) \<inter> own_nodes (pcs u) = {})"

definition passed_ok :: "addr list \<Rightarrow> nat \<Rightarrow> addr list \<Rightarrow> (nat \<Rightarrow> 'd aq_pc) \<Rightarrow> bool" where
  "passed_ok ns i retired pcs \<longleftrightarrow> distinct retired \<and> set retired \<subseteq> set (take i ns) \<and>
     (\<forall>t. passed (pcs t) \<subseteq> set (take i ns) - set retired) \<and>
     (\<forall>t u. t \<noteq> u \<longrightarrow> passed (pcs t) \<inter> passed (pcs u) = {})"

definition out_ok ::
    "(addr \<rightharpoonup> 'd atomic_node) \<Rightarrow> nat \<Rightarrow> 'd list \<Rightarrow> (nat \<times> 'd) list \<Rightarrow> (nat \<Rightarrow> 'd list) \<Rightarrow> (nat \<Rightarrow> 'd aq_pc) \<Rightarrow> bool" where
  "out_ok C i order out rets pcs \<longleftrightarrow> map snd out = take i order \<and>
     (\<forall>t. map snd (filter (\<lambda>p. fst p = t) out) = rets t @ pending C (pcs t))"

definition aq_inv :: "addr list \<Rightarrow> nat \<Rightarrow> nat \<Rightarrow> 'd aq_sys \<Rightarrow> bool" where
  "aq_inv ns i j s \<longleftrightarrow> heap_ok (as_heap s) \<and> as_release_num s = 0 \<and>
     chain_ok (cells (as_heap s)) ns i (as_order s) \<and> ends_ok ns i j (as_head s) (as_tail s) \<and>
     (\<forall>t. pos_ok ns i j (as_pc s t)) \<and> own_ok (cells (as_heap s)) ns (as_pc s) \<and>
     passed_ok ns i (as_retired s) (as_pc s) \<and>
     out_ok (cells (as_heap s)) i (as_order s) (as_out s) (as_rets s) (as_pc s)"

subsection \<open>Positions\<close>

lemma chain_facts:
  assumes "chain_ok C ns i order"
  shows "distinct ns" "NULL \<notin> set ns" "length ns = Suc (length order)"
  using assms by (simp_all add: chain_ok_def)

lemma chain_node:
  assumes "chain_ok C ns i order" and "k < length ns"
  shows "\<exists>c. C (ns ! k) = Some c \<and> an_next c = (if Suc k < length ns then ns ! Suc k else NULL) \<and>
    (i < k \<longrightarrow> an_data c = order ! (k - 1))"
  using assms unfolding chain_ok_def by blast

lemma chain_okI:
  assumes "distinct ns" "NULL \<notin> set ns" "length ns = Suc (length order)"
    and "\<And>k. k < length ns \<Longrightarrow> \<exists>c. C (ns ! k) = Some c \<and> an_next c = (if Suc k < length ns then ns ! Suc k else NULL) \<and>
        (i < k \<longrightarrow> an_data c = order ! (k - 1))"
  shows "chain_ok C ns i order"
  using assms unfolding chain_ok_def by blast

lemma ends_facts:
  assumes "ends_ok ns i j a b"
  shows "i \<le> j" "nth_is ns i a" "nth_is ns j b" "i < length ns" "j < length ns" "b \<in> set ns"
  using assms by (auto simp: ends_ok_def nth_is_def)

lemma nth_is_mono: "nth_is ns k a \<Longrightarrow> nth_is (ns @ ms) k a"
  by (auto simp: nth_is_def nth_append)

lemma linked_mono: "linked ns a b \<Longrightarrow> linked (ns @ ms) a b"
  unfolding linked_def by (meson nth_is_mono)

lemma nth_is_unique: "distinct ns \<Longrightarrow> nth_is ns k a \<Longrightarrow> nth_is ns l a \<Longrightarrow> k = l"
  by (auto simp: nth_is_def nth_eq_iff_index_eq)

lemma pos_ok_mono:
  assumes "pos_ok ns i j pc" and "i \<le> i'" and "j \<le> j'"
  shows "pos_ok (ns @ ms) i' j' pc"
  using assms by (cases pc) (auto intro: linked_mono, (meson nth_is_mono order_trans less_le_trans)+)

lemma linked_succ: "Suc k < length ns \<Longrightarrow> linked ns (ns ! k) (ns ! Suc k)"
  unfolding linked_def nth_is_def by (intro exI [of _ k]) simp

lemma chain_link:
  assumes "chain_ok C ns i order" and "a \<in> set ns"
  shows "\<exists>c. C a = Some c \<and> (an_next c \<noteq> NULL \<longrightarrow> linked ns a (an_next c)) \<and> (an_next c = NULL \<longrightarrow> a = last ns)"
proof -
  from assms(2) obtain k where k: "k < length ns" "ns ! k = a" by (auto simp: in_set_conv_nth)
  with chain_node [OF assms(1) k(1)] obtain c where
    c: "C a = Some c" "an_next c = (if Suc k < length ns then ns ! Suc k else NULL)" by metis
  have "an_next c \<noteq> NULL \<longrightarrow> linked ns a (an_next c)"
  proof
    assume "an_next c \<noteq> NULL"
    then have "Suc k < length ns" "an_next c = ns ! Suc k" using c(2) by (simp_all split: if_splits)
    then show "linked ns a (an_next c)" using linked_succ k(2) by metis
  qed
  moreover have "an_next c = NULL \<longrightarrow> a = last ns"
  proof
    assume "an_next c = NULL"
    then have "Suc k < length ns \<Longrightarrow> ns ! Suc k = NULL" using c(2) by simp
    then have "\<not> Suc k < length ns" using chain_facts(2) [OF assms(1)] nth_mem by metis
    then have "k = length ns - 1" using k by simp
    then show "a = last ns" using k by (metis last_conv_nth list.size(3) not_less_zero)
  qed
  ultimately show ?thesis using c(1) by (intro exI [of _ c] conjI)
qed

lemma linked_distinct:
  "distinct ns \<Longrightarrow> linked ns a b \<Longrightarrow> nth_is ns k a \<Longrightarrow> nth_is ns (Suc k) b"
  unfolding linked_def using nth_is_unique by blast

lemma linked_inj: "distinct ns \<Longrightarrow> linked ns a x \<Longrightarrow> linked ns b x \<Longrightarrow> a = b"
  unfolding linked_def by (metis Suc_inject nth_is_def nth_is_unique)

subsection \<open>Steps\<close>

lemma aq_invD:
  assumes "aq_inv ns i j s"
  shows "heap_ok (as_heap s)" "as_release_num s = 0" "chain_ok (cells (as_heap s)) ns i (as_order s)"
    "ends_ok ns i j (as_head s) (as_tail s)" "pos_ok ns i j (as_pc s t)" "own_ok (cells (as_heap s)) ns (as_pc s)"
    "passed_ok ns i (as_retired s) (as_pc s)"
    "out_ok (cells (as_heap s)) i (as_order s) (as_out s) (as_rets s) (as_pc s)" "distinct ns"
  using assms chain_facts(1) by (auto simp: aq_inv_def)

lemma own_ok_upd:
  assumes "own_ok C ns pcs" and "own_nodes pc \<subseteq> own_nodes (pcs t)"
  shows "own_ok C ns (pcs(t := pc))"
proof -
  have "own_nodes ((pcs(t := pc)) u) \<subseteq> own_nodes (pcs u)" for u using assms(2) by simp
  then show ?thesis using assms(1) unfolding own_ok_def by blast
qed

lemma passed_ok_upd:
  assumes "passed_ok ns i retired pcs" and "passed pc \<subseteq> passed (pcs t)"
  shows "passed_ok ns i retired (pcs(t := pc))"
proof -
  have "passed ((pcs(t := pc)) u) \<subseteq> passed (pcs u)" for u using assms(2) by simp
  then show ?thesis using assms(1) unfolding passed_ok_def by blast
qed

text \<open>A step that only moves the thread.\<close>

lemma inv_go:
  assumes inv: "aq_inv ns i j s" and "pos_ok ns i j pc" and "own_nodes pc \<subseteq> own_nodes (as_pc s t)"
    and "passed pc \<subseteq> passed (as_pc s t)" and "pending (cells (as_heap s)) pc = pending (cells (as_heap s)) (as_pc s t)"
  shows "aq_inv ns i j (go t pc s)"
  using inv own_ok_upd [OF aq_invD(6) [OF inv] assms(3)] passed_ok_upd [OF aq_invD(7) [OF inv] assms(4)] assms(2,5)
  by (auto simp: aq_inv_def go_def out_ok_def)

lemma inv_swing_tail:
  assumes inv: "aq_inv ns i j s" and l: "linked ns a x"
  obtains j' where "aq_inv ns i j' (swing_tail a x s)" "as_pc (swing_tail a x s) = as_pc s"
    "as_heap (swing_tail a x s) = as_heap s"
proof (cases "as_tail s = a")
  case True
  then have "nth_is ns j a" using aq_invD(4) [OF inv] by (simp add: ends_ok_def)
  from linked_distinct [OF aq_invD(9) [OF inv] l this] have "ends_ok ns i (Suc j) (as_head s) x"
    using aq_invD(4) [OF inv] by (auto simp: ends_ok_def)
  moreover have "pos_ok ns i (Suc j) (as_pc s t)" for t
    using pos_ok_mono [OF aq_invD(5) [OF inv], of i "Suc j" "[]" t] by simp
  ultimately have "aq_inv ns i (Suc j) (swing_tail a x s)" using inv True by (auto simp: aq_inv_def swing_tail_def)
  then show ?thesis using that True by (auto simp: swing_tail_def)
qed (use inv that in \<open>auto simp: swing_tail_def\<close>)

lemma chain_ok_cong:
  assumes "chain_ok C ns i order" and "\<And>a. a \<in> set ns \<Longrightarrow> C' a = C a"
  shows "chain_ok C' ns i order"
proof (rule chain_okI [OF chain_facts [OF assms(1)]])
  fix k assume "k < length ns"
  with chain_node [OF assms(1) this] assms(2) [of "ns ! k"]
  show "\<exists>c. C' (ns ! k) = Some c \<and> an_next c = (if Suc k < length ns then ns ! Suc k else NULL) \<and>
      (i < k \<longrightarrow> an_data c = order ! (k - 1))" by (metis nth_mem)
qed

lemma pending_same:
  assumes "pos_ok ns i j pc" and "\<And>a. a \<in> set ns \<Longrightarrow> C' a = C a"
  shows "pending C' pc = pending C pc"
  using assms by (cases pc) (auto simp: linked_def nth_is_def)

lemma own_ok_cong:
  assumes own: "own_ok C ns pcs" and "\<And>n. n \<notin> set ns \<Longrightarrow> C n \<noteq> None \<Longrightarrow> C' n = C n"
  shows "own_ok C' ns pcs"
  using assms unfolding own_ok_def by (metis option.distinct(1))

lemma own_ok_snoc: "own_ok C ns pcs \<Longrightarrow> (\<And>t. n \<notin> own_nodes (pcs t)) \<Longrightarrow> own_ok C (ns @ [n]) pcs"
  by (auto simp: own_ok_def)

lemma inv_n_alloc:
  assumes inv: "aq_inv ns i j s" and pc: "as_pc s t = N_alloc d"
  shows "aq_inv ns i j (n_alloc t d s)"
proof -
  obtain a h where ah: "halloc \<lparr>an_next = NULL, an_data = d\<rparr> (as_heap s) = (a, h)" by fastforce
  note D = aq_invD [OF inv]
  have h: "heap_ok h" by (rule heap_ok_halloc [OF D(1) ah])
  have C: "cells h b = cells (as_heap s) b" if "cells (as_heap s) b \<noteq> None" for b
    using ah heap_ok_brk [OF D(1)] that by (cases rule: halloc_cases) auto
  have ns: "cells h b = cells (as_heap s) b" if "b \<in> set ns" for b
    using chain_link [OF D(3) that] by (metis C option.distinct(1))
  have pe: "pending (cells h) (as_pc s u) = pending (cells (as_heap s)) (as_pc s u)" for u
    by (rule pending_same [OF D(5) ns])
  have own: "own_ok (cells h) ns (as_pc s)"
    using D(6) C unfolding own_ok_def by (metis option.distinct(1))
  show ?thesis
  proof (cases "a = NULL")
    case True
    have "aq_inv ns i j (s\<lparr>as_heap := h\<rparr>)"
      using inv h chain_ok_cong [OF D(3) ns] own D(8) pe by (simp add: aq_inv_def out_ok_def)
    from inv_go [OF this, of Q_idle t] pc show ?thesis using ah True by (simp add: n_alloc_def)
  next
    case False
    have a: "cells (as_heap s) a = None" "cells h a = Some \<lparr>an_next = NULL, an_data = d\<rparr>"
      using ah heap_ok_brk [OF D(1)] False by (cases rule: halloc_cases, auto)+
    have "a \<notin> set ns" using chain_link [OF D(3)] a(1) by (metis option.distinct(1))
    moreover have "a \<notin> own_nodes (as_pc s u)" for u using D(6) a(1) unfolding own_ok_def by (metis option.distinct(1))
    ultimately have "own_ok (cells h) ns ((as_pc s)(t := N_tail a))" using own a(2) by (auto simp: own_ok_def)
    moreover have "passed_ok ns i (as_retired s) ((as_pc s)(t := N_tail a))" by (rule passed_ok_upd [OF D(7)]) simp
    ultimately show ?thesis
      using inv h chain_ok_cong [OF D(3) ns] pe pc D(8) ah False by (auto simp: n_alloc_def aq_inv_def go_def out_ok_def)
  qed
qed

lemma inv_n_state:
  assumes inv: "aq_inv ns i j s" and pc: "as_pc s t = N_state n a"
  shows "\<exists>s'. n_state t n a s = Some s' \<and> aq_inv ns i j s'"
proof (cases "as_state s = CLOG_ATOMIC_QUEUE_RUNNING")
  case True
  with inv_go [OF inv, of "N_link n a" t] aq_invD(5) [OF inv, of t] pc show ?thesis by (simp add: n_state_def)
next
  case False
  note D = aq_invD [OF inv]
  from D(6) pc obtain c where c: "cells (as_heap s) n = Some c" "n \<notin> set ns" unfolding own_ok_def by (metis own_nodes.simps(5) singletonI)
  define h where "h = (clog_free (as_heap s))\<lparr>cells := (cells (as_heap s))(n := None)\<rparr>"
  have free: "hfree n (as_heap s) = Some h" using c by (simp add: hfree_Some h_def)
  have ns: "cells h b = cells (as_heap s) b" if "b \<in> set ns" for b using that c(2) by (auto simp: h_def)
  have pe: "pending (cells h) (as_pc s u) = pending (cells (as_heap s)) (as_pc s u)" for u
    by (rule pending_same [OF D(5) ns])
  have "n \<notin> own_nodes (as_pc s u)" if "u \<noteq> t" for u using D(6) pc that unfolding own_ok_def by (metis disjoint_iff own_nodes.simps(5) singletonI)
  then have "own_ok (cells h) ns ((as_pc s)(t := Q_idle))" using D(6) by (auto simp: own_ok_def h_def)
  moreover have "passed_ok ns i (as_retired s) ((as_pc s)(t := Q_idle))" by (rule passed_ok_upd [OF D(7)]) simp
  ultimately have "aq_inv ns i j (go t Q_idle (s\<lparr>as_heap := h\<rparr>))"
    using inv heap_ok_hfree [OF D(1) free] chain_ok_cong [OF D(3) ns] pe pc D(8) by (auto simp: aq_inv_def go_def out_ok_def)
  with free False show ?thesis by (simp add: n_state_def)
qed

lemma chain_ok_link:
  assumes ch: "chain_ok C ns i order" and "C (last ns) = Some c" and n: "C n = Some cn" "an_next cn = NULL" "n \<notin> set ns" "n \<noteq> NULL"
  shows "chain_ok (C(last ns \<mapsto> c\<lparr>an_next := n\<rparr>)) (ns @ [n]) i (order @ [an_data cn])"
proof -
  have ne: "ns \<noteq> []" and len: "length ns = Suc (length order)" and d: "distinct ns"
    using ch by (auto simp: chain_ok_def)
  have last: "last ns = ns ! length order" using ne len by (simp add: last_conv_nth)
  have "\<exists>c'. (C(last ns \<mapsto> c\<lparr>an_next := n\<rparr>)) ((ns @ [n]) ! k) = Some c' \<and>
      an_next c' = (if Suc k < length (ns @ [n]) then (ns @ [n]) ! Suc k else NULL) \<and>
      (i < k \<longrightarrow> an_data c' = (order @ [an_data cn]) ! (k - 1))" if k: "k < length (ns @ [n])" for k
  proof -
    consider "k = length ns" | "k = length order" | "k < length order" using k len by force
    then show ?thesis
    proof cases
      case 1
      have "n \<noteq> last ns" using n(3) ne by auto
      with 1 n len show ?thesis by (auto simp: nth_append)
    next
      case 2
      with chain_node [OF ch, of k] len obtain c' where "C (ns ! k) = Some c'" "i < k \<longrightarrow> an_data c' = order ! (k - 1)" by auto
      then show ?thesis using 2 assms(2) len last by (auto simp: nth_append)
    next
      case 3
      with chain_node [OF ch, of k] len obtain c' where
        c': "C (ns ! k) = Some c'" "an_next c' = ns ! Suc k" "i < k \<longrightarrow> an_data c' = order ! (k - 1)" by auto
      have "ns ! k \<noteq> last ns" using 3 len d by (simp add: last nth_eq_iff_index_eq)
      then show ?thesis using 3 len c' by (auto simp: nth_append)
    qed
  qed
  then show ?thesis using d n(3,4) chain_facts(2) [OF ch] len by (intro chain_okI) auto
qed

lemma inv_n_link:
  assumes inv: "aq_inv ns i j s" and pc: "as_pc s t = N_link n a"
  shows "\<exists>s' ns'. n_link t n a s = Some s' \<and> aq_inv ns' i j s'"
proof -
  note D = aq_invD [OF inv]
  let ?C = "cells (as_heap s)"
  from D(5) [of t] pc have a: "a \<in> set ns" by simp
  obtain c where c: "?C a = Some c" "an_next c = NULL \<longrightarrow> a = last ns"
    using chain_link [OF D(3) a] by (elim exE conjE) (rule that)
  from D(6) pc obtain cn where n: "?C n = Some cn" "an_next cn = NULL" "n \<notin> set ns"
    unfolding own_ok_def by (metis own_nodes.simps(6) singletonI)
  have n0: "n \<noteq> NULL" using n(1) heap_ok_null [OF D(1)] by (metis option.distinct(1))
  show ?thesis
  proof (cases "an_next c = NULL")
    case False
    with inv_go [OF inv, of "N_tail n" t] pc c(1) n(1) show ?thesis by (auto simp: n_link_def link_of_def)
  next
    case True
    then have al: "a = last ns" using c(2) by blast
    define h where "h = (as_heap s)\<lparr>cells := ?C(a \<mapsto> c\<lparr>an_next := n\<rparr>)\<rparr>"
    define s' where "s' = go t (N_swing n a) (s\<lparr>as_heap := h, as_order := as_order s @ [an_data cn]\<rparr>)"
    have len: "length ns = Suc (length (as_order s))" and i: "i < length ns" and ne: "ns \<noteq> []"
      using D(3,4) by (auto simp: chain_ok_def ends_ok_def nth_is_def)
    have ch: "chain_ok (cells h) (ns @ [n]) i (as_order s @ [an_data cn])"
      using chain_ok_link [OF D(3) c(1) [unfolded al] n n0] by (simp add: h_def al)
    have e: "ends_ok (ns @ [n]) i j (as_head s) (as_tail s)" using D(4) by (auto simp: ends_ok_def intro: nth_is_mono)
    have "linked (ns @ [n]) a n"
      unfolding linked_def nth_is_def al using ne by (intro exI [of _ "length ns - 1"]) (simp add: nth_append last_conv_nth)
    then have po: "pos_ok (ns @ [n]) i j (((as_pc s)(t := N_swing n a)) u)" for u
      using pos_ok_mono [OF D(5) [of u], of i j "[n]"] by auto
    have "n \<notin> own_nodes (as_pc s u)" if "u \<noteq> t" for u
      using D(6) pc that unfolding own_ok_def by (metis disjoint_iff own_nodes.simps(6) singletonI)
    then have ow: "own_ok (cells h) (ns @ [n]) ((as_pc s)(t := N_swing n a))"
    proof (intro own_ok_snoc own_ok_cong [OF own_ok_upd [OF D(6)]])
      show "n \<notin> own_nodes (((as_pc s)(t := N_swing n a)) u)" if "\<And>u. u \<noteq> t \<Longrightarrow> n \<notin> own_nodes (as_pc s u)" for u using that by simp
    qed (use a in \<open>auto simp: h_def\<close>)
    have pa: "passed_ok (ns @ [n]) i (as_retired s) ((as_pc s)(t := N_swing n a))"
      using passed_ok_upd [OF D(7), of "N_swing n a" t] i by (simp add: passed_ok_def)
    have "pending (cells h) q = pending ?C q" for q :: "'a aq_pc" by (cases q) (auto simp: h_def c(1))
    then have ou: "out_ok (cells h) i (as_order s @ [an_data cn]) (as_out s) (as_rets s) ((as_pc s)(t := N_swing n a))"
      using D(8) pc len i by (auto simp: out_ok_def)
    have "heap_ok h" using D(1) c(1) by (auto simp: heap_ok_def h_def)
    then have "aq_inv (ns @ [n]) i j s'"
      using D(2) ch e po ow pa ou by (simp add: aq_inv_def s'_def go_def)
    moreover have "n_link t n a s = Some s'"
      using c(1) n(1) True by (simp add: n_link_def link_of_def hupd_Some h_def s'_def)
    ultimately show ?thesis by blast
  qed
qed

lemma inv_d_swing:
  assumes inv: "aq_inv ns i j s" and pc: "as_pc s t = D_swing a x"
  shows "\<exists>s' i'. d_swing t a x s = Some s' \<and> aq_inv ns i' j s'"
proof (cases "as_head s = a")
  case False
  with inv_go [OF inv, of D_head t] pc show ?thesis by (auto simp: d_swing_def)
next
  case True
  note D = aq_invD [OF inv]
  let ?C = "cells (as_heap s)"
  from D(5) [of t] pc obtain k where k: "k < j" "nth_is ns k a" "linked ns a x" by auto
  from D(4) True have a: "nth_is ns i a" by (simp add: ends_ok_def)
  have ij: "i < j" using nth_is_unique [OF D(9) k(2) a] k(1) by simp
  from linked_distinct [OF D(9) k(3) a] have x: "nth_is ns (Suc i) x" .
  with chain_node [OF D(3), of "Suc i"] obtain c where c: "?C x = Some c" "an_data c = as_order s ! i" by (auto simp: nth_is_def)
  define s' where "s' = go t (D_read a x) (s\<lparr>as_head := x, as_out := as_out s @ [(t, an_data c)]\<rparr>)"
  have il: "i < length (as_order s)" using x D(3) by (simp add: chain_ok_def nth_is_def)
  have tk: "take (Suc i) ns = take i ns @ [a]" using a by (auto simp: nth_is_def take_Suc_conv_app_nth)
  have nin: "a \<notin> set (take i ns)" using a D(9) by (auto simp: nth_is_def in_set_conv_nth nth_eq_iff_index_eq)
  have ch: "chain_ok ?C ns (Suc i) (as_order s)"
    using chain_node [OF D(3)] by (intro chain_okI [OF chain_facts [OF D(3)]]) (metis Suc_lessD)
  have e: "ends_ok ns (Suc i) j x (as_tail s)" using D(4) x ij by (simp add: ends_ok_def)
  have po: "pos_ok ns (Suc i) j (((as_pc s)(t := D_read a x)) u)" for u
    using pos_ok_mono [OF D(5) [of u], of "Suc i" j "[]"] k(3) by simp
  have ow: "own_ok ?C ns ((as_pc s)(t := D_read a x))" by (rule own_ok_upd [OF D(6)]) simp
  have pa: "passed_ok ns (Suc i) (as_retired s) ((as_pc s)(t := D_read a x))"
    using D(7) nin unfolding passed_ok_def tk by (auto simp: subset_iff)
  have ou: "out_ok ?C (Suc i) (as_order s) (as_out s @ [(t, an_data c)]) (as_rets s) ((as_pc s)(t := D_read a x))"
    using D(8) pc c il by (auto simp: out_ok_def take_Suc_conv_app_nth)
  have "aq_inv ns (Suc i) j s'" using D(1,2) ch e po ow pa ou by (simp add: aq_inv_def s'_def go_def)
  moreover have "d_swing t a x s = Some s'" using True c(1) by (simp add: d_swing_def s'_def)
  ultimately show ?thesis by blast
qed

lemma inv_d_clear:
  assumes inv: "aq_inv ns i j s" and pc: "as_pc s t = D_clear a x d"
  shows "\<exists>s'. d_clear t a x d s = Some s' \<and> aq_inv ns i j s'"
proof -
  note D = aq_invD [OF inv]
  let ?C = "cells (as_heap s)"
  from D(5) [of t] pc have l: "linked ns a x" by simp
  from D(7) pc have "a \<in> set (take i ns)" unfolding passed_ok_def by (metis Diff_iff insert_subset passed.simps(2))
  then obtain k where k: "k < i" "nth_is ns k a" by (auto simp: in_set_conv_nth nth_is_def)
  have x: "nth_is ns (Suc k) x" by (rule linked_distinct [OF D(9) l k(2)])
  with chain_node [OF D(3), of "Suc k"] obtain c where c: "?C x = Some c" by (auto simp: nth_is_def)
  define h where "h = (as_heap s)\<lparr>cells := ?C(x \<mapsto> c\<lparr>an_data := 0\<rparr>)\<rparr>"
  define s' where "s' = go t (D_retire a d) (s\<lparr>as_heap := h\<rparr>)"
  have "ns ! m \<noteq> x" if "i < m" "m < length ns" for m
    using that x k(1) D(9) by (auto simp: nth_is_def nth_eq_iff_index_eq)
  then have ch: "chain_ok (cells h) ns i (as_order s)"
    using chain_node [OF D(3)] c by (intro chain_okI [OF chain_facts [OF D(3)]]) (force simp: h_def)
  have ow: "own_ok (cells h) ns ((as_pc s)(t := D_retire a d))"
    by (rule own_ok_cong [OF own_ok_upd [OF D(6)]]) (use x in \<open>auto simp: h_def nth_is_def\<close>)
  have pa: "passed_ok ns i (as_retired s) ((as_pc s)(t := D_retire a d))" by (rule passed_ok_upd [OF D(7)]) (simp add: pc)
  have pe: "pending (cells h) (as_pc s u) = pending ?C (as_pc s u)" if "u \<noteq> t" for u
  proof (cases "as_pc s u")
    case (D_read b y)
    have "y \<noteq> x"
    proof
      assume "y = x"
      then have "b = a" using linked_inj [OF D(9)] l D(5) [of u] D_read by auto
      then show False using D(7) that pc D_read unfolding passed_ok_def by (metis disjoint_iff insertI1 passed.simps(1,2))
    qed
    with D_read show ?thesis by (simp add: h_def)
  qed simp_all
  then have ou: "out_ok (cells h) i (as_order s) (as_out s) (as_rets s) ((as_pc s)(t := D_retire a d))"
    using D(8) pc by (auto simp: out_ok_def)
  have "heap_ok h" using D(1) c by (auto simp: heap_ok_def h_def)
  then have "aq_inv ns i j s'" using D(2,4) ch ow pa ou inv by (auto simp: aq_inv_def s'_def go_def)
  moreover have "d_clear t a x d s = Some s'" using c by (simp add: d_clear_def hupd_Some h_def s'_def)
  ultimately show ?thesis by blast
qed

lemma inv_d_retire:
  assumes inv: "aq_inv ns i j s" and pc: "as_pc s t = D_retire a d"
  shows "aq_inv ns i j (d_retire t a d s)"
proof -
  note D = aq_invD [OF inv]
  have "a \<in> set (take i ns) - set (as_retired s)" "a \<notin> passed (as_pc s u)" if "u \<noteq> t" for u
    using D(7) pc that unfolding passed_ok_def by (metis insert_subset passed.simps(3), metis disjoint_iff insertI1 passed.simps(3))
  then have "passed_ok ns i (as_retired s @ [a]) ((as_pc s)(t := D_count d))"
    using D(7) pc unfolding passed_ok_def by auto (metis n_not_Suc_n)+
  then show ?thesis
    using D own_ok_upd [OF D(6), of "D_count d" t] pc by (auto simp: aq_inv_def d_retire_def go_def out_ok_def)
qed

lemma inv_d_count:
  assumes inv: "aq_inv ns i j s" and pc: "as_pc s t = D_count d"
  shows "aq_inv ns i j (d_count t d s)"
  using aq_invD [OF inv] own_ok_upd [OF aq_invD(6) [OF inv], of Q_idle t] passed_ok_upd [OF aq_invD(7) [OF inv], of Q_idle t] pc
  by (auto simp: aq_inv_def d_count_def go_def out_ok_def)

definition aq_ok :: "'d aq_sys \<Rightarrow> bool" where
  "aq_ok s \<longleftrightarrow> (\<exists>ns i j. aq_inv ns i j s)"

lemma aq_okI: "aq_inv ns i j s \<Longrightarrow> aq_ok s"
  unfolding aq_ok_def by blast

lemma swing_ok:
  assumes inv: "aq_inv ns i j s" and l: "linked ns a x" and pc: "\<And>j'. pos_ok ns i j' pc"
    and "own_nodes pc \<subseteq> own_nodes (as_pc s t)" "passed pc = {}" "pending (cells (as_heap s)) pc = pending (cells (as_heap s)) (as_pc s t)"
  shows "aq_ok (go t pc (swing_tail a x s))"
proof -
  from inv_swing_tail [OF inv l] obtain j' where "aq_inv ns i j' (swing_tail a x s)" "as_pc (swing_tail a x s) = as_pc s"
    "as_heap (swing_tail a x s) = as_heap s" by blast
  with inv_go [OF this(1), of pc t] assms(3-6) show ?thesis by (auto intro: aq_okI)
qed

lemma n_next_ok:
  assumes inv: "aq_inv ns i j s" and pc: "as_pc s t = N_next n a"
  shows "\<exists>s'. n_next t n a s = Some s' \<and> aq_ok s'"
proof -
  from aq_invD(5) [OF inv, of t] pc have a: "a \<in> set ns" by simp
  from chain_link [OF aq_invD(3) [OF inv] a] obtain c where
    c: "cells (as_heap s) a = Some c" "an_next c \<noteq> NULL \<longrightarrow> linked ns a (an_next c)" by blast
  with inv_go [OF inv, of "N_help n a (an_next c)" t] inv_go [OF inv, of "N_again n a" t] a pc
  show ?thesis by (auto simp: n_next_def link_of_def intro: aq_okI)
qed

lemma d_next_ok:
  assumes inv: "aq_inv ns i j s" and pc: "as_pc s t = D_next a b"
  shows "\<exists>s'. d_next t a b s = Some s' \<and> aq_ok s'"
proof -
  from aq_invD(5) [OF inv, of t] pc obtain k where a: "nth_is ns k a" and pos: "pos_ok ns i j (D_next a b)" by auto
  then have "a \<in> set ns" by (auto simp: nth_is_def)
  from chain_link [OF aq_invD(3) [OF inv] this] obtain c where
    c: "cells (as_heap s) a = Some c" "an_next c \<noteq> NULL \<longrightarrow> linked ns a (an_next c)" by blast
  with inv_go [OF inv, of "D_state a b (an_next c)" t] pos pc
  show ?thesis by (auto simp: d_next_def link_of_def intro!: aq_okI)
qed

lemma d_state_ok:
  assumes inv: "aq_inv ns i j s" and pc: "as_pc s t = D_state a b x"
  shows "aq_ok (d_state t a b x s)"
proof -
  from aq_invD(5) [OF inv, of t] pc have pos: "pos_ok ns i j (D_state a b x)" by simp
  show ?thesis
  proof (cases "a = b")
    case True
    with inv_go [OF inv, of Q_idle t] inv_go [OF inv, of "D_help b x" t] pos pc
    show ?thesis by (auto simp: d_state_def intro: aq_okI)
  next
    case False
    from pos obtain k l where kl: "k \<le> i" "nth_is ns k a" "l \<le> j" "nth_is ns l b" "k \<le> l" by auto
    with False have "k < l" by (metis nat_less_le nth_is_def)
    with kl pos have "pos_ok ns i j (D_again a b x)" by auto
    with False inv_go [OF inv, of Q_idle t] inv_go [OF inv, of "D_again a b x" t] pc
    show ?thesis by (auto simp: d_state_def intro: aq_okI)
  qed
qed

lemma d_again_ok:
  assumes inv: "aq_inv ns i j s" and pc: "as_pc s t = D_again a b x"
  shows "aq_ok (d_again t a b x s)"
proof -
  from aq_invD(5) [OF inv, of t] pc have pos: "pos_ok ns i j (D_again a b x)" by simp
  then have "x \<noteq> NULL \<Longrightarrow> pos_ok ns i j (D_swing a x)" by (auto intro: less_le_trans)
  with inv_go [OF inv, of "D_swing a x" t] inv_go [OF inv, of D_head t] pc
  show ?thesis by (auto simp: d_again_def intro: aq_okI)
qed

lemma d_read_ok:
  assumes inv: "aq_inv ns i j s" and pc: "as_pc s t = D_read a x"
  shows "\<exists>s'. d_read t a x s = Some s' \<and> aq_ok s'"
proof -
  from aq_invD(5) [OF inv, of t] pc have l: "linked ns a x" by simp
  then have "x \<in> set ns" by (auto simp: linked_def nth_is_def)
  from chain_link [OF aq_invD(3) [OF inv] this] obtain c where "cells (as_heap s) x = Some c" by blast
  with inv_go [OF inv, of "D_clear a x (an_data c)" t] l pc show ?thesis by (auto simp: d_read_def intro: aq_okI)
qed

text \<open>No step touches a node that is not allocated, and every step keeps the invariant.\<close>

lemma thread_step_ok:
  assumes "aq_ok s" and st: "thread_step t s = Some r"
  shows "\<exists>s'. r = Some s' \<and> aq_ok s'"
proof -
  from assms(1) obtain ns i j where inv: "aq_inv ns i j s" unfolding aq_ok_def by blast
  note go_ok = inv_go [OF inv, of _ t, THEN aq_okI]
  note pos = aq_invD(5) [OF inv, of t]
  have ends: "ends_ok ns i j (as_head s) (as_tail s)" by (rule aq_invD(4) [OF inv])
  have tl: "as_tail s \<in> set ns" by (rule ends_facts(6) [OF ends])
  show ?thesis
  proof (cases "as_pc s t")
    case (N_alloc d)
    with inv_n_alloc [OF inv N_alloc] st show ?thesis by (auto simp: thread_step_def intro: aq_okI)
  next
    case (N_tail n)
    with go_ok [of "N_next n (as_tail s)"] tl st show ?thesis by (auto simp: thread_step_def)
  next
    case (N_next n a)
    with n_next_ok [OF inv N_next] st show ?thesis by (auto simp: thread_step_def)
  next
    case (N_help n a x)
    with swing_ok [OF inv, of a x "N_tail n" t] pos st show ?thesis by (auto simp: thread_step_def)
  next
    case (N_again n a)
    with go_ok [of "N_state n a"] go_ok [of "N_tail n"] pos st show ?thesis by (auto simp: thread_step_def)
  next
    case (N_state n a)
    with inv_n_state [OF inv N_state] st show ?thesis by (auto simp: thread_step_def intro: aq_okI)
  next
    case (N_link n a)
    with inv_n_link [OF inv N_link] st show ?thesis by (auto simp: thread_step_def intro: aq_okI)
  next
    case (N_swing n a)
    with swing_ok [OF inv, of a n Q_idle t] pos st show ?thesis by (auto simp: thread_step_def)
  next
    case D_head
    have "pos_ok ns i j (D_tail (as_head s))" using ends by (auto simp: ends_ok_def)
    with go_ok [of "D_tail (as_head s)"] D_head st show ?thesis by (auto simp: thread_step_def)
  next
    case (D_tail a)
    with pos ends have "pos_ok ns i j (D_next a (as_tail s))" by (auto simp: ends_ok_def intro: order_trans)
    with go_ok [of "D_next a (as_tail s)"] D_tail st show ?thesis by (auto simp: thread_step_def)
  next
    case (D_next a b)
    with d_next_ok [OF inv D_next] st show ?thesis by (auto simp: thread_step_def)
  next
    case (D_state a b x)
    with d_state_ok [OF inv D_state] st show ?thesis by (auto simp: thread_step_def)
  next
    case (D_help a x)
    with swing_ok [OF inv, of a x D_head t] pos st show ?thesis by (auto simp: thread_step_def)
  next
    case (D_again a b x)
    with d_again_ok [OF inv D_again] st show ?thesis by (auto simp: thread_step_def)
  next
    case (D_swing a x)
    with inv_d_swing [OF inv D_swing] st show ?thesis by (auto simp: thread_step_def intro: aq_okI)
  next
    case (D_read a x)
    with d_read_ok [OF inv D_read] st show ?thesis by (auto simp: thread_step_def)
  next
    case (D_clear a x d)
    with inv_d_clear [OF inv D_clear] st show ?thesis by (auto simp: thread_step_def intro: aq_okI)
  next
    case (D_retire a d)
    with inv_d_retire [OF inv D_retire] st show ?thesis by (auto simp: thread_step_def intro: aq_okI)
  next
    case (D_count d)
    with inv_d_count [OF inv D_count] st show ?thesis by (auto simp: thread_step_def intro: aq_okI)
  qed (use st in \<open>simp add: thread_step_def\<close>)
qed

lemma aq_step_ok:
  assumes ok: "aq_ok s" and st: "aq_step a s = Some r"
  shows "\<exists>s'. r = Some s' \<and> aq_ok s'"
proof -
  from ok obtain ns i j where inv: "aq_inv ns i j s" unfolding aq_ok_def by blast
  show ?thesis
  proof (cases a)
    case (Begin_enqueue t d)
    with st inv_go [OF inv, of "N_alloc d" t] ok show ?thesis
      by (auto simp: begin_call_def intro: aq_okI split: if_splits)
  next
    case (Begin_dequeue t)
    with st inv_go [OF inv, of D_head t] ok show ?thesis
      by (auto simp: begin_call_def intro: aq_okI split: if_splits)
  next
    case (Go_on t)
    with thread_step_ok [OF ok] st show ?thesis by simp
  next
    case Finalize
    have "aq_inv ns i j (s\<lparr>as_state := CLOG_ATOMIC_QUEUE_FINALIZING\<rparr>)" using inv by (simp add: aq_inv_def)
    with Finalize st show ?thesis by (auto intro: aq_okI)
  qed
qed

lemma aq_start_ok:
  assumes "heap_ok h" "cells h = Map.empty"
    and cr: "clog_atomic_queue_create True True CLOG_SUCCESS h = (CLOG_SUCCESS, Some q, h')"
  shows "aq_ok (aq_start q (h' :: ('d::zero) atomic_node heap))"
proof -
  from create_core [OF assms] have core: "atomic_core (live h + 2) q h' []" and q: "aq_release_num q = 0" by blast+
  from core obtain bs where ok: "heap_ok h'" and p: "node_path (cells h') (aq_head q) bs ([] :: 'd list)"
    and tl: "aq_tail q = last (aq_head q # bs)" unfolding atomic_core_def atomic_nodes_def by blast
  have "bs = []" using p by (cases bs) auto
  with p tl have p: "node_path (cells h') (aq_head q) [] ([] :: 'd list)" and tl: "aq_tail q = aq_head q" by simp_all
  from p obtain c where c: "cells h' (aq_head q) = Some c" "an_next c = NULL" by auto
  then have "aq_head q \<noteq> NULL" using heap_ok_null [OF ok] by (metis option.distinct(1))
  then have "aq_inv [aq_head q] 0 0 (aq_start q h')"
    using ok c tl q by (auto simp: aq_inv_def aq_start_def chain_ok_def ends_ok_def nth_is_def own_ok_def passed_ok_def out_ok_def)
  then show ?thesis by (rule aq_okI)
qed

lemma aq_reach_ok: "aq_reach s \<Longrightarrow> aq_ok s"
proof (induction rule: aq_reach.induct)
  case (aq_init h q h')
  then show ?case by (rule aq_start_ok)
next
  case (aq_next s a s')
  from aq_step_ok [OF aq_next.IH aq_next.hyps(2)] show ?case by auto
qed

text \<open>Since \<open>release_num\<close> is only ever masked, no collection is due in any call.\<close>

lemma no_collection: "aq_reach s \<Longrightarrow> \<not> collection_due s"
proof -
  assume "aq_reach s"
  then obtain ns i j where "aq_inv ns i j s" using aq_reach_ok unfolding aq_ok_def by blast
  from aq_invD(2) [OF this] show ?thesis by (simp add: collection_due_def)
qed

lemma empty_report:
  assumes inv: "aq_inv ns i j s" and pc: "as_pc s t = D_next a a" and l: "link_of a s = Some NULL"
  shows "map snd (as_out s) = as_order s"
proof -
  note D = aq_invD [OF inv]
  from D(5) [of t] pc obtain k where k: "k \<le> i" "nth_is ns k a" by auto
  have "\<not> Suc k < length ns"
  proof
    assume lt: "Suc k < length ns"
    with chain_node [OF D(3), of k] l k(2) have "ns ! Suc k = NULL" by (auto simp: link_of_def nth_is_def)
    with lt chain_facts(2) [OF D(3)] show False by (metis nth_mem)
  qed
  then have "i = length (as_order s)" using k ends_facts(4) [OF D(4)] chain_facts(3) [OF D(3)] by (auto simp: nth_is_def)
  with D(8) show ?thesis by (simp add: out_ok_def)
qed

text \<open>What can be reached from the head is the list from there on.\<close>

lemma head_chain:
  assumes inv: "aq_inv ns i j s" and r: "(as_head s, b) \<in> {(x, y). link_of x s = Some y}\<^sup>*"
  shows "b = NULL \<or> (\<exists>k \<ge> i. nth_is ns k b)"
  using r
proof (induction rule: rtrancl_induct)
  case base
  then show ?case using aq_invD(4) [OF inv] by (auto simp: ends_ok_def)
next
  case (step x y)
  then show ?case
  proof (elim disjE exE conjE)
    assume "x = NULL"
    with step(2) heap_ok_null [OF aq_invD(1) [OF inv]] show ?thesis by (simp add: link_of_def)
  next
    fix k assume "i \<le> k" "nth_is ns k x"
    then have "k < length ns" "ns ! k = x" by (simp_all add: nth_is_def)
    with chain_node [OF aq_invD(3) [OF inv], of k] step(2) have "y = (if Suc k < length ns then ns ! Suc k else NULL)"
      by (auto simp: link_of_def)
    with \<open>i \<le> k\<close> show ?thesis by (auto simp: nth_is_def intro!: exI [of _ "Suc k"] split: if_splits)
  qed
qed

lemma reach_not_retired:
  assumes inv: "aq_inv ns i j s" and "(as_head s, b) \<in> {(x, y). link_of x s = Some y}\<^sup>*"
  shows "b \<notin> set (as_retired s)"
proof
  assume "b \<in> set (as_retired s)"
  then have "b \<in> set (take i ns)" using aq_invD(7) [OF inv] by (auto simp: passed_ok_def)
  then obtain l where l: "l < i" "nth_is ns l b" by (auto simp: in_set_conv_nth nth_is_def)
  then have "b \<noteq> NULL" using chain_facts(2) [OF aq_invD(3) [OF inv]] by (metis nth_is_def nth_mem)
  with head_chain [OF assms] obtain k where "i \<le> k" "nth_is ns k b" by blast
  with l nth_is_unique [OF aq_invD(9) [OF inv] l(2)] show False by (metis leD)
qed

lemma head_reaches_tail:
  assumes inv: "aq_inv ns i j s"
  shows "(as_head s, as_tail s) \<in> {(x, y). link_of x s = Some y}\<^sup>*"
proof -
  have e: "i \<le> j" "j < length ns" "as_head s = ns ! i" "as_tail s = ns ! j"
    using aq_invD(4) [OF inv] by (auto simp: ends_ok_def nth_is_def)
  have "(ns ! i, ns ! k) \<in> {(x, y). link_of x s = Some y}\<^sup>*" if "i \<le> k" "k < length ns" for k
    using that
  proof (induction k rule: dec_induct)
    case (step k)
    with chain_node [OF aq_invD(3) [OF inv], of k] have "link_of (ns ! k) s = Some (ns ! Suc k)" by (auto simp: link_of_def)
    with step show ?case by (auto intro: rtrancl_into_rtrancl)
  qed simp
  with e show ?thesis by simp
qed

subsection \<open>Properties\<close>

fun aq_run :: "'d aq_action list \<Rightarrow> ('d::zero) aq_sys \<Rightarrow> 'd aq_sys option" where
  "aq_run [] s = Some s"
| "aq_run (a # as) s = (case aq_step a s of Some (Some s') \<Rightarrow> aq_run as s' | _ \<Rightarrow> None)"

lemma aq_run_reach: "aq_reach s \<Longrightarrow> aq_run as s = Some s' \<Longrightarrow> aq_reach s'"
proof (induction as arbitrary: s)
  case (Cons a as)
  then show ?case by (auto split: option.splits intro: aq_next)
qed simp

text \<open>Two threads; the second helps the first one, whose exchange of the tail comes last.\<close>

definition ex_start :: "nat aq_sys" where
  "ex_start = aq_start (the (fst (snd (clog_atomic_queue_create True True CLOG_SUCCESS (heap_empty (\<lambda>_. True) :: nat atomic_node heap)))))
     (snd (snd (clog_atomic_queue_create True True CLOG_SUCCESS (heap_empty (\<lambda>_. True)))))"

definition ex_actions :: "nat aq_action list" where
  "ex_actions = Begin_enqueue 0 7 # replicate 6 (Go_on 0) @ Begin_dequeue 1 # replicate 14 (Go_on 1)"

lemma ex_start_reach: "aq_reach ex_start"
proof -
  have "\<exists>q h'. clog_atomic_queue_create True True CLOG_SUCCESS (heap_empty (\<lambda>_. True) :: nat atomic_node heap) = (CLOG_SUCCESS, Some q, h')"
    by (simp add: clog_atomic_queue_create_def clog_malloc_def halloc_def heap_empty_def clog_ebr_create_def
        sizeof_atomic_queue_def sizeof_ebr_global_def)
  then obtain q h' where cr:
    "clog_atomic_queue_create True True CLOG_SUCCESS (heap_empty (\<lambda>_. True) :: nat atomic_node heap) = (CLOG_SUCCESS, Some q, h')" by blast
  show ?thesis unfolding ex_start_def cr by (simp, rule aq_init [OF heap_ok_empty _ cr]) (simp add: heap_empty_def)
qed





end
