(* ===== verification/Error_Log.thy ===== *)
theory Error_Log
  imports Base
begin

text \<open>
  The log of the library's own errors (utils/clog_error.c): a number of lines of one size,
  allocated by \<open>clog_err_setup\<close>, filled by \<open>clog_err_put\<close> until there is no free one.

  The static variables are the record \<open>err_log\<close>; a line is the C string in its buffer. What
  \<open>vsnprintf\<close> makes of a message and its arguments is the parameter \<open>txt\<close>. Taking an index is a
  loop around a compare-and-exchange; besides the function it is a step relation for any number
  of threads.
\<close>

record err_log =
  g_err_msg :: "string list option"
  g_err_num :: nat
  g_err_line_size :: nat
  g_err_count :: nat

definition err_start :: err_log where
  "err_start = \<lparr>g_err_msg = None, g_err_num = 0, g_err_line_size = 0, g_err_count = 0\<rparr>"

subsection \<open>Operations\<close>

text \<open>
  The loop over the lines: how many were allocated, and whether all were. The numbers are of type
  \<open>unsigned short\<close>; new lines hold what the memory held, here nothing.
\<close>

fun alloc_lines :: "nat \<Rightarrow> nat \<Rightarrow> 'm mem_scheme \<Rightarrow> nat \<times> bool \<times> 'm mem_scheme" where
  "alloc_lines 0 sz m = (0, True, m)"
| "alloc_lines (Suc n) sz m = (case clog_malloc sz m of
      (False, m) \<Rightarrow> (0, False, m)
    | (True, m) \<Rightarrow> (case alloc_lines n sz m of (k, ok, m) \<Rightarrow> (Suc k, ok, m)))"

fun free_lines :: "nat \<Rightarrow> 'm mem_scheme \<Rightarrow> 'm mem_scheme" where
  "free_lines 0 m = m"
| "free_lines (Suc n) m = free_lines n (clog_free m)"

definition clog_err_setup :: "16 word \<Rightarrow> 16 word \<Rightarrow> err_log \<Rightarrow> 'm mem_scheme \<Rightarrow> err_log \<times> 'm mem_scheme" where
  "clog_err_setup num sz l m =
     (if num = 0 \<or> sz = 0 then (l, m)
      else case clog_malloc (unat num * 8) m of
        (False, m) \<Rightarrow> (l\<lparr>g_err_msg := None\<rparr>, m)
      | (True, m) \<Rightarrow>
          (case alloc_lines (unat num) (unat sz) m of
             (k, ok, m) \<Rightarrow>
               if \<not> ok then (l\<lparr>g_err_msg := None\<rparr>, clog_free (free_lines k m))
               else (l\<lparr>g_err_msg := Some (replicate (unat num) []), g_err_num := unat num,
                       g_err_line_size := unat sz, g_err_count := 0\<rparr>, m)))"

definition clog_err_get_index :: "err_log \<Rightarrow> nat \<times> err_log" where
  "clog_err_get_index l =
     (if g_err_count l \<ge> g_err_num l then (g_err_num l, l)
      else (g_err_count l, l\<lparr>g_err_count := g_err_count l + 1\<rparr>))"

text \<open>What is in a buffer of \<open>n\<close> bytes after \<open>snprintf\<close> with the text \<open>s\<close>, and what it returns.\<close>

definition printed_in :: "nat \<Rightarrow> string \<Rightarrow> string" where
  "printed_in n s = take (n - 1) s"

definition err_prefix :: "nat \<Rightarrow> string \<Rightarrow> int \<Rightarrow> string" where
  "err_prefix index path line = ''['' @ show_nat index @ '' '' @ path @ '':'' @ show_int line @ ''] ''"

text \<open>Accessing \<open>g_err_msg\<close> while it is NULL is undefined behaviour.\<close>

definition clog_err_put :: "string \<Rightarrow> int \<Rightarrow> string \<Rightarrow> err_log \<Rightarrow> err_log option" where
  "clog_err_put file line txt l =
     (if g_err_num l = 0 then Some l
      else case clog_err_get_index l of
        (index, l) \<Rightarrow>
          if index \<ge> g_err_num l then Some l
          else case g_err_msg l of
            None \<Rightarrow> None
          | Some msgs \<Rightarrow>
              if length msgs \<le> index then None
              else
                (let prefix = err_prefix index file line; ret = length prefix; sz = g_err_line_size l in
                 if ret > sz then Some (l\<lparr>g_err_msg := Some (msgs[index := printed_in sz prefix])\<rparr>)
                 else if ret = sz then Some (l\<lparr>g_err_msg := Some (msgs[index := printed_in sz prefix])\<rparr>)
                 else Some (l\<lparr>g_err_msg := Some (msgs[index := prefix @ printed_in (sz - ret) txt])\<rparr>)))"

definition clog_err_get :: "bool \<Rightarrow> err_log \<Rightarrow> string list option \<times> nat option" where
  "clog_err_get has_num l =
     (if \<not> has_num then (None, None)
      else if g_err_num l = 0 then (None, Some 0)
      else if g_err_count l = 0 then (None, Some 0)
      else (g_err_msg l, Some (g_err_count l)))"

text \<open>
  The loop of \<open>clog_err_print\<close>: \<open>out\<close> is what the buffer holds, \<open>off\<close> the offset, the length of
  what would have been written so far.
\<close>

fun print_lines :: "nat \<Rightarrow> string \<Rightarrow> string list \<Rightarrow> nat \<Rightarrow> string \<Rightarrow> string" where
  "print_lines sz sep [] off out = out"
| "print_lines sz sep (s # ss) off out =
     (let line = (if ss \<noteq> [] then s @ sep else s);
          out = out @ printed_in (sz - off) line;
          off = off + length line
      in if off \<ge> sz then out else print_lines sz sep ss off out)"

definition clog_err_print :: "string option \<Rightarrow> nat \<Rightarrow> string option \<Rightarrow> err_log \<Rightarrow> string option" where
  "clog_err_print buf sz separator l = (case buf of
      None \<Rightarrow> None
    | Some b \<Rightarrow>
        if sz = 0 then Some b
        else (case clog_err_get True l of
          (Some errors, Some num) \<Rightarrow>
            if num = 0 then Some b
            else Some (print_lines sz (case separator of None \<Rightarrow> [CHR 0x0A] | Some s \<Rightarrow> s) (take num errors) 0 [])
        | _ \<Rightarrow> Some b))"

definition clog_err_clear :: "err_log \<Rightarrow> err_log" where
  "clog_err_clear l = l\<lparr>g_err_count := 0\<rparr>"

definition clog_err_cleanup :: "err_log \<Rightarrow> 'm mem_scheme \<Rightarrow> err_log \<times> 'm mem_scheme" where
  "clog_err_cleanup l m =
     (\<lparr>g_err_msg = None, g_err_num = 0, g_err_line_size = 0, g_err_count = 0\<rparr>,
      clog_free_opt (g_err_msg l) (free_lines (g_err_num l) m))"

subsection \<open>Taking an index, several threads\<close>

datatype index_pc = I_idle | I_loaded nat | I_got nat

text \<open>\<open>taken\<close>: the indices handed out so far, the newest first.\<close>

record index_sys =
  ix_log :: err_log
  ix_pc :: "nat \<Rightarrow> index_pc"
  ix_taken :: "nat list"

definition index_load :: "nat \<Rightarrow> index_sys \<Rightarrow> index_sys" where
  "index_load t s =
     (let old = g_err_count (ix_log s); num = g_err_num (ix_log s) in
      s\<lparr>ix_pc := (ix_pc s)(t := if old \<ge> num then I_got num else I_loaded old)\<rparr>)"

definition index_exchange :: "nat \<Rightarrow> nat \<Rightarrow> index_sys \<Rightarrow> index_sys" where
  "index_exchange t old s =
     (if g_err_count (ix_log s) = old
      then s\<lparr>ix_log := (ix_log s)\<lparr>g_err_count := old + 1\<rparr>, ix_pc := (ix_pc s)(t := I_got old),
             ix_taken := old # ix_taken s\<rparr>
      else s\<lparr>ix_pc := (ix_pc s)(t := I_idle)\<rparr>)"

inductive index_step :: "index_sys \<Rightarrow> index_sys \<Rightarrow> bool" where
  ix_load: "ix_pc s t = I_idle \<Longrightarrow> index_step s (index_load t s)"
| ix_exchange: "ix_pc s t = I_loaded old \<Longrightarrow> index_step s (index_exchange t old s)"
| ix_return: "ix_pc s t = I_got i \<Longrightarrow> index_step s (s\<lparr>ix_pc := (ix_pc s)(t := I_idle)\<rparr>)"

inductive index_reach :: "err_log \<Rightarrow> index_sys \<Rightarrow> bool" for l where
  index_init: "index_reach l \<lparr>ix_log = l\<lparr>g_err_count := 0\<rparr>, ix_pc = (\<lambda>_. I_idle), ix_taken = []\<rparr>"
| index_next: "index_reach l s \<Longrightarrow> index_step s s' \<Longrightarrow> index_reach l s'"

inductive_cases index_stepE: "index_step s s'"

subsection \<open>Setting up and cleaning up\<close>

lemma alloc_lines_live: "alloc_lines n sz m = (k, ok, m') \<Longrightarrow> live m' = live m + int k \<and> (ok \<longrightarrow> k = n)"
proof (induction n arbitrary: m k ok m')
  case (Suc n)
  obtain b m1 where b: "clog_malloc sz m = (b, m1)" by fastforce
  obtain k1 ok1 m2 where r: "alloc_lines n sz m1 = (k1, ok1, m2)" by (metis prod_cases3)
  have "live m1 = live m + (if b then 1 else 0)" using b by (auto simp: clog_malloc_def split: if_splits)
  then show ?case using Suc.IH [OF r] Suc.prems b r by (cases b) auto
qed simp

lemma free_lines_live [simp]: "live (free_lines n m) = live m - int n"
  by (induction n arbitrary: m) (simp_all add: mem_simps)

lemma clog_malloc_live: "clog_malloc sz m = (b, m') \<Longrightarrow> live m' = live m + (if b then 1 else 0)"
  by (auto simp: clog_malloc_def split: if_splits)

definition log_holds :: "nat \<Rightarrow> nat \<Rightarrow> string list \<Rightarrow> err_log \<Rightarrow> bool" where
  "log_holds n sz ms l \<longleftrightarrow> g_err_num l = n \<and> g_err_line_size l = sz \<and> g_err_count l = length ms \<and> length ms \<le> n \<and>
     (\<exists>msgs. g_err_msg l = Some msgs \<and> length msgs = n \<and> take (length ms) msgs = ms)"

text \<open>Setup either takes all its blocks or gives back the ones it took.\<close>

lemma setup_cases:
  assumes "clog_err_setup num sz err_start m = (l, m')"
  obtains (ready) "num \<noteq> 0" "sz \<noteq> 0" "log_holds (unat num) (unat sz) [] l" "live m' = live m + 1 + int (unat num)"
  | (off) "l = err_start" "live m' = live m"
proof (cases "num = 0 \<or> sz = 0")
  case False
  obtain b m1 where b: "clog_malloc (unat num * 8) m = (b, m1)" by fastforce
  obtain k ok m2 where r: "alloc_lines (unat num) (unat sz) m1 = (k, ok, m2)" by (metis prod_cases3)
  show ?thesis using assms False b r clog_malloc_live [OF b] alloc_lines_live [OF r] that
    by (auto simp: clog_err_setup_def log_holds_def err_start_def mem_simps split: if_splits)
qed (use assms that in \<open>auto simp: clog_err_setup_def\<close>)

subsection \<open>Messages\<close>

type_synonym err_call = "string \<times> int \<times> string"

definition err_message :: "nat \<Rightarrow> nat \<Rightarrow> err_call \<Rightarrow> string" where
  "err_message sz i c = (case c of (path, line, str) \<Rightarrow> take (sz - 1) (err_prefix i path line @ str))"

definition err_messages :: "nat \<Rightarrow> nat \<Rightarrow> err_call list \<Rightarrow> string list" where
  "err_messages n sz cs = take n (map2 (err_message sz) [0..<length cs] cs)"

fun err_puts :: "err_call list \<Rightarrow> err_log \<Rightarrow> err_log option" where
  "err_puts [] l = Some l"
| "err_puts ((path, line, str) # cs) l = (case clog_err_put path line str l of None \<Rightarrow> None | Some l \<Rightarrow> err_puts cs l)"

lemma put_text:
  assumes "0 < sz"
  shows "(if length prefix > sz then printed_in sz prefix else if length prefix = sz then printed_in sz prefix
      else prefix @ printed_in (sz - length prefix) str) = take (sz - 1) (prefix @ str)"
  using assms by (auto simp: printed_in_def)

lemma put_holds:
  assumes "log_holds n sz ms l" "0 < n" "0 < sz"
  shows "\<exists>l'. clog_err_put path line str l = Some l' \<and>
    log_holds n sz (if length ms < n then ms @ [err_message sz (length ms) (path, line, str)] else ms) l'"
proof (cases "length ms < n")
  case False
  with assms show ?thesis by (auto simp: log_holds_def clog_err_put_def clog_err_get_index_def)
next
  case True
  from assms(1) obtain msgs where m: "g_err_msg l = Some msgs" "length msgs = n" "take (length ms) msgs = ms"
    by (auto simp: log_holds_def)
  let ?t = "err_message sz (length ms) (path, line, str)"
  have "clog_err_put path line str l = Some (l\<lparr>g_err_count := length ms + 1, g_err_msg := Some (msgs[length ms := ?t])\<rparr>)"
    using assms True m put_text [OF assms(3), of "err_prefix (length ms) path line" str]
    by (auto simp: log_holds_def clog_err_put_def clog_err_get_index_def err_message_def Let_def split: if_splits)
  moreover have "take (Suc (length ms)) (msgs[length ms := ?t]) = ms @ [?t]"
    using True m by (simp add: take_Suc_conv_app_nth)
  ultimately show ?thesis using assms True m by (auto simp: log_holds_def)
qed

lemma puts_holds:
  assumes "log_holds n sz ms l" "0 < n" "0 < sz"
  shows "\<exists>l'. err_puts cs l = Some l' \<and>
    log_holds n sz (take n (ms @ map2 (err_message sz) [length ms..<length ms + length cs] cs)) l'"
  using assms(1)
proof (induction cs arbitrary: ms l)
  case Nil
  then show ?case by (auto simp: log_holds_def)
next
  case (Cons c cs)
  obtain path line str where c: "c = (path, line, str)" by (metis prod_cases3)
  let ?ms = "if length ms < n then ms @ [err_message sz (length ms) c] else ms"
  from put_holds [OF Cons.prems assms(2,3)] obtain l1 where
    l1: "clog_err_put path line str l = Some l1" "log_holds n sz ?ms l1" unfolding c by blast
  from Cons.IH [OF l1(2)] obtain l2 where l2: "err_puts cs l1 = Some l2"
    "log_holds n sz (take n (?ms @ map2 (err_message sz) [length ?ms..<length ?ms + length cs] cs)) l2" by blast
  have "take n (?ms @ map2 (err_message sz) [length ?ms..<length ?ms + length cs] cs) =
      take n (ms @ map2 (err_message sz) [length ms..<length ms + length (c # cs)] (c # cs))"
  proof -
    have u: "[length ms..<length ms + length (c # cs)] = length ms # [Suc (length ms)..<Suc (length ms) + length cs]"
      by (simp add: upt_conv_Cons del: upt_Suc)
    have le: "length ms \<le> n" using Cons.prems by (simp add: log_holds_def)
    show ?thesis using le unfolding u by (cases "length ms < n") (simp_all del: upt_Suc)
  qed
  then show ?case using l1(1) l2 c by auto
qed

text \<open>The text of all messages with the separator between them.\<close>

fun join_lines :: "string \<Rightarrow> string list \<Rightarrow> string" where
  "join_lines sep [] = []"
| "join_lines sep (s # ss) = (if ss \<noteq> [] then s @ sep @ join_lines sep ss else s)"

lemma print_lines_join:
  "off < sz \<Longrightarrow> print_lines sz sep ss off out = out @ take (sz - 1 - off) (join_lines sep ss)"
proof (induction ss arbitrary: off out)
  case (Cons s ss)
  define t where "t = (if ss \<noteq> [] then s @ sep else s)"
  have j: "join_lines sep (s # ss) = t @ join_lines sep ss" by (cases ss) (simp_all add: t_def)
  show ?case
  proof (cases "off + length t \<ge> sz")
    case True
    then show ?thesis by (simp add: Let_def t_def [symmetric] j printed_in_def del: join_lines.simps)
  next
    case False
    then show ?thesis using Cons.IH [of "off + length t" "out @ t"] Cons.prems
      by (simp add: Let_def t_def [symmetric] j printed_in_def del: join_lines.simps)
  qed
qed simp

lemma index_invariant:
  "index_reach l s \<Longrightarrow> g_err_num (ix_log s) = g_err_num l \<and> ix_taken s = rev [0..<g_err_count (ix_log s)] \<and>
     g_err_count (ix_log s) \<le> g_err_num l \<and> (\<forall>t old. ix_pc s t = I_loaded old \<longrightarrow> old < g_err_num l)"
proof (induction rule: index_reach.induct)
  case (index_next s s')
  from index_next.hyps(2) index_next.IH show ?case
    by (elim index_stepE) (fastforce simp: index_load_def index_exchange_def Let_def split: if_splits)+
qed simp

subsection \<open>Properties\<close>

text \<open>
  C32. The error log from setting up to cleaning up, whatever is reported: as many messages are
  kept as there are lines, the first ones, in order, each numbered and cut to its line; no access is
  outside the lines. Printing writes their text with the separator between, cut to the
  buffer, and nothing when there is no message. Cleaning up releases every block.
\<close>
theorem err_log_keeps_first:
  assumes "clog_err_setup num sz err_start m = (l, m')" and "g_err_num l \<noteq> 0" and "0 < room"
  shows "\<exists>l' msgs. err_puts cs l = Some l' \<and>
    (if cs = [] then clog_err_get True l' = (None, Some 0)
     else clog_err_get True l' = (Some msgs, Some (min (unat num) (length cs))) \<and>
       take (min (unat num) (length cs)) msgs = err_messages (unat num) (unat sz) cs) \<and>
    clog_err_print (Some []) room (Some sep) l' =
      Some (take (room - 1) (join_lines sep (err_messages (unat num) (unat sz) cs))) \<and>
    (case clog_err_cleanup l' m' of (l2, m2) \<Rightarrow> l2 = err_start \<and> live m2 = live m)"
proof -
  from assms(1) show ?thesis
  proof (cases rule: setup_cases)
    case off
    with assms(2) show ?thesis by (simp add: err_start_def)
  next
    case ready
    then have n: "0 < unat num" "0 < unat sz" by (simp_all add: unat_gt_0)
    define ms where "ms = err_messages (unat num) (unat sz) cs"
    from puts_holds [OF ready(3) n, of cs] obtain l' where
      l': "err_puts cs l = Some l'" "log_holds (unat num) (unat sz) ms l'" by (auto simp: err_messages_def ms_def)
    from l'(2) obtain msgs where m: "g_err_msg l' = Some msgs" "length msgs = unat num" "take (length ms) msgs = ms"
      by (auto simp: log_holds_def)
    have len: "length ms = min (unat num) (length cs)" by (simp add: ms_def err_messages_def)
    have none: "cs = []" if "min (unat num) (length cs) = 0" using that n by (cases cs) auto
    have get: "clog_err_get True l' = (if cs = [] then (None, Some 0) else (Some msgs, Some (length ms)))"
      using l'(2) m(1) n len by (auto simp: log_holds_def clog_err_get_def dest: none)
    have pr: "clog_err_print (Some []) room (Some sep) l' = Some (take (room - 1) (join_lines sep ms))"
    proof (cases "cs = []")
      case True
      then show ?thesis using assms(3) get len by (simp add: clog_err_print_def)
    next
      case False
      then have "length ms \<noteq> 0" using len n by auto
      then show ?thesis using False assms(3) get m(3) print_lines_join [of 0 room sep ms "[]"]
        by (simp add: clog_err_print_def)
    qed
    have "live (snd (clog_err_cleanup l' m')) = live m"
      using l'(2) m ready(4) by (simp add: clog_err_cleanup_def log_holds_def mem_simps clog_free_opt_def)
    moreover have "fst (clog_err_cleanup l' m') = err_start" by (simp add: clog_err_cleanup_def err_start_def)
    ultimately show ?thesis using l'(1) get pr m(3) unfolding ms_def [symmetric] len [symmetric]
      by (intro exI [of _ l'] exI [of _ msgs]) (simp add: case_prod_unfold)
  qed
qed

lemma err_log_keeps_first_witness:
  "\<exists>l m' l' msgs. clog_err_setup 2 20 err_start mem_ok = (l, m') \<and>
    err_puts [(''a.c'', 7, ''first''), (''b.c'', 12, ''the second''), (''c.c'', 1, ''third'')] l = Some l' \<and>
    clog_err_get True l' = (Some msgs, Some 2) \<and> take 2 msgs = [''[0 a.c:7] first'', ''[1 b.c:12] the seco''] \<and>
    clog_err_print (Some []) 30 (Some ''|'') l' = Some ''[0 a.c:7] first|[1 b.c:12] th''"
proof -
  define cs where "cs = [(''a.c'', 7 :: int, ''first''), (''b.c'', 12, ''the second''), (''c.c'', 1, ''third'')]"
  obtain l m' where s: "clog_err_setup 2 20 err_start mem_ok = (l, m')" by fastforce
  then have nz: "g_err_num l \<noteq> 0"
  proof -
    have "g_err_num (fst (clog_err_setup 2 20 err_start mem_ok)) = 2" by code_simp
    with s show ?thesis by simp
  qed
  have c: "cs \<noteq> []" "length cs = 3" "unat (2 :: 16 word) = 2" "unat (20 :: 16 word) = 20" "min 2 3 = (2 :: nat)"
    by (simp_all add: cs_def)
  from err_log_keeps_first [OF s nz, of 30 cs "''|''"] have "\<exists>l' msgs. err_puts cs l = Some l' \<and>
    clog_err_get True l' = (Some msgs, Some 2) \<and> take 2 msgs = err_messages 2 20 cs \<and>
    clog_err_print (Some []) 30 (Some ''|'') l' = Some (take 29 (join_lines ''|'' (err_messages 2 20 cs)))"
    using c by (simp only: c if_False) (simp, blast)
  then obtain l' msgs where
    r: "err_puts cs l = Some l'" "clog_err_get True l' = (Some msgs, Some 2)" "take 2 msgs = err_messages 2 20 cs"
    "clog_err_print (Some []) 30 (Some ''|'') l' = Some (take 29 (join_lines ''|'' (err_messages 2 20 cs)))"
    by blast
  have "err_messages 2 20 cs = [''[0 a.c:7] first'', ''[1 b.c:12] the seco'']"
    unfolding cs_def by code_simp
  with r s show ?thesis unfolding cs_def by auto
qed

text \<open>
  However the loops of several threads interleave, no line is handed out twice: the indices taken are
  0, 1, 2 and so on, below the number of lines.
\<close>
theorem err_index_taken_once:
  assumes "index_reach l s"
  shows "distinct (ix_taken s) \<and> set (ix_taken s) = {..<g_err_count (ix_log s)} \<and> g_err_count (ix_log s) \<le> g_err_num l"
  using index_invariant [OF assms] by auto

lemma err_index_taken_once_witness:
  "\<exists>s. index_reach (err_start\<lparr>g_err_num := 2\<rparr>) s \<and> g_err_count (ix_log s) = 1 \<and> distinct (ix_taken s) \<and> set (ix_taken s) = {..<1}"
proof -
  let ?l = "err_start\<lparr>g_err_num := 2\<rparr>"
  let ?s0 = "\<lparr>ix_log = ?l\<lparr>g_err_count := 0\<rparr>, ix_pc = (\<lambda>_. I_idle), ix_taken = []\<rparr>"
  have r0: "index_reach ?l ?s0" by (rule index_init)
  have r1: "index_reach ?l (index_load 0 ?s0)" by (rule index_next [OF r0 ix_load]) simp
  have r2: "index_reach ?l (index_load 1 (index_load 0 ?s0))"
    by (rule index_next [OF r1 ix_load]) (simp add: index_load_def err_start_def)
  have r3: "index_reach ?l (index_exchange 0 0 (index_load 1 (index_load 0 ?s0)))"
    by (rule index_next [OF r2 ix_exchange]) (simp add: index_load_def err_start_def)
  have r4: "index_reach ?l (index_exchange 1 0 (index_exchange 0 0 (index_load 1 (index_load 0 ?s0))))"
    by (rule index_next [OF r3 ix_exchange]) (simp add: index_load_def index_exchange_def err_start_def)
  show ?thesis using err_index_taken_once [OF r4] r4 by (auto simp: index_load_def index_exchange_def err_start_def)
qed

end
