(* ===== verification/Hooks.thy ===== *)
theory Hooks
  imports Prelude
begin

text \<open>
  The hooks of a debug build (hooks/clog_hooks.c): allocations go through functions the caller may
  replace, and are reported to callbacks. A place of a call is the parameter \<open>place\<close> (trace, file,
  function and line). The functions act on a state of any type; address 0 is NULL.
\<close>

record ('c, 'x) hooks =
  g_allocator :: "nat \<Rightarrow> 'x \<Rightarrow> addr \<times> 'x"
  g_deallocator :: "addr \<Rightarrow> 'x \<Rightarrow> 'x"
  g_allocate_callback :: "('c \<Rightarrow> nat \<Rightarrow> addr \<Rightarrow> 'x \<Rightarrow> 'x) option"
  g_deallocate_callback :: "('c \<Rightarrow> addr \<Rightarrow> 'x \<Rightarrow> 'x) option"

definition clog_hook_malloc :: "('c, 'x) hooks \<Rightarrow> 'c \<Rightarrow> nat \<Rightarrow> 'x \<Rightarrow> addr \<times> 'x" where
  "clog_hook_malloc g place sz x =
     (case (if sz > 0 then g_allocator g sz x else (NULL, x)) of
        (ptr, x) \<Rightarrow> (ptr, (case g_allocate_callback g of None \<Rightarrow> x | Some f \<Rightarrow> f place sz ptr x)))"

definition clog_hook_free :: "('c, 'x) hooks \<Rightarrow> 'c \<Rightarrow> addr \<Rightarrow> 'x \<Rightarrow> 'x" where
  "clog_hook_free g place ptr x =
     (let x = (case g_deallocate_callback g of None \<Rightarrow> x | Some f \<Rightarrow> f place ptr x)
      in if ptr \<noteq> NULL then g_deallocator g ptr x else x)"

definition clog_register_memory_hook_func ::
    "(nat \<Rightarrow> 'x \<Rightarrow> addr \<times> 'x) option \<Rightarrow> (addr \<Rightarrow> 'x \<Rightarrow> 'x) option \<Rightarrow> ('c \<Rightarrow> nat \<Rightarrow> addr \<Rightarrow> 'x \<Rightarrow> 'x) option
     \<Rightarrow> ('c \<Rightarrow> addr \<Rightarrow> 'x \<Rightarrow> 'x) option \<Rightarrow> ('c, 'x) hooks \<Rightarrow> ('c, 'x) hooks" where
  "clog_register_memory_hook_func allocator deallocator on_alloc on_free g =
     g\<lparr>g_allocator := (case allocator of None \<Rightarrow> g_allocator g | Some f \<Rightarrow> f),
       g_deallocator := (case deallocator of None \<Rightarrow> g_deallocator g | Some f \<Rightarrow> f),
       g_allocate_callback := on_alloc,
       g_deallocate_callback := on_free\<rparr>"

text \<open>A heap as the allocator: what the other theories count is what hooks that count would see.\<close>

definition heap_hooks :: "'v \<Rightarrow> ('c, 'v heap) hooks" where
  "heap_hooks v = \<lparr>g_allocator = (\<lambda>sz. halloc v), g_deallocator = (\<lambda>a h. (clog_free h)\<lparr>cells := (cells h)(a := None)\<rparr>),
     g_allocate_callback = None, g_deallocate_callback = None\<rparr>"

text \<open>Callbacks that count, next to a state they leave alone.\<close>

definition counting :: "('c, 'x) hooks \<Rightarrow> ('c, int \<times> 'x) hooks" where
  "counting g = clog_register_memory_hook_func None None
     (Some (\<lambda>place sz ptr (n, x). (if ptr \<noteq> NULL then n + 1 else n, x)))
     (Some (\<lambda>place ptr (n, x). (if ptr \<noteq> NULL then n - 1 else n, x)))
     \<lparr>g_allocator = (\<lambda>sz (n, x). case g_allocator g sz x of (a, x) \<Rightarrow> (a, n, x)),
      g_deallocator = (\<lambda>a (n, x). (n, g_deallocator g a x)), g_allocate_callback = None, g_deallocate_callback = None\<rparr>"

lemma hook_malloc_counts:
  assumes "heap_ok h" and "0 < sz"
  shows "case clog_hook_malloc (counting (heap_hooks v)) place sz (n, h) of (ptr, n', h') \<Rightarrow>
    (ptr, h') = halloc v h \<and> n' - n = live h' - live h"
proof -
  obtain a h' where r: "halloc v h = (a, h')" by fastforce
  then have "live h' = live h + (if a \<noteq> NULL then 1 else 0)"
    using assms(1) by (cases rule: halloc_cases) (auto simp: heap_ok_def)
  with r assms(2) show ?thesis
    by (auto simp: clog_hook_malloc_def counting_def clog_register_memory_hook_func_def heap_hooks_def)
qed

end
