(* ===== verification/Sync.thy ===== *)
theory Sync
  imports Base "HOL-Library.Signed_Division"
begin

unbundle bit_operations_syntax

text \<open>
  The wrappers of the platform's mutexes, read-write locks, semaphores and threads
  (utils/clog_mutex.c, clog_rwlock.c, clog_semaphore.c, clog_thread.c, the POSIX branches). What a
  function of the platform returns is a parameter, an \<open>errno\<close> with \<open>E_ZERO\<close> for success; where
  the code looks at the variable \<open>errno\<close> instead, its value is another parameter.
\<close>

subsection \<open>Mutexes\<close>

definition clog_mutex_init :: "bool \<Rightarrow> errno \<Rightarrow> errno \<Rightarrow> clog_res" where
  "clog_mutex_init has_mutex result err =
     (if \<not> has_mutex then CLOG_INVALID_PARAM
      else if result = E_ZERO then CLOG_SUCCESS
      else case err of
        EAGAIN \<Rightarrow> CLOG_ABNORMAL_STATE
      | ENOMEM \<Rightarrow> CLOG_NO_MEMORY
      | EPERM \<Rightarrow> CLOG_NOT_PERMITTED
      | EINVAL \<Rightarrow> CLOG_ERROR_FORMAT
      | _ \<Rightarrow> CLOG_FAIL)"

definition clog_mutex_lock :: "bool \<Rightarrow> errno \<Rightarrow> errno \<Rightarrow> clog_res" where
  "clog_mutex_lock has_mutex result err =
     (if \<not> has_mutex then CLOG_INVALID_PARAM
      else if result = E_ZERO then CLOG_SUCCESS
      else case err of
        EAGAIN \<Rightarrow> CLOG_OVERSIZE
      | EINVAL \<Rightarrow> CLOG_NOT_PERMITTED
      | ENOTRECOVERABLE \<Rightarrow> CLOG_ABNORMAL_STATE
      | EOWNERDEAD \<Rightarrow> CLOG_TARGET_NOT_FOUND
      | EDEADLK \<Rightarrow> CLOG_ALREADY_EXISTED
      | _ \<Rightarrow> CLOG_FAIL)"

definition clog_mutex_trylock :: "bool \<Rightarrow> errno \<Rightarrow> errno \<Rightarrow> clog_res" where
  "clog_mutex_trylock has_mutex result err =
     (if \<not> has_mutex then CLOG_INVALID_PARAM
      else if result = E_ZERO then CLOG_SUCCESS
      else case err of
        EAGAIN \<Rightarrow> CLOG_OVERSIZE
      | EINVAL \<Rightarrow> CLOG_NOT_PERMITTED
      | ENOTRECOVERABLE \<Rightarrow> CLOG_ABNORMAL_STATE
      | EOWNERDEAD \<Rightarrow> CLOG_TARGET_NOT_FOUND
      | EBUSY \<Rightarrow> CLOG_BUSY
      | _ \<Rightarrow> CLOG_FAIL)"

definition clog_mutex_unlock :: "bool \<Rightarrow> errno \<Rightarrow> errno \<Rightarrow> clog_res" where
  "clog_mutex_unlock has_mutex result err =
     (if \<not> has_mutex then CLOG_INVALID_PARAM
      else if result = E_ZERO then CLOG_SUCCESS
      else case err of
        EINVAL \<Rightarrow> CLOG_INVALID_PARAM
      | EAGAIN \<Rightarrow> CLOG_OVERSIZE
      | EPERM \<Rightarrow> CLOG_NOT_PERMITTED
      | _ \<Rightarrow> CLOG_FAIL)"

definition clog_mutex_destroy :: "bool \<Rightarrow> errno \<Rightarrow> errno \<Rightarrow> clog_res" where
  "clog_mutex_destroy has_mutex result err =
     (if \<not> has_mutex then CLOG_INVALID_PARAM
      else if result = E_ZERO then CLOG_SUCCESS
      else if err = EBUSY then CLOG_BUSY
      else CLOG_FAIL)"

text \<open>
  The functions of pthread return the error and leave \<open>errno\<close> alone, so what a failure is reported
  as depends on what failed before: a mutex that is busy may be anything but a success.
\<close>

lemma trylock_busy:
  "clog_mutex_trylock True EBUSY EBUSY = CLOG_BUSY"
  "clog_mutex_trylock True EBUSY E_ZERO = CLOG_FAIL"
  "clog_mutex_trylock True EBUSY EAGAIN = CLOG_OVERSIZE"
  by (simp_all add: clog_mutex_trylock_def)

lemma mutex_success:
  "clog_mutex_lock True result err = CLOG_SUCCESS \<longleftrightarrow> result = E_ZERO"
  "clog_mutex_trylock True result err = CLOG_SUCCESS \<longleftrightarrow> result = E_ZERO"
  "clog_mutex_unlock True result err = CLOG_SUCCESS \<longleftrightarrow> result = E_ZERO"
  "clog_mutex_init True result err = CLOG_SUCCESS \<longleftrightarrow> result = E_ZERO"
  by (simp_all add: clog_mutex_lock_def clog_mutex_trylock_def clog_mutex_unlock_def clog_mutex_init_def split: errno.split)

subsection \<open>Read-write locks\<close>

definition clog_rwlock_rd_lock :: "bool \<Rightarrow> errno \<Rightarrow> clog_res" where
  "clog_rwlock_rd_lock has_lock ret =
     (if \<not> has_lock then CLOG_INVALID_PARAM
      else if ret = E_ZERO then CLOG_SUCCESS
      else if ret = EAGAIN then CLOG_OVERSIZE
      else if ret = EDEADLK then CLOG_ABNORMAL_STATE
      else CLOG_FAIL)"

definition clog_rwlock_wr_lock :: "bool \<Rightarrow> errno \<Rightarrow> clog_res" where
  "clog_rwlock_wr_lock has_lock ret =
     (if \<not> has_lock then CLOG_INVALID_PARAM
      else if ret = E_ZERO then CLOG_SUCCESS
      else if ret = EDEADLK then CLOG_ABNORMAL_STATE
      else CLOG_FAIL)"

subsection \<open>Semaphores\<close>

record timespec =
  tv_sec :: int
  tv_nsec :: int

record clog_sem =
  sem_valid :: bool

definition sizeof_sem :: nat where "sizeof_sem = 40"

definition CLOG_SEM_TIMEOUT_NEVER :: "32 word" where "CLOG_SEM_TIMEOUT_NEVER = - 1"
definition CLOG_SEM_TIMEOUT_IMMEDIATELY :: "32 word" where "CLOG_SEM_TIMEOUT_IMMEDIATELY = 0"

text \<open>What the functions of the platform answer to a call: \<open>ps_clock\<close> is \<open>None\<close> when it fails.\<close>

record posix_sem =
  ps_trywait :: errno
  ps_wait :: errno
  ps_clock :: "timespec option"
  ps_timedwait :: "timespec \<Rightarrow> errno"

definition clog_sem_create :: "bool \<Rightarrow> 'm mem_scheme \<Rightarrow> clog_sem option \<times> 'm mem_scheme" where
  "clog_sem_create init_ok m = (case clog_malloc sizeof_sem m of
      (False, m) \<Rightarrow> (None, m)
    | (True, m) \<Rightarrow> if \<not> init_ok then (None, clog_free m) else (Some \<lparr>sem_valid = True\<rparr>, m))"

definition clog_sem_destroy :: "errno \<Rightarrow> clog_sem option \<Rightarrow> 'm mem_scheme \<Rightarrow> clog_res \<times> 'm mem_scheme" where
  "clog_sem_destroy ret sem m = (case sem of
      None \<Rightarrow> (CLOG_INVALID_PARAM, m)
    | Some s \<Rightarrow>
        if \<not> sem_valid s then (CLOG_ABNORMAL_STATE, m)
        else (if ret = E_ZERO then CLOG_SUCCESS else CLOG_FAIL, clog_free m))"

text \<open>
  The time at which \<open>sem_timedwait\<close> gives up. Division and remainder are those of C; the
  product fits an \<open>int\<close>, see below.
\<close>

definition sem_deadline :: "32 word \<Rightarrow> timespec \<Rightarrow> timespec" where
  "sem_deadline timeout now =
     (let sec = tv_sec now + sint timeout sdiv 1000;
          nsec = tv_nsec now + (sint timeout smod 1000) * 1000000
      in if nsec \<ge> 1000000000 then \<lparr>tv_sec = sec + 1, tv_nsec = nsec - 1000000000\<rparr>
         else \<lparr>tv_sec = sec, tv_nsec = nsec\<rparr>)"

definition clog_sem_wait :: "posix_sem \<Rightarrow> clog_sem option \<Rightarrow> 32 word \<Rightarrow> clog_res" where
  "clog_sem_wait p sem timeout = (case sem of
      None \<Rightarrow> CLOG_INVALID_PARAM
    | Some s \<Rightarrow>
        if \<not> sem_valid s then CLOG_ABNORMAL_STATE
        else if timeout = CLOG_SEM_TIMEOUT_IMMEDIATELY
          then (if ps_trywait p = E_ZERO then CLOG_SUCCESS
                else if ps_trywait p = EAGAIN then CLOG_TIMEOUT else CLOG_FAIL)
        else if timeout = CLOG_SEM_TIMEOUT_NEVER
          then (if ps_wait p = E_ZERO then CLOG_SUCCESS else CLOG_FAIL)
        else (case ps_clock p of
            None \<Rightarrow> CLOG_FAIL
          | Some now \<Rightarrow>
              (let ret = ps_timedwait p (sem_deadline timeout now)
               in if ret = E_ZERO then CLOG_SUCCESS
                  else if ret = ETIMEDOUT then CLOG_TIMEOUT else CLOG_FAIL)))"

definition clog_sem_post :: "errno \<Rightarrow> clog_sem option \<Rightarrow> clog_res" where
  "clog_sem_post ret sem = (case sem of
      None \<Rightarrow> CLOG_INVALID_PARAM
    | Some s \<Rightarrow>
        if \<not> sem_valid s then CLOG_ABNORMAL_STATE
        else if ret = E_ZERO then CLOG_SUCCESS else CLOG_FAIL)"

subsection \<open>Threads\<close>

record clog_thread_attr =
  ta_stack_size :: nat
  ta_detach_state :: int

record ('r, 'a) clog_thread_data_wrapper =
  tw_routine :: 'r
  tw_args :: 'a
  tw_size :: nat

definition sizeof_thread_wrapper :: nat where "sizeof_thread_wrapper = 24"

definition clog_thread_attr_init :: "clog_thread_attr option \<Rightarrow> clog_res \<times> clog_thread_attr option" where
  "clog_thread_attr_init attr = (case attr of
      None \<Rightarrow> (CLOG_INVALID_PARAM, None)
    | Some a \<Rightarrow> (CLOG_SUCCESS, Some (a\<lparr>ta_stack_size := 0, ta_detach_state := 0\<rparr>)))"

definition clog_thread_attr_destroy :: "clog_thread_attr option \<Rightarrow> clog_thread_attr option" where
  "clog_thread_attr_destroy attr = map_option (\<lambda>a. a\<lparr>ta_detach_state := 0, ta_stack_size := 0\<rparr>) attr"

definition clog_thread_attr_set_stack_size ::
    "clog_thread_attr option \<Rightarrow> nat \<Rightarrow> clog_res \<times> clog_thread_attr option" where
  "clog_thread_attr_set_stack_size attr sz = (case attr of
      None \<Rightarrow> (CLOG_INVALID_PARAM, None)
    | Some a \<Rightarrow> (CLOG_SUCCESS, Some (a\<lparr>ta_stack_size := sz\<rparr>)))"

text \<open>The new thread: it frees the block it was given, then runs. \<open>run\<close> is what running a routine does.\<close>

definition thread_wrapper ::
    "('r \<Rightarrow> 'a \<Rightarrow> nat \<Rightarrow> 'm mem_scheme \<Rightarrow> 'x) \<Rightarrow> ('r, 'a) clog_thread_data_wrapper \<Rightarrow> 'm mem_scheme \<Rightarrow> 'x" where
  "thread_wrapper run data m = run (tw_routine data) (tw_args data) (tw_size data) (clog_free m)"

text \<open>The stack size given to the platform, when one is.\<close>

definition thread_stack :: "clog_thread_attr option \<Rightarrow> nat option" where
  "thread_stack attr = (case attr of None \<Rightarrow> None | Some a \<Rightarrow> if ta_stack_size a > 0 then Some (ta_stack_size a) else None)"

text \<open>\<open>start\<close>: what \<open>pthread_create\<close> returns for a stack size. The data of the thread is a result when it was started.\<close>

definition clog_thread_create ::
    "(nat option \<Rightarrow> errno) \<Rightarrow> bool \<Rightarrow> clog_thread_attr option \<Rightarrow> 'r option \<Rightarrow> 'a \<Rightarrow> nat \<Rightarrow> 'm mem_scheme
     \<Rightarrow> clog_res \<times> ('r, 'a) clog_thread_data_wrapper option \<times> 'm mem_scheme" where
  "clog_thread_create start has_thread attr routine arg sz m =
     (if \<not> has_thread then (CLOG_INVALID_PARAM, None, m)
      else case routine of
        None \<Rightarrow> (CLOG_INVALID_PARAM, None, m)
      | Some r \<Rightarrow>
          (case clog_malloc sizeof_thread_wrapper m of
             (False, m) \<Rightarrow> (CLOG_NO_MEMORY, None, m)
           | (True, m) \<Rightarrow>
               (case start (thread_stack attr) of
                  E_ZERO \<Rightarrow> (CLOG_SUCCESS, Some \<lparr>tw_routine = r, tw_args = arg, tw_size = sz\<rparr>, m)
                | EAGAIN \<Rightarrow> (CLOG_NO_MEMORY, None, clog_free m)
                | EINVAL \<Rightarrow> (CLOG_INVALID_PARAM, None, clog_free m)
                | _ \<Rightarrow> (CLOG_FAIL, None, clog_free m))))"

definition clog_thread_join :: "errno \<Rightarrow> clog_res" where
  "clog_thread_join res = (case res of
      E_ZERO \<Rightarrow> CLOG_SUCCESS
    | EDEADLK \<Rightarrow> CLOG_ABNORMAL_STATE
    | EINVAL \<Rightarrow> CLOG_INVALID_PARAM
    | ESRCH \<Rightarrow> CLOG_TARGET_NOT_FOUND
    | _ \<Rightarrow> CLOG_FAIL)"

definition clog_thread_detach :: "errno \<Rightarrow> clog_res" where
  "clog_thread_detach res = (case res of
      E_ZERO \<Rightarrow> CLOG_SUCCESS
    | EINVAL \<Rightarrow> CLOG_INVALID_PARAM
    | ESRCH \<Rightarrow> CLOG_TARGET_NOT_FOUND
    | _ \<Rightarrow> CLOG_FAIL)"

text \<open>The time \<open>clog_thread_sleep\<close> asks for.\<close>

definition sleep_time :: "32 word \<Rightarrow> timespec" where
  "sleep_time ms = \<lparr>tv_sec = uint (ms div 1000), tv_nsec = uint ((ms mod 1000) * 1000000)\<rparr>"

subsection \<open>Correctness\<close>

definition valid_time :: "timespec \<Rightarrow> bool" where
  "valid_time ts \<longleftrightarrow> 0 \<le> tv_nsec ts \<and> tv_nsec ts < 1000000000"

definition nanoseconds :: "timespec \<Rightarrow> int" where
  "nanoseconds ts = tv_sec ts * 1000000000 + tv_nsec ts"

lemma smod_ms: "\<bar>(x :: int) smod 1000\<bar> < 1000"
  by (simp add: signed_modulo_int_def abs_mult) 

text \<open>The product of the remainder stays in 32 bits.\<close>

lemma sem_deadline_no_overflow: "- (2 ^ 31) \<le> (sint (t :: 32 word) smod 1000) * 1000000 \<and> (sint t smod 1000) * 1000000 < 2 ^ 31"
  using smod_ms [of "sint t"] by auto

lemma sem_deadline_ns: "nanoseconds (sem_deadline t now) = nanoseconds now + sint t * 1000000"
proof -
  have "sint t = sint t sdiv 1000 * 1000 + sint t smod 1000" using sdiv_mult_smod_eq [of "sint t" 1000] by simp
  then show ?thesis by (simp add: sem_deadline_def nanoseconds_def Let_def algebra_simps)
qed

lemma sem_deadline_valid:
  assumes "valid_time now" "0 \<le> sint t"
  shows "valid_time (sem_deadline t now)"
proof -
  have "0 \<le> sint t smod 1000" using assms(2) by (auto simp: signed_modulo_int_def sgn_if)
  then show ?thesis using assms(1) smod_ms [of "sint t"]
    by (auto simp: valid_time_def sem_deadline_def Let_def)
qed

text \<open>Other negative timeouts may give a time the platform refuses, so that the wait fails at once.\<close>

lemma sem_deadline_negative: "\<not> valid_time (sem_deadline (- 500) \<lparr>tv_sec = 10, tv_nsec = 0\<rparr>)"
  by (simp add: sem_deadline_def valid_time_def Let_def signed_modulo_int_def signed_divide_int_def)

lemma sleep_time_exact: "valid_time (sleep_time ms) \<and> nanoseconds (sleep_time ms) = uint ms * 1000000"
proof -
  have d: "uint (ms div 1000) = uint ms div 1000" "uint (ms mod 1000) = uint ms mod 1000" by (simp_all add: uint_div uint_mod)
  have "0 \<le> uint ms mod 1000" "uint ms mod 1000 < 1000" by simp_all
  then have "uint ((ms mod 1000) * 1000000) = uint ms mod 1000 * 1000000"
    unfolding uint_word_ariths d by (simp add: take_bit_int_eq_self)
  with \<open>0 \<le> uint ms mod 1000\<close> \<open>uint ms mod 1000 < 1000\<close> have
    "tv_sec (sleep_time ms) = uint ms div 1000" "tv_nsec (sleep_time ms) = uint ms mod 1000 * 1000000"
    by (simp_all only: sleep_time_def d timespec.simps)
  moreover have "uint ms div 1000 * 1000000000 + uint ms mod 1000 * 1000000 = uint ms * 1000000"
    using div_mult_mod_eq [of "uint ms" 1000] by linarith
  ultimately show ?thesis using \<open>0 \<le> uint ms mod 1000\<close> \<open>uint ms mod 1000 < 1000\<close>
    by (simp add: valid_time_def nanoseconds_def)
qed

lemma thread_create_cases:
  assumes "clog_thread_create start has_thread attr routine arg sz m = (res, data, m')"
  shows "(res = CLOG_SUCCESS \<longleftrightarrow> data \<noteq> None) \<and>
    (case data of None \<Rightarrow> live m' = live m
     | Some d \<Rightarrow> routine = Some (tw_routine d) \<and> tw_args d = arg \<and> tw_size d = sz \<and> live m' = live m + 1 \<and>
         start (thread_stack attr) = E_ZERO)"
  using assms
  by (auto simp: clog_thread_create_def clog_malloc_def clog_free_def split: if_splits option.splits errno.splits)

subsection \<open>Properties\<close>

text \<open>
  C40. Waiting on a semaphore with a positive timeout: the deadline given to the platform is a valid
  time, exactly the timeout after now; the wait succeeds exactly when the platform's does and times out
  exactly when the platform's does.
\<close>
theorem sem_wait_deadline:
  assumes "sem_valid s" and "0 < sint timeout" and "ps_clock p = Some now" and "valid_time now"
  shows "\<exists>deadline. valid_time deadline \<and> nanoseconds deadline = nanoseconds now + sint timeout * 1000000 \<and>
    (clog_sem_wait p (Some s) timeout = CLOG_SUCCESS \<longleftrightarrow> ps_timedwait p deadline = E_ZERO) \<and>
    (clog_sem_wait p (Some s) timeout = CLOG_TIMEOUT \<longleftrightarrow> ps_timedwait p deadline = ETIMEDOUT)"
proof -
  have t: "timeout \<noteq> CLOG_SEM_TIMEOUT_IMMEDIATELY" "timeout \<noteq> CLOG_SEM_TIMEOUT_NEVER"
    using assms(2) by (auto simp: CLOG_SEM_TIMEOUT_IMMEDIATELY_def CLOG_SEM_TIMEOUT_NEVER_def)
  have "clog_sem_wait p (Some s) timeout =
      (if ps_timedwait p (sem_deadline timeout now) = E_ZERO then CLOG_SUCCESS
       else if ps_timedwait p (sem_deadline timeout now) = ETIMEDOUT then CLOG_TIMEOUT else CLOG_FAIL)"
    using assms(1,3) t by (simp add: clog_sem_wait_def Let_def)
  then show ?thesis using sem_deadline_valid [OF assms(4)] sem_deadline_ns [of timeout now] assms(2)
    by (intro exI [of _ "sem_deadline timeout now"]) simp
qed

lemma sem_wait_deadline_witness:
  "\<exists>deadline. valid_time deadline \<and> nanoseconds deadline = 12400000000 \<and>
    (clog_sem_wait \<lparr>ps_trywait = EAGAIN, ps_wait = E_ZERO, ps_clock = Some \<lparr>tv_sec = 10, tv_nsec = 900000000\<rparr>,
       ps_timedwait = (\<lambda>d. if tv_sec d = 12 then ETIMEDOUT else E_ZERO)\<rparr> (Some \<lparr>sem_valid = True\<rparr>) 1500 = CLOG_TIMEOUT
     \<longleftrightarrow> tv_sec deadline = 12)"
  using sem_wait_deadline [of "\<lparr>sem_valid = True\<rparr>" 1500
    "\<lparr>ps_trywait = EAGAIN, ps_wait = E_ZERO, ps_clock = Some \<lparr>tv_sec = 10, tv_nsec = 900000000\<rparr>,
       ps_timedwait = (\<lambda>d. if tv_sec d = 12 then ETIMEDOUT else E_ZERO)\<rparr>" "\<lparr>tv_sec = 10, tv_nsec = 900000000\<rparr>"]
  by (auto simp: valid_time_def nanoseconds_def split: if_splits)

end
