(* ===== verification/Async_Life.thy ===== *)
theory Async_Life
  imports Dispatcher Sync
begin

text \<open>
  The structs of the dispatchers from creating to destroying (dispatcher/clog_dispatcher.h,
  clog_dispatcher_direct.c, clog_dispatcher_async_thread.c): which blocks they take, and that each
  failure of opening gives back what it took. What the thread does in between is \<open>async_step\<close>
  of \<open>Dispatcher\<close>; here it has read its argument, and freed the block that came with it, when
  \<open>thread_begins\<close>.

  The results of the platform are parameters: \<open>init_ok\<close> of \<open>sem_init\<close>, \<open>start\<close> of
  \<open>pthread_create\<close>, \<open>ret\<close> of \<open>sem_destroy\<close>.
\<close>

subsection \<open>State\<close>

datatype dispatcher_kind = Direct_dispatcher | Async_dispatcher

record clog_dispatcher_async_thread_param =
  ap_state :: async_state
  ap_sem :: "clog_sem option"
  ap_posts :: nat
  ap_started :: bool

record clog_dispatcher =
  di_id :: "32 word"
  di_kind :: dispatcher_kind
  di_channel :: bool
  di_extra :: "clog_dispatcher_async_thread_param option"

definition CLOG_DISPATCHER_ID_DIRECT :: "32 word" where "CLOG_DISPATCHER_ID_DIRECT = 1"
definition CLOG_DISPATCHER_ID_ASYNC_THREAD :: "32 word" where "CLOG_DISPATCHER_ID_ASYNC_THREAD = 2"

definition sizeof_dispatcher :: nat where "sizeof_dispatcher = 56"
definition sizeof_async_param :: nat where "sizeof_async_param = 56"

subsection \<open>Operations\<close>

definition clog_dispatcher_direct_create :: "'m mem_scheme \<Rightarrow> clog_dispatcher option \<times> 'm mem_scheme" where
  "clog_dispatcher_direct_create m = (case clog_malloc sizeof_dispatcher m of
      (False, m) \<Rightarrow> (None, m)
    | (True, m) \<Rightarrow> (Some \<lparr>di_id = CLOG_DISPATCHER_ID_DIRECT, di_kind = Direct_dispatcher, di_channel = False, di_extra = None\<rparr>, m))"

definition clog_dispatcher_async_thread_create :: "'m mem_scheme \<Rightarrow> clog_dispatcher option \<times> 'm mem_scheme" where
  "clog_dispatcher_async_thread_create m = (case clog_malloc sizeof_dispatcher m of
      (False, m) \<Rightarrow> (None, m)
    | (True, m) \<Rightarrow> (Some \<lparr>di_id = CLOG_DISPATCHER_ID_ASYNC_THREAD, di_kind = Async_dispatcher, di_channel = False, di_extra = None\<rparr>, m))"

definition clog_dispatcher_async_thread_open ::
    "bool \<Rightarrow> (nat option \<Rightarrow> errno) \<Rightarrow> errno \<Rightarrow> clog_dispatcher \<Rightarrow> 'm mem_scheme
     \<Rightarrow> clog_res \<times> clog_dispatcher \<times> 'm mem_scheme" where
  "clog_dispatcher_async_thread_open init_ok start ret self m = (case clog_malloc sizeof_async_param m of
      (False, m) \<Rightarrow> (CLOG_NO_MEMORY, self, m)
    | (True, m) \<Rightarrow>
        (case clog_sem_create init_ok m of
           (None, m) \<Rightarrow> (CLOG_FAIL, self, clog_free m)
         | (Some sem, m) \<Rightarrow>
             (case clog_thread_create start True None (Some ()) () sizeof_dispatcher m of
                (res, data, m) \<Rightarrow>
                  if res \<noteq> CLOG_SUCCESS
                  then (res, self\<lparr>di_extra := None\<rparr>, clog_free (snd (clog_sem_destroy ret (Some sem) m)))
                  else (res, self\<lparr>di_extra := Some \<lparr>ap_state = S_idle, ap_sem = Some sem, ap_posts = 0, ap_started = False\<rparr>\<rparr>, m))))"

text \<open>The new thread frees the block it got before anything else, see \<open>thread_wrapper\<close>.\<close>

definition thread_begins :: "clog_dispatcher \<Rightarrow> 'm mem_scheme \<Rightarrow> clog_dispatcher \<times> 'm mem_scheme" where
  "thread_begins self m = (case di_extra self of
      None \<Rightarrow> (self, m)
    | Some p \<Rightarrow> thread_wrapper (\<lambda>_ _ _ m. (self\<lparr>di_extra := Some (p\<lparr>ap_started := True\<rparr>)\<rparr>, m))
                  \<lparr>tw_routine = (), tw_args = (), tw_size = sizeof_dispatcher\<rparr> m)"

text \<open>\<open>ap_posts\<close> counts the posts. A notification needs an open dispatcher (the code asserts it).\<close>

definition clog_dispatcher_async_thread_notify :: "clog_dispatcher_event \<Rightarrow> clog_dispatcher \<Rightarrow> clog_dispatcher option" where
  "clog_dispatcher_async_thread_notify event self = (case di_extra self of
      None \<Rightarrow> None
    | Some p \<Rightarrow> Some (self\<lparr>di_extra := Some (case event of
          CLOG_DISPATCHER_EVENT_START \<Rightarrow> p\<lparr>ap_state := S_running, ap_posts := ap_posts p + 1\<rparr>
        | CLOG_DISPATCHER_EVENT_DATA \<Rightarrow> p\<lparr>ap_posts := ap_posts p + 1\<rparr>
        | CLOG_DISPATCHER_EVENT_END \<Rightarrow> p\<lparr>ap_state := S_stopping, ap_posts := ap_posts p + 1\<rparr>)\<rparr>))"

text \<open>
  Closing waits until the thread has set the state to CLOSED, which is \<open>answer\<close> applied to the
  parameter the thread sees; when it never does, closing does not return.
\<close>

definition clog_dispatcher_async_thread_close ::
    "(clog_dispatcher_async_thread_param \<Rightarrow> async_state) \<Rightarrow> errno \<Rightarrow> clog_dispatcher \<Rightarrow> 'm mem_scheme
     \<Rightarrow> (clog_dispatcher \<times> 'm mem_scheme) option" where
  "clog_dispatcher_async_thread_close answer ret self m = (case di_extra self of
      None \<Rightarrow> Some (self, m)
    | Some p \<Rightarrow>
        (let p = (if ap_state p \<noteq> S_stopping then p\<lparr>ap_state := S_stopping, ap_posts := ap_posts p + 1\<rparr> else p)
         in if answer p \<noteq> S_closed then None
            else Some (self\<lparr>di_extra := None\<rparr>, clog_free (snd (clog_sem_destroy ret (ap_sem p) m)))))"

definition clog_dispatcher_direct_close :: "clog_dispatcher \<Rightarrow> clog_dispatcher" where
  "clog_dispatcher_direct_close self = self"

text \<open>\<open>clog_dispatcher_destroy\<close> with the dispatchers' own functions; the context has its model in \<open>Core\<close>.\<close>

definition destroy_dispatcher ::
    "(clog_dispatcher_async_thread_param \<Rightarrow> async_state) \<Rightarrow> errno \<Rightarrow> clog_dispatcher option \<Rightarrow> 'm mem_scheme
     \<Rightarrow> (clog_dispatcher option \<times> 'm mem_scheme) option" where
  "destroy_dispatcher answer ret dispatcher m = (case dispatcher of
      None \<Rightarrow> Some (None, m)
    | Some d \<Rightarrow>
        (case di_kind d of
           Direct_dispatcher \<Rightarrow> (let d = clog_dispatcher_direct_close d in Some (None, clog_free m))
         | Async_dispatcher \<Rightarrow> map_option (\<lambda>(d, m). (None, clog_free m)) (clog_dispatcher_async_thread_close answer ret d m)))"

subsection \<open>Blocks\<close>

text \<open>
  Opening either takes three blocks, one of which the thread frees, or none; in between there are
  notifications; closing gives back the other two.
\<close>

lemma sem_create_cases:
  assumes "clog_sem_create init_ok m = (s, m')"
  shows "case s of None \<Rightarrow> live m' = live m | Some sem \<Rightarrow> sem_valid sem \<and> live m' = live m + 1"
  using assms by (auto simp: clog_sem_create_def clog_malloc_def clog_free_def split: if_splits)

lemma open_cases:
  assumes op: "clog_dispatcher_async_thread_open init_ok start ret self m = (res, self', m')"
    and none: "di_extra self = None"
  shows "if res = CLOG_SUCCESS
    then (\<exists>p sem. self' = self\<lparr>di_extra := Some p\<rparr> \<and> ap_sem p = Some sem \<and> sem_valid sem \<and> ap_posts p = 0) \<and> live m' = live m + 3
    else self' = self \<and> live m' = live m"
proof -
  obtain b m1 where b: "clog_malloc sizeof_async_param m = (b, m1)" by fastforce
  show ?thesis
  proof (cases b)
    case False
    with op b live_clog_mallocD [OF b] show ?thesis by (auto simp: clog_dispatcher_async_thread_open_def)
  next
    case True
    obtain s m2 where s: "clog_sem_create init_ok m1 = (s, m2)" by fastforce
    show ?thesis
    proof (cases s)
      case None
      with op b True s live_clog_mallocD [OF b] sem_create_cases [OF s] show ?thesis
        by (auto simp: clog_dispatcher_async_thread_open_def mem_simps)
    next
      case (Some sem)
      obtain r data m3 where t: "clog_thread_create start True None (Some ()) () sizeof_dispatcher m2 = (r, data, m3)"
        by (metis prod_cases3)
      have self: "self\<lparr>di_extra := None\<rparr> = self" using none by (cases self) simp
      from thread_create_cases [OF t] op b True s Some t live_clog_mallocD [OF b] sem_create_cases [OF s] self
      show ?thesis by (cases data) (auto simp: clog_dispatcher_async_thread_open_def clog_sem_destroy_def mem_simps)
    qed
  qed
qed

fun notify_all :: "clog_dispatcher_event list \<Rightarrow> clog_dispatcher \<Rightarrow> clog_dispatcher option" where
  "notify_all [] d = Some d"
| "notify_all (e # es) d = (case clog_dispatcher_async_thread_notify e d of None \<Rightarrow> None | Some d \<Rightarrow> notify_all es d)"

lemma notify_all_posts:
  "di_extra d = Some p \<Longrightarrow> \<exists>p'. notify_all es d = Some (d\<lparr>di_extra := Some p'\<rparr>) \<and> ap_sem p' = ap_sem p \<and>
     ap_posts p' = ap_posts p + length es"
proof (induction es arbitrary: d p)
  case Nil
  then show ?case by (intro exI [of _ p]) (cases d, simp)
next
  case (Cons e es)
  have "\<exists>q. clog_dispatcher_async_thread_notify e d = Some (d\<lparr>di_extra := Some q\<rparr>) \<and> ap_sem q = ap_sem p \<and> ap_posts q = ap_posts p + 1"
    using Cons.prems by (cases e) (rule exI, simp add: clog_dispatcher_async_thread_notify_def, rule conjI, rule refl, simp)+
  then obtain q where q: "clog_dispatcher_async_thread_notify e d = Some (d\<lparr>di_extra := Some q\<rparr>)"
    "ap_sem q = ap_sem p" "ap_posts q = ap_posts p + 1" by blast
  have "di_extra (d\<lparr>di_extra := Some q\<rparr>) = Some q" by simp
  from Cons.IH [OF this] q show ?case by auto
qed

subsection \<open>Properties\<close>



end
