(* ===== verification/Spec2Isabelle.thy ===== *)
theory Spec2Isabelle
  imports Log_Filter Dispatcher Config_Roundtrip Datetime Buffer_Pool Logger Std_Recorder File_Recorder Mem_Pool
    Atomic_Queue_Steps Error_Log Hooks Async_Life
begin

text \<open>
  A verification development for casca_log, a logging library in C. All paths are under src/.

  The program. A logging context (source/casca_log_core.c) is configured by calls: modules with a
  level and a list of recorders (by hand or from a configuration file), a format, tags, filters,
  a channel, a dispatcher; \<open>clog_context_setup\<close> starts it. A log call looks up its module,
  compares the level, runs the filters, takes an item from the buffer pool, prints the message
  with the format, and writes the item's address to the channel. The dispatcher reads the channel,
  on the same thread or on its own, hands each item to the recorders it names, and releases it.
  The rest of the library is what this is made of: containers, lock-free structures with
  their reclamation, parsers, files.

  Theories, from the bottom up, with the code they model.

  \<^item> \<open>Prelude\<close>: the memory behind \<open>clog_malloc\<close> and \<open>clog_free\<close> (source/hooks/clog_hooks.h), heaps, and
    the facts and collections all theories share. \<open>Base\<close>: include/casca_log_base.h,
    casca_log_config.h, result codes and error numbers. \<open>Secure_Func\<close>: utils/clog_secure_func.c, .h.
    \<open>Error_Log\<close>: utils/clog_error.c, the log of the library's own errors. \<open>Hooks\<close>: hooks/clog_hooks.c.
    \<open>Sync\<close>: utils/clog_mutex.c, clog_rwlock.c, clog_semaphore.c, clog_thread.c.
  \<^item> \<open>Hashmap\<close>, \<open>Hashmap_Correct\<close>, \<open>Hashmap_Maps\<close>: utils/clog_hashmap.c. Every operation refines one
    of a partial function, and accounts for the blocks, for the keys of the locales
    \<open>key_contract\<close> and \<open>block_contract\<close>.
  \<^item> \<open>Queue\<close>: utils/clog_queue.c, and the locale \<open>fifo_queue\<close>. \<open>MPSC_Queue\<close>:
    utils/clog_atomic_mpsc_queue.c as steps of any number of producers and the consumer. \<open>Ebr\<close>,
    \<open>Ebr_Correct\<close>: utils/clog_ebr.c, the epoch-based reclamation, as calls and as steps.
    \<open>Atomic_Queue\<close>: utils/clog_atomic_queue.c on top of it, \<open>Atomic_Queue_Steps\<close> its steps. \<open>Buffer_Pool\<close>: utils/clog_buffer_pool.c.
    \<open>Mem_Pool\<close>: utils/clog_mem_pool.c.
  \<^item> \<open>Interpolator\<close>: utils/clog_interpolator.c, formats with placeholders. \<open>Formatter\<close>:
    formatter/clog_formatter.c and clog_log_format_placeholder.c. \<open>Datetime\<close>: utils/clog_datetime.c.
  \<^item> \<open>Config\<close>, \<open>Config_Correct\<close>, \<open>Config_Dump\<close>, \<open>Config_Roundtrip\<close>: utils/clog_config.c and
    clog_config_ext.c: parser, lookups, printing, and the round trip.
  \<^item> \<open>Channel\<close>: channel/*.c, with the locale \<open>log_channel\<close>. \<open>Log_Filter\<close>: filter/*.c and the ordered
    insertion of the core. \<open>Dispatcher\<close>: dispatcher/*.c, the thread of the asynchronous one as a step
    relation. \<open>Async_Life\<close>: the structs of the dispatchers, their opening and closing.
  \<^item> \<open>File_Path\<close>, \<open>File_System\<close>: utils/clog_file_system.c. \<open>File_Recorder\<close>: recorder/clog_recorder_file.c with
    utils/clog_interpolator_default_placeholder.h. \<open>Std_Recorder\<close>: recorder/clog_recorder_stdout.c and
    clog_recorder_syslog.c.
  \<^item> \<open>Core\<close> (context, modules, configuration), \<open>Core_Log\<close> (format, filters, setup, log calls):
    casca_log_core.c. \<open>Core_Correct\<close>: the context as a state machine over the locale \<open>plugins\<close>.
    \<open>Core_Modules\<close>: what configuring stores. \<open>Core_System\<close>: a whole logger made of the models of its
    parts. \<open>Logger\<close>: the properties of the whole.

  Interfaces. A locale states what a client relies on; its laws are proved for the models of the
  code that provide it, in their theories: \<open>fifo_queue\<close> for the linked queue (\<open>linked_queue\<close>), the
  lock-free queue (\<open>mpsc\<close>) and the queue with reclamation (\<open>atomic_fifo\<close>); \<open>log_channel\<close> for both
  channels (\<open>unsafe_channel\<close>, \<open>atomic_channel\<close>), which the loops of the dispatchers are proved over;
  \<open>key_contract\<close> and \<open>block_contract\<close> for string keys (\<open>string_keys\<close>, used for modules and
  placeholders) and keys of fixed size (\<open>id_keys\<close>, used for the recorders); \<open>plugins\<close> for the linked
  queue with the direct dispatcher (\<open>direct\<close>).

  Conventions. A C struct is a record, an enum or tagged union a datatype, a pointer that may be
  NULL an option or an address of a heap. Undefined behaviour (an access to freed memory, outside
  a buffer, through NULL) and a loop that does not end are \<open>None\<close>, so a result \<open>Some\<close> excludes
  both. Every allocation may be refused: the \<open>n\<close>-th request is granted when \<open>grants n\<close> holds, for
  any function, and \<open>live\<close> counts the blocks, so that \<open>live\<close> unchanged is the absence of leaks and
  of second releases. Machine integers have their width where they can wrap (hashes, epochs,
  timestamps, counters, sizes in the interpolator and the pools); elsewhere they are numbers, within
  the bounds the code checks. Threads are numbers, atomics are sequentially consistent, and one step
  is one access to shared memory.

  What the lemmas show, by part.

  \<^item> The whole logger: each log call that passes the check of its module and the filters reaches exactly the recorders
    it names, in order, with the text the format makes of it; setup brings the context to
    its running state, from which configuring is refused; modules always fit their array.
  \<^item> Containers: refinement of lists and partial functions under any sequence of calls, no leak,
    no access to freed memory; for the pools, that blocks handed out are distinct and big enough.
  \<^item> Concurrency: for both lock-free queues, order and memory safety in every interleaving; for the
    reclamation, that nothing a thread in a critical section holds is released, and nothing is
    released twice or lost, while the entries for retired memory are granted; for the dispatcher's
    thread, that no item is lost or reordered and all are processed when closing returns; that the lines of the error log are handed out once.
  \<^item> Texts: parsing undoes printing (interpolator formats, configurations, meta information of the
    file recorder), normalising a path equals a reference, the parser ends, leaks
    nothing and returns well-formed trees, printing stays in its buffer or says it does not.
  \<^item> Files: when a flush succeeds and what it has done, when rotation is requested, that creating a
    directory creates every part of its path.
  \<^item> What the code does differently from what it means to is a lemma or a branch of a model where it
    could be stated; the properties hold of the code as it is.

  Bounds and fuel. Only the recursion of the configuration parser over nested arrays has fuel:
  \<open>fuel_for\<close> gives it two more than twice the length of the value, and since every two calls take a
  character, \<open>NoFuel\<close> is shown not to occur.
  Other loops are structural, have a measure, or are partial functions whose ending is proved where
  a property needs it.

  Not modelled. What the platform's mutexes, semaphores, threads and read-write locks do is not code
  of the repository: the wrappers are modelled with what the platform returns as a parameter, and
  what it guarantees is in the step relations (a mutex has one owner, a wait takes a post). The
  core is modelled with one thread at a time in it. Log calls of several threads hold its lock for
  reading together; what they share then, the queue and the pool, has models of its own with
  interleaved steps, but that \<open>clog_hashmap_get\<close> moves entries within a chain, which two of them may do at
  once, is outside of the model. The branches for
  Windows and MSVC are other code for the same operations. The types of utils/clog_atomic_types.h
  and clog_platform.h, the calls that only pass on to the platform (\<open>clog_thread_self\<close>, \<open>clog_thread_exit\<close>,
  \<open>clog_thread_yield\<close>, the unlocking of read-write locks), the demo and the tests are left out. printf,
  vsnprintf, strtod, localtime and the system calls are the platform's: what they produce is a
  parameter. Weaker memory orders than sequential consistency are not considered.
\<close>

end
